(* ===== verification/Prelude.thy ===== *)
theory Prelude
  imports Main
begin

text \<open>
  Shared vocabulary of the development.

  \<^item> \<open>failure\<close> and \<open>'a result\<close>: the ways a C++ function of the repository fails to return
    (\<open>myAssert\<close> ends the process with \<open>std::exit\<close>, a vector is indexed outside its bounds, a library
    exception leaves the function), as values. A handler of type \<open>\<dots> result\<close> returns
    \<open>Inr\<close> exactly when the C++ function returns.
  \<^item> \<open>rbind\<close>, \<open>myAssert\<close>, \<open>vget\<close>: sequencing, assertions and \<open>vector::operator[]\<close> in that type.
  \<^item> generic facts on lists and sums that the component theories share, collected in
    \<open>result_simps\<close> and \<open>vec_simps\<close>.
\<close>

named_theorems result_simps \<open>evaluation of the result type\<close>
named_theorems vec_simps \<open>facts on vectors and list updates\<close>
named_theorems node_simps \<open>projections of the state of a replica\<close>
named_theorems inv_intros \<open>introduction rules of invariants\<close>

section \<open>Failures as values\<close>

datatype failure =
    AssertFailed string
  | OutOfBounds string
  | Uncaught string

type_synonym 'a result = "failure + 'a"

definition rbind :: "'a result \<Rightarrow> ('a \<Rightarrow> 'b result) \<Rightarrow> 'b result" where
  "rbind m f = (case m of Inl e \<Rightarrow> Inl e | Inr x \<Rightarrow> f x)"

text \<open>\<open>myAssert(condition, message)\<close> of \<open>common/util.cpp\<close>: a false condition ends the process.\<close>

definition myAssert :: "bool \<Rightarrow> string \<Rightarrow> unit result" where
  "myAssert condition message = (if condition then Inr () else Inl (AssertFailed message))"

text \<open>\<open>v[i]\<close> with a signed index: outside the bounds the C++ behaviour is undefined.\<close>

definition vget :: "'a list \<Rightarrow> int \<Rightarrow> 'a result" where
  "vget v i = (if 0 \<le> i \<and> i < int (length v) then Inr (v ! nat i) else Inl (OutOfBounds ''vector''))"

definition vset :: "'a list \<Rightarrow> int \<Rightarrow> 'a \<Rightarrow> 'a list result" where
  "vset v i x =
     (if 0 \<le> i \<and> i < int (length v) then Inr (v[nat i := x]) else Inl (OutOfBounds ''vector''))"

lemma rbind_Inl [simp, result_simps]: "rbind (Inl e) f = Inl e"
  by (simp add: rbind_def)

lemma rbind_Inr [simp, result_simps]: "rbind (Inr x) f = f x"
  by (simp add: rbind_def)

lemma rbind_eq_Inr [result_simps]: "rbind m f = Inr y \<longleftrightarrow> (\<exists>x. m = Inr x \<and> f x = Inr y)"
  by (cases m) auto

lemma rbind_assoc [result_simps]: "rbind (rbind m f) g = rbind m (\<lambda>x. rbind (f x) g)"
  by (cases m) auto

lemma rbind_cong [fundef_cong]:
  "m = m' \<Longrightarrow> (\<And>x. m' = Inr x \<Longrightarrow> f x = g x) \<Longrightarrow> rbind m f = rbind m' g"
  by (cases m') auto

lemma myAssert_True [simp, result_simps]: "myAssert True msg = Inr ()"
  by (simp add: myAssert_def)

lemma myAssert_eq_Inr [simp, result_simps]: "myAssert c msg = Inr u \<longleftrightarrow> c"
  by (simp add: myAssert_def)

lemma rbind_myAssert [result_simps]:
  "rbind (myAssert c msg) f = (if c then f () else Inl (AssertFailed msg))"
  by (simp add: myAssert_def)

lemma vget_eq_Inr [vec_simps]: "vget v i = Inr x \<longleftrightarrow> 0 \<le> i \<and> i < int (length v) \<and> x = v ! nat i"
  by (auto simp: vget_def)

lemma vget_nat [simp, vec_simps]: "i < length v \<Longrightarrow> vget v (int i) = Inr (v ! i)"
  by (simp add: vget_def)

lemma vset_eq_Inr [vec_simps]:
  "vset v i x = Inr w \<longleftrightarrow> 0 \<le> i \<and> i < int (length v) \<and> w = v[nat i := x]"
  by (auto simp: vset_def)

section \<open>Numbered lists\<close>

text \<open>
  A list is \<open>numbered f k xs\<close> when the field \<open>f\<close> of its elements counts upwards from \<open>k + 1\<close>:
  the shape of every log suffix that starts after index \<open>k\<close>.
\<close>

definition numbered :: "('a \<Rightarrow> int) \<Rightarrow> int \<Rightarrow> 'a list \<Rightarrow> bool" where
  "numbered f k xs \<longleftrightarrow> (\<forall>i < length xs. f (xs ! i) = k + 1 + int i)"

lemma numbered_Nil [simp]: "numbered f k []"
  by (simp add: numbered_def)

lemma numbered_Cons: "numbered f k (x # xs) \<longleftrightarrow> f x = k + 1 \<and> numbered f (k + 1) xs"
proof -
  have "(\<forall>i < Suc (length xs). f ((x # xs) ! i) = k + 1 + int i) \<longleftrightarrow>
        f x = k + 1 \<and> (\<forall>i < length xs. f (xs ! i) = k + 2 + int i)"
    by (auto simp: less_Suc_eq_0_disj)
  then show ?thesis
    by (simp add: numbered_def algebra_simps)
qed

lemma numbered_append:
  "numbered f k (xs @ ys) \<longleftrightarrow> numbered f k xs \<and> numbered f (k + int (length xs)) ys"
  by (induction xs arbitrary: k) (auto simp: numbered_Cons algebra_simps)

lemma numbered_last: "numbered f k xs \<Longrightarrow> xs \<noteq> [] \<Longrightarrow> f (last xs) = k + int (length xs)"
  by (auto simp: numbered_def last_conv_nth of_nat_diff Suc_le_eq)

lemma numbered_snoc:
  "numbered f k (xs @ [x]) \<longleftrightarrow> numbered f k xs \<and> f x = k + int (length xs) + 1"
  by (simp add: numbered_append numbered_Cons)

lemma numbered_drop: "numbered f k xs \<Longrightarrow> n \<le> length xs \<Longrightarrow> numbered f (k + int n) (drop n xs)"
  by (simp add: numbered_def algebra_simps)

lemma numbered_update:
  "numbered f k xs \<Longrightarrow> i < length xs \<Longrightarrow> f x = k + 1 + int i \<Longrightarrow> numbered f k (xs[i := x])"
  by (auto simp: numbered_def nth_list_update)

lemma numbered_nth: "numbered f k xs \<Longrightarrow> i < length xs \<Longrightarrow> f (xs ! i) = k + 1 + int i"
  by (simp add: numbered_def)

section \<open>Lists\<close>

lemma nth_update_eq [vec_simps]: "i < length xs \<Longrightarrow> xs[i := x] ! j = (if j = i then x else xs ! j)"
  by (simp add: nth_list_update)

lemma set_update_mem [vec_simps]: "y \<in> set (xs[i := x]) \<Longrightarrow> y = x \<or> y \<in> set xs"
  using set_update_subset_insert [of xs i x] by auto

lemma map_const_replicate [simp]: "map (\<lambda>_. c) xs = replicate (length xs) c"
  by (induction xs) auto

end
