(* ===== verification/Archive.thy ===== *)
theory Archive
  imports Prelude "HOL-Library.Countable"
begin

text \<open>
  The messages the replicas exchange and store, and the serialisation libraries they are
  stored with.

  \<open>logEntry\<close> is the protobuf message \<open>LogEntry\<close>, \<open>persistNode\<close> the class
  \<open>BoostPersistRaftNode\<close> of \<open>raft.h\<close>, \<open>op\<close> the class \<open>Op\<close> of \<open>common/include/util.h\<close>,
  \<open>skipListDump\<close> the class \<open>SkipListDump\<close> of \<open>skipList.h\<close> and \<open>kvArchive\<close> the two fields that
  \<open>KvServer::serialize\<close> archives.

  Protobuf and Boost.Serialization are not part of the repository: their encoders are the
  fields of a record \<open>codec\<close> that every definition using them takes as an argument.
  \<open>codec_ok\<close> is what their documentation promises, that reading back what was written gives
  the value again; \<open>unary_codec\<close> is a codec that satisfies it.
\<close>

record logEntry =
  command :: string
  logterm :: int
  logindex :: int

record persistNode =
  pn_currentTerm :: int
  pn_votedFor :: int
  pn_lastSnapshotIncludeIndex :: int
  pn_lastSnapshotIncludeTerm :: int
  pn_logs :: "string list"

record op =
  Operation :: string
  Key :: string
  Value :: string
  ClientId :: string
  RequestId :: int

record skipListDump =
  keyDumpVt :: "string list"
  valDumpVt :: "string list"

record kvArchive =
  ka_serializedKVData :: string
  ka_lastRequestId :: "(string \<times> int) list"

record codec =
  SerializeAsString :: "logEntry \<Rightarrow> string"
  ParseFromString :: "string \<Rightarrow> logEntry option"
  oarchive_node :: "persistNode \<Rightarrow> string"
  iarchive_node :: "string \<Rightarrow> persistNode option"
  oarchive_op :: "op \<Rightarrow> string"
  iarchive_op :: "string \<Rightarrow> op option"
  oarchive_dump :: "skipListDump \<Rightarrow> string"
  iarchive_dump :: "string \<Rightarrow> skipListDump option"
  oarchive_kv :: "kvArchive \<Rightarrow> string"
  iarchive_kv :: "string \<Rightarrow> kvArchive option"

definition codec_ok :: "codec \<Rightarrow> bool" where
  "codec_ok c \<longleftrightarrow>
     (\<forall>e. ParseFromString c (SerializeAsString c e) = Some e) \<and>
     (\<forall>p. iarchive_node c (oarchive_node c p) = Some p \<and> oarchive_node c p \<noteq> []) \<and>
     (\<forall>x. iarchive_op c (oarchive_op c x) = Some x) \<and>
     (\<forall>d. iarchive_dump c (oarchive_dump c d) = Some d \<and> oarchive_dump c d \<noteq> []) \<and>
     (\<forall>k. iarchive_kv c (oarchive_kv c k) = Some k \<and> oarchive_kv c k \<noteq> [])"

text \<open>\<open>Op::asString\<close> and \<open>Op::parseFromString\<close>; a malformed archive throws.\<close>

definition asString :: "codec \<Rightarrow> op \<Rightarrow> string" where
  "asString c x = oarchive_op c x"

definition op_parseFromString :: "codec \<Rightarrow> string \<Rightarrow> op result" where
  "op_parseFromString c str =
     (case iarchive_op c str of None \<Rightarrow> Inl (Uncaught ''archive_exception'') | Some x \<Rightarrow> Inr x)"

lemma op_parse_asString [simp]: "codec_ok c \<Longrightarrow> op_parseFromString c (asString c x) = Inr x"
  by (simp add: codec_ok_def asString_def op_parseFromString_def)

section \<open>A codec that satisfies the documented laws\<close>

definition enc :: "'a::countable \<Rightarrow> string" where
  "enc x = replicate (Suc (to_nat x)) CHR ''1''"

definition dec :: "string \<Rightarrow> 'a::countable" where
  "dec s = from_nat (length s - 1)"

lemma dec_enc [simp]: "dec (enc x) = x"
  by (simp add: enc_def dec_def)

lemma enc_nonempty [simp]: "enc x \<noteq> []"
  by (simp add: enc_def)

definition unary_codec :: codec where
  "unary_codec =
     \<lparr>SerializeAsString = (\<lambda>e. enc (command e, logterm e, logindex e)),
      ParseFromString = (\<lambda>s. case dec s of (x, t, i) \<Rightarrow>
        Some \<lparr>command = x, logterm = t, logindex = i\<rparr>),
      oarchive_node = (\<lambda>p. enc (pn_currentTerm p, pn_votedFor p, pn_lastSnapshotIncludeIndex p,
        pn_lastSnapshotIncludeTerm p, pn_logs p)),
      iarchive_node = (\<lambda>s. case dec s of (a, b, d, e, f) \<Rightarrow>
        Some \<lparr>pn_currentTerm = a, pn_votedFor = b, pn_lastSnapshotIncludeIndex = d,
          pn_lastSnapshotIncludeTerm = e, pn_logs = f\<rparr>),
      oarchive_op = (\<lambda>x. enc (Operation x, Key x, Value x, ClientId x, RequestId x)),
      iarchive_op = (\<lambda>s. case dec s of (a, b, d, e, f) \<Rightarrow>
        Some \<lparr>Operation = a, Key = b, Value = d, ClientId = e, RequestId = f\<rparr>),
      oarchive_dump = (\<lambda>d. enc (keyDumpVt d, valDumpVt d)),
      iarchive_dump = (\<lambda>s. case dec s of (a, b) \<Rightarrow> Some \<lparr>keyDumpVt = a, valDumpVt = b\<rparr>),
      oarchive_kv = (\<lambda>k. enc (ka_serializedKVData k, ka_lastRequestId k)),
      iarchive_kv = (\<lambda>s. case dec s of (a, b) \<Rightarrow>
        Some \<lparr>ka_serializedKVData = a, ka_lastRequestId = b\<rparr>)\<rparr>"

lemma unary_codec_ok [simp]: "codec_ok unary_codec"
  by (simp add: codec_ok_def unary_codec_def)

end
