(* ===== verification/Persister.thy ===== *)
theory Persister
  imports Prelude
begin

text \<open>
  \<open>raftCore/Persister.cpp\<close>: the two files a replica writes its state and its snapshot to.

  An \<open>ofile\<close> is a file together with the \<open>std::ofstream\<close> bound to it: \<open>disk\<close> is what another
  stream opened on the file reads, \<open>pending\<close> what was written and not yet flushed. Closing flushes;
  opening an \<open>ofstream\<close> without \<open>app\<close> truncates the file. Reading with \<open>operator>>\<close> into a string
  gives the first word only.
\<close>

section \<open>Files and output streams\<close>

record ofile =
  disk :: string
  pending :: string

definition ofile_close :: "ofile \<Rightarrow> ofile" where
  "ofile_close f = \<lparr>disk = disk f @ pending f, pending = []\<rparr>"

definition ofile_open :: "ofile \<Rightarrow> ofile" where
  "ofile_open f = \<lparr>disk = [], pending = []\<rparr>"

definition ofile_write :: "string \<Rightarrow> ofile \<Rightarrow> ofile" where
  "ofile_write str f = f\<lparr>pending := pending f @ str\<rparr>"

definition is_space :: "char \<Rightarrow> bool" where
  "is_space ch \<longleftrightarrow> ch = CHR '' '' \<or> ch = CHR 0x09 \<or> ch = CHR 0x0A \<or> ch = CHR 0x0B \<or>
     ch = CHR 0x0C \<or> ch = CHR 0x0D"

definition read_word :: "string \<Rightarrow> string" where
  "read_word str = takeWhile (\<lambda>ch. \<not> is_space ch) (dropWhile is_space str)"

section \<open>The class Persister\<close>

record persister =
  m_raftStateFile :: ofile
  m_snapshotFile :: ofile
  m_raftStateSize :: int

definition Persister :: "persister \<Rightarrow> persister" where
  "Persister p = \<lparr>m_raftStateFile = ofile_open (m_raftStateFile p),
     m_snapshotFile = ofile_open (m_snapshotFile p), m_raftStateSize = 0\<rparr>"

definition clearRaftState :: "persister \<Rightarrow> persister" where
  "clearRaftState p = p\<lparr>m_raftStateSize := 0,
     m_raftStateFile := ofile_open (ofile_close (m_raftStateFile p))\<rparr>"

definition clearSnapshot :: "persister \<Rightarrow> persister" where
  "clearSnapshot p = p\<lparr>m_snapshotFile := ofile_open (ofile_close (m_snapshotFile p))\<rparr>"

definition clearRaftStateAndSnapshot :: "persister \<Rightarrow> persister" where
  "clearRaftStateAndSnapshot p = clearSnapshot (clearRaftState p)"

definition Save :: "string \<Rightarrow> string \<Rightarrow> persister \<Rightarrow> persister" where
  "Save raftstate snapshot p =
     (let q = clearRaftStateAndSnapshot p in
      q\<lparr>m_raftStateFile := ofile_write raftstate (m_raftStateFile q),
        m_snapshotFile := ofile_write snapshot (m_snapshotFile q)\<rparr>)"

definition SaveRaftState :: "string \<Rightarrow> persister \<Rightarrow> persister" where
  "SaveRaftState data p =
     (let q = clearRaftState p in
      q\<lparr>m_raftStateFile := ofile_write data (m_raftStateFile q),
        m_raftStateSize := m_raftStateSize q + int (length data)\<rparr>)"

definition RaftStateSize :: "persister \<Rightarrow> int" where
  "RaftStateSize p = m_raftStateSize p"

definition ReadRaftState :: "persister \<Rightarrow> string" where
  "ReadRaftState p = read_word (disk (m_raftStateFile p))"

text \<open>\<open>ReadSnapshot\<close> closes the stream, reads a word and reopens the stream, which truncates.\<close>

definition ReadSnapshot :: "persister \<Rightarrow> string \<times> persister" where
  "ReadSnapshot p =
     (let f = ofile_close (m_snapshotFile p) in
      (read_word (disk f), p\<lparr>m_snapshotFile := ofile_open f\<rparr>))"

text \<open>\<open>~Persister\<close> closes both streams.\<close>

definition delete_Persister :: "persister \<Rightarrow> persister" where
  "delete_Persister p = p\<lparr>m_raftStateFile := ofile_close (m_raftStateFile p),
     m_snapshotFile := ofile_close (m_snapshotFile p)\<rparr>"

lemmas persister_defs = Persister_def clearRaftState_def clearSnapshot_def
  clearRaftStateAndSnapshot_def Save_def SaveRaftState_def RaftStateSize_def ReadRaftState_def
  ReadSnapshot_def delete_Persister_def ofile_close_def ofile_open_def ofile_write_def Let_def

section \<open>What the files hold\<close>

text \<open>The content of the snapshot file once its stream is closed.\<close>

definition snapshot_content :: "persister \<Rightarrow> string" where
  "snapshot_content p = disk (m_snapshotFile p) @ pending (m_snapshotFile p)"

definition raftstate_content :: "persister \<Rightarrow> string" where
  "raftstate_content p = disk (m_raftStateFile p) @ pending (m_raftStateFile p)"

lemma raftstate_content_simps [simp]:
  "raftstate_content (SaveRaftState d p) = d"
  "raftstate_content (Save d sn p) = d"
  "raftstate_content (Persister p) = []"
  "raftstate_content (snd (ReadSnapshot p)) = raftstate_content p"
  by (simp_all add: raftstate_content_def persister_defs)

lemma snapshot_content_simps [simp]:
  "snapshot_content (SaveRaftState d p) = snapshot_content p"
  "snapshot_content (Save d sn p) = sn"
  "snapshot_content (Persister p) = []"
  "snapshot_content (snd (ReadSnapshot p)) = []"
  by (simp_all add: snapshot_content_def persister_defs)

lemma ReadSnapshot_word: "fst (ReadSnapshot p) = read_word (snapshot_content p)"
  by (simp add: snapshot_content_def persister_defs)

lemma read_word_Nil [simp]: "read_word [] = []"
  by (simp add: read_word_def)

lemma read_word_no_space: "ch \<in> set (read_word str) \<Longrightarrow> \<not> is_space ch"
  by (auto simp: read_word_def dest: set_takeWhileD)

lemma read_word_id_iff: "read_word str = str \<longleftrightarrow> (\<forall>ch \<in> set str. \<not> is_space ch)"
proof
  show "read_word str = str \<Longrightarrow> \<forall>ch \<in> set str. \<not> is_space ch"
    using read_word_no_space by metis
next
  assume clean: "\<forall>ch \<in> set str. \<not> is_space ch"
  then have "dropWhile is_space str = str"
    by (cases str) auto
  with clean show "read_word str = str"
    by (simp add: read_word_def)
qed

end
