(* ===== verification/RaftNode.thy ===== *)
theory RaftNode
  imports Archive Persister
begin

text \<open>
  \<open>raftCore/raft.cpp\<close>, \<open>raftCore/include/raft.h\<close> and \<open>ApplyMsg.h\<close>: the state of one replica and
  every member function of class \<open>Raft\<close>, one definition per function.

  Each function body runs under \<open>m_mtx\<close>, so a definition is one atomic step of the replica: it
  maps the state before the lock is taken to the state after it is released. The functions that
  release the lock around a remote call (\<open>sendRequestVote\<close>, \<open>sendAppendEntries\<close>,
  \<open>leaderSendSnapShot\<close>) are modelled by their locked parts, with the outcome of the call as an
  argument. A thread or heartbeat a function starts is a value of type \<open>spawn\<close> in its result.
  The clock \<open>now()\<close> is the argument \<open>clk\<close>. Protobuf and Boost are the argument \<open>c\<close>.
  \<open>shared_ptr<int>\<close> counters are passed and returned. C++ \<open>int\<close> is HOL \<open>int\<close>: terms and indices
  only ever grow by one from 0, and signed overflow is undefined in C++.
\<close>

section \<open>Constants, messages and state\<close>

definition Disconnected :: int where "Disconnected = 0"
definition AppNormal :: int where "AppNormal = 1"
definition Voted :: int where "Voted = 1"
definition Expire :: int where "Expire = 2"
definition Normal :: int where "Normal = 3"

datatype status = Follower | Candidate | Leader

record applyMsg =
  CommandValid :: bool
  Command :: string
  CommandIndex :: int
  SnapshotValid :: bool
  Snapshot_data :: string
  SnapshotTerm :: int
  SnapshotIndex :: int

definition ApplyMsg :: applyMsg where
  "ApplyMsg = \<lparr>CommandValid = False, Command = [], CommandIndex = -1, SnapshotValid = False,
     Snapshot_data = [], SnapshotTerm = -1, SnapshotIndex = -1\<rparr>"

record requestVoteArgs =
  rva_term :: int
  rva_candidateid :: int
  rva_lastlogindex :: int
  rva_lastlogterm :: int

record requestVoteReply =
  rvr_term :: int
  rvr_votegranted :: bool
  rvr_votestate :: int

record appendEntriesArgs =
  aea_term :: int
  aea_leaderid :: int
  aea_prevlogindex :: int
  aea_prevlogterm :: int
  aea_entries :: "logEntry list"
  aea_leadercommit :: int

record appendEntriesReply =
  aer_term :: int
  aer_success :: bool
  aer_updatenextindex :: int
  aer_appstate :: int

record installSnapshotRequest =
  isr_leaderid :: int
  isr_term :: int
  isr_lastsnapshotincludeindex :: int
  isr_lastsnapshotincludeterm :: int
  isr_data :: string

text \<open>A freshly constructed proto3 message has every field at its zero value.\<close>

definition RequestVoteReply0 :: requestVoteReply where
  "RequestVoteReply0 = \<lparr>rvr_term = 0, rvr_votegranted = False, rvr_votestate = 0\<rparr>"

definition AppendEntriesReply0 :: appendEntriesReply where
  "AppendEntriesReply0 =
     \<lparr>aer_term = 0, aer_success = False, aer_updatenextindex = 0, aer_appstate = 0\<rparr>"

datatype spawn =
    SendRequestVote nat requestVoteArgs
  | SendAppendEntries nat appendEntriesArgs
  | LeaderSendSnapShot nat
  | DoHeartBeat
  | PushMsgToKvServer applyMsg

record raft =
  m_peers :: nat
  m_persister :: persister
  m_me :: int
  m_currentTerm :: int
  m_votedFor :: int
  m_logs :: "logEntry list"
  m_commitIndex :: int
  m_lastApplied :: int
  m_nextIndex :: "int list"
  m_matchIndex :: "int list"
  m_status :: status
  applyChan :: "applyMsg list"
  m_lastResetElectionTime :: int
  m_lastResetHearBeatTime :: int
  m_lastSnapshotIncludeIndex :: int
  m_lastSnapshotIncludeTerm :: int

section \<open>The log\<close>

definition getLastLogIndexAndTerm :: "raft \<Rightarrow> int \<times> int" where
  "getLastLogIndexAndTerm s =
     (if m_logs s = [] then (m_lastSnapshotIncludeIndex s, m_lastSnapshotIncludeTerm s)
      else (logindex (last (m_logs s)), logterm (last (m_logs s))))"

definition getLastLogIndex :: "raft \<Rightarrow> int" where
  "getLastLogIndex s = fst (getLastLogIndexAndTerm s)"

definition getLastLogTerm :: "raft \<Rightarrow> int" where
  "getLastLogTerm s = snd (getLastLogIndexAndTerm s)"

definition getNewCommandIndex :: "raft \<Rightarrow> int" where
  "getNewCommandIndex s = getLastLogIndex s + 1"

definition getSlicesIndexFromLogIndex :: "int \<Rightarrow> raft \<Rightarrow> int result" where
  "getSlicesIndexFromLogIndex logIndex s =
     rbind (myAssert (logIndex > m_lastSnapshotIncludeIndex s) ''index <= lastSnapshotIncludeIndex'') (\<lambda>_.
     rbind (myAssert (logIndex \<le> getLastLogIndex s) ''logIndex > lastLogIndex'') (\<lambda>_.
     Inr (logIndex - m_lastSnapshotIncludeIndex s - 1)))"

definition logAt :: "int \<Rightarrow> raft \<Rightarrow> logEntry result" where
  "logAt logIndex s = rbind (getSlicesIndexFromLogIndex logIndex s) (\<lambda>i. vget (m_logs s) i)"

definition getLogTermFromLogIndex :: "int \<Rightarrow> raft \<Rightarrow> int result" where
  "getLogTermFromLogIndex logIndex s =
     rbind (myAssert (logIndex \<ge> m_lastSnapshotIncludeIndex s) ''index < lastSnapshotIncludeIndex'') (\<lambda>_.
     rbind (myAssert (logIndex \<le> getLastLogIndex s) ''logIndex > lastLogIndex'') (\<lambda>_.
     if logIndex = m_lastSnapshotIncludeIndex s then Inr (m_lastSnapshotIncludeTerm s)
     else rbind (logAt logIndex s) (\<lambda>e. Inr (logterm e))))"

definition matchLog :: "int \<Rightarrow> int \<Rightarrow> raft \<Rightarrow> bool result" where
  "matchLog logIndex logTerm s =
     rbind (myAssert (logIndex \<ge> m_lastSnapshotIncludeIndex s \<and> logIndex \<le> getLastLogIndex s)
             ''matchLog'') (\<lambda>_.
     rbind (getLogTermFromLogIndex logIndex s) (\<lambda>t. Inr (logTerm = t)))"

definition UpToDate :: "int \<Rightarrow> int \<Rightarrow> raft \<Rightarrow> bool" where
  "UpToDate index trm s =
     (let lastIndex = getLastLogIndex s; lastTerm = getLastLogTerm s in
      trm > lastTerm \<or> (trm = lastTerm \<and> index \<ge> lastIndex))"

section \<open>Persistence\<close>

definition persistData :: "codec \<Rightarrow> raft \<Rightarrow> string" where
  "persistData c s = oarchive_node c
     \<lparr>pn_currentTerm = m_currentTerm s, pn_votedFor = m_votedFor s,
      pn_lastSnapshotIncludeIndex = m_lastSnapshotIncludeIndex s,
      pn_lastSnapshotIncludeTerm = m_lastSnapshotIncludeTerm s,
      pn_logs = map (SerializeAsString c) (m_logs s)\<rparr>"

definition persist :: "codec \<Rightarrow> raft \<Rightarrow> raft" where
  "persist c s = s\<lparr>m_persister := SaveRaftState (persistData c s) (m_persister s)\<rparr>"

text \<open>\<open>ParseFromString\<close> leaves the default message when the bytes do not parse.\<close>

definition parseLogEntry :: "codec \<Rightarrow> string \<Rightarrow> logEntry" where
  "parseLogEntry c str =
     (case ParseFromString c str of Some e \<Rightarrow> e | None \<Rightarrow> \<lparr>command = [], logterm = 0, logindex = 0\<rparr>)"

definition readPersist :: "codec \<Rightarrow> string \<Rightarrow> raft \<Rightarrow> raft result" where
  "readPersist c data s =
     (if data = [] then Inr s
      else case iarchive_node c data of
        None \<Rightarrow> Inl (Uncaught ''archive_exception'')
      | Some p \<Rightarrow> Inr (s\<lparr>m_currentTerm := pn_currentTerm p, m_votedFor := pn_votedFor p,
          m_lastSnapshotIncludeIndex := pn_lastSnapshotIncludeIndex p,
          m_lastSnapshotIncludeTerm := pn_lastSnapshotIncludeTerm p,
          m_logs := map (parseLogEntry c) (pn_logs p)\<rparr>))"

definition GetRaftStateSize :: "raft \<Rightarrow> int" where
  "GetRaftStateSize s = RaftStateSize (m_persister s)"

definition GetState :: "raft \<Rightarrow> int \<times> bool" where
  "GetState s = (m_currentTerm s, m_status s = Leader)"

text \<open>\<open>Raft::init\<close> up to the start of its timers, on a \<open>Raft\<close> object with empty vectors.\<close>

definition init :: "codec \<Rightarrow> int \<Rightarrow> nat \<Rightarrow> int \<Rightarrow> persister \<Rightarrow> raft result" where
  "init c clk peers me persister =
     rbind (readPersist c (ReadRaftState persister)
       \<lparr>m_peers = peers, m_persister = persister, m_me = me, m_currentTerm = 0, m_votedFor = -1,
        m_logs = [], m_commitIndex = 0, m_lastApplied = 0,
        m_nextIndex = replicate peers 0, m_matchIndex = replicate peers 0, m_status = Follower,
        applyChan = [], m_lastResetElectionTime = clk, m_lastResetHearBeatTime = clk,
        m_lastSnapshotIncludeIndex = 0, m_lastSnapshotIncludeTerm = 0\<rparr>) (\<lambda>s.
     Inr (if m_lastSnapshotIncludeIndex s > 0
          then s\<lparr>m_lastApplied := m_lastSnapshotIncludeIndex s\<rparr> else s))"

section \<open>Voting\<close>

definition RequestVote :: "codec \<Rightarrow> int \<Rightarrow> requestVoteArgs \<Rightarrow> raft \<Rightarrow> (raft \<times> requestVoteReply) result" where
  "RequestVote c clk args s =
     (if rva_term args < m_currentTerm s then
        Inr (persist c s, \<lparr>rvr_term = m_currentTerm s, rvr_votegranted = False, rvr_votestate = Expire\<rparr>)
      else
        let s1 = (if rva_term args > m_currentTerm s
                  then s\<lparr>m_status := Follower, m_currentTerm := rva_term args, m_votedFor := -1\<rparr> else s) in
        rbind (myAssert (rva_term args = m_currentTerm s1) ''RequestVote: term'') (\<lambda>_.
        if \<not> UpToDate (rva_lastlogindex args) (rva_lastlogterm args) s1 then
          Inr (persist c s1, \<lparr>rvr_term = m_currentTerm s1, rvr_votegranted = False, rvr_votestate = Voted\<rparr>)
        else if m_votedFor s1 \<noteq> -1 \<and> m_votedFor s1 \<noteq> rva_candidateid args then
          Inr (persist c s1, \<lparr>rvr_term = m_currentTerm s1, rvr_votegranted = False, rvr_votestate = Voted\<rparr>)
        else
          let s2 = s1\<lparr>m_votedFor := rva_candidateid args, m_lastResetElectionTime := clk\<rparr> in
          Inr (persist c s2, \<lparr>rvr_term = m_currentTerm s2, rvr_votegranted = True, rvr_votestate = Normal\<rparr>)))"

definition otherPeers :: "raft \<Rightarrow> nat list" where
  "otherPeers s = filter (\<lambda>i. int i \<noteq> m_me s) [0..<m_peers s]"

definition requestVoteArgsOf :: "raft \<Rightarrow> requestVoteArgs" where
  "requestVoteArgsOf s = \<lparr>rva_term = m_currentTerm s, rva_candidateid = m_me s,
     rva_lastlogindex = getLastLogIndex s, rva_lastlogterm = getLastLogTerm s\<rparr>"

text \<open>\<open>doElection\<close>: the new state, the counter \<open>votedNum\<close> when an election starts, the threads.\<close>

definition doElection :: "codec \<Rightarrow> int \<Rightarrow> raft \<Rightarrow> raft \<times> int option \<times> spawn list" where
  "doElection c clk s =
     (if m_status s = Leader then (s, None, [])
      else
        let s1 = persist c (s\<lparr>m_status := Candidate, m_currentTerm := m_currentTerm s + 1,
                              m_votedFor := m_me s\<rparr>);
            s2 = s1\<lparr>m_lastResetElectionTime := clk\<rparr> in
        (s2, Some 1, map (\<lambda>i. SendRequestVote i (requestVoteArgsOf s2)) (otherPeers s2)))"

text \<open>One round of \<open>electionTimeOutTicker\<close>: a leader sleeps; otherwise the ticker has read the clock
  (\<open>wakeTime\<close>), slept, and starts an election unless the timer was reset in between.\<close>

definition suitableSleepTime :: "int \<Rightarrow> int \<Rightarrow> int \<Rightarrow> int" where
  "suitableSleepTime timeout lastReset wakeTime = timeout + lastReset - wakeTime"

definition electionTimeOutTicker :: "codec \<Rightarrow> int \<Rightarrow> int \<Rightarrow> raft \<Rightarrow> raft \<times> int option \<times> spawn list" where
  "electionTimeOutTicker c wakeTime clk s =
     (if m_status s = Leader then (s, None, [])
      else if m_lastResetElectionTime s - wakeTime > 0 then (s, None, [])
      else doElection c clk s)"

text \<open>\<open>sendRequestVote\<close> after the remote call: \<open>ok\<close> and \<open>reply\<close> are its outcome, \<open>votedNum\<close> the shared
  counter of the election. The result carries the counter and, for a winner, the heartbeat thread.\<close>

definition sendRequestVote :: "codec \<Rightarrow> bool \<Rightarrow> requestVoteReply \<Rightarrow> int \<Rightarrow> raft \<Rightarrow> (raft \<times> int \<times> spawn list) result" where
  "sendRequestVote c ok reply votedNum s =
     (if \<not> ok then Inr (s, votedNum, [])
      else if rvr_term reply > m_currentTerm s then
        Inr (persist c (s\<lparr>m_status := Follower, m_currentTerm := rvr_term reply, m_votedFor := -1\<rparr>),
             votedNum, [])
      else if rvr_term reply < m_currentTerm s then Inr (s, votedNum, [])
      else
        rbind (myAssert (rvr_term reply = m_currentTerm s) ''reply.Term==rf.currentTerm'') (\<lambda>_.
        if \<not> rvr_votegranted reply then Inr (s, votedNum, [])
        else if votedNum + 1 \<ge> int (m_peers s div 2 + 1) then
          rbind (myAssert (m_status s \<noteq> Leader) ''leader twice in one term'') (\<lambda>_.
          if length (m_matchIndex s) < length (m_nextIndex s) then Inl (OutOfBounds ''m_matchIndex'')
          else
            let s1 = s\<lparr>m_status := Leader\<rparr>;
                n = length (m_nextIndex s1);
                s2 = s1\<lparr>m_nextIndex := replicate n (getLastLogIndex s1 + 1),
                        m_matchIndex := replicate n 0 @ drop n (m_matchIndex s1)\<rparr> in
            Inr (persist c s2, 0, [DoHeartBeat]))
        else Inr (s, votedNum + 1, [])))"

section \<open>Log replication\<close>

text \<open>The loop over \<open>args->entries\<close> of \<open>AppendEntries1\<close>.\<close>

fun appendEntriesLoop :: "logEntry list \<Rightarrow> raft \<Rightarrow> raft result" where
  "appendEntriesLoop [] s = Inr s"
| "appendEntriesLoop (log # rest) s =
     (if logindex log > getLastLogIndex s then
        appendEntriesLoop rest (s\<lparr>m_logs := m_logs s @ [log]\<rparr>)
      else
        rbind (getSlicesIndexFromLogIndex (logindex log) s) (\<lambda>i.
        rbind (vget (m_logs s) i) (\<lambda>old.
        rbind (myAssert (\<not> (logterm old = logterm log \<and> command old \<noteq> command log))
                ''same index and term, different command'') (\<lambda>_.
        if logterm old \<noteq> logterm log then
          rbind (vset (m_logs s) i log) (\<lambda>logs. appendEntriesLoop rest (s\<lparr>m_logs := logs\<rparr>))
        else appendEntriesLoop rest s))))"

text \<open>The loop of the mismatch branch: the first index below \<open>prevlogindex\<close> with another term.\<close>

function conflictSearch :: "int \<Rightarrow> int \<Rightarrow> raft \<Rightarrow> int option result" where
  "conflictSearch prev index s =
     (if index < m_lastSnapshotIncludeIndex s then Inr None
      else rbind (getLogTermFromLogIndex index s) (\<lambda>t.
           rbind (getLogTermFromLogIndex prev s) (\<lambda>tp.
           if t \<noteq> tp then Inr (Some (index + 1)) else conflictSearch prev (index - 1) s)))"
  by pat_completeness auto
termination
  by (relation "measure (\<lambda>(prev, index, s). nat (index - m_lastSnapshotIncludeIndex s + 1))") auto

declare conflictSearch.simps [simp del]

text \<open>\<open>AppendEntries1\<close> from the comparison of the logs on.\<close>

definition AppendEntries1_logs :: "appendEntriesArgs \<Rightarrow> appendEntriesReply \<Rightarrow> raft \<Rightarrow>
    (raft \<times> appendEntriesReply) result" where
  "AppendEntries1_logs args reply s =
     (let prev = aea_prevlogindex args in
      if prev > getLastLogIndex s then
        Inr (s, reply\<lparr>aer_success := False, aer_term := m_currentTerm s,
                      aer_updatenextindex := getLastLogIndex s + 1\<rparr>)
      else
        let reply1 = (if prev < m_lastSnapshotIncludeIndex s
                      then reply\<lparr>aer_success := False, aer_term := m_currentTerm s,
                                 aer_updatenextindex := m_lastSnapshotIncludeIndex s + 1\<rparr>
                      else reply) in
        rbind (matchLog prev (aea_prevlogterm args) s) (\<lambda>matches.
        if matches then
          rbind (appendEntriesLoop (aea_entries args) s) (\<lambda>s1.
          rbind (myAssert (getLastLogIndex s1 \<ge> prev + int (length (aea_entries args)))
                  ''lastLogIndex < prevLogIndex + len(entries)'') (\<lambda>_.
          let s2 = (if aea_leadercommit args > m_commitIndex s1
                    then s1\<lparr>m_commitIndex := min (aea_leadercommit args) (getLastLogIndex s1)\<rparr> else s1) in
          rbind (myAssert (getLastLogIndex s2 \<ge> m_commitIndex s2) ''lastLogIndex < commitIndex'') (\<lambda>_.
          Inr (s2, reply1\<lparr>aer_success := True, aer_term := m_currentTerm s2\<rparr>))))
        else
          rbind (conflictSearch prev prev s) (\<lambda>found.
          Inr (s, reply1\<lparr>aer_updatenextindex := (case found of None \<Rightarrow> prev | Some u \<Rightarrow> u),
                         aer_success := False, aer_term := m_currentTerm s\<rparr>))))"

definition AppendEntries1_body :: "int \<Rightarrow> appendEntriesArgs \<Rightarrow> appendEntriesReply \<Rightarrow> raft \<Rightarrow>
    (raft \<times> appendEntriesReply) result" where
  "AppendEntries1_body clk args reply s =
     (let s1 = (if aea_term args > m_currentTerm s
                then s\<lparr>m_status := Follower, m_currentTerm := aea_term args, m_votedFor := -1\<rparr> else s) in
      rbind (myAssert (aea_term args = m_currentTerm s1) ''args.Term == rf.currentTerm'') (\<lambda>_.
      AppendEntries1_logs args reply (s1\<lparr>m_status := Follower, m_lastResetElectionTime := clk\<rparr>)))"

definition AppendEntries1 :: "codec \<Rightarrow> int \<Rightarrow> appendEntriesArgs \<Rightarrow> raft \<Rightarrow> (raft \<times> appendEntriesReply) result" where
  "AppendEntries1 c clk args s =
     (let reply = AppendEntriesReply0\<lparr>aer_appstate := AppNormal\<rparr> in
      if aea_term args < m_currentTerm s then
        Inr (s, reply\<lparr>aer_success := False, aer_term := m_currentTerm s, aer_updatenextindex := -100\<rparr>)
      else rbind (AppendEntries1_body clk args reply s) (\<lambda>(s', reply'). Inr (persist c s', reply')))"

definition getPrevLogInfo :: "nat \<Rightarrow> raft \<Rightarrow> (int \<times> int) result" where
  "getPrevLogInfo server s =
     rbind (vget (m_nextIndex s) (int server)) (\<lambda>nextIndex.
     if nextIndex = m_lastSnapshotIncludeIndex s + 1
     then Inr (m_lastSnapshotIncludeIndex s, m_lastSnapshotIncludeTerm s)
     else rbind (logAt (nextIndex - 1) s) (\<lambda>e. Inr (nextIndex - 1, logterm e)))"

text \<open>The body of the loop of \<open>doHeartBeat\<close> for one peer.\<close>

definition heartBeatTo :: "raft \<Rightarrow> nat \<Rightarrow> spawn result" where
  "heartBeatTo s i =
     rbind (vget (m_nextIndex s) (int i)) (\<lambda>nextIndex.
     rbind (myAssert (nextIndex \<ge> 1) ''rf.nextIndex < 1'') (\<lambda>_.
     if nextIndex \<le> m_lastSnapshotIncludeIndex s then Inr (LeaderSendSnapShot i)
     else
       rbind (getPrevLogInfo i s) (\<lambda>(preLogIndex, prevLogTerm).
       rbind (if preLogIndex \<noteq> m_lastSnapshotIncludeIndex s
              then rbind (getSlicesIndexFromLogIndex preLogIndex s) (\<lambda>k. Inr (drop (nat (k + 1)) (m_logs s)))
              else Inr (m_logs s)) (\<lambda>entries.
       rbind (myAssert (preLogIndex + int (length entries) = getLastLogIndex s)
               ''PrevLogIndex + len(Entries) != lastLogIndex'') (\<lambda>_.
       Inr (SendAppendEntries i
         \<lparr>aea_term = m_currentTerm s, aea_leaderid = m_me s, aea_prevlogindex = preLogIndex,
          aea_prevlogterm = prevLogTerm, aea_entries = entries,
          aea_leadercommit = m_commitIndex s\<rparr>))))))"

fun heartBeatLoop :: "raft \<Rightarrow> nat list \<Rightarrow> spawn list result" where
  "heartBeatLoop s [] = Inr []"
| "heartBeatLoop s (i # is) =
     rbind (heartBeatTo s i) (\<lambda>t. rbind (heartBeatLoop s is) (\<lambda>ts. Inr (t # ts)))"

text \<open>\<open>doHeartBeat\<close>: the counter \<open>appendNums\<close> is allocated when the replica is leader.\<close>

definition doHeartBeat :: "int \<Rightarrow> raft \<Rightarrow> (raft \<times> int option \<times> spawn list) result" where
  "doHeartBeat clk s =
     (if m_status s = Leader then
        rbind (heartBeatLoop s (otherPeers s)) (\<lambda>ts.
        Inr (s\<lparr>m_lastResetHearBeatTime := clk\<rparr>, Some 1, ts))
      else Inr (s, None, []))"

definition leaderHearBeatTicker :: "int \<Rightarrow> int \<Rightarrow> raft \<Rightarrow> (raft \<times> int option \<times> spawn list) result" where
  "leaderHearBeatTicker wakeTime clk s =
     (if m_status s \<noteq> Leader then Inr (s, None, [])
      else if m_lastResetHearBeatTime s - wakeTime > 0 then Inr (s, None, [])
      else doHeartBeat clk s)"

text \<open>\<open>sendAppendEntries\<close> after the remote call, with the shared counter \<open>appendNums\<close>.\<close>

definition sendAppendEntries :: "bool \<Rightarrow> nat \<Rightarrow> appendEntriesArgs \<Rightarrow> appendEntriesReply \<Rightarrow> int \<Rightarrow> raft \<Rightarrow>
    (raft \<times> int) result" where
  "sendAppendEntries ok server args reply appendNums s =
     (if \<not> ok then Inr (s, appendNums)
      else if aer_appstate reply = Disconnected then Inr (s, appendNums)
      else if aer_term reply > m_currentTerm s then
        Inr (s\<lparr>m_status := Follower, m_currentTerm := aer_term reply, m_votedFor := -1\<rparr>, appendNums)
      else if aer_term reply < m_currentTerm s then Inr (s, appendNums)
      else if m_status s \<noteq> Leader then Inr (s, appendNums)
      else
        rbind (myAssert (aer_term reply = m_currentTerm s) ''reply.Term != rf.currentTerm'') (\<lambda>_.
        if \<not> aer_success reply then
          (if aer_updatenextindex reply \<noteq> -100
           then rbind (vset (m_nextIndex s) (int server) (aer_updatenextindex reply)) (\<lambda>ni.
                Inr (s\<lparr>m_nextIndex := ni\<rparr>, appendNums))
           else Inr (s, appendNums))
        else
          let sent = aea_prevlogindex args + int (length (aea_entries args)) in
          rbind (vget (m_matchIndex s) (int server)) (\<lambda>old.
          rbind (vset (m_matchIndex s) (int server) (max old sent)) (\<lambda>mi.
          rbind (vset (m_nextIndex s) (int server) (max old sent + 1)) (\<lambda>ni.
          let s1 = s\<lparr>m_matchIndex := mi, m_nextIndex := ni\<rparr>;
              lastLogIndex = getLastLogIndex s1 in
          rbind (myAssert (max old sent + 1 \<le> lastLogIndex + 1) ''rf.nextIndex > lastLogIndex+1'') (\<lambda>_.
          if appendNums + 1 \<ge> int (1 + m_peers s1 div 2) then
            let s2 = (if aea_entries args \<noteq> [] \<and> logterm (last (aea_entries args)) = m_currentTerm s1
                      then s1\<lparr>m_commitIndex := max (m_commitIndex s1) sent\<rparr> else s1) in
            rbind (myAssert (m_commitIndex s2 \<le> lastLogIndex) ''rf.commitIndex > lastLogIndex'') (\<lambda>_.
            Inr (s2, 0))
          else Inr (s1, appendNums + 1)))))))"

text \<open>\<open>leaderUpdateCommitIndex\<close>: the loop from the last index downwards.\<close>

definition replicasAt :: "int \<Rightarrow> raft \<Rightarrow> int result" where
  "replicasAt index s =
     foldr (\<lambda>i acc. rbind acc (\<lambda>sum.
        if int i = m_me s then Inr (sum + 1)
        else rbind (vget (m_matchIndex s) (int i)) (\<lambda>m. Inr (if m \<ge> index then sum + 1 else sum))))
       [0..<m_peers s] (Inr 0)"

function commitSearch :: "int \<Rightarrow> raft \<Rightarrow> int option result" where
  "commitSearch index s =
     (if index < m_lastSnapshotIncludeIndex s + 1 then Inr None
      else rbind (replicasAt index s) (\<lambda>sum.
           if sum \<ge> int (m_peers s div 2 + 1) then
             rbind (getLogTermFromLogIndex index s) (\<lambda>t.
             if t = m_currentTerm s then Inr (Some index) else commitSearch (index - 1) s)
           else commitSearch (index - 1) s))"
  by pat_completeness auto
termination
  by (relation "measure (\<lambda>(index, s). nat (index - m_lastSnapshotIncludeIndex s))") auto

declare commitSearch.simps [simp del]

definition leaderUpdateCommitIndex :: "raft \<Rightarrow> raft result" where
  "leaderUpdateCommitIndex s =
     rbind (commitSearch (getLastLogIndex s) s) (\<lambda>found.
     Inr (s\<lparr>m_commitIndex := (case found of None \<Rightarrow> m_lastSnapshotIncludeIndex s | Some i \<Rightarrow> i)\<rparr>))"

definition Start :: "codec \<Rightarrow> op \<Rightarrow> raft \<Rightarrow> raft \<times> int \<times> int \<times> bool" where
  "Start c cmd s =
     (if m_status s \<noteq> Leader then (s, -1, -1, False)
      else
        let newLogEntry = \<lparr>command = asString c cmd, logterm = m_currentTerm s,
                           logindex = getNewCommandIndex s\<rparr> in
        (persist c (s\<lparr>m_logs := m_logs s @ [newLogEntry]\<rparr>), logindex newLogEntry,
         logterm newLogEntry, True))"

section \<open>Applying committed entries\<close>

function getApplyLogs :: "raft \<Rightarrow> (raft \<times> applyMsg list) result" where
  "getApplyLogs s =
     (if m_lastApplied s < m_commitIndex s then
        let s1 = s\<lparr>m_lastApplied := m_lastApplied s + 1\<rparr> in
        rbind (logAt (m_lastApplied s1) s1) (\<lambda>e.
        rbind (myAssert (logindex e = m_lastApplied s1) ''LogIndex != rf.lastApplied'') (\<lambda>_.
        rbind (getApplyLogs s1) (\<lambda>(s2, msgs).
        Inr (s2, ApplyMsg\<lparr>CommandValid := True, SnapshotValid := False, Command := command e,
                          CommandIndex := m_lastApplied s1\<rparr> # msgs))))
      else Inr (s, []))"
  by pat_completeness auto
termination
  by (relation "measure (\<lambda>s. nat (m_commitIndex s - m_lastApplied s))") auto

declare getApplyLogs.simps [simp del]

text \<open>One round of \<open>applierTicker\<close>: \<open>getApplyLogs\<close> starts with an assertion on the commit index.\<close>

definition applierTicker :: "raft \<Rightarrow> raft result" where
  "applierTicker s =
     rbind (myAssert (m_commitIndex s \<le> getLastLogIndex s) ''commitIndex > getLastLogIndex'') (\<lambda>_.
     rbind (getApplyLogs s) (\<lambda>(s1, msgs). Inr (s1\<lparr>applyChan := applyChan s1 @ msgs\<rparr>)))"

definition pushMsgToKvServer :: "applyMsg \<Rightarrow> raft \<Rightarrow> raft" where
  "pushMsgToKvServer msg s = s\<lparr>applyChan := applyChan s @ [msg]\<rparr>"

section \<open>Snapshots\<close>

definition CondInstallSnapshot :: "int \<Rightarrow> int \<Rightarrow> string \<Rightarrow> bool" where
  "CondInstallSnapshot lastIncludedTerm lastIncludedIndex snapshot = True"

text \<open>\<open>InstallSnapshot\<close>: the reply is its \<open>term\<close> field, which stays 0 on the outdated path.\<close>

definition InstallSnapshot :: "codec \<Rightarrow> int \<Rightarrow> installSnapshotRequest \<Rightarrow> raft \<Rightarrow> (raft \<times> int \<times> spawn list) result" where
  "InstallSnapshot c clk args s =
     (if isr_term args < m_currentTerm s then Inr (s, m_currentTerm s, [])
      else
        let s1 = (if isr_term args > m_currentTerm s
                  then persist c (s\<lparr>m_currentTerm := isr_term args, m_votedFor := -1, m_status := Follower\<rparr>)
                  else s);
            s2 = s1\<lparr>m_status := Follower, m_lastResetElectionTime := clk\<rparr>;
            idx = isr_lastsnapshotincludeindex args in
        if idx \<le> m_lastSnapshotIncludeIndex s2 then Inr (s2, 0, [])
        else
          rbind (if getLastLogIndex s2 > idx
                 then rbind (getSlicesIndexFromLogIndex idx s2) (\<lambda>k. Inr (drop (nat (k + 1)) (m_logs s2)))
                 else Inr []) (\<lambda>logs.
          let s3 = s2\<lparr>m_logs := logs, m_commitIndex := max (m_commitIndex s2) idx,
                      m_lastApplied := max (m_lastApplied s2) idx,
                      m_lastSnapshotIncludeIndex := idx,
                      m_lastSnapshotIncludeTerm := isr_lastsnapshotincludeterm args\<rparr>;
              msg = ApplyMsg\<lparr>SnapshotValid := True, Snapshot_data := isr_data args,
                      SnapshotTerm := isr_lastsnapshotincludeterm args, SnapshotIndex := idx\<rparr> in
          Inr (s3\<lparr>m_persister := Save (persistData c s3) (isr_data args) (m_persister s3)\<rparr>,
               m_currentTerm s3, [PushMsgToKvServer msg])))"

text \<open>\<open>leaderSendSnapShot\<close> before and after the remote call.\<close>

definition leaderSendSnapShot_args :: "raft \<Rightarrow> raft \<times> installSnapshotRequest" where
  "leaderSendSnapShot_args s =
     (let (data, p) = ReadSnapshot (m_persister s) in
      (s\<lparr>m_persister := p\<rparr>,
       \<lparr>isr_leaderid = m_me s, isr_term = m_currentTerm s,
        isr_lastsnapshotincludeindex = m_lastSnapshotIncludeIndex s,
        isr_lastsnapshotincludeterm = m_lastSnapshotIncludeTerm s, isr_data = data\<rparr>))"

definition leaderSendSnapShot_reply :: "codec \<Rightarrow> int \<Rightarrow> bool \<Rightarrow> nat \<Rightarrow> installSnapshotRequest \<Rightarrow> int \<Rightarrow> raft \<Rightarrow> raft result" where
  "leaderSendSnapShot_reply c clk ok server args replyTerm s =
     (if \<not> ok then Inr s
      else if m_status s \<noteq> Leader \<or> m_currentTerm s \<noteq> isr_term args then Inr s
      else if replyTerm > m_currentTerm s then
        Inr ((persist c (s\<lparr>m_currentTerm := replyTerm, m_votedFor := -1, m_status := Follower\<rparr>))
               \<lparr>m_lastResetElectionTime := clk\<rparr>)
      else
        rbind (vset (m_matchIndex s) (int server) (isr_lastsnapshotincludeindex args)) (\<lambda>mi.
        rbind (vset (m_nextIndex s) (int server) (isr_lastsnapshotincludeindex args + 1)) (\<lambda>ni.
        Inr (s\<lparr>m_matchIndex := mi, m_nextIndex := ni\<rparr>))))"

text \<open>The loop of \<open>Snapshot\<close> that collects the entries above \<open>index\<close>.\<close>

function trunckedLogs :: "int \<Rightarrow> raft \<Rightarrow> logEntry list result" where
  "trunckedLogs i s =
     (if i \<le> getLastLogIndex s
      then rbind (logAt i s) (\<lambda>e. rbind (trunckedLogs (i + 1) s) (\<lambda>es. Inr (e # es)))
      else Inr [])"
  by pat_completeness auto
termination
  by (relation "measure (\<lambda>(i, s). nat (getLastLogIndex s + 1 - i))") auto

declare trunckedLogs.simps [simp del]

definition Snapshot :: "codec \<Rightarrow> int \<Rightarrow> string \<Rightarrow> raft \<Rightarrow> raft result" where
  "Snapshot c index snapshot s =
     (if m_lastSnapshotIncludeIndex s \<ge> index \<or> index > m_commitIndex s then Inr s
      else
        rbind (logAt index s) (\<lambda>e.
        rbind (trunckedLogs (index + 1) s) (\<lambda>logs.
        let s1 = s\<lparr>m_lastSnapshotIncludeIndex := index, m_lastSnapshotIncludeTerm := logterm e,
                   m_logs := logs, m_commitIndex := max (m_commitIndex s) index,
                   m_lastApplied := max (m_lastApplied s) index\<rparr>;
            s2 = s1\<lparr>m_persister := Save (persistData c s1) snapshot (m_persister s1)\<rparr> in
        rbind (myAssert (int (length (m_logs s2)) + m_lastSnapshotIncludeIndex s2 = getLastLogIndex s)
                ''len(rf.logs) + rf.lastSnapshotIncludeIndex != lastLogIndex'') (\<lambda>_.
        Inr s2))))"

end
