(* ===== verification/RaftLog.thy ===== *)
theory RaftLog
  imports RaftNode
begin

text \<open>
  The log of one replica, seen as a partial map from indices to entries, and the
  well-formedness invariant of its state.

  \<open>entry_at\<close> and \<open>term_at\<close> are what the position arithmetic of \<open>getSlicesIndexFromLogIndex\<close> and
  \<open>getLogTermFromLogIndex\<close> computes when it does not fail. \<open>raft_wf\<close> is the invariant: the
  stored entries are numbered consecutively after the snapshot, and snapshot, applied and
  commit index are ordered within the log.
\<close>

abbreviation snapIndex :: "raft \<Rightarrow> int" where
  "snapIndex s \<equiv> m_lastSnapshotIncludeIndex s"

definition log_wf :: "raft \<Rightarrow> bool" where
  "log_wf s \<longleftrightarrow> numbered logindex (snapIndex s) (m_logs s)"

definition entry_at :: "raft \<Rightarrow> int \<Rightarrow> logEntry option" where
  "entry_at s i =
     (if snapIndex s < i \<and> i \<le> snapIndex s + int (length (m_logs s))
      then Some (m_logs s ! nat (i - snapIndex s - 1)) else None)"

definition term_at :: "raft \<Rightarrow> int \<Rightarrow> int option" where
  "term_at s i =
     (if i = snapIndex s then Some (m_lastSnapshotIncludeTerm s) else map_option logterm (entry_at s i))"

definition raft_wf :: "raft \<Rightarrow> bool" where
  "raft_wf s \<longleftrightarrow> log_wf s \<and> 0 \<le> snapIndex s \<and> snapIndex s \<le> m_lastApplied s \<and>
     m_lastApplied s \<le> max (m_commitIndex s) (snapIndex s) \<and>
     0 \<le> m_commitIndex s \<and> m_commitIndex s \<le> getLastLogIndex s \<and>
     length (m_nextIndex s) = m_peers s \<and> length (m_matchIndex s) = m_peers s"

lemmas lastlog_defs = getLastLogIndex_def getLastLogTerm_def getLastLogIndexAndTerm_def

section \<open>Fields the log does not depend on\<close>

lemma log_frame_index [simp, node_simps]:
  "getLastLogIndex (s\<lparr>m_persister := a\<rparr>) = getLastLogIndex s"
  "getLastLogIndex (s\<lparr>m_currentTerm := b\<rparr>) = getLastLogIndex s"
  "getLastLogIndex (s\<lparr>m_votedFor := d\<rparr>) = getLastLogIndex s"
  "getLastLogIndex (s\<lparr>m_commitIndex := e\<rparr>) = getLastLogIndex s"
  "getLastLogIndex (s\<lparr>m_lastApplied := f\<rparr>) = getLastLogIndex s"
  "getLastLogIndex (s\<lparr>m_nextIndex := g\<rparr>) = getLastLogIndex s"
  "getLastLogIndex (s\<lparr>m_matchIndex := h\<rparr>) = getLastLogIndex s"
  "getLastLogIndex (s\<lparr>m_status := i\<rparr>) = getLastLogIndex s"
  "getLastLogIndex (s\<lparr>applyChan := j\<rparr>) = getLastLogIndex s"
  "getLastLogIndex (s\<lparr>m_lastResetElectionTime := k\<rparr>) = getLastLogIndex s"
  "getLastLogIndex (s\<lparr>m_lastResetHearBeatTime := l\<rparr>) = getLastLogIndex s"
  by (simp_all add: lastlog_defs)

lemma log_frame_entry [simp, node_simps]:
  "entry_at (s\<lparr>m_persister := a\<rparr>) = entry_at s"
  "entry_at (s\<lparr>m_currentTerm := b\<rparr>) = entry_at s"
  "entry_at (s\<lparr>m_votedFor := d\<rparr>) = entry_at s"
  "entry_at (s\<lparr>m_commitIndex := e\<rparr>) = entry_at s"
  "entry_at (s\<lparr>m_lastApplied := f\<rparr>) = entry_at s"
  "entry_at (s\<lparr>m_nextIndex := g\<rparr>) = entry_at s"
  "entry_at (s\<lparr>m_matchIndex := h\<rparr>) = entry_at s"
  "entry_at (s\<lparr>m_status := i\<rparr>) = entry_at s"
  "entry_at (s\<lparr>applyChan := j\<rparr>) = entry_at s"
  "entry_at (s\<lparr>m_lastResetElectionTime := k\<rparr>) = entry_at s"
  "entry_at (s\<lparr>m_lastResetHearBeatTime := l\<rparr>) = entry_at s"
  by (simp_all add: entry_at_def fun_eq_iff)

lemma log_frame_wf [simp, node_simps]:
  "log_wf (s\<lparr>m_persister := a\<rparr>) = log_wf s"
  "log_wf (s\<lparr>m_currentTerm := b\<rparr>) = log_wf s"
  "log_wf (s\<lparr>m_votedFor := d\<rparr>) = log_wf s"
  "log_wf (s\<lparr>m_commitIndex := e\<rparr>) = log_wf s"
  "log_wf (s\<lparr>m_lastApplied := f\<rparr>) = log_wf s"
  "log_wf (s\<lparr>m_nextIndex := g\<rparr>) = log_wf s"
  "log_wf (s\<lparr>m_matchIndex := h\<rparr>) = log_wf s"
  "log_wf (s\<lparr>m_status := i\<rparr>) = log_wf s"
  "log_wf (s\<lparr>applyChan := j\<rparr>) = log_wf s"
  "log_wf (s\<lparr>m_lastResetElectionTime := k\<rparr>) = log_wf s"
  "log_wf (s\<lparr>m_lastResetHearBeatTime := l\<rparr>) = log_wf s"
  by (simp_all add: log_wf_def)

lemma persist_fields [simp, node_simps]:
  "m_peers (persist c s) = m_peers s" "m_me (persist c s) = m_me s"
  "m_currentTerm (persist c s) = m_currentTerm s" "m_votedFor (persist c s) = m_votedFor s"
  "m_logs (persist c s) = m_logs s" "m_commitIndex (persist c s) = m_commitIndex s"
  "m_lastApplied (persist c s) = m_lastApplied s" "m_nextIndex (persist c s) = m_nextIndex s"
  "m_matchIndex (persist c s) = m_matchIndex s" "m_status (persist c s) = m_status s"
  "applyChan (persist c s) = applyChan s"
  "snapIndex (persist c s) = snapIndex s"
  "m_lastSnapshotIncludeTerm (persist c s) = m_lastSnapshotIncludeTerm s"
  "m_lastResetElectionTime (persist c s) = m_lastResetElectionTime s"
  "m_lastResetHearBeatTime (persist c s) = m_lastResetHearBeatTime s"
  "getLastLogIndex (persist c s) = getLastLogIndex s"
  "getLastLogTerm (persist c s) = getLastLogTerm s"
  "entry_at (persist c s) = entry_at s" "log_wf (persist c s) = log_wf s"
  by (simp_all add: persist_def lastlog_defs)

lemma raft_wf_persist [simp]: "raft_wf (persist c s) = raft_wf s"
  by (simp add: raft_wf_def)

section \<open>Position arithmetic\<close>

lemma getLastLogIndex_wf: "log_wf s \<Longrightarrow> getLastLogIndex s = snapIndex s + int (length (m_logs s))"
  by (simp add: log_wf_def lastlog_defs numbered_last)

lemma getLastLogIndex_ge: "log_wf s \<Longrightarrow> snapIndex s \<le> getLastLogIndex s"
  by (simp add: getLastLogIndex_wf)

lemma getSlices_eq_Inr:
  "getSlicesIndexFromLogIndex i s = Inr k \<longleftrightarrow>
     snapIndex s < i \<and> i \<le> getLastLogIndex s \<and> k = i - snapIndex s - 1"
  by (auto simp: getSlicesIndexFromLogIndex_def rbind_myAssert)

lemma logAt_wf:
  assumes "log_wf s"
  shows "logAt i s = Inr e \<longleftrightarrow> entry_at s i = Some e"
proof -
  have "logAt i s = Inr e \<longleftrightarrow>
        snapIndex s < i \<and> i \<le> getLastLogIndex s \<and> vget (m_logs s) (i - snapIndex s - 1) = Inr e"
    by (auto simp: logAt_def rbind_eq_Inr getSlices_eq_Inr)
  also have "\<dots> \<longleftrightarrow> entry_at s i = Some e"
    using getLastLogIndex_wf [OF assms] by (auto simp: entry_at_def vget_eq_Inr)
  finally show ?thesis .
qed

lemma getLogTerm_wf:
  assumes "log_wf s"
  shows "getLogTermFromLogIndex i s = Inr t \<longleftrightarrow> term_at s i = Some t"
  using getLastLogIndex_wf [OF assms] logAt_wf [OF assms, of i]
  by (auto simp: getLogTermFromLogIndex_def rbind_myAssert rbind_eq_Inr term_at_def)
     (auto simp: entry_at_def split: if_splits)

lemma entry_at_Some_iff:
  "log_wf s \<Longrightarrow> (\<exists>e. entry_at s i = Some e) \<longleftrightarrow> snapIndex s < i \<and> i \<le> getLastLogIndex s"
  by (simp add: getLastLogIndex_wf entry_at_def)

lemma term_at_Some_iff:
  assumes "log_wf s"
  shows "(\<exists>t. term_at s i = Some t) \<longleftrightarrow> snapIndex s \<le> i \<and> i \<le> getLastLogIndex s"
  using entry_at_Some_iff [OF assms, of i] getLastLogIndex_ge [OF assms]
  by (auto simp: term_at_def)

lemma entry_at_index: "log_wf s \<Longrightarrow> entry_at s i = Some e \<Longrightarrow> logindex e = i"
  by (auto simp: entry_at_def log_wf_def numbered_def split: if_splits)

lemma entry_at_mem: "entry_at s i = Some e \<Longrightarrow> e \<in> set (m_logs s)"
  by (auto simp: entry_at_def split: if_splits)

lemma mem_entry_at: "log_wf s \<Longrightarrow> e \<in> set (m_logs s) \<Longrightarrow> entry_at s (logindex e) = Some e"
  by (auto simp: entry_at_def log_wf_def numbered_def in_set_conv_nth)

lemma matchLog_wf:
  assumes "log_wf s"
  shows "matchLog i t s = Inr b \<longleftrightarrow> (\<exists>t'. term_at s i = Some t' \<and> b = (t = t'))"
  using term_at_Some_iff [OF assms, of i] getLogTerm_wf [OF assms, of i]
  by (auto simp: matchLog_def rbind_myAssert rbind_eq_Inr)

lemma last_term_at:
  assumes "log_wf s"
  shows "term_at s (getLastLogIndex s) = Some (getLastLogTerm s)"
proof -
  have "nat (int (length xs) - 1) = length xs - Suc 0" for xs :: "logEntry list"
    by arith
  then show ?thesis
    using getLastLogIndex_wf [OF assms]
    by (auto simp: term_at_def entry_at_def getLastLogTerm_def getLastLogIndexAndTerm_def last_conv_nth)
qed

section \<open>The loop over the received entries\<close>

text \<open>What the loop leaves at an index: the received entry, unless the stored one has its term.\<close>

definition merge_entry :: "logEntry option \<Rightarrow> logEntry \<Rightarrow> logEntry" where
  "merge_entry old new =
     (case old of None \<Rightarrow> new | Some e \<Rightarrow> if logterm e = logterm new then e else new)"

definition merged :: "int \<Rightarrow> logEntry list \<Rightarrow> raft \<Rightarrow> int \<Rightarrow> logEntry option" where
  "merged prev es s i =
     (if prev < i \<and> i \<le> prev + int (length es)
      then Some (merge_entry (entry_at s i) (es ! nat (i - prev - 1))) else entry_at s i)"

definition no_conflict :: "logEntry list \<Rightarrow> raft \<Rightarrow> bool" where
  "no_conflict es s \<longleftrightarrow> (\<forall>e \<in> set es. \<forall>old. entry_at s (logindex e) = Some old \<longrightarrow>
     logterm old = logterm e \<longrightarrow> command old = command e)"

lemma no_conflict_Cons: "no_conflict (e # es) s \<longleftrightarrow> no_conflict [e] s \<and> no_conflict es s"
  by (simp add: no_conflict_def)

lemma no_conflict_cong:
  "(\<And>e. e \<in> set es \<Longrightarrow> entry_at s (logindex e) = entry_at s1 (logindex e)) \<Longrightarrow>
     no_conflict es s \<longleftrightarrow> no_conflict es s1"
  by (simp add: no_conflict_def)

lemma appendEntriesLoop_Cons:
  "appendEntriesLoop (e # es) s = rbind (appendEntriesLoop [e] s) (appendEntriesLoop es)"
  by (simp add: rbind_def split: sum.splits)

lemma entry_at_push:
  assumes "log_wf s" and "logindex e = getLastLogIndex s + 1"
  shows "log_wf (s\<lparr>m_logs := m_logs s @ [e]\<rparr>)"
    and "getLastLogIndex (s\<lparr>m_logs := m_logs s @ [e]\<rparr>) = logindex e"
    and "entry_at (s\<lparr>m_logs := m_logs s @ [e]\<rparr>) = (entry_at s)(logindex e \<mapsto> e)"
proof -
  show wf: "log_wf (s\<lparr>m_logs := m_logs s @ [e]\<rparr>)"
    using assms by (simp add: log_wf_def numbered_snoc getLastLogIndex_wf)
  show "getLastLogIndex (s\<lparr>m_logs := m_logs s @ [e]\<rparr>) = logindex e"
    by (simp add: lastlog_defs)
  show "entry_at (s\<lparr>m_logs := m_logs s @ [e]\<rparr>) = (entry_at s)(logindex e \<mapsto> e)"
    using assms by (auto simp: fun_eq_iff entry_at_def getLastLogIndex_wf nth_append)
qed

lemma entry_at_update:
  assumes "log_wf s" and "snapIndex s < logindex e" and "logindex e \<le> getLastLogIndex s"
  defines "s' \<equiv> s\<lparr>m_logs := (m_logs s)[nat (logindex e - snapIndex s - 1) := e]\<rparr>"
  shows "log_wf s'" and "getLastLogIndex s' = getLastLogIndex s"
    and "entry_at s' = (entry_at s)(logindex e \<mapsto> e)"
proof -
  let ?k = "nat (logindex e - snapIndex s - 1)"
  from assms(1-3) have k: "?k < length (m_logs s)"
    by (simp add: getLastLogIndex_wf)
  show wf: "log_wf s'"
    using assms(1,2) k numbered_update [of logindex "snapIndex s" "m_logs s" ?k e]
    by (simp add: log_wf_def s'_def)
  from getLastLogIndex_wf [OF wf] show "getLastLogIndex s' = getLastLogIndex s"
    by (simp add: getLastLogIndex_wf [OF assms(1)] s'_def)
  show "entry_at s' = (entry_at s)(logindex e \<mapsto> e)"
    using assms(1-3) k by (auto simp: fun_eq_iff entry_at_def s'_def getLastLogIndex_wf nth_list_update)
qed

lemma append_one:
  assumes wf: "log_wf s" and lo: "snapIndex s < logindex e" and hi: "logindex e \<le> getLastLogIndex s + 1"
    and ret: "appendEntriesLoop [e] s = Inr s'"
  shows "s' = s\<lparr>m_logs := m_logs s'\<rparr>" and "log_wf s'"
    and "getLastLogIndex s' = max (getLastLogIndex s) (logindex e)"
    and "entry_at s' = (entry_at s)(logindex e \<mapsto> merge_entry (entry_at s (logindex e)) e)"
    and "no_conflict [e] s"
proof -
  have "s' = s\<lparr>m_logs := m_logs s'\<rparr> \<and> log_wf s' \<and>
        getLastLogIndex s' = max (getLastLogIndex s) (logindex e) \<and>
        entry_at s' = (entry_at s)(logindex e \<mapsto> merge_entry (entry_at s (logindex e)) e) \<and>
        no_conflict [e] s"
  proof (cases "logindex e > getLastLogIndex s")
    case True
    with hi have new: "logindex e = getLastLogIndex s + 1" by simp
    from True ret have s': "s' = s\<lparr>m_logs := m_logs s @ [e]\<rparr>" by simp
    from wf True have none: "entry_at s (logindex e) = None"
      by (simp add: entry_at_def getLastLogIndex_wf)
    then have "no_conflict [e] s" and "merge_entry (entry_at s (logindex e)) e = e"
      by (simp_all add: no_conflict_def merge_entry_def)
    with entry_at_push [OF wf new] new show ?thesis by (simp add: s')
  next
    case False
    then obtain old where old: "entry_at s (logindex e) = Some old"
      using entry_at_Some_iff [OF wf, of "logindex e"] lo by auto
    with False lo wf have old': "vget (m_logs s) (logindex e - snapIndex s - 1) = Inr old"
      and k: "logindex e - snapIndex s - 1 < int (length (m_logs s))"
      by (auto simp: entry_at_def vget_def getLastLogIndex_wf split: if_splits)
    from False lo have slice:
      "getSlicesIndexFromLogIndex (logindex e) s = Inr (logindex e - snapIndex s - 1)"
      by (simp add: getSlices_eq_Inr)
    from ret False have nc: "no_conflict [e] s"
      and s': "s' = (if logterm old \<noteq> logterm e
        then s\<lparr>m_logs := (m_logs s)[nat (logindex e - snapIndex s - 1) := e]\<rparr> else s)"
      using lo k old by (auto simp: slice old' rbind_myAssert vset_def no_conflict_def split: if_splits)
    show ?thesis
    proof (cases "logterm old = logterm e")
      case True
      with s' have "s' = s" by simp
      with True False wf old nc show ?thesis
        by (auto simp: merge_entry_def fun_upd_idem)
    next
      case False
      with s' have "s' = s\<lparr>m_logs := (m_logs s)[nat (logindex e - snapIndex s - 1) := e]\<rparr>" by simp
      with entry_at_update [OF wf lo] \<open>\<not> logindex e > getLastLogIndex s\<close> False old nc show ?thesis
        by (simp add: merge_entry_def)
    qed
  qed
  then show "s' = s\<lparr>m_logs := m_logs s'\<rparr>" and "log_wf s'"
    and "getLastLogIndex s' = max (getLastLogIndex s) (logindex e)"
    and "entry_at s' = (entry_at s)(logindex e \<mapsto> merge_entry (entry_at s (logindex e)) e)"
    and "no_conflict [e] s"
    by simp_all
qed

lemma append_one_ok:
  assumes wf: "log_wf s" and lo: "snapIndex s < logindex e" and nc: "no_conflict [e] s"
  shows "\<exists>s'. appendEntriesLoop [e] s = Inr s'"
proof (cases "logindex e > getLastLogIndex s")
  case True
  then show ?thesis by simp
next
  case False
  then obtain old where old: "entry_at s (logindex e) = Some old"
    using entry_at_Some_iff [OF wf, of "logindex e"] lo by auto
  with False lo wf have "vget (m_logs s) (logindex e - snapIndex s - 1) = Inr old"
    and "vset (m_logs s) (logindex e - snapIndex s - 1) e =
           Inr ((m_logs s)[nat (logindex e - snapIndex s - 1) := e])"
    by (auto simp: entry_at_def vget_def vset_def getLastLogIndex_wf split: if_splits)
  moreover from False lo have
    "getSlicesIndexFromLogIndex (logindex e) s = Inr (logindex e - snapIndex s - 1)"
    by (simp add: getSlices_eq_Inr)
  moreover from nc old have "\<not> (logterm old = logterm e \<and> command old \<noteq> command e)"
    by (simp add: no_conflict_def)
  ultimately show ?thesis using False by (simp add: rbind_myAssert)
qed

lemma numbered_index_gt: "numbered logindex k es \<Longrightarrow> e \<in> set es \<Longrightarrow> k < logindex e"
  by (auto simp: numbered_def in_set_conv_nth)

lemma merged_Cons:
  assumes "numbered logindex prev (e # es)"
    and "entry_at s1 = (entry_at s)(prev + 1 \<mapsto> merge_entry (entry_at s (prev + 1)) e)"
  shows "merged (prev + 1) es s1 = merged prev (e # es) s"
proof
  fix i
  show "merged (prev + 1) es s1 i = merged prev (e # es) s i"
  proof (cases "prev + 1 < i")
    case True
    then have "nat (i - prev - 1) = Suc (nat (i - (prev + 1) - 1))" by arith
    with True assms(2) show ?thesis by (simp add: merged_def)
  next
    case False
    then consider "i = prev + 1" | "i \<le> prev" by linarith
    then show ?thesis by cases (simp_all add: merged_def assms(2))
  qed
qed

lemma appendEntriesLoop_ret:
  assumes "log_wf s" and "snapIndex s \<le> prev" and "prev \<le> getLastLogIndex s"
    and "numbered logindex prev es" and "appendEntriesLoop es s = Inr s'"
  shows "s' = s\<lparr>m_logs := m_logs s'\<rparr> \<and> log_wf s' \<and>
     getLastLogIndex s' = max (getLastLogIndex s) (prev + int (length es)) \<and>
     entry_at s' = merged prev es s \<and> no_conflict es s"
  using assms
proof (induction es arbitrary: s prev)
  case Nil
  then show ?case by (auto simp: merged_def no_conflict_def fun_eq_iff)
next
  case (Cons e es)
  from Cons.prems(4) have ie: "logindex e = prev + 1" and num: "numbered logindex (prev + 1) es"
    by (simp_all add: numbered_Cons)
  from Cons.prems(5) obtain s1 where one: "appendEntriesLoop [e] s = Inr s1"
    and rest: "appendEntriesLoop es s1 = Inr s'"
    by (subst (asm) appendEntriesLoop_Cons) (auto simp only: rbind_eq_Inr)
  from Cons.prems(2,3) ie have lo: "snapIndex s < logindex e" and hi: "logindex e \<le> getLastLogIndex s + 1"
    by simp_all
  note step = append_one [OF Cons.prems(1) lo hi one]
  from step(1) have snap: "snapIndex s1 = snapIndex s"
    by (metis raft.select_convs(15) raft.surjective raft.update_convs(6))
  have "s' = s1\<lparr>m_logs := m_logs s'\<rparr> \<and> log_wf s' \<and>
     getLastLogIndex s' = max (getLastLogIndex s1) (prev + 1 + int (length es)) \<and>
     entry_at s' = merged (prev + 1) es s1 \<and> no_conflict es s1"
    using Cons.prems(2,3) ie step(2,3) snap num rest by (intro Cons.IH) auto
  then have IH: "s' = s1\<lparr>m_logs := m_logs s'\<rparr>" "log_wf s'"
     "getLastLogIndex s' = max (getLastLogIndex s1) (prev + 1 + int (length es))"
     "entry_at s' = merged (prev + 1) es s1" "no_conflict es s1"
    by simp_all
  have "entry_at s (logindex e') = entry_at s1 (logindex e')" if "e' \<in> set es" for e'
    using step(4) ie numbered_index_gt [OF num that] by simp
  then have "no_conflict es s"
    using IH(5) no_conflict_cong [of es s s1] by blast
  with step(5) have "no_conflict (e # es) s" by (subst no_conflict_Cons) blast
  moreover have "s' = s\<lparr>m_logs := m_logs s'\<rparr>"
    using IH(1) step(1) by (metis raft.surjective raft.update_convs(6))
  moreover have "entry_at s' = merged prev (e # es) s"
    using IH(4) merged_Cons [OF Cons.prems(4)] step(4) ie by simp
  ultimately show ?case using IH(2,3) step(3) ie by simp
qed

lemma appendEntriesLoop_ok:
  assumes "log_wf s" and "snapIndex s \<le> prev" and "prev \<le> getLastLogIndex s"
    and "numbered logindex prev es" and "no_conflict es s"
  shows "\<exists>s'. appendEntriesLoop es s = Inr s'"
  using assms
proof (induction es arbitrary: s prev)
  case Nil
  then show ?case by simp
next
  case (Cons e es)
  from Cons.prems(4) have ie: "logindex e = prev + 1" and num: "numbered logindex (prev + 1) es"
    by (simp_all add: numbered_Cons)
  from Cons.prems(2,3) ie have lo: "snapIndex s < logindex e" and hi: "logindex e \<le> getLastLogIndex s + 1"
    by simp_all
  from Cons.prems(5) have nc1: "no_conflict [e] s" and nc: "no_conflict es s"
    by (simp_all only: no_conflict_Cons [of e es])
  from nc1 obtain s1 where one: "appendEntriesLoop [e] s = Inr s1"
    using append_one_ok [OF Cons.prems(1) lo] by blast
  note step = append_one [OF Cons.prems(1) lo hi one]
  from step(1) have snap: "snapIndex s1 = snapIndex s"
    by (metis raft.select_convs(15) raft.surjective raft.update_convs(6))
  have "entry_at s (logindex e') = entry_at s1 (logindex e')" if "e' \<in> set es" for e'
    using step(4) ie numbered_index_gt [OF num that] by simp
  then have "no_conflict es s1"
    using nc no_conflict_cong [of es s s1] by blast
  then have "\<exists>s'. appendEntriesLoop es s1 = Inr s'"
    using Cons.prems(2,3) ie step(2,3) snap num by (intro Cons.IH [of s1 "prev + 1"]) auto
  then show ?case by (subst appendEntriesLoop_Cons) (simp only: one rbind_Inr)
qed

end
