(* ===== verification/RaftOps.thy ===== *)
theory RaftOps
  imports RaftLog
begin

text \<open>
  What each member function of a replica does, on every branch, and that the invariant
  \<open>raft_wf\<close> survives it.

  \<open>evolves\<close> is the contract all functions but the one that ends an election share: the term never
  goes down, a vote given in a term is never changed within that term, nobody becomes leader, and
  log end, snapshot, commit and applied index only move forward. The locale \<open>replica_op\<close> states the
  contract for one operation and derives what its callers use; every function is an instance.
\<close>

definition advances :: "raft \<Rightarrow> raft \<Rightarrow> bool" where
  "advances s s' \<longleftrightarrow> getLastLogIndex s \<le> getLastLogIndex s' \<and> snapIndex s \<le> snapIndex s' \<and>
     m_commitIndex s \<le> m_commitIndex s' \<and> m_lastApplied s \<le> m_lastApplied s'"

definition evolves :: "raft \<Rightarrow> raft \<Rightarrow> bool" where
  "evolves s s' \<longleftrightarrow> m_me s' = m_me s \<and> m_peers s' = m_peers s \<and> m_currentTerm s \<le> m_currentTerm s' \<and>
     (m_currentTerm s' = m_currentTerm s \<longrightarrow> m_votedFor s \<noteq> -1 \<longrightarrow> m_votedFor s' = m_votedFor s) \<and>
     (m_status s' = Leader \<longrightarrow> m_status s = Leader \<and> m_currentTerm s' = m_currentTerm s) \<and>
     advances s s'"

lemma advances_refl [simp]: "advances s s"
  by (simp add: advances_def)

lemma evolves_refl [simp]: "evolves s s"
  by (simp add: evolves_def)

lemma evolves_trans: "evolves s s1 \<Longrightarrow> evolves s1 s2 \<Longrightarrow> evolves s s2"
  unfolding evolves_def advances_def by (auto dest: order_antisym)

lemma advances_persist [simp]: "advances s (persist c s') = advances s s'"
  by (simp add: advances_def)

lemma evolves_persist [simp]: "evolves s (persist c s') = evolves s s'"
  by (simp add: evolves_def)

text \<open>A vote a replica can no longer take back: a later term, or the same term and candidate.\<close>

definition bound_vote :: "raft \<Rightarrow> int \<Rightarrow> int \<Rightarrow> bool" where
  "bound_vote s trm cand \<longleftrightarrow>
     trm \<le> m_currentTerm s \<and> (trm = m_currentTerm s \<longrightarrow> m_votedFor s = cand) \<and> cand \<noteq> -1"

lemma evolves_bound_vote: "evolves s s' \<Longrightarrow> bound_vote s trm cand \<Longrightarrow> bound_vote s' trm cand"
  by (auto simp: evolves_def bound_vote_def)

locale replica_op =
  fixes step :: "raft \<Rightarrow> raft \<Rightarrow> bool"
  assumes step_wf: "raft_wf s \<Longrightarrow> step s s' \<Longrightarrow> raft_wf s'"
    and step_evolves: "raft_wf s \<Longrightarrow> step s s' \<Longrightarrow> evolves s s'"
begin

lemma keeps_vote: "raft_wf s \<Longrightarrow> step s s' \<Longrightarrow> bound_vote s trm cand \<Longrightarrow> bound_vote s' trm cand"
  by (blast intro: evolves_bound_vote step_evolves)

lemma steps_wf_evolves: "step\<^sup>*\<^sup>* s s' \<Longrightarrow> raft_wf s \<Longrightarrow> raft_wf s' \<and> evolves s s'"
  by (induction rule: rtranclp_induct) (auto intro: step_wf step_evolves evolves_trans)

lemma steps_term_mono: "step\<^sup>*\<^sup>* s s' \<Longrightarrow> raft_wf s \<Longrightarrow> m_currentTerm s \<le> m_currentTerm s'"
  using steps_wf_evolves by (auto simp: evolves_def)

lemma steps_commit_mono: "step\<^sup>*\<^sup>* s s' \<Longrightarrow> raft_wf s \<Longrightarrow> m_commitIndex s \<le> m_commitIndex s'"
  using steps_wf_evolves by (auto simp: evolves_def advances_def)

end

section \<open>The search of the mismatch branch\<close>

text \<open>Either every index from the snapshot to \<open>prev\<close> has the term \<open>tp\<close>, or the search stops right
  above the last index with another term.\<close>

definition conflict_result :: "raft \<Rightarrow> int \<Rightarrow> int \<Rightarrow> int option \<Rightarrow> bool" where
  "conflict_result s prev tp found \<longleftrightarrow>
     (case found of
        None \<Rightarrow> \<forall>k. snapIndex s \<le> k \<and> k \<le> prev \<longrightarrow> term_at s k = Some tp
      | Some u \<Rightarrow> snapIndex s < u \<and> u \<le> prev \<and> term_at s (u - 1) \<noteq> Some tp \<and>
          (\<forall>k. u \<le> k \<and> k \<le> prev \<longrightarrow> term_at s k = Some tp))"

lemma conflictSearch_ok:
  assumes "log_wf s" and "snapIndex s \<le> prev" and "prev \<le> getLastLogIndex s" and "index \<le> prev"
    and "term_at s prev = Some tp" and "\<forall>k. index < k \<and> k \<le> prev \<longrightarrow> term_at s k = Some tp"
  shows "\<exists>found. conflictSearch prev index s = Inr found \<and> conflict_result s prev tp found"
  using assms
proof (induction prev index s rule: conflictSearch.induct)
  case (1 prev index s)
  show ?case
  proof (cases "index < snapIndex s")
    case True
    with 1(7) show ?thesis
      by (subst conflictSearch.simps) (simp add: conflict_result_def)
  next
    case False
    with 1(4,5) obtain t where t: "term_at s index = Some t"
      using term_at_Some_iff [OF 1(2), of index] by auto
    have g: "getLogTermFromLogIndex index s = Inr t" "getLogTermFromLogIndex prev s = Inr tp"
      using getLogTerm_wf [OF 1(2)] t 1(6) by simp_all
    have eq: "conflictSearch prev index s =
        (if t \<noteq> tp then Inr (Some (index + 1)) else conflictSearch prev (index - 1) s)"
      using False by (subst conflictSearch.simps) (simp add: g)
    show ?thesis
    proof (cases "t = tp")
      case True
      have above: "\<forall>k. index - 1 < k \<and> k \<le> prev \<longrightarrow> term_at s k = Some tp"
      proof (intro allI impI)
        fix k assume k: "index - 1 < k \<and> k \<le> prev"
        then consider "k = index" | "index < k" by linarith
        then show "term_at s k = Some tp" using 1(7) k t True by cases auto
      qed
      from True 1(5) have "\<not> t \<noteq> tp" "index - 1 \<le> prev" by simp_all
      from 1(1) [OF False g this(1) 1(2,3,4) this(2) 1(6) above]
      have "\<exists>found. conflictSearch prev (index - 1) s = Inr found \<and> conflict_result s prev tp found" .
      with True show ?thesis by (simp only: eq) simp
    next
      case neq: False
      with t 1(6) have "index \<noteq> prev" by auto
      with 1(5) False have "snapIndex s < index + 1" "index + 1 \<le> prev" by simp_all
      moreover have "\<forall>k. index + 1 \<le> k \<and> k \<le> prev \<longrightarrow> term_at s k = Some tp"
        using 1(7) by (simp add: zless_iff_Suc_zadd add1_zle_eq)
      ultimately show ?thesis
        using neq t by (simp add: eq conflict_result_def)
    qed
  qed
qed

section \<open>AppendEntries\<close>

text \<open>Branch 1: an older term is refused and nothing changes.\<close>

lemma AppendEntries1_stale:
  "aea_term args < m_currentTerm s \<Longrightarrow>
     AppendEntries1 c clk args s =
       Inr (s, \<lparr>aer_term = m_currentTerm s, aer_success = False, aer_updatenextindex = -100,
                aer_appstate = AppNormal\<rparr>)"
  by (simp add: AppendEntries1_def AppendEntriesReply0_def)

text \<open>The state in which the remaining branches compare logs.\<close>

definition adopt :: "int \<Rightarrow> int \<Rightarrow> raft \<Rightarrow> raft" where
  "adopt trm clk s = s\<lparr>m_currentTerm := trm,
     m_votedFor := (if trm > m_currentTerm s then -1 else m_votedFor s),
     m_status := Follower, m_lastResetElectionTime := clk\<rparr>"

lemma adopt_fields [simp, node_simps]:
  "m_peers (adopt t clk s) = m_peers s" "m_me (adopt t clk s) = m_me s"
  "m_currentTerm (adopt t clk s) = t" "m_logs (adopt t clk s) = m_logs s"
  "m_commitIndex (adopt t clk s) = m_commitIndex s" "m_lastApplied (adopt t clk s) = m_lastApplied s"
  "m_nextIndex (adopt t clk s) = m_nextIndex s" "m_matchIndex (adopt t clk s) = m_matchIndex s"
  "m_status (adopt t clk s) = Follower" "snapIndex (adopt t clk s) = snapIndex s"
  "m_lastSnapshotIncludeTerm (adopt t clk s) = m_lastSnapshotIncludeTerm s"
  "getLastLogIndex (adopt t clk s) = getLastLogIndex s" "entry_at (adopt t clk s) = entry_at s"
  "log_wf (adopt t clk s) = log_wf s" "applyChan (adopt t clk s) = applyChan s"
  by (simp_all add: adopt_def)

lemma adopt_term_at [simp]: "term_at (adopt t clk s) = term_at s"
  by (simp add: term_at_def fun_eq_iff)

lemma adopt_no_conflict [simp]: "no_conflict es (adopt t clk s) = no_conflict es s"
  by (simp add: no_conflict_def)

lemma adopt_merged [simp]: "merged prev es (adopt t clk s) = merged prev es s"
  by (simp add: merged_def fun_eq_iff)

lemma raft_wf_adopt [simp]: "raft_wf (adopt t clk s) = raft_wf s"
  by (simp add: raft_wf_def)

lemma evolves_adopt: "m_currentTerm s \<le> t \<Longrightarrow> evolves s (adopt t clk s)"
  by (simp add: evolves_def advances_def adopt_def)

lemma update_currentTerm_same [simp]: "s\<lparr>m_currentTerm := m_currentTerm s\<rparr> = s"
  by (cases s) simp

lemma update_votedFor_same [simp]: "s\<lparr>m_votedFor := m_votedFor s\<rparr> = s"
  by (cases s) simp

lemma adopt_same: "adopt (m_currentTerm s) clk s = s\<lparr>m_status := Follower, m_lastResetElectionTime := clk\<rparr>"
  by (simp add: adopt_def)

lemma AppendEntries1_adopt:
  assumes "m_currentTerm s \<le> aea_term args"
  shows "AppendEntries1 c clk args s =
     rbind (AppendEntries1_logs args (AppendEntriesReply0\<lparr>aer_appstate := AppNormal\<rparr>)
              (adopt (aea_term args) clk s)) (\<lambda>(s', reply'). Inr (persist c s', reply'))"
proof -
  have "AppendEntries1_body clk args reply s =
          AppendEntries1_logs args reply (adopt (aea_term args) clk s)" for reply
  proof (cases "aea_term args = m_currentTerm s")
    case True
    then show ?thesis using adopt_same [of s clk] by (simp add: AppendEntries1_body_def)
  next
    case False
    with assms show ?thesis by (simp add: AppendEntries1_body_def adopt_def)
  qed
  with assms show ?thesis by (simp add: AppendEntries1_def Let_def)
qed


abbreviation rejected :: "int \<Rightarrow> int \<Rightarrow> appendEntriesReply" where
  "rejected trm next \<equiv> \<lparr>aer_term = trm, aer_success = False, aer_updatenextindex = next,
     aer_appstate = AppNormal\<rparr>"

text \<open>Branch 2: the leader's log starts beyond the end of this one.\<close>

lemma AppendEntries1_too_far:
  assumes "m_currentTerm s \<le> aea_term args" and "getLastLogIndex s < aea_prevlogindex args"
  shows "AppendEntries1 c clk args s =
     Inr (persist c (adopt (aea_term args) clk s), rejected (aea_term args) (getLastLogIndex s + 1))"
  using assms by (simp add: AppendEntries1_adopt AppendEntries1_logs_def AppendEntriesReply0_def)

text \<open>Branch 3: the position is inside the snapshot. The branch of the code sets the reply but does
  not return, and \<open>matchLog\<close> then asserts that the position is not inside the snapshot.\<close>

lemma AppendEntries1_in_snapshot:
  assumes "m_currentTerm s \<le> aea_term args" and "aea_prevlogindex args < snapIndex s"
    and "aea_prevlogindex args \<le> getLastLogIndex s"
  shows "AppendEntries1 c clk args s = Inl (AssertFailed ''matchLog'')"
  using assms by (simp add: AppendEntries1_adopt AppendEntries1_logs_def Let_def matchLog_def myAssert_def)

text \<open>Branch 4: another term at the position.\<close>

lemma AppendEntries1_mismatch:
  assumes wf: "log_wf s" and "m_currentTerm s \<le> aea_term args"
    and tp: "term_at s (aea_prevlogindex args) = Some tp" and neq: "tp \<noteq> aea_prevlogterm args"
  shows "\<exists>found. AppendEntries1 c clk args s =
       Inr (persist c (adopt (aea_term args) clk s),
            rejected (aea_term args) (case found of None \<Rightarrow> aea_prevlogindex args | Some u \<Rightarrow> u)) \<and>
       conflict_result s (aea_prevlogindex args) tp found"
proof -
  let ?s = "adopt (aea_term args) clk s"
  from tp wf have b: "snapIndex s \<le> aea_prevlogindex args" "aea_prevlogindex args \<le> getLastLogIndex s"
    using term_at_Some_iff [OF wf] by blast+
  have m: "matchLog (aea_prevlogindex args) (aea_prevlogterm args) ?s = Inr False"
    using wf tp neq by (simp add: matchLog_wf)
  obtain found where f: "conflictSearch (aea_prevlogindex args) (aea_prevlogindex args) ?s = Inr found"
    and r: "conflict_result ?s (aea_prevlogindex args) tp found"
    using conflictSearch_ok [of ?s "aea_prevlogindex args" "aea_prevlogindex args" tp] wf b tp
    by (force simp del: not_less)
  from r have "conflict_result s (aea_prevlogindex args) tp found"
    by (cases found) (simp_all add: conflict_result_def)
  moreover have "AppendEntries1 c clk args s = Inr (persist c ?s,
      rejected (aea_term args) (case found of None \<Rightarrow> aea_prevlogindex args | Some u \<Rightarrow> u))"
    using assms(2) b m f
    by (simp add: AppendEntries1_adopt AppendEntries1_logs_def Let_def AppendEntriesReply0_def)
  ultimately show ?thesis by blast
qed

text \<open>Branch 5: the position matches. The loop and both assertions after it succeed as long as no
  received entry has the index and term of a stored one and another command.\<close>

definition commit_after :: "int \<Rightarrow> int \<Rightarrow> int \<Rightarrow> int" where
  "commit_after leaderCommit lastIndex commit =
     (if leaderCommit > commit then min leaderCommit lastIndex else commit)"

lemma AppendEntries1_match:
  assumes wf: "log_wf s" and cm: "m_commitIndex s \<le> getLastLogIndex s"
    and trm: "m_currentTerm s \<le> aea_term args"
    and tp: "term_at s (aea_prevlogindex args) = Some (aea_prevlogterm args)"
    and num: "numbered logindex (aea_prevlogindex args) (aea_entries args)"
    and nc: "no_conflict (aea_entries args) s"
  shows "\<exists>logs. AppendEntries1 c clk args s =
       Inr (persist c ((adopt (aea_term args) clk s)\<lparr>m_logs := logs, m_commitIndex :=
              commit_after (aea_leadercommit args)
                (max (getLastLogIndex s) (aea_prevlogindex args + int (length (aea_entries args))))
                (m_commitIndex s)\<rparr>),
            \<lparr>aer_term = aea_term args, aer_success = True, aer_updatenextindex = 0,
             aer_appstate = AppNormal\<rparr>) \<and>
       log_wf (s\<lparr>m_logs := logs\<rparr>) \<and>
       getLastLogIndex (s\<lparr>m_logs := logs\<rparr>) =
         max (getLastLogIndex s) (aea_prevlogindex args + int (length (aea_entries args))) \<and>
       entry_at (s\<lparr>m_logs := logs\<rparr>) = merged (aea_prevlogindex args) (aea_entries args) s"
proof -
  let ?s = "adopt (aea_term args) clk s" and ?prev = "aea_prevlogindex args"
  let ?es = "aea_entries args"
  from tp wf have b: "snapIndex s \<le> ?prev" "?prev \<le> getLastLogIndex s"
    using term_at_Some_iff [OF wf] by blast+
  have m: "matchLog ?prev (aea_prevlogterm args) ?s = Inr True"
    using wf tp by (simp add: matchLog_wf)
  obtain s1 where loop: "appendEntriesLoop ?es ?s = Inr s1"
    using appendEntriesLoop_ok [of ?s ?prev ?es] wf b num nc by auto
  have "s1 = ?s\<lparr>m_logs := m_logs s1\<rparr> \<and> log_wf s1 \<and>
     getLastLogIndex s1 = max (getLastLogIndex ?s) (?prev + int (length ?es)) \<and>
     entry_at s1 = merged ?prev ?es ?s \<and> no_conflict ?es ?s"
    using wf b num loop by (intro appendEntriesLoop_ret) auto
  then obtain logs where s1: "s1 = ?s\<lparr>m_logs := logs\<rparr>" and r: "log_wf s1"
     "getLastLogIndex s1 = max (getLastLogIndex s) (?prev + int (length ?es))"
     "entry_at s1 = merged ?prev ?es s" by auto
  have frame: "log_wf s1 = log_wf (s\<lparr>m_logs := logs\<rparr>)"
    "getLastLogIndex s1 = getLastLogIndex (s\<lparr>m_logs := logs\<rparr>)"
    "entry_at s1 = entry_at (s\<lparr>m_logs := logs\<rparr>)"
    by (simp_all add: s1 log_wf_def lastlog_defs entry_at_def fun_eq_iff)
  have fin: "s1\<lparr>m_commitIndex := commit_after (aea_leadercommit args) (getLastLogIndex s1) (m_commitIndex s)\<rparr>
    = (if aea_leadercommit args > m_commitIndex s1
       then s1\<lparr>m_commitIndex := min (aea_leadercommit args) (getLastLogIndex s1)\<rparr> else s1)"
    by (cases s) (simp add: s1 commit_after_def adopt_def)
  have "AppendEntries1 c clk args s =
       Inr (persist c (s1\<lparr>m_commitIndex :=
              commit_after (aea_leadercommit args) (getLastLogIndex s1) (m_commitIndex s)\<rparr>),
            \<lparr>aer_term = aea_term args, aer_success = True, aer_updatenextindex = 0,
             aer_appstate = AppNormal\<rparr>)"
    unfolding fin using trm b m loop cm r(2)
    by (simp add: AppendEntries1_adopt AppendEntries1_logs_def Let_def AppendEntriesReply0_def s1
        rbind_myAssert max.coboundedI1)
  with r frame show ?thesis by (intro exI [of _ logs]) (simp add: s1)
qed


lemma AppendEntries1_match_conflict:
  assumes wf: "log_wf s" and trm: "m_currentTerm s \<le> aea_term args"
    and tp: "term_at s (aea_prevlogindex args) = Some (aea_prevlogterm args)"
    and num: "numbered logindex (aea_prevlogindex args) (aea_entries args)"
    and ret: "AppendEntries1 c clk args s = Inr r"
  shows "no_conflict (aea_entries args) s"
proof -
  let ?s = "adopt (aea_term args) clk s"
  from tp wf have b: "snapIndex s \<le> aea_prevlogindex args" "aea_prevlogindex args \<le> getLastLogIndex s"
    using term_at_Some_iff [OF wf] by blast+
  have m: "matchLog (aea_prevlogindex args) (aea_prevlogterm args) ?s = Inr True"
    using wf tp by (simp add: matchLog_wf)
  with ret trm b obtain s1 where "appendEntriesLoop (aea_entries args) ?s = Inr s1"
    by (auto simp: AppendEntries1_adopt AppendEntries1_logs_def Let_def rbind_eq_Inr)
  then have "no_conflict (aea_entries args) ?s"
    using appendEntriesLoop_ret [of ?s "aea_prevlogindex args" "aea_entries args" s1] wf b num by simp
  then show ?thesis by simp
qed

text \<open>Exactly when the handler returns.\<close>

lemma AppendEntries1_returns_iff:
  assumes wf: "log_wf s" and cm: "m_commitIndex s \<le> getLastLogIndex s"
    and num: "numbered logindex (aea_prevlogindex args) (aea_entries args)"
  shows "(\<exists>r. AppendEntries1 c clk args s = Inr r) \<longleftrightarrow>
     aea_term args < m_currentTerm s \<or> getLastLogIndex s < aea_prevlogindex args \<or>
     snapIndex s \<le> aea_prevlogindex args \<and>
       (term_at s (aea_prevlogindex args) = Some (aea_prevlogterm args) \<longrightarrow> no_conflict (aea_entries args) s)"
    (is "?ret \<longleftrightarrow> ?stale \<or> ?far \<or> ?in \<and> (?match \<longrightarrow> ?nc)")
proof -
  consider "?stale" | "\<not> ?stale" "?far" | "\<not> ?stale" "\<not> ?far" "\<not> ?in" | "\<not> ?stale" "\<not> ?far" "?in" "?match"
    | "\<not> ?stale" "\<not> ?far" "?in" "\<not> ?match" by blast
  then show ?thesis
  proof cases
    case 1
    then show ?thesis by (simp add: AppendEntries1_stale)
  next
    case 2
    then show ?thesis by (simp add: AppendEntries1_too_far)
  next
    case 3
    then show ?thesis by (simp add: AppendEntries1_in_snapshot)
  next
    case 4
    then have "m_currentTerm s \<le> aea_term args" by simp
    with 4 show ?thesis
      using AppendEntries1_match [OF wf cm _ _ num, of c clk] AppendEntries1_match_conflict [OF wf _ _ num, of c clk]
      by blast
  next
    case 5
    then have "m_currentTerm s \<le> aea_term args" by simp
    moreover obtain tp where "term_at s (aea_prevlogindex args) = Some tp" "tp \<noteq> aea_prevlogterm args"
      using 5 term_at_Some_iff [OF wf, of "aea_prevlogindex args"] by auto
    ultimately have ?ret using AppendEntries1_mismatch [OF wf] by blast
    with 5 show ?thesis by blast
  qed
qed

text \<open>What a caller can rely on: the term, and either an untouched log or the merged one.\<close>

lemma AppendEntries1_cases:
  assumes wf: "raft_wf s" and num: "numbered logindex (aea_prevlogindex args) (aea_entries args)"
    and ret: "AppendEntries1 c clk args s = Inr (s', reply)"
  obtains (stale) "aea_term args < m_currentTerm s" "s' = s" "reply = rejected (m_currentTerm s) (-100)"
  | (reject) u where "m_currentTerm s \<le> aea_term args" "s' = persist c (adopt (aea_term args) clk s)"
      "reply = rejected (aea_term args) u" "snapIndex s \<le> u" "u \<le> getLastLogIndex s + 1"
      "u \<le> aea_prevlogindex args"
      "1 \<le> u \<or> u = aea_prevlogindex args \<and> u = snapIndex s \<and> m_lastSnapshotIncludeTerm s \<noteq> aea_prevlogterm args"
  | (accept) logs where "m_currentTerm s \<le> aea_term args"
      "s' = persist c ((adopt (aea_term args) clk s)\<lparr>m_logs := logs, m_commitIndex :=
              commit_after (aea_leadercommit args) (getLastLogIndex (s\<lparr>m_logs := logs\<rparr>)) (m_commitIndex s)\<rparr>)"
      "reply = \<lparr>aer_term = aea_term args, aer_success = True, aer_updatenextindex = 0, aer_appstate = AppNormal\<rparr>"
      "log_wf (s\<lparr>m_logs := logs\<rparr>)"
      "getLastLogIndex (s\<lparr>m_logs := logs\<rparr>) =
         max (getLastLogIndex s) (aea_prevlogindex args + int (length (aea_entries args)))"
      "entry_at (s\<lparr>m_logs := logs\<rparr>) = merged (aea_prevlogindex args) (aea_entries args) s"
      "term_at s (aea_prevlogindex args) = Some (aea_prevlogterm args)"
      "no_conflict (aea_entries args) s"
proof -
  from wf have lw: "log_wf s" and cm: "m_commitIndex s \<le> getLastLogIndex s" by (simp_all add: raft_wf_def)
  consider "aea_term args < m_currentTerm s"
    | "m_currentTerm s \<le> aea_term args" "getLastLogIndex s < aea_prevlogindex args"
    | tp where "m_currentTerm s \<le> aea_term args" "term_at s (aea_prevlogindex args) = Some tp"
        "tp \<noteq> aea_prevlogterm args"
    | "m_currentTerm s \<le> aea_term args" "term_at s (aea_prevlogindex args) = Some (aea_prevlogterm args)"
    using AppendEntries1_returns_iff [OF lw cm num, of c clk] ret
      term_at_Some_iff [OF lw, of "aea_prevlogindex args"] by (metis linorder_not_less)
  then show thesis
  proof cases
    case 1
    with ret show thesis by (intro stale) (auto simp: AppendEntries1_stale)
  next
    case 2
    with ret show thesis
      using getLastLogIndex_ge [OF lw] wf
      by (intro reject [of "getLastLogIndex s + 1"]) (simp_all add: AppendEntries1_too_far raft_wf_def)
  next
    case 3
    then have b: "snapIndex s \<le> aea_prevlogindex args" "aea_prevlogindex args \<le> getLastLogIndex s"
      using term_at_Some_iff [OF lw] by blast+
    obtain found where f: "s' = persist c (adopt (aea_term args) clk s)"
        "reply = rejected (aea_term args) (case found of None \<Rightarrow> aea_prevlogindex args | Some u \<Rightarrow> u)"
        "conflict_result s (aea_prevlogindex args) tp found"
      using AppendEntries1_mismatch [OF lw 3, of c clk] ret by auto
    have snap: "0 \<le> snapIndex s" using wf by (simp add: raft_wf_def)
    show thesis
      by (rule reject [OF 3(1) f(1,2)])
         (use f(3) b snap 3 in \<open>auto simp: conflict_result_def term_at_def split: option.splits\<close>)
  next
    case 4
    then have nc: "no_conflict (aea_entries args) s"
      using AppendEntries1_match_conflict [OF lw _ _ num ret] by simp
    from AppendEntries1_match [OF lw cm 4 num nc, of c clk] ret 4 nc show thesis
      by (elim exE conjE) (intro accept; simp)
  qed
qed

lemma AppendEntries1_wf_evolves:
  assumes wf: "raft_wf s" and num: "numbered logindex (aea_prevlogindex args) (aea_entries args)"
    and ret: "AppendEntries1 c clk args s = Inr (s', reply)"
  shows "raft_wf s' \<and> evolves s s'"
  using wf num ret
proof (cases rule: AppendEntries1_cases)
  case (accept logs)
  let ?s1 = "s\<lparr>m_logs := logs\<rparr>"
  have "log_wf s' = log_wf ?s1" "getLastLogIndex s' = getLastLogIndex ?s1"
    by (simp_all add: accept(2) log_wf_def lastlog_defs)
  with wf accept show ?thesis
    by (auto simp: raft_wf_def commit_after_def evolves_def advances_def adopt_def)
qed (use wf in \<open>simp_all add: evolves_adopt\<close>)

interpretation append_entries: replica_op
  "\<lambda>s s'. \<exists>c clk args reply. numbered logindex (aea_prevlogindex args) (aea_entries args) \<and>
     AppendEntries1 c clk args s = Inr (s', reply)"
  by unfold_locales (use AppendEntries1_wf_evolves in blast)+

section \<open>Voting\<close>

lemma RequestVote_total: "\<exists>s' reply. RequestVote c clk args s = Inr (s', reply)"
  by (auto simp: RequestVote_def Let_def)

lemma RequestVote_wf_evolves:
  assumes wf: "raft_wf s" and ret: "RequestVote c clk args s = Inr (s', reply)"
  shows "raft_wf s' \<and> evolves s s'"
  using assms by (auto simp: RequestVote_def Let_def raft_wf_def evolves_def advances_def split: if_splits)

interpretation request_vote: replica_op "\<lambda>s s'. \<exists>c clk args reply. RequestVote c clk args s = Inr (s', reply)"
  by unfold_locales (use RequestVote_wf_evolves in blast)+

lemma RequestVote_log:
  "RequestVote c clk args s = Inr (s', reply) \<Longrightarrow> m_logs s' = m_logs s \<and> snapIndex s' = snapIndex s \<and>
     m_lastSnapshotIncludeTerm s' = m_lastSnapshotIncludeTerm s \<and> m_commitIndex s' = m_commitIndex s"
  by (auto simp: RequestVote_def Let_def split: if_splits)

text \<open>The reply carries a vote exactly when the candidate's term is current, its log is at least as
  up-to-date, and this replica has not voted for another candidate in the term.\<close>

lemma RequestVote_granted:
  assumes "RequestVote c clk args s = Inr (s', reply)"
  shows "rvr_votegranted reply \<longleftrightarrow> m_currentTerm s \<le> rva_term args \<and>
     UpToDate (rva_lastlogindex args) (rva_lastlogterm args) s \<and>
     (m_currentTerm s < rva_term args \<or> m_votedFor s = -1 \<or> m_votedFor s = rva_candidateid args)"
proof -
  have "UpToDate i t (s\<lparr>m_status := Follower, m_currentTerm := k, m_votedFor := -1\<rparr>) = UpToDate i t s" for i t k
    by (simp add: UpToDate_def lastlog_defs)
  with assms show ?thesis by (auto simp: RequestVote_def Let_def split: if_splits)
qed

lemma RequestVote_term:
  assumes "RequestVote c clk args s = Inr (s', reply)"
  shows "rvr_term reply = max (m_currentTerm s) (rva_term args)" "m_currentTerm s' = rvr_term reply"
  using assms by (auto simp: RequestVote_def Let_def split: if_splits)

lemma RequestVote_vote:
  assumes "RequestVote c clk args s = Inr (s', reply)" and "rvr_votegranted reply"
  shows "m_currentTerm s' = rva_term args" "m_votedFor s' = rva_candidateid args" "rvr_term reply = rva_term args"
  using assms by (auto simp: RequestVote_def Let_def split: if_splits)

lemma doElection_wf_evolves:
  assumes "raft_wf s" and "doElection c clk s = (s', cnt, ts)"
  shows "raft_wf s' \<and> evolves s s'"
  using assms by (auto simp: doElection_def Let_def raft_wf_def evolves_def advances_def split: if_splits)

interpretation do_election: replica_op "\<lambda>s s'. \<exists>c clk cnt ts. doElection c clk s = (s', cnt, ts)"
  by unfold_locales (use doElection_wf_evolves in blast)+


text \<open>A reply that does not complete a majority evolves the state; one that does elects the replica.\<close>

definition won_state :: "codec \<Rightarrow> raft \<Rightarrow> raft" where
  "won_state c s = persist c (s\<lparr>m_status := Leader,
     m_nextIndex := replicate (m_peers s) (getLastLogIndex s + 1), m_matchIndex := replicate (m_peers s) 0\<rparr>)"

lemma sendRequestVote_cases:
  assumes wf: "raft_wf s" and ret: "sendRequestVote c ok reply votedNum s = Inr (s', votedNum', ts)"
  obtains (same) "s' = s" "votedNum' = votedNum" "ts = []"
  | (down) "rvr_term reply > m_currentTerm s" "votedNum' = votedNum" "ts = []"
      "s' = persist c (s\<lparr>m_status := Follower, m_currentTerm := rvr_term reply, m_votedFor := -1\<rparr>)"
  | (count) "ok" "rvr_votegranted reply" "rvr_term reply = m_currentTerm s" "s' = s" "votedNum' = votedNum + 1"
      "ts = []" "votedNum + 1 < int (m_peers s div 2 + 1)"
  | (won) "ok" "rvr_votegranted reply" "rvr_term reply = m_currentTerm s" "m_status s \<noteq> Leader"
      "votedNum + 1 \<ge> int (m_peers s div 2 + 1)" "s' = won_state c s" "votedNum' = 0" "ts = [DoHeartBeat]"
proof -
  from wf have len: "length (m_nextIndex s) = m_peers s" "length (m_matchIndex s) = m_peers s"
    by (simp_all add: raft_wf_def)
  consider "\<not> ok" | "ok" "rvr_term reply > m_currentTerm s" | "ok" "rvr_term reply < m_currentTerm s"
    | "ok" "rvr_term reply = m_currentTerm s" "\<not> rvr_votegranted reply"
    | "ok" "rvr_term reply = m_currentTerm s" "rvr_votegranted reply" "votedNum + 1 < int (m_peers s div 2 + 1)"
    | "ok" "rvr_term reply = m_currentTerm s" "rvr_votegranted reply" "votedNum + 1 \<ge> int (m_peers s div 2 + 1)"
    by linarith
  then show thesis
  proof cases
    case 2
    with ret show thesis by (intro down) (auto simp: sendRequestVote_def)
  next
    case 5
    with ret show thesis by (intro count) (auto simp: sendRequestVote_def)
  next
    case 6
    with ret have nl: "m_status s \<noteq> Leader" by (auto simp: sendRequestVote_def rbind_myAssert split: if_splits)
    with 6 ret len show thesis
      by (intro won) (simp_all add: sendRequestVote_def won_state_def Let_def)
  qed (use ret in \<open>auto simp: sendRequestVote_def intro: same\<close>)
qed

lemma sendRequestVote_fails:
  assumes wf: "raft_wf s"
  shows "(\<exists>f. sendRequestVote c ok reply votedNum s = Inl f) \<longleftrightarrow>
     ok \<and> rvr_votegranted reply \<and> rvr_term reply = m_currentTerm s \<and> m_status s = Leader \<and>
     votedNum + 1 \<ge> int (m_peers s div 2 + 1)"
  using wf by (auto simp: sendRequestVote_def raft_wf_def rbind_myAssert Let_def)

lemma won_state_fields [simp, node_simps]:
  "m_peers (won_state c s) = m_peers s" "m_me (won_state c s) = m_me s"
  "m_currentTerm (won_state c s) = m_currentTerm s" "m_votedFor (won_state c s) = m_votedFor s"
  "m_logs (won_state c s) = m_logs s" "snapIndex (won_state c s) = snapIndex s"
  "m_lastSnapshotIncludeTerm (won_state c s) = m_lastSnapshotIncludeTerm s"
  "getLastLogIndex (won_state c s) = getLastLogIndex s" "m_status (won_state c s) = Leader"
  "m_nextIndex (won_state c s) = replicate (m_peers s) (getLastLogIndex s + 1)"
  "m_matchIndex (won_state c s) = replicate (m_peers s) 0" "m_commitIndex (won_state c s) = m_commitIndex s"
  "m_lastApplied (won_state c s) = m_lastApplied s" "log_wf (won_state c s) = log_wf s"
  by (simp_all add: won_state_def lastlog_defs)

lemma won_state_wf: "raft_wf s \<Longrightarrow> raft_wf (won_state c s)"
  by (simp add: raft_wf_def)

lemma won_state_advances: "advances s (won_state c s)"
  by (simp add: advances_def)

lemma won_state_bound_vote [simp]: "bound_vote (won_state c s) trm cand = bound_vote s trm cand"
  by (simp add: bound_vote_def)

lemma sendRequestVote_wf_evolves:
  assumes "raft_wf s" and "sendRequestVote c ok reply votedNum s = Inr (s', votedNum', ts)"
  shows "raft_wf s' \<and> (evolves s s' \<or> s' = won_state c s)"
  using assms
proof (cases rule: sendRequestVote_cases)
  case down
  with assms(1) show ?thesis by (simp add: raft_wf_def evolves_def advances_def)
qed (use assms(1) in \<open>simp_all add: won_state_wf\<close>)

interpretation send_request_vote: replica_op
  "\<lambda>s s'. \<exists>c ok reply votedNum votedNum' ts. m_status s' \<noteq> Leader \<and>
     sendRequestVote c ok reply votedNum s = Inr (s', votedNum', ts)"
  by unfold_locales (use sendRequestVote_wf_evolves won_state_fields(9) in metis)+

section \<open>Replication at the leader\<close>

lemma doHeartBeat_state:
  assumes "doHeartBeat clk s = Inr (s', cnt, ts)"
  shows "s' = s \<or> s' = s\<lparr>m_lastResetHearBeatTime := clk\<rparr>"
  using assms by (auto simp: doHeartBeat_def rbind_eq_Inr split: if_splits)

lemma doHeartBeat_wf_evolves:
  assumes "raft_wf s" and "doHeartBeat clk s = Inr (s', cnt, ts)"
  shows "raft_wf s' \<and> evolves s s'"
  using assms doHeartBeat_state [OF assms(2)] by (auto simp: raft_wf_def evolves_def advances_def)

interpretation do_heart_beat: replica_op "\<lambda>s s'. \<exists>clk cnt ts. doHeartBeat clk s = Inr (s', cnt, ts)"
  by unfold_locales (use doHeartBeat_wf_evolves in blast)+

text \<open>A reply is ignored, ends the leadership, moves \<open>nextIndex\<close> back, or acknowledges the entries.\<close>

definition acked :: "nat \<Rightarrow> appendEntriesArgs \<Rightarrow> int \<Rightarrow> raft \<Rightarrow> raft" where
  "acked server args commit s =
     (let m = max (m_matchIndex s ! server) (aea_prevlogindex args + int (length (aea_entries args))) in
      s\<lparr>m_matchIndex := (m_matchIndex s)[server := m], m_nextIndex := (m_nextIndex s)[server := m + 1],
        m_commitIndex := commit\<rparr>)"

lemma sendAppendEntries_cases:
  assumes "sendAppendEntries ok server args reply cnt s = Inr (s', cnt')"
  obtains (same) "s' = s" "cnt' = cnt"
  | (down) "aer_term reply > m_currentTerm s" "cnt' = cnt"
      "s' = s\<lparr>m_status := Follower, m_currentTerm := aer_term reply, m_votedFor := -1\<rparr>"
  | (retreat) "aer_appstate reply \<noteq> Disconnected" "\<not> aer_success reply" "aer_term reply = m_currentTerm s"
      "m_status s = Leader" "aer_updatenextindex reply \<noteq> -100" "cnt' = cnt" "server < length (m_nextIndex s)"
      "s' = s\<lparr>m_nextIndex := (m_nextIndex s)[server := aer_updatenextindex reply]\<rparr>"
  | (ack) commit where "aer_appstate reply \<noteq> Disconnected" "aer_success reply" "aer_term reply = m_currentTerm s"
      "m_status s = Leader" "server < length (m_matchIndex s)" "server < length (m_nextIndex s)"
      "max (m_matchIndex s ! server) (aea_prevlogindex args + int (length (aea_entries args))) \<le> getLastLogIndex s"
      "m_commitIndex s \<le> commit" "commit \<le> max (m_commitIndex s) (getLastLogIndex s)"
      "commit = m_commitIndex s \<or> commit = aea_prevlogindex args + int (length (aea_entries args)) \<and>
         cnt + 1 \<ge> int (1 + m_peers s div 2) \<and> aea_entries args \<noteq> [] \<and>
         logterm (last (aea_entries args)) = m_currentTerm s"
      "s' = acked server args commit s"
proof -
  let ?sent = "aea_prevlogindex args + int (length (aea_entries args))"
  consider "\<not> ok \<or> aer_appstate reply = Disconnected \<or> aer_term reply < m_currentTerm s"
    | "ok" "aer_appstate reply \<noteq> Disconnected" "aer_term reply > m_currentTerm s"
    | "ok" "aer_appstate reply \<noteq> Disconnected" "aer_term reply = m_currentTerm s" "m_status s \<noteq> Leader"
    | "ok" "aer_appstate reply \<noteq> Disconnected" "aer_term reply = m_currentTerm s" "m_status s = Leader" "\<not> aer_success reply"
    | "ok" "aer_appstate reply \<noteq> Disconnected" "aer_term reply = m_currentTerm s" "m_status s = Leader" "aer_success reply"
    by linarith
  then show thesis
  proof cases
    case 1
    with assms show thesis by (intro same) (auto simp: sendAppendEntries_def split: if_splits)
  next
    case 2
    with assms show thesis by (intro down) (auto simp: sendAppendEntries_def)
  next
    case 3
    with assms show thesis by (intro same) (auto simp: sendAppendEntries_def)
  next
    case 4
    show thesis
    proof (cases "aer_updatenextindex reply = -100")
      case True
      with 4 assms show thesis by (intro same) (auto simp: sendAppendEntries_def)
    next
      case False
      with 4 assms show thesis by (intro retreat) (auto simp: sendAppendEntries_def rbind_eq_Inr vset_eq_Inr)
    qed
  next
    case 5
    define m where "m = max (m_matchIndex s ! server) ?sent"
    define s1 where "s1 = s\<lparr>m_matchIndex := (m_matchIndex s)[server := m], m_nextIndex := (m_nextIndex s)[server := m + 1]\<rparr>"
    define commit where "commit =
      (if cnt + 1 \<ge> int (1 + m_peers s div 2) \<and> aea_entries args \<noteq> [] \<and> logterm (last (aea_entries args)) = m_currentTerm s
       then max (m_commitIndex s) ?sent else m_commitIndex s)"
    from 5 assms have b: "server < length (m_matchIndex s)" "server < length (m_nextIndex s)"
      by (auto simp: sendAppendEntries_def Let_def rbind_eq_Inr vset_eq_Inr vget_eq_Inr)
    have last: "getLastLogIndex s1 = getLastLogIndex s" by (simp add: s1_def)
    have "sendAppendEntries ok server args reply cnt s = rbind (myAssert (m + 1 \<le> getLastLogIndex s + 1) ''rf.nextIndex > lastLogIndex+1'') (\<lambda>_.
          if cnt + 1 \<ge> int (1 + m_peers s div 2) then
            let s2 = (if aea_entries args \<noteq> [] \<and> logterm (last (aea_entries args)) = m_currentTerm s
                      then s1\<lparr>m_commitIndex := max (m_commitIndex s) ?sent\<rparr> else s1) in
            rbind (myAssert (m_commitIndex s2 \<le> getLastLogIndex s) ''rf.commitIndex > lastLogIndex'') (\<lambda>_.
            Inr (s2, 0))
          else Inr (s1, cnt + 1))"
      using 5 b
      by (simp add: sendAppendEntries_def Let_def vset_def s1_def m_def split del: if_split cong del: if_weak_cong)
    note ret = this [symmetric, unfolded assms]
    have idem: "s1\<lparr>m_commitIndex := m_commitIndex s\<rparr> = s1" by (cases s) (simp add: s1_def)
    have s': "s' = acked server args commit s"
      using ret idem by (auto simp: rbind_myAssert Let_def commit_def acked_def s1_def m_def split: if_splits)
    have m: "m \<le> getLastLogIndex s" using ret by (auto simp: rbind_myAssert split: if_splits)
    show thesis
      using 5 b m s' by (intro ack [of commit]) (auto simp: m_def commit_def)
  qed
qed

lemma acked_fields [simp, node_simps]:
  "m_peers (acked server args k s) = m_peers s" "m_me (acked server args k s) = m_me s"
  "m_currentTerm (acked server args k s) = m_currentTerm s" "m_votedFor (acked server args k s) = m_votedFor s"
  "m_status (acked server args k s) = m_status s" "m_logs (acked server args k s) = m_logs s"
  "snapIndex (acked server args k s) = snapIndex s" "m_commitIndex (acked server args k s) = k"
  "m_lastSnapshotIncludeTerm (acked server args k s) = m_lastSnapshotIncludeTerm s"
  "m_lastApplied (acked server args k s) = m_lastApplied s" "log_wf (acked server args k s) = log_wf s"
  "getLastLogIndex (acked server args k s) = getLastLogIndex s"
  "length (m_nextIndex (acked server args k s)) = length (m_nextIndex s)"
  "length (m_matchIndex (acked server args k s)) = length (m_matchIndex s)"
  by (simp_all add: acked_def Let_def)

lemma sendAppendEntries_wf_evolves:
  assumes wf: "raft_wf s" and ret: "sendAppendEntries ok server args reply cnt s = Inr (s', cnt')"
  shows "raft_wf s' \<and> evolves s s'"
  using ret
proof (cases rule: sendAppendEntries_cases)
  case down
  with wf show ?thesis by (simp add: raft_wf_def evolves_def advances_def)
next
  case retreat
  with wf show ?thesis by (simp add: raft_wf_def evolves_def advances_def)
next
  case (ack commit)
  with wf show ?thesis by (auto simp: raft_wf_def evolves_def advances_def)
qed (use wf in simp)

interpretation send_append_entries: replica_op
  "\<lambda>s s'. \<exists>ok server args reply cnt cnt'. sendAppendEntries ok server args reply cnt s = Inr (s', cnt')"
  by unfold_locales (use sendAppendEntries_wf_evolves in blast)+

lemma Start_wf_evolves:
  assumes wf: "raft_wf s" and ret: "Start c cmd s = (s', r)"
  shows "raft_wf s' \<and> evolves s s'"
proof (cases "m_status s = Leader")
  case True
  let ?e = "\<lparr>command = asString c cmd, logterm = m_currentTerm s, logindex = getNewCommandIndex s\<rparr>"
  from wf have lw: "log_wf s" by (simp add: raft_wf_def)
  have "logindex ?e = getLastLogIndex s + 1" by (simp add: getNewCommandIndex_def)
  note push = entry_at_push [OF lw this]
  from ret True have "s' = persist c (s\<lparr>m_logs := m_logs s @ [?e]\<rparr>)" by (simp add: Start_def Let_def)
  with wf push(1,2) True show ?thesis
    by (auto simp: raft_wf_def evolves_def advances_def getNewCommandIndex_def)
qed (use assms in \<open>simp add: Start_def\<close>)

interpretation start: replica_op "\<lambda>s s'. \<exists>c cmd r. Start c cmd s = (s', r)"
  by unfold_locales (use Start_wf_evolves in blast)+


section \<open>Applying\<close>

text \<open>\<open>getApplyLogs\<close> delivers the commands of the committed, not yet applied indices in order.\<close>

definition commandMsg :: "raft \<Rightarrow> int \<Rightarrow> applyMsg" where
  "commandMsg s i = ApplyMsg\<lparr>CommandValid := True, Command := command (the (entry_at s i)), CommandIndex := i\<rparr>"

lemma commandMsg_frame [simp]: "commandMsg (s\<lparr>m_lastApplied := k\<rparr>) = commandMsg s"
  by (simp add: commandMsg_def fun_eq_iff)

lemma getApplyLogs_spec:
  assumes "log_wf s" and "snapIndex s \<le> m_lastApplied s" and "m_commitIndex s \<le> getLastLogIndex s"
  shows "getApplyLogs s =
     Inr (s\<lparr>m_lastApplied := max (m_lastApplied s) (m_commitIndex s)\<rparr>,
          map (commandMsg s) [m_lastApplied s + 1..m_commitIndex s])"
  using assms
proof (induction s rule: getApplyLogs.induct)
  case (1 s)
  let ?i = "m_lastApplied s + 1" and ?s1 = "s\<lparr>m_lastApplied := m_lastApplied s + 1\<rparr>"
  show ?case
  proof (cases "m_lastApplied s < m_commitIndex s")
    case True
    then obtain e where e: "entry_at s ?i = Some e"
      using entry_at_Some_iff [OF 1(2), of ?i] 1(3,4) by auto
    have at: "logAt ?i ?s1 = Inr e" using 1(2) e by (simp add: logAt_wf)
    have idx: "logindex e = ?i" by (rule entry_at_index [OF 1(2) e])
    have IH: "getApplyLogs ?s1 = Inr (?s1\<lparr>m_lastApplied := max ?i (m_commitIndex s)\<rparr>,
        map (commandMsg s) [?i + 1..m_commitIndex s])"
      using 1(1) [OF True refl, of e "()"] 1(2-4) at idx by simp
    have "commandMsg s ?i = ApplyMsg\<lparr>CommandValid := True, SnapshotValid := False, Command := command e,
        CommandIndex := ?i\<rparr>" using e by (simp add: commandMsg_def ApplyMsg_def)
    moreover have "[?i..m_commitIndex s] = ?i # [?i + 1..m_commitIndex s]"
      using True by (simp add: upto_rec1)
    ultimately show ?thesis
      using True at idx IH by (subst getApplyLogs.simps) (simp add: max_def)
  next
    case False
    then show ?thesis by (subst getApplyLogs.simps) (cases s, simp add: max_def)
  qed
qed

lemma applierTicker_spec:
  assumes "raft_wf s"
  shows "applierTicker s = Inr (s\<lparr>m_lastApplied := max (m_lastApplied s) (m_commitIndex s),
     applyChan := applyChan s @ map (commandMsg s) [m_lastApplied s + 1..m_commitIndex s]\<rparr>)"
  using assms getApplyLogs_spec [of s] by (simp add: applierTicker_def raft_wf_def)

lemma applierTicker_wf_evolves:
  assumes "raft_wf s" and "applierTicker s = Inr s'"
  shows "raft_wf s' \<and> evolves s s'"
  using assms by (auto simp: applierTicker_spec raft_wf_def evolves_def advances_def)

interpretation applier: replica_op "\<lambda>s s'. applierTicker s = Inr s'"
  by unfold_locales (use applierTicker_wf_evolves in blast)+

lemma pushMsgToKvServer_wf_evolves: "raft_wf s \<Longrightarrow> raft_wf (pushMsgToKvServer msg s) \<and> evolves s (pushMsgToKvServer msg s)"
  by (simp add: pushMsgToKvServer_def raft_wf_def evolves_def advances_def)

interpretation push_msg: replica_op "\<lambda>s s'. \<exists>msg. s' = pushMsgToKvServer msg s"
  by unfold_locales (use pushMsgToKvServer_wf_evolves in blast)+

section \<open>Snapshots\<close>

text \<open>Cutting the log at an index keeps the entries above it.\<close>

definition cut :: "int \<Rightarrow> int \<Rightarrow> raft \<Rightarrow> raft" where
  "cut idx trm s = s\<lparr>m_logs := drop (nat (idx - snapIndex s)) (m_logs s),
     m_commitIndex := max (m_commitIndex s) idx, m_lastApplied := max (m_lastApplied s) idx,
     m_lastSnapshotIncludeIndex := idx, m_lastSnapshotIncludeTerm := trm\<rparr>"

lemma cut_fields [simp, node_simps]:
  "m_peers (cut i t s) = m_peers s" "m_me (cut i t s) = m_me s" "m_currentTerm (cut i t s) = m_currentTerm s"
  "m_votedFor (cut i t s) = m_votedFor s" "m_status (cut i t s) = m_status s" "snapIndex (cut i t s) = i"
  "m_lastSnapshotIncludeTerm (cut i t s) = t" "m_commitIndex (cut i t s) = max (m_commitIndex s) i"
  "m_lastApplied (cut i t s) = max (m_lastApplied s) i" "m_nextIndex (cut i t s) = m_nextIndex s"
  "m_matchIndex (cut i t s) = m_matchIndex s" "applyChan (cut i t s) = applyChan s"
  by (simp_all add: cut_def)

lemma cut_log:
  assumes wf: "log_wf s" and idx: "snapIndex s \<le> idx"
  shows "log_wf (cut idx trm s)" "getLastLogIndex (cut idx trm s) = max (getLastLogIndex s) idx"
    "entry_at (cut idx trm s) = (\<lambda>i. if i \<le> idx then None else entry_at s i)"
proof -
  have "numbered logindex idx (drop (nat (idx - snapIndex s)) (m_logs s))"
  proof (cases "nat (idx - snapIndex s) \<le> length (m_logs s)")
    case True
    with wf idx show ?thesis using numbered_drop [OF _ True, of logindex "snapIndex s"] by (simp add: log_wf_def)
  qed simp
  then show lw: "log_wf (cut idx trm s)" by (simp add: log_wf_def cut_def)
  show "getLastLogIndex (cut idx trm s) = max (getLastLogIndex s) idx"
    using getLastLogIndex_wf [OF lw] idx by (simp add: getLastLogIndex_wf [OF wf]) (simp add: cut_def)
  show "entry_at (cut idx trm s) = (\<lambda>i. if i \<le> idx then None else entry_at s i)"
    using idx by (auto simp: entry_at_def cut_def fun_eq_iff nth_drop nat_add_distrib [symmetric])
      (simp add: diff_right_commute)
qed

lemma cut_wf_evolves:
  assumes "raft_wf s" and "snapIndex s \<le> idx"
  shows "raft_wf (cut idx trm s) \<and> evolves s (cut idx trm s)"
  using assms cut_log [of s idx trm] by (auto simp: raft_wf_def evolves_def advances_def)


lemma trunckedLogs_spec:
  assumes "log_wf s" and "snapIndex s < i"
  shows "trunckedLogs i s = Inr (drop (nat (i - snapIndex s - 1)) (m_logs s))"
  using assms
proof (induction i s rule: trunckedLogs.induct)
  case (1 i s)
  let ?k = "nat (i - snapIndex s - 1)"
  show ?case
  proof (cases "i \<le> getLastLogIndex s")
    case True
    then have k: "?k < length (m_logs s)" using 1(2,3) getLastLogIndex_wf [OF 1(2)] by simp
    have e: "logAt i s = Inr (m_logs s ! ?k)"
      using 1(2,3) True by (simp add: logAt_wf entry_at_def getLastLogIndex_wf)
    have "nat (i + 1 - snapIndex s - 1) = Suc ?k" using 1(3) by arith
    with 1(1) [OF True e 1(2)] 1(3) have "trunckedLogs (i + 1) s = Inr (drop (Suc ?k) (m_logs s))" by simp
    with True e k show ?thesis by (subst trunckedLogs.simps) (simp add: Cons_nth_drop_Suc)
  next
    case False
    then show ?thesis using getLastLogIndex_wf [OF 1(2)] by (subst trunckedLogs.simps) simp
  qed
qed

text \<open>\<open>Snapshot\<close> never fails on a well-formed state: it is a no-op or cuts the log at a committed index.\<close>

definition saved :: "codec \<Rightarrow> string \<Rightarrow> raft \<Rightarrow> raft" where
  "saved c snapshot s = s\<lparr>m_persister := Save (persistData c s) snapshot (m_persister s)\<rparr>"

lemma saved_fields [simp, node_simps]:
  "m_peers (saved c d s) = m_peers s" "m_me (saved c d s) = m_me s"
  "m_currentTerm (saved c d s) = m_currentTerm s" "m_votedFor (saved c d s) = m_votedFor s"
  "m_logs (saved c d s) = m_logs s" "m_commitIndex (saved c d s) = m_commitIndex s"
  "m_lastApplied (saved c d s) = m_lastApplied s" "m_nextIndex (saved c d s) = m_nextIndex s"
  "m_matchIndex (saved c d s) = m_matchIndex s" "m_status (saved c d s) = m_status s"
  "applyChan (saved c d s) = applyChan s" "snapIndex (saved c d s) = snapIndex s"
  "m_lastSnapshotIncludeTerm (saved c d s) = m_lastSnapshotIncludeTerm s"
  "getLastLogIndex (saved c d s) = getLastLogIndex s" "entry_at (saved c d s) = entry_at s"
  "log_wf (saved c d s) = log_wf s" "raft_wf (saved c d s) = raft_wf s" "evolves s' (saved c d s) = evolves s' s"
  by (simp_all add: saved_def raft_wf_def evolves_def advances_def)

lemma Snapshot_spec:
  assumes wf: "raft_wf s"
  shows "Snapshot c index snapshot s =
     (if snapIndex s < index \<and> index \<le> m_commitIndex s
      then Inr (saved c snapshot (cut index (the (term_at s index)) s)) else Inr s)"
proof (cases "snapIndex s < index \<and> index \<le> m_commitIndex s")
  case True
  from wf have lw: "log_wf s" and cm: "m_commitIndex s \<le> getLastLogIndex s" by (simp_all add: raft_wf_def)
  from True cm obtain e where e: "entry_at s index = Some e"
    using entry_at_Some_iff [OF lw, of index] by auto
  have at: "logAt index s = Inr e" using e by (simp add: logAt_wf [OF lw])
  have tr: "trunckedLogs (index + 1) s = Inr (drop (nat (index - snapIndex s)) (m_logs s))"
    using trunckedLogs_spec [OF lw, of "index + 1"] True by simp
  have len: "int (length (drop (nat (index - snapIndex s)) (m_logs s))) + index = getLastLogIndex s"
    using True cm getLastLogIndex_wf [OF lw] by (simp add: of_nat_diff nat_le_iff)
  from e True have te: "the (term_at s index) = logterm e" by (simp add: term_at_def)
  show ?thesis
    using True at tr len te by (cases s) (simp add: Snapshot_def Let_def saved_def cut_def)
qed (auto simp: Snapshot_def)

lemma Snapshot_wf_evolves:
  assumes "raft_wf s" and "Snapshot c index snapshot s = Inr s'"
  shows "raft_wf s' \<and> evolves s s'"
  using assms cut_wf_evolves [of s index] by (auto simp: Snapshot_spec split: if_splits)

interpretation snapshot: replica_op "\<lambda>s s'. \<exists>c index data. Snapshot c index data s = Inr s'"
  by unfold_locales (use Snapshot_wf_evolves in blast)+

text \<open>\<open>InstallSnapshot\<close> never fails on a well-formed state either.\<close>

definition adopt_snapshot :: "codec \<Rightarrow> int \<Rightarrow> int \<Rightarrow> raft \<Rightarrow> raft" where
  "adopt_snapshot c trm clk s =
     (if trm > m_currentTerm s
      then persist c (s\<lparr>m_currentTerm := trm, m_votedFor := -1, m_status := Follower\<rparr>) else s)
       \<lparr>m_status := Follower, m_lastResetElectionTime := clk\<rparr>"

lemma adopt_snapshot_fields [simp, node_simps]:
  "m_peers (adopt_snapshot c t clk s) = m_peers s" "m_me (adopt_snapshot c t clk s) = m_me s"
  "m_logs (adopt_snapshot c t clk s) = m_logs s" "m_status (adopt_snapshot c t clk s) = Follower"
  "m_commitIndex (adopt_snapshot c t clk s) = m_commitIndex s"
  "m_lastApplied (adopt_snapshot c t clk s) = m_lastApplied s" "snapIndex (adopt_snapshot c t clk s) = snapIndex s"
  "m_lastSnapshotIncludeTerm (adopt_snapshot c t clk s) = m_lastSnapshotIncludeTerm s"
  "m_currentTerm (adopt_snapshot c t clk s) = max t (m_currentTerm s)"
  "getLastLogIndex (adopt_snapshot c t clk s) = getLastLogIndex s"
  "entry_at (adopt_snapshot c t clk s) = entry_at s" "log_wf (adopt_snapshot c t clk s) = log_wf s"
  by (simp_all add: adopt_snapshot_def)

lemma adopt_snapshot_wf_evolves:
  "raft_wf s \<Longrightarrow> raft_wf (adopt_snapshot c t clk s) \<and> evolves s (adopt_snapshot c t clk s)"
  by (auto simp: adopt_snapshot_def raft_wf_def evolves_def advances_def)

definition snapshotMsg :: "installSnapshotRequest \<Rightarrow> applyMsg" where
  "snapshotMsg args = ApplyMsg\<lparr>SnapshotValid := True, Snapshot_data := isr_data args,
     SnapshotTerm := isr_lastsnapshotincludeterm args, SnapshotIndex := isr_lastsnapshotincludeindex args\<rparr>"

lemma InstallSnapshot_spec:
  assumes wf: "raft_wf s"
  shows "InstallSnapshot c clk args s =
     (if isr_term args < m_currentTerm s then Inr (s, m_currentTerm s, [])
      else if isr_lastsnapshotincludeindex args \<le> snapIndex s
      then Inr (adopt_snapshot c (isr_term args) clk s, 0, [])
      else Inr (saved c (isr_data args) (cut (isr_lastsnapshotincludeindex args)
                  (isr_lastsnapshotincludeterm args) (adopt_snapshot c (isr_term args) clk s)),
                isr_term args, [PushMsgToKvServer (snapshotMsg args)]))"
proof -
  let ?idx = "isr_lastsnapshotincludeindex args" and ?s = "adopt_snapshot c (isr_term args) clk s"
  from wf have lw: "log_wf ?s" by (simp add: raft_wf_def)
  have logs: "(if getLastLogIndex ?s > ?idx
       then rbind (getSlicesIndexFromLogIndex ?idx ?s) (\<lambda>k. Inr (drop (nat (k + 1)) (m_logs ?s)))
       else Inr []) = Inr (drop (nat (?idx - snapIndex s)) (m_logs s))" if "snapIndex s < ?idx"
  proof (cases "getLastLogIndex ?s > ?idx")
    case True
    have "getSlicesIndexFromLogIndex ?idx ?s = Inr (?idx - snapIndex s - 1)"
      using True that by (simp add: getSlices_eq_Inr)
    with True show ?thesis by simp
  next
    case False
    then show ?thesis using getLastLogIndex_wf [OF lw] by simp
  qed
  have eq: "InstallSnapshot c clk args s =
     (if isr_term args < m_currentTerm s then Inr (s, m_currentTerm s, [])
      else if ?idx \<le> snapIndex ?s then Inr (?s, 0, [])
      else rbind (if getLastLogIndex ?s > ?idx
         then rbind (getSlicesIndexFromLogIndex ?idx ?s) (\<lambda>k. Inr (drop (nat (k + 1)) (m_logs ?s)))
         else Inr []) (\<lambda>logs.
        let s3 = ?s\<lparr>m_logs := logs, m_commitIndex := max (m_commitIndex ?s) ?idx,
                      m_lastApplied := max (m_lastApplied ?s) ?idx, m_lastSnapshotIncludeIndex := ?idx,
                      m_lastSnapshotIncludeTerm := isr_lastsnapshotincludeterm args\<rparr> in
        Inr (saved c (isr_data args) s3, m_currentTerm s3, [PushMsgToKvServer (snapshotMsg args)])))"
    unfolding InstallSnapshot_def adopt_snapshot_def [symmetric] Let_def saved_def snapshotMsg_def ..
  show ?thesis
  proof (cases "isr_term args < m_currentTerm s \<or> ?idx \<le> snapIndex s")
    case True
    then show ?thesis unfolding eq by auto
  next
    case False
    then have lt: "\<not> ?idx \<le> snapIndex ?s" "snapIndex s < ?idx" by simp_all
    with False show ?thesis unfolding eq logs [OF lt(2)] by (simp add: cut_def Let_def)
  qed
qed

lemma InstallSnapshot_wf_evolves:
  assumes wf: "raft_wf s" and ret: "InstallSnapshot c clk args s = Inr (s', r, ts)"
  shows "raft_wf s' \<and> evolves s s'"
proof -
  let ?s = "adopt_snapshot c (isr_term args) clk s"
  have a: "raft_wf ?s" "evolves s ?s" using adopt_snapshot_wf_evolves [OF wf] by auto
  have "raft_wf (cut i t ?s) \<and> evolves s (cut i t ?s)" if "snapIndex s < i" for i t
    using cut_wf_evolves [OF a(1), of i t] a(2) that evolves_trans by auto
  with ret a wf show ?thesis by (auto simp: InstallSnapshot_spec split: if_splits)
qed

interpretation install_snapshot: replica_op
  "\<lambda>s s'. \<exists>c clk args r ts. InstallSnapshot c clk args s = Inr (s', r, ts)"
  by unfold_locales (use InstallSnapshot_wf_evolves in blast)+


lemma leaderSendSnapShot_args_wf_evolves:
  assumes "raft_wf s" and "leaderSendSnapShot_args s = (s', args)"
  shows "raft_wf s' \<and> evolves s s'"
  using assms by (auto simp: leaderSendSnapShot_args_def raft_wf_def evolves_def advances_def split: prod.splits)

interpretation send_snapshot_args: replica_op "\<lambda>s s'. \<exists>args. leaderSendSnapShot_args s = (s', args)"
  by unfold_locales (use leaderSendSnapShot_args_wf_evolves in blast)+

lemma leaderSendSnapShot_reply_cases:
  assumes "leaderSendSnapShot_reply c clk ok server args trm s = Inr s'"
  obtains (same) "s' = s"
  | (down) "trm > m_currentTerm s" "s' = (persist c (s\<lparr>m_currentTerm := trm, m_votedFor := -1, m_status := Follower\<rparr>))
        \<lparr>m_lastResetElectionTime := clk\<rparr>"
  | (installed) "m_status s = Leader" "m_currentTerm s = isr_term args" "server < length (m_nextIndex s)"
      "server < length (m_matchIndex s)"
      "s' = s\<lparr>m_matchIndex := (m_matchIndex s)[server := isr_lastsnapshotincludeindex args],
              m_nextIndex := (m_nextIndex s)[server := isr_lastsnapshotincludeindex args + 1]\<rparr>"
proof -
  consider "\<not> ok \<or> m_status s \<noteq> Leader \<or> m_currentTerm s \<noteq> isr_term args"
    | "ok" "m_status s = Leader" "m_currentTerm s = isr_term args" "trm > m_currentTerm s"
    | "ok" "m_status s = Leader" "m_currentTerm s = isr_term args" "\<not> trm > m_currentTerm s" by blast
  then show thesis
  proof cases
    case 1
    with assms show thesis by (intro same) (auto simp: leaderSendSnapShot_reply_def split: if_splits)
  next
    case 2
    with assms show thesis by (intro down) (auto simp: leaderSendSnapShot_reply_def)
  next
    case 3
    with assms show thesis by (intro installed) (auto simp: leaderSendSnapShot_reply_def rbind_eq_Inr vset_eq_Inr)
  qed
qed

lemma leaderSendSnapShot_reply_wf_evolves:
  assumes wf: "raft_wf s" and ret: "leaderSendSnapShot_reply c clk ok server args trm s = Inr s'"
  shows "raft_wf s' \<and> evolves s s'"
  using ret
  by (cases rule: leaderSendSnapShot_reply_cases)
     (use wf in \<open>simp_all add: raft_wf_def evolves_def advances_def\<close>)

interpretation send_snapshot_reply: replica_op
  "\<lambda>s s'. \<exists>c clk ok server args trm. leaderSendSnapShot_reply c clk ok server args trm s = Inr s'"
  by unfold_locales (use leaderSendSnapShot_reply_wf_evolves in blast)+

section \<open>Persisted state\<close>

text \<open>Reading back what \<open>persistData\<close> wrote restores exactly the five persistent fields.\<close>

lemma readPersist_persistData:
  assumes "codec_ok c"
  shows "readPersist c (persistData c s) s0 =
     Inr (s0\<lparr>m_currentTerm := m_currentTerm s, m_votedFor := m_votedFor s,
             m_lastSnapshotIncludeIndex := snapIndex s,
             m_lastSnapshotIncludeTerm := m_lastSnapshotIncludeTerm s, m_logs := m_logs s\<rparr>)"
proof -
  from assms have "map (parseLogEntry c) (map (SerializeAsString c) es) = es" for es
    by (simp add: codec_ok_def parseLogEntry_def map_idI)
  with assms show ?thesis by (simp add: readPersist_def persistData_def codec_ok_def)
qed

section \<open>Heartbeats\<close>

text \<open>What the leader sends to a peer whose \<open>nextIndex\<close> is inside its log.\<close>

definition appendArgsFor :: "raft \<Rightarrow> int \<Rightarrow> appendEntriesArgs" where
  "appendArgsFor s prev =
     \<lparr>aea_term = m_currentTerm s, aea_leaderid = m_me s, aea_prevlogindex = prev,
      aea_prevlogterm = the (term_at s prev), aea_entries = drop (nat (prev - snapIndex s)) (m_logs s),
      aea_leadercommit = m_commitIndex s\<rparr>"

lemma heartBeat_entries:
  assumes "snapIndex s \<le> prev" "prev \<le> getLastLogIndex s"
  shows "(if prev \<noteq> snapIndex s
      then rbind (getSlicesIndexFromLogIndex prev s) (\<lambda>k. Inr (drop (nat (k + 1)) (m_logs s)))
      else Inr (m_logs s)) = Inr (drop (nat (prev - snapIndex s)) (m_logs s))"
proof (cases "prev = snapIndex s")
  case False
  with assms have "getSlicesIndexFromLogIndex prev s = Inr (prev - snapIndex s - 1)"
    by (simp add: getSlices_eq_Inr)
  with False show ?thesis by simp
qed simp

lemma getPrevLogInfo_spec:
  assumes lw: "log_wf s" and i: "i < length (m_nextIndex s)"
    and t: "term_at s (m_nextIndex s ! i - 1) = Some t"
  shows "getPrevLogInfo i s = Inr (m_nextIndex s ! i - 1, t)"
proof (cases "m_nextIndex s ! i - 1 = snapIndex s")
  case True
  with t have "m_nextIndex s ! i = snapIndex s + 1" "t = m_lastSnapshotIncludeTerm s"
    by (simp_all add: term_at_def)
  with i show ?thesis by (simp add: getPrevLogInfo_def)
next
  case False
  with t obtain e where "entry_at s (m_nextIndex s ! i - 1) = Some e" "logterm e = t"
    by (auto simp: term_at_def)
  with i False show ?thesis
    using logAt_wf [OF lw, of "m_nextIndex s ! i - 1" e] by (simp add: getPrevLogInfo_def)
qed

lemma heartBeatTo_spec:
  assumes lw: "log_wf s" and i: "i < length (m_nextIndex s)"
    and lo: "1 \<le> m_nextIndex s ! i" and hi: "m_nextIndex s ! i \<le> getLastLogIndex s + 1"
  shows "heartBeatTo s i =
     Inr (if m_nextIndex s ! i \<le> snapIndex s then LeaderSendSnapShot i
          else SendAppendEntries i (appendArgsFor s (m_nextIndex s ! i - 1)))"
proof (cases "m_nextIndex s ! i \<le> snapIndex s")
  case True
  with i lo show ?thesis by (simp add: heartBeatTo_def)
next
  case False
  define prev where "prev = m_nextIndex s ! i - 1"
  have b: "snapIndex s \<le> prev" "prev \<le> getLastLogIndex s" using False hi by (simp_all add: prev_def)
  then obtain t where t: "term_at s prev = Some t" using term_at_Some_iff [OF lw] by blast
  have pr: "getPrevLogInfo i s = Inr (prev, t)"
    using getPrevLogInfo_spec [OF lw i] t by (simp add: prev_def)
  have len: "prev + int (length (drop (nat (prev - snapIndex s)) (m_logs s))) = getLastLogIndex s"
    using b getLastLogIndex_wf [OF lw] by (simp add: of_nat_diff nat_le_iff)
  have "heartBeatTo s i = rbind (if prev \<noteq> snapIndex s
      then rbind (getSlicesIndexFromLogIndex prev s) (\<lambda>k. Inr (drop (nat (k + 1)) (m_logs s)))
      else Inr (m_logs s)) (\<lambda>entries.
       rbind (myAssert (prev + int (length entries) = getLastLogIndex s)
               ''PrevLogIndex + len(Entries) != lastLogIndex'') (\<lambda>_.
       Inr (SendAppendEntries i ((appendArgsFor s prev)\<lparr>aea_entries := entries\<rparr>))))"
    using i lo False pr t by (simp add: heartBeatTo_def appendArgsFor_def split del: if_split)
  with False show ?thesis unfolding heartBeat_entries [OF b] by (simp add: len [simplified] appendArgsFor_def flip: prev_def)
qed

text \<open>Every such message is a well-formed slice of the sender's log.\<close>

lemma appendArgsFor_slice:
  assumes lw: "log_wf s" and b: "snapIndex s \<le> prev" "prev \<le> getLastLogIndex s"
  shows "numbered logindex prev (aea_entries (appendArgsFor s prev))"
    and "prev + int (length (aea_entries (appendArgsFor s prev))) = getLastLogIndex s"
    and "term_at s prev = Some (aea_prevlogterm (appendArgsFor s prev))"
    and "set (aea_entries (appendArgsFor s prev)) \<subseteq> set (m_logs s)"
proof -
  let ?n = "nat (prev - snapIndex s)"
  have n: "?n \<le> length (m_logs s)" using b getLastLogIndex_wf [OF lw] by simp
  with numbered_drop [OF _ n, of logindex "snapIndex s"] lw b(1)
  show "numbered logindex prev (aea_entries (appendArgsFor s prev))"
    by (simp add: appendArgsFor_def log_wf_def)
  show "prev + int (length (aea_entries (appendArgsFor s prev))) = getLastLogIndex s"
    using b getLastLogIndex_wf [OF lw] by (simp add: appendArgsFor_def of_nat_diff nat_le_iff)
  show "term_at s prev = Some (aea_prevlogterm (appendArgsFor s prev))"
    using b term_at_Some_iff [OF lw, of prev] by (auto simp: appendArgsFor_def)
  show "set (aea_entries (appendArgsFor s prev)) \<subseteq> set (m_logs s)"
    by (simp add: appendArgsFor_def set_drop_subset)
qed

definition heartBeatMsg :: "raft \<Rightarrow> nat \<Rightarrow> spawn" where
  "heartBeatMsg s i = (if m_nextIndex s ! i \<le> snapIndex s then LeaderSendSnapShot i
     else SendAppendEntries i (appendArgsFor s (m_nextIndex s ! i - 1)))"

lemma heartBeatLoop_spec:
  assumes "log_wf s" and "\<forall>i \<in> set is. i < length (m_nextIndex s) \<and> 1 \<le> m_nextIndex s ! i \<and>
     m_nextIndex s ! i \<le> getLastLogIndex s + 1"
  shows "heartBeatLoop s is = Inr (map (heartBeatMsg s) is)"
  using assms(2) by (induction "is") (simp_all add: heartBeatTo_spec [OF assms(1)] heartBeatMsg_def)

definition next_ok :: "raft \<Rightarrow> bool" where
  "next_ok s \<longleftrightarrow> (\<forall>i < m_peers s. 1 \<le> m_nextIndex s ! i \<and> m_nextIndex s ! i \<le> getLastLogIndex s + 1)"

lemma doHeartBeat_ok:
  assumes wf: "raft_wf s" and nx: "next_ok s" and ld: "m_status s = Leader"
  shows "doHeartBeat clk s =
     Inr (s\<lparr>m_lastResetHearBeatTime := clk\<rparr>, Some 1, map (heartBeatMsg s) (otherPeers s))"
proof -
  have "\<forall>i \<in> set (otherPeers s). i < length (m_nextIndex s) \<and> 1 \<le> m_nextIndex s ! i \<and>
     m_nextIndex s ! i \<le> getLastLogIndex s + 1"
    using wf nx by (auto simp: otherPeers_def raft_wf_def next_ok_def)
  with wf ld show ?thesis
    using heartBeatLoop_spec [of s "otherPeers s"] by (simp add: doHeartBeat_def raft_wf_def)
qed

lemma heartBeatTo_ret:
  assumes lw: "log_wf s" and ret: "heartBeatTo s i = Inr sp"
  shows "sp = heartBeatMsg s i \<and> 1 \<le> m_nextIndex s ! i \<and>
     (m_nextIndex s ! i \<le> snapIndex s \<or> m_nextIndex s ! i \<le> getLastLogIndex s + 1)"
proof -
  from ret have i: "i < length (m_nextIndex s)" and lo: "1 \<le> m_nextIndex s ! i"
    by (auto simp: heartBeatTo_def rbind_eq_Inr vget_eq_Inr)
  show ?thesis
  proof (cases "m_nextIndex s ! i \<le> snapIndex s")
    case True
    with ret i lo show ?thesis by (simp add: heartBeatTo_def heartBeatMsg_def)
  next
    case False
    with ret i lo obtain r where r: "getPrevLogInfo i s = Inr r"
      by (auto simp: heartBeatTo_def rbind_eq_Inr vget_eq_Inr)
    have hi: "m_nextIndex s ! i \<le> getLastLogIndex s + 1"
    proof (cases "m_nextIndex s ! i = snapIndex s + 1")
      case True
      with getLastLogIndex_ge [OF lw] show ?thesis by simp
    next
      case False
      with r i obtain e where "logAt (m_nextIndex s ! i - 1) s = Inr e"
        by (auto simp: getPrevLogInfo_def rbind_eq_Inr)
      then show ?thesis using entry_at_Some_iff [OF lw, of "m_nextIndex s ! i - 1"]
        by (auto simp: logAt_wf [OF lw])
    qed
    with ret lo heartBeatTo_spec [OF lw i lo hi] show ?thesis by (simp add: heartBeatMsg_def)
  qed
qed

lemma heartBeatLoop_ret:
  assumes lw: "log_wf s" and ret: "heartBeatLoop s is = Inr ts"
  shows "ts = map (heartBeatMsg s) is \<and> (\<forall>i \<in> set is. 1 \<le> m_nextIndex s ! i \<and>
     (m_nextIndex s ! i \<le> snapIndex s \<or> m_nextIndex s ! i \<le> getLastLogIndex s + 1))"
  using ret
  by (induction "is" arbitrary: ts) (auto simp: rbind_eq_Inr dest: heartBeatTo_ret [OF lw])

lemma doHeartBeat_cases:
  assumes wf: "raft_wf s" and ret: "doHeartBeat clk s = Inr (s', cnt, ts)"
  obtains (idle) "m_status s \<noteq> Leader" "s' = s" "cnt = None" "ts = []"
  | (beat) "m_status s = Leader" "s' = s\<lparr>m_lastResetHearBeatTime := clk\<rparr>" "cnt = Some 1"
      "ts = map (heartBeatMsg s) (otherPeers s)"
      "\<forall>i \<in> set (otherPeers s). 1 \<le> m_nextIndex s ! i \<and>
         (m_nextIndex s ! i \<le> snapIndex s \<or> m_nextIndex s ! i \<le> getLastLogIndex s + 1)"
proof (cases "m_status s = Leader")
  case True
  with ret obtain ts' where "heartBeatLoop s (otherPeers s) = Inr ts'"
      "s' = s\<lparr>m_lastResetHearBeatTime := clk\<rparr>" "cnt = Some 1" "ts = ts'"
    by (auto simp: doHeartBeat_def rbind_eq_Inr)
  moreover have "log_wf s" using wf by (simp add: raft_wf_def)
  ultimately show thesis using True heartBeatLoop_ret by (intro beat) auto
next
  case False
  with ret show thesis by (intro idle) (auto simp: doHeartBeat_def)
qed

lemma leaderHearBeatTicker_cases:
  assumes "leaderHearBeatTicker wake clk s = Inr r"
  shows "r = (s, None, []) \<or> doHeartBeat clk s = Inr r"
  using assms by (auto simp: leaderHearBeatTicker_def split: if_splits)

lemma electionTimeOutTicker_cases:
  assumes "electionTimeOutTicker c wake clk s = (s', cnt, ts)"
  obtains (idle) "s' = s" "cnt = None" "ts = []"
  | (campaign) "m_status s \<noteq> Leader" "cnt = Some 1" "m_currentTerm s' = m_currentTerm s + 1"
      "m_votedFor s' = m_me s" "m_status s' = Candidate" "m_logs s' = m_logs s" "snapIndex s' = snapIndex s"
      "m_lastSnapshotIncludeTerm s' = m_lastSnapshotIncludeTerm s" "m_me s' = m_me s" "m_peers s' = m_peers s"
      "ts = map (\<lambda>i. SendRequestVote i (requestVoteArgsOf s')) (otherPeers s)"
proof (cases "m_status s = Leader \<or> m_lastResetElectionTime s - wake > 0")
  case True
  with assms show thesis by (intro idle) (auto simp: electionTimeOutTicker_def split: if_splits)
next
  case False
  with assms show thesis
    by (intro campaign) (auto simp: electionTimeOutTicker_def doElection_def Let_def otherPeers_def)
qed

lemma electionTimeOutTicker_wf_evolves:
  assumes "raft_wf s" and "electionTimeOutTicker c wake clk s = (s', cnt, ts)"
  shows "raft_wf s' \<and> evolves s s'"
  using assms doElection_wf_evolves [OF assms(1)]
  by (auto simp: electionTimeOutTicker_def split: if_splits)

lemma set_otherPeers: "m_me s = int i \<Longrightarrow> j \<in> set (otherPeers s) \<longleftrightarrow> j < m_peers s \<and> j \<noteq> i"
  by (auto simp: otherPeers_def)

lemma distinct_otherPeers [simp]: "distinct (otherPeers s)"
  by (simp add: otherPeers_def)

end
