(* ===== verification/Quorum.thy ===== *)
theory Quorum
  imports Main
begin

text \<open>
  Why a majority elects at most one candidate.

  The locale \<open>quorums\<close> is the interface between the vote count of \<open>Raft::sendRequestVote\<close> and the
  election argument: a family of sets any two of which meet. Its instance \<open>majority\<close> are the sets
  of at least \<open>n / 2 + 1\<close> of the replicas \<open>0 \<dots> n - 1\<close>, the bound the code compares its counter with.
\<close>

locale quorums =
  fixes is_quorum :: "'a set \<Rightarrow> bool"
  assumes meet: "is_quorum A \<Longrightarrow> is_quorum B \<Longrightarrow> A \<inter> B \<noteq> {}"
begin

text \<open>If no voter votes for two candidates, no two candidates have a quorum of votes.\<close>

lemma same_candidate:
  assumes "is_quorum A" and "is_quorum B"
    and "\<And>v. v \<in> A \<Longrightarrow> votes v a" and "\<And>v. v \<in> B \<Longrightarrow> votes v b"
    and "\<And>v x y. votes v x \<Longrightarrow> votes v y \<Longrightarrow> x = y"
  shows "a = b"
  using assms meet [of A B] by blast

end

definition majority :: "nat \<Rightarrow> nat set \<Rightarrow> bool" where
  "majority n A \<longleftrightarrow> A \<subseteq> {0..<n} \<and> n div 2 + 1 \<le> card A"

lemma majority_meet:
  assumes "majority n A" and "majority n B"
  shows "A \<inter> B \<noteq> {}"
proof
  assume disj: "A \<inter> B = {}"
  have fin: "finite A" "finite B"
    using assms finite_subset [OF _ finite_atLeastLessThan] by (auto simp: majority_def)
  have "card A + card B = card (A \<union> B)" using fin disj by (simp add: card_Un_disjoint)
  also have "\<dots> \<le> card {0..<n}" using assms by (intro card_mono) (auto simp: majority_def)
  finally have "card A + card B \<le> n" by simp
  with assms show False unfolding majority_def by linarith
qed

interpretation majorities: quorums "majority n" for n
  by unfold_locales (rule majority_meet)

text \<open>After a majority of \<open>n\<close> replicas has been counted, fewer than a majority are left to answer.\<close>

lemma rest_below_majority:
  assumes "A \<subseteq> {0..<n}" and "B \<subseteq> {0..<n}" and "A \<inter> B = {}" and "n div 2 + 1 \<le> card A"
  shows "card B < n div 2 + 1"
proof (rule ccontr)
  assume "\<not> card B < n div 2 + 1"
  with assms have "majority n A" "majority n B" by (simp_all add: majority_def)
  with assms(3) majority_meet show False by blast
qed

end
