(* ===== verification/Cluster.thy ===== *)
theory Cluster
  imports RaftOps Quorum
begin

text \<open>
  The replicas of one Raft group, the detached threads between them and the network.

  A cluster state holds the replicas, the counters that \<open>make_shared<int>\<close> allocates
  (\<open>votedNum\<close> of an election, \<open>appendNums\<close> of a heartbeat round) and the threads that
  \<open>std::thread(...).detach()\<close> started and that have not finished. \<open>exec\<close> performs one event: a timer
  of a replica, a client command, one round of the applier, a snapshot requested by the service,
  the execution of a request at its receiver, the loss of a call, or the locked section of a thread
  that resumes. Requests may be executed late, in any order, repeatedly or never, and an answer may be
  lost or come back as an empty message. An event on a thread or replica that does not exist changes
  nothing; an event whose C++ code ends the process is \<open>Inl\<close>. Restarting a process is not an event of
  this theory.

  \<open>run c n clk tr\<close> holds of the lists of cluster states, latest first, that such events produce from the
  freshly initialised group of \<open>n\<close> replicas.
\<close>

section \<open>State and events\<close>

datatype call =
    VoteCall requestVoteArgs "requestVoteReply option"
  | AppendCall appendEntriesArgs "appendEntriesReply option"
  | SnapBegin
  | SnapCall installSnapshotRequest "int option"
  | HeartBeat
  | PushMsg applyMsg

record thread =
  th_src :: nat
  th_dst :: nat
  th_cell :: nat
  th_call :: call

record cluster =
  nodes :: "raft list"
  cells :: "int list"
  threads :: "thread list"

datatype event =
    ElectionTimeout nat int int
  | HeartBeatTimeout nat int int
  | Propose nat op
  | Apply nat
  | TakeSnapshot nat int string
  | Deliver nat int
  | EmptyReply nat
  | Fail nat int
  | Resume nat int

fun thread_of :: "nat \<Rightarrow> nat \<Rightarrow> spawn \<Rightarrow> thread" where
  "thread_of i a (SendRequestVote d args) = \<lparr>th_src = i, th_dst = d, th_cell = a, th_call = VoteCall args None\<rparr>"
| "thread_of i a (SendAppendEntries d args) = \<lparr>th_src = i, th_dst = d, th_cell = a, th_call = AppendCall args None\<rparr>"
| "thread_of i a (LeaderSendSnapShot d) = \<lparr>th_src = i, th_dst = d, th_cell = a, th_call = SnapBegin\<rparr>"
| "thread_of i a DoHeartBeat = \<lparr>th_src = i, th_dst = i, th_cell = a, th_call = HeartBeat\<rparr>"
| "thread_of i a (PushMsgToKvServer msg) = \<lparr>th_src = i, th_dst = i, th_cell = a, th_call = PushMsg msg\<rparr>"

text \<open>A replica's step that may allocate a counter and start threads.\<close>

definition fork :: "nat \<Rightarrow> raft \<Rightarrow> int option \<Rightarrow> spawn list \<Rightarrow> cluster \<Rightarrow> cluster" where
  "fork i s cnt ts \<sigma> = \<sigma>\<lparr>nodes := (nodes \<sigma>)[i := s],
     cells := cells \<sigma> @ (case cnt of None \<Rightarrow> [] | Some v \<Rightarrow> [v]),
     threads := threads \<sigma> @ map (thread_of i (length (cells \<sigma>))) ts\<rparr>"

definition set_call :: "nat \<Rightarrow> call \<Rightarrow> cluster \<Rightarrow> cluster" where
  "set_call k x \<sigma> = \<sigma>\<lparr>threads := (threads \<sigma>)[k := (threads \<sigma> ! k)\<lparr>th_call := x\<rparr>]\<rparr>"

definition end_thread :: "nat \<Rightarrow> cluster \<Rightarrow> cluster" where
  "end_thread k \<sigma> = \<sigma>\<lparr>threads := take k (threads \<sigma>) @ drop (Suc k) (threads \<sigma>)\<rparr>"

text \<open>The receiver executes the request of a thread: the three RPC methods of \<open>Raft\<close>.\<close>

definition deliver :: "codec \<Rightarrow> nat \<Rightarrow> int \<Rightarrow> cluster \<Rightarrow> cluster result" where
  "deliver c k clk \<sigma> =
     (let d = th_dst (threads \<sigma> ! k); s = nodes \<sigma> ! d in
      case th_call (threads \<sigma> ! k) of
        VoteCall args _ \<Rightarrow> rbind (RequestVote c clk args s) (\<lambda>(s', reply).
          Inr (set_call k (VoteCall args (Some reply)) (fork d s' None [] \<sigma>)))
      | AppendCall args _ \<Rightarrow> rbind (AppendEntries1 c clk args s) (\<lambda>(s', reply).
          Inr (set_call k (AppendCall args (Some reply)) (fork d s' None [] \<sigma>)))
      | SnapCall args _ \<Rightarrow> rbind (InstallSnapshot c clk args s) (\<lambda>(s', reply, ts).
          Inr (set_call k (SnapCall args (Some reply)) (fork d s' None ts \<sigma>)))
      | _ \<Rightarrow> Inr \<sigma>)"

text \<open>A connection that closes before the answer arrives leaves the empty message in the reply.\<close>

definition empty_reply :: "nat \<Rightarrow> cluster \<Rightarrow> cluster" where
  "empty_reply k \<sigma> =
     (case th_call (threads \<sigma> ! k) of
        VoteCall args _ \<Rightarrow> set_call k (VoteCall args (Some RequestVoteReply0)) \<sigma>
      | AppendCall args _ \<Rightarrow> set_call k (AppendCall args (Some AppendEntriesReply0)) \<sigma>
      | SnapCall args _ \<Rightarrow> set_call k (SnapCall args (Some 0)) \<sigma>
      | _ \<Rightarrow> \<sigma>)"

text \<open>The part of a thread's function after its remote call, or all of it when there is none.
  \<open>got\<close> tells whether an answer is used when there is one.\<close>

definition finish :: "codec \<Rightarrow> nat \<Rightarrow> int \<Rightarrow> bool \<Rightarrow> cluster \<Rightarrow> cluster result" where
  "finish c k clk got \<sigma> =
     (let t = threads \<sigma> ! k; i = th_src t; s = nodes \<sigma> ! i; a = th_cell t; \<sigma>' = end_thread k \<sigma> in
      case th_call t of
        VoteCall args r \<Rightarrow>
          (let (ok, reply) = (case r of Some reply \<Rightarrow> (got, reply) | None \<Rightarrow> (False, RequestVoteReply0)) in
           rbind (sendRequestVote c ok reply (cells \<sigma> ! a) s) (\<lambda>(s', v, ts).
           Inr (fork i s' None ts (\<sigma>'\<lparr>cells := (cells \<sigma>)[a := v]\<rparr>))))
      | AppendCall args r \<Rightarrow>
          (let (ok, reply) = (case r of Some reply \<Rightarrow> (got, reply) | None \<Rightarrow> (False, AppendEntriesReply0)) in
           rbind (sendAppendEntries ok (th_dst t) args reply (cells \<sigma> ! a) s) (\<lambda>(s', v).
           Inr (fork i s' None [] (\<sigma>'\<lparr>cells := (cells \<sigma>)[a := v]\<rparr>))))
      | SnapBegin \<Rightarrow>
          (let (s', args) = leaderSendSnapShot_args s in
           Inr (set_call k (SnapCall args None) (fork i s' None [] \<sigma>)))
      | SnapCall args r \<Rightarrow>
          (let (ok, reply) = (case r of Some reply \<Rightarrow> (got, reply) | None \<Rightarrow> (False, 0)) in
           rbind (leaderSendSnapShot_reply c clk ok (th_dst t) args reply s) (\<lambda>s'.
           Inr (fork i s' None [] \<sigma>')))
      | HeartBeat \<Rightarrow> rbind (doHeartBeat clk s) (\<lambda>(s', cnt, ts). Inr (fork i s' cnt ts \<sigma>'))
      | PushMsg msg \<Rightarrow> Inr (fork i (pushMsgToKvServer msg s) None [] \<sigma>'))"

definition at_node :: "nat \<Rightarrow> cluster \<Rightarrow> cluster result \<Rightarrow> cluster result" where
  "at_node i \<sigma> r = (if i < length (nodes \<sigma>) then r else Inr \<sigma>)"

definition at_thread :: "nat \<Rightarrow> cluster \<Rightarrow> cluster result \<Rightarrow> cluster result" where
  "at_thread k \<sigma> r = (if k < length (threads \<sigma>) then r else Inr \<sigma>)"

fun exec :: "codec \<Rightarrow> event \<Rightarrow> cluster \<Rightarrow> cluster result" where
  "exec c (ElectionTimeout i wake clk) \<sigma> = at_node i \<sigma>
     (case electionTimeOutTicker c wake clk (nodes \<sigma> ! i) of (s', cnt, ts) \<Rightarrow> Inr (fork i s' cnt ts \<sigma>))"
| "exec c (HeartBeatTimeout i wake clk) \<sigma> = at_node i \<sigma>
     (rbind (leaderHearBeatTicker wake clk (nodes \<sigma> ! i)) (\<lambda>(s', cnt, ts). Inr (fork i s' cnt ts \<sigma>)))"
| "exec c (Propose i cmd) \<sigma> = at_node i \<sigma>
     (case Start c cmd (nodes \<sigma> ! i) of (s', _) \<Rightarrow> Inr (fork i s' None [] \<sigma>))"
| "exec c (Apply i) \<sigma> = at_node i \<sigma>
     (rbind (applierTicker (nodes \<sigma> ! i)) (\<lambda>s'. Inr (fork i s' None [] \<sigma>)))"
| "exec c (TakeSnapshot i index data) \<sigma> = at_node i \<sigma>
     (rbind (Snapshot c index data (nodes \<sigma> ! i)) (\<lambda>s'. Inr (fork i s' None [] \<sigma>)))"
| "exec c (Deliver k clk) \<sigma> = at_thread k \<sigma> (deliver c k clk \<sigma>)"
| "exec c (EmptyReply k) \<sigma> = at_thread k \<sigma> (Inr (empty_reply k \<sigma>))"
| "exec c (Fail k clk) \<sigma> = at_thread k \<sigma> (finish c k clk False \<sigma>)"
| "exec c (Resume k clk) \<sigma> = at_thread k \<sigma> (finish c k clk True \<sigma>)"

fun exec_all :: "codec \<Rightarrow> event list \<Rightarrow> cluster \<Rightarrow> cluster result" where
  "exec_all c [] \<sigma> = Inr \<sigma>"
| "exec_all c (e # es) \<sigma> = rbind (exec c e \<sigma>) (exec_all c es)"

text \<open>A group of \<open>n\<close> replicas on empty files, each after its \<open>init\<close>.\<close>

definition newFiles :: persister where
  "newFiles = \<lparr>m_raftStateFile = \<lparr>disk = [], pending = []\<rparr>, m_snapshotFile = \<lparr>disk = [], pending = []\<rparr>,
     m_raftStateSize = 0\<rparr>"

definition newRaft :: "int \<Rightarrow> nat \<Rightarrow> int \<Rightarrow> raft" where
  "newRaft clk n me =
     \<lparr>m_peers = n, m_persister = newFiles, m_me = me, m_currentTerm = 0, m_votedFor = -1,
      m_logs = [], m_commitIndex = 0, m_lastApplied = 0,
      m_nextIndex = replicate n 0, m_matchIndex = replicate n 0, m_status = Follower,
      applyChan = [], m_lastResetElectionTime = clk, m_lastResetHearBeatTime = clk,
      m_lastSnapshotIncludeIndex = 0, m_lastSnapshotIncludeTerm = 0\<rparr>"

lemma init_newRaft: "init c clk n me (Persister p) = Inr (newRaft clk n me)"
  by (simp add: init_def readPersist_def newRaft_def newFiles_def persister_defs)

definition boot :: "int \<Rightarrow> nat \<Rightarrow> cluster" where
  "boot clk n = \<lparr>nodes = map (\<lambda>i. newRaft clk n (int i)) [0..<n], cells = [], threads = []\<rparr>"

inductive run :: "codec \<Rightarrow> nat \<Rightarrow> int \<Rightarrow> cluster list \<Rightarrow> bool" for c n clk where
  run_boot: "run c n clk [boot clk n]"
| run_exec: "run c n clk (\<sigma> # tr) \<Longrightarrow> exec c e \<sigma> = Inr \<sigma>' \<Longrightarrow> run c n clk (\<sigma>' # \<sigma> # tr)"

inductive_cases run_NilE: "run c n clk []"

section \<open>Shape of the state\<close>

text \<open>
  \<open>well_formed n \<sigma>\<close>: there are \<open>n\<close> well-formed replicas that know their own number, threads run between
  them, every vote and append thread has a counter and no counter serves both kinds.
\<close>

definition is_vote :: "thread \<Rightarrow> bool" where
  "is_vote t \<longleftrightarrow> (case th_call t of VoteCall _ _ \<Rightarrow> True | _ \<Rightarrow> False)"

definition is_append :: "thread \<Rightarrow> bool" where
  "is_append t \<longleftrightarrow> (case th_call t of AppendCall _ _ \<Rightarrow> True | _ \<Rightarrow> False)"

definition node_ok :: "nat \<Rightarrow> nat \<Rightarrow> raft \<Rightarrow> bool" where
  "node_ok n i s \<longleftrightarrow> raft_wf s \<and> m_me s = int i \<and> m_peers s = n"

definition thread_ok :: "nat \<Rightarrow> nat \<Rightarrow> thread \<Rightarrow> bool" where
  "thread_ok n m t \<longleftrightarrow> th_src t < n \<and> th_dst t < n \<and>
     (case th_call t of
        VoteCall args _ \<Rightarrow> th_src t \<noteq> th_dst t \<and> th_cell t < m
      | AppendCall args _ \<Rightarrow> th_src t \<noteq> th_dst t \<and> th_cell t < m \<and>
          numbered logindex (aea_prevlogindex args) (aea_entries args)
      | _ \<Rightarrow> True)"

definition well_formed :: "nat \<Rightarrow> cluster \<Rightarrow> bool" where
  "well_formed n \<sigma> \<longleftrightarrow> length (nodes \<sigma>) = n \<and> (\<forall>i < n. node_ok n i (nodes \<sigma> ! i)) \<and>
     (\<forall>t \<in> set (threads \<sigma>). thread_ok n (length (cells \<sigma>)) t) \<and>
     (\<forall>t \<in> set (threads \<sigma>). \<forall>u \<in> set (threads \<sigma>). is_vote t \<longrightarrow> is_append u \<longrightarrow> th_cell t \<noteq> th_cell u)"

lemma wfD:
  assumes "well_formed n \<sigma>"
  shows "length (nodes \<sigma>) = n" and "i < n \<Longrightarrow> raft_wf (nodes \<sigma> ! i)"
    and "i < n \<Longrightarrow> m_me (nodes \<sigma> ! i) = int i" and "i < n \<Longrightarrow> m_peers (nodes \<sigma> ! i) = n"
    and "t \<in> set (threads \<sigma>) \<Longrightarrow> thread_ok n (length (cells \<sigma>)) t"
    and "t \<in> set (threads \<sigma>) \<Longrightarrow> th_src t < n" and "t \<in> set (threads \<sigma>) \<Longrightarrow> th_dst t < n"
  using assms by (auto simp: well_formed_def node_ok_def thread_ok_def)

lemma node_ok_evolves: "node_ok n i s \<Longrightarrow> raft_wf s' \<Longrightarrow> evolves s s' \<Longrightarrow> node_ok n i s'"
  by (simp add: node_ok_def evolves_def)

text \<open>The threads a replica may start.\<close>

definition spawn_ok :: "nat \<Rightarrow> nat \<Rightarrow> int option \<Rightarrow> spawn \<Rightarrow> bool" where
  "spawn_ok n i cnt sp \<longleftrightarrow>
     (case sp of
        SendRequestVote d args \<Rightarrow> d < n \<and> d \<noteq> i \<and> cnt \<noteq> None
      | SendAppendEntries d args \<Rightarrow> d < n \<and> d \<noteq> i \<and> cnt \<noteq> None \<and>
          numbered logindex (aea_prevlogindex args) (aea_entries args)
      | LeaderSendSnapShot d \<Rightarrow> d < n
      | _ \<Rightarrow> True)"

definition spawns_ok :: "nat \<Rightarrow> nat \<Rightarrow> int option \<Rightarrow> spawn list \<Rightarrow> bool" where
  "spawns_ok n i cnt ts \<longleftrightarrow> (\<forall>sp \<in> set ts. spawn_ok n i cnt sp) \<and>
     \<not> (\<exists>d args d' args'. SendRequestVote d args \<in> set ts \<and> SendAppendEntries d' args' \<in> set ts)"

lemma spawns_ok_Nil [simp]: "spawns_ok n i cnt []"
  by (simp add: spawns_ok_def)

lemma fork_fields [simp]:
  "nodes (fork i s cnt ts \<sigma>) = (nodes \<sigma>)[i := s]"
  "cells (fork i s cnt ts \<sigma>) = cells \<sigma> @ (case cnt of None \<Rightarrow> [] | Some v \<Rightarrow> [v])"
  "threads (fork i s cnt ts \<sigma>) = threads \<sigma> @ map (thread_of i (length (cells \<sigma>))) ts"
  by (simp_all add: fork_def)

lemma set_call_fields [simp]:
  "nodes (set_call k x \<sigma>) = nodes \<sigma>" "cells (set_call k x \<sigma>) = cells \<sigma>"
  "threads (set_call k x \<sigma>) = (threads \<sigma>)[k := (threads \<sigma> ! k)\<lparr>th_call := x\<rparr>]"
  by (simp_all add: set_call_def)

lemma end_thread_fields [simp]:
  "nodes (end_thread k \<sigma>) = nodes \<sigma>" "cells (end_thread k \<sigma>) = cells \<sigma>"
  "threads (end_thread k \<sigma>) = take k (threads \<sigma>) @ drop (Suc k) (threads \<sigma>)"
  by (simp_all add: end_thread_def)

lemma is_vote_thread_of: "is_vote (thread_of i a sp) \<longleftrightarrow> (\<exists>d args. sp = SendRequestVote d args)"
  by (cases sp) (simp_all add: is_vote_def)

lemma is_append_thread_of: "is_append (thread_of i a sp) \<longleftrightarrow> (\<exists>d args. sp = SendAppendEntries d args)"
  by (cases sp) (simp_all add: is_append_def)

lemma thread_of_fields [simp]: "th_src (thread_of i a sp) = i" "th_cell (thread_of i a sp) = a"
  by (cases sp; simp)+

lemma thread_ok_mono: "thread_ok n m t \<Longrightarrow> m \<le> m' \<Longrightarrow> thread_ok n m' t"
  by (auto simp: thread_ok_def split: call.splits)

lemma thread_ok_of: "i < n \<Longrightarrow> spawn_ok n i cnt sp \<Longrightarrow>
    thread_ok n (m + length (case cnt of None \<Rightarrow> [] | Some v \<Rightarrow> [v])) (thread_of i m sp)"
  by (cases sp) (auto simp: thread_ok_def spawn_ok_def)

lemma well_formed_fork:
  assumes wf: "well_formed n \<sigma>" and i: "i < n" and s: "node_ok n i s" and ts: "spawns_ok n i cnt ts"
  shows "well_formed n (fork i s cnt ts \<sigma>)"
  unfolding well_formed_def
proof (intro conjI ballI allI impI)
  let ?m = "length (cells \<sigma>)"
  note w = wf [unfolded well_formed_def]
  show "length (nodes (fork i s cnt ts \<sigma>)) = n" using w by simp
  show "node_ok n j (nodes (fork i s cnt ts \<sigma>) ! j)" if "j < n" for j
    using w s i that by (auto simp: nth_list_update)
  have old: "th_cell t < ?m" if "t \<in> set (threads \<sigma>)" "is_vote t \<or> is_append t" for t
    using w that by (auto simp: thread_ok_def is_vote_def is_append_def split: call.splits)
  show "thread_ok n (length (cells (fork i s cnt ts \<sigma>))) t" if "t \<in> set (threads (fork i s cnt ts \<sigma>))" for t
    using that w ts i by (auto simp: spawns_ok_def intro: thread_ok_mono thread_ok_of)
  show "th_cell t \<noteq> th_cell u"
    if "t \<in> set (threads (fork i s cnt ts \<sigma>))" "u \<in> set (threads (fork i s cnt ts \<sigma>))" "is_vote t" "is_append u" for t u
    using that w ts old [of t] old [of u] by (auto simp: spawns_ok_def is_vote_thread_of is_append_thread_of)
qed

lemma well_formed_set_call:
  assumes wf: "well_formed n \<sigma>" and k: "k < length (threads \<sigma>)"
    and "\<And>args r. x = VoteCall args r \<Longrightarrow> \<exists>r'. th_call (threads \<sigma> ! k) = VoteCall args r'"
    and "\<And>args r. x = AppendCall args r \<Longrightarrow> \<exists>r'. th_call (threads \<sigma> ! k) = AppendCall args r'"
  shows "well_formed n (set_call k x \<sigma>)"
proof -
  let ?t = "threads \<sigma> ! k" and ?u = "(threads \<sigma> ! k)\<lparr>th_call := x\<rparr>"
  note w = wf [unfolded well_formed_def]
  have t: "?t \<in> set (threads \<sigma>)" using k by simp
  have u: "thread_ok n (length (cells \<sigma>)) ?u" "is_vote ?u \<Longrightarrow> is_vote ?t" "is_append ?u \<Longrightarrow> is_append ?t"
    using w t assms(3,4) by (auto simp: thread_ok_def is_vote_def is_append_def split: call.splits) (metis call.distinct call.inject)+
  have sub: "set ((threads \<sigma>)[k := ?u]) \<subseteq> insert ?u (set (threads \<sigma>))" by (rule set_update_subset_insert)
  show ?thesis
    unfolding well_formed_def
  proof (intro conjI ballI impI)
    fix v w' assume "v \<in> set (threads (set_call k x \<sigma>))" "w' \<in> set (threads (set_call k x \<sigma>))"
      and "is_vote v" "is_append w'"
    moreover from this sub have "v = ?u \<or> v \<in> set (threads \<sigma>)" "w' = ?u \<or> w' \<in> set (threads \<sigma>)" by auto
    moreover have "\<not> (is_vote ?u \<and> is_append ?u)" by (auto simp: is_vote_def is_append_def split: call.splits)
    moreover have "th_cell ?u = th_cell ?t" by simp
    ultimately show "th_cell v \<noteq> th_cell w'" using w t u(2,3) by metis
  qed (use w sub u(1) in auto)
qed

lemma well_formed_sub:
  assumes "well_formed n \<sigma>" and "nodes \<sigma>' = nodes \<sigma>" and "length (cells \<sigma>') = length (cells \<sigma>)"
    and "set (threads \<sigma>') \<subseteq> set (threads \<sigma>)"
  shows "well_formed n \<sigma>'"
  using assms unfolding well_formed_def by (metis subsetD)

lemma set_end_thread: "set (take k ts @ drop (Suc k) ts) \<subseteq> set ts"
  by (auto dest: in_set_takeD in_set_dropD)


section \<open>One event\<close>

text \<open>Spelling out the three thread events.\<close>

lemma deliver_cases:
  assumes wf: "well_formed n \<sigma>" and k: "k < length (threads \<sigma>)" and ret: "deliver c k clk \<sigma> = Inr \<sigma>'"
  obtains (vote) args r s' reply where "th_call (threads \<sigma> ! k) = VoteCall args r"
      "RequestVote c clk args (nodes \<sigma> ! th_dst (threads \<sigma> ! k)) = Inr (s', reply)"
      "\<sigma>' = set_call k (VoteCall args (Some reply)) (fork (th_dst (threads \<sigma> ! k)) s' None [] \<sigma>)"
  | (append) args r s' reply where "th_call (threads \<sigma> ! k) = AppendCall args r"
      "AppendEntries1 c clk args (nodes \<sigma> ! th_dst (threads \<sigma> ! k)) = Inr (s', reply)"
      "\<sigma>' = set_call k (AppendCall args (Some reply)) (fork (th_dst (threads \<sigma> ! k)) s' None [] \<sigma>)"
  | (snap) args r s' reply ts where "th_call (threads \<sigma> ! k) = SnapCall args r"
      "InstallSnapshot c clk args (nodes \<sigma> ! th_dst (threads \<sigma> ! k)) = Inr (s', reply, ts)"
      "\<sigma>' = set_call k (SnapCall args (Some reply)) (fork (th_dst (threads \<sigma> ! k)) s' None ts \<sigma>)"
  | (none) "\<sigma>' = \<sigma>"
proof (cases "th_call (threads \<sigma> ! k)")
  case (VoteCall args r)
  with ret show thesis by (auto simp: deliver_def Let_def rbind_eq_Inr intro: vote)
next
  case (AppendCall args r)
  with ret show thesis by (auto simp: deliver_def Let_def rbind_eq_Inr intro: append)
next
  case (SnapCall args r)
  with ret show thesis by (auto simp: deliver_def Let_def rbind_eq_Inr intro: snap)
qed (use ret none in \<open>simp_all add: deliver_def Let_def\<close>)

definition answer :: "bool \<Rightarrow> 'a \<Rightarrow> 'a option \<Rightarrow> bool \<times> 'a" where
  "answer got dflt r = (case r of Some reply \<Rightarrow> (got, reply) | None \<Rightarrow> (False, dflt))"

lemma answer_Some: "answer got dflt r = (True, reply) \<longleftrightarrow> got \<and> r = Some reply"
  by (auto simp: answer_def split: option.splits)

lemma finish_cases:
  assumes ret: "finish c k clk got \<sigma> = Inr \<sigma>'"
  defines "t \<equiv> threads \<sigma> ! k"
  obtains (vote) args r ok reply s' v ts where "th_call t = VoteCall args r"
      "answer got RequestVoteReply0 r = (ok, reply)"
      "sendRequestVote c ok reply (cells \<sigma> ! th_cell t) (nodes \<sigma> ! th_src t) = Inr (s', v, ts)"
      "\<sigma>' = fork (th_src t) s' None ts ((end_thread k \<sigma>)\<lparr>cells := (cells \<sigma>)[th_cell t := v]\<rparr>)"
  | (append) args r ok reply s' v where "th_call t = AppendCall args r"
      "answer got AppendEntriesReply0 r = (ok, reply)"
      "sendAppendEntries ok (th_dst t) args reply (cells \<sigma> ! th_cell t) (nodes \<sigma> ! th_src t) = Inr (s', v)"
      "\<sigma>' = fork (th_src t) s' None [] ((end_thread k \<sigma>)\<lparr>cells := (cells \<sigma>)[th_cell t := v]\<rparr>)"
  | (snap_begin) s' args where "th_call t = SnapBegin"
      "leaderSendSnapShot_args (nodes \<sigma> ! th_src t) = (s', args)"
      "\<sigma>' = set_call k (SnapCall args None) (fork (th_src t) s' None [] \<sigma>)"
  | (snap) args r ok reply s' where "th_call t = SnapCall args r" "answer got 0 r = (ok, reply)"
      "leaderSendSnapShot_reply c clk ok (th_dst t) args reply (nodes \<sigma> ! th_src t) = Inr s'"
      "\<sigma>' = fork (th_src t) s' None [] (end_thread k \<sigma>)"
  | (beat) s' cnt ts where "th_call t = HeartBeat" "doHeartBeat clk (nodes \<sigma> ! th_src t) = Inr (s', cnt, ts)"
      "\<sigma>' = fork (th_src t) s' cnt ts (end_thread k \<sigma>)"
  | (push) msg where "th_call t = PushMsg msg"
      "\<sigma>' = fork (th_src t) (pushMsgToKvServer msg (nodes \<sigma> ! th_src t)) None [] (end_thread k \<sigma>)"
proof (cases "th_call t")
  case (VoteCall args r)
  obtain ok reply where "answer got RequestVoteReply0 r = (ok, reply)" by fastforce
  with VoteCall ret show thesis
    by (auto simp: finish_def Let_def t_def rbind_eq_Inr answer_def [symmetric] intro!: vote)
next
  case (AppendCall args r)
  obtain ok reply where "answer got AppendEntriesReply0 r = (ok, reply)" by fastforce
  with AppendCall ret show thesis
    by (auto simp: finish_def Let_def t_def rbind_eq_Inr answer_def [symmetric] intro!: append)
next
  case SnapBegin
  obtain s' args where "leaderSendSnapShot_args (nodes \<sigma> ! th_src t) = (s', args)" by fastforce
  with SnapBegin ret show thesis by (auto simp: finish_def Let_def t_def intro!: snap_begin)
next
  case (SnapCall args r)
  obtain ok reply where "answer got 0 r = (ok, reply)" by fastforce
  with SnapCall ret show thesis
    by (auto simp: finish_def Let_def t_def rbind_eq_Inr answer_def [symmetric] intro!: snap)
next
  case HeartBeat
  with ret show thesis by (auto simp: finish_def Let_def t_def rbind_eq_Inr intro!: beat)
next
  case (PushMsg msg)
  with ret show thesis by (auto simp: finish_def Let_def t_def intro!: push)
qed


lemma at_node_cases:
  "at_node i \<sigma> r = Inr \<sigma>' \<Longrightarrow> \<sigma>' = \<sigma> \<or> i < length (nodes \<sigma>) \<and> r = Inr \<sigma>'"
  by (auto simp: at_node_def split: if_splits)

lemma at_thread_cases:
  "at_thread k \<sigma> r = Inr \<sigma>' \<Longrightarrow> \<sigma>' = \<sigma> \<or> k < length (threads \<sigma>) \<and> r = Inr \<sigma>'"
  by (auto simp: at_thread_def split: if_splits)

text \<open>Every event is one of these steps.\<close>

lemma exec_cases:
  assumes "exec c e \<sigma> = Inr \<sigma>'"
  obtains (idle) "\<sigma>' = \<sigma>"
  | (timeout) i wake clk s' cnt ts where "i < length (nodes \<sigma>)"
      "electionTimeOutTicker c wake clk (nodes \<sigma> ! i) = (s', cnt, ts)" "\<sigma>' = fork i s' cnt ts \<sigma>"
  | (beat) i clk s' cnt ts where "i < length (nodes \<sigma>)" "doHeartBeat clk (nodes \<sigma> ! i) = Inr (s', cnt, ts)"
      "\<sigma>' = fork i s' cnt ts \<sigma>"
  | (start) i cmd s' r where "i < length (nodes \<sigma>)" "Start c cmd (nodes \<sigma> ! i) = (s', r)"
      "\<sigma>' = fork i s' None [] \<sigma>"
  | (applied) i s' where "i < length (nodes \<sigma>)" "applierTicker (nodes \<sigma> ! i) = Inr s'" "\<sigma>' = fork i s' None [] \<sigma>"
  | (compact) i index data s' where "i < length (nodes \<sigma>)" "Snapshot c index data (nodes \<sigma> ! i) = Inr s'"
      "\<sigma>' = fork i s' None [] \<sigma>"
  | (deliver) k clk where "k < length (threads \<sigma>)" "deliver c k clk \<sigma> = Inr \<sigma>'"
  | (empty) k where "k < length (threads \<sigma>)" "\<sigma>' = empty_reply k \<sigma>"
  | (finish) k clk got where "k < length (threads \<sigma>)" "finish c k clk got \<sigma> = Inr \<sigma>'"
proof (cases e)
  case (ElectionTimeout i wake clk)
  obtain s' cnt ts where r: "electionTimeOutTicker c wake clk (nodes \<sigma> ! i) = (s', cnt, ts)"
    by (metis prod_cases3)
  with assms ElectionTimeout have "\<sigma>' = \<sigma> \<or> i < length (nodes \<sigma>) \<and> \<sigma>' = fork i s' cnt ts \<sigma>"
    by (auto dest!: at_node_cases)
  with idle timeout r show thesis by blast
next
  case (HeartBeatTimeout i wake clk)
  with assms have "\<sigma>' = \<sigma> \<or> i < length (nodes \<sigma>) \<and>
      rbind (leaderHearBeatTicker wake clk (nodes \<sigma> ! i)) (\<lambda>(s', cnt, ts). Inr (fork i s' cnt ts \<sigma>)) = Inr \<sigma>'"
    by (auto dest!: at_node_cases)
  moreover have "fork i (nodes \<sigma> ! i) None [] \<sigma> = \<sigma>" if "i < length (nodes \<sigma>)"
    using that by (cases \<sigma>) (simp add: fork_def)
  ultimately show thesis
    by (auto simp: rbind_eq_Inr dest!: leaderHearBeatTicker_cases intro: idle beat)
next
  case (Propose i cmd)
  obtain s' r where r: "Start c cmd (nodes \<sigma> ! i) = (s', r)" by (metis surj_pair)
  with assms Propose have "\<sigma>' = \<sigma> \<or> i < length (nodes \<sigma>) \<and> \<sigma>' = fork i s' None [] \<sigma>"
    by (auto dest!: at_node_cases)
  with idle start r show thesis by blast
next
  case (Apply i)
  with assms have "\<sigma>' = \<sigma> \<or> i < length (nodes \<sigma>) \<and>
      (\<exists>s'. applierTicker (nodes \<sigma> ! i) = Inr s' \<and> \<sigma>' = fork i s' None [] \<sigma>)"
    by (auto dest!: at_node_cases simp: rbind_eq_Inr)
  with idle applied show thesis by blast
next
  case (TakeSnapshot i index data)
  with assms have "\<sigma>' = \<sigma> \<or> i < length (nodes \<sigma>) \<and>
      (\<exists>s'. Snapshot c index data (nodes \<sigma> ! i) = Inr s' \<and> \<sigma>' = fork i s' None [] \<sigma>)"
    by (auto dest!: at_node_cases simp: rbind_eq_Inr)
  with idle compact show thesis by blast
next
  case (Deliver k clk)
  with assms have "\<sigma>' = \<sigma> \<or> k < length (threads \<sigma>) \<and> deliver c k clk \<sigma> = Inr \<sigma>'" by (auto dest!: at_thread_cases)
  with idle deliver show thesis by blast
next
  case (EmptyReply k)
  with assms have "\<sigma>' = \<sigma> \<or> k < length (threads \<sigma>) \<and> \<sigma>' = empty_reply k \<sigma>" by (auto dest!: at_thread_cases)
  with idle empty show thesis by blast
next
  case (Fail k clk)
  with assms have "\<sigma>' = \<sigma> \<or> k < length (threads \<sigma>) \<and> finish c k clk False \<sigma> = Inr \<sigma>'"
    by (auto dest!: at_thread_cases)
  with idle finish show thesis by blast
next
  case (Resume k clk)
  with assms have "\<sigma>' = \<sigma> \<or> k < length (threads \<sigma>) \<and> finish c k clk True \<sigma> = Inr \<sigma>'"
    by (auto dest!: at_thread_cases)
  with idle finish show thesis by blast
qed

lemma heartBeat_spawns_ok:
  assumes wf: "raft_wf s" and me: "m_me s = int i" "m_peers s = n"
    and ret: "doHeartBeat clk s = Inr (s', cnt, ts)"
  shows "spawns_ok n i cnt ts"
  using wf ret
proof (cases rule: doHeartBeat_cases)
  case beat
  from wf have lw: "log_wf s" by (simp add: raft_wf_def)
  have "spawn_ok n i cnt (heartBeatMsg s j)" if j: "j \<in> set (otherPeers s)" for j
  proof (cases "m_nextIndex s ! j \<le> snapIndex s")
    case False
    with beat(5) j have "snapIndex s \<le> m_nextIndex s ! j - 1" "m_nextIndex s ! j - 1 \<le> getLastLogIndex s" by auto
    from appendArgsFor_slice(1) [OF lw this] False j me beat(3) show ?thesis
      by (simp add: heartBeatMsg_def spawn_ok_def set_otherPeers) (simp add: appendArgsFor_def)
  qed (use j me in \<open>simp add: heartBeatMsg_def spawn_ok_def set_otherPeers\<close>)
  moreover have "SendRequestVote d args \<noteq> heartBeatMsg s j" for d args j by (simp add: heartBeatMsg_def)
  ultimately show ?thesis using beat(4) by (auto simp: spawns_ok_def)
qed simp

lemma campaign_spawns_ok:
  assumes me: "m_me s = int i" "m_peers s = n" and ret: "electionTimeOutTicker c wake clk s = (s', cnt, ts)"
  shows "spawns_ok n i cnt ts"
  using ret
  by (cases rule: electionTimeOutTicker_cases) (use me in \<open>auto simp: spawns_ok_def spawn_ok_def set_otherPeers\<close>)

lemma well_formed_deliver:
  assumes wf: "well_formed n \<sigma>" and k: "k < length (threads \<sigma>)" and ret: "deliver c k clk \<sigma> = Inr \<sigma>'"
  shows "well_formed n \<sigma>'"
proof -
  let ?t = "threads \<sigma> ! k" let ?d = "th_dst ?t"
  have t: "?t \<in> set (threads \<sigma>)" using k by simp
  note d = wfD(7) [OF wf t] and ok = wfD(5) [OF wf t]
  have node: "node_ok n ?d (nodes \<sigma> ! ?d)" and rwf: "raft_wf (nodes \<sigma> ! ?d)"
    using wf d by (simp_all add: well_formed_def node_ok_def)
  from wf k ret show ?thesis
  proof (cases rule: deliver_cases)
    case (vote args r s' reply)
    then have "node_ok n ?d s'" using RequestVote_wf_evolves [OF rwf] node node_ok_evolves by blast
    with wf d k vote show ?thesis by (auto intro!: well_formed_set_call well_formed_fork)
  next
    case (append args r s' reply)
    with ok have "numbered logindex (aea_prevlogindex args) (aea_entries args)" by (simp add: thread_ok_def)
    with append have "node_ok n ?d s'" using AppendEntries1_wf_evolves [OF rwf] node node_ok_evolves by blast
    with wf d k append show ?thesis by (auto intro!: well_formed_set_call well_formed_fork)
  next
    case (snap args r s' reply ts)
    then have "node_ok n ?d s'" using InstallSnapshot_wf_evolves [OF rwf] node node_ok_evolves by blast
    moreover have "spawns_ok n ?d None ts"
      using snap(2) by (auto simp: InstallSnapshot_spec [OF rwf] spawns_ok_def spawn_ok_def split: if_splits)
    ultimately show ?thesis using wf d k snap by (auto intro!: well_formed_set_call well_formed_fork)
  qed (use wf in simp)
qed

lemma empty_reply_cases:
  obtains (vote) args r where "th_call (threads \<sigma> ! k) = VoteCall args r"
      "empty_reply k \<sigma> = set_call k (VoteCall args (Some RequestVoteReply0)) \<sigma>"
  | (append) args r where "th_call (threads \<sigma> ! k) = AppendCall args r"
      "empty_reply k \<sigma> = set_call k (AppendCall args (Some AppendEntriesReply0)) \<sigma>"
  | (snap) args r where "th_call (threads \<sigma> ! k) = SnapCall args r"
      "empty_reply k \<sigma> = set_call k (SnapCall args (Some 0)) \<sigma>"
  | (none) "empty_reply k \<sigma> = \<sigma>"
  by (cases "th_call (threads \<sigma> ! k)") (simp_all add: empty_reply_def)

lemma well_formed_empty:
  assumes "well_formed n \<sigma>" and "k < length (threads \<sigma>)"
  shows "well_formed n (empty_reply k \<sigma>)"
  by (cases rule: empty_reply_cases [of \<sigma> k])
     (use assms in \<open>auto intro!: well_formed_set_call\<close>)

lemma well_formed_finish:
  assumes wf: "well_formed n \<sigma>" and k: "k < length (threads \<sigma>)" and ret: "finish c k clk got \<sigma> = Inr \<sigma>'"
  shows "well_formed n \<sigma>'"
proof -
  let ?t = "threads \<sigma> ! k" let ?i = "th_src ?t"
  have t: "?t \<in> set (threads \<sigma>)" using k by simp
  note i = wfD(6) [OF wf t]
  have node: "node_ok n ?i (nodes \<sigma> ! ?i)" and rwf: "raft_wf (nodes \<sigma> ! ?i)"
    and me: "m_me (nodes \<sigma> ! ?i) = int ?i" "m_peers (nodes \<sigma> ! ?i) = n"
    using wf i by (simp_all add: well_formed_def node_ok_def)
  have ended: "well_formed n (end_thread k \<sigma>)" "well_formed n ((end_thread k \<sigma>)\<lparr>cells := (cells \<sigma>)[a := v]\<rparr>)" for a v
    by (rule well_formed_sub [OF wf]; simp add: set_end_thread [of k "threads \<sigma>", simplified])+
  from ret show ?thesis
  proof (cases rule: finish_cases)
    case (vote args r ok reply s' v ts)
    then have "node_ok n ?i s'" using sendRequestVote_wf_evolves [OF rwf vote(3)] node node_ok_evolves
      by (auto simp: node_ok_def evolves_def)
    moreover have "spawns_ok n ?i None ts"
      using rwf vote(3) by (cases rule: sendRequestVote_cases) (auto simp: spawns_ok_def spawn_ok_def)
    ultimately show ?thesis using vote(4) ended(2) i by (auto intro!: well_formed_fork)
  next
    case (append args r ok reply s' v)
    then have "node_ok n ?i s'" using sendAppendEntries_wf_evolves [OF rwf] node node_ok_evolves by blast
    then show ?thesis using append(4) ended(2) i by (auto intro!: well_formed_fork)
  next
    case (snap_begin s' args)
    then have "node_ok n ?i s'" using leaderSendSnapShot_args_wf_evolves [OF rwf] node node_ok_evolves by blast
    then show ?thesis using snap_begin wf i k by (auto intro!: well_formed_set_call well_formed_fork)
  next
    case (snap args r ok reply s')
    then have "node_ok n ?i s'" using leaderSendSnapShot_reply_wf_evolves [OF rwf] node node_ok_evolves by blast
    then show ?thesis using snap(4) ended(1) i by (auto intro!: well_formed_fork)
  next
    case (beat s' cnt ts)
    then have "node_ok n ?i s'" using doHeartBeat_wf_evolves [OF rwf] node node_ok_evolves by blast
    then show ?thesis using beat(3) ended(1) i heartBeat_spawns_ok [OF rwf me beat(2)] by (auto intro!: well_formed_fork)
  next
    case (push msg)
    have "node_ok n ?i (pushMsgToKvServer msg (nodes \<sigma> ! ?i))"
      using pushMsgToKvServer_wf_evolves [OF rwf] node node_ok_evolves by blast
    then show ?thesis using push(2) ended(1) i by (auto intro!: well_formed_fork)
  qed
qed

lemma well_formed_exec:
  assumes wf: "well_formed n \<sigma>" and ret: "exec c e \<sigma> = Inr \<sigma>'"
  shows "well_formed n \<sigma>'"
proof -
  have len: "length (nodes \<sigma>) = n" using wf by (simp add: well_formed_def)
  have node: "node_ok n i (nodes \<sigma> ! i)" "raft_wf (nodes \<sigma> ! i)" if "i < n" for i
    using wf that by (simp_all add: well_formed_def node_ok_def)
  note me = wfD(3,4) [OF wf]
  from ret show ?thesis
  proof (cases rule: exec_cases)
    case (timeout i wake clk s' cnt ts)
    then have "node_ok n i s'" using electionTimeOutTicker_wf_evolves node node_ok_evolves len by blast
    moreover have "spawns_ok n i cnt ts" using timeout(1,2) len me campaign_spawns_ok by metis
    ultimately show ?thesis using timeout len wf by (auto intro!: well_formed_fork)
  next
    case (beat i clk s' cnt ts)
    then have "node_ok n i s'" using doHeartBeat_wf_evolves node node_ok_evolves len by blast
    moreover have "spawns_ok n i cnt ts" using beat(1,2) len me node(2) heartBeat_spawns_ok by metis
    ultimately show ?thesis using beat len wf by (auto intro!: well_formed_fork)
  next
    case (start i cmd s' r)
    then have "node_ok n i s'" using Start_wf_evolves node node_ok_evolves len by blast
    with start len wf show ?thesis by (auto intro!: well_formed_fork)
  next
    case (applied i s')
    then have "node_ok n i s'" using applierTicker_wf_evolves node node_ok_evolves len by blast
    with applied len wf show ?thesis by (auto intro!: well_formed_fork)
  next
    case (compact i index data s')
    then have "node_ok n i s'" using Snapshot_wf_evolves node node_ok_evolves len by blast
    with compact len wf show ?thesis by (auto intro!: well_formed_fork)
  next
    case (deliver k clk)
    then show ?thesis using well_formed_deliver [OF wf] by blast
  next
    case (empty k)
    then show ?thesis using well_formed_empty [OF wf] by blast
  next
    case (finish k clk got)
    then show ?thesis using well_formed_finish [OF wf] by blast
  qed (use wf in simp)
qed

lemma well_formed_boot: "well_formed n (boot clk n)"
  by (auto simp: well_formed_def boot_def node_ok_def newRaft_def raft_wf_def log_wf_def lastlog_defs)

lemma run_well_formed: "run c n clk tr \<Longrightarrow> \<sigma> \<in> set tr \<Longrightarrow> well_formed n \<sigma>"
  by (induction arbitrary: \<sigma> rule: run.induct) (auto intro: well_formed_boot well_formed_exec)

end
