(* ===== verification/Election.thy ===== *)
theory Election
  imports Cluster
begin

text \<open>
  Election safety of the replica group: over a whole run at most one replica is leader in a term, no
  replica wins the same term twice, and the assertion on winning twice in \<open>sendRequestVote\<close> never fires.

  The argument follows the counter \<open>votedNum\<close>: until its election is won it is the number of replicas
  whose vote for the candidate has been counted, and none of these is still being waited for; after
  the election is won, it can no longer reach a majority.
\<close>

section \<open>The vote threads\<close>

abbreviation vote_threads :: "cluster \<Rightarrow> thread list" where
  "vote_threads \<sigma> \<equiv> filter is_vote (threads \<sigma>)"

lemma filter_at:
  assumes "k < length ts" and "P (ts ! k)"
  obtains xs ys where "filter P ts = xs @ ts ! k # ys" "\<And>y. P y \<Longrightarrow> filter P (ts[k := y]) = xs @ y # ys"
    "filter P (take k ts @ drop (Suc k) ts) = xs @ ys"
proof
  let ?xs = "filter P (take k ts)" and ?ys = "filter P (drop (Suc k) ts)"
  show "filter P ts = ?xs @ ts ! k # ?ys"
    using assms by (subst id_take_nth_drop [OF assms(1)]) simp
  show "filter P (ts[k := y]) = ?xs @ y # ?ys" if "P y" for y
    using that assms(1) by (simp add: upd_conv_take_nth_drop)
  show "filter P (take k ts @ drop (Suc k) ts) = ?xs @ ?ys" by simp
qed

lemma filter_not_at:
  assumes "k < length ts" and "\<not> P (ts ! k)"
  shows "\<not> P y \<Longrightarrow> filter P (ts[k := y]) = filter P ts"
    and "filter P (take k ts @ drop (Suc k) ts) = filter P ts"
proof -
  have "filter P ts = filter P (take k ts) @ filter P (drop (Suc k) ts)"
    using assms by (subst id_take_nth_drop [OF assms(1)]) simp
  then show "\<not> P y \<Longrightarrow> filter P (ts[k := y]) = filter P ts"
    and "filter P (take k ts @ drop (Suc k) ts) = filter P ts"
    using assms(1) by (simp_all add: upd_conv_take_nth_drop)
qed

text \<open>What an event does to the votes: nothing, start an election, execute or answer a request, or
  count an answer.\<close>

definition calm :: "cluster \<Rightarrow> cluster \<Rightarrow> bool" where
  "calm \<sigma> \<sigma>' \<longleftrightarrow> length (nodes \<sigma>') = length (nodes \<sigma>) \<and>
     (\<forall>j < length (nodes \<sigma>). evolves (nodes \<sigma> ! j) (nodes \<sigma>' ! j)) \<and>
     vote_threads \<sigma>' = vote_threads \<sigma> \<and> (\<forall>t \<in> set (vote_threads \<sigma>). cells \<sigma>' ! th_cell t = cells \<sigma> ! th_cell t)"

lemma calm_fork:
  assumes wf: "well_formed n \<sigma>" and "i < length (nodes \<sigma>)" and ev: "evolves (nodes \<sigma> ! i) s'"
    and ts: "\<forall>d args. SendRequestVote d args \<notin> set ts"
  shows "calm \<sigma> (fork i s' cnt ts \<sigma>)"
proof -
  have "filter is_vote (map (thread_of i a) ts) = []" for a
    using ts by (auto simp: filter_empty_conv is_vote_thread_of)
  moreover have "th_cell t < length (cells \<sigma>)" if "t \<in> set (vote_threads \<sigma>)" for t
    using that wfD(5) [OF wf, of t] by (auto simp: thread_ok_def is_vote_def split: call.splits)
  moreover have "evolves (nodes \<sigma> ! j) ((nodes \<sigma>)[i := s'] ! j)" for j
    using ev assms(2) by (cases "j = i") simp_all
  ultimately show ?thesis by (auto simp: calm_def nth_append)
qed

lemma calm_trans: "calm \<sigma> \<sigma>1 \<Longrightarrow> calm \<sigma>1 \<sigma>2 \<Longrightarrow> calm \<sigma> \<sigma>2"
  unfolding calm_def by (auto intro: evolves_trans)

lemma calm_set_call:
  assumes "k < length (threads \<sigma>)" and "\<not> is_vote (threads \<sigma> ! k)" and "\<nexists>args r. x = VoteCall args r"
  shows "calm \<sigma> (set_call k x \<sigma>)"
proof -
  have "\<not> is_vote ((threads \<sigma> ! k)\<lparr>th_call := x\<rparr>)"
    using assms(3) by (auto simp: is_vote_def split: call.splits)
  with filter_not_at(1) [of k "threads \<sigma>" is_vote] assms(1,2) show ?thesis by (simp add: calm_def)
qed

lemma calm_end:
  assumes wf: "well_formed n \<sigma>" and k: "k < length (threads \<sigma>)" and nv: "\<not> is_vote (threads \<sigma> ! k)"
  shows "calm \<sigma> (end_thread k \<sigma>)"
    and "is_append (threads \<sigma> ! k) \<Longrightarrow> calm \<sigma> ((end_thread k \<sigma>)\<lparr>cells := (cells \<sigma>)[th_cell (threads \<sigma> ! k) := v]\<rparr>)"
proof -
  have f: "filter is_vote (take k (threads \<sigma>) @ drop (Suc k) (threads \<sigma>)) = vote_threads \<sigma>"
    using filter_not_at(2) [of k "threads \<sigma>" is_vote] k nv by simp
  then show "calm \<sigma> (end_thread k \<sigma>)" by (simp add: calm_def)
  assume ap: "is_append (threads \<sigma> ! k)"
  have "(cells \<sigma>)[th_cell (threads \<sigma> ! k) := v] ! th_cell t = cells \<sigma> ! th_cell t"
    if "t \<in> set (vote_threads \<sigma>)" for t
  proof -
    have "th_cell t \<noteq> th_cell (threads \<sigma> ! k)" using that wf ap k by (auto simp: well_formed_def)
    then show ?thesis by simp
  qed
  with f show "calm \<sigma> ((end_thread k \<sigma>)\<lparr>cells := (cells \<sigma>)[th_cell (threads \<sigma> ! k) := v]\<rparr>)"
    by (auto simp: calm_def)
qed

definition vote_call_of :: "raft \<Rightarrow> nat \<Rightarrow> nat \<Rightarrow> nat \<Rightarrow> thread" where
  "vote_call_of s i a d = \<lparr>th_src = i, th_dst = d, th_cell = a, th_call = VoteCall (requestVoteArgsOf s) None\<rparr>"


lemma is_voteE: "is_vote t \<Longrightarrow> \<exists>args r. th_call t = VoteCall args r"
  by (auto simp: is_vote_def split: call.splits)

lemma calm_end_fork:
  assumes wf: "well_formed n \<sigma>" and k: "k < length (threads \<sigma>)" and nv: "\<not> is_vote (threads \<sigma> ! k)"
    and i: "i < length (nodes \<sigma>)" and ev: "evolves (nodes \<sigma> ! i) s'"
    and ts: "\<forall>d args. SendRequestVote d args \<notin> set ts"
  shows "calm \<sigma> (fork i s' cnt ts (end_thread k \<sigma>))"
    and "is_append (threads \<sigma> ! k) \<Longrightarrow>
       calm \<sigma> (fork i s' cnt ts ((end_thread k \<sigma>)\<lparr>cells := (cells \<sigma>)[th_cell (threads \<sigma> ! k) := v]\<rparr>))"
proof -
  have w: "well_formed n (end_thread k \<sigma>)" "well_formed n ((end_thread k \<sigma>)\<lparr>cells := (cells \<sigma>)[a := v]\<rparr>)" for a
    by (rule well_formed_sub [OF wf]; simp add: set_end_thread [of k "threads \<sigma>", simplified])+
  show "calm \<sigma> (fork i s' cnt ts (end_thread k \<sigma>))"
    by (rule calm_trans [OF calm_end(1) [OF wf k nv] calm_fork [OF w(1)]]) (use i ev ts in simp_all)
  show "calm \<sigma> (fork i s' cnt ts ((end_thread k \<sigma>)\<lparr>cells := (cells \<sigma>)[th_cell (threads \<sigma> ! k) := v]\<rparr>))"
    if "is_append (threads \<sigma> ! k)"
    by (rule calm_trans [OF calm_end(2) [OF wf k nv that] calm_fork [OF w(2)]]) (use i ev ts in simp_all)
qed

text \<open>The steps of the election protocol, and that every event is one of them.\<close>

inductive vote_step :: "codec \<Rightarrow> nat \<Rightarrow> cluster \<Rightarrow> cluster \<Rightarrow> bool" for c n \<sigma> \<sigma>' where
  calm: "calm \<sigma> \<sigma>' \<Longrightarrow> vote_step c n \<sigma> \<sigma>'"
| campaign: "i < n \<Longrightarrow> evolves (nodes \<sigma> ! i) s' \<Longrightarrow> m_currentTerm s' = m_currentTerm (nodes \<sigma> ! i) + 1 \<Longrightarrow>
    m_votedFor s' = int i \<Longrightarrow> m_status s' = Candidate \<Longrightarrow> m_me s' = int i \<Longrightarrow>
    nodes \<sigma>' = (nodes \<sigma>)[i := s'] \<Longrightarrow> cells \<sigma>' = cells \<sigma> @ [1] \<Longrightarrow>
    vote_threads \<sigma>' = vote_threads \<sigma> @ map (vote_call_of s' i (length (cells \<sigma>))) (otherPeers (nodes \<sigma> ! i)) \<Longrightarrow>
    vote_step c n \<sigma> \<sigma>'"
| asked: "vote_threads \<sigma> = xs @ t # ys \<Longrightarrow> th_call t = VoteCall args r \<Longrightarrow> th_dst t < n \<Longrightarrow>
    RequestVote c clk args (nodes \<sigma> ! th_dst t) = Inr (s', reply) \<Longrightarrow>
    nodes \<sigma>' = (nodes \<sigma>)[th_dst t := s'] \<Longrightarrow> cells \<sigma>' = cells \<sigma> \<Longrightarrow>
    vote_threads \<sigma>' = xs @ t\<lparr>th_call := VoteCall args (Some reply)\<rparr> # ys \<Longrightarrow> vote_step c n \<sigma> \<sigma>'"
| emptied: "vote_threads \<sigma> = xs @ t # ys \<Longrightarrow> th_call t = VoteCall args r \<Longrightarrow> nodes \<sigma>' = nodes \<sigma> \<Longrightarrow>
    cells \<sigma>' = cells \<sigma> \<Longrightarrow>
    vote_threads \<sigma>' = xs @ t\<lparr>th_call := VoteCall args (Some RequestVoteReply0)\<rparr> # ys \<Longrightarrow> vote_step c n \<sigma> \<sigma>'"
| counted: "vote_threads \<sigma> = xs @ t # ys \<Longrightarrow> th_call t = VoteCall args r \<Longrightarrow> th_src t < n \<Longrightarrow>
    (ok \<longrightarrow> r = Some reply) \<Longrightarrow>
    sendRequestVote c ok reply (cells \<sigma> ! th_cell t) (nodes \<sigma> ! th_src t) = Inr (s', v, ts) \<Longrightarrow>
    nodes \<sigma>' = (nodes \<sigma>)[th_src t := s'] \<Longrightarrow> cells \<sigma>' = (cells \<sigma>)[th_cell t := v] \<Longrightarrow>
    vote_threads \<sigma>' = xs @ ys \<Longrightarrow> vote_step c n \<sigma> \<sigma>'"

lemma vote_step_timeout:
  assumes wf: "well_formed n \<sigma>" and i: "i < n"
    and ret: "electionTimeOutTicker c wake clk (nodes \<sigma> ! i) = (s', cnt, ts)"
  shows "vote_step c n \<sigma> (fork i s' cnt ts \<sigma>)"
proof -
  have ev: "evolves (nodes \<sigma> ! i) s'"
    using electionTimeOutTicker_wf_evolves [OF wfD(2) [OF wf i] ret] by simp
  from ret show ?thesis
  proof (cases rule: electionTimeOutTicker_cases)
    case idle
    then show ?thesis using calm_fork [OF wf _ ev, of "[]"] wfD(1) [OF wf] i by (intro vote_step.calm) simp
  next
    case campaign
    have "is_vote (vote_call_of s' i a x)" for a x by (simp add: vote_call_of_def is_vote_def)
    then have "vote_threads (fork i s' cnt ts \<sigma>) =
        vote_threads \<sigma> @ map (vote_call_of s' i (length (cells \<sigma>))) (otherPeers (nodes \<sigma> ! i))"
      by (simp add: campaign(11) vote_call_of_def comp_def is_vote_def)
    then show ?thesis
      by (intro vote_step.campaign [OF i ev]) (use campaign wfD(3) [OF wf i] in simp_all)
  qed
qed

lemma vote_step_deliver:
  assumes wf: "well_formed n \<sigma>" and k: "k < length (threads \<sigma>)" and ret: "deliver c k clk \<sigma> = Inr \<sigma>'"
  shows "vote_step c n \<sigma> \<sigma>'"
proof -
  let ?t = "threads \<sigma> ! k"
  have d: "th_dst ?t < n" using wfD(7) [OF wf nth_mem [OF k]] .
  have d': "th_dst ?t < length (nodes \<sigma>)" using d wfD(1) [OF wf] by simp
  note rwf = wfD(2) [OF wf d]
  from wf k ret show ?thesis
  proof (cases rule: deliver_cases)
    case (vote args r s' reply)
    then have "is_vote ?t" by (simp add: is_vote_def)
    from k this obtain xs ys where sp: "vote_threads \<sigma> = xs @ ?t # ys"
      "\<And>y. is_vote y \<Longrightarrow> filter is_vote ((threads \<sigma>)[k := y]) = xs @ y # ys"
      by (rule filter_at) blast
    show ?thesis
      by (rule asked [OF sp(1) vote(1) d vote(2)]) (use vote(3) sp(2) in \<open>simp_all add: is_vote_def\<close>)
  next
    case (append args r s' reply)
    then have nv: "\<not> is_vote ?t" by (simp add: is_vote_def)
    have "numbered logindex (aea_prevlogindex args) (aea_entries args)"
      using wfD(5) [OF wf nth_mem [OF k]] append(1) by (simp add: thread_ok_def)
    then have "evolves (nodes \<sigma> ! th_dst ?t) s'" using AppendEntries1_wf_evolves [OF rwf] append(2) by blast
    then have "calm \<sigma> (fork (th_dst ?t) s' None [] \<sigma>)" using calm_fork [OF wf d'] by simp
    from calm_trans [OF this calm_set_call] k nv append(3) show ?thesis by (intro calm) simp
  next
    case (snap args r s' reply ts)
    then have nv: "\<not> is_vote ?t" by (simp add: is_vote_def)
    have "evolves (nodes \<sigma> ! th_dst ?t) s'" using InstallSnapshot_wf_evolves [OF rwf snap(2)] by blast
    moreover have "\<forall>d args. SendRequestVote d args \<notin> set ts"
      using snap(2) by (auto simp: InstallSnapshot_spec [OF rwf] split: if_splits)
    ultimately have "calm \<sigma> (fork (th_dst ?t) s' None ts \<sigma>)" using calm_fork [OF wf d'] by simp
    from calm_trans [OF this calm_set_call] k nv snap(3) show ?thesis
      by (intro calm) (simp add: nth_append)
  next
    case none
    then show ?thesis by (intro calm) (simp add: calm_def)
  qed
qed

lemma vote_step_empty:
  assumes k: "k < length (threads \<sigma>)"
  shows "vote_step c n \<sigma> (empty_reply k \<sigma>)"
proof (cases rule: empty_reply_cases [of \<sigma> k])
  case (vote args r)
  then have "is_vote (threads \<sigma> ! k)" by (simp add: is_vote_def)
  from k this obtain xs ys where sp: "vote_threads \<sigma> = xs @ threads \<sigma> ! k # ys"
    "\<And>y. is_vote y \<Longrightarrow> filter is_vote ((threads \<sigma>)[k := y]) = xs @ y # ys"
    by (rule filter_at) blast
  show ?thesis
    by (rule emptied [OF sp(1) vote(1)]) (use vote(2) sp(2) in \<open>simp_all add: is_vote_def\<close>)
next
  case (append args r)
  with k calm_set_call [of k \<sigma>] show ?thesis by (intro calm) (simp add: is_vote_def)
next
  case (snap args r)
  with k calm_set_call [of k \<sigma>] show ?thesis by (intro calm) (simp add: is_vote_def)
next
  case none
  then show ?thesis by (intro calm) (simp add: calm_def)
qed

lemma vote_step_finish:
  assumes wf: "well_formed n \<sigma>" and k: "k < length (threads \<sigma>)" and ret: "finish c k clk got \<sigma> = Inr \<sigma>'"
  shows "vote_step c n \<sigma> \<sigma>'"
proof -
  let ?t = "threads \<sigma> ! k"
  have i: "th_src ?t < n" using wfD(6) [OF wf nth_mem [OF k]] .
  have i': "th_src ?t < length (nodes \<sigma>)" using i wfD(1) [OF wf] by simp
  note rwf = wfD(2) [OF wf i]
  have other: "\<not> is_vote ?t" if "\<nexists>args r. th_call ?t = VoteCall args r" using that is_voteE by blast
  from ret show ?thesis
  proof (cases rule: finish_cases)
    case (vote args r ok reply s' v ts)
    then have "is_vote ?t" by (simp add: is_vote_def)
    from k this obtain xs ys where sp: "vote_threads \<sigma> = xs @ ?t # ys"
      "filter is_vote (take k (threads \<sigma>) @ drop (Suc k) (threads \<sigma>)) = xs @ ys"
      by (rule filter_at) blast
    have "filter is_vote (map (thread_of a b) ts) = []" for a b
      using rwf vote(3) by (cases rule: sendRequestVote_cases) (auto simp: is_vote_def)
    with sp(2) vote(4) have f: "vote_threads \<sigma>' = xs @ ys" by simp
    show ?thesis
      by (rule counted [OF sp(1) vote(1) i _ vote(3)]) (use vote(2,4) f in \<open>auto simp: answer_Some\<close>)
  next
    case (append args r ok reply s' v)
    then have ap: "is_append ?t" by (simp add: is_append_def)
    have ev: "evolves (nodes \<sigma> ! th_src ?t) s'" using sendAppendEntries_wf_evolves [OF rwf append(3)] by blast
    have "\<not> is_vote ?t" using append(1) other by simp
    from calm_end_fork(2) [OF wf k this i' ev _ ap, of "[]"] append(4) show ?thesis by (intro calm) simp
  next
    case (snap_begin s' args)
    have "evolves (nodes \<sigma> ! th_src ?t) s'" using leaderSendSnapShot_args_wf_evolves [OF rwf snap_begin(2)] by blast
    then have "calm \<sigma> (fork (th_src ?t) s' None [] \<sigma>)" using calm_fork [OF wf i'] by simp
    from calm_trans [OF this calm_set_call] k other snap_begin show ?thesis by (intro calm) simp
  next
    case (snap args r ok reply s')
    have ev: "evolves (nodes \<sigma> ! th_src ?t) s'" using leaderSendSnapShot_reply_wf_evolves [OF rwf snap(3)] by blast
    from calm_end_fork(1) [OF wf k _ i' ev, of "[]"] other snap show ?thesis by (intro calm) simp
  next
    case (beat s' cnt ts)
    have ev: "evolves (nodes \<sigma> ! th_src ?t) s'" using doHeartBeat_wf_evolves [OF rwf beat(2)] by blast
    have "\<forall>d args. SendRequestVote d args \<notin> set ts"
      using rwf beat(2) by (cases rule: doHeartBeat_cases) (auto simp: heartBeatMsg_def split: if_splits)
    from calm_end_fork(1) [OF wf k _ i' ev this] other beat show ?thesis by (intro calm) simp
  next
    case (push msg)
    have ev: "evolves (nodes \<sigma> ! th_src ?t) (pushMsgToKvServer msg (nodes \<sigma> ! th_src ?t))"
      using pushMsgToKvServer_wf_evolves [OF rwf] by blast
    from calm_end_fork(1) [OF wf k _ i' ev, of "[]"] other push show ?thesis by (intro calm) simp
  qed
qed

lemma vote_step_exec:
  assumes wf: "well_formed n \<sigma>" and ret: "exec c e \<sigma> = Inr \<sigma>'"
  shows "vote_step c n \<sigma> \<sigma>'"
proof -
  have len: "length (nodes \<sigma>) = n" using wf by (simp add: well_formed_def)
  have local: "vote_step c n \<sigma> (fork i s' None [] \<sigma>)"
    if "i < length (nodes \<sigma>)" "evolves (nodes \<sigma> ! i) s'" for i s'
    using calm_fork [OF wf that, of "[]"] by (intro calm) simp
  note rwf = wfD(2) [OF wf]
  from ret show ?thesis
  proof (cases rule: exec_cases)
    case (timeout i wake clk s' cnt ts)
    then show ?thesis using vote_step_timeout [OF wf] len by simp
  next
    case (beat i clk s' cnt ts)
    with len have i: "i < n" by simp
    have ev: "evolves (nodes \<sigma> ! i) s'" using doHeartBeat_wf_evolves [OF rwf [OF i] beat(2)] by simp
    have "\<forall>d args. SendRequestVote d args \<notin> set ts"
      using rwf [OF i] beat(2) by (cases rule: doHeartBeat_cases) (auto simp: heartBeatMsg_def split: if_splits)
    from calm_fork [OF wf beat(1) ev this] beat(3) show ?thesis by (intro calm) simp
  next
    case (start i cmd s' r)
    then show ?thesis using local Start_wf_evolves rwf len by blast
  next
    case (applied i s')
    then show ?thesis using local applierTicker_wf_evolves rwf len by blast
  next
    case (compact i index data s')
    then show ?thesis using local Snapshot_wf_evolves rwf len by blast
  next
    case (deliver k clk)
    then show ?thesis by (rule vote_step_deliver [OF wf])
  next
    case (empty k)
    then show ?thesis by (simp add: vote_step_empty)
  next
    case (finish k clk got)
    then show ?thesis by (rule vote_step_finish [OF wf])
  qed (simp add: vote_step.calm calm_def)
qed


section \<open>Votes and leaders of a run\<close>

text \<open>\<open>voted tr j T v\<close>: at some point of the run replica \<open>j\<close> was in term \<open>T\<close> with its vote given to \<open>v\<close>;
  \<open>led tr i T\<close>: at some point it was leader of term \<open>T\<close>.\<close>

definition voted :: "cluster list \<Rightarrow> nat \<Rightarrow> int \<Rightarrow> int \<Rightarrow> bool" where
  "voted tr j T v \<longleftrightarrow> v \<noteq> -1 \<and> (\<exists>\<sigma> \<in> set tr. m_currentTerm (nodes \<sigma> ! j) = T \<and> m_votedFor (nodes \<sigma> ! j) = v)"

definition led :: "cluster list \<Rightarrow> nat \<Rightarrow> int \<Rightarrow> bool" where
  "led tr i T \<longleftrightarrow> (\<exists>\<sigma> \<in> set tr. m_currentTerm (nodes \<sigma> ! i) = T \<and> m_status (nodes \<sigma> ! i) = Leader)"

lemma voted_Cons: "voted (\<sigma> # tr) j T v \<longleftrightarrow>
    voted tr j T v \<or> v \<noteq> -1 \<and> m_currentTerm (nodes \<sigma> ! j) = T \<and> m_votedFor (nodes \<sigma> ! j) = v"
  by (auto simp: voted_def)

lemma led_Cons: "led (\<sigma> # tr) i T \<longleftrightarrow>
    led tr i T \<or> m_currentTerm (nodes \<sigma> ! i) = T \<and> m_status (nodes \<sigma> ! i) = Leader"
  by (auto simp: led_def)

definition votes_bound :: "nat \<Rightarrow> cluster list \<Rightarrow> bool" where
  "votes_bound n tr \<longleftrightarrow> (\<forall>j < n. \<forall>T v. voted tr j T v \<longrightarrow> bound_vote (nodes (hd tr) ! j) T v)"

definition votes_unique :: "nat \<Rightarrow> cluster list \<Rightarrow> bool" where
  "votes_unique n tr \<longleftrightarrow> (\<forall>j < n. \<forall>T v w. voted tr j T v \<longrightarrow> voted tr j T w \<longrightarrow> v = w)"

text \<open>The step that ends an election: the counted answer completes a majority.\<close>

definition wins :: "codec \<Rightarrow> nat \<Rightarrow> cluster \<Rightarrow> cluster \<Rightarrow> thread list \<Rightarrow> thread \<Rightarrow> thread list \<Rightarrow> bool" where
  "wins c n \<sigma> \<sigma>' xs t ys \<longleftrightarrow> vote_threads \<sigma> = xs @ t # ys \<and> vote_threads \<sigma>' = xs @ ys \<and>
     (\<exists>args reply. th_call t = VoteCall args (Some reply) \<and> rvr_votegranted reply \<and>
        rvr_term reply = m_currentTerm (nodes \<sigma> ! th_src t)) \<and>
     m_status (nodes \<sigma> ! th_src t) \<noteq> Leader \<and> cells \<sigma> ! th_cell t + 1 \<ge> int (n div 2 + 1) \<and>
     cells \<sigma>' = (cells \<sigma>)[th_cell t := 0] \<and>
     nodes \<sigma>' = (nodes \<sigma>)[th_src t := won_state c (nodes \<sigma> ! th_src t)]"

lemma vote_step_node:
  assumes wf: "well_formed n \<sigma>" and step: "vote_step c n \<sigma> \<sigma>'" and j: "j < n"
  shows "evolves (nodes \<sigma> ! j) (nodes \<sigma>' ! j) \<or> (\<exists>xs t ys. wins c n \<sigma> \<sigma>' xs t ys \<and> th_src t = j)"
proof -
  have len: "length (nodes \<sigma>) = n" using wf by (simp add: well_formed_def)
  have upd: "evolves (nodes \<sigma> ! j) ((nodes \<sigma>)[i := s'] ! j)" if "evolves (nodes \<sigma> ! i) s'" "i < n" for i s'
    using that len by (cases "j = i") simp_all
  from step show ?thesis
  proof cases
    case calm
    then show ?thesis using j len by (simp add: calm_def)
  next
    case (campaign i s')
    then show ?thesis using upd by simp
  next
    case (asked xs t ys args r clk s' reply)
    then show ?thesis using upd RequestVote_wf_evolves wfD(2) [OF wf] by metis
  next
    case (counted xs t ys args r ok reply s' v ts)
    note rwf = wfD(2) [OF wf counted(3)]
    from rwf counted(5) show ?thesis
    proof (cases rule: sendRequestVote_cases)
      case down
      then have "evolves (nodes \<sigma> ! th_src t) s'" by (simp add: evolves_def advances_def)
      then show ?thesis using upd counted(3,6) by simp
    next
      case won
      have "wins c n \<sigma> \<sigma>' xs t ys"
        using won counted wfD(4) [OF wf counted(3)] by (auto simp: wins_def)
      then show ?thesis using counted(6) won(6) by (cases "j = th_src t") auto
    qed (use counted(3,6) upd in simp_all)
  qed (use j len in simp)
qed

lemma wins_node:
  assumes "well_formed n \<sigma>" and "wins c n \<sigma> \<sigma>' xs t ys" and "j < n"
  shows "nodes \<sigma>' ! j = (if j = th_src t then won_state c (nodes \<sigma> ! j) else nodes \<sigma> ! j)"
  using assms by (auto simp: wins_def well_formed_def nth_list_update)

text \<open>Every step keeps votes and never lowers a term.\<close>

lemma vote_step_keeps:
  assumes wf: "well_formed n \<sigma>" and step: "vote_step c n \<sigma> \<sigma>'" and j: "j < n"
  shows "bound_vote (nodes \<sigma> ! j) T v \<Longrightarrow> bound_vote (nodes \<sigma>' ! j) T v"
    and "m_currentTerm (nodes \<sigma> ! j) \<le> m_currentTerm (nodes \<sigma>' ! j)"
  using vote_step_node [OF assms] wins_node [OF wf _ j]
  by (auto simp: evolves_def intro: evolves_bound_vote)

lemma votes_step:
  assumes wf: "well_formed n \<sigma>" and step: "vote_step c n \<sigma> \<sigma>'"
    and "votes_bound n (\<sigma> # tr)" and "votes_unique n (\<sigma> # tr)"
  shows "votes_bound n (\<sigma>' # \<sigma> # tr) \<and> votes_unique n (\<sigma>' # \<sigma> # tr)"
proof -
  have old: "bound_vote (nodes \<sigma>' ! j) T v" if "j < n" "voted (\<sigma> # tr) j T v" for j T v
    using assms(3) that vote_step_keeps(1) [OF wf step] by (auto simp: votes_bound_def)
  then have "votes_bound n (\<sigma>' # \<sigma> # tr)"
    by (auto simp: votes_bound_def voted_Cons [of \<sigma>'] bound_vote_def)
  moreover have "v = w" if "j < n" "voted (\<sigma> # tr) j T v" "voted (\<sigma> # tr) j T w" for j T v w
    using assms(4) that by (auto simp: votes_unique_def)
  with old have "votes_unique n (\<sigma>' # \<sigma> # tr)"
    unfolding votes_unique_def voted_Cons [of \<sigma>'] bound_vote_def by blast
  ultimately show ?thesis by blast
qed

section \<open>Counting\<close>

text \<open>What matters of a vote thread: candidate, voter, counter and term.\<close>

record key =
  k_src :: nat
  k_dst :: nat
  k_cell :: nat
  k_term :: int

definition key_of :: "thread \<Rightarrow> key" where
  "key_of t = \<lparr>k_src = th_src t, k_dst = th_dst t, k_cell = th_cell t,
     k_term = (case th_call t of VoteCall args _ \<Rightarrow> rva_term args | _ \<Rightarrow> 0)\<rparr>"

abbreviation keys :: "cluster \<Rightarrow> key list" where
  "keys \<sigma> \<equiv> map key_of (vote_threads \<sigma>)"

definition waiting :: "key list \<Rightarrow> nat \<Rightarrow> nat list" where
  "waiting ks a = map k_dst (filter (\<lambda>k. k_cell k = a) ks)"

lemma waiting_append [simp]: "waiting (xs @ ys) a = waiting xs a @ waiting ys a"
  by (simp add: waiting_def)

lemma waiting_Cons [simp]: "waiting (k # ks) a = (if k_cell k = a then [k_dst k] else []) @ waiting ks a"
  by (simp add: waiting_def)

lemma waiting_Nil [simp]: "waiting [] a = []"
  by (simp add: waiting_def)

lemma key_of_call: "th_call t = VoteCall args r \<Longrightarrow> key_of (t\<lparr>th_call := VoteCall args r'\<rparr>) = key_of t"
  by (simp add: key_of_def)

text \<open>One counter per election, one thread per voter and election.\<close>

definition keys_ok :: "key list \<Rightarrow> bool" where
  "keys_ok ks \<longleftrightarrow> (\<forall>k \<in> set ks. \<forall>l \<in> set ks. k_cell k = k_cell l \<longleftrightarrow> k_src k = k_src l \<and> k_term k = k_term l) \<and>
     (\<forall>a. distinct (waiting ks a))"

text \<open>An undecided election: the counter is the number of votes seen, none of them still expected.\<close>

definition open_count :: "nat \<Rightarrow> cluster list \<Rightarrow> key list \<Rightarrow> int list \<Rightarrow> key \<Rightarrow> bool" where
  "open_count n tr ks cs k \<longleftrightarrow> (\<exists>C \<subseteq> {0..<n}. C \<inter> set (waiting ks (k_cell k)) = {} \<and>
     (\<forall>j \<in> C. voted tr j (k_term k) (int (k_src k))) \<and> cs ! k_cell k = int (card C))"

text \<open>A decided election: the answers still expected cannot complete another majority.\<close>

definition closed_count :: "nat \<Rightarrow> key list \<Rightarrow> int list \<Rightarrow> key \<Rightarrow> bool" where
  "closed_count n ks cs k \<longleftrightarrow> cs ! k_cell k + int (length (waiting ks (k_cell k))) < int (n div 2 + 1)"

definition counts_ok :: "nat \<Rightarrow> cluster list \<Rightarrow> key list \<Rightarrow> int list \<Rightarrow> bool" where
  "counts_ok n tr ks cs \<longleftrightarrow> (\<forall>k \<in> set ks.
     if led tr (k_src k) (k_term k) then closed_count n ks cs k else open_count n tr ks cs k)"

definition request_ok :: "cluster list \<Rightarrow> cluster \<Rightarrow> thread \<Rightarrow> bool" where
  "request_ok tr \<sigma> t \<longleftrightarrow> (\<exists>args r. th_call t = VoteCall args r \<and> rva_candidateid args = int (th_src t) \<and>
     rva_term args \<le> m_currentTerm (nodes \<sigma> ! th_src t) \<and>
     (\<forall>reply. r = Some reply \<longrightarrow> rvr_votegranted reply \<longrightarrow>
        rvr_term reply = rva_term args \<and> voted tr (th_dst t) (rva_term args) (int (th_src t))))"

definition leaders_ok :: "nat \<Rightarrow> cluster list \<Rightarrow> bool" where
  "leaders_ok n tr \<longleftrightarrow> (\<forall>i < n. \<forall>T. led tr i T \<longrightarrow> T \<le> m_currentTerm (nodes (hd tr) ! i) \<and>
     (\<exists>Q. majority n Q \<and> (\<forall>j \<in> Q. voted tr j T (int i))))"

definition election_inv :: "nat \<Rightarrow> cluster list \<Rightarrow> bool" where
  "election_inv n tr \<longleftrightarrow> votes_bound n tr \<and> votes_unique n tr \<and> leaders_ok n tr \<and>
     (\<forall>t \<in> set (vote_threads (hd tr)). request_ok tr (hd tr) t) \<and> keys_ok (keys (hd tr)) \<and>
     counts_ok n tr (keys (hd tr)) (cells (hd tr))"

lemma key_bounds:
  assumes "well_formed n \<sigma>" and "k \<in> set (keys \<sigma>)"
  shows "k_src k < n" "k_dst k < n" "k_src k \<noteq> k_dst k" "k_cell k < length (cells \<sigma>)"
proof -
  from assms(2) obtain t where t: "t \<in> set (threads \<sigma>)" "is_vote t" "k = key_of t" by auto
  with wfD(5) [OF assms(1) t(1)] show "k_src k < n" "k_dst k < n" "k_src k \<noteq> k_dst k" "k_cell k < length (cells \<sigma>)"
    by (auto simp: key_of_def thread_ok_def is_vote_def split: call.splits)
qed

lemma waiting_bound: "well_formed n \<sigma> \<Longrightarrow> set (waiting (keys \<sigma>) a) \<subseteq> {0..<n}"
  using key_bounds(2) by (fastforce simp: waiting_def)

text \<open>Facts of a run only grow.\<close>

lemma voted_mono: "voted tr j T v \<Longrightarrow> voted (\<sigma> # tr) j T v"
  by (simp add: voted_Cons)

lemma open_count_mono:
  assumes "open_count n tr ks cs k" and "set (waiting ks' (k_cell k)) \<subseteq> set (waiting ks (k_cell k))"
    and "cs' ! k_cell k = cs ! k_cell k"
  shows "open_count n (\<sigma> # tr) ks' cs' k"
proof -
  from assms(1) obtain C where C: "C \<subseteq> {0..<n}" "C \<inter> set (waiting ks (k_cell k)) = {}"
    "\<forall>j \<in> C. voted tr j (k_term k) (int (k_src k))" "cs ! k_cell k = int (card C)"
    by (auto simp: open_count_def)
  with assms(2,3) show ?thesis
    unfolding open_count_def by (intro exI [of _ C]) (auto simp: voted_mono)
qed

lemma request_ok_mono:
  assumes "request_ok tr \<sigma> t" and "m_currentTerm (nodes \<sigma> ! th_src t) \<le> m_currentTerm (nodes \<sigma>' ! th_src t)"
  shows "request_ok (\<sigma>' # tr) \<sigma>' t"
proof -
  from assms(1) obtain args r where "th_call t = VoteCall args r" "rva_candidateid args = int (th_src t)"
     "rva_term args \<le> m_currentTerm (nodes \<sigma> ! th_src t)"
     "\<forall>reply. r = Some reply \<longrightarrow> rvr_votegranted reply \<longrightarrow>
        rvr_term reply = rva_term args \<and> voted tr (th_dst t) (rva_term args) (int (th_src t))"
    by (auto simp: request_ok_def)
  with assms(2) show ?thesis unfolding request_ok_def by (auto simp: voted_mono)
qed

lemma led_step:
  assumes wf: "well_formed n \<sigma>" and step: "vote_step c n \<sigma> \<sigma>'" and i: "i < n"
    and "\<nexists>xs t ys. wins c n \<sigma> \<sigma>' xs t ys \<and> th_src t = i"
  shows "led (\<sigma>' # \<sigma> # tr) i T \<longleftrightarrow> led (\<sigma> # tr) i T"
  using vote_step_node [OF wf step i] assms(4) by (auto simp: led_Cons evolves_def)

lemma leaders_step:
  assumes wf: "well_formed n \<sigma>" and step: "vote_step c n \<sigma> \<sigma>'" and inv: "leaders_ok n (\<sigma> # tr)"
    and win: "\<And>xs t ys. wins c n \<sigma> \<sigma>' xs t ys \<Longrightarrow>
      \<exists>Q. majority n Q \<and> (\<forall>j \<in> Q. voted (\<sigma>' # \<sigma> # tr) j (m_currentTerm (nodes \<sigma> ! th_src t)) (int (th_src t)))"
  shows "leaders_ok n (\<sigma>' # \<sigma> # tr)"
  unfolding leaders_ok_def
proof (intro allI impI)
  fix i T assume i: "i < n" and l: "led (\<sigma>' # \<sigma> # tr) i T"
  note mono = vote_step_keeps(2) [OF wf step i]
  show "T \<le> m_currentTerm (nodes (hd (\<sigma>' # \<sigma> # tr)) ! i) \<and>
     (\<exists>Q. majority n Q \<and> (\<forall>j \<in> Q. voted (\<sigma>' # \<sigma> # tr) j T (int i)))"
  proof (cases "led (\<sigma> # tr) i T")
    case True
    with inv i mono show ?thesis unfolding leaders_ok_def by (fastforce intro: voted_mono)
  next
    case False
    with led_step [OF wf step i] l obtain xs t ys where w: "wins c n \<sigma> \<sigma>' xs t ys" "th_src t = i" by blast
    from False l have "m_currentTerm (nodes \<sigma>' ! i) = T" by (auto simp: led_Cons)
    moreover have "m_currentTerm (nodes \<sigma>' ! i) = m_currentTerm (nodes \<sigma> ! i)"
      using wins_node [OF wf w(1) i] w(2) by simp
    ultimately show ?thesis using win [OF w(1)] w(2) by auto
  qed
qed


lemma requests_step:
  assumes wf: "well_formed n \<sigma>" and step: "vote_step c n \<sigma> \<sigma>'"
    and inv: "\<forall>t \<in> set (vote_threads \<sigma>). request_ok (\<sigma> # tr) \<sigma> t"
  shows "\<forall>t \<in> set (vote_threads \<sigma>'). request_ok (\<sigma>' # \<sigma> # tr) \<sigma>' t"
proof
  fix u assume u: "u \<in> set (vote_threads \<sigma>')"
  have old: "request_ok (\<sigma>' # \<sigma> # tr) \<sigma>' t" if "t \<in> set (vote_threads \<sigma>)" for t
    using inv that vote_step_keeps(2) [OF wf step] wfD(6) [OF wf, of t] request_ok_mono by auto
  from step show "request_ok (\<sigma>' # \<sigma> # tr) \<sigma>' u"
  proof cases
    case calm
    then show ?thesis using old u by (simp add: calm_def)
  next
    case (campaign i s')
    then have "nodes \<sigma>' ! i = s'" using wfD(1) [OF wf] by simp
    with campaign u old show ?thesis
      by (auto simp: request_ok_def vote_call_of_def requestVoteArgsOf_def)
  next
    case (asked xs t ys args r clk s' reply)
    have t: "t \<in> set (vote_threads \<sigma>)" using asked(1) by simp
    have new: "nodes \<sigma>' ! th_dst t = s'" using asked(3,5) wfD(1) [OF wf] by simp
    have "request_ok (\<sigma>' # \<sigma> # tr) \<sigma>' (t\<lparr>th_call := VoteCall args (Some reply)\<rparr>)"
      using old [OF t] asked(2) new RequestVote_vote [OF asked(4)]
      by (auto simp: request_ok_def voted_Cons [of \<sigma>'])
    with asked(1,7) u old show ?thesis by auto
  next
    case (emptied xs t ys args r)
    have t: "t \<in> set (vote_threads \<sigma>)" using emptied(1) by simp
    have "request_ok (\<sigma>' # \<sigma> # tr) \<sigma>' (t\<lparr>th_call := VoteCall args (Some RequestVoteReply0)\<rparr>)"
      using old [OF t] emptied(2) by (auto simp: request_ok_def RequestVoteReply0_def)
    with emptied(1,5) u old show ?thesis by auto
  next
    case (counted xs t ys args r ok reply s' v ts)
    with u old show ?thesis by auto
  qed
qed

text \<open>The keys of the vote threads: unchanged, extended by a new election, or one removed.\<close>

lemma keys_step:
  assumes wf: "well_formed n \<sigma>" and step: "vote_step c n \<sigma> \<sigma>'"
  obtains (same) "keys \<sigma>' = keys \<sigma>" "\<forall>k \<in> set (keys \<sigma>). cells \<sigma>' ! k_cell k = cells \<sigma> ! k_cell k"
      "\<nexists>xs t ys. wins c n \<sigma> \<sigma>' xs t ys"
  | (campaign) i where "i < n"
      "keys \<sigma>' = keys \<sigma> @ map (\<lambda>d. \<lparr>k_src = i, k_dst = d, k_cell = length (cells \<sigma>),
         k_term = m_currentTerm (nodes \<sigma> ! i) + 1\<rparr>) (otherPeers (nodes \<sigma> ! i))"
      "cells \<sigma>' = cells \<sigma> @ [1]" "m_currentTerm (nodes \<sigma>' ! i) = m_currentTerm (nodes \<sigma> ! i) + 1"
      "m_votedFor (nodes \<sigma>' ! i) = int i"
      "\<nexists>xs t ys. wins c n \<sigma> \<sigma>' xs t ys"
  | (counted) xs t ys args r ok reply s' v ts where "vote_threads \<sigma> = xs @ t # ys" "th_call t = VoteCall args r"
      "th_src t < n" "ok \<longrightarrow> r = Some reply"
      "sendRequestVote c ok reply (cells \<sigma> ! th_cell t) (nodes \<sigma> ! th_src t) = Inr (s', v, ts)"
      "nodes \<sigma>' = (nodes \<sigma>)[th_src t := s']" "cells \<sigma>' = (cells \<sigma>)[th_cell t := v]" "vote_threads \<sigma>' = xs @ ys"
proof -
  have no_win: "\<nexists>xs t ys. wins c n \<sigma> \<sigma>' xs t ys" if "length (vote_threads \<sigma>) \<le> length (vote_threads \<sigma>')"
    using that by (auto simp: wins_def)
  from step show thesis
  proof cases
    case calm
    then show thesis using no_win by (intro same) (auto simp: calm_def key_of_def)
  next
    case (campaign i s')
    have "nodes \<sigma>' ! i = s'" using campaign(1,7) wfD(1) [OF wf] by simp
    moreover have "map key_of (map (vote_call_of s' i a) ds) = map (\<lambda>d. \<lparr>k_src = i, k_dst = d, k_cell = a,
         k_term = m_currentTerm (nodes \<sigma> ! i) + 1\<rparr>) ds" for a ds
      by (simp add: vote_call_of_def key_of_def requestVoteArgsOf_def campaign(3))
    ultimately show thesis
      using campaign no_win by (intro that(2) [OF campaign(1)]) simp_all
  next
    case (asked xs t ys args r clk s' reply)
    then show thesis using no_win by (intro same) (simp_all add: key_of_call)
  next
    case (emptied xs t ys args r)
    then show thesis using no_win by (intro same) (simp_all add: key_of_call)
  next
    case counted
    then show thesis by (rule that(3))
  qed
qed


lemma key_term_bound:
  assumes "\<forall>t \<in> set (vote_threads \<sigma>). request_ok tr \<sigma> t" and "k \<in> set (keys \<sigma>)"
  shows "k_term k \<le> m_currentTerm (nodes \<sigma> ! k_src k)"
  using assms by (fastforce simp: request_ok_def key_of_def)

lemma keys_ok_remove: "keys_ok (xs @ k # ys) \<Longrightarrow> keys_ok (xs @ ys)"
  by (auto simp: keys_ok_def distinct_append)

lemma waiting_new:
  "waiting (map (\<lambda>d. \<lparr>k_src = i, k_dst = d, k_cell = m, k_term = T\<rparr>) ds) a = (if a = m then ds else [])"
  by (induction ds) (auto simp: waiting_def)

lemma waiting_fresh: "\<forall>k \<in> set ks. k_cell k < m \<Longrightarrow> waiting ks m = []"
  by (auto simp: waiting_def filter_empty_conv)

lemma keys_ok_extend:
  assumes ok: "keys_ok ks" and old: "\<forall>k \<in> set ks. k_cell k < m \<and> (k_src k = i \<longrightarrow> k_term k < T)" and ds: "distinct ds"
  shows "keys_ok (ks @ map (\<lambda>d. \<lparr>k_src = i, k_dst = d, k_cell = m, k_term = T\<rparr>) ds)"
proof -
  let ?new = "map (\<lambda>d. \<lparr>k_src = i, k_dst = d, k_cell = m, k_term = T\<rparr>) ds"
  have "distinct (waiting (ks @ ?new) a)" for a
    using ok ds old waiting_fresh [of ks m] by (simp add: keys_ok_def waiting_new)
  moreover have "k_cell k = k_cell l \<longleftrightarrow> k_src k = k_src l \<and> k_term k = k_term l"
    if "k \<in> set (ks @ ?new)" "l \<in> set (ks @ ?new)" for k l
    using that ok old unfolding keys_ok_def by (auto; fastforce)
  ultimately show ?thesis by (auto simp: keys_ok_def)
qed

lemma keys_ok_step:
  assumes wf: "well_formed n \<sigma>" and step: "vote_step c n \<sigma> \<sigma>'" and inv: "keys_ok (keys \<sigma>)"
    and req: "\<forall>t \<in> set (vote_threads \<sigma>). request_ok tr \<sigma> t"
  shows "keys_ok (keys \<sigma>')"
  using wf step
proof (cases rule: keys_step)
  case (campaign i)
  have "\<forall>k \<in> set (keys \<sigma>). k_cell k < length (cells \<sigma>) \<and>
      (k_src k = i \<longrightarrow> k_term k < m_currentTerm (nodes \<sigma> ! i) + 1)"
    using key_bounds(4) [OF wf] key_term_bound [OF req] by fastforce
  from keys_ok_extend [OF inv this distinct_otherPeers] campaign(2) show ?thesis by simp
next
  case (counted xs t ys)
  with inv keys_ok_remove show ?thesis by simp
qed (use inv in simp)

text \<open>An answer for an undecided election moves its voter into the counted set.\<close>

lemma open_count_add:
  assumes oc: "open_count n tr (xs @ k # ys) cs k" and d: "k_dst k < n"
    and v: "voted (\<sigma>' # tr) (k_dst k) (k_term k) (int (k_src k))" and dist: "distinct (waiting (xs @ k # ys) (k_cell k))"
  obtains C where "C \<subseteq> {0..<n}" "C \<inter> set (waiting (xs @ ys) (k_cell k)) = {}"
    "\<forall>j \<in> C. voted (\<sigma>' # tr) j (k_term k) (int (k_src k))" "cs ! k_cell k + 1 = int (card C)"
proof -
  from oc obtain C where C: "C \<subseteq> {0..<n}" "C \<inter> set (waiting (xs @ k # ys) (k_cell k)) = {}"
    "\<forall>j \<in> C. voted tr j (k_term k) (int (k_src k))" "cs ! k_cell k = int (card C)"
    by (auto simp: open_count_def)
  have "finite C" using C(1) finite_subset by blast
  moreover have "k_dst k \<notin> C" using C(2) by simp
  ultimately have "card (insert (k_dst k) C) = card C + 1" by simp
  moreover have "insert (k_dst k) C \<inter> set (waiting (xs @ ys) (k_cell k)) = {}"
    using C(2) dist by auto
  ultimately show thesis
    using C d v by (intro that [of "insert (k_dst k) C"]) (auto simp: voted_mono)
qed


lemma counts_same:
  assumes inv: "counts_ok n (\<sigma> # tr) (keys \<sigma>) (cells \<sigma>)" and wf: "well_formed n \<sigma>"
    and led: "\<And>i T. i < n \<Longrightarrow> led (\<sigma>' # \<sigma> # tr) i T \<longleftrightarrow> led (\<sigma> # tr) i T"
    and k: "k \<in> set (keys \<sigma>)" and cell: "cs ! k_cell k = cells \<sigma> ! k_cell k"
    and wait: "set (waiting ks (k_cell k)) \<subseteq> set (waiting (keys \<sigma>) (k_cell k))"
      "length (waiting ks (k_cell k)) \<le> length (waiting (keys \<sigma>) (k_cell k))"
  shows "if led (\<sigma>' # \<sigma> # tr) (k_src k) (k_term k) then closed_count n ks cs k
         else open_count n (\<sigma>' # \<sigma> # tr) ks cs k"
proof -
  from inv k have old: "if led (\<sigma> # tr) (k_src k) (k_term k) then closed_count n (keys \<sigma>) (cells \<sigma>) k
      else open_count n (\<sigma> # tr) (keys \<sigma>) (cells \<sigma>) k" unfolding counts_ok_def by (rule bspec)
  show ?thesis
  proof (cases "led (\<sigma> # tr) (k_src k) (k_term k)")
    case True
    with old led key_bounds(1) [OF wf k] cell wait(2) show ?thesis by (simp add: closed_count_def)
  next
    case False
    with old led key_bounds(1) [OF wf k] cell wait(1) show ?thesis by (simp add: open_count_mono)
  qed
qed

lemma counts_campaign:
  assumes inv: "election_inv n (\<sigma> # tr)" and wf: "well_formed n \<sigma>" and i: "i < n"
    and led: "\<And>i T. i < n \<Longrightarrow> led (\<sigma>' # \<sigma> # tr) i T \<longleftrightarrow> led (\<sigma> # tr) i T"
    and tm: "m_currentTerm (nodes \<sigma>' ! i) = T" "T = m_currentTerm (nodes \<sigma> ! i) + 1" "m_votedFor (nodes \<sigma>' ! i) = int i"
    and ds: "ds = otherPeers (nodes \<sigma> ! i)"
  shows "counts_ok n (\<sigma>' # \<sigma> # tr)
     (keys \<sigma> @ map (\<lambda>d. \<lparr>k_src = i, k_dst = d, k_cell = length (cells \<sigma>), k_term = T\<rparr>) ds) (cells \<sigma> @ [1])"
  unfolding counts_ok_def
proof
  let ?m = "length (cells \<sigma>)"
  let ?new = "map (\<lambda>d. \<lparr>k_src = i, k_dst = d, k_cell = ?m, k_term = T\<rparr>) ds"
  fix k assume "k \<in> set (keys \<sigma> @ ?new)"
  then consider "k \<in> set (keys \<sigma>)" | "k \<in> set ?new" by auto
  then show "if led (\<sigma>' # \<sigma> # tr) (k_src k) (k_term k) then closed_count n (keys \<sigma> @ ?new) (cells \<sigma> @ [1]) k
         else open_count n (\<sigma>' # \<sigma> # tr) (keys \<sigma> @ ?new) (cells \<sigma> @ [1]) k"
  proof cases
    case 1
    with key_bounds(4) [OF wf 1] inv led show ?thesis
      by (intro counts_same [OF _ wf]) (auto simp: election_inv_def waiting_new nth_append)
  next
    case 2
    have "waiting (keys \<sigma>) ?m = []" using key_bounds(4) [OF wf] by (intro waiting_fresh) blast
    then have w: "set (waiting (keys \<sigma> @ ?new) ?m) = set ds" by (simp add: waiting_new)
    have "\<not> led (\<sigma> # tr) i T" using inv i tm(2) by (fastforce simp: election_inv_def leaders_ok_def)
    moreover have "voted (\<sigma>' # \<sigma> # tr) i T (int i)" using tm by (simp add: voted_Cons)
    moreover have "i \<notin> set ds" using ds wfD(3) [OF wf i] by (simp add: set_otherPeers)
    ultimately show ?thesis
      using 2 w i led by (auto simp: open_count_def intro!: exI [of _ "{i}"])
  qed
qed


text \<open>The two facts a counted answer brings: its vote is real, and its election is the current one.\<close>

lemma counted_vote:
  assumes inv: "election_inv n (\<sigma> # tr)" and th: "vote_threads \<sigma> = xs @ t # ys"
    and call: "th_call t = VoteCall args (Some reply)" and gr: "rvr_votegranted reply"
  shows "rvr_term reply = k_term (key_of t)" and "voted (\<sigma>' # \<sigma> # tr) (k_dst (key_of t)) (k_term (key_of t)) (int (k_src (key_of t)))"
proof -
  have "t \<in> set (vote_threads \<sigma>)" by (simp add: th)
  with inv have "request_ok (\<sigma> # tr) \<sigma> t" by (simp add: election_inv_def)
  with call gr show "rvr_term reply = k_term (key_of t)"
    and "voted (\<sigma>' # \<sigma> # tr) (k_dst (key_of t)) (k_term (key_of t)) (int (k_src (key_of t)))"
    by (simp_all add: request_ok_def key_of_def voted_mono)
qed

lemma counted_key:
  assumes inv: "election_inv n (\<sigma> # tr)" and wf: "well_formed n \<sigma>" and th: "vote_threads \<sigma> = xs @ t # ys"
  defines "k \<equiv> key_of t" and "ks \<equiv> map key_of xs @ map key_of ys"
  shows "k \<in> set (keys \<sigma>)" "keys \<sigma> = map key_of xs @ k # map key_of ys" "keys_ok (map key_of xs @ k # map key_of ys)"
    "distinct (waiting (map key_of xs @ k # map key_of ys) (k_cell k))" "k_dst k < n" "k_cell k = th_cell t"
    "length (waiting (keys \<sigma>) (k_cell k)) = length (waiting ks (k_cell k)) + 1"
    "set (waiting ks a) \<subseteq> set (waiting (keys \<sigma>) a)" "length (waiting ks a) \<le> length (waiting (keys \<sigma>) a)"
    "l \<in> set ks \<Longrightarrow> l \<in> set (keys \<sigma>)"
proof -
  show keys: "keys \<sigma> = map key_of xs @ k # map key_of ys" by (simp add: th k_def)
  then show k: "k \<in> set (keys \<sigma>)" by simp
  show "keys_ok (map key_of xs @ k # map key_of ys)" using inv keys by (simp add: election_inv_def)
  then show "distinct (waiting (map key_of xs @ k # map key_of ys) (k_cell k))" unfolding keys_ok_def by blast
  show "k_dst k < n" by (rule key_bounds(2) [OF wf k])
  show "k_cell k = th_cell t" by (simp add: k_def key_of_def)
  show "length (waiting (keys \<sigma>) (k_cell k)) = length (waiting ks (k_cell k)) + 1"
    "set (waiting ks a) \<subseteq> set (waiting (keys \<sigma>) a)" "length (waiting ks a) \<le> length (waiting (keys \<sigma>) a)"
    unfolding keys ks_def by auto
  show "l \<in> set ks \<Longrightarrow> l \<in> set (keys \<sigma>)" unfolding keys ks_def by auto
qed

lemma counted_open_or_closed:
  assumes inv: "election_inv n (\<sigma> # tr)" and wf: "well_formed n \<sigma>" and th: "vote_threads \<sigma> = xs @ t # ys"
  shows "led (\<sigma> # tr) (th_src t) (k_term (key_of t)) \<Longrightarrow>
      cells \<sigma> ! th_cell t + int (length (waiting (map key_of xs @ map key_of ys) (th_cell t))) + 1 < int (n div 2 + 1)"
    and "\<not> led (\<sigma> # tr) (th_src t) (k_term (key_of t)) \<Longrightarrow>
      open_count n (\<sigma> # tr) (map key_of xs @ key_of t # map key_of ys) (cells \<sigma>) (key_of t)"
proof -
  note key = counted_key [OF inv wf th]
  from inv have "counts_ok n (\<sigma> # tr) (keys \<sigma>) (cells \<sigma>)" by (simp add: election_inv_def)
  from this [unfolded counts_ok_def, THEN bspec, OF key(1)]
  have c: "if led (\<sigma> # tr) (th_src t) (k_term (key_of t)) then closed_count n (keys \<sigma>) (cells \<sigma>) (key_of t)
      else open_count n (\<sigma> # tr) (keys \<sigma>) (cells \<sigma>) (key_of t)" by (simp add: key_of_def)
  show "cells \<sigma> ! th_cell t + int (length (waiting (map key_of xs @ map key_of ys) (th_cell t))) + 1 < int (n div 2 + 1)"
    if "led (\<sigma> # tr) (th_src t) (k_term (key_of t))"
    using c that key(6,7) by (simp add: closed_count_def)
  show "open_count n (\<sigma> # tr) (map key_of xs @ key_of t # map key_of ys) (cells \<sigma>) (key_of t)"
    if "\<not> led (\<sigma> # tr) (th_src t) (k_term (key_of t))"
    using c that key(2) by simp
qed

text \<open>A winner's term was undecided, and its quorum are the counted voters.\<close>

lemma wins_quorum:
  assumes inv: "election_inv n (\<sigma> # tr)" and wf: "well_formed n \<sigma>" and w: "wins c n \<sigma> \<sigma>' xs t ys"
  defines "T \<equiv> m_currentTerm (nodes \<sigma> ! th_src t)"
  shows "\<not> led (\<sigma> # tr) (th_src t) T" and "k_term (key_of t) = T"
    and "\<exists>Q. majority n Q \<and> (\<forall>j \<in> Q. voted (\<sigma>' # \<sigma> # tr) j T (int (th_src t))) \<and>
      Q \<inter> set (waiting (map key_of xs @ map key_of ys) (th_cell t)) = {}"
proof -
  from w obtain args reply where th: "vote_threads \<sigma> = xs @ t # ys" and call: "th_call t = VoteCall args (Some reply)"
    and gr: "rvr_votegranted reply" "rvr_term reply = T" and big: "cells \<sigma> ! th_cell t + 1 \<ge> int (n div 2 + 1)"
    by (auto simp: wins_def T_def)
  note cv = counted_vote [OF inv th call gr(1)] and key = counted_key [OF inv wf th]
  show T: "k_term (key_of t) = T" using cv(1) gr(2) by simp
  show nl: "\<not> led (\<sigma> # tr) (th_src t) T"
  proof
    assume "led (\<sigma> # tr) (th_src t) T"
    then have "cells \<sigma> ! th_cell t + int (length (waiting (map key_of xs @ map key_of ys) (th_cell t))) + 1 < int (n div 2 + 1)"
      using counted_open_or_closed(1) [OF inv wf th] T by simp
    with big show False by linarith
  qed
  from open_count_add [OF counted_open_or_closed(2) [OF inv wf th] key(5) cv(2) key(4)] nl T
  obtain C where C: "C \<subseteq> {0..<n}" "C \<inter> set (waiting (map key_of xs @ map key_of ys) (k_cell (key_of t))) = {}"
    "\<forall>j \<in> C. voted (\<sigma>' # \<sigma> # tr) j (k_term (key_of t)) (int (k_src (key_of t)))"
    "cells \<sigma> ! k_cell (key_of t) + 1 = int (card C)" by metis
  have "majority n C" using C(1,4) big key(6) by (simp add: majority_def)
  with C T show "\<exists>Q. majority n Q \<and> (\<forall>j \<in> Q. voted (\<sigma>' # \<sigma> # tr) j T (int (th_src t))) \<and>
      Q \<inter> set (waiting (map key_of xs @ map key_of ys) (th_cell t)) = {}"
    by (intro exI [of _ C]) (simp add: key_of_def)
qed


lemma keys_okD:
  "keys_ok ks \<Longrightarrow> k \<in> set ks \<Longrightarrow> l \<in> set ks \<Longrightarrow> k_cell k = k_cell l \<longleftrightarrow> k_src k = k_src l \<and> k_term k = k_term l"
  unfolding keys_ok_def by blast

lemma election_invD:
  assumes "election_inv n (\<sigma> # tr)"
  shows "votes_bound n (\<sigma> # tr)" "votes_unique n (\<sigma> # tr)" "leaders_ok n (\<sigma> # tr)"
    "\<forall>t \<in> set (vote_threads \<sigma>). request_ok (\<sigma> # tr) \<sigma> t" "keys_ok (keys \<sigma>)"
    "counts_ok n (\<sigma> # tr) (keys \<sigma>) (cells \<sigma>)"
  using assms by (simp_all only: election_inv_def list.sel) blast+

text \<open>The remaining threads of the election whose answer was counted share its candidate and term.\<close>

lemma same_election:
  assumes inv: "election_inv n (\<sigma> # tr)" and wf: "well_formed n \<sigma>" and th: "vote_threads \<sigma> = xs @ t # ys"
    and l: "l \<in> set (keys \<sigma>)"
  shows "k_cell l = th_cell t \<longleftrightarrow> k_src l = th_src t \<and> k_term l = k_term (key_of t)"
  using keys_okD [OF election_invD(5) [OF inv] l counted_key(1) [OF inv wf th]] by (simp add: key_of_def)

lemma counts_count:
  assumes inv: "election_inv n (\<sigma> # tr)" and wf: "well_formed n \<sigma>"
    and th: "vote_threads \<sigma> = xs @ t # ys" "keys \<sigma>' = map key_of xs @ map key_of ys"
    and call: "th_call t = VoteCall args (Some reply)" "rvr_votegranted reply"
    and cells: "cells \<sigma>' = (cells \<sigma>)[th_cell t := cells \<sigma> ! th_cell t + 1]"
    and led: "led (\<sigma>' # \<sigma> # tr) (th_src t) (k_term (key_of t)) \<longleftrightarrow> led (\<sigma> # tr) (th_src t) (k_term (key_of t))"
    and l: "l \<in> set (keys \<sigma>)" "k_cell l = th_cell t"
  shows "if led (\<sigma>' # \<sigma> # tr) (k_src l) (k_term l) then closed_count n (keys \<sigma>') (cells \<sigma>') l
         else open_count n (\<sigma>' # \<sigma> # tr) (keys \<sigma>') (cells \<sigma>') l"
proof -
  note key = counted_key [OF inv wf th(1)]
  have sk: "k_src l = th_src t" "k_term l = k_term (key_of t)"
    using same_election [OF inv wf th(1) l(1)] l(2) by simp_all
  have v: "cells \<sigma>' ! k_cell l = cells \<sigma> ! th_cell t + 1"
    using l(2) cells key_bounds(4) [OF wf l(1)] by simp
  show ?thesis
  proof (cases "led (\<sigma> # tr) (th_src t) (k_term (key_of t))")
    case True
    with counted_open_or_closed(1) [OF inv wf th(1)] v led sk l(2) th(2) show ?thesis by (simp add: closed_count_def)
  next
    case False
    obtain C where "C \<subseteq> {0..<n}" "C \<inter> set (waiting (keys \<sigma>') (th_cell t)) = {}"
      "\<forall>j \<in> C. voted (\<sigma>' # \<sigma> # tr) j (k_term l) (int (k_src l))" "cells \<sigma> ! th_cell t + 1 = int (card C)"
      using open_count_add [OF counted_open_or_closed(2) [OF inv wf th(1) False] key(5)
        counted_vote(2) [OF inv th(1) call] key(4)] sk th(2) key(6) by (metis key.select_convs(1) key_of_def)
    with v l(2) have "open_count n (\<sigma>' # \<sigma> # tr) (keys \<sigma>') (cells \<sigma>') l" by (auto simp: open_count_def)
    with False led sk show ?thesis by simp
  qed
qed

lemma counts_won:
  assumes inv: "election_inv n (\<sigma> # tr)" and wf: "well_formed n \<sigma>" and w: "wins c n \<sigma> \<sigma>' xs t ys"
    and src: "th_src t < n" and l: "l \<in> set (keys \<sigma>)"
  shows "if led (\<sigma>' # \<sigma> # tr) (k_src l) (k_term l) then closed_count n (keys \<sigma>') (cells \<sigma>') l
         else open_count n (\<sigma>' # \<sigma> # tr) (keys \<sigma>') (cells \<sigma>') l"
proof -
  have th: "vote_threads \<sigma> = xs @ t # ys" and keys': "keys \<sigma>' = map key_of xs @ map key_of ys"
    and cells: "cells \<sigma>' = (cells \<sigma>)[th_cell t := 0]" using w by (simp_all add: wins_def)
  note wq = wins_quorum [OF inv wf w] and key = counted_key [OF inv wf th]
  note se = same_election [OF inv wf th l]
  show ?thesis
  proof (cases "k_cell l = th_cell t")
    case True
    have "led (\<sigma>' # \<sigma> # tr) (k_src l) (k_term l)"
      using True se wq(2) wins_node [OF wf w src] by (simp add: led_Cons)
    moreover obtain Q where Q: "majority n Q" "Q \<inter> set (waiting (keys \<sigma>') (th_cell t)) = {}"
      using wq(3) keys' by auto
    have "set (waiting (keys \<sigma>') (th_cell t)) \<subseteq> {0..<n}"
      using key(8) waiting_bound [OF wf] unfolding keys' by (rule subset_trans)
    then have "card (set (waiting (keys \<sigma>') (th_cell t))) < n div 2 + 1"
      using Q by (intro rest_below_majority [of Q]) (auto simp: majority_def)
    moreover have "distinct (waiting (keys \<sigma>') (th_cell t))" using key(4,6) keys' by auto
    moreover have "cells \<sigma>' ! k_cell l = 0" using True cells key_bounds(4) [OF wf l] by simp
    ultimately show ?thesis using True by (simp add: closed_count_def distinct_card)
  next
    case False
    then have "k_src l \<noteq> th_src t \<or> k_term l \<noteq> m_currentTerm (nodes \<sigma> ! th_src t)" using se wq(2) by simp
    then have "led (\<sigma>' # \<sigma> # tr) (k_src l) (k_term l) \<longleftrightarrow> led (\<sigma> # tr) (k_src l) (k_term l)"
      using wins_node [OF wf w key_bounds(1) [OF wf l]] by (auto simp: led_Cons split: if_splits)
    moreover have "if led (\<sigma> # tr) (k_src l) (k_term l) then closed_count n (keys \<sigma>) (cells \<sigma>) l
        else open_count n (\<sigma> # tr) (keys \<sigma>) (cells \<sigma>) l"
      using election_invD(6) [OF inv] l unfolding counts_ok_def by (rule bspec)
    moreover have same: "cells \<sigma>' ! k_cell l = cells \<sigma> ! k_cell l" using False cells by simp
    moreover have "open_count n (\<sigma> # tr) (keys \<sigma>) (cells \<sigma>) l \<Longrightarrow> open_count n (\<sigma>' # \<sigma> # tr) (keys \<sigma>') (cells \<sigma>') l"
      using key(8) [of "k_cell l"] same unfolding keys'
      by - (rule open_count_mono)
    ultimately show ?thesis
      using key(9) [of "k_cell l"] keys' by (auto simp: closed_count_def)
  qed
qed

lemma wins_src:
  assumes wf: "well_formed n \<sigma>" and w: "wins c n \<sigma> \<sigma>' xs t ys"
  shows "th_src t < n"
proof -
  have "vote_threads \<sigma> = xs @ t # ys" using w by (simp add: wins_def)
  then have "t \<in> set (vote_threads \<sigma>)" by (metis in_set_conv_decomp)
  then show ?thesis using wfD(6) [OF wf] by simp
qed

lemma counts_counted:
  assumes inv: "election_inv n (\<sigma> # tr)" and wf: "well_formed n \<sigma>" and step: "vote_step c n \<sigma> \<sigma>'"
    and th: "vote_threads \<sigma> = xs @ t # ys" and call: "th_call t = VoteCall args r" and ok: "ok \<longrightarrow> r = Some reply"
    and ret: "sendRequestVote c ok reply (cells \<sigma> ! th_cell t) (nodes \<sigma> ! th_src t) = Inr (s', v, ts)"
    and nodes: "nodes \<sigma>' = (nodes \<sigma>)[th_src t := s']" and cells: "cells \<sigma>' = (cells \<sigma>)[th_cell t := v]"
    and th': "vote_threads \<sigma>' = xs @ ys" and src: "th_src t < n" and l: "l \<in> set (keys \<sigma>')"
  shows "if led (\<sigma>' # \<sigma> # tr) (k_src l) (k_term l) then closed_count n (keys \<sigma>') (cells \<sigma>') l
         else open_count n (\<sigma>' # \<sigma> # tr) (keys \<sigma>') (cells \<sigma>') l"
proof -
  note key = counted_key [OF inv wf th]
  have keys': "keys \<sigma>' = map key_of xs @ map key_of ys" by (simp add: th')
  have lk: "l \<in> set (keys \<sigma>)" using key(10) l by (simp add: keys')
  have quiet: ?thesis if nw: "\<nexists>xs t ys. wins c n \<sigma> \<sigma>' xs t ys" and "k_cell l = th_cell t \<longrightarrow> v = cells \<sigma> ! th_cell t"
  proof (rule counts_same [OF election_invD(6) [OF inv] wf _ lk])
    show "cells \<sigma>' ! k_cell l = cells \<sigma> ! k_cell l" using that(2) cells by (cases "k_cell l = th_cell t") simp_all
  qed (use led_step [OF wf step] nw key(8,9) keys' in auto)
  have no_win: "\<nexists>xs t ys. wins c n \<sigma> \<sigma>' xs t ys" if "s' = nodes \<sigma> ! th_src t \<or> m_status s' \<noteq> Leader"
  proof (rule notI, elim exE)
    fix xs' t' ys' assume w: "wins c n \<sigma> \<sigma>' xs' t' ys'"
    then have "th_src t' < n" by (rule wins_src [OF wf])
    then have "m_status (nodes \<sigma>' ! th_src t') = Leader" "m_status (nodes \<sigma> ! th_src t') \<noteq> Leader"
      using w wins_node [OF wf w] by (auto simp: wins_def)
    with that nodes src wfD(1) [OF wf] show False by (cases "th_src t' = th_src t") auto
  qed
  from wfD(2) [OF wf src] ret show ?thesis
  proof (cases rule: sendRequestVote_cases)
    case count
    then have nw: "\<nexists>xs t ys. wins c n \<sigma> \<sigma>' xs t ys" using no_win by simp
    show ?thesis
    proof (cases "k_cell l = th_cell t")
      case True
      show ?thesis
        by (rule counts_count [OF inv wf th keys' _ count(2) _ _ lk True])
           (use count ok call cells led_step [OF wf step src] nw in auto)
    qed (use quiet [OF nw] in simp)
  next
    case won
    have "wins c n \<sigma> \<sigma>' xs t ys"
      using won th th' call ok nodes cells wfD(4) [OF wf src] by (auto simp: wins_def)
    from counts_won [OF inv wf this src lk] show ?thesis .
  qed (use quiet no_win in simp_all)
qed


lemma counts_step:
  assumes inv: "election_inv n (\<sigma> # tr)" and wf: "well_formed n \<sigma>" and step: "vote_step c n \<sigma> \<sigma>'"
  shows "counts_ok n (\<sigma>' # \<sigma> # tr) (keys \<sigma>') (cells \<sigma>')"
  using wf step
proof (cases rule: keys_step)
  case same
  then show ?thesis
    unfolding counts_ok_def
    by (intro ballI counts_same [OF election_invD(6) [OF inv] wf]) (auto simp: led_step [OF wf step])
next
  case (campaign i)
  have "led (\<sigma>' # \<sigma> # tr) j T \<longleftrightarrow> led (\<sigma> # tr) j T" if "j < n" for j T
    using led_step [OF wf step that] campaign(6) by blast
  from counts_campaign [OF inv wf campaign(1) this campaign(4) refl campaign(5) refl] campaign(2,3)
  show ?thesis by simp
next
  case (counted xs t ys args r ok reply s' v ts)
  show ?thesis
    unfolding counts_ok_def
    by (intro ballI counts_counted [OF inv wf step counted(1,2,4,5,6,7,8,3)])
qed

theorem election_inv_step:
  assumes inv: "election_inv n (\<sigma> # tr)" and wf: "well_formed n \<sigma>" and step: "vote_step c n \<sigma> \<sigma>'"
  shows "election_inv n (\<sigma>' # \<sigma> # tr)"
proof -
  note I = election_invD [OF inv]
  have "leaders_ok n (\<sigma>' # \<sigma> # tr)"
    using leaders_step [OF wf step I(3)] wins_quorum(3) [OF inv wf] by blast
  with votes_step [OF wf step I(1,2)] requests_step [OF wf step I(4)] keys_ok_step [OF wf step I(5,4)]
    counts_step [OF inv wf step]
  show ?thesis by (simp only: election_inv_def list.sel)
qed

lemma election_inv_boot: "election_inv n [boot clk n]"
  by (auto simp: election_inv_def votes_bound_def votes_unique_def leaders_ok_def voted_def led_def
      boot_def newRaft_def keys_ok_def counts_ok_def)

lemma run_election_inv: "run c n clk tr \<Longrightarrow> election_inv n tr"
proof (induction rule: run.induct)
  case run_boot
  show ?case by (rule election_inv_boot)
next
  case (run_exec \<sigma> tr e \<sigma>')
  then have wf: "well_formed n \<sigma>" using run_well_formed [of c n clk "\<sigma> # tr"] by simp
  from election_inv_step [OF run_exec.IH wf vote_step_exec [OF wf run_exec.hyps(2)]] show ?case .
qed

section \<open>Election safety\<close>

lemma one_leader:
  assumes inv: "election_inv n (\<sigma> # tr)" and "led (\<sigma> # tr) i T" and "led (\<sigma> # tr) j T" and "i < n" and "j < n"
  shows "i = j"
proof -
  note I = election_invD [OF inv]
  obtain A B where AB: "majority n A" "\<forall>v \<in> A. voted (\<sigma> # tr) v T (int i)"
      "majority n B" "\<forall>v \<in> B. voted (\<sigma> # tr) v T (int j)"
    using I(3) assms(2-5) unfolding leaders_ok_def by blast
  have "int i = int j"
  proof (rule majorities.same_candidate [OF AB(1,3), where votes = "\<lambda>v x. v < n \<and> voted (\<sigma> # tr) v T x"])
    show "v < n \<and> voted (\<sigma> # tr) v T (int i)" if "v \<in> A" for v using AB(1,2) that by (auto simp: majority_def)
    show "v < n \<and> voted (\<sigma> # tr) v T (int j)" if "v \<in> B" for v using AB(3,4) that by (auto simp: majority_def)
    show "x = y" if "v < n \<and> voted (\<sigma> # tr) v T x" "v < n \<and> voted (\<sigma> # tr) v T y" for v x y
      using I(2) that unfolding votes_unique_def by blast
  qed
  then show ?thesis by simp
qed

end
