(* ===== verification/Replication.thy ===== *)
theory Replication
  imports Election
begin

text \<open>
  What the replica group keeps of its logs: entries come from the leader of their term, index and term
  determine an entry, a leader's bookkeeping stays inside its log, and therefore no assertion of the
  code fires except the one that \<open>AppendEntries1\<close> reaches for a position inside a snapshot.

  The invariants of a state are stated relative to a set \<open>L\<close> of entries and a predicate \<open>D\<close> of
  leaderships; a run instantiates them with the entries ever stored and the leaderships ever held.
\<close>

section \<open>A leader's bookkeeping\<close>

definition leader_ok :: "raft \<Rightarrow> bool" where
  "leader_ok s \<longleftrightarrow> (snapIndex s = 0 \<longrightarrow> m_lastSnapshotIncludeTerm s = 0) \<and>
     (m_status s = Leader \<longrightarrow> next_ok s \<and> (\<forall>j < m_peers s. m_matchIndex s ! j \<le> getLastLogIndex s))"

text \<open>Most functions leave the two index vectors of a leader alone.\<close>

lemma leader_ok_frame:
  assumes "leader_ok s" and "evolves s s'"
    and "snapIndex s' = snapIndex s \<and> m_lastSnapshotIncludeTerm s' = m_lastSnapshotIncludeTerm s \<or> 0 < snapIndex s'"
    and "m_status s' = Leader \<Longrightarrow> m_nextIndex s' = m_nextIndex s \<and> m_matchIndex s' = m_matchIndex s"
  shows "leader_ok s'"
  using assms by (force simp: leader_ok_def next_ok_def evolves_def advances_def)

lemma leader_ok_won: "raft_wf s \<Longrightarrow> leader_ok s \<Longrightarrow> leader_ok (won_state c s)"
  by (auto simp: leader_ok_def next_ok_def raft_wf_def)

section \<open>Invariants of a state\<close>

definition append_reply_ok :: "appendEntriesArgs \<Rightarrow> appendEntriesReply \<Rightarrow> bool" where
  "append_reply_ok args reply \<longleftrightarrow> aer_appstate reply = Disconnected \<or>
     (aer_success reply \<longrightarrow> aer_term reply = aea_term args) \<and>
     (\<not> aer_success reply \<longrightarrow> aer_updatenextindex reply \<noteq> -100 \<longrightarrow> aer_term reply = aea_term args \<and>
        1 \<le> aer_updatenextindex reply \<and> aer_updatenextindex reply \<le> aea_prevlogindex args)"

definition append_ok :: "logEntry set \<Rightarrow> (nat \<Rightarrow> int \<Rightarrow> bool) \<Rightarrow> nat \<Rightarrow> raft \<Rightarrow> appendEntriesArgs \<Rightarrow>
    appendEntriesReply option \<Rightarrow> bool" where
  "append_ok L D i s args r \<longleftrightarrow> D i (aea_term args) \<and> aea_leaderid args = int i \<and>
     aea_term args \<le> m_currentTerm s \<and> 0 \<le> aea_prevlogindex args \<and>
     aea_prevlogindex args + int (length (aea_entries args)) \<le> getLastLogIndex s \<and>
     (aea_prevlogindex args = 0 \<longrightarrow> aea_prevlogterm args = 0) \<and> set (aea_entries args) \<subseteq> L \<and>
     (\<forall>reply. r = Some reply \<longrightarrow> append_reply_ok args reply)"

definition thread_inv :: "logEntry set \<Rightarrow> (nat \<Rightarrow> int \<Rightarrow> bool) \<Rightarrow> cluster \<Rightarrow> thread \<Rightarrow> bool" where
  "thread_inv L D \<sigma> t \<longleftrightarrow>
     (case th_call t of
        AppendCall args r \<Rightarrow> append_ok L D (th_src t) (nodes \<sigma> ! th_src t) args r
      | SnapCall args r \<Rightarrow> 0 \<le> isr_lastsnapshotincludeindex args \<and>
          isr_lastsnapshotincludeindex args \<le> getLastLogIndex (nodes \<sigma> ! th_src t)
      | _ \<Rightarrow> True)"

definition state_inv :: "logEntry set \<Rightarrow> (nat \<Rightarrow> int \<Rightarrow> bool) \<Rightarrow> nat \<Rightarrow> cluster \<Rightarrow> bool" where
  "state_inv L D n \<sigma> \<longleftrightarrow> (\<forall>i < n. leader_ok (nodes \<sigma> ! i) \<and> set (m_logs (nodes \<sigma> ! i)) \<subseteq> L) \<and>
     (\<forall>t \<in> set (threads \<sigma>). thread_inv L D \<sigma> t)"

lemma thread_inv_nodes: "nodes \<sigma>' = nodes \<sigma> \<Longrightarrow> thread_inv L D \<sigma>' t = thread_inv L D \<sigma> t"
  by (cases "th_call t") (simp_all add: thread_inv_def)

lemma append_ok_mono:
  assumes "append_ok L D i s args r" and "L \<subseteq> L'" and "\<And>i T. D i T \<Longrightarrow> D' i T"
    and "m_currentTerm s \<le> m_currentTerm s'" and "getLastLogIndex s \<le> getLastLogIndex s'"
  shows "append_ok L' D' i s' args r"
  using assms by (auto simp: append_ok_def)

lemma thread_inv_mono:
  assumes "thread_inv L D \<sigma> t" and "L \<subseteq> L'" and "\<And>i T. D i T \<Longrightarrow> D' i T"
    and "m_currentTerm (nodes \<sigma> ! th_src t) \<le> m_currentTerm (nodes \<sigma>' ! th_src t)"
    and "getLastLogIndex (nodes \<sigma> ! th_src t) \<le> getLastLogIndex (nodes \<sigma>' ! th_src t)"
  shows "thread_inv L' D' \<sigma>' t"
  using assms by (auto simp: thread_inv_def intro: append_ok_mono split: call.splits)

lemma state_inv_mono:
  assumes "state_inv L D n \<sigma>" and "L \<subseteq> L'" and "\<And>i T. D i T \<Longrightarrow> D' i T"
  shows "state_inv L' D' n \<sigma>"
proof -
  have "thread_inv L' D' \<sigma> t" if "thread_inv L D \<sigma> t" for t
    using that assms(2,3) by (rule thread_inv_mono) simp_all
  with assms(1,2) show ?thesis unfolding state_inv_def by (meson subset_trans)
qed

definition spawn_inv :: "logEntry set \<Rightarrow> (nat \<Rightarrow> int \<Rightarrow> bool) \<Rightarrow> nat \<Rightarrow> raft \<Rightarrow> spawn \<Rightarrow> bool" where
  "spawn_inv L D i s sp \<longleftrightarrow> (\<forall>d args. sp = SendAppendEntries d args \<longrightarrow> append_ok L D i s args None)"

lemma state_inv_fork:
  assumes inv: "state_inv L D n \<sigma>" and len: "length (nodes \<sigma>) = n" and i: "i < n"
    and s: "leader_ok s'" "set (m_logs s') \<subseteq> L" and mono: "m_currentTerm (nodes \<sigma> ! i) \<le> m_currentTerm s'"
      "getLastLogIndex (nodes \<sigma> ! i) \<le> getLastLogIndex s'"
    and ts: "\<And>sp. sp \<in> set ts \<Longrightarrow> spawn_inv L D i s' sp"
  shows "state_inv L D n (fork i s' cnt ts \<sigma>)"
  unfolding state_inv_def
proof (intro conjI allI impI ballI)
  fix j assume j: "j < n"
  show "leader_ok (nodes (fork i s' cnt ts \<sigma>) ! j)" "set (m_logs (nodes (fork i s' cnt ts \<sigma>) ! j)) \<subseteq> L"
    using inv s j len by (cases "j = i"; simp add: state_inv_def)+
next
  fix t assume "t \<in> set (threads (fork i s' cnt ts \<sigma>))"
  then consider "t \<in> set (threads \<sigma>)" | sp where "sp \<in> set ts" "t = thread_of i (length (cells \<sigma>)) sp" by auto
  then show "thread_inv L D (fork i s' cnt ts \<sigma>) t"
  proof cases
    case 1
    then have "thread_inv L D \<sigma> t" using inv by (simp add: state_inv_def)
    then show ?thesis
      by (rule thread_inv_mono) (use mono len i in \<open>cases "th_src t = i"; simp\<close>)+
  next
    case 2
    with ts len i show ?thesis by (cases sp) (auto simp: thread_inv_def spawn_inv_def)
  qed
qed

lemma state_inv_set_call:
  assumes inv: "state_inv L D n \<sigma>" and new: "thread_inv L D \<sigma> ((threads \<sigma> ! k)\<lparr>th_call := x\<rparr>)"
  shows "state_inv L D n (set_call k x \<sigma>)"
proof -
  have eq: "thread_inv L D (set_call k x \<sigma>) t = thread_inv L D \<sigma> t" for t
    by (rule thread_inv_nodes) simp
  have "thread_inv L D \<sigma> t" if "t \<in> set (threads (set_call k x \<sigma>))" for t
  proof -
    have "t = (threads \<sigma> ! k)\<lparr>th_call := x\<rparr> \<or> t \<in> set (threads \<sigma>)"
      using that by (simp add: set_update_mem)
    then show ?thesis using inv new by (auto simp: state_inv_def)
  qed
  with inv show ?thesis by (simp add: state_inv_def eq del: set_call_fields(3))
qed

lemma state_inv_sub:
  assumes "state_inv L D n \<sigma>" and "nodes \<sigma>' = nodes \<sigma>" and "set (threads \<sigma>') \<subseteq> set (threads \<sigma>)"
  shows "state_inv L D n \<sigma>'"
  using assms thread_inv_nodes [OF assms(2)] by (auto simp: state_inv_def)


section \<open>The functions of a replica\<close>

lemma AppendEntries1_leader_ok:
  assumes wf: "raft_wf s" and num: "numbered logindex (aea_prevlogindex args) (aea_entries args)"
    and ret: "AppendEntries1 c clk args s = Inr (s', reply)" and ok: "leader_ok s"
  shows "leader_ok s'"
  using wf num ret
proof (cases rule: AppendEntries1_cases)
  case (accept logs)
  then show ?thesis using ok by (simp add: leader_ok_def)
qed (use ok in \<open>simp_all add: leader_ok_def\<close>)

lemma merged_entry_source:
  assumes "merged prev es s i = Some e"
  shows "entry_at s i = Some e \<or> e \<in> set es"
proof (cases "prev < i \<and> i \<le> prev + int (length es)")
  case True
  then have "es ! nat (i - prev - 1) \<in> set es" by (intro nth_mem) arith
  with True assms show ?thesis
    by (auto simp: merged_def merge_entry_def split: option.splits if_splits)
qed (use assms in \<open>auto simp: merged_def split: if_splits\<close>)

lemma AppendEntries1_logs_from:
  assumes wf: "raft_wf s" and num: "numbered logindex (aea_prevlogindex args) (aea_entries args)"
    and ret: "AppendEntries1 c clk args s = Inr (s', reply)"
  shows "set (m_logs s') \<subseteq> set (m_logs s) \<union> set (aea_entries args)"
  using wf num ret
proof (cases rule: AppendEntries1_cases)
  case (accept logs)
  show ?thesis
  proof
    fix e assume "e \<in> set (m_logs s')"
    then have "e \<in> set (m_logs (s\<lparr>m_logs := logs\<rparr>))" using accept(2) by simp
    from mem_entry_at [OF accept(4) this] accept(6)
    have "merged (aea_prevlogindex args) (aea_entries args) s (logindex e) = Some e" by simp
    then show "e \<in> set (m_logs s) \<union> set (aea_entries args)"
      using merged_entry_source entry_at_mem by blast
  qed
qed simp_all

lemma AppendEntries1_reply_ok:
  assumes wf: "raft_wf s" and num: "numbered logindex (aea_prevlogindex args) (aea_entries args)"
    and ret: "AppendEntries1 c clk args s = Inr (s', reply)" and ok: "leader_ok s"
    and prev: "0 \<le> aea_prevlogindex args" "aea_prevlogindex args = 0 \<longrightarrow> aea_prevlogterm args = 0"
  shows "append_reply_ok args reply"
  using wf num ret
proof (cases rule: AppendEntries1_cases)
  case (reject u)
  with ok prev show ?thesis by (auto simp: append_reply_ok_def leader_ok_def)
qed (simp_all add: append_reply_ok_def)


lemma RequestVote_leader_ok:
  assumes wf: "raft_wf s" and ret: "RequestVote c clk args s = Inr (s', reply)" and ok: "leader_ok s"
  shows "leader_ok s'"
proof (rule leader_ok_frame [OF ok])
  show "evolves s s'" using RequestVote_wf_evolves [OF wf ret] by simp
  show "m_nextIndex s' = m_nextIndex s \<and> m_matchIndex s' = m_matchIndex s"
    using ret by (auto simp: RequestVote_def Let_def split: if_splits)
qed (use RequestVote_log [OF ret] in simp)

lemma Snapshot_leader_ok:
  assumes wf: "raft_wf s" and ret: "Snapshot c index data s = Inr s'" and ok: "leader_ok s"
  shows "leader_ok s'" and "set (m_logs s') \<subseteq> set (m_logs s)"
proof -
  show "leader_ok s'"
    by (rule leader_ok_frame [OF ok])
       (use ret wf Snapshot_wf_evolves [OF wf ret] in \<open>auto simp: Snapshot_spec raft_wf_def split: if_splits\<close>)
  show "set (m_logs s') \<subseteq> set (m_logs s)"
    using ret by (auto simp: Snapshot_spec [OF wf] cut_def dest: in_set_dropD split: if_splits)
qed

lemma InstallSnapshot_leader_ok:
  assumes wf: "raft_wf s" and ret: "InstallSnapshot c clk args s = Inr (s', r, ts)" and ok: "leader_ok s"
  shows "leader_ok s'" and "set (m_logs s') \<subseteq> set (m_logs s)"
proof -
  have "0 \<le> snapIndex s" using wf by (simp add: raft_wf_def)
  then show "leader_ok s'"
    using ret ok by (auto simp: InstallSnapshot_spec [OF wf] leader_ok_def split: if_splits)
  show "set (m_logs s') \<subseteq> set (m_logs s)"
    using ret by (auto simp: InstallSnapshot_spec [OF wf] cut_def dest: in_set_dropD split: if_splits)
qed

lemma doElection_leader_ok:
  assumes "electionTimeOutTicker c wake clk s = (s', cnt, ts)" and "leader_ok s"
  shows "leader_ok s'" and "m_logs s' = m_logs s"
  using assms(1) by (cases rule: electionTimeOutTicker_cases; use assms(2) in \<open>simp add: leader_ok_def\<close>)+

lemma Start_leader_ok:
  assumes wf: "raft_wf s" and ret: "Start c cmd s = (s', r)" and ok: "leader_ok s"
  shows "leader_ok s'"
  by (rule leader_ok_frame [OF ok])
     (use Start_wf_evolves [OF wf ret] ret in \<open>auto simp: Start_def Let_def split: if_splits\<close>)

lemma sendAppendEntries_leader_ok:
  assumes wf: "raft_wf s" and ok: "leader_ok s" and msg: "append_ok L D i s args (Some reply)"
    and srv: "server < m_peers s" and ret: "sendAppendEntries k server args reply cnt s = Inr (s', cnt')"
  shows "leader_ok s'" and "m_logs s' = m_logs s"
proof -
  from msg have r: "append_reply_ok args reply" and prev: "0 \<le> aea_prevlogindex args"
      "aea_prevlogindex args + int (length (aea_entries args)) \<le> getLastLogIndex s"
    by (simp_all add: append_ok_def)
  have "leader_ok s' \<and> m_logs s' = m_logs s"
    using ret
  proof (cases rule: sendAppendEntries_cases)
    case down
    with ok show ?thesis by (simp add: leader_ok_def)
  next
    case retreat
    with ok r prev show ?thesis
      by (auto simp: leader_ok_def next_ok_def append_reply_ok_def nth_list_update)
  next
    case (ack commit)
    with ok wf srv prev show ?thesis
      by (auto simp: leader_ok_def next_ok_def acked_def Let_def raft_wf_def nth_list_update)
  qed (use ok in simp)
  then show "leader_ok s'" and "m_logs s' = m_logs s" by simp_all
qed

lemma leaderSendSnapShot_reply_leader_ok:
  assumes ok: "leader_ok s" and idx: "0 \<le> isr_lastsnapshotincludeindex args"
      "isr_lastsnapshotincludeindex args \<le> getLastLogIndex s"
    and ret: "leaderSendSnapShot_reply c clk k server args trm s = Inr s'"
  shows "leader_ok s'" and "m_logs s' = m_logs s"
proof -
  have "leader_ok s' \<and> m_logs s' = m_logs s"
    using ret
  proof (cases rule: leaderSendSnapShot_reply_cases)
    case down
    with ok show ?thesis by (simp add: leader_ok_def)
  next
    case installed
    with ok idx show ?thesis by (auto simp: leader_ok_def next_ok_def nth_list_update)
  qed (use ok in simp)
  then show "leader_ok s'" and "m_logs s' = m_logs s" by simp_all
qed

lemma heartBeat_leader_ok:
  assumes ret: "doHeartBeat clk s = Inr (s', cnt, ts)" and ok: "leader_ok s"
  shows "leader_ok s'" and "m_logs s' = m_logs s"
  using doHeartBeat_state [OF ret] ok by (auto simp: leader_ok_def next_ok_def)

text \<open>The messages of a heartbeat round.\<close>

lemma heartBeat_spawn_inv:
  assumes wf: "raft_wf s" and ok: "leader_ok s" and me: "m_me s = int i" and sub: "set (m_logs s) \<subseteq> L"
    and ret: "doHeartBeat clk s = Inr (s', cnt, ts)" and ld: "m_status s = Leader \<Longrightarrow> D i (m_currentTerm s)"
    and sp: "sp \<in> set ts"
  shows "spawn_inv L D i s' sp"
  using wf ret
proof (cases rule: doHeartBeat_cases)
  case beat
  from wf have lw: "log_wf s" and snap: "0 \<le> snapIndex s" by (simp_all add: raft_wf_def)
  from sp beat(4) obtain j where j: "j \<in> set (otherPeers s)" "sp = heartBeatMsg s j" by auto
  let ?prev = "m_nextIndex s ! j - 1"
  show ?thesis
  proof (cases "m_nextIndex s ! j \<le> snapIndex s")
    case False
    with beat(5) j have b: "snapIndex s \<le> ?prev" "?prev \<le> getLastLogIndex s" by auto
    note slice = appendArgsFor_slice [OF lw b]
    have "?prev = 0 \<longrightarrow> aea_prevlogterm (appendArgsFor s ?prev) = 0"
      using slice(3) b snap ok by (auto simp: term_at_def leader_ok_def)
    then have "append_ok L D i s' (appendArgsFor s ?prev) None"
      using slice(2,4) b snap sub ld me beat(1,2) unfolding append_ok_def by (auto simp: appendArgsFor_def)
    with False j(2) show ?thesis by (simp add: spawn_inv_def heartBeatMsg_def)
  qed (simp add: j spawn_inv_def heartBeatMsg_def)
qed (use sp in simp)

section \<open>One event\<close>

lemma state_invD:
  assumes "state_inv L D n \<sigma>"
  shows "i < n \<Longrightarrow> leader_ok (nodes \<sigma> ! i)" and "i < n \<Longrightarrow> set (m_logs (nodes \<sigma> ! i)) \<subseteq> L"
    and "t \<in> set (threads \<sigma>) \<Longrightarrow> thread_inv L D \<sigma> t"
  using assms by (simp_all add: state_inv_def)

text \<open>A replica takes a step of its own; \<open>L\<close> already covers the logs after it.\<close>

lemma state_inv_evolve:
  assumes inv: "state_inv L D n \<sigma>" and wf: "well_formed n \<sigma>" and i: "i < n" and ev: "evolves (nodes \<sigma> ! i) s'"
    and ok: "leader_ok s'" and logs: "set (m_logs s') \<subseteq> L" and ts: "\<And>sp. sp \<in> set ts \<Longrightarrow> spawn_inv L D i s' sp"
  shows "state_inv L D n (fork i s' cnt ts \<sigma>)"
  using ev by (intro state_inv_fork [OF inv wfD(1) [OF wf] i ok logs _ _ ts]) (simp_all add: evolves_def advances_def)

lemma state_inv_evolve_call:
  assumes inv: "state_inv L D n \<sigma>" and wf: "well_formed n \<sigma>" and i: "i < n" and ev: "evolves (nodes \<sigma> ! i) s'"
    and ok: "leader_ok s'" and logs: "set (m_logs s') \<subseteq> L" and ts: "\<And>sp. sp \<in> set ts \<Longrightarrow> spawn_inv L D i s' sp"
    and k: "k < length (threads \<sigma>)"
    and call: "thread_inv L D (fork i s' None ts \<sigma>) ((threads \<sigma> ! k)\<lparr>th_call := x\<rparr>)"
  shows "state_inv L D n (set_call k x (fork i s' None ts \<sigma>))"
  using call k by (intro state_inv_set_call state_inv_evolve [OF inv wf i ev ok logs ts]) (simp_all add: nth_append)

lemma thread_inv_fork:
  assumes inv: "thread_inv L D \<sigma> t" and wf: "well_formed n \<sigma>" and ev: "evolves (nodes \<sigma> ! i) s'" and i: "i < n"
  shows "thread_inv L D (fork i s' cnt ts \<sigma>) t"
  by (rule thread_inv_mono [OF inv])
     (use ev wfD(1) [OF wf] i in \<open>cases "th_src t = i"; simp add: evolves_def advances_def\<close>)+

lemma no_append_spawn: "(\<And>d args. sp \<noteq> SendAppendEntries d args) \<Longrightarrow> spawn_inv L D i s sp"
  by (simp add: spawn_inv_def)

lemma state_inv_deliver:
  assumes inv: "state_inv L D n \<sigma>" and wf: "well_formed n \<sigma>" and k: "k < length (threads \<sigma>)"
    and ret: "deliver c k clk \<sigma> = Inr \<sigma>'"
  shows "state_inv L D n \<sigma>'"
proof -
  let ?t = "threads \<sigma> ! k" let ?d = "th_dst ?t"
  have t: "?t \<in> set (threads \<sigma>)" using k by simp
  note d = wfD(7) [OF wf t] and tok = wfD(5) [OF wf t] and tinv = state_invD(3) [OF inv t]
  note rwf = wfD(2) [OF wf d] and ok = state_invD(1,2) [OF inv d]
  from wf k ret show ?thesis
  proof (cases rule: deliver_cases)
    case (vote args r s' reply)
    have "evolves (nodes \<sigma> ! ?d) s'" using RequestVote_wf_evolves [OF rwf vote(2)] by simp
    moreover have "set (m_logs s') \<subseteq> L" using ok(2) RequestVote_log [OF vote(2)] by simp
    ultimately show ?thesis unfolding vote(3)
      by (intro state_inv_evolve_call [OF inv wf d _ RequestVote_leader_ok [OF rwf vote(2) ok(1)] _ _ k])
         (simp_all add: thread_inv_def)
  next
    case (append args r s' reply)
    from tok append(1) have num: "numbered logindex (aea_prevlogindex args) (aea_entries args)"
      by (simp add: thread_ok_def)
    from tinv append(1) have a: "append_ok L D (th_src ?t) (nodes \<sigma> ! th_src ?t) args r" by (simp add: thread_inv_def)
    have ev: "evolves (nodes \<sigma> ! ?d) s'" using AppendEntries1_wf_evolves [OF rwf num append(2)] by simp
    have logs: "set (m_logs s') \<subseteq> L"
      using AppendEntries1_logs_from [OF rwf num append(2)] ok(2) a by (auto simp: append_ok_def)
    have "append_reply_ok args reply"
      using AppendEntries1_reply_ok [OF rwf num append(2) ok(1)] a by (simp add: append_ok_def)
    with a have "thread_inv L D \<sigma> (?t\<lparr>th_call := AppendCall args (Some reply)\<rparr>)"
      by (simp add: thread_inv_def append_ok_def)
    from thread_inv_fork [OF this wf ev d] ev logs show ?thesis unfolding append(3)
      by (intro state_inv_evolve_call [OF inv wf d _ AppendEntries1_leader_ok [OF rwf num append(2) ok(1)] _ _ k]) simp_all
  next
    case (snap args r s' reply ts)
    have ev: "evolves (nodes \<sigma> ! ?d) s'" using InstallSnapshot_wf_evolves [OF rwf snap(2)] by simp
    have logs: "set (m_logs s') \<subseteq> L" using ok InstallSnapshot_leader_ok(2) [OF rwf snap(2)] by blast
    have sp: "spawn_inv L D ?d s' sp" if "sp \<in> set ts" for sp
      using that snap(2) by (auto simp: InstallSnapshot_spec [OF rwf] spawn_inv_def split: if_splits)
    have "thread_inv L D \<sigma> (?t\<lparr>th_call := SnapCall args (Some reply)\<rparr>)"
      using tinv snap(1) by (simp add: thread_inv_def)
    from thread_inv_fork [OF this wf ev d] ev logs sp show ?thesis unfolding snap(3)
      by (intro state_inv_evolve_call [OF inv wf d _ InstallSnapshot_leader_ok(1) [OF rwf snap(2) ok(1)] _ _ k]) simp_all
  qed (use inv in simp)
qed

lemma state_inv_empty:
  assumes inv: "state_inv L D n \<sigma>" and k: "k < length (threads \<sigma>)"
  shows "state_inv L D n (empty_reply k \<sigma>)"
proof -
  have t: "thread_inv L D \<sigma> (threads \<sigma> ! k)" using state_invD(3) [OF inv] k by simp
  show ?thesis
  proof (cases rule: empty_reply_cases [of \<sigma> k])
    case (append args r)
    with t show ?thesis
      by (auto intro!: state_inv_set_call [OF inv]
          simp: thread_inv_def append_ok_def append_reply_ok_def AppendEntriesReply0_def Disconnected_def)
  qed (use inv t in \<open>auto intro!: state_inv_set_call simp: thread_inv_def\<close>)
qed


lemma state_inv_finish:
  assumes inv: "state_inv L D n \<sigma>" and wf: "well_formed n \<sigma>" and k: "k < length (threads \<sigma>)"
    and ld: "\<And>i. i < n \<Longrightarrow> m_status (nodes \<sigma> ! i) = Leader \<Longrightarrow> D i (m_currentTerm (nodes \<sigma> ! i))"
    and ret: "finish c k clk got \<sigma> = Inr \<sigma>'"
  shows "state_inv L D n \<sigma>'"
proof -
  let ?t = "threads \<sigma> ! k" let ?i = "th_src ?t"
  have t: "?t \<in> set (threads \<sigma>)" using k by simp
  note i = wfD(6) [OF wf t] and d = wfD(7) [OF wf t] and tinv = state_invD(3) [OF inv t]
  note rwf = wfD(2) [OF wf i] and ok = state_invD(1,2) [OF inv i] and me = wfD(3,4) [OF wf i]
  have ended: "state_inv L D n (end_thread k \<sigma>)" "state_inv L D n ((end_thread k \<sigma>)\<lparr>cells := cs\<rparr>)"
      "length (nodes (end_thread k \<sigma>)) = n" "length (nodes ((end_thread k \<sigma>)\<lparr>cells := cs\<rparr>)) = n" for cs
    by (rule state_inv_sub [OF inv]; auto dest: in_set_takeD in_set_dropD)+ (simp_all add: wfD(1) [OF wf])
  from ret show ?thesis
  proof (cases rule: finish_cases)
    case (vote args r okk reply s' v ts)
    have "spawn_inv L D ?i s' sp" if "sp \<in> set ts" for sp
      using rwf vote(3) by (cases rule: sendRequestVote_cases) (use that in \<open>auto simp: spawn_inv_def\<close>)
    moreover have "leader_ok s' \<and> set (m_logs s') \<subseteq> L \<and> m_currentTerm (nodes \<sigma> ! ?i) \<le> m_currentTerm s' \<and>
        getLastLogIndex (nodes \<sigma> ! ?i) \<le> getLastLogIndex s'"
      using rwf vote(3)
    proof (cases rule: sendRequestVote_cases)
      case down
      then show ?thesis using ok by (simp add: leader_ok_def)
    qed (use ok leader_ok_won [OF rwf] in simp_all)
    ultimately show ?thesis unfolding vote(4) by (intro state_inv_fork [OF ended(2,4) i]) simp_all
  next
    case (append args r okk reply s' v)
    from tinv append(1) have a: "append_ok L D ?i (nodes \<sigma> ! ?i) args r" by (simp add: thread_inv_def)
    have s': "leader_ok s' \<and> m_logs s' = m_logs (nodes \<sigma> ! ?i)"
    proof (cases r)
      case None
      then have "s' = nodes \<sigma> ! ?i" using append(2,3) by (auto simp: answer_def sendAppendEntries_def)
      then show ?thesis using ok by simp
    next
      case (Some rep)
      then have "reply = rep" using append(2) by (simp add: answer_def)
      with Some a have "append_ok L D ?i (nodes \<sigma> ! ?i) args (Some reply)" by simp
      from sendAppendEntries_leader_ok [OF rwf ok(1) this _ append(3)] d me show ?thesis by simp
    qed
    have "evolves (nodes \<sigma> ! ?i) s'" using sendAppendEntries_wf_evolves [OF rwf append(3)] by simp
    with s' ok(2) show ?thesis unfolding append(4)
      by (intro state_inv_fork [OF ended(2,4) i]) (simp_all add: evolves_def advances_def)
  next
    case (snap_begin s' args)
    have ev: "evolves (nodes \<sigma> ! ?i) s'" using leaderSendSnapShot_args_wf_evolves [OF rwf snap_begin(2)] by simp
    have s': "leader_ok s'" "m_logs s' = m_logs (nodes \<sigma> ! ?i)" "isr_lastsnapshotincludeindex args = snapIndex s'"
      using snap_begin(2) ok(1) by (auto simp: leaderSendSnapShot_args_def leader_ok_def next_ok_def split: prod.splits)
    have "raft_wf s'" using leaderSendSnapShot_args_wf_evolves [OF rwf snap_begin(2)] by simp
    then have "0 \<le> isr_lastsnapshotincludeindex args" "isr_lastsnapshotincludeindex args \<le> getLastLogIndex s'"
      using s'(3) getLastLogIndex_ge by (simp_all add: raft_wf_def)
    then have "thread_inv L D (fork ?i s' None [] \<sigma>) (?t\<lparr>th_call := SnapCall args None\<rparr>)"
      using i wfD(1) [OF wf] by (simp add: thread_inv_def)
    with ev s' ok(2) k show ?thesis unfolding snap_begin(3)
      by (intro state_inv_evolve_call [OF inv wf i ev]) simp_all
  next
    case (snap args r okk reply s')
    from tinv snap(1) have "0 \<le> isr_lastsnapshotincludeindex args"
      "isr_lastsnapshotincludeindex args \<le> getLastLogIndex (nodes \<sigma> ! ?i)" by (simp_all add: thread_inv_def)
    note s' = leaderSendSnapShot_reply_leader_ok [OF ok(1) this snap(3)]
    have "evolves (nodes \<sigma> ! ?i) s'" using leaderSendSnapShot_reply_wf_evolves [OF rwf snap(3)] by simp
    with s' ok(2) show ?thesis unfolding snap(4)
      by (intro state_inv_fork [OF ended(1,3) i]) (simp_all add: evolves_def advances_def)
  next
    case (beat s' cnt ts)
    note s' = heartBeat_leader_ok [OF beat(2) ok(1)]
    have "evolves (nodes \<sigma> ! ?i) s'" using doHeartBeat_wf_evolves [OF rwf beat(2)] by simp
    moreover have "spawn_inv L D ?i s' sp" if "sp \<in> set ts" for sp
      using heartBeat_spawn_inv [OF rwf ok(1) me(1) ok(2) beat(2), of D] ld [OF i] that by simp
    ultimately show ?thesis unfolding beat(3) using s' ok(2)
      by (intro state_inv_fork [OF ended(1,3) i]) (simp_all add: evolves_def advances_def)
  next
    case (push msg)
    show ?thesis unfolding push(2) using ok
      by (intro state_inv_fork [OF ended(1,3) i]) (simp_all add: pushMsgToKvServer_def leader_ok_def next_ok_def)
  qed
qed

lemma state_inv_exec:
  assumes inv: "state_inv L D n \<sigma>" and wf: "well_formed n \<sigma>"
    and ld: "\<And>i. i < n \<Longrightarrow> m_status (nodes \<sigma> ! i) = Leader \<Longrightarrow> D i (m_currentTerm (nodes \<sigma> ! i))"
    and ret: "exec c e \<sigma> = Inr \<sigma>'"
    and new: "\<And>i cmd s' r. i < n \<Longrightarrow> Start c cmd (nodes \<sigma> ! i) = (s', r) \<Longrightarrow> nodes \<sigma>' = (nodes \<sigma>)[i := s'] \<Longrightarrow>
      set (m_logs s') \<subseteq> L"
  shows "state_inv L D n \<sigma>'"
proof -
  note len = wfD(1) [OF wf] and rwf = wfD(2) [OF wf] and ok = state_invD(1,2) [OF inv]
  from ret show ?thesis
  proof (cases rule: exec_cases)
    case (timeout i wake clk s' cnt ts)
    with len have i: "i < n" by simp
    have "evolves (nodes \<sigma> ! i) s'" using electionTimeOutTicker_wf_evolves [OF rwf [OF i] timeout(2)] by simp
    moreover have "spawn_inv L D i s' sp" if "sp \<in> set ts" for sp
      using timeout(2) by (cases rule: electionTimeOutTicker_cases) (use that in \<open>auto simp: spawn_inv_def\<close>)
    ultimately show ?thesis unfolding timeout(3)
      using doElection_leader_ok [OF timeout(2) ok(1) [OF i]] ok(2) [OF i] by (intro state_inv_evolve [OF inv wf i]) simp_all
  next
    case (beat i clk s' cnt ts)
    with len have i: "i < n" by simp
    have "evolves (nodes \<sigma> ! i) s'" using doHeartBeat_wf_evolves [OF rwf [OF i] beat(2)] by simp
    then show ?thesis unfolding beat(3)
      using heartBeat_leader_ok [OF beat(2) ok(1) [OF i]] ok(2) [OF i]
        heartBeat_spawn_inv [OF rwf [OF i] ok(1) [OF i] wfD(3) [OF wf i] ok(2) [OF i] beat(2), of D] ld [OF i]
      by (intro state_inv_evolve [OF inv wf i]) simp_all
  next
    case (start i cmd s' r)
    with len have i: "i < n" by simp
    have "evolves (nodes \<sigma> ! i) s'" using Start_wf_evolves [OF rwf [OF i] start(2)] by simp
    then show ?thesis unfolding start(3)
      using Start_leader_ok [OF rwf [OF i] start(2) ok(1) [OF i]] new [OF i start(2)] start(3)
      by (intro state_inv_evolve [OF inv wf i]) simp_all
  next
    case (applied i s')
    with len have i: "i < n" by simp
    have "evolves (nodes \<sigma> ! i) s'" using applierTicker_wf_evolves [OF rwf [OF i] applied(2)] by simp
    moreover have "leader_ok s'" "m_logs s' = m_logs (nodes \<sigma> ! i)"
      using applied(2) ok(1) [OF i] by (auto simp: applierTicker_spec [OF rwf [OF i]] leader_ok_def next_ok_def)
    ultimately show ?thesis unfolding applied(3) using ok(2) [OF i] by (intro state_inv_evolve [OF inv wf i]) simp_all
  next
    case (compact i index data s')
    with len have i: "i < n" by simp
    have "evolves (nodes \<sigma> ! i) s'" using Snapshot_wf_evolves [OF rwf [OF i] compact(2)] by simp
    then show ?thesis unfolding compact(3)
      using Snapshot_leader_ok [OF rwf [OF i] compact(2) ok(1) [OF i]] ok(2) [OF i]
      by (intro state_inv_evolve [OF inv wf i]) auto
  next
    case (deliver k clk)
    then show ?thesis by (rule state_inv_deliver [OF inv wf])
  next
    case (empty k)
    then show ?thesis using state_inv_empty [OF inv] by simp
  next
    case (finish k clk got)
    then show ?thesis using state_inv_finish [OF inv wf _ ld] by blast
  qed (use inv in simp)
qed


section \<open>Entries of a run\<close>

definition logged :: "cluster list \<Rightarrow> logEntry set" where
  "logged tr = (\<Union>\<sigma> \<in> set tr. \<Union>s \<in> set (nodes \<sigma>). set (m_logs s))"

lemma logged_Cons: "logged (\<sigma> # tr) = (\<Union>s \<in> set (nodes \<sigma>). set (m_logs s)) \<union> logged tr"
  by (simp add: logged_def)

text \<open>Every entry was created by the leader of its term, and that leader's log has not shrunk since.\<close>

definition origins :: "nat \<Rightarrow> cluster list \<Rightarrow> bool" where
  "origins n tr \<longleftrightarrow> (\<forall>e \<in> logged tr. \<exists>i < n. led tr i (logterm e) \<and>
     (m_status (nodes (hd tr) ! i) = Leader \<longrightarrow> m_currentTerm (nodes (hd tr) ! i) = logterm e \<longrightarrow>
      logindex e \<le> getLastLogIndex (nodes (hd tr) ! i)))"

definition unique_entries :: "logEntry set \<Rightarrow> bool" where
  "unique_entries L \<longleftrightarrow> (\<forall>e \<in> L. \<forall>e' \<in> L. logindex e = logindex e' \<longrightarrow> logterm e = logterm e' \<longrightarrow> e = e')"

definition log_inv :: "nat \<Rightarrow> cluster list \<Rightarrow> bool" where
  "log_inv n tr \<longleftrightarrow> state_inv (logged tr) (led tr) n (hd tr) \<and> origins n tr \<and> unique_entries (logged tr)"

lemma state_inv_logs:
  assumes "state_inv L D n \<sigma>" and "length (nodes \<sigma>) = n"
  shows "(\<Union>s \<in> set (nodes \<sigma>). set (m_logs s)) \<subseteq> L"
proof -
  have "\<forall>s \<in> set (nodes \<sigma>). set (m_logs s) \<subseteq> L"
    using assms by (simp add: all_set_conv_all_nth state_inv_def)
  then show ?thesis by blast
qed

text \<open>Only \<open>Start\<close> at a leader creates an entry.\<close>

lemma exec_new_entry:
  assumes inv: "state_inv L D n \<sigma>" and wf: "well_formed n \<sigma>"
    and ld: "\<forall>i < n. m_status (nodes \<sigma> ! i) = Leader \<longrightarrow> D i (m_currentTerm (nodes \<sigma> ! i))"
    and ret: "exec c e \<sigma> = Inr \<sigma>'"
  obtains (old) "(\<Union>s \<in> set (nodes \<sigma>'). set (m_logs s)) \<subseteq> L"
  | (new) i en where "i < n" "m_status (nodes \<sigma> ! i) = Leader" "logterm en = m_currentTerm (nodes \<sigma> ! i)"
      "logindex en = getLastLogIndex (nodes \<sigma> ! i) + 1" "(\<Union>s \<in> set (nodes \<sigma>'). set (m_logs s)) \<subseteq> insert en L"
      "m_currentTerm (nodes \<sigma>' ! i) = m_currentTerm (nodes \<sigma> ! i)"
      "getLastLogIndex (nodes \<sigma>' ! i) = getLastLogIndex (nodes \<sigma> ! i) + 1"
proof -
  have len': "length (nodes \<sigma>') = n" using wfD(1) [OF well_formed_exec [OF wf ret]] .
  show thesis
  proof (cases "\<exists>i cmd s' r. i < n \<and> Start c cmd (nodes \<sigma> ! i) = (s', r) \<and> nodes \<sigma>' = (nodes \<sigma>)[i := s'] \<and>
      \<not> set (m_logs s') \<subseteq> L")
    case False
    then have "state_inv L D n \<sigma>'" using state_inv_exec [OF inv wf _ ret] ld by blast
    then show thesis using len' by (intro old state_inv_logs)
  next
    case True
    then obtain i cmd s' r where i: "i < n" and st: "Start c cmd (nodes \<sigma> ! i) = (s', r)"
      and upd: "nodes \<sigma>' = (nodes \<sigma>)[i := s']" and nl: "\<not> set (m_logs s') \<subseteq> L" by blast
    let ?s = "nodes \<sigma> ! i"
    let ?e = "\<lparr>command = asString c cmd, logterm = m_currentTerm ?s, logindex = getNewCommandIndex ?s\<rparr>"
    from nl st state_invD(2) [OF inv i] have ldr: "m_status ?s = Leader" by (auto simp: Start_def split: if_splits)
    with st have s': "s' = persist c (?s\<lparr>m_logs := m_logs ?s @ [?e]\<rparr>)" by (simp add: Start_def Let_def)
    have "set (m_logs (nodes \<sigma>' ! j)) \<subseteq> insert ?e L" if "j < n" for j
      using state_invD(2) [OF inv that] wfD(1) [OF wf] upd s' that by (cases "j = i") auto
    then have "\<forall>s \<in> set (nodes \<sigma>'). set (m_logs s) \<subseteq> insert ?e L" using len' by (simp add: all_set_conv_all_nth)
    then have "(\<Union>s \<in> set (nodes \<sigma>'). set (m_logs s)) \<subseteq> insert ?e L" by blast
    moreover have "nodes \<sigma>' ! i = s'" using upd i wfD(1) [OF wf] by simp
    ultimately show thesis
      using i ldr s' by (intro new [of i ?e]) (simp_all add: getNewCommandIndex_def lastlog_defs)
  qed
qed

lemma origin_keeps:
  assumes einv: "election_inv n (\<sigma> # tr)" and wf: "well_formed n \<sigma>" and step: "vote_step c n \<sigma> \<sigma>'"
    and i: "i < n" and l: "led (\<sigma> # tr) i T"
    and old: "m_status (nodes \<sigma> ! i) = Leader \<longrightarrow> m_currentTerm (nodes \<sigma> ! i) = T \<longrightarrow> k \<le> getLastLogIndex (nodes \<sigma> ! i)"
  shows "led (\<sigma>' # \<sigma> # tr) i T \<and> (m_status (nodes \<sigma>' ! i) = Leader \<longrightarrow> m_currentTerm (nodes \<sigma>' ! i) = T \<longrightarrow>
    k \<le> getLastLogIndex (nodes \<sigma>' ! i))"
proof -
  have "k \<le> getLastLogIndex (nodes \<sigma>' ! i)"
    if s': "m_status (nodes \<sigma>' ! i) = Leader" "m_currentTerm (nodes \<sigma>' ! i) = T"
    using vote_step_node [OF wf step i]
  proof
    assume "evolves (nodes \<sigma> ! i) (nodes \<sigma>' ! i)"
    with s' old show ?thesis by (auto simp: evolves_def advances_def)
  next
    assume "\<exists>xs t ys. wins c n \<sigma> \<sigma>' xs t ys \<and> th_src t = i"
    then obtain xs t ys where w: "wins c n \<sigma> \<sigma>' xs t ys" "th_src t = i" by blast
    have "m_currentTerm (nodes \<sigma> ! i) = T" using s'(2) wins_node [OF wf w(1) i] w(2) by simp
    with wins_quorum(1) [OF einv wf w(1)] w(2) l show ?thesis by simp
  qed
  with l show ?thesis by (simp add: led_Cons [of \<sigma>'])
qed

lemma log_inv_step:
  assumes einv: "election_inv n (\<sigma> # tr)" and wf: "well_formed n \<sigma>" and inv: "log_inv n (\<sigma> # tr)"
    and ret: "exec c e \<sigma> = Inr \<sigma>'"
  shows "log_inv n (\<sigma>' # \<sigma> # tr)"
proof -
  note step = vote_step_exec [OF wf ret]
  let ?L = "logged (\<sigma> # tr)" and ?L' = "logged (\<sigma>' # \<sigma> # tr)" and ?D = "led (\<sigma> # tr)" and ?D' = "led (\<sigma>' # \<sigma> # tr)"
  have sinv: "state_inv ?L ?D n \<sigma>" and orig: "origins n (\<sigma> # tr)" and uniq: "unique_entries ?L"
    using inv by (simp_all add: log_inv_def)
  have ld: "\<forall>i < n. m_status (nodes \<sigma> ! i) = Leader \<longrightarrow> ?D i (m_currentTerm (nodes \<sigma> ! i))"
    by (simp add: led_Cons)
  have len': "length (nodes \<sigma>') = n" using wfD(1) [OF well_formed_exec [OF wf ret]] .
  have "state_inv ?L' ?D' n \<sigma>"
    using sinv by (rule state_inv_mono) (auto simp: logged_Cons led_Cons)
  moreover have "set (m_logs s') \<subseteq> ?L'" if "i < n" "nodes \<sigma>' = (nodes \<sigma>)[i := s']" for i s'
  proof -
    have "s' \<in> set (nodes \<sigma>')" using that len' by (simp add: set_update_memI)
    then show ?thesis by (auto simp: logged_Cons [of \<sigma>'])
  qed
  ultimately have s: "state_inv ?L' ?D' n \<sigma>'"
    by (intro state_inv_exec [OF _ wf _ ret]) (auto simp: led_Cons)
  have keep: "\<exists>i < n. ?D' i (logterm x) \<and> (m_status (nodes \<sigma>' ! i) = Leader \<longrightarrow>
      m_currentTerm (nodes \<sigma>' ! i) = logterm x \<longrightarrow> logindex x \<le> getLastLogIndex (nodes \<sigma>' ! i))" if "x \<in> ?L" for x
    using orig that origin_keeps [OF einv wf step] unfolding origins_def list.sel by metis
  have "origins n (\<sigma>' # \<sigma> # tr) \<and> unique_entries ?L'"
    using sinv wf ld ret
  proof (cases rule: exec_new_entry)
    case old
    then have "?L' = ?L" by (auto simp: logged_Cons [of \<sigma>'])
    with keep uniq show ?thesis by (simp add: origins_def)
  next
    case (new i en)
    then have sub: "?L' \<subseteq> insert en ?L" by (auto simp: logged_Cons [of \<sigma>'])
    have fresh: "\<not> (x \<in> ?L \<and> logindex x = logindex en \<and> logterm x = logterm en)" for x
    proof
      assume x: "x \<in> ?L \<and> logindex x = logindex en \<and> logterm x = logterm en"
      then obtain j where j: "j < n" "?D j (logterm x)" "m_status (nodes \<sigma> ! j) = Leader \<longrightarrow>
          m_currentTerm (nodes \<sigma> ! j) = logterm x \<longrightarrow> logindex x \<le> getLastLogIndex (nodes \<sigma> ! j)"
        using orig unfolding origins_def list.sel by blast
      with x new ld one_leader [OF einv, of j "logterm en" i] have "j = i" by auto
      with j x new show False by simp
    qed
    have "\<exists>j < n. ?D' j (logterm en) \<and> (m_status (nodes \<sigma>' ! j) = Leader \<longrightarrow>
        m_currentTerm (nodes \<sigma>' ! j) = logterm en \<longrightarrow> logindex en \<le> getLastLogIndex (nodes \<sigma>' ! j))"
      using new ld by (intro exI [of _ i]) (simp add: led_Cons [of \<sigma>'])
    with keep sub have "origins n (\<sigma>' # \<sigma> # tr)" unfolding origins_def list.sel by blast
    moreover have "unique_entries (insert en ?L)"
      using uniq fresh unfolding unique_entries_def by (metis insert_iff)
    then have "unique_entries ?L'" using sub unfolding unique_entries_def by blast
    ultimately show ?thesis by blast
  qed
  with s show ?thesis by (simp add: log_inv_def)
qed

lemma log_inv_boot: "log_inv n [boot clk n]"
  by (auto simp: log_inv_def state_inv_def logged_def boot_def newRaft_def leader_ok_def origins_def unique_entries_def)

lemma run_log_inv: "run c n clk tr \<Longrightarrow> log_inv n tr"
proof (induction rule: run.induct)
  case run_boot
  show ?case by (rule log_inv_boot)
next
  case (run_exec \<sigma> tr e \<sigma>')
  then have "well_formed n \<sigma>" using run_well_formed [of c n clk "\<sigma> # tr"] by simp
  from log_inv_step [OF run_election_inv [OF run_exec.hyps(1)] this run_exec.IH run_exec.hyps(2)] show ?case .
qed


section \<open>Assertions\<close>

lemma doHeartBeat_total:
  assumes "raft_wf s" and "leader_ok s"
  shows "\<exists>r. doHeartBeat clk s = Inr r"
proof (cases "m_status s = Leader")
  case True
  with assms doHeartBeat_ok [of s clk] show ?thesis by (auto simp: leader_ok_def)
qed (simp add: doHeartBeat_def)

lemma sendAppendEntries_total:
  assumes wf: "raft_wf s" and ok: "leader_ok s" and srv: "server < m_peers s"
    and msg: "k \<longrightarrow> append_ok L D i s args (Some reply)"
  shows "\<exists>r. sendAppendEntries k server args reply cnt s = Inr r"
proof (cases "k \<and> aer_appstate reply \<noteq> Disconnected \<and> aer_term reply = m_currentTerm s \<and> m_status s = Leader")
  case True
  let ?sent = "aea_prevlogindex args + int (length (aea_entries args))"
  from wf srv have len: "server < length (m_matchIndex s)" "server < length (m_nextIndex s)"
    by (simp_all add: raft_wf_def)
  have m: "max (m_matchIndex s ! server) ?sent \<le> getLastLogIndex s"
    using True msg ok srv by (simp add: leader_ok_def append_ok_def)
  have "m_commitIndex s \<le> getLastLogIndex s" using wf by (simp add: raft_wf_def)
  with True len m show ?thesis
    by (auto simp: sendAppendEntries_def Let_def vset_def rbind_myAssert)
next
  case False
  then show ?thesis by (auto simp: sendAppendEntries_def)
qed

lemma leaderSendSnapShot_reply_total:
  assumes "raft_wf s" and "server < m_peers s"
  shows "\<exists>s'. leaderSendSnapShot_reply c clk k server args trm s = Inr s'"
  using assms by (auto simp: leaderSendSnapShot_reply_def vset_def raft_wf_def)

text \<open>The answer of a voter never makes its candidate leader a second time.\<close>

lemma sendRequestVote_total:
  assumes einv: "election_inv n (\<sigma> # tr)" and wf: "well_formed n \<sigma>" and t: "t \<in> set (vote_threads \<sigma>)"
    and call: "th_call t = VoteCall args r" and ok: "ok \<longrightarrow> r = Some reply"
  shows "\<exists>x. sendRequestVote c ok reply (cells \<sigma> ! th_cell t) (nodes \<sigma> ! th_src t) = Inr x"
proof (rule ccontr)
  assume nx: "\<nexists>x. sendRequestVote c ok reply (cells \<sigma> ! th_cell t) (nodes \<sigma> ! th_src t) = Inr x"
  have "th_src t < n" using t wfD(6) [OF wf] by simp
  note rwf = wfD(2) [OF wf this] and peers = wfD(4) [OF wf this]
  from nx obtain f where "sendRequestVote c ok reply (cells \<sigma> ! th_cell t) (nodes \<sigma> ! th_src t) = Inl f"
    by (metis sum.exhaust)
  then have bad: "ok" "rvr_votegranted reply" "rvr_term reply = m_currentTerm (nodes \<sigma> ! th_src t)"
      "m_status (nodes \<sigma> ! th_src t) = Leader" "cells \<sigma> ! th_cell t + 1 \<ge> int (n div 2 + 1)"
    using sendRequestVote_fails [OF rwf] peers by blast+
  from t obtain xs ys where th: "vote_threads \<sigma> = xs @ t # ys" by (metis in_set_conv_decomp)
  have "k_term (key_of t) = m_currentTerm (nodes \<sigma> ! th_src t)"
    using counted_vote(1) [OF einv th _ bad(2)] call ok bad(1,3) by simp
  then have "led (\<sigma> # tr) (th_src t) (k_term (key_of t))" using bad(4) by (simp add: led_Cons)
  from counted_open_or_closed(1) [OF einv wf th this] bad(5) show False by linarith
qed

lemma finish_total:
  assumes einv: "election_inv n (\<sigma> # tr)" and wf: "well_formed n \<sigma>" and inv: "state_inv L D n \<sigma>"
    and k: "k < length (threads \<sigma>)"
  shows "\<exists>\<sigma>'. finish c k clk got \<sigma> = Inr \<sigma>'"
proof -
  let ?t = "threads \<sigma> ! k" let ?s = "nodes \<sigma> ! th_src ?t"
  have t: "?t \<in> set (threads \<sigma>)" using k by simp
  note i = wfD(6) [OF wf t] and d = wfD(7) [OF wf t] and tinv = state_invD(3) [OF inv t]
  note rwf = wfD(2) [OF wf i] and ok = state_invD(1) [OF inv i] and peers = wfD(4) [OF wf i]
  show ?thesis
  proof (cases "th_call ?t")
    case (VoteCall args r)
    obtain okk reply where a: "answer got RequestVoteReply0 r = (okk, reply)" by fastforce
    have "?t \<in> set (vote_threads \<sigma>)" using t VoteCall by (simp add: is_vote_def)
    moreover have "okk \<longrightarrow> r = Some reply" using a by (auto simp: answer_Some)
    ultimately obtain x where "sendRequestVote c okk reply (cells \<sigma> ! th_cell ?t) ?s = Inr x"
      using sendRequestVote_total [OF einv wf _ VoteCall] by blast
    then show ?thesis using VoteCall a
      by (cases x) (auto simp: finish_def Let_def answer_def [symmetric])
  next
    case (AppendCall args r)
    obtain okk reply where a: "answer got AppendEntriesReply0 r = (okk, reply)" by fastforce
    have "okk \<longrightarrow> append_ok L D (th_src ?t) ?s args (Some reply)"
      using a tinv AppendCall by (auto simp: answer_Some thread_inv_def)
    then obtain x where "sendAppendEntries okk (th_dst ?t) args reply (cells \<sigma> ! th_cell ?t) ?s = Inr x"
      using sendAppendEntries_total [OF rwf ok] d peers by metis
    then show ?thesis using AppendCall a
      by (cases x) (auto simp: finish_def Let_def answer_def [symmetric])
  next
    case (SnapCall args r)
    obtain okk reply where a: "answer got 0 r = (okk, reply)" by fastforce
    obtain x where "leaderSendSnapShot_reply c clk okk (th_dst ?t) args reply ?s = Inr x"
      using leaderSendSnapShot_reply_total [OF rwf] d peers by metis
    then show ?thesis using SnapCall a by (auto simp: finish_def Let_def answer_def [symmetric])
  next
    case HeartBeat
    with doHeartBeat_total [OF rwf ok, of clk] show ?thesis by (auto simp: finish_def Let_def)
  qed (auto simp: finish_def Let_def split: prod.splits)
qed

text \<open>The one failure: a position inside the receiver's snapshot.\<close>

definition behind_snapshot :: "cluster \<Rightarrow> nat \<Rightarrow> bool" where
  "behind_snapshot \<sigma> k \<longleftrightarrow> (\<exists>args r. th_call (threads \<sigma> ! k) = AppendCall args r \<and>
     aea_prevlogindex args < snapIndex (nodes \<sigma> ! th_dst (threads \<sigma> ! k)) \<and>
     m_currentTerm (nodes \<sigma> ! th_dst (threads \<sigma> ! k)) \<le> aea_term args)"

lemma deliver_fails:
  assumes wf: "well_formed n \<sigma>" and inv: "state_inv L D n \<sigma>" and uniq: "unique_entries L"
    and k: "k < length (threads \<sigma>)" and bad: "deliver c k clk \<sigma> = Inl f"
  shows "behind_snapshot \<sigma> k \<and> f = AssertFailed ''matchLog''"
proof -
  let ?t = "threads \<sigma> ! k" let ?s = "nodes \<sigma> ! th_dst ?t"
  have t: "?t \<in> set (threads \<sigma>)" using k by simp
  note d = wfD(7) [OF wf t] and tok = wfD(5) [OF wf t] and tinv = state_invD(3) [OF inv t]
  note rwf = wfD(2) [OF wf d] and logs = state_invD(2) [OF inv d]
  show ?thesis
  proof (cases "th_call ?t")
    case (VoteCall args r)
    then show ?thesis using bad RequestVote_total [of c clk args ?s] by (auto simp: deliver_def Let_def)
  next
    case (AppendCall args r)
    then have ae: "AppendEntries1 c clk args ?s = Inl f"
      using bad by (cases "AppendEntries1 c clk args ?s") (auto simp: deliver_def Let_def)
    from tok AppendCall have num: "numbered logindex (aea_prevlogindex args) (aea_entries args)" by (simp add: thread_ok_def)
    from tinv AppendCall have sub: "set (aea_entries args) \<subseteq> L" by (simp add: thread_inv_def append_ok_def)
    from rwf have lw: "log_wf ?s" and cm: "m_commitIndex ?s \<le> getLastLogIndex ?s" by (simp_all add: raft_wf_def)
    have "no_conflict (aea_entries args) ?s"
      using uniq sub logs entry_at_index [OF lw] entry_at_mem [of ?s]
      unfolding no_conflict_def unique_entries_def by (metis subsetD)
    with AppendEntries1_returns_iff [OF lw cm num, of c clk] ae
    have "\<not> aea_term args < m_currentTerm ?s" "\<not> getLastLogIndex ?s < aea_prevlogindex args"
        "aea_prevlogindex args < snapIndex ?s" by auto
    with AppendEntries1_in_snapshot [of ?s args c clk] ae AppendCall show ?thesis
      by (auto simp: behind_snapshot_def)
  next
    case (SnapCall args r)
    then show ?thesis using bad by (auto simp: deliver_def Let_def InstallSnapshot_spec [OF rwf] split: if_splits)
  qed (use bad in \<open>simp_all add: deliver_def Let_def\<close>)
qed

lemma exec_fails:
  assumes einv: "election_inv n (\<sigma> # tr)" and wf: "well_formed n \<sigma>" and inv: "log_inv n (\<sigma> # tr)"
    and bad: "exec c e \<sigma> = Inl f"
  shows "f = AssertFailed ''matchLog'' \<and> (\<exists>k clk. e = Deliver k clk \<and> k < length (threads \<sigma>) \<and> behind_snapshot \<sigma> k)"
proof -
  have sinv: "state_inv (logged (\<sigma> # tr)) (led (\<sigma> # tr)) n \<sigma>" and uniq: "unique_entries (logged (\<sigma> # tr))"
    using inv by (simp_all add: log_inv_def)
  note len = wfD(1) [OF wf] and rwf = wfD(2) [OF wf] and ok = state_invD(1) [OF sinv]
  note ft = finish_total [OF einv wf sinv, of _ c]
  show ?thesis
  proof (cases e)
    case (HeartBeatTimeout i wake clk)
    have "\<exists>r. leaderHearBeatTicker wake clk (nodes \<sigma> ! i) = Inr r" if "i < n"
      using doHeartBeat_total [OF rwf [OF that] ok [OF that], of clk] by (auto simp: leaderHearBeatTicker_def)
    with HeartBeatTimeout bad len show ?thesis by (auto simp: at_node_def split: if_splits)
  next
    case (Apply i)
    with bad len applierTicker_spec [OF rwf] show ?thesis by (auto simp: at_node_def split: if_splits)
  next
    case (TakeSnapshot i index data)
    with bad len Snapshot_spec [OF rwf] show ?thesis by (auto simp: at_node_def split: if_splits)
  next
    case (Deliver k clk)
    with bad deliver_fails [OF wf sinv uniq, of k c clk f] show ?thesis by (auto simp: at_thread_def split: if_splits)
  next
    case (Fail k clk)
    with bad ft [of k clk False] show ?thesis by (auto simp: at_thread_def split: if_splits)
  next
    case (Resume k clk)
    with bad ft [of k clk True] show ?thesis by (auto simp: at_thread_def split: if_splits)
  qed (use bad in \<open>auto simp: at_node_def at_thread_def split: if_splits prod.splits\<close>)
qed

section \<open>A leader keeps its log\<close>

definition log_kept :: "raft \<Rightarrow> raft \<Rightarrow> bool" where
  "log_kept s s' \<longleftrightarrow> (\<forall>k. snapIndex s' < k \<longrightarrow> k \<le> getLastLogIndex s \<longrightarrow> entry_at s' k = entry_at s k)"

lemma log_kept_frame: "m_logs s' = m_logs s \<Longrightarrow> snapIndex s' = snapIndex s \<Longrightarrow> log_kept s s'"
  by (simp add: log_kept_def entry_at_def)

lemma Start_kept:
  assumes wf: "raft_wf s" and ret: "Start c cmd s = (s', r)"
  shows "log_kept s s'"
proof (cases "m_status s = Leader")
  case True
  let ?e = "\<lparr>command = asString c cmd, logterm = m_currentTerm s, logindex = getNewCommandIndex s\<rparr>"
  have "log_wf s" "logindex ?e = getLastLogIndex s + 1" using wf by (simp_all add: raft_wf_def getNewCommandIndex_def)
  from entry_at_push(3) [OF this] ret True show ?thesis
    by (auto simp: Start_def Let_def log_kept_def getNewCommandIndex_def)
qed (use ret in \<open>simp add: Start_def log_kept_def\<close>)

lemma Snapshot_kept: "raft_wf s \<Longrightarrow> Snapshot c index data s = Inr s' \<Longrightarrow> log_kept s s'"
  using cut_log(3) [of s index] by (auto simp: Snapshot_spec raft_wf_def log_kept_def split: if_splits)

lemma AppendEntries1_leader:
  assumes "raft_wf s" and "numbered logindex (aea_prevlogindex args) (aea_entries args)"
    and "AppendEntries1 c clk args s = Inr (s', reply)" and "m_status s' = Leader"
  shows "s' = s"
  using assms by (cases rule: AppendEntries1_cases) simp_all

lemma InstallSnapshot_leader:
  assumes "raft_wf s" and "InstallSnapshot c clk args s = Inr (s', r, ts)" and "m_status s' = Leader"
  shows "s' = s"
  using assms by (auto simp: InstallSnapshot_spec split: if_splits)

lemma sendRequestVote_kept:
  assumes "raft_wf s" and "sendRequestVote c ok reply v s = Inr (s', v', ts)"
  shows "log_kept s s'"
  using assms by (cases rule: sendRequestVote_cases) (auto intro!: log_kept_frame)

lemma sendAppendEntries_kept: "sendAppendEntries ok server args reply v s = Inr (s', v') \<Longrightarrow> log_kept s s'"
  by (cases rule: sendAppendEntries_cases) (auto intro!: log_kept_frame)

lemma leaderSendSnapShot_reply_kept: "leaderSendSnapShot_reply c clk ok server args trm s = Inr s' \<Longrightarrow> log_kept s s'"
  by (cases rule: leaderSendSnapShot_reply_cases) (auto intro!: log_kept_frame)

lemma doHeartBeat_kept: "doHeartBeat clk s = Inr (s', cnt, ts) \<Longrightarrow> log_kept s s'"
  by (drule doHeartBeat_state) (auto intro!: log_kept_frame)

text \<open>The one replica an event changes.\<close>

definition kept_at :: "nat \<Rightarrow> cluster \<Rightarrow> cluster \<Rightarrow> bool" where
  "kept_at n \<sigma> \<sigma>' \<longleftrightarrow> nodes \<sigma>' = nodes \<sigma> \<or> (\<exists>j < n. \<exists>s'. nodes \<sigma>' = (nodes \<sigma>)[j := s'] \<and>
     (m_status s' = Leader \<longrightarrow> log_kept (nodes \<sigma> ! j) s'))"

lemma kept_atI: "j < n \<Longrightarrow> nodes \<sigma>' = (nodes \<sigma>)[j := s'] \<Longrightarrow> (m_status s' = Leader \<Longrightarrow> log_kept (nodes \<sigma> ! j) s') \<Longrightarrow>
    kept_at n \<sigma> \<sigma>'"
  unfolding kept_at_def by blast

lemma kept_deliver:
  assumes wf: "well_formed n \<sigma>" and k: "k < length (threads \<sigma>)" and ret: "deliver c k clk \<sigma> = Inr \<sigma>'"
  shows "kept_at n \<sigma> \<sigma>'"
proof -
  let ?t = "threads \<sigma> ! k"
  have t: "?t \<in> set (threads \<sigma>)" using k by simp
  note d = wfD(7) [OF wf t] and tok = wfD(5) [OF wf t]
  note rwf = wfD(2) [OF wf d]
  from wf k ret show ?thesis
  proof (cases rule: deliver_cases)
    case (vote args r s' reply)
    then show ?thesis using RequestVote_log [OF vote(2)] by (intro kept_atI [OF d]) (auto intro: log_kept_frame)
  next
    case (append args r s' reply)
    have "numbered logindex (aea_prevlogindex args) (aea_entries args)" using tok append(1) by (simp add: thread_ok_def)
    from AppendEntries1_leader [OF rwf this append(2)] append(3) show ?thesis
      by (intro kept_atI [OF d, where s' = s']) (auto intro: log_kept_frame)
  next
    case (snap args r s' reply ts)
    from InstallSnapshot_leader [OF rwf snap(2)] snap(3) show ?thesis
      by (intro kept_atI [OF d, where s' = s']) (auto intro: log_kept_frame)
  qed (simp add: kept_at_def)
qed

lemma kept_finish:
  assumes wf: "well_formed n \<sigma>" and k: "k < length (threads \<sigma>)" and ret: "finish c k clk got \<sigma> = Inr \<sigma>'"
  shows "kept_at n \<sigma> \<sigma>'"
proof -
  let ?t = "threads \<sigma> ! k"
  have t: "?t \<in> set (threads \<sigma>)" using k by simp
  note i = wfD(6) [OF wf t]
  note rwf = wfD(2) [OF wf i]
  from ret show ?thesis
  proof (cases rule: finish_cases)
    case (vote args r ok reply s' v ts)
    then show ?thesis using sendRequestVote_kept [OF rwf vote(3)] by (intro kept_atI [OF i, where s' = s']) simp_all
  next
    case (append args r ok reply s' v)
    then show ?thesis using sendAppendEntries_kept by (intro kept_atI [OF i, where s' = s']) simp_all
  next
    case (snap_begin s' args)
    then show ?thesis
      by (intro kept_atI [OF i, where s' = s'])
         (auto simp: leaderSendSnapShot_args_def intro!: log_kept_frame split: prod.splits)
  next
    case (snap args r ok reply s')
    then show ?thesis using leaderSendSnapShot_reply_kept by (intro kept_atI [OF i, where s' = s']) simp_all
  next
    case (beat s' cnt ts)
    then show ?thesis using doHeartBeat_kept by (intro kept_atI [OF i, where s' = s']) simp_all
  next
    case (push msg)
    then show ?thesis
      by (intro kept_atI [OF i, where s' = "pushMsgToKvServer msg (nodes \<sigma> ! th_src ?t)"])
         (auto simp: pushMsgToKvServer_def intro!: log_kept_frame)
  qed
qed

lemma kept_exec:
  assumes wf: "well_formed n \<sigma>" and ret: "exec c e \<sigma> = Inr \<sigma>'"
  shows "kept_at n \<sigma> \<sigma>'"
proof -
  note len = wfD(1) [OF wf] and rwf = wfD(2) [OF wf]
  from ret show ?thesis
  proof (cases rule: exec_cases)
    case (timeout i wake clk s' cnt ts)
    from timeout(2) have "log_kept (nodes \<sigma> ! i) s'"
      by (cases rule: electionTimeOutTicker_cases) (auto intro: log_kept_frame)
    with timeout len show ?thesis by (intro kept_atI [of i _ _ _ s']) simp_all
  next
    case (beat i clk s' cnt ts)
    with len doHeartBeat_kept show ?thesis by (intro kept_atI [of i _ _ _ s']) auto
  next
    case (start i cmd s' r)
    with len Start_kept rwf show ?thesis by (intro kept_atI [of i _ _ _ s']) auto
  next
    case (applied i s')
    with len rwf show ?thesis
      by (intro kept_atI [of i _ _ _ s']) (auto simp: applierTicker_spec intro!: log_kept_frame)
  next
    case (compact i index data s')
    with len rwf Snapshot_kept show ?thesis by (intro kept_atI [of i _ _ _ s']) auto
  next
    case (deliver k clk)
    then show ?thesis by (rule kept_deliver [OF wf])
  next
    case (empty k)
    then show ?thesis by (cases rule: empty_reply_cases [of \<sigma> k]) (simp_all add: kept_at_def)
  next
    case (finish k clk got)
    then show ?thesis by (rule kept_finish [OF wf])
  qed (simp add: kept_at_def)
qed

lemma kept_leader:
  assumes "kept_at n \<sigma> \<sigma>'" and "well_formed n \<sigma>" and "i < n" and "m_status (nodes \<sigma>' ! i) = Leader"
  shows "log_kept (nodes \<sigma> ! i) (nodes \<sigma>' ! i)"
  using assms wfD(1) [OF assms(2)] unfolding kept_at_def
  by (metis log_kept_frame nth_list_update_eq nth_list_update_neq)

end
