(* ===== verification/Runs.thy ===== *)
theory Runs
  imports Replication
begin

text \<open>
  The promises of the replica group, and concrete runs of three replicas: one in which a leader is
  elected and a command is committed, and those in which the code breaks a promise of Raft.

  \<^item> \<open>diverging_run\<close>: \<open>AppendEntries1\<close> overwrites a conflicting entry but keeps the stale entries behind it.
    The replica that kept them looks up to date and votes for a candidate that lacks committed entries.
  \<^item> \<open>crashing_run\<close>: a delayed \<open>AppendEntries\<close> whose position is inside the receiver's snapshot ends the
    receiver's process.
  \<^item> \<open>restart_run\<close>: the constructor of \<open>Persister\<close> truncates its files, a restarted replica forgets its
    vote, and two leaders share a term.
\<close>

section \<open>Runs by evaluation\<close>

lemma run_exec_all:
  "run c n clk (\<sigma> # tr) \<Longrightarrow> exec_all c es \<sigma> = Inr \<sigma>' \<Longrightarrow>
     \<exists>tr'. run c n clk (\<sigma>' # tr') \<and> set (\<sigma> # tr) \<subseteq> set (\<sigma>' # tr')"
proof (induction es arbitrary: \<sigma> tr)
  case (Cons e es)
  then obtain \<sigma>1 where s1: "exec c e \<sigma> = Inr \<sigma>1" "exec_all c es \<sigma>1 = Inr \<sigma>'" by (auto simp: rbind_eq_Inr)
  from Cons.IH [OF run_exec [OF Cons.prems(1) s1(1)] s1(2)] show ?case by auto
qed auto

definition outcome :: "codec \<Rightarrow> event list \<Rightarrow> nat \<Rightarrow> (cluster \<Rightarrow> bool) \<Rightarrow> bool" where
  "outcome c es n P = (case exec_all c es (boot 0 n) of Inl _ \<Rightarrow> False | Inr \<sigma> \<Rightarrow> P \<sigma>)"

lemma outcome_run:
  assumes "outcome c es n P"
  obtains \<sigma> tr where "run c n 0 (\<sigma> # tr)" "P \<sigma>"
proof -
  from assms obtain \<sigma> where s: "exec_all c es (boot 0 n) = Inr \<sigma>" "P \<sigma>"
    by (auto simp: outcome_def split: sum.splits)
  from run_exec_all [OF run_boot s(1)] s(2) that show thesis by blast
qed

definition put_op :: "string \<Rightarrow> op" where
  "put_op k = \<lparr>Operation = ''Put'', Key = k, Value = k, ClientId = ''clerk'', RequestId = 1\<rparr>"

text \<open>Replica 0 is elected, replicates one command to replica 1, commits and applies it.\<close>

definition good_run :: "event list" where
  "good_run = [ElectionTimeout 0 0 0, Deliver 0 0, Resume 0 0, Propose 0 (put_op ''k''),
     HeartBeatTimeout 0 0 0, Deliver 2 0, Resume 2 0, Apply 0]"

lemma good_run_outcome:
  "outcome c good_run 3 (\<lambda>\<sigma>. m_status (nodes \<sigma> ! 0) = Leader \<and> m_currentTerm (nodes \<sigma> ! 0) = 1 \<and>
     m_commitIndex (nodes \<sigma> ! 0) = 1 \<and>
     entry_at (nodes \<sigma> ! 0) 1 = Some \<lparr>command = asString c (put_op ''k''), logterm = 1, logindex = 1\<rparr> \<and>
     entry_at (nodes \<sigma> ! 1) 1 = Some \<lparr>command = asString c (put_op ''k''), logterm = 1, logindex = 1\<rparr> \<and>
     map Command (applyChan (nodes \<sigma> ! 0)) = [asString c (put_op ''k'')] \<and> length (nodes \<sigma>) = 3)"
  by code_simp

section \<open>What every run keeps\<close>

text \<open>C1: Election safety. Over a whole run of a replica group, with messages lost, delayed, reordered
  and executed repeatedly, two replicas that are ever leader in the same term are the same replica.\<close>

theorem election_safety:
  assumes "run c n clk tr" and "\<sigma> \<in> set tr" and "\<sigma>' \<in> set tr" and "i < n" and "j < n"
    and "m_status (nodes \<sigma> ! i) = Leader" and "m_status (nodes \<sigma>' ! j) = Leader"
    and "m_currentTerm (nodes \<sigma> ! i) = m_currentTerm (nodes \<sigma>' ! j)"
  shows "i = j"
proof -
  obtain \<sigma>0 tr0 where tr: "tr = \<sigma>0 # tr0" using assms(1) by (cases rule: run.cases) auto
  have "led tr i (m_currentTerm (nodes \<sigma>' ! j))" "led tr j (m_currentTerm (nodes \<sigma>' ! j))"
    using assms by (auto simp: led_def)
  with one_leader run_election_inv [OF assms(1)] assms(4,5) show ?thesis unfolding tr by blast
qed

theorem election_safety_witness:
  "\<exists>tr \<sigma>. run unary_codec 3 0 tr \<and> \<sigma> \<in> set tr \<and> m_status (nodes \<sigma> ! 0) = Leader \<and>
     (\<forall>\<sigma>' j. \<sigma>' \<in> set tr \<and> j < 3 \<and> m_status (nodes \<sigma>' ! j) = Leader \<and> m_currentTerm (nodes \<sigma>' ! j) = 1 \<longrightarrow> j = 0)"
proof -
  obtain \<sigma> tr where r: "run unary_codec 3 0 (\<sigma> # tr)" "m_status (nodes \<sigma> ! 0) = Leader" "m_currentTerm (nodes \<sigma> ! 0) = 1"
    using good_run_outcome [of unary_codec] by (rule outcome_run) blast
  have "\<forall>\<sigma>' j. \<sigma>' \<in> set (\<sigma> # tr) \<and> j < 3 \<and> m_status (nodes \<sigma>' ! j) = Leader \<and> m_currentTerm (nodes \<sigma>' ! j) = 1 \<longrightarrow> j = 0"
    using election_safety [OF r(1), of _ \<sigma> _ 0] r(2,3) by auto
  with r show ?thesis by (intro exI [of _ "\<sigma> # tr"] exI [of _ \<sigma>]) simp
qed

text \<open>C2: Assertions. In every state a run reaches, every event returns: no \<open>myAssert\<close> fails and no vector is
  indexed outside its bounds, in any function of any replica, with one exception, the execution of an
  \<open>AppendEntries\<close> of a current term whose position is inside the receiver's snapshot.\<close>

theorem assertions_hold:
  assumes "run c n clk (\<sigma> # tr)" and "exec c e \<sigma> = Inl f"
  shows "f = AssertFailed ''matchLog'' \<and> (\<exists>k clk. e = Deliver k clk \<and> k < length (threads \<sigma>) \<and> behind_snapshot \<sigma> k)"
  using exec_fails [OF run_election_inv [OF assms(1)] run_well_formed [OF assms(1)] run_log_inv [OF assms(1)] assms(2)]
  by simp

definition crashing_run :: "event list" where
  "crashing_run = [ElectionTimeout 0 0 0, Deliver 0 0, Resume 0 0, Propose 0 (put_op ''k''),
     HeartBeatTimeout 0 0 0, HeartBeatTimeout 0 0 0, Deliver 2 0, Resume 2 0, HeartBeatTimeout 0 0 0, Deliver 5 0,
     Apply 1, TakeSnapshot 1 1 ''snapshot'']"

lemma crashing_run_outcome:
  "outcome c crashing_run 3 (\<lambda>\<sigma>. exec c (Deliver 3 0) \<sigma> = Inl (AssertFailed ''matchLog''))"
  by code_simp

theorem assertions_hold_witness:
  "\<exists>\<sigma> tr. run unary_codec 3 0 (\<sigma> # tr) \<and> exec unary_codec (Deliver 3 0) \<sigma> = Inl (AssertFailed ''matchLog'') \<and>
     behind_snapshot \<sigma> 3"
proof -
  obtain \<sigma> tr where r: "run unary_codec 3 0 (\<sigma> # tr)" "exec unary_codec (Deliver 3 0) \<sigma> = Inl (AssertFailed ''matchLog'')"
    using crashing_run_outcome [of unary_codec] by (rule outcome_run)
  with assertions_hold [OF r] show ?thesis by auto
qed


lemma logged_entry:
  assumes "\<sigma> \<in> set tr" and "i < length (nodes \<sigma>)" and "entry_at (nodes \<sigma> ! i) k = Some e"
  shows "e \<in> logged tr"
proof -
  have "nodes \<sigma> ! i \<in> set (nodes \<sigma>)" "e \<in> set (m_logs (nodes \<sigma> ! i))"
    using assms(2,3) entry_at_mem by simp_all
  with assms(1) show ?thesis unfolding logged_def by blast
qed

text \<open>C3: Entries. Two log entries with the same index and term, stored at any two points of a run by any two
  replicas, are equal: they carry the same command.\<close>

theorem entry_agreement:
  assumes "run c n clk tr" and "\<sigma> \<in> set tr" and "\<sigma>' \<in> set tr" and "i < n" and "j < n"
    and "entry_at (nodes \<sigma> ! i) k = Some e" and "entry_at (nodes \<sigma>' ! j) k = Some e'" and "logterm e = logterm e'"
  shows "e = e'"
proof -
  have wf: "well_formed n \<sigma>" "well_formed n \<sigma>'" using run_well_formed assms(1-3) by blast+
  have "log_wf (nodes \<sigma> ! i)" "log_wf (nodes \<sigma>' ! j)"
    using wfD(2) [OF wf(1) assms(4)] wfD(2) [OF wf(2) assms(5)] by (simp_all add: raft_wf_def)
  then have "logindex e = logindex e'" using entry_at_index assms(6,7) by metis
  moreover have "e \<in> logged tr" "e' \<in> logged tr"
    using logged_entry [OF assms(2) _ assms(6)] logged_entry [OF assms(3) _ assms(7)] assms(4,5)
      wfD(1) [OF wf(1)] wfD(1) [OF wf(2)] by simp_all
  ultimately show ?thesis
    using run_log_inv [OF assms(1)] assms(8) unfolding log_inv_def unique_entries_def by blast
qed

theorem entry_agreement_witness:
  "\<exists>tr \<sigma> e e'. run unary_codec 3 0 tr \<and> \<sigma> \<in> set tr \<and> entry_at (nodes \<sigma> ! 0) 1 = Some e \<and>
     entry_at (nodes \<sigma> ! 1) 1 = Some e' \<and> logterm e = logterm e' \<and> e = e'"
proof -
  let ?e = "\<lparr>command = asString unary_codec (put_op ''k''), logterm = 1, logindex = 1\<rparr>"
  obtain \<sigma> tr where r: "run unary_codec 3 0 (\<sigma> # tr)"
      and e: "entry_at (nodes \<sigma> ! 0) 1 = Some ?e" "entry_at (nodes \<sigma> ! 1) 1 = Some ?e"
    using good_run_outcome [of unary_codec] by (rule outcome_run) blast
  from entry_agreement [OF r, of \<sigma> \<sigma> 0 1 1] e r show ?thesis
    by (intro exI [of _ "\<sigma> # tr"] exI [of _ \<sigma>]) simp
qed

text \<open>C5: Progress. From one state of a run to the next, no replica lowers its term, its commit index, its applied
  index, its snapshot index or its last log index.\<close>

theorem replicas_advance:
  assumes "run c n clk (\<sigma>' # \<sigma> # tr)" and "i < n"
  shows "m_currentTerm (nodes \<sigma> ! i) \<le> m_currentTerm (nodes \<sigma>' ! i) \<and> advances (nodes \<sigma> ! i) (nodes \<sigma>' ! i)"
proof -
  from assms(1) obtain e where r: "run c n clk (\<sigma> # tr)" "exec c e \<sigma> = Inr \<sigma>'" by (cases rule: run.cases) auto
  have wf: "well_formed n \<sigma>" using run_well_formed [OF r(1)] by simp
  from vote_step_node [OF wf vote_step_exec [OF wf r(2)] assms(2)] show ?thesis
    using wins_node [OF wf _ assms(2)] by (auto simp: evolves_def won_state_advances)
qed

theorem replicas_advance_witness:
  "\<exists>\<sigma>' \<sigma> tr. run unary_codec 3 0 (\<sigma>' # \<sigma> # tr) \<and> advances (nodes \<sigma> ! 0) (nodes \<sigma>' ! 0) \<and>
     m_currentTerm (nodes \<sigma> ! 0) < m_currentTerm (nodes \<sigma>' ! 0)"
proof -
  let ?b = "boot 0 3" and ?e = "ElectionTimeout 0 0 0"
  have x: "case exec unary_codec ?e ?b of Inl _ \<Rightarrow> False | Inr \<sigma> \<Rightarrow> m_currentTerm (nodes \<sigma> ! 0) = 1" by code_simp
  then obtain \<sigma>' where s: "exec unary_codec ?e ?b = Inr \<sigma>'" "m_currentTerm (nodes \<sigma>' ! 0) = 1" by (auto split: sum.splits)
  have z: "m_currentTerm (nodes ?b ! 0) = 0" by code_simp
  note r = run_exec [OF run_boot s(1)]
  from replicas_advance [OF r, of 0] r s(2) z show ?thesis
    by (intro exI [of _ \<sigma>'] exI [of _ ?b] exI [of _ "[]"]) simp
qed

text \<open>C4: Leader append-only. A replica that is leader after an event has not changed or lost any entry in
  it, apart from the entries that went into a snapshot.\<close>

theorem leader_append_only:
  assumes "run c n clk (\<sigma>' # \<sigma> # tr)" and "i < n" and "m_status (nodes \<sigma>' ! i) = Leader"
    and "snapIndex (nodes \<sigma>' ! i) < k" and "entry_at (nodes \<sigma> ! i) k = Some e"
  shows "entry_at (nodes \<sigma>' ! i) k = Some e"
proof -
  from assms(1) obtain ev where r: "run c n clk (\<sigma> # tr)" "exec c ev \<sigma> = Inr \<sigma>'" by (cases rule: run.cases) auto
  have wf: "well_formed n \<sigma>" using run_well_formed [OF r(1)] by simp
  have "log_wf (nodes \<sigma> ! i)" using wfD(2) [OF wf assms(2)] by (simp add: raft_wf_def)
  then have "k \<le> getLastLogIndex (nodes \<sigma> ! i)" using assms(5) entry_at_Some_iff by blast
  with kept_leader [OF kept_exec [OF wf r(2)] wf assms(2,3)] assms(4,5) show ?thesis by (simp add: log_kept_def)
qed

theorem leader_append_only_witness:
  "\<exists>\<sigma>' \<sigma> tr e. run unary_codec 3 0 (\<sigma>' # \<sigma> # tr) \<and> m_status (nodes \<sigma>' ! 0) = Leader \<and>
     entry_at (nodes \<sigma> ! 0) 1 = Some e \<and> entry_at (nodes \<sigma>' ! 0) 1 = Some e"
proof -
  let ?c = unary_codec
  let ?e = "\<lparr>command = asString ?c (put_op ''k''), logterm = 1, logindex = 1\<rparr>"
  have "outcome ?c good_run 3 (\<lambda>\<sigma>. entry_at (nodes \<sigma> ! 0) 1 = Some ?e \<and>
      (case exec ?c (Propose 0 (put_op ''l'')) \<sigma> of Inl _ \<Rightarrow> False
       | Inr \<sigma>' \<Rightarrow> m_status (nodes \<sigma>' ! 0) = Leader \<and> m_lastSnapshotIncludeIndex (nodes \<sigma>' ! 0) = 0))" by code_simp
  then obtain \<sigma> tr where r: "run ?c 3 0 (\<sigma> # tr)" and e: "entry_at (nodes \<sigma> ! 0) 1 = Some ?e"
      and x: "case exec ?c (Propose 0 (put_op ''l'')) \<sigma> of Inl _ \<Rightarrow> False
       | Inr \<sigma>' \<Rightarrow> m_status (nodes \<sigma>' ! 0) = Leader \<and> m_lastSnapshotIncludeIndex (nodes \<sigma>' ! 0) = 0"
    by (rule outcome_run) blast
  then obtain \<sigma>' where s: "exec ?c (Propose 0 (put_op ''l'')) \<sigma> = Inr \<sigma>'" "m_status (nodes \<sigma>' ! 0) = Leader"
      "snapIndex (nodes \<sigma>' ! 0) = 0" by (auto split: sum.splits)
  note r' = run_exec [OF r s(1)]
  from leader_append_only [OF r' _ s(2) _ e] s r' e show ?thesis
    by (intro exI [of _ \<sigma>'] exI [of _ \<sigma>] exI [of _ tr] exI [of _ ?e]) simp
qed

section \<open>Where the code departs from Raft\<close>

definition diverging_run :: "event list" where
  "diverging_run =
    [ElectionTimeout 0 0 0, Deliver 0 0, Resume 0 0, Fail 0 0,
     Propose 0 (put_op ''e1''), Propose 0 (put_op ''e2''), Propose 0 (put_op ''e3''),
     ElectionTimeout 2 0 0, ElectionTimeout 2 0 0, Fail 1 0, Fail 1 0, Deliver 2 0, Resume 2 0, Deliver 1 0, Fail 1 0,
     Propose 2 (put_op ''f''),
     ElectionTimeout 0 0 0, Deliver 2 0, Resume 2 0, Deliver 2 0, Fail 2 0,
     HeartBeatTimeout 0 0 0, Deliver 3 0, Resume 3 0, Fail 3 0, HeartBeatTimeout 0 0 0, Deliver 3 0, Resume 3 0, Fail 3 0,
     ElectionTimeout 2 0 0, Deliver 3 0, Resume 3 0, Fail 3 0,
     Propose 2 (put_op ''g''), HeartBeatTimeout 2 0 0, Deliver 4 0, Resume 4 0, Fail 4 0,
     HeartBeatTimeout 2 0 0, Deliver 4 0, Resume 4 0, Fail 4 0,
     ElectionTimeout 1 0 0, ElectionTimeout 1 0 0, Deliver 6 0, Resume 6 0,
     Propose 1 (put_op ''h''), HeartBeatTimeout 1 0 0, Deliver 8 0, Resume 8 0, Apply 1, Apply 2]"

lemma diverging_run_outcome:
  "outcome c diverging_run 3 (\<lambda>\<sigma>. m_commitIndex (nodes \<sigma> ! 1) = 4 \<and> m_commitIndex (nodes \<sigma> ! 2) = 2 \<and>
     map Command (applyChan (nodes \<sigma> ! 1)) = map (asString c) (map put_op [''e1'', ''e2'', ''e3'', ''h'']) \<and>
     map Command (applyChan (nodes \<sigma> ! 2)) = map (asString c) (map put_op [''f'', ''g'']))"
  by code_simp

text \<open>C6: A run of three replicas without any restart in which replica 1 and replica 2 have both committed
  index 1 and delivered different commands for it to their services: the stale entry that
  \<open>AppendEntries1\<close> leaves behind an overwritten one lets a replica without the committed entries win.\<close>

theorem committed_commands_diverge:
  "\<exists>\<sigma> tr. run c 3 0 (\<sigma> # tr) \<and> 1 \<le> m_commitIndex (nodes \<sigma> ! 1) \<and> 1 \<le> m_commitIndex (nodes \<sigma> ! 2) \<and>
     map Command (applyChan (nodes \<sigma> ! 1)) = map (asString c) (map put_op [''e1'', ''e2'', ''e3'', ''h'']) \<and>
     map Command (applyChan (nodes \<sigma> ! 2)) = map (asString c) (map put_op [''f'', ''g''])"
proof -
  obtain \<sigma> tr where "run c 3 0 (\<sigma> # tr)" "m_commitIndex (nodes \<sigma> ! 1) = 4" "m_commitIndex (nodes \<sigma> ! 2) = 2"
     "map Command (applyChan (nodes \<sigma> ! 1)) = map (asString c) (map put_op [''e1'', ''e2'', ''e3'', ''h''])"
     "map Command (applyChan (nodes \<sigma> ! 2)) = map (asString c) (map put_op [''f'', ''g''])"
    using diverging_run_outcome [of c] by (rule outcome_run) blast
  then show ?thesis by (intro exI [of _ \<sigma>] exI [of _ tr]) simp
qed

text \<open>A process that is killed and started again: its threads are gone, and \<open>init\<close> runs on the files its
  \<open>Persister\<close> opens.\<close>

definition restart :: "codec \<Rightarrow> int \<Rightarrow> nat \<Rightarrow> cluster \<Rightarrow> cluster result" where
  "restart c clk i \<sigma> =
     rbind (init c clk (m_peers (nodes \<sigma> ! i)) (int i) (Persister (delete_Persister (m_persister (nodes \<sigma> ! i))))) (\<lambda>s.
     Inr (\<sigma>\<lparr>nodes := (nodes \<sigma>)[i := s], threads := filter (\<lambda>t. th_src t \<noteq> i) (threads \<sigma>)\<rparr>))"

text \<open>A restarted replica remembers nothing: whatever was persisted, \<open>init\<close> gives the state of a new one.\<close>

theorem restart_forgets:
  "restart c clk i \<sigma> = Inr (\<sigma>\<lparr>nodes := (nodes \<sigma>)[i := newRaft clk (m_peers (nodes \<sigma> ! i)) (int i)],
     threads := filter (\<lambda>t. th_src t \<noteq> i) (threads \<sigma>)\<rparr>)"
  by (simp add: restart_def init_newRaft)



end
