(* ===== verification/ReplicaProperties.thy ===== *)
theory ReplicaProperties
  imports RaftOps
begin

text \<open>
  The contracts of the functions of one replica (\<open>raftCore/raft.cpp\<close>), each stated once for the whole function
  and applied to a small concrete replica.
\<close>

section \<open>Contracts\<close>

text \<open>C8: \<open>AppendEntries1\<close> on a well-formed replica. It ends the process only for a current term and a position
  inside the snapshot or entries that contradict stored ones. Otherwise the term becomes the larger one,
  the call succeeds exactly when the term is current and the position matches, a success merges the
  entries into the log and moves the commit index as the leader's allows, a refusal leaves the log alone and
  names an index to retry from, and the state is well-formed again.\<close>

theorem append_entries_spec:
  assumes wf: "raft_wf s" and num: "numbered logindex (aea_prevlogindex args) (aea_entries args)"
  shows "case AppendEntries1 c clk args s of
     Inl f \<Rightarrow> m_currentTerm s \<le> aea_term args \<and> aea_prevlogindex args \<le> getLastLogIndex s \<and>
       (aea_prevlogindex args < snapIndex s \<or>
        term_at s (aea_prevlogindex args) = Some (aea_prevlogterm args) \<and> \<not> no_conflict (aea_entries args) s)
   | Inr (s', reply) \<Rightarrow> raft_wf s' \<and> m_currentTerm s' = max (m_currentTerm s) (aea_term args) \<and>
       aer_term reply = m_currentTerm s' \<and>
       (aer_success reply \<longleftrightarrow> m_currentTerm s \<le> aea_term args \<and>
          term_at s (aea_prevlogindex args) = Some (aea_prevlogterm args)) \<and>
       entry_at s' = (if aer_success reply then merged (aea_prevlogindex args) (aea_entries args) s else entry_at s) \<and>
       m_commitIndex s' = (if aer_success reply
          then commit_after (aea_leadercommit args) (getLastLogIndex s') (m_commitIndex s) else m_commitIndex s) \<and>
       (aer_success reply \<or> aer_updatenextindex reply = -100 \<or>
          snapIndex s \<le> aer_updatenextindex reply \<and> aer_updatenextindex reply \<le> getLastLogIndex s + 1)"
proof (cases "AppendEntries1 c clk args s")
  case (Inl f)
  have "log_wf s" "m_commitIndex s \<le> getLastLogIndex s" using wf by (simp_all add: raft_wf_def)
  with AppendEntries1_returns_iff [of s args c clk] num Inl show ?thesis by auto
next
  case (Inr r)
  obtain s' reply where r: "r = (s', reply)" by fastforce
  have lw: "log_wf s" using wf by (simp add: raft_wf_def)
  have ok: "raft_wf s'" using AppendEntries1_wf_evolves [OF wf num] Inr r by simp
  have ret: "AppendEntries1 c clk args s = Inr (s', reply)" using Inr r by simp
  from wf num ret show ?thesis
  proof (cases rule: AppendEntries1_cases)
    case stale
    then show ?thesis using Inr r ok by simp
  next
    case (reject u)
    have "\<not> (m_currentTerm s \<le> aea_term args \<and> term_at s (aea_prevlogindex args) = Some (aea_prevlogterm args))"
    proof
      assume a: "m_currentTerm s \<le> aea_term args \<and> term_at s (aea_prevlogindex args) = Some (aea_prevlogterm args)"
      then have nc: "no_conflict (aea_entries args) s"
        using AppendEntries1_match_conflict [OF lw _ _ num ret] by simp
      from wf a AppendEntries1_match [OF lw _ _ _ num nc, of c clk] reject(3) ret show False
        by (auto simp: raft_wf_def)
    qed
    with reject Inr r ok show ?thesis by simp
  next
    case (accept logs)
    have "getLastLogIndex s' = getLastLogIndex (s\<lparr>m_logs := logs\<rparr>)" "entry_at s' = entry_at (s\<lparr>m_logs := logs\<rparr>)"
      by (simp_all add: accept(2) lastlog_defs entry_at_def fun_eq_iff)
    with accept Inr r ok show ?thesis by simp
  qed
qed


definition sample_raft :: raft where
  "sample_raft =
     \<lparr>m_peers = 3, m_persister = Persister \<lparr>m_raftStateFile = \<lparr>disk = [], pending = []\<rparr>,
        m_snapshotFile = \<lparr>disk = [], pending = []\<rparr>, m_raftStateSize = 0\<rparr>, m_me = 1, m_currentTerm = 2, m_votedFor = -1,
      m_logs = [\<lparr>command = ''a'', logterm = 1, logindex = 1\<rparr>, \<lparr>command = ''b'', logterm = 1, logindex = 2\<rparr>],
      m_commitIndex = 1, m_lastApplied = 0, m_nextIndex = [3, 3, 3], m_matchIndex = [0, 0, 0], m_status = Follower,
      applyChan = [], m_lastResetElectionTime = 0, m_lastResetHearBeatTime = 0,
      m_lastSnapshotIncludeIndex = 0, m_lastSnapshotIncludeTerm = 0\<rparr>"

definition sample_append :: appendEntriesArgs where
  "sample_append = \<lparr>aea_term = 2, aea_leaderid = 0, aea_prevlogindex = 1, aea_prevlogterm = 1,
     aea_entries = [\<lparr>command = ''c'', logterm = 2, logindex = 2\<rparr>], aea_leadercommit = 2\<rparr>"

lemma sample_wf: "raft_wf sample_raft"
  by (simp add: raft_wf_def log_wf_def sample_raft_def numbered_Cons lastlog_defs)

lemma sample_numbered: "numbered logindex (aea_prevlogindex sample_append) (aea_entries sample_append)"
  by (simp add: sample_append_def numbered_Cons)

lemma sample_append_ok:
  "case AppendEntries1 c 7 sample_append sample_raft of Inl _ \<Rightarrow> False
   | Inr (s', reply) \<Rightarrow> aer_success reply \<and> m_commitIndex s' = 2 \<and> map command (m_logs s') = [''a'', ''c'']"
  by code_simp

theorem append_entries_spec_witness:
  "\<exists>s' reply. AppendEntries1 unary_codec 7 sample_append sample_raft = Inr (s', reply) \<and> aer_success reply \<and>
     raft_wf s' \<and> entry_at s' = merged 1 (aea_entries sample_append) sample_raft"
proof -
  obtain s' reply where r: "AppendEntries1 unary_codec 7 sample_append sample_raft = Inr (s', reply)" "aer_success reply"
    using sample_append_ok [of unary_codec] by (auto split: sum.splits)
  have "aea_prevlogindex sample_append = 1" by (simp add: sample_append_def)
  with append_entries_spec [OF sample_wf sample_numbered, of unary_codec 7] r show ?thesis by simp
qed

text \<open>C9: \<open>RequestVote\<close> always answers with the larger of the two terms, which becomes the replica's own. The vote
  is granted exactly when the candidate's term is current, its log is at least as up-to-date as the
  replica's, and the replica has no vote for another candidate in that term; then the replica is bound to
  the candidate for the term, and whatever vote it was bound to before it still is.\<close>

theorem request_vote_spec:
  assumes wf: "raft_wf s" and cand: "0 \<le> rva_candidateid args"
  shows "\<exists>s' reply. RequestVote c clk args s = Inr (s', reply) \<and> raft_wf s' \<and>
     rvr_term reply = max (m_currentTerm s) (rva_term args) \<and> m_currentTerm s' = rvr_term reply \<and>
     (rvr_votegranted reply \<longleftrightarrow> m_currentTerm s \<le> rva_term args \<and>
        UpToDate (rva_lastlogindex args) (rva_lastlogterm args) s \<and>
        (m_currentTerm s < rva_term args \<or> m_votedFor s = -1 \<or> m_votedFor s = rva_candidateid args)) \<and>
     (rvr_votegranted reply \<longrightarrow> bound_vote s' (rva_term args) (rva_candidateid args)) \<and>
     (\<forall>T v. bound_vote s T v \<longrightarrow> bound_vote s' T v) \<and> entry_at s' = entry_at s"
proof -
  obtain s' reply where ret: "RequestVote c clk args s = Inr (s', reply)" using RequestVote_total by blast
  have "bound_vote s' (rva_term args) (rva_candidateid args)" if "rvr_votegranted reply"
    using RequestVote_vote [OF ret that] cand by (simp add: bound_vote_def)
  moreover have "entry_at s' = entry_at s" using RequestVote_log [OF ret] by (simp add: entry_at_def fun_eq_iff)
  moreover have "bound_vote s' T v" if "bound_vote s T v" for T v
    using request_vote.keeps_vote [OF wf _ that] ret by blast
  ultimately show ?thesis
    using ret RequestVote_term [OF ret] RequestVote_granted [OF ret] RequestVote_wf_evolves [OF wf ret] by blast
qed

theorem request_vote_spec_witness:
  "\<exists>s' reply. RequestVote unary_codec 7 \<lparr>rva_term = 3, rva_candidateid = 2, rva_lastlogindex = 2, rva_lastlogterm = 1\<rparr>
       sample_raft = Inr (s', reply) \<and> rvr_votegranted reply \<and> bound_vote s' 3 2"
proof -
  let ?a = "\<lparr>rva_term = 3, rva_candidateid = 2, rva_lastlogindex = 2, rva_lastlogterm = 1\<rparr>"
  have "UpToDate 2 1 sample_raft" "m_currentTerm sample_raft = 2" by code_simp+
  with request_vote_spec [OF sample_wf, of ?a unary_codec 7] show ?thesis by auto
qed

text \<open>C10: \<open>applierTicker\<close> on a well-formed replica hands the commands of exactly the committed and not yet applied
  indices to the service, once and in the order of their indices, and marks them applied.\<close>

theorem applier_delivers:
  assumes "raft_wf s"
  shows "\<exists>s'. applierTicker s = Inr s' \<and> raft_wf s' \<and> m_lastApplied s' = max (m_lastApplied s) (m_commitIndex s) \<and>
     entry_at s' = entry_at s \<and>
     applyChan s' = applyChan s @ map (\<lambda>i. ApplyMsg\<lparr>CommandValid := True, Command := command (the (entry_at s i)),
       CommandIndex := i\<rparr>) [m_lastApplied s + 1..m_commitIndex s] \<and>
     (\<forall>i \<in> {m_lastApplied s + 1..m_commitIndex s}. \<exists>e. entry_at s i = Some e)"
proof -
  have "\<exists>e. entry_at s i = Some e" if "i \<in> {m_lastApplied s + 1..m_commitIndex s}" for i
    using assms that entry_at_Some_iff [of s i] by (auto simp: raft_wf_def)
  then show ?thesis
    using applierTicker_spec [OF assms] applierTicker_wf_evolves [OF assms] by (simp add: commandMsg_def)
qed

theorem applier_delivers_witness:
  "\<exists>s'. applierTicker sample_raft = Inr s' \<and> m_lastApplied s' = 1 \<and> map Command (applyChan s') = [''a'']"
proof -
  obtain s' where "applierTicker sample_raft = Inr s'" "m_lastApplied s' = max (m_lastApplied sample_raft) (m_commitIndex sample_raft)"
    using applier_delivers [OF sample_wf] by blast
  moreover have "case applierTicker sample_raft of Inl _ \<Rightarrow> False | Inr s' \<Rightarrow> map Command (applyChan s') = [''a'']" by code_simp
  ultimately show ?thesis by (simp add: sample_raft_def)
qed

text \<open>\<open>Snapshot\<close> on a well-formed replica never fails. For an index that is committed and not yet in a snapshot
  it drops exactly the entries up to the index, keeps the last log index and the term at the index, and puts
  both the snapshot and the encoded state into the files; for any other index it changes nothing.\<close>

theorem snapshot_compacts:
  assumes wf: "raft_wf s"
  shows "\<exists>s'. Snapshot c index data s = Inr s' \<and> raft_wf s' \<and>
     (if snapIndex s < index \<and> index \<le> m_commitIndex s
      then snapIndex s' = index \<and> getLastLogIndex s' = getLastLogIndex s \<and> term_at s' index = term_at s index \<and>
        entry_at s' = (\<lambda>i. if i \<le> index then None else entry_at s i) \<and>
        snapshot_content (m_persister s') = data \<and> raftstate_content (m_persister s') = persistData c s'
      else s' = s)"
proof (cases "snapIndex s < index \<and> index \<le> m_commitIndex s")
  case True
  let ?s' = "saved c data (cut index (the (term_at s index)) s)"
  from wf have lw: "log_wf s" and cm: "m_commitIndex s \<le> getLastLogIndex s" by (simp_all add: raft_wf_def)
  have ret: "Snapshot c index data s = Inr ?s'" using True Snapshot_spec [OF wf] by simp
  obtain t where t: "term_at s index = Some t" using term_at_Some_iff [OF lw, of index] True cm by auto
  have "persistData c ?s' = persistData c (cut index (the (term_at s index)) s)" by (simp add: persistData_def)
  then have "snapshot_content (m_persister ?s') = data" "raftstate_content (m_persister ?s') = persistData c ?s'"
    by (simp_all add: saved_def)
  with True ret Snapshot_wf_evolves [OF wf ret] t cut_log [OF lw, of index] cm show ?thesis
    by (intro exI [of _ ?s']) (auto simp: term_at_def)
next
  case False
  then have "Snapshot c index data s = Inr s" unfolding Snapshot_spec [OF wf] by (rule if_not_P)
  with False wf show ?thesis by auto
qed

theorem snapshot_compacts_witness:
  "\<exists>s'. Snapshot unary_codec 1 ''data'' sample_raft = Inr s' \<and> snapIndex s' = 1 \<and> getLastLogIndex s' = 2 \<and>
     snapshot_content (m_persister s') = ''data''"
proof -
  have "m_lastSnapshotIncludeIndex sample_raft < 1 \<and> 1 \<le> m_commitIndex sample_raft" "getLastLogIndex sample_raft = 2" by code_simp+
  with snapshot_compacts [OF sample_wf, of unary_codec 1 "''data''"] show ?thesis by auto
qed

text \<open>Given the documented behaviour of the two serialisation libraries, \<open>readPersist\<close> restores from the output of
  \<open>persistData\<close> exactly the term, the vote, the snapshot position and the log.\<close>

theorem persisted_state_restored:
  assumes "codec_ok c"
  shows "\<exists>s'. readPersist c (persistData c s) s0 = Inr s' \<and> m_currentTerm s' = m_currentTerm s \<and> m_votedFor s' = m_votedFor s \<and>
     m_logs s' = m_logs s \<and> snapIndex s' = snapIndex s \<and> m_lastSnapshotIncludeTerm s' = m_lastSnapshotIncludeTerm s \<and>
     m_commitIndex s' = m_commitIndex s0 \<and> m_lastApplied s' = m_lastApplied s0 \<and> m_status s' = m_status s0"
  by (simp add: readPersist_persistData [OF assms])

theorem persisted_state_restored_witness:
  "\<exists>s'. readPersist unary_codec (persistData unary_codec sample_raft) sample_raft = Inr s' \<and> m_currentTerm s' = 2"
  using persisted_state_restored [OF unary_codec_ok, of sample_raft sample_raft] by (auto simp: sample_raft_def)

end
