(* ===== verification/Strings.thy ===== *)
theory Strings
  imports Prelude "HOL-Library.Char_ord" "HOL-Library.Sublist"
begin

text \<open>
  The parts of the C++ standard library's strings that the sources use: \<open>find\<close>, \<open>substr\<close>, \<open>std::to_string\<close>,
  \<open>atoi\<close>, \<open>std::stoi\<close> and the character tests. \<open>npos\<close> is \<open>None\<close>.
\<close>

section \<open>Searching and cutting\<close>

fun find_suffix :: "('a list \<Rightarrow> bool) \<Rightarrow> 'a list \<Rightarrow> nat option" where
  "find_suffix P [] = (if P [] then Some 0 else None)"
| "find_suffix P (x # xs) = (if P (x # xs) then Some 0 else map_option Suc (find_suffix P xs))"

definition str_find :: "string \<Rightarrow> string \<Rightarrow> nat option" where
  "str_find pat s = find_suffix (prefix pat) s"

definition str_find_from :: "string \<Rightarrow> nat \<Rightarrow> string \<Rightarrow> nat option" where
  "str_find_from pat pos s = map_option (\<lambda>i. i + pos) (if pos \<le> length s then str_find pat (drop pos s) else None)"

definition substr :: "nat \<Rightarrow> nat \<Rightarrow> string \<Rightarrow> string" where
  "substr pos n s = take n (drop pos s)"

lemma find_suffix_Some:
  "find_suffix P xs = Some n \<Longrightarrow> n \<le> length xs \<and> P (drop n xs) \<and> (\<forall>i < n. \<not> P (drop i xs))"
proof (induction xs arbitrary: n)
  case (Cons x xs)
  show ?case
  proof (cases "P (x # xs)")
    case False
    with Cons.prems obtain m where m: "find_suffix P xs = Some m" "n = Suc m" by auto
    with Cons.IH [OF m(1)] False show ?thesis by (auto simp: less_Suc_eq_0_disj)
  qed (use Cons.prems in auto)
qed (auto split: if_splits)

lemma find_suffix_None: "find_suffix P xs = None \<longleftrightarrow> (\<forall>i \<le> length xs. \<not> P (drop i xs))"
proof (induction xs)
  case (Cons x xs)
  have "(\<forall>i \<le> Suc n. Q i) \<longleftrightarrow> Q 0 \<and> (\<forall>i \<le> n. Q (Suc i))" for n Q by (metis Suc_le_mono not0_implies_Suc zero_le)
  with Cons show ?case by simp
qed simp

text \<open>The first occurrence of one character.\<close>

lemma str_find_char: "str_find [ch] s = (if ch \<in> set s then Some (length (takeWhile (\<lambda>x. x \<noteq> ch) s)) else None)"
  unfolding str_find_def by (induction s) auto

lemma str_find_char_split: "ch \<notin> set a \<Longrightarrow> str_find [ch] (a @ ch # b) = Some (length a)"
  by (simp add: str_find_char takeWhile_append)

section \<open>Numbers\<close>

definition is_digit :: "char \<Rightarrow> bool" where
  "is_digit ch \<longleftrightarrow> CHR ''0'' \<le> ch \<and> ch \<le> CHR ''9''"

definition digit_val :: "char \<Rightarrow> nat" where
  "digit_val ch = of_char ch - 48"

definition digit_char :: "nat \<Rightarrow> char" where
  "digit_char n = char_of (48 + n)"

fun nat_string :: "nat \<Rightarrow> string" where
  "nat_string n = (if n < 10 then [digit_char n] else nat_string (n div 10) @ [digit_char (n mod 10)])"

declare nat_string.simps [simp del]

definition to_string :: "int \<Rightarrow> string" where
  "to_string i = (if i < 0 then CHR ''-'' # nat_string (nat (- i)) else nat_string (nat i))"

definition digits_val :: "string \<Rightarrow> nat" where
  "digits_val ds = foldl (\<lambda>n ch. 10 * n + digit_val ch) 0 ds"

text \<open>The number at the start of a string, with an optional sign, and whether there is one.\<close>

definition parse_int :: "string \<Rightarrow> int option" where
  "parse_int s =
     (let (sign, rest) = (case s of ch # r \<Rightarrow> if ch = CHR ''-'' then (-1, r) else if ch = CHR ''+'' then (1, r) else (1, s) | [] \<Rightarrow> (1, s));
          ds = takeWhile is_digit rest in
      if ds = [] then None else Some (sign * int (digits_val ds)))"

lemma digit_char: "n < 10 \<Longrightarrow> is_digit (digit_char n)" "n < 10 \<Longrightarrow> digit_val (digit_char n) = n"
  by (auto simp: is_digit_def digit_char_def digit_val_def less_eq_char_def)

lemma nat_string_digits: "\<forall>ch \<in> set (nat_string n). is_digit ch" and nat_string_nonempty: "nat_string n \<noteq> []"
proof -
  show "\<forall>ch \<in> set (nat_string n). is_digit ch"
    by (induction n rule: nat_string.induct) (subst nat_string.simps, auto simp: digit_char)
  show "nat_string n \<noteq> []" by (subst nat_string.simps) simp
qed

lemma digits_val_nat_string [simp]: "digits_val (nat_string n) = n"
proof (induction n rule: nat_string.induct)
  case (1 n)
  then show ?case by (subst nat_string.simps) (simp add: digits_val_def digit_char)
qed

lemma parse_to_string: "parse_int (to_string i @ rest) = Some i" if "rest = [] \<or> \<not> is_digit (hd rest)"
proof -
  have tw: "takeWhile is_digit (nat_string n @ rest) = nat_string n" for n
    using that nat_string_digits by (cases rest) (auto simp: takeWhile_append)
  have hd: "\<exists>ch r. nat_string n @ rest = ch # r \<and> is_digit ch" for n
    using nat_string_nonempty [of n] nat_string_digits [of n] by (cases "nat_string n") auto
  have nd: "\<not> is_digit CHR ''-''" "\<not> is_digit CHR ''+''" by code_simp+
  show ?thesis
  proof (cases "i < 0")
    case True
    then show ?thesis by (simp add: to_string_def parse_int_def tw nat_string_nonempty)
  next
    case False
    then show ?thesis using tw [of "nat i"] hd [of "nat i"] nd nat_string_nonempty
      by (auto simp: to_string_def parse_int_def Let_def)
  qed
qed

end
