(* ===== verification/SkipList.thy ===== *)
theory SkipList
  imports Archive Strings "HOL-Library.List_Lexorder" "HOL-Library.Char_ord" "HOL-Library.Monad_Syntax"
begin

text \<open>
  \<open>skipList/include/skipList.h\<close>: the ordered key-value store of the service.

  Nodes live in an explicit heap, a map from addresses to nodes, because every operation rewrites
  forward pointers of nodes that several levels share. \<open>NULL\<close> is \<open>None\<close>, \<open>delete\<close> removes a node from the
  heap. A function returns \<open>None\<close> when the C++ function would follow a dangling pointer, leave an array or
  not return. The results of \<open>rand()\<close> are an argument. The template parameters \<open>K\<close> and \<open>V\<close> are type variables;
  \<open>std::string\<close> is \<open>string\<close> with its lexicographic order.

  The invariant \<open>skip_wf\<close> gives the nodes of the list in order; level \<open>i\<close> links exactly the nodes of level at
  least \<open>i\<close>. Under it every operation returns and acts on the sorted list of pairs like the obvious function,
  so that the store refines a finite map; the locale \<open>kv_store\<close> states this interface.
\<close>

section \<open>State\<close>

type_synonym addr = nat

record ('k, 'v) skipNode =
  node_key :: 'k
  node_value :: 'v
  node_level :: nat
  forward :: "addr option list"

type_synonym ('k, 'v) heap = "addr \<Rightarrow> ('k, 'v) skipNode option"

record ('k, 'v) skipList =
  max_level :: nat
  skip_list_level :: nat
  header :: addr
  element_count :: int
  memory :: "('k, 'v) heap"
  fresh :: addr

definition Node :: "'k \<Rightarrow> 'v \<Rightarrow> nat \<Rightarrow> ('k, 'v) skipNode" where
  "Node k v level = \<lparr>node_key = k, node_value = v, node_level = level, forward = replicate (level + 1) None\<rparr>"

text \<open>The constructor: the header holds default-constructed key and value.\<close>

definition SkipList :: "'k \<Rightarrow> 'v \<Rightarrow> nat \<Rightarrow> ('k, 'v) skipList" where
  "SkipList k0 v0 maxLevel = \<lparr>max_level = maxLevel, skip_list_level = 0, header = 0, element_count = 0,
     memory = [0 \<mapsto> Node k0 v0 maxLevel], fresh = 1\<rparr>"

definition create_node :: "'k \<Rightarrow> 'v \<Rightarrow> nat \<Rightarrow> ('k, 'v) skipList \<Rightarrow> addr \<times> ('k, 'v) skipList" where
  "create_node k v level l = (fresh l, l\<lparr>memory := (memory l)(fresh l \<mapsto> Node k v level), fresh := fresh l + 1\<rparr>)"

section \<open>Pointers\<close>

text \<open>\<open>p->forward[i]\<close>, reading and writing.\<close>

definition get_forward :: "('k, 'v) heap \<Rightarrow> nat \<Rightarrow> addr \<Rightarrow> addr option option" where
  "get_forward h i p = do { n \<leftarrow> h p; if i < length (forward n) then Some (forward n ! i) else None }"

definition set_forward :: "nat \<Rightarrow> addr \<Rightarrow> addr option \<Rightarrow> ('k, 'v) heap \<Rightarrow> ('k, 'v) heap option" where
  "set_forward i p q h = do { n \<leftarrow> h p;
     if i < length (forward n) then Some (h(p \<mapsto> n\<lparr>forward := (forward n)[i := q]\<rparr>)) else None }"

text \<open>\<open>while (current->forward[i] != NULL && current->forward[i]->get_key() < key)\<close>\<close>

partial_function (option) walk :: "('k::linorder, 'v) heap \<Rightarrow> nat \<Rightarrow> 'k \<Rightarrow> addr \<Rightarrow> addr option" where
  "walk h i k cur = do {
     nxt \<leftarrow> get_forward h i cur;
     (case nxt of None \<Rightarrow> Some cur
      | Some p \<Rightarrow> do { n \<leftarrow> h p; if node_key n < k then walk h i k p else Some cur }) }"

text \<open>The loop over the levels, from the given one down to 0, that fills the array \<open>update\<close>.\<close>

fun descend :: "('k::linorder, 'v) heap \<Rightarrow> 'k \<Rightarrow> nat \<Rightarrow> addr \<Rightarrow> addr option list \<Rightarrow> (addr \<times> addr option list) option" where
  "descend h k 0 cur upd = do { c \<leftarrow> walk h 0 k cur; Some (c, upd[0 := Some c]) }"
| "descend h k (Suc i) cur upd = do { c \<leftarrow> walk h (Suc i) k cur; descend h k i c (upd[Suc i := Some c]) }"

section \<open>Operations\<close>

fun random_k :: "nat list \<Rightarrow> nat \<Rightarrow> nat option" where
  "random_k [] k = None"
| "random_k (r # rs) k = (if r mod 2 \<noteq> 0 then random_k rs (k + 1) else Some k)"

definition get_random_level :: "nat list \<Rightarrow> ('k, 'v) skipList \<Rightarrow> nat option" where
  "get_random_level rands l = do { k \<leftarrow> random_k rands 1; Some (if k < max_level l then k else max_level l) }"

definition search_element :: "'k::linorder \<Rightarrow> ('k, 'v) skipList \<Rightarrow> 'v option option" where
  "search_element k l = do {
     (cur, _) \<leftarrow> descend (memory l) k (skip_list_level l) (header l) [];
     nxt \<leftarrow> get_forward (memory l) 0 cur;
     (case nxt of None \<Rightarrow> Some None
      | Some p \<Rightarrow> do { n \<leftarrow> memory l p; Some (if node_key n = k then Some (node_value n) else None) }) }"

text \<open>The loop that links a new node into the levels.\<close>

fun link :: "addr option list \<Rightarrow> addr \<Rightarrow> nat list \<Rightarrow> ('k, 'v) heap \<Rightarrow> ('k, 'v) heap option" where
  "link upd n [] h = Some h"
| "link upd n (i # is) h = do {
     u \<leftarrow> (if i < length upd then upd ! i else None);
     q \<leftarrow> get_forward h i u;
     h1 \<leftarrow> set_forward i n q h;
     h2 \<leftarrow> set_forward i u (Some n) h1;
     link upd n is h2 }"

definition raise_level :: "nat \<Rightarrow> ('k, 'v) skipList \<Rightarrow> addr option list \<Rightarrow> addr option list \<times> ('k, 'v) skipList" where
  "raise_level rl l upd =
     (if rl > skip_list_level l
      then (fold (\<lambda>i u. u[i := Some (header l)]) [skip_list_level l + 1..<rl + 1] upd, l\<lparr>skip_list_level := rl\<rparr>)
      else (upd, l))"

definition insert_element :: "nat list \<Rightarrow> 'k::linorder \<Rightarrow> 'v \<Rightarrow> ('k, 'v) skipList \<Rightarrow> (int \<times> ('k, 'v) skipList) option" where
  "insert_element rands k v l = do {
     (cur, upd) \<leftarrow> descend (memory l) k (skip_list_level l) (header l) (replicate (max_level l + 1) None);
     nxt \<leftarrow> get_forward (memory l) 0 cur;
     there \<leftarrow> (case nxt of None \<Rightarrow> Some False | Some p \<Rightarrow> do { n \<leftarrow> memory l p; Some (node_key n = k) });
     if there then Some (1, l)
     else do {
       rl \<leftarrow> get_random_level rands l;
       (let (upd', l1) = raise_level rl l upd; (n, l2) = create_node k v rl l1 in do {
         h \<leftarrow> link upd' n [0..<rl + 1] (memory l2);
         Some (0, l2\<lparr>memory := h, element_count := element_count l2 + 1\<rparr>) }) } }"

text \<open>The loop that unlinks a node, and the one that removes empty levels.\<close>

fun unlink :: "addr option list \<Rightarrow> addr \<Rightarrow> nat list \<Rightarrow> ('k, 'v) heap \<Rightarrow> ('k, 'v) heap option" where
  "unlink upd c [] h = Some h"
| "unlink upd c (i # is) h = do {
     u \<leftarrow> (if i < length upd then upd ! i else None);
     q \<leftarrow> get_forward h i u;
     if q \<noteq> Some c then Some h
     else do { r \<leftarrow> get_forward h i c; h1 \<leftarrow> set_forward i u r h; unlink upd c is h1 } }"

fun lower_level :: "('k, 'v) heap \<Rightarrow> addr \<Rightarrow> nat \<Rightarrow> nat option" where
  "lower_level h p 0 = Some 0"
| "lower_level h p (Suc i) = do {
     q \<leftarrow> get_forward h (Suc i) p; if q = None then lower_level h p i else Some (Suc i) }"

definition delete_element :: "'k::linorder \<Rightarrow> ('k, 'v) skipList \<Rightarrow> ('k, 'v) skipList option" where
  "delete_element k l = do {
     (cur, upd) \<leftarrow> descend (memory l) k (skip_list_level l) (header l) (replicate (max_level l + 1) None);
     nxt \<leftarrow> get_forward (memory l) 0 cur;
     (case nxt of None \<Rightarrow> Some l
      | Some p \<Rightarrow> do {
          n \<leftarrow> memory l p;
          if node_key n = k then do {
            h \<leftarrow> unlink upd p [0..<skip_list_level l + 1] (memory l);
            lv \<leftarrow> lower_level h (header l) (skip_list_level l);
            Some (l\<lparr>memory := h(p := None), skip_list_level := lv, element_count := element_count l - 1\<rparr>) }
          else Some l }) }"

definition insert_set_element :: "nat list \<Rightarrow> 'k::linorder \<Rightarrow> 'v \<Rightarrow> ('k, 'v) skipList \<Rightarrow> ('k, 'v) skipList option" where
  "insert_set_element rands k v l = do {
     found \<leftarrow> search_element k l;
     l1 \<leftarrow> (if found \<noteq> None then delete_element k l else Some l);
     (_, l2) \<leftarrow> insert_element rands k v l1;
     Some l2 }"

definition skip_size :: "('k, 'v) skipList \<Rightarrow> int" where
  "skip_size l = element_count l"

text \<open>\<open>dump_file\<close>: the loop along level 0 that collects keys and values.\<close>

partial_function (option) collect :: "('k, 'v) heap \<Rightarrow> addr option \<Rightarrow> ('k \<times> 'v) list option" where
  "collect h p = (case p of None \<Rightarrow> Some []
     | Some a \<Rightarrow> do { n \<leftarrow> h a; nxt \<leftarrow> get_forward h 0 a; rest \<leftarrow> collect h nxt; Some ((node_key n, node_value n) # rest) })"

definition dump_insert :: "string \<times> string \<Rightarrow> skipListDump \<Rightarrow> skipListDump" where
  "dump_insert n d = d\<lparr>keyDumpVt := keyDumpVt d @ [fst n], valDumpVt := valDumpVt d @ [snd n]\<rparr>"

definition dump_file :: "codec \<Rightarrow> (string, string) skipList \<Rightarrow> string option" where
  "dump_file c l = do {
     first \<leftarrow> get_forward (memory l) 0 (header l);
     kvs \<leftarrow> collect (memory l) first;
     Some (oarchive_dump c (fold dump_insert kvs \<lparr>keyDumpVt = [], valDumpVt = []\<rparr>)) }"

text \<open>\<open>load_file\<close>: every call of \<open>insert_element\<close> draws its own random numbers. A malformed dump throws.\<close>

fun load_loop :: "nat list list \<Rightarrow> string list \<Rightarrow> (string, string) skipList \<Rightarrow> (string, string) skipList option" where
  "load_loop rs [] l = Some l"
| "load_loop [] (k # ks) l = None"
| "load_loop (r # rs) (k # ks) l = do { (_, l1) \<leftarrow> insert_element r k k l; load_loop rs ks l1 }"

definition load_file :: "codec \<Rightarrow> nat list list \<Rightarrow> string \<Rightarrow> (string, string) skipList \<Rightarrow> (string, string) skipList option" where
  "load_file c rs dumpStr l =
     (if dumpStr = [] then Some l
      else do { d \<leftarrow> iarchive_dump c dumpStr; load_loop rs (keyDumpVt d) l })"


text \<open>The destructor: \<open>clear\<close> frees the nodes of level 0 from the last to the first, then the header.\<close>

partial_function (option) clear_nodes :: "addr \<Rightarrow> ('k, 'v) heap \<Rightarrow> ('k, 'v) heap option" where
  "clear_nodes cur h = do {
     nxt \<leftarrow> get_forward h 0 cur;
     h1 \<leftarrow> (case nxt of None \<Rightarrow> Some h | Some p \<Rightarrow> clear_nodes p h);
     if h1 cur = None then None else Some (h1(cur := None)) }"

definition delete_SkipList :: "('k, 'v) skipList \<Rightarrow> ('k, 'v) heap option" where
  "delete_SkipList l = do {
     first \<leftarrow> get_forward (memory l) 0 (header l);
     h \<leftarrow> (case first of None \<Rightarrow> Some (memory l) | Some p \<Rightarrow> clear_nodes p (memory l));
     if h (header l) = None then None else Some (h(header l := None)) }"

section \<open>Chains\<close>

text \<open>\<open>chain h i p ps\<close>: from \<open>p\<close>, level \<open>i\<close> leads through exactly \<open>ps\<close> to the end.\<close>

fun chain :: "('k, 'v) heap \<Rightarrow> nat \<Rightarrow> addr \<Rightarrow> addr list \<Rightarrow> bool" where
  "chain h i p [] \<longleftrightarrow> get_forward h i p = Some None"
| "chain h i p (q # qs) \<longleftrightarrow> get_forward h i p = Some (Some q) \<and> chain h i q qs"

lemma chain_suffix: "chain h i p (xs @ ys) \<Longrightarrow> chain h i (last (p # xs)) ys"
  by (induction xs arbitrary: p) auto

lemma chain_get: "chain h i p (xs @ y # ys) \<Longrightarrow> get_forward h i (last (p # xs)) = Some (Some y)"
  using chain_suffix by force

lemma chain_end: "chain h i p xs \<Longrightarrow> get_forward h i (last (p # xs)) = Some None"
  using chain_suffix [of h i p xs "[]"] by simp

text \<open>A chain only depends on the level-\<open>i\<close> pointers of its nodes.\<close>

lemma chain_cong:
  assumes "\<And>q. q \<in> set (p # xs) \<Longrightarrow> get_forward h' i q = get_forward h i q"
  shows "chain h' i p xs = chain h i p xs"
  using assms by (induction xs arbitrary: p) auto

text \<open>Redirecting the last pointer of a prefix.\<close>

lemma chain_replace:
  assumes "chain h i p (xs @ ys)" and "distinct (p # xs)"
    and "\<And>q. q \<in> set (butlast (p # xs)) \<Longrightarrow> get_forward h' i q = get_forward h i q"
    and "chain h' i (last (p # xs)) zs"
  shows "chain h' i p (xs @ zs)"
  using assms
proof (induction xs arbitrary: p)
  case (Cons x xs)
  then show ?case by (auto split: if_splits)
qed simp

section \<open>The invariant\<close>

definition lev :: "('k, 'v) heap \<Rightarrow> addr \<Rightarrow> nat" where
  "lev h p = (case h p of Some n \<Rightarrow> node_level n | None \<Rightarrow> 0)"

definition key_at :: "('k, 'v) heap \<Rightarrow> addr \<Rightarrow> 'k" where
  "key_at h p = node_key (the (h p))"

definition value_at :: "('k, 'v) heap \<Rightarrow> addr \<Rightarrow> 'v" where
  "value_at h p = node_value (the (h p))"

definition nodes_wf :: "('k, 'v) heap \<Rightarrow> nat \<Rightarrow> bool" where
  "nodes_wf h m \<longleftrightarrow> (\<forall>p n. h p = Some n \<longrightarrow> length (forward n) = node_level n + 1 \<and> node_level n \<le> m)"

definition skip_wf :: "('k::linorder, 'v) skipList \<Rightarrow> addr list \<Rightarrow> bool" where
  "skip_wf l xs \<longleftrightarrow> distinct (header l # xs) \<and> dom (memory l) = set (header l # xs) \<and>
     nodes_wf (memory l) (max_level l) \<and> lev (memory l) (header l) = max_level l \<and>
     sorted_wrt (<) (map (key_at (memory l)) xs) \<and>
     (\<forall>i \<le> max_level l. chain (memory l) i (header l) (filter (\<lambda>p. i \<le> lev (memory l) p) xs)) \<and>
     (\<forall>p \<in> set xs. lev (memory l) p \<le> skip_list_level l) \<and> skip_list_level l \<le> max_level l \<and>
     element_count l = int (length xs) \<and> (\<forall>p \<in> set (header l # xs). p < fresh l)"

definition content :: "('k, 'v) skipList \<Rightarrow> addr list \<Rightarrow> ('k \<times> 'v) list" where
  "content l xs = map (\<lambda>p. (key_at (memory l) p, value_at (memory l) p)) xs"


text \<open>Heaps that differ in forward pointers only.\<close>

definition same_nodes :: "('k, 'v) heap \<Rightarrow> ('k, 'v) heap \<Rightarrow> bool" where
  "same_nodes h h' \<longleftrightarrow> (\<forall>p. rel_option (\<lambda>n n'. node_key n' = node_key n \<and> node_value n' = node_value n \<and>
     node_level n' = node_level n \<and> length (forward n') = length (forward n)) (h p) (h' p))"

lemma same_nodes_refl [simp]: "same_nodes h h"
  by (simp add: same_nodes_def option.rel_refl)

lemma same_nodes_trans:
  assumes "same_nodes h h1" and "same_nodes h1 h2"
  shows "same_nodes h h2"
  unfolding same_nodes_def
proof
  fix p
  show "rel_option (\<lambda>n n'. node_key n' = node_key n \<and> node_value n' = node_value n \<and>
     node_level n' = node_level n \<and> length (forward n') = length (forward n)) (h p) (h2 p)"
    using assms [unfolded same_nodes_def, THEN spec, of p]
    by (cases "h p"; cases "h1 p"; cases "h2 p") auto
qed

lemma same_nodesD:
  assumes "same_nodes h h'"
  shows "dom h' = dom h" and "lev h' p = lev h p" and "p \<in> dom h \<Longrightarrow> key_at h' p = key_at h p"
    and "p \<in> dom h \<Longrightarrow> value_at h' p = value_at h p" and "nodes_wf h m \<Longrightarrow> nodes_wf h' m"
proof -
  note s = assms [unfolded same_nodes_def, THEN spec]
  have "h' q = None \<longleftrightarrow> h q = None" for q using s [of q] by (cases "h q"; cases "h' q") auto
  then show "dom h' = dom h" by (simp add: dom_def)
  show "lev h' p = lev h p" using s [of p] by (cases "h p"; cases "h' p") (auto simp: lev_def)
  show "p \<in> dom h \<Longrightarrow> key_at h' p = key_at h p" using s [of p] by (cases "h p"; cases "h' p") (auto simp: key_at_def)
  show "p \<in> dom h \<Longrightarrow> value_at h' p = value_at h p" using s [of p] by (cases "h p"; cases "h' p") (auto simp: value_at_def)
  show "nodes_wf h' m" if wf: "nodes_wf h m"
    unfolding nodes_wf_def
  proof (intro allI impI)
    fix q n' assume "h' q = Some n'"
    with s [of q] obtain n where "h q = Some n" "node_level n' = node_level n" "length (forward n') = length (forward n)"
      by (cases "h q") auto
    with wf show "length (forward n') = node_level n' + 1 \<and> node_level n' \<le> m" by (simp add: nodes_wf_def)
  qed
qed

lemma get_forward_Some:
  assumes "nodes_wf h m" and "p \<in> dom h"
  shows "(\<exists>q. get_forward h i p = Some q) \<longleftrightarrow> i \<le> lev h p"
  using assms by (auto simp: get_forward_def nodes_wf_def lev_def less_Suc_eq_le split: option.splits)

lemma set_forward_ok:
  assumes wf: "nodes_wf h m" and p: "p \<in> dom h" and i: "i \<le> lev h p"
  obtains h' where "set_forward i p q h = Some h'" "same_nodes h h'"
    "\<And>j r. get_forward h' j r = (if r = p \<and> j = i then Some q else get_forward h j r)"
proof -
  from p obtain n where n: "h p = Some n" by auto
  with wf i have len: "i < length (forward n)" by (auto simp: nodes_wf_def lev_def)
  let ?h = "h(p \<mapsto> n\<lparr>forward := (forward n)[i := q]\<rparr>)"
  have "set_forward i p q h = Some ?h" using n len by (simp add: set_forward_def)
  moreover have "same_nodes h ?h" using n by (simp add: same_nodes_def option.rel_refl)
  moreover have "get_forward ?h j r = (if r = p \<and> j = i then Some q else get_forward h j r)" for j r
    using n len by (auto simp: get_forward_def nth_list_update)
  ultimately show thesis by (rule that)
qed

section \<open>Searching\<close>

lemma walk_chain:
  assumes "chain h i cur (xs @ ys)" and "set (xs @ ys) \<subseteq> dom h"
    and "\<forall>p \<in> set xs. key_at h p < k" and "ys = [] \<or> \<not> key_at h (hd ys) < k"
  shows "walk h i k cur = Some (last (cur # xs))"
  using assms
proof (induction xs arbitrary: cur)
  case Nil
  then show ?case
  proof (cases ys)
    case (Cons y ys')
    with Nil obtain n where "h y = Some n" by auto
    with Cons Nil show ?thesis by (subst walk.simps) (simp add: key_at_def)
  qed (use Nil in \<open>subst walk.simps; simp\<close>)
next
  case (Cons x xs)
  then obtain n where n: "h x = Some n" by auto
  have "walk h i k x = Some (last (x # xs))" using Cons by simp
  with Cons.prems n show ?case by (subst walk.simps) (simp add: key_at_def)
qed

lemma last_filter_split:
  assumes "\<And>x. P x \<Longrightarrow> Q x"
  shows "\<exists>as bs. A = as @ bs \<and> last (h # filter P A) = last (h # filter Q as)"
proof (induction A rule: rev_induct)
  case (snoc a A)
  show ?case
  proof (cases "P a")
    case True
    then show ?thesis using assms by (intro exI [of _ "A @ [a]"] exI [of _ "[]"]) simp
  next
    case False
    with snoc obtain as bs where "A = as @ bs" "last (h # filter P A) = last (h # filter Q as)" by blast
    with False show ?thesis by (intro exI [of _ as] exI [of _ "bs @ [a]"]) simp
  qed
qed simp

abbreviation at_least :: "('k, 'v) heap \<Rightarrow> nat \<Rightarrow> addr list \<Rightarrow> addr list" where
  "at_least h i \<equiv> filter (\<lambda>p. i \<le> lev h p)"

text \<open>The node before the place of \<open>k\<close> on level \<open>i\<close>, when \<open>A\<close> are the nodes with smaller keys.\<close>

definition pred_at :: "('k, 'v) heap \<Rightarrow> addr \<Rightarrow> addr list \<Rightarrow> nat \<Rightarrow> addr" where
  "pred_at h p A i = last (p # at_least h i A)"

lemma walk_level:
  assumes ch: "chain h i p (at_least h i (A @ B))" and dm: "set (A @ B) \<subseteq> dom h"
    and lo: "\<forall>q \<in> set A. key_at h q < k" and hi: "\<forall>q \<in> set B. \<not> key_at h q < k"
  shows "walk h i k (pred_at h p A (Suc i)) = Some (pred_at h p A i)"
proof -
  obtain as bs where A: "A = as @ bs" and l: "last (p # at_least h (Suc i) A) = last (p # at_least h i as)"
    using last_filter_split [of "\<lambda>q. Suc i \<le> lev h q" "\<lambda>q. i \<le> lev h q" A p] Suc_leD by blast
  have "chain h i (last (p # at_least h i as)) (at_least h i bs @ at_least h i B)"
    using ch chain_suffix [of h i p "at_least h i as"] by (simp add: A)
  moreover have "at_least h i B = [] \<or> \<not> key_at h (hd (at_least h i B)) < k"
    using hi list.set_sel(1) [of "at_least h i B"] by fastforce
  ultimately have "walk h i k (last (p # at_least h i as)) = Some (last (last (p # at_least h i as) # at_least h i bs))"
    using dm lo by (intro walk_chain [of _ _ _ _ "at_least h i B"]) (auto simp: A)
  moreover have "last (last (p # at_least h i as) # at_least h i bs) = last (p # at_least h i A)" by (simp add: A)
  ultimately show ?thesis by (simp only: pred_at_def l)
qed

lemma descend_spec:
  assumes ch: "\<forall>j \<le> i. chain h j p (at_least h j (A @ B))" and dm: "set (A @ B) \<subseteq> dom h"
    and lo: "\<forall>q \<in> set A. key_at h q < k" and hi: "\<forall>q \<in> set B. \<not> key_at h q < k"
  shows "\<exists>upd'. descend h k i (pred_at h p A (Suc i)) upd = Some (pred_at h p A 0, upd') \<and> length upd' = length upd \<and>
     (\<forall>j < length upd. upd' ! j = (if j \<le> i then Some (pred_at h p A j) else upd ! j))"
  using ch
proof (induction i arbitrary: upd)
  case 0
  then show ?case using walk_level [OF _ dm lo hi, of 0] by (auto simp: nth_list_update)
next
  case (Suc i)
  have w: "walk h (Suc i) k (pred_at h p A (Suc (Suc i))) = Some (pred_at h p A (Suc i))"
    using walk_level [OF _ dm lo hi, of "Suc i"] Suc.prems by simp
  obtain upd' where u: "descend h k i (pred_at h p A (Suc i)) (upd[Suc i := Some (pred_at h p A (Suc i))]) = Some (pred_at h p A 0, upd')"
    "length upd' = length upd" "\<forall>j < length upd. upd' ! j = (if j \<le> i then Some (pred_at h p A j)
      else upd[Suc i := Some (pred_at h p A (Suc i))] ! j)"
    using Suc.IH [of "upd[Suc i := Some (pred_at h p A (Suc i))]"] Suc.prems by auto
  then show ?case using w by (auto simp: nth_list_update le_Suc_eq)
qed


text \<open>The state of a search for \<open>k\<close>: the nodes split at \<open>k\<close>.\<close>

lemma skip_split:
  fixes l :: "('k::linorder, 'v) skipList" and k :: 'k
  assumes wf: "skip_wf l xs"
  defines "A \<equiv> takeWhile (\<lambda>p. key_at (memory l) p < k) xs" and "B \<equiv> dropWhile (\<lambda>p. key_at (memory l) p < k) xs"
  shows "xs = A @ B" and "\<forall>q \<in> set A. key_at (memory l) q < k" and "\<forall>q \<in> set B. \<not> key_at (memory l) q < k"
    and "B \<noteq> [] \<Longrightarrow> \<forall>q \<in> set (tl B). k < key_at (memory l) q"
proof -
  show xs: "xs = A @ B" by (simp add: A_def B_def)
  show "\<forall>q \<in> set A. key_at (memory l) q < k" by (auto simp: A_def dest: set_takeWhileD)
  have sorted: "sorted_wrt (<) (map (key_at (memory l)) B)"
    using wf xs by (metis skip_wf_def map_append sorted_wrt_append)
  have hd: "\<not> key_at (memory l) (hd B) < k" if "B \<noteq> []" using that hd_dropWhile B_def by metis
  show "\<forall>q \<in> set B. \<not> key_at (memory l) q < k"
  proof (cases B)
    case (Cons b B')
    with hd sorted show ?thesis by (auto simp: not_less)
  qed simp
  show "\<forall>q \<in> set (tl B). k < key_at (memory l) q" if "B \<noteq> []"
    using that hd sorted by (cases B) (auto simp: not_less intro: le_less_trans)
qed

lemma skip_wfD:
  assumes "skip_wf l xs"
  shows "distinct (header l # xs)" "dom (memory l) = set (header l # xs)" "nodes_wf (memory l) (max_level l)"
    "lev (memory l) (header l) = max_level l" "sorted_wrt (<) (map (key_at (memory l)) xs)"
    "i \<le> max_level l \<Longrightarrow> chain (memory l) i (header l) (at_least (memory l) i xs)"
    "p \<in> set xs \<Longrightarrow> lev (memory l) p \<le> skip_list_level l" "skip_list_level l \<le> max_level l"
    "element_count l = int (length xs)" "p \<in> set (header l # xs) \<Longrightarrow> p < fresh l"
  using assms unfolding skip_wf_def by blast+

lemma descend_skip:
  fixes l :: "('k::linorder, 'v) skipList" and k :: 'k
  assumes wf: "skip_wf l xs"
  defines "A \<equiv> takeWhile (\<lambda>p. key_at (memory l) p < k) xs"
  shows "\<exists>upd'. descend (memory l) k (skip_list_level l) (header l) upd = Some (last (header l # A), upd') \<and>
     length upd' = length upd \<and> (\<forall>j < length upd. upd' ! j = (if j \<le> skip_list_level l then Some (pred_at (memory l) (header l) A j) else upd ! j))"
proof -
  let ?h = "memory l" and ?B = "dropWhile (\<lambda>p. key_at (memory l) p < k) xs"
  note split = skip_split [OF wf, of k, folded A_def]
  have "lev ?h q \<le> skip_list_level l" if "q \<in> set A" for q
    using skip_wfD(7) [OF wf, of q] that by (auto simp: A_def dest: set_takeWhileD)
  then have "at_least ?h (Suc (skip_list_level l)) A = []" by (simp add: filter_empty_conv not_less_eq_eq)
  then have start: "pred_at ?h (header l) A (Suc (skip_list_level l)) = header l" by (simp add: pred_at_def)
  have ch: "\<forall>j \<le> skip_list_level l. chain ?h j (header l) (at_least ?h j (A @ ?B))"
    using skip_wfD(6,8) [OF wf] split(1) by (metis order_trans)
  have dm: "set (A @ ?B) \<subseteq> dom ?h" using skip_wfD(2) [OF wf] split(1) by auto
  show ?thesis
    using descend_spec [OF ch dm split(2,3), of upd] start by (simp add: pred_at_def)
qed

lemma next_of_pred:
  fixes l :: "('k::linorder, 'v) skipList" and k :: 'k
  assumes wf: "skip_wf l xs"
  defines "A \<equiv> takeWhile (\<lambda>p. key_at (memory l) p < k) xs" and "B \<equiv> dropWhile (\<lambda>p. key_at (memory l) p < k) xs"
  shows "get_forward (memory l) 0 (last (header l # A)) = Some (case B of [] \<Rightarrow> None | b # _ \<Rightarrow> Some b)"
proof -
  have "chain (memory l) 0 (header l) (A @ B)" using skip_wfD(6) [OF wf, of 0] skip_split(1) [OF wf, of k]
    by (simp add: A_def B_def)
  then show ?thesis using chain_get chain_end by (cases B) fastforce+
qed

lemma lookup_split:
  fixes l :: "('k::linorder, 'v) skipList" and k :: 'k
  assumes wf: "skip_wf l xs"
  defines "B \<equiv> dropWhile (\<lambda>p. key_at (memory l) p < k) xs"
  shows "map_of (content l xs) k = (case B of [] \<Rightarrow> None
     | b # _ \<Rightarrow> if key_at (memory l) b = k then Some (value_at (memory l) b) else None)"
proof -
  note split = skip_split [OF wf, of k, folded B_def]
  let ?A = "takeWhile (\<lambda>p. key_at (memory l) p < k) xs"
  have "map_of (content l ?A) k = None" using split(2) by (auto simp: content_def map_of_eq_None_iff)
  moreover have "map_of (content l (tl B)) k = None" if "B \<noteq> []"
    using split(4) that by (auto simp: content_def map_of_eq_None_iff)
  moreover have "content l xs = content l ?A @ content l B" using split(1) by (metis content_def map_append)
  ultimately show ?thesis
    by (cases B) (auto simp: map_add_def content_def split: option.splits)
qed

lemma search_spec:
  assumes wf: "skip_wf l xs"
  shows "search_element k l = Some (map_of (content l xs) k)"
proof -
  let ?h = "memory l" and ?B = "dropWhile (\<lambda>p. key_at (memory l) p < k) xs"
  let ?A = "takeWhile (\<lambda>p. key_at (memory l) p < k) xs"
  obtain upd where "descend ?h k (skip_list_level l) (header l) [] = Some (last (header l # ?A), upd)"
    using descend_skip [OF wf, of k "[]"] by blast
  then have eq: "search_element k l = do { nxt \<leftarrow> get_forward ?h 0 (last (header l # ?A));
      (case nxt of None \<Rightarrow> Some None
       | Some p \<Rightarrow> do { n \<leftarrow> ?h p; Some (if node_key n = k then Some (node_value n) else None) }) }"
    by (simp add: search_element_def)
  show ?thesis
  proof (cases ?B)
    case Nil
    show ?thesis unfolding eq next_of_pred [OF wf] lookup_split [OF wf] Nil by simp
  next
    case (Cons b bs)
    have "b \<in> set xs" using Cons by (metis list.set_intros(1) set_dropWhileD)
    then obtain n where n: "?h b = Some n" using skip_wfD(2) [OF wf] by auto
    show ?thesis unfolding eq next_of_pred [OF wf] lookup_split [OF wf] Cons
      by (simp add: n key_at_def value_at_def)
  qed
qed

section \<open>Inserting\<close>

lemma link_ok:
  assumes "nodes_wf h m" and "distinct is" and "n \<in> dom h"
    and "\<forall>i \<in> set is. i < length upd \<and> upd ! i = Some (u i) \<and> u i \<in> dom h \<and> u i \<noteq> n \<and> i \<le> lev h (u i) \<and> i \<le> lev h n"
  shows "\<exists>h'. link upd n is h = Some h' \<and> same_nodes h h' \<and>
     (\<forall>j r. get_forward h' j r = (if j \<in> set is \<and> r = n then get_forward h j (u j)
        else if j \<in> set is \<and> r = u j then Some (Some n) else get_forward h j r))"
  using assms
proof (induction "is" arbitrary: h)
  case (Cons i "is")
  from Cons.prems(4) have i: "i < length upd" "upd ! i = Some (u i)" "u i \<in> dom h" "u i \<noteq> n" "i \<le> lev h (u i)" "i \<le> lev h n"
    by simp_all
  obtain q where q: "get_forward h i (u i) = Some q" using get_forward_Some [OF Cons.prems(1) i(3)] i(5) by blast
  obtain h1 where h1: "set_forward i n q h = Some h1" "same_nodes h h1"
    "\<And>j r. get_forward h1 j r = (if r = n \<and> j = i then Some q else get_forward h j r)"
    using set_forward_ok [OF Cons.prems(1,3) i(6), of q] by blast
  note s1 = same_nodesD [OF h1(2)]
  obtain h2 where h2: "set_forward i (u i) (Some n) h1 = Some h2" "same_nodes h1 h2"
    "\<And>j r. get_forward h2 j r = (if r = u i \<and> j = i then Some (Some n) else get_forward h1 j r)"
    using set_forward_ok [OF s1(5) [OF Cons.prems(1)], of "u i" i "Some n"] s1(1,2) i(3,5) by auto
  note s2 = same_nodesD [OF same_nodes_trans [OF h1(2) h2(2)]]
  obtain h' where h': "link upd n is h2 = Some h'" "same_nodes h2 h'"
    "\<forall>j r. get_forward h' j r = (if j \<in> set is \<and> r = n then get_forward h2 j (u j)
        else if j \<in> set is \<and> r = u j then Some (Some n) else get_forward h2 j r)"
    using Cons.IH [of h2] s2 Cons.prems by auto
  have "get_forward h' j r = (if j \<in> set (i # is) \<and> r = n then get_forward h j (u j)
        else if j \<in> set (i # is) \<and> r = u j then Some (Some n) else get_forward h j r)" for j r
    using h'(3) h2(3) h1(3) Cons.prems(2,4) i(4) q by auto
  moreover have "link upd n (i # is) h = Some h'" using i q h1(1) h2(1) h'(1) by simp
  moreover have "same_nodes h h'" using same_nodes_trans h1(2) h2(2) h'(2) by blast
  ultimately show ?case by blast
qed simp

text \<open>Linking a node between \<open>A\<close> and \<open>B\<close> on the levels up to its own.\<close>

lemma chain_insert:
  assumes ch: "chain h i p (at_least h i (A @ B))" and dist: "distinct (p # A @ B)" and n: "n \<notin> set (p # A @ B)"
    and fw: "\<And>r. get_forward h' i r = (if r = n then get_forward h i (pred_at h p A i)
        else if r = pred_at h p A i then Some (Some n) else get_forward h i r)"
  shows "chain h' i p (at_least h i A @ n # at_least h i B)"
proof -
  let ?u = "pred_at h p A i"
  have u: "?u = last (p # at_least h i A)" by (simp add: pred_at_def)
  have mem: "?u \<in> set (p # A)" unfolding u by (metis filter_is_subset insert_mono last_in_set list.distinct(1) list.simps(15) subsetD)
  have tail: "chain h i ?u (at_least h i B)"
    using chain_suffix [of h i p "at_least h i A" "at_least h i B"] ch unfolding u filter_append by blast
  have B: "chain h' i n (at_least h i B)"
  proof (cases "at_least h i B")
    case Nil
    with tail fw show ?thesis by simp
  next
    case (Cons b bs)
    have "chain h' i b bs = chain h i b bs"
    proof (rule chain_cong)
      fix q assume "q \<in> set (b # bs)"
      then have "q \<in> set B" using Cons by (metis filter_is_subset subsetD)
      then show "get_forward h' i q = get_forward h i q" using fw mem dist n by auto
    qed
    with tail fw Cons show ?thesis by simp
  qed
  show ?thesis
  proof (rule chain_replace [of h i p "at_least h i A" "at_least h i B"])
    show "distinct (p # at_least h i A)" using dist by auto
    then have nb: "?u \<notin> set (butlast (p # at_least h i A))"
      unfolding u by (metis distinct_append append_butlast_last_id disjoint_iff list.distinct(1) list.set_intros(1))
    show "get_forward h' i q = get_forward h i q" if "q \<in> set (butlast (p # at_least h i A))" for q
    proof -
      have "q \<in> set (p # A)" using that in_set_butlastD by fastforce
      then show ?thesis using fw nb that n by auto
    qed
    have "?u \<noteq> n" using mem n by auto
    then show "chain h' i (last (p # at_least h i A)) (n # at_least h i B)" unfolding u [symmetric] using B fw [of ?u] by simp
  qed (use ch in simp)
qed


lemma raise_level_nth:
  assumes "rl \<le> max_level l" and "length upd = max_level l + 1" and "raise_level rl l upd = (upd', l')"
  shows "l' = l\<lparr>skip_list_level := max rl (skip_list_level l)\<rparr>" and "length upd' = length upd"
    and "j \<le> rl \<Longrightarrow> upd' ! j = (if j \<le> skip_list_level l then upd ! j else Some (header l))"
proof -
  have f: "length (fold (\<lambda>i u. u[i := x]) is us) = length us \<and>
      (\<forall>j < length us. fold (\<lambda>i u. u[i := x]) is us ! j = (if j \<in> set is then x else us ! j))" for x :: "addr option" and "is" us
    by (induction "is" arbitrary: us) (auto simp: nth_list_update)
  show "l' = l\<lparr>skip_list_level := max rl (skip_list_level l)\<rparr>" using assms(3) by (auto simp: raise_level_def split: if_splits)
  show "length upd' = length upd" using assms(3) f by (auto simp: raise_level_def split: if_splits)
  show "upd' ! j = (if j \<le> skip_list_level l then upd ! j else Some (header l))" if "j \<le> rl"
    using assms that f [of "Some (header l)" "[skip_list_level l + 1..<rl + 1]" upd] by (auto simp: raise_level_def split: if_splits)
qed

lemma pred_at_cong:
  assumes "\<And>q. q \<in> set A \<Longrightarrow> lev h' q = lev h q"
  shows "pred_at h' p A i = pred_at h p A i" and "at_least h' i A = at_least h i A"
  using assms by (auto simp: pred_at_def cong: filter_cong)

lemma pred_at_level:
  assumes "i \<le> lev h p"
  shows "pred_at h p A i \<in> set (p # A)" and "i \<le> lev h (pred_at h p A i)"
proof -
  have "pred_at h p A i \<in> set (p # at_least h i A)" unfolding pred_at_def by (rule last_in_set) simp
  then show "pred_at h p A i \<in> set (p # A)" "i \<le> lev h (pred_at h p A i)" using assms by auto
qed

lemma new_node:
  assumes "n \<notin> dom h"
  shows "lev (h(n \<mapsto> Node k v rl)) q = (if q = n then rl else lev h q)"
    and "get_forward (h(n \<mapsto> Node k v rl)) i q = (if q = n then if i \<le> rl then Some None else None else get_forward h i q)"
    and "nodes_wf h m \<Longrightarrow> rl \<le> m \<Longrightarrow> nodes_wf (h(n \<mapsto> Node k v rl)) m"
  using assms by (auto simp: lev_def get_forward_def Node_def nodes_wf_def nth_Cons split: nat.splits)


lemma link_wf:
  assumes wf: "skip_wf l (A @ B)" and rl: "rl \<le> max_level l"
    and lo: "\<forall>q \<in> set A. key_at (memory l) q < k" and hi: "\<forall>q \<in> set B. k < key_at (memory l) q"
    and upd: "max_level l < length upd" "\<forall>j \<le> rl. upd ! j = Some (pred_at (memory l) (header l) A j)"
  shows "\<exists>h'. link upd (fresh l) [0..<rl + 1] ((memory l)(fresh l \<mapsto> Node k v rl)) = Some h' \<and>
     (let l' = l\<lparr>memory := h', skip_list_level := max rl (skip_list_level l), fresh := fresh l + 1, element_count := element_count l + 1\<rparr>
      in skip_wf l' (A @ fresh l # B) \<and> content l' (A @ fresh l # B) = content l A @ (k, v) # content l B)"
proof -
  let ?n = "fresh l" and ?p = "header l" and ?h = "memory l"
  let ?g = "?h(?n \<mapsto> Node k v rl)" and ?u = "pred_at ?h ?p A"
  note w = skip_wfD [OF wf]
  have nd: "?n \<notin> set (?p # A @ B)" using w(10) [of ?n] by auto
  then have n: "?n \<notin> dom ?h" by (simp only: w(2) simp_thms)
  note nn = new_node [OF n, where k = k and v = v and rl = rl]
  have u: "?u i \<in> set (?p # A)" "i \<le> lev ?h (?u i)" if "i \<le> rl" for i
    using pred_at_level [of i ?h ?p A] that rl w(4) by auto
  have "\<forall>i \<in> set [0..<rl + 1]. i < length upd \<and> upd ! i = Some (?u i) \<and> ?u i \<in> dom ?g \<and> ?u i \<noteq> ?n \<and> i \<le> lev ?g (?u i) \<and> i \<le> lev ?g ?n"
  proof
    fix i assume "i \<in> set [0..<rl + 1]"
    then have i: "i \<le> rl" by auto
    have "?u i \<noteq> ?n" "?u i \<in> dom ?h" using u(1) [OF i] nd w(2) by auto
    then show "i < length upd \<and> upd ! i = Some (?u i) \<and> ?u i \<in> dom ?g \<and> ?u i \<noteq> ?n \<and> i \<le> lev ?g (?u i) \<and> i \<le> lev ?g ?n"
      using i upd rl u(2) [OF i] by (simp add: nn)
  qed
  then obtain h' where h': "link upd ?n [0..<rl + 1] ?g = Some h'" "same_nodes ?g h'"
    "\<forall>j r. get_forward h' j r = (if j \<in> set [0..<rl + 1] \<and> r = ?n then get_forward ?g j (?u j)
        else if j \<in> set [0..<rl + 1] \<and> r = ?u j then Some (Some ?n) else get_forward ?g j r)"
    using link_ok [OF nn(3) [OF w(3) rl], of "[0..<rl + 1]" ?n upd ?u] by auto
  note s = same_nodesD [OF h'(2)]
  have lv: "lev h' q = (if q = ?n then rl else lev ?h q)" for q using s(2) nn(1) by simp
  have ka: "key_at h' q = (if q = ?n then k else key_at ?h q)" "value_at h' q = (if q = ?n then v else value_at ?h q)"
    if "q \<in> set (A @ ?n # B)" for q
  proof -
    have "q \<in> dom ?g" using that w(2) by auto
    from s(3,4) [OF this] show "key_at h' q = (if q = ?n then k else key_at ?h q)" "value_at h' q = (if q = ?n then v else value_at ?h q)"
      by (simp_all add: key_at_def value_at_def Node_def)
  qed
  have eqs: "map (key_at h') A = map (key_at ?h) A" "map (key_at h') B = map (key_at ?h) B"
    "map (value_at h') A = map (value_at ?h) A" "map (value_at h') B = map (value_at ?h) B"
    using ka nd by auto
  have fl: "at_least h' i A = at_least ?h i A" "at_least h' i B = at_least ?h i B" for i
    using lv nd by (auto intro!: filter_cong)
  have ch: "chain h' i ?p (at_least h' i (A @ ?n # B))" if i: "i \<le> max_level l" for i
  proof (cases "i \<le> rl")
    case True
    have "chain h' i ?p (at_least ?h i A @ ?n # at_least ?h i B)"
    proof (rule chain_insert)
      show "chain ?h i ?p (at_least ?h i (A @ B))" by (rule w(6) [OF i])
      show "get_forward h' i r = (if r = ?n then get_forward ?h i (?u i) else if r = ?u i then Some (Some ?n) else get_forward ?h i r)" for r
        using h'(3) True u(1) [OF True] nd by (auto simp: nn(2))
    qed (use w(1) nd in auto)
    then show ?thesis using True lv [of ?n] by (simp add: fl)
  next
    case False
    have "chain h' i ?p (at_least ?h i (A @ B)) = chain ?h i ?p (at_least ?h i (A @ B))"
      by (rule chain_cong) (use h'(3) False nd in \<open>auto simp: nn(2)\<close>)
    then show ?thesis using False lv [of ?n] w(6) [OF i] by (simp add: fl)
  qed
  let ?l = "l\<lparr>memory := h', skip_list_level := max rl (skip_list_level l), fresh := ?n + 1, element_count := element_count l + 1\<rparr>"
  have "skip_wf ?l (A @ ?n # B)"
    unfolding skip_wf_def
  proof (intro conjI)
    show "sorted_wrt (<) (map (key_at (memory ?l)) (A @ ?n # B))"
      using w(5) lo hi ka [of ?n] by (simp add: eqs sorted_wrt_append)
    show "dom (memory ?l) = set (header ?l # A @ ?n # B)" using s(1) w(2) by auto
    show "nodes_wf (memory ?l) (max_level ?l)" using s(5) nn(3) w(3) rl by simp
    show "\<forall>i \<le> max_level ?l. chain (memory ?l) i (header ?l) (at_least (memory ?l) i (A @ ?n # B))" using ch by simp
    show "\<forall>p \<in> set (A @ ?n # B). lev (memory ?l) p \<le> skip_list_level ?l" using lv w(7) by (auto simp: le_max_iff_disj)
  qed (use w(1,4,8,9) w(10) nd lv rl in \<open>auto simp: less_Suc_eq\<close>)
  moreover have "content ?l (A @ ?n # B) = content l A @ (k, v) # content l B"
    using ka nd by (auto simp: content_def)
  ultimately show ?thesis using h'(1) by auto
qed

text \<open>The abstract operations on the sorted list of pairs.\<close>

definition put_pair :: "'k::linorder \<Rightarrow> 'v \<Rightarrow> ('k \<times> 'v) list \<Rightarrow> ('k \<times> 'v) list" where
  "put_pair k v kvs = filter (\<lambda>e. fst e < k) kvs @ (k, v) # filter (\<lambda>e. k < fst e) kvs"

definition drop_pair :: "'k::linorder \<Rightarrow> ('k \<times> 'v) list \<Rightarrow> ('k \<times> 'v) list" where
  "drop_pair k kvs = filter (\<lambda>e. fst e \<noteq> k) kvs"

lemma map_of_filter_key: "map_of (filter (\<lambda>e. P (fst e)) kvs) k = (if P k then map_of kvs k else None)"
  by (induction kvs) auto

lemma map_of_put_pair: "map_of (put_pair k v kvs) = (map_of kvs)(k \<mapsto> v)"
proof
  fix a
  show "map_of (put_pair k v kvs) a = ((map_of kvs)(k \<mapsto> v)) a"
    unfolding put_pair_def map_of_append map_add_def
    by (cases "a < k"; cases "k < a") (auto simp: map_of_filter_key [of "\<lambda>b. b < k"] map_of_filter_key [of "\<lambda>b. k < b"] split: option.splits)
qed

lemma map_of_drop_pair: "map_of (drop_pair k kvs) = (map_of kvs)(k := None)"
  by (auto simp: drop_pair_def map_of_filter_key [of "\<lambda>b. b \<noteq> k"])

lemma put_drop_pair: "put_pair k v (drop_pair k kvs) = put_pair k v kvs"
proof -
  have "filter (\<lambda>x. fst x \<noteq> k \<and> fst x < k) kvs = filter (\<lambda>x. fst x < k) kvs"
    "filter (\<lambda>x. fst x \<noteq> k \<and> k < fst x) kvs = filter (\<lambda>x. k < fst x) kvs"
    by (auto intro: filter_cong)
  then show ?thesis by (simp only: put_pair_def drop_pair_def filter_filter)
qed

lemma put_content:
  assumes "\<forall>q \<in> set A. key_at (memory l) q < k" and "\<forall>q \<in> set B. k < key_at (memory l) q"
  shows "put_pair k v (content l (A @ B)) = content l A @ (k, v) # content l B"
proof -
  have f: "filter (\<lambda>e. fst e < k) (content l A) = content l A" "filter (\<lambda>e. fst e < k) (content l B) = []"
    "filter (\<lambda>e. k < fst e) (content l A) = []" "filter (\<lambda>e. k < fst e) (content l B) = content l B"
    using assms by (auto simp: content_def filter_empty_conv filter_id_conv dest: order.strict_trans)
  have "content l (A @ B) = content l A @ content l B" by (simp add: content_def)
  then show ?thesis by (simp add: put_pair_def f)
qed

lemma random_level: "get_random_level rands l = Some rl \<Longrightarrow> rl \<le> max_level l"
  by (auto simp: get_random_level_def bind_eq_Some_conv)

lemma insert_fresh:
  assumes wf: "skip_wf l xs" and new: "map_of (content l xs) k = None" and rl: "get_random_level rands l = Some rl"
  shows "\<exists>l' xs'. insert_element rands k v l = Some (0, l') \<and> skip_wf l' xs' \<and> content l' xs' = put_pair k v (content l xs) \<and>
     max_level l' = max_level l"
proof -
  let ?h = "memory l" and ?A = "takeWhile (\<lambda>p. key_at (memory l) p < k) xs" and ?B = "dropWhile (\<lambda>p. key_at (memory l) p < k) xs"
  let ?old = "replicate (max_level l + 1) (None :: addr option)"
  obtain upd where d: "descend ?h k (skip_list_level l) (header l) ?old = Some (last (header l # ?A), upd)"
    and len: "length upd = max_level l + 1"
    and nth: "\<forall>j < max_level l + 1. upd ! j = (if j \<le> skip_list_level l then Some (pred_at ?h (header l) ?A j) else ?old ! j)"
    using descend_skip [OF wf, of k ?old] by (auto simp del: replicate_Suc)
  note split = skip_split [OF wf, of k]
  have hd: "?B \<noteq> [] \<Longrightarrow> key_at ?h (hd ?B) \<noteq> k"
    using new unfolding lookup_split [OF wf] by (cases ?B) auto
  have "\<forall>q \<in> set B. \<not> f q < k \<Longrightarrow> (B \<noteq> [] \<Longrightarrow> \<forall>q \<in> set (tl B). k < f q) \<Longrightarrow> (B \<noteq> [] \<Longrightarrow> f (hd B) \<noteq> k) \<Longrightarrow> \<forall>q \<in> set B. k < f q"
    for B and f :: "addr \<Rightarrow> 'a" by (cases B) (auto simp: not_less)
  from this [OF split(3,4) hd] have hi: "\<forall>q \<in> set ?B. k < key_at ?h q" .
  have wf': "skip_wf l (?A @ ?B)" using wf by simp
  obtain upd' l1 where r: "raise_level rl l upd = (upd', l1)" by (cases "raise_level rl l upd")
  note rn = raise_level_nth [OF random_level [OF rl] len r]
  have "\<forall>j \<le> rl. upd' ! j = Some (pred_at ?h (header l) ?A j)"
  proof (intro allI impI)
    fix j assume j: "j \<le> rl"
    show "upd' ! j = Some (pred_at ?h (header l) ?A j)"
    proof (cases "j \<le> skip_list_level l")
      case False
      have "lev ?h q \<le> skip_list_level l" if "q \<in> set ?A" for q
        using skip_wfD(7) [OF wf, of q] that by (auto dest: set_takeWhileD)
      then have "at_least ?h j ?A = []" using False by (force simp: filter_empty_conv)
      then show ?thesis using rn(3) [OF j] False by (simp add: pred_at_def)
    qed (use rn(3) [OF j] nth random_level [OF rl] j in auto)
  qed
  then obtain h' where h': "link upd' (fresh l) [0..<rl + 1] (?h(fresh l \<mapsto> Node k v rl)) = Some h'"
    and l': "let l' = l\<lparr>memory := h', skip_list_level := max rl (skip_list_level l), fresh := fresh l + 1, element_count := element_count l + 1\<rparr>
      in skip_wf l' (?A @ fresh l # ?B) \<and> content l' (?A @ fresh l # ?B) = content l ?A @ (k, v) # content l ?B"
    using link_wf [OF wf' random_level [OF rl] split(2) hi, of upd' v] rn(2) len by auto
  let ?l = "l\<lparr>memory := h', skip_list_level := max rl (skip_list_level l), fresh := fresh l + 1, element_count := element_count l + 1\<rparr>"
  have there: "(case (case ?B of [] \<Rightarrow> None | b # x \<Rightarrow> Some b) of None \<Rightarrow> Some False
      | Some p \<Rightarrow> do { n \<leftarrow> ?h p; Some (node_key n = k) }) = Some False"
  proof (cases ?B)
    case (Cons b bs)
    have "b \<in> set xs" using Cons by (metis list.set_intros(1) set_dropWhileD)
    then obtain n where "?h b = Some n" using skip_wfD(2) [OF wf] by auto
    with Cons hd show ?thesis unfolding Cons by (auto simp: key_at_def)
  next
    case Nil
    show ?thesis unfolding Nil by simp
  qed
  have "insert_element rands k v l = Some (0, ?l)"
    unfolding insert_element_def d Option.bind.bind_lunit prod.case next_of_pred [OF wf] there
    using rl r rn(1) h' by (simp add: create_node_def del: upt_Suc)
  moreover have "content l ?A @ (k, v) # content l ?B = put_pair k v (content l xs)"
    using put_content [OF split(2) hi, of v] by simp
  ultimately show ?thesis using l' by (auto simp: Let_def)
qed

lemma insert_present:
  assumes wf: "skip_wf l xs" and there: "map_of (content l xs) k = Some v'"
  shows "insert_element rands k v l = Some (1, l)"
proof -
  let ?h = "memory l" and ?A = "takeWhile (\<lambda>p. key_at (memory l) p < k) xs"
  obtain upd where d: "descend ?h k (skip_list_level l) (header l) (replicate (max_level l + 1) None) = Some (last (header l # ?A), upd)"
    using descend_skip [OF wf, of k "replicate (max_level l + 1) None"] by blast
  obtain b bs where B: "dropWhile (\<lambda>p. key_at ?h p < k) xs = b # bs" and b: "key_at ?h b = k"
    using there unfolding lookup_split [OF wf] by (auto split: list.splits if_splits)
  have "b \<in> set xs" using B by (metis list.set_intros(1) set_dropWhileD)
  then obtain n where "?h b = Some n" using skip_wfD(2) [OF wf] by auto
  then show ?thesis unfolding insert_element_def d Option.bind.bind_lunit prod.case next_of_pred [OF wf] B
    using b by (simp add: key_at_def)
qed

section \<open>Deleting\<close>

lemma unlink_ok:
  assumes "nodes_wf h m" and "sorted is" and "distinct is" and "c \<in> dom h"
    and "\<forall>i \<in> set is. i < length upd \<and> upd ! i = Some (u i) \<and> u i \<in> dom h \<and> u i \<noteq> c \<and> i \<le> lev h (u i) \<and>
      (get_forward h i (u i) = Some (Some c) \<longleftrightarrow> i \<le> lev h c)"
  shows "\<exists>h'. unlink upd c is h = Some h' \<and> same_nodes h h' \<and>
     (\<forall>j r. get_forward h' j r = (if j \<in> set is \<and> j \<le> lev h c \<and> r = u j then get_forward h j c else get_forward h j r))"
  using assms
proof (induction "is" arbitrary: h)
  case (Cons i "is")
  from Cons.prems(5) have i: "i < length upd" "upd ! i = Some (u i)" "u i \<in> dom h" "u i \<noteq> c" "i \<le> lev h (u i)"
    "get_forward h i (u i) = Some (Some c) \<longleftrightarrow> i \<le> lev h c" by simp_all
  obtain q where q: "get_forward h i (u i) = Some q" using get_forward_Some [OF Cons.prems(1) i(3)] i(5) by blast
  show ?case
  proof (cases "i \<le> lev h c")
    case False
    have "unlink upd c (i # is) h = Some h" using i q False by simp
    moreover have "\<forall>j \<in> set (i # is). \<not> j \<le> lev h c" using Cons.prems(2) False by auto
    ultimately show ?thesis by (intro exI [of _ h]) auto
  next
    case True
    obtain r where r: "get_forward h i c = Some r" using get_forward_Some [OF Cons.prems(1,4)] True by blast
    obtain h1 where h1: "set_forward i (u i) r h = Some h1" "same_nodes h h1"
      "\<And>j s. get_forward h1 j s = (if s = u i \<and> j = i then Some r else get_forward h j s)"
      using set_forward_ok [OF Cons.prems(1) i(3,5), of r] by blast
    note s1 = same_nodesD [OF h1(2)]
    obtain h' where h': "unlink upd c is h1 = Some h'" "same_nodes h1 h'"
      "\<forall>j s. get_forward h' j s = (if j \<in> set is \<and> j \<le> lev h1 c \<and> s = u j then get_forward h1 j c else get_forward h1 j s)"
    proof -
      have "\<forall>j \<in> set is. j < length upd \<and> upd ! j = Some (u j) \<and> u j \<in> dom h1 \<and> u j \<noteq> c \<and> j \<le> lev h1 (u j) \<and>
          (get_forward h1 j (u j) = Some (Some c) \<longleftrightarrow> j \<le> lev h1 c)"
        using Cons.prems(3,5) by (auto simp: s1(1,2) h1(3))
      then show ?thesis using that Cons.IH [OF s1(5) [OF Cons.prems(1)]] Cons.prems(2-4) s1(1) by auto
    qed
    have "get_forward h' j s = (if j \<in> set (i # is) \<and> j \<le> lev h c \<and> s = u j then get_forward h j c else get_forward h j s)" for j s
      using h'(3) h1(3) Cons.prems(3) i(4) r True s1(2) by auto
    moreover have "unlink upd c (i # is) h = Some h'" using i q True r h1(1) h'(1) by simp
    moreover have "same_nodes h h'" using same_nodes_trans h1(2) h'(2) by blast
    ultimately show ?thesis by blast
  qed
qed simp

lemma chain_remove:
  assumes ch: "chain h i p (at_least h i A @ c # at_least h i B)" and dist: "distinct (p # A @ c # B)"
    and fw: "\<And>r. r \<noteq> c \<Longrightarrow> get_forward h' i r = (if r = pred_at h p A i then get_forward h i c else get_forward h i r)"
  shows "chain h' i p (at_least h i A @ at_least h i B)"
proof -
  let ?u = "pred_at h p A i"
  have u: "?u = last (p # at_least h i A)" by (simp add: pred_at_def)
  have mem: "?u \<in> set (p # A)" unfolding u by (metis filter_is_subset insert_mono last_in_set list.distinct(1) list.simps(15) subsetD)
  then have uc: "?u \<noteq> c" using dist by auto
  have tail: "chain h i c (at_least h i B)"
    using chain_suffix [OF ch] by simp
  have B: "chain h' i ?u (at_least h i B)"
  proof (cases "at_least h i B")
    case Nil
    with tail fw uc show ?thesis by simp
  next
    case (Cons b bs)
    have "chain h' i b bs = chain h i b bs"
    proof (rule chain_cong)
      fix q assume "q \<in> set (b # bs)"
      then have "q \<in> set B" using Cons by (metis filter_is_subset subsetD)
      then have "q \<noteq> c" "q \<noteq> ?u" using mem dist by auto
      then show "get_forward h' i q = get_forward h i q" using fw by simp
    qed
    with tail fw uc Cons show ?thesis by simp
  qed
  show ?thesis
  proof (rule chain_replace [OF ch])
    show "distinct (p # at_least h i A)" using dist by auto
    then have nb: "?u \<notin> set (butlast (p # at_least h i A))"
      unfolding u by (metis distinct_append append_butlast_last_id disjoint_iff list.distinct(1) list.set_intros(1))
    show "get_forward h' i q = get_forward h i q" if "q \<in> set (butlast (p # at_least h i A))" for q
    proof -
      have "q \<in> set (p # A)" using that in_set_butlastD by fastforce
      then have "q \<noteq> c" using dist by auto
      then show ?thesis using fw nb that by auto
    qed
  qed (use B in \<open>simp only: u\<close>)
qed

lemma lower_level_ok:
  assumes "\<forall>j \<le> i. \<exists>q. get_forward h j p = Some q"
  shows "\<exists>lv. lower_level h p i = Some lv \<and> lv \<le> i \<and> (\<forall>j. lv < j \<longrightarrow> j \<le> i \<longrightarrow> get_forward h j p = Some None)"
  using assms
proof (induction i)
  case (Suc i)
  from Suc.prems obtain q where q: "get_forward h (Suc i) p = Some q" by blast
  show ?case
  proof (cases q)
    case None
    from Suc obtain lv where "lower_level h p i = Some lv" "lv \<le> i" "\<forall>j. lv < j \<longrightarrow> j \<le> i \<longrightarrow> get_forward h j p = Some None"
      by auto
    with None q show ?thesis by (auto simp: le_Suc_eq)
  qed (use q in auto)
qed simp

lemma drop_content:
  assumes "\<forall>q \<in> set (A @ B). key_at (memory l) q \<noteq> k" and "key_at (memory l) c = k"
  shows "drop_pair k (content l (A @ c # B)) = content l (A @ B)"
  using assms by (auto simp: drop_pair_def content_def filter_empty_conv intro!: filter_True)


lemma free_node:
  assumes "n \<notin> set qs" and "q \<noteq> n"
  shows "lev (h(n := None)) q = lev h q" and "get_forward (h(n := None)) i q = get_forward h i q"
    and "key_at (h(n := None)) q = key_at h q" and "value_at (h(n := None)) q = value_at h q"
    and "chain (h(n := None)) i q qs = chain h i q qs"
proof -
  show "chain (h(n := None)) i q qs = chain h i q qs"
    by (rule chain_cong) (use assms in \<open>auto simp: get_forward_def\<close>)
qed (use assms in \<open>auto simp: lev_def get_forward_def key_at_def value_at_def\<close>)

lemma unlink_wf:
  assumes wf: "skip_wf l (A @ c # B)"
    and upd: "length upd = max_level l + 1" "\<forall>j \<le> skip_list_level l. upd ! j = Some (pred_at (memory l) (header l) A j)"
  shows "\<exists>h' lv. unlink upd c [0..<skip_list_level l + 1] (memory l) = Some h' \<and> lower_level h' (header l) (skip_list_level l) = Some lv \<and>
     (let l' = l\<lparr>memory := h'(c := None), skip_list_level := lv, element_count := element_count l - 1\<rparr>
      in skip_wf l' (A @ B) \<and> content l' (A @ B) = content l (A @ B))"
proof -
  let ?p = "header l" and ?h = "memory l" and ?u = "pred_at (memory l) (header l) A"
  note w = skip_wfD [OF wf]
  have cd: "c \<in> dom ?h" using w(2) by auto
  have cn: "c \<notin> set (?p # A @ B)" using w(1) by auto
  have u: "?u i \<in> set (?p # A)" "i \<le> lev ?h (?u i)" if "i \<le> skip_list_level l" for i
    using pred_at_level [of i ?h ?p A] that w(4,8) by auto
  have nxt: "get_forward ?h i (?u i) = Some (Some c) \<longleftrightarrow> i \<le> lev ?h c" if i: "i \<le> skip_list_level l" for i
  proof -
    have ch: "chain ?h i ?p (at_least ?h i A @ at_least ?h i (c # B))" using w(6) [of i] i w(8) by simp
    show ?thesis
    proof (cases "at_least ?h i (c # B)")
      case Nil
      then have "get_forward ?h i (?u i) = Some None" using ch chain_end [of ?h i ?p] by (simp only: pred_at_def append_Nil2)
      with Nil show ?thesis by (auto split: if_splits)
    next
      case (Cons b bs)
      then have "get_forward ?h i (?u i) = Some (Some b)" using ch chain_get [of ?h i ?p] by (simp only: pred_at_def)
      moreover have "b = c \<longleftrightarrow> i \<le> lev ?h c"
      proof (cases "i \<le> lev ?h c")
        case False
        with Cons have "b \<in> set B" by (metis filter.simps(2) filter_is_subset list.set_intros(1) subsetD)
        with cn False show ?thesis by auto
      qed (use Cons in simp)
      ultimately show ?thesis by simp
    qed
  qed
  have "\<forall>i \<in> set [0..<skip_list_level l + 1]. i < length upd \<and> upd ! i = Some (?u i) \<and> ?u i \<in> dom ?h \<and> ?u i \<noteq> c \<and> i \<le> lev ?h (?u i) \<and>
      (get_forward ?h i (?u i) = Some (Some c) \<longleftrightarrow> i \<le> lev ?h c)"
  proof
    fix i assume "i \<in> set [0..<skip_list_level l + 1]"
    then have i: "i \<le> skip_list_level l" by auto
    show "i < length upd \<and> upd ! i = Some (?u i) \<and> ?u i \<in> dom ?h \<and> ?u i \<noteq> c \<and> i \<le> lev ?h (?u i) \<and>
      (get_forward ?h i (?u i) = Some (Some c) \<longleftrightarrow> i \<le> lev ?h c)"
      using i upd w(2,8) u [OF i] nxt [OF i] cn by auto
  qed
  then obtain h' where h': "unlink upd c [0..<skip_list_level l + 1] ?h = Some h'" "same_nodes ?h h'"
    "\<forall>j r. get_forward h' j r = (if j \<in> set [0..<skip_list_level l + 1] \<and> j \<le> lev ?h c \<and> r = ?u j then get_forward ?h j c else get_forward ?h j r)"
    using unlink_ok [OF w(3) sorted_upt distinct_upt cd, of 0 "skip_list_level l + 1" upd ?u] by blast
  note s = same_nodesD [OF h'(2)]
  have lvl: "lev ?h c \<le> skip_list_level l" using w(7) by auto
  have fl: "at_least h' i A = at_least ?h i A" "at_least h' i B = at_least ?h i B" for i by (simp_all add: s(2))
  have ch: "chain h' i ?p (at_least ?h i (A @ B))" if i: "i \<le> max_level l" for i
  proof (cases "i \<le> lev ?h c")
    case True
    have "chain h' i ?p (at_least ?h i A @ at_least ?h i B)"
    proof (rule chain_remove [where c = c])
      show "chain ?h i ?p (at_least ?h i A @ c # at_least ?h i B)" using w(6) [OF i] True by simp
      show "distinct (?p # A @ c # B)" by (rule w(1))
    qed (use h'(3) True lvl in auto)
    then show ?thesis by simp
  next
    case False
    have "chain h' i ?p (at_least ?h i (A @ B)) = chain ?h i ?p (at_least ?h i (A @ B))"
      by (rule chain_cong) (use h'(3) False in auto)
    then show ?thesis using False w(6) [OF i] by simp
  qed
  have "\<forall>j \<le> skip_list_level l. \<exists>q. get_forward h' j ?p = Some q"
    using get_forward_Some [OF s(5) [OF w(3)], of ?p] s(1,2) w(2,4,8) by auto
  then obtain lv where lv: "lower_level h' ?p (skip_list_level l) = Some lv" "lv \<le> skip_list_level l"
    "\<forall>j. lv < j \<longrightarrow> j \<le> skip_list_level l \<longrightarrow> get_forward h' j ?p = Some None"
    using lower_level_ok by blast
  have low: "lev ?h q \<le> lv" if q: "q \<in> set (A @ B)" for q
  proof (rule ccontr)
    assume no: "\<not> lev ?h q \<le> lv"
    have lq: "lev ?h q \<le> skip_list_level l" using w(7) [of q] q by auto
    have "q \<in> set (at_least ?h (lev ?h q) (A @ B))" using q by simp
    moreover have "get_forward h' (lev ?h q) ?p = Some None" using lv(3) no lq by simp
    ultimately show False using ch [of "lev ?h q"] lq w(8) by (cases "at_least ?h (lev ?h q) (A @ B)") (auto simp: filter_empty_conv)
  qed
  let ?l = "l\<lparr>memory := h'(c := None), skip_list_level := lv, element_count := element_count l - 1\<rparr>"
  have fr: "lev (h'(c := None)) q = lev ?h q" "key_at (h'(c := None)) q = key_at ?h q" "value_at (h'(c := None)) q = value_at ?h q"
    if "q \<in> set (?p # A @ B)" for q
  proof -
    have "q \<noteq> c" "q \<in> dom ?h" using that cn w(2) by auto
    then show "lev (h'(c := None)) q = lev ?h q" "key_at (h'(c := None)) q = key_at ?h q" "value_at (h'(c := None)) q = value_at ?h q"
      using free_node(1,3,4) [of c "[]" q h'] s(2-4) by simp_all
  qed
  have "skip_wf ?l (A @ B)"
    unfolding skip_wf_def
  proof (intro conjI)
    have "map (key_at (memory ?l)) (A @ B) = map (key_at ?h) (A @ B)" using fr(2) by auto
    then show "sorted_wrt (<) (map (key_at (memory ?l)) (A @ B))"
      using w(5) by (simp only:) (simp add: sorted_wrt_append)
    show "dom (memory ?l) = set (header ?l # A @ B)" using s(1) w(2) cn by auto
    show "nodes_wf (memory ?l) (max_level ?l)" using s(5) [OF w(3)] by (simp add: nodes_wf_def)
    show "\<forall>i \<le> max_level ?l. chain (memory ?l) i (header ?l) (at_least (memory ?l) i (A @ B))"
    proof (intro allI impI)
      fix i assume i: "i \<le> max_level ?l"
      have "at_least (memory ?l) i (A @ B) = at_least ?h i (A @ B)" using fr(1) by (intro filter_cong) auto
      moreover have "chain (h'(c := None)) i ?p (at_least ?h i (A @ B)) = chain h' i ?p (at_least ?h i (A @ B))"
        by (rule free_node(5)) (use cn in auto)
      ultimately show "chain (memory ?l) i (header ?l) (at_least (memory ?l) i (A @ B))" using ch i by simp
    qed
    show "\<forall>p \<in> set (A @ B). lev (memory ?l) p \<le> skip_list_level ?l" using low fr(1) by auto
  qed (use w(1,4,8,9) w(10) lv(2) fr(1) [of ?p] in auto)
  moreover have "content ?l (A @ B) = content l (A @ B)"
    using fr(2,3) by (simp add: content_def)
  ultimately show ?thesis using h'(1) lv(1) by (auto simp: Let_def)
qed


lemma delete_absent:
  assumes wf: "skip_wf l xs" and new: "map_of (content l xs) k = None"
  shows "delete_element k l = Some l"
proof -
  let ?h = "memory l" and ?A = "takeWhile (\<lambda>p. key_at (memory l) p < k) xs" and ?B = "dropWhile (\<lambda>p. key_at (memory l) p < k) xs"
  obtain upd where d: "descend ?h k (skip_list_level l) (header l) (replicate (max_level l + 1) None) = Some (last (header l # ?A), upd)"
    using descend_skip [OF wf, of k "replicate (max_level l + 1) None"] by blast
  note eq = delete_element_def d Option.bind.bind_lunit prod.case next_of_pred [OF wf]
  show ?thesis
  proof (cases ?B)
    case Nil
    show ?thesis unfolding eq Nil by simp
  next
    case (Cons b bs)
    have "b \<in> set xs" using Cons by (metis list.set_intros(1) set_dropWhileD)
    then obtain n where "?h b = Some n" using skip_wfD(2) [OF wf] by auto
    then show ?thesis unfolding eq Cons using new unfolding lookup_split [OF wf] Cons by (auto simp: key_at_def split: if_splits)
  qed
qed

lemma delete_present:
  assumes wf: "skip_wf l xs" and there: "map_of (content l xs) k = Some v"
  shows "\<exists>l' xs'. delete_element k l = Some l' \<and> skip_wf l' xs' \<and> content l' xs' = drop_pair k (content l xs) \<and> max_level l' = max_level l"
proof -
  let ?h = "memory l" and ?A = "takeWhile (\<lambda>p. key_at (memory l) p < k) xs"
  let ?old = "replicate (max_level l + 1) (None :: addr option)"
  obtain upd where d: "descend ?h k (skip_list_level l) (header l) ?old = Some (last (header l # ?A), upd)"
    and len: "length upd = max_level l + 1"
    and nth: "\<forall>j < max_level l + 1. upd ! j = (if j \<le> skip_list_level l then Some (pred_at ?h (header l) ?A j) else ?old ! j)"
    using descend_skip [OF wf, of k ?old] by (auto simp del: replicate_Suc)
  note split = skip_split [OF wf, of k]
  obtain c bs where B: "dropWhile (\<lambda>p. key_at ?h p < k) xs = c # bs" and c: "key_at ?h c = k"
    using there unfolding lookup_split [OF wf] by (auto split: list.splits if_splits)
  have xs: "xs = ?A @ c # bs" using split(1) B by simp
  have wf': "skip_wf l (?A @ c # bs)" using wf xs by simp
  have upd: "\<forall>j \<le> skip_list_level l. upd ! j = Some (pred_at ?h (header l) ?A j)"
    using nth skip_wfD(8) [OF wf] by auto
  obtain h' lv where h': "unlink upd c [0..<skip_list_level l + 1] ?h = Some h'" "lower_level h' (header l) (skip_list_level l) = Some lv"
    and l': "let l' = l\<lparr>memory := h'(c := None), skip_list_level := lv, element_count := element_count l - 1\<rparr>
      in skip_wf l' (?A @ bs) \<and> content l' (?A @ bs) = content l (?A @ bs)"
    using unlink_wf [OF wf' len upd] by blast
  obtain n where n: "?h c = Some n" using skip_wfD(2) [OF wf'] by auto
  have "delete_element k l = Some (l\<lparr>memory := h'(c := None), skip_list_level := lv, element_count := element_count l - 1\<rparr>)"
    unfolding delete_element_def d Option.bind.bind_lunit prod.case next_of_pred [OF wf] B
    using n c h' by (simp add: key_at_def del: upt_Suc)
  moreover have "drop_pair k (content l (?A @ c # bs)) = content l (?A @ bs)"
    by (rule drop_content [OF _ c]) (use split(2,4) B in auto)
  ultimately show ?thesis using l' xs by (auto simp: Let_def)
qed

section \<open>The store\<close>

text \<open>What level 0 leads through, and the states the operations keep.\<close>

definition contents :: "('k, 'v) skipList \<Rightarrow> ('k \<times> 'v) list option" where
  "contents l = do { first \<leftarrow> get_forward (memory l) 0 (header l); collect (memory l) first }"

definition skip_ok :: "('k::linorder, 'v) skipList \<Rightarrow> bool" where
  "skip_ok l \<longleftrightarrow> (\<exists>xs. skip_wf l xs)"

text \<open>The draws of \<open>rand()\<close> for one insertion end with an even number.\<close>

definition fair :: "nat list \<Rightarrow> bool" where
  "fair rands \<longleftrightarrow> (\<exists>r \<in> set rands. even r)"

lemma fair_level:
  assumes "fair rands"
  shows "\<exists>rl. get_random_level rands l = Some rl"
proof -
  have "\<exists>n. random_k rands k = Some n" for k
    using assms by (induction rands arbitrary: k) (auto simp: fair_def)
  then obtain n where "random_k rands 1 = Some n" by blast
  then show ?thesis by (simp add: get_random_level_def)
qed

lemma collect_chain:
  assumes "chain h 0 p xs" and "set xs \<subseteq> dom h"
  shows "do { first \<leftarrow> get_forward h 0 p; collect h first } = Some (map (\<lambda>q. (key_at h q, value_at h q)) xs)"
  using assms
proof (induction xs arbitrary: p)
  case Nil
  then show ?case by (simp add: collect.simps)
next
  case (Cons x xs)
  then obtain n where n: "h x = Some n" by auto
  from Cons have "do { first \<leftarrow> get_forward h 0 x; collect h first } = Some (map (\<lambda>q. (key_at h q, value_at h q)) xs)" by simp
  then obtain nxt where "get_forward h 0 x = Some nxt" "collect h nxt = Some (map (\<lambda>q. (key_at h q, value_at h q)) xs)"
    by (auto simp: bind_eq_Some_conv)
  with Cons.prems n show ?case by (simp add: collect.simps [of h "Some x"] key_at_def value_at_def)
qed

lemma contents_wf:
  assumes wf: "skip_wf l xs"
  shows "contents l = Some (content l xs)"
proof -
  have "chain (memory l) 0 (header l) xs" using skip_wfD(6) [OF wf, of 0] by simp
  then show ?thesis using collect_chain skip_wfD(2) [OF wf] by (fastforce simp: contents_def content_def)
qed

lemma contents_ok:
  assumes "skip_ok l"
  obtains xs where "skip_wf l xs" "contents l = Some (content l xs)"
  using assms contents_wf unfolding skip_ok_def by blast

lemma contents_sorted:
  assumes "skip_ok l"
  obtains kvs where "contents l = Some kvs" "sorted_wrt (<) (map fst kvs)" "element_count l = int (length kvs)"
proof -
  from assms obtain xs where wf: "skip_wf l xs" and c: "contents l = Some (content l xs)" by (rule contents_ok)
  have "map fst (content l xs) = map (key_at (memory l)) xs" by (simp add: content_def)
  then show thesis using that [OF c] skip_wfD(5,9) [OF wf] by (simp only:) (simp add: content_def)
qed

lemma SkipList_ok: "skip_ok (SkipList k0 v0 m)" "contents (SkipList k0 v0 m) = Some []"
proof -
  have wf: "skip_wf (SkipList k0 v0 m) []"
    by (auto simp: skip_wf_def SkipList_def nodes_wf_def Node_def lev_def get_forward_def nth_Cons split: nat.splits)
  then show "skip_ok (SkipList k0 v0 m)" "contents (SkipList k0 v0 m) = Some []"
    using contents_wf [OF wf] by (auto simp: skip_ok_def content_def)
qed

lemma search_ok: "skip_ok l \<Longrightarrow> contents l = Some kvs \<Longrightarrow> search_element k l = Some (map_of kvs k)"
  using search_spec contents_wf unfolding skip_ok_def by fastforce

lemma insert_ok:
  assumes ok: "skip_ok l" and c: "contents l = Some kvs" and fair: "fair rands"
  shows "map_of kvs k \<noteq> None \<Longrightarrow> insert_element rands k v l = Some (1, l)"
    and "map_of kvs k = None \<Longrightarrow> \<exists>l'. insert_element rands k v l = Some (0, l') \<and> skip_ok l' \<and> contents l' = Some (put_pair k v kvs) \<and> max_level l' = max_level l"
proof -
  from ok obtain xs where wf: "skip_wf l xs" and xs: "kvs = content l xs" using c by (auto elim: contents_ok)
  show "insert_element rands k v l = Some (1, l)" if "map_of kvs k \<noteq> None"
    using insert_present [OF wf] that xs by auto
  obtain rl where "get_random_level rands l = Some rl" using fair_level [OF fair] by blast
  then show "\<exists>l'. insert_element rands k v l = Some (0, l') \<and> skip_ok l' \<and> contents l' = Some (put_pair k v kvs) \<and> max_level l' = max_level l"
    if "map_of kvs k = None"
    using insert_fresh [OF wf] that contents_wf unfolding xs skip_ok_def by metis
qed

lemma drop_pair_absent: "map_of kvs k = None \<Longrightarrow> drop_pair k kvs = kvs"
  by (force simp: drop_pair_def map_of_eq_None_iff filter_id_conv)

lemma delete_ok:
  assumes ok: "skip_ok l" and c: "contents l = Some kvs"
  shows "\<exists>l'. delete_element k l = Some l' \<and> skip_ok l' \<and> contents l' = Some (drop_pair k kvs) \<and> max_level l' = max_level l"
proof -
  from ok obtain xs where wf: "skip_wf l xs" and xs: "kvs = content l xs" using c by (auto elim: contents_ok)
  show ?thesis
  proof (cases "map_of kvs k")
    case None
    then show ?thesis using delete_absent [OF wf, of k] drop_pair_absent [OF None] xs ok c by simp
  next
    case (Some v)
    then obtain l' xs' where "delete_element k l = Some l'" "skip_wf l' xs'" "content l' xs' = drop_pair k kvs" "max_level l' = max_level l"
      using delete_present [OF wf] xs by blast
    then show ?thesis using contents_wf unfolding skip_ok_def by metis
  qed
qed

lemma insert_set_ok:
  assumes ok: "skip_ok l" and c: "contents l = Some kvs" and fair: "fair rands"
  shows "\<exists>l'. insert_set_element rands k v l = Some l' \<and> skip_ok l' \<and> contents l' = Some (put_pair k v kvs) \<and> max_level l' = max_level l"
proof (cases "map_of kvs k")
  case None
  from insert_ok(2) [OF ok c fair this, of v] show ?thesis
    using None search_ok [OF ok c, of k] by (auto simp: insert_set_element_def)
next
  case (Some v')
  obtain l1 where l1: "delete_element k l = Some l1" "skip_ok l1" "contents l1 = Some (drop_pair k kvs)" "max_level l1 = max_level l"
    using delete_ok [OF ok c] by blast
  have "map_of (drop_pair k kvs) k = None" by (simp add: map_of_drop_pair)
  from insert_ok(2) [OF l1(2,3) fair this, of v] show ?thesis
    using l1 Some search_ok [OF ok c, of k] by (auto simp: insert_set_element_def put_drop_pair)
qed


section \<open>Dumping, loading and destruction\<close>

lemma fold_dump_insert:
  "fold dump_insert kvs \<lparr>keyDumpVt = ks, valDumpVt = vs\<rparr> = \<lparr>keyDumpVt = ks @ map fst kvs, valDumpVt = vs @ map snd kvs\<rparr>"
  by (induction kvs arbitrary: ks vs) (auto simp: dump_insert_def)

lemma dump_ok:
  assumes "skip_ok l" and "contents l = Some kvs"
  shows "dump_file c l = Some (oarchive_dump c \<lparr>keyDumpVt = map fst kvs, valDumpVt = map snd kvs\<rparr>)"
  using assms(2) by (auto simp: dump_file_def contents_def fold_dump_insert bind_eq_Some_conv)

text \<open>The pairs after inserting the keys \<open>ks\<close> one after the other, each as its own value.\<close>

definition load_pairs :: "'k::linorder list \<Rightarrow> ('k \<times> 'k) list \<Rightarrow> ('k \<times> 'k) list" where
  "load_pairs ks kvs = fold (\<lambda>k m. if map_of m k = None then put_pair k k m else m) ks kvs"

lemma load_loop_ok:
  assumes "skip_ok l" and "contents l = Some kvs" and "length ks \<le> length rs" and "\<forall>r \<in> set rs. fair r"
  shows "\<exists>l'. load_loop rs ks l = Some l' \<and> skip_ok l' \<and> contents l' = Some (load_pairs ks kvs) \<and> max_level l' = max_level l"
  using assms
proof (induction rs ks l arbitrary: kvs rule: load_loop.induct)
  case (3 r rs k ks l)
  have fair: "fair r" "\<forall>r \<in> set rs. fair r" using "3.prems"(4) by auto
  note ins = insert_ok [OF "3.prems"(1,2) fair(1), of k k]
  show ?case
  proof (cases "map_of kvs k = None")
    case True
    with ins obtain l' where "insert_element r k k l = Some (0, l')" "skip_ok l'" "contents l' = Some (put_pair k k kvs)" "max_level l' = max_level l" by blast
    then show ?thesis using "3.IH" [of "(0, l')" 0 l' "put_pair k k kvs"] "3.prems"(3) fair True by (simp add: load_pairs_def)
  next
    case False
    then show ?thesis using ins "3.IH" [of "(1, l)" 1 l kvs] "3.prems"(1-3) fair by (auto simp: load_pairs_def)
  qed
qed (auto simp: load_pairs_def)

lemma map_of_load_pairs: "map_of (load_pairs ks kvs) k = (if map_of kvs k = None \<and> k \<in> set ks then Some k else map_of kvs k)"
proof (induction ks arbitrary: kvs)
  case (Cons a ks)
  show ?case by (auto simp: load_pairs_def map_of_put_pair Cons.IH [unfolded load_pairs_def])
qed (simp add: load_pairs_def)

lemma chain_mem:
  assumes "chain h i p xs"
  shows "\<forall>q \<in> set (p # xs). h q \<noteq> None"
  using assms by (induction xs arbitrary: p) (auto simp: get_forward_def bind_eq_Some_conv)

lemma clear_chain:
  assumes "chain h 0 p xs" and "distinct (p # xs)"
  shows "clear_nodes p h = Some (\<lambda>q. if q \<in> set (p # xs) then None else h q)"
  using assms
proof (induction xs arbitrary: p)
  case Nil
  then have "h p \<noteq> None" using chain_mem by fastforce
  with Nil show ?case by (subst clear_nodes.simps) auto
next
  case (Cons x xs)
  then have "h p \<noteq> None" using chain_mem by fastforce
  moreover have "clear_nodes x h = Some (\<lambda>q. if q \<in> set (x # xs) then None else h q)" using Cons by simp
  ultimately show ?case using Cons.prems by (subst clear_nodes.simps) (auto simp: fun_eq_iff)
qed

text \<open>The destructor frees every node exactly once.\<close>

lemma destructor_frees:
  assumes "skip_ok l"
  shows "delete_SkipList l = Some Map.empty"
proof -
  from assms obtain xs where wf: "skip_wf l xs" unfolding skip_ok_def by blast
  note w = skip_wfD [OF wf]
  have ch: "chain (memory l) 0 (header l) xs" using w(6) [of 0] by simp
  have out: "memory l q = None" if "q \<notin> set (header l # xs)" for q using w(2) that by auto
  have hd: "memory l (header l) \<noteq> None" using w(2) by auto
  show ?thesis
  proof (cases xs)
    case Nil
    then show ?thesis using ch hd out by (auto simp: delete_SkipList_def fun_eq_iff)
  next
    case (Cons x xs')
    have "clear_nodes x (memory l) = Some (\<lambda>q. if q \<in> set (x # xs') then None else memory l q)"
      by (rule clear_chain) (use ch w(1) Cons in auto)
    then show ?thesis using ch hd out w(1) Cons by (auto simp: delete_SkipList_def fun_eq_iff)
  qed
qed


section \<open>The interface\<close>

text \<open>
  What the service relies on: on a good state every operation returns, keeps the state good and acts
  on the contents as on a map. \<open>good\<close> are the inputs (here, random draws) with which \<open>put\<close> may be called.
\<close>

locale kv_store =
  fixes ok :: "'s \<Rightarrow> bool" and good :: "'r \<Rightarrow> bool"
    and get :: "'k \<Rightarrow> 's \<Rightarrow> 'v option option"
    and put :: "'r \<Rightarrow> 'k \<Rightarrow> 'v \<Rightarrow> 's \<Rightarrow> 's option"
    and del :: "'k \<Rightarrow> 's \<Rightarrow> 's option"
  assumes get_total: "ok s \<Longrightarrow> \<exists>r. get k s = Some r"
    and put_law: "ok s \<Longrightarrow> good r \<Longrightarrow> \<exists>s'. put r k v s = Some s' \<and> ok s' \<and> (\<forall>a. get a s' = (if a = k then Some (Some v) else get a s))"
    and del_law: "ok s \<Longrightarrow> \<exists>s'. del k s = Some s' \<and> ok s' \<and> (\<forall>a. get a s' = (if a = k then Some None else get a s))"
begin

text \<open>A sequence of writes returns and leaves the last value written to each key.\<close>

lemma put_sequence:
  assumes "ok s" and "\<forall>(r, k, v) \<in> set ws. good r"
  shows "\<exists>s'. foldl (\<lambda>st (r, k, v). do { x \<leftarrow> st; put r k v x }) (Some s) ws = Some s' \<and> ok s' \<and>
    (\<forall>a. get a s' = (case map_of (rev (map snd ws)) a of None \<Rightarrow> get a s | Some v \<Rightarrow> Some (Some v)))"
  using assms(2)
proof (induction ws rule: rev_induct)
  case (snoc w ws)
  obtain r k v where w: "w = (r, k, v)" by (cases w) auto
  from snoc obtain s1 where s1: "foldl (\<lambda>st (r, k, v). do { x \<leftarrow> st; put r k v x }) (Some s) ws = Some s1" "ok s1"
    "\<forall>a. get a s1 = (case map_of (rev (map snd ws)) a of None \<Rightarrow> get a s | Some v \<Rightarrow> Some (Some v))" by auto
  obtain s2 where "put r k v s1 = Some s2" "ok s2" "\<forall>a. get a s2 = (if a = k then Some (Some v) else get a s1)"
    using put_law [OF s1(2), of r k v] snoc.prems w by auto
  then show ?case using s1 w by (auto simp: split_def)
qed (use assms(1) in simp)

end

interpretation store: kv_store skip_ok fair search_element insert_set_element delete_element
proof
  fix l :: "('a::linorder, 'b) skipList" and k v r
  assume ok: "skip_ok l"
  then obtain kvs where c: "contents l = Some kvs" by (auto elim: contents_ok)
  show "\<exists>r. search_element k l = Some r" using search_ok [OF ok c] by simp
  show "\<exists>s'. insert_set_element r k v l = Some s' \<and> skip_ok s' \<and>
      (\<forall>a. search_element a s' = (if a = k then Some (Some v) else search_element a l))" if "fair r"
    using insert_set_ok [OF ok c that, of k v] search_ok [OF ok c] search_ok by (fastforce simp: map_of_put_pair)
  show "\<exists>s'. delete_element k l = Some s' \<and> skip_ok s' \<and>
      (\<forall>a. search_element a s' = (if a = k then Some None else search_element a l))"
    using delete_ok [OF ok c, of k] search_ok [OF ok c] search_ok by (fastforce simp: map_of_drop_pair)
qed

section \<open>Printing and splitting\<close>

text \<open>\<open>display_list\<close>: what is written to \<open>std::cout\<close>, level by level.\<close>

partial_function (option) show_level :: "(string, string) heap \<Rightarrow> nat \<Rightarrow> addr option \<Rightarrow> string option" where
  "show_level h i p = (case p of None \<Rightarrow> Some []
     | Some a \<Rightarrow> do { n \<leftarrow> h a; nxt \<leftarrow> get_forward h i a; rest \<leftarrow> show_level h i nxt;
         Some (node_key n @ '':'' @ node_value n @ '';'' @ rest) })"

fun display_levels :: "(string, string) skipList \<Rightarrow> nat list \<Rightarrow> string option" where
  "display_levels l [] = Some []"
| "display_levels l (i # is) = do {
     first \<leftarrow> get_forward (memory l) i (header l);
     line \<leftarrow> show_level (memory l) i first;
     rest \<leftarrow> display_levels l is;
     Some (''Level '' @ to_string (int i) @ '': '' @ line @ ''\<newline>'' @ rest) }"

definition display_list :: "(string, string) skipList \<Rightarrow> string option" where
  "display_list l = do {
     body \<leftarrow> display_levels l [0..<skip_list_level l + 1];
     Some (''\<newline>*****Skip List*****\<newline>'' @ body) }"

definition delimiter :: string where
  "delimiter = '':''"

definition is_valid_string :: "string \<Rightarrow> bool" where
  "is_valid_string str = (if str = [] then False else if str_find delimiter str = None then False else True)"

text \<open>The outputs \<open>*key\<close> and \<open>*value\<close> are unchanged (\<open>None\<close>) for an invalid string.\<close>

definition get_key_value_from_string :: "string \<Rightarrow> (string \<times> string) option" where
  "get_key_value_from_string str =
     (if \<not> is_valid_string str then None
      else map_option (\<lambda>i. (substr 0 i str, substr (i + 1) (length str) str)) (str_find delimiter str))"

lemma show_chain:
  assumes "chain h i p xs" and "set xs \<subseteq> dom h"
  shows "do { first \<leftarrow> get_forward h i p; show_level h i first } =
    Some (concat (map (\<lambda>q. key_at h q @ '':'' @ value_at h q @ '';'') xs))"
  using assms
proof (induction xs arbitrary: p)
  case Nil
  then show ?case by (simp add: show_level.simps)
next
  case (Cons x xs)
  then obtain n where n: "h x = Some n" by auto
  from Cons have "do { first \<leftarrow> get_forward h i x; show_level h i first } =
      Some (concat (map (\<lambda>q. key_at h q @ '':'' @ value_at h q @ '';'') xs))" by simp
  then obtain nxt where "get_forward h i x = Some nxt"
    "show_level h i nxt = Some (concat (map (\<lambda>q. key_at h q @ '':'' @ value_at h q @ '';'') xs))"
    by (auto simp: bind_eq_Some_conv)
  with Cons.prems n show ?case by (simp add: show_level.simps [of h i "Some x"] key_at_def value_at_def)
qed

text \<open>Every level is printed, with exactly its nodes.\<close>

lemma display_ok:
  assumes wf: "skip_wf l xs"
  shows "display_list l = Some (''\<newline>*****Skip List*****\<newline>'' @ concat (map (\<lambda>i. ''Level '' @ to_string (int i) @ '': '' @
    concat (map (\<lambda>q. key_at (memory l) q @ '':'' @ value_at (memory l) q @ '';'') (at_least (memory l) i xs)) @ ''\<newline>'')
      [0..<skip_list_level l + 1]))"
proof -
  let ?line = "\<lambda>i. concat (map (\<lambda>q. key_at (memory l) q @ '':'' @ value_at (memory l) q @ '';'') (at_least (memory l) i xs))"
  have lev: "do { first \<leftarrow> get_forward (memory l) i (header l); show_level (memory l) i first } = Some (?line i)" if "i \<le> max_level l" for i
    using show_chain [OF skip_wfD(6) [OF wf that]] skip_wfD(2) [OF wf] by fastforce
  have "display_levels l is = Some (concat (map (\<lambda>i. ''Level '' @ to_string (int i) @ '': '' @ ?line i @ ''\<newline>'') is))"
    if "\<forall>i \<in> set is. i \<le> max_level l" for "is"
    using that
  proof (induction "is")
    case (Cons i "is")
    then obtain first where "get_forward (memory l) i (header l) = Some first" "show_level (memory l) i first = Some (?line i)"
      using lev [of i] by (auto simp: bind_eq_Some_conv)
    with Cons show ?case by simp
  qed simp
  moreover have "\<forall>i \<in> set [0..<skip_list_level l + 1]. i \<le> max_level l" using skip_wfD(8) [OF wf] by auto
  ultimately show ?thesis unfolding display_list_def by (simp only: Option.bind.bind_lunit)
qed

lemma key_value_split:
  assumes "CHR '':'' \<notin> set k"
  shows "get_key_value_from_string (k @ '':'' @ v) = Some (k, v)"
  using str_find_char_split [OF assms, of v]
  by (simp add: get_key_value_from_string_def is_valid_string_def delimiter_def substr_def)

end
