(* ===== verification/Util.thy ===== *)
theory Util
  imports Prelude "HOL-Library.Word"
begin

text \<open>
  \<open>common/include/util.h\<close> and \<open>common/util.cpp\<close>: the blocking queue between threads and the search for a free
  port.

  A \<open>LockQueue\<close> is the list of its elements. Every operation holds the queue's mutex while it runs, so each
  is one step; \<open>Pop\<close> is \<open>None\<close> while the caller would block. What other threads do while \<open>timeOutPop\<close>
  waits is its argument: for every wake-up whether the deadline has passed and what was pushed meanwhile.
  The locale \<open>fifo\<close> is the contract the service and the replicas rely on.
\<close>

section \<open>The blocking queue\<close>

type_synonym 'a lockQueue = "'a list"

definition Push :: "'a \<Rightarrow> 'a lockQueue \<Rightarrow> 'a lockQueue" where
  "Push data q = q @ [data]"

fun Pop :: "'a lockQueue \<Rightarrow> ('a \<times> 'a lockQueue) option" where
  "Pop [] = None"
| "Pop (x # q) = Some (x, q)"

text \<open>\<open>None\<close>: still waiting; otherwise the element, if the call returned \<open>true\<close>, and the queue.\<close>

fun timeOutPop :: "(bool \<times> 'a list) list \<Rightarrow> 'a lockQueue \<Rightarrow> ('a option \<times> 'a lockQueue) option" where
  "timeOutPop wakes (x # q) = Some (Some x, q)"
| "timeOutPop [] [] = None"
| "timeOutPop ((timedOut, pushed) # wakes) [] =
     (if timedOut then Some (None, pushed) else timeOutPop wakes pushed)"

locale fifo =
  fixes push :: "'a \<Rightarrow> 'q \<Rightarrow> 'q" and pop :: "'q \<Rightarrow> ('a \<times> 'q) option" and empty :: 'q
  assumes pop_empty: "pop empty = None"
    and pop_push_empty: "pop q = None \<Longrightarrow> pop (push x q) = Some (x, q)"
    and pop_push: "pop q = Some (y, q') \<Longrightarrow> pop (push x q) = Some (y, push x q')"
begin

lemma push_nonempty: "pop (push x q) \<noteq> None"
  using pop_push_empty pop_push by (cases "pop q") auto

text \<open>What was pushed comes out in the same order.\<close>

lemma order_kept:
  assumes "pop q = None"
  shows "pop (fold push (x # xs) q) = Some (x, fold push xs q)"
proof (induction xs rule: rev_induct)
  case Nil
  show ?case using pop_push_empty [OF assms] by simp
next
  case (snoc y ys)
  then show ?case using pop_push by simp
qed

end

interpretation lq: fifo Push Pop "[]"
proof
  show "Pop q = None \<Longrightarrow> Pop (Push x q) = Some (x, q)" for q :: "'a lockQueue" and x by (cases q) (auto simp: Push_def)
  show "Pop q = Some (y, q') \<Longrightarrow> Pop (Push x q) = Some (y, Push x q')" for q q' :: "'a lockQueue" and x y
    by (cases q) (auto simp: Push_def)
qed simp

text \<open>\<open>timeOutPop\<close> returns an element exactly when one is there before the first wake-up that finds the deadline passed.\<close>

lemma timeOutPop_result:
  assumes "timeOutPop wakes q = Some (r, q')"
  shows "(r = None \<longrightarrow> q = [] \<and> (\<exists>ps. (True, ps) \<in> set wakes)) \<and> (\<forall>x. r = Some x \<longrightarrow> x \<in> set q \<union> (\<Union>w \<in> set wakes. set (snd w)))"
  using assms by (induction wakes q rule: timeOutPop.induct) (auto split: if_splits)

lemma timeOutPop_returns: "(True, ps) \<in> set wakes \<Longrightarrow> \<exists>r. timeOutPop wakes q = Some r"
  by (induction wakes q rule: timeOutPop.induct) auto

section \<open>Ports\<close>

text \<open>\<open>free\<close> is whether \<open>bind\<close> succeeds on a port; \<open>short\<close> and \<open>unsigned short\<close> are 16-bit words.\<close>

function getReleasePort_loop :: "(16 word \<Rightarrow> bool) \<Rightarrow> 16 word \<Rightarrow> nat \<Rightarrow> 16 word \<times> nat" where
  "getReleasePort_loop free port num =
     (if \<not> free port \<and> num < 30 then getReleasePort_loop free (port + 1) (num + 1) else (port, num))"
  by pat_completeness auto
termination
  by (relation "measure (\<lambda>(free, port, num). 30 - num)") auto

declare getReleasePort_loop.simps [simp del]

definition getReleasePort :: "(16 word \<Rightarrow> bool) \<Rightarrow> 16 word \<Rightarrow> bool \<times> 16 word" where
  "getReleasePort free port =
     (let (p, num) = getReleasePort_loop free port 0 in if num \<ge> 30 then (False, -1) else (True, p))"

lemma loop_found:
  assumes "\<forall>i < n. \<not> free (port + of_nat i)" and "num + n < 30" and "free (port + of_nat n)"
  shows "getReleasePort_loop free port num = (port + of_nat n, num + n)"
  using assms
proof (induction n arbitrary: port num)
  case (Suc n)
  have step: "\<not> free port" using Suc.prems(1) [rule_format, of 0] by simp
  have "\<not> free (port + 1 + of_nat i)" if "i < n" for i
    using Suc.prems(1) [rule_format, of "Suc i"] that by (simp add: add.assoc)
  then have "getReleasePort_loop free (port + 1) (num + 1) = (port + 1 + of_nat n, num + 1 + n)"
    using Suc by (simp add: add.assoc)
  then show ?case using step Suc.prems(2) by (simp add: getReleasePort_loop.simps [of free port] add.assoc)
qed (simp add: getReleasePort_loop.simps [of free port num for port num])

lemma loop_exhausted:
  assumes "\<forall>i < 30 - num. \<not> free (port + of_nat i)" and "num \<le> 30"
  shows "snd (getReleasePort_loop free port num) = 30"
  using assms
proof (induction "30 - num" arbitrary: port num)
  case (Suc n)
  have step: "\<not> free port" using Suc.prems(1) [rule_format, of 0] Suc.hyps(2) by simp
  have "\<not> free (port + 1 + of_nat i)" if "i < 30 - (num + 1)" for i
    using Suc.prems(1) [rule_format, of "Suc i"] that by (simp add: add.assoc)
  then have "snd (getReleasePort_loop free (port + 1) (num + 1)) = 30"
    using Suc.hyps(1) [of "num + 1" "port + 1"] Suc.hyps(2) by simp
  moreover have "num < 30" using Suc.hyps(2) by simp
  ultimately show ?case using step by (simp add: getReleasePort_loop.simps [of free port])
next
  case 0
  then have "num = 30" by simp
  then show ?case by (simp add: getReleasePort_loop.simps)
qed

lemma getReleasePort_spec:
  "getReleasePort free port =
     (if \<exists>n < 30. free (port + of_nat n) then (True, port + of_nat (LEAST n. free (port + of_nat n))) else (False, -1))"
proof (cases "\<exists>n < 30. free (port + of_nat n)")
  case True
  then obtain n where n: "n < 30" "free (port + of_nat n)" by blast
  let ?m = "LEAST n. free (port + of_nat n)"
  have m: "free (port + of_nat ?m)" "\<forall>i < ?m. \<not> free (port + of_nat i)" "?m \<le> n"
    using LeastI [of "\<lambda>n. free (port + of_nat n)", OF n(2)] not_less_Least Least_le [of "\<lambda>n. free (port + of_nat n)", OF n(2)] by auto
  then show ?thesis using loop_found [OF m(2), of 0] n True by (simp add: getReleasePort_def)
next
  case False
  then have "snd (getReleasePort_loop free port 0) = 30" by (intro loop_exhausted) auto
  then show ?thesis using False by (auto simp: getReleasePort_def split: prod.splits)
qed

end
