(* ===== verification/Config.thy ===== *)
theory Config
  imports Strings "HOL-Library.Word"
begin

text \<open>
  \<open>rpc/mprpcconfig.cpp\<close>: the configuration file of the cluster, and the loop over the keys \<open>node<i>ip\<close> and
  \<open>node<i>port\<close> with which servers and clients read the addresses of the replicas.

  The file is its content, a string; \<open>m_configMap\<close> is a map.
\<close>

section \<open>Reading the file\<close>

definition Trim :: "string \<Rightarrow> string" where
  "Trim src_buf =
     (let s1 = (if \<exists>ch \<in> set src_buf. ch \<noteq> CHR '' '' then dropWhile (\<lambda>ch. ch = CHR '' '') src_buf else src_buf) in
      if \<exists>ch \<in> set s1. ch \<noteq> CHR '' '' then rev (dropWhile (\<lambda>ch. ch = CHR '' '') (rev s1)) else s1)"

text \<open>\<open>fgets\<close> with room for \<open>n\<close> characters: up to and including the next newline.\<close>

fun fgets :: "nat \<Rightarrow> string \<Rightarrow> string \<times> string" where
  "fgets 0 s = ([], s)"
| "fgets (Suc n) [] = ([], [])"
| "fgets (Suc n) (ch # s) = (if ch = CHR ''\<newline>'' then ([ch], s) else let (l, r) = fgets n s in (ch # l, r))"

definition config_line :: "string \<Rightarrow> (string \<rightharpoonup> string) \<Rightarrow> (string \<rightharpoonup> string)" where
  "config_line buf m =
     (let read_buf = Trim (takeWhile (\<lambda>ch. ch \<noteq> CHR 0x00) buf) in
      if read_buf = [] \<or> hd read_buf = CHR ''#'' then m
      else case str_find ''='' read_buf of
          None \<Rightarrow> m
        | Some idx \<Rightarrow>
            let key = Trim (substr 0 idx read_buf);
                value = Trim (case str_find_from ''\<newline>'' idx read_buf of
                    Some endidx \<Rightarrow> substr (idx + 1) (endidx - idx - 1) read_buf
                  | None \<Rightarrow> drop (idx + 1) read_buf) in
            if m key = None then m(key \<mapsto> value) else m)"

lemma fgets_shorter: "length (snd (fgets n s)) \<le> length s"
  by (induction n s rule: fgets.induct) (auto split: prod.splits)

lemma fgets_progress: "s \<noteq> [] \<Longrightarrow> length (snd (fgets (Suc n) s)) < length s"
  using fgets_shorter [of n "tl s"] by (cases s) (auto split: prod.splits)

function LoadConfigFile :: "string \<Rightarrow> (string \<rightharpoonup> string) \<Rightarrow> (string \<rightharpoonup> string)" where
  "LoadConfigFile file m =
     (if file = [] then m else let (buf, rest) = fgets 511 file in LoadConfigFile rest (config_line buf m))"
  by pat_completeness auto
termination
proof (relation "measure (\<lambda>(inp, m). length inp)")
  fix inp :: string and m :: "string \<rightharpoonup> string" and x buf rest
  assume "inp \<noteq> []" "x = fgets 511 inp" "(buf, rest) = x"
  then show "((rest, config_line buf m), inp, m) \<in> measure (\<lambda>(inp, m). length inp)"
    using fgets_progress [of inp 510] by (simp add: eval_nat_numeral) (metis snd_conv)
qed simp

declare LoadConfigFile.simps [simp del]

definition Load :: "(string \<rightharpoonup> string) \<Rightarrow> string \<Rightarrow> string" where
  "Load m key = (case m key of None \<Rightarrow> [] | Some v \<Rightarrow> v)"

section \<open>The addresses of the replicas\<close>

text \<open>\<open>atoi\<close> converted to \<open>short\<close>; no number gives 0.\<close>

definition atoi_short :: "string \<Rightarrow> 16 word" where
  "atoi_short s = (case parse_int s of None \<Rightarrow> 0 | Some i \<Rightarrow> word_of_int i)"

function loadNodes :: "(string \<Rightarrow> string) \<Rightarrow> nat \<Rightarrow> (string \<times> 16 word) list" where
  "loadNodes load i =
     (if i < 2147483646 then
        let node = ''node'' @ to_string (int i);
            nodeIp = load (node @ ''ip'');
            nodePortStr = load (node @ ''port'') in
        if nodeIp = [] then [] else (nodeIp, atoi_short nodePortStr) # loadNodes load (i + 1)
      else [])"
  by pat_completeness auto
termination
  by (relation "measure (\<lambda>(load, i). 2147483646 - i)") auto

declare loadNodes.simps [simp del]

section \<open>What is read\<close>

lemma Trim_id:
  assumes "s = [] \<or> hd s \<noteq> CHR '' '' \<and> last s \<noteq> CHR '' ''"
  shows "Trim s = s"
proof (cases "s = []")
  case False
  have d: "dropWhile (\<lambda>ch. ch = CHR '' '') t = t" if "t \<noteq> []" "hd t \<noteq> CHR '' ''" for t using that by (cases t) auto
  have "rev s \<noteq> []" "hd (rev s) \<noteq> CHR '' ''" using assms False by (auto simp: hd_rev)
  note eqs = d [OF this] d [OF False]
  have "\<exists>ch \<in> set s. ch \<noteq> CHR '' ''" using assms False hd_in_set by blast
  then show ?thesis using eqs assms False by (simp add: Trim_def Let_def)
qed (simp add: Trim_def)

lemma fgets_line:
  assumes "CHR ''\<newline>'' \<notin> set l" and "length l < n"
  shows "fgets n (l @ CHR ''\<newline>'' # rest) = (l @ [CHR ''\<newline>''], rest)"
  using assms
proof (induction l arbitrary: n)
  case Nil
  then show ?case by (cases n) auto
next
  case (Cons x l)
  then show ?case by (cases n) auto
qed

text \<open>The keys and values a configuration file may hold: not empty, and without the characters that are markup.\<close>

definition plain :: "string \<Rightarrow> bool" where
  "plain s \<longleftrightarrow> s \<noteq> [] \<and> (\<forall>ch \<in> set s. ch \<notin> {CHR '' '', CHR ''='', CHR ''#'', CHR ''\<newline>'', CHR 0x00})"

lemma plain_ends: "plain s \<Longrightarrow> s \<noteq> [] \<and> hd s \<noteq> CHR '' '' \<and> last s \<noteq> CHR '' '' \<and> hd s \<noteq> CHR ''#''"
  unfolding plain_def using hd_in_set [of s] last_in_set [of s] by auto

lemma config_line_plain:
  assumes "plain k" and "plain v"
  shows "config_line (k @ ''='' @ v @ ''\<newline>'') m = (if m k = None then m(k \<mapsto> v) else m)"
proof -
  let ?b = "k @ CHR ''='' # v @ [CHR ''\<newline>'']"
  have nul: "takeWhile (\<lambda>ch. ch \<noteq> CHR 0x00) ?b = ?b"
    using assms by (intro takeWhile_eq_all_conv [THEN iffD2]) (auto simp: plain_def)
  have trim: "Trim ?b = ?b" using plain_ends [OF assms(1)] by (intro Trim_id) simp
  have f1: "str_find ''='' ?b = Some (length k)" using assms(1) by (intro str_find_char_split) (auto simp: plain_def)
  have "str_find ''\<newline>'' (CHR ''='' # v @ CHR ''\<newline>'' # []) = Some (length (CHR ''='' # v))"
    using str_find_char_split [of "CHR ''\<newline>''" "CHR ''='' # v" "[]"] assms(2) by (auto simp: plain_def)
  then have f2: "str_find_from ''\<newline>'' (length k) ?b = Some (Suc (length v) + length k)" by (simp add: str_find_from_def)
  have "Trim k = k" "Trim v = v" using plain_ends [OF assms(1)] plain_ends [OF assms(2)] by (auto intro: Trim_id)
  then show ?thesis using plain_ends [OF assms(1)]
    by (simp add: config_line_def nul trim f1 f2 substr_def)
qed

text \<open>The entries of a file with one plain entry per line; the first entry of a key counts.\<close>

lemma LoadConfigFile_lines:
  assumes "\<forall>(k, v) \<in> set kvs. plain k \<and> plain v \<and> length k + length v < 510"
  shows "LoadConfigFile (concat (map (\<lambda>(k, v). k @ ''='' @ v @ ''\<newline>'') kvs)) m = map_of kvs ++ m"
  using assms
proof (induction kvs arbitrary: m)
  case (Cons e kvs)
  obtain k v where e: "e = (k, v)" by (cases e)
  from Cons.prems e have pl: "plain k" "plain v" "length k + length v < 510" by auto
  let ?rest = "concat (map (\<lambda>(k, v). k @ ''='' @ v @ ''\<newline>'') kvs)"
  have "fgets 511 ((k @ ''='' @ v) @ CHR ''\<newline>'' # ?rest) = ((k @ ''='' @ v) @ [CHR ''\<newline>''], ?rest)"
    using pl by (intro fgets_line) (auto simp: plain_def)
  then have "LoadConfigFile (concat (map (\<lambda>(k, v). k @ ''='' @ v @ ''\<newline>'') (e # kvs))) m =
      LoadConfigFile ?rest (config_line (k @ ''='' @ v @ ''\<newline>'') m)"
    by (subst LoadConfigFile.simps) (simp add: e plain_def)
  also have "\<dots> = map_of kvs ++ (if m k = None then m(k \<mapsto> v) else m)"
    using Cons config_line_plain [OF pl(1,2), of m] by simp
  also have "\<dots> = map_of (e # kvs) ++ m"
    by (auto simp: e map_add_def fun_eq_iff split: option.splits)
  finally show ?case .
qed (simp add: LoadConfigFile.simps)

lemma loadNodes_spec:
  assumes "\<forall>j < length nodes. load (''node'' @ to_string (int (i + j)) @ ''ip'') = fst (nodes ! j) \<and> fst (nodes ! j) \<noteq> [] \<and>
      load (''node'' @ to_string (int (i + j)) @ ''port'') = to_string (snd (nodes ! j))"
    and "load (''node'' @ to_string (int (i + length nodes)) @ ''ip'') = []" and "i + length nodes < 2147483646"
  shows "loadNodes load i = map (\<lambda>(ip, port). (ip, word_of_int port)) nodes"
  using assms
proof (induction nodes arbitrary: i)
  case Nil
  then show ?case by (subst loadNodes.simps) simp
next
  case (Cons e nodes)
  have "loadNodes load (i + 1) = map (\<lambda>(ip, port). (ip, word_of_int port)) nodes"
  proof (rule Cons.IH; (intro allI impI)?)
    fix j assume "j < length nodes"
    then show "load (''node'' @ to_string (int (i + 1 + j)) @ ''ip'') = fst (nodes ! j) \<and> fst (nodes ! j) \<noteq> [] \<and>
      load (''node'' @ to_string (int (i + 1 + j)) @ ''port'') = to_string (snd (nodes ! j))"
      using Cons.prems(1) [rule_format, of "Suc j"] by simp
  qed (use Cons.prems(2,3) in simp_all)
  moreover have "load (''node'' @ to_string (int i) @ ''ip'') = fst e" "fst e \<noteq> []"
    "load (''node'' @ to_string (int i) @ ''port'') = to_string (snd e)"
    using Cons.prems(1) [rule_format, of 0] by auto
  moreover have "parse_int (to_string (snd e)) = Some (snd e)" using parse_to_string [of "[]"] by simp
  ultimately show ?case using Cons.prems(3) by (subst loadNodes.simps) (simp add: Let_def atoi_short_def split_def)
qed

end
