(* ===== verification/KvServer.thy ===== *)
theory KvServer
  imports RaftOps SkipList Util Config "HOL-Library.AList"
begin

text \<open>
  \<open>raftCore/kvServer.cpp\<close> and \<open>include/kvServer.h\<close>: the key-value service on one replica.

  The state holds the replica, the skip list, the table of the last request of every client and the wait
  channels of the RPC handlers, which live on a heap because a handler keeps a pointer to its channel. Each
  part of a handler between two points where the mutex is free is one definition: \<open>Get\<close> and \<open>PutAppend\<close> up to
  the wait for consensus, and after it with the outcome of \<open>timeOutPop\<close>. \<open>GetCommandFromRaft\<close> and
  \<open>GetSnapShotFromRaft\<close> run on the thread of \<open>ReadRaftApplyCommandLoop\<close>. The results of \<open>rand()\<close> that an
  insertion draws are the argument \<open>rands\<close>.
\<close>

section \<open>State and messages\<close>

definition OK :: string where "OK = ''OK''"
definition ErrNoKey :: string where "ErrNoKey = ''ErrNoKey''"
definition ErrWrongLeader :: string where "ErrWrongLeader = ''ErrWrongLeader''"

record kvServer =
  kv_me :: int
  m_raftNode :: raft
  m_maxRaftState :: int
  m_serializedKVData :: string
  m_skipList :: "(string, string) skipList"
  waitApplyCh :: "int \<rightharpoonup> nat"
  channels :: "nat \<rightharpoonup> op lockQueue"
  next_channel :: nat
  m_lastRequestId :: "(string \<times> int) list"
  m_lastSnapShotRaftLogIndex :: int

record getArgs =
  ga_key :: string
  ga_clientid :: string
  ga_requestid :: int

record putAppendArgs =
  pa_key :: string
  pa_value :: string
  pa_op :: string
  pa_clientid :: string
  pa_requestid :: int

record kvReply =
  kr_err :: string
  kr_value :: string

text \<open>A skip list operation that does not return a value is a failure of the server.\<close>

definition lift_skip :: "'a option \<Rightarrow> 'a result" where
  "lift_skip x = (case x of None \<Rightarrow> Inl (OutOfBounds ''skip list'') | Some y \<Rightarrow> Inr y)"

section \<open>Executing operations\<close>

definition ifRequestDuplicate :: "string \<Rightarrow> int \<Rightarrow> kvServer \<Rightarrow> bool" where
  "ifRequestDuplicate clientId requestId kv =
     (case map_of (m_lastRequestId kv) clientId of None \<Rightarrow> False | Some r \<Rightarrow> requestId \<le> r)"

definition ExecuteAppendOpOnKVDB :: "nat list \<Rightarrow> op \<Rightarrow> kvServer \<Rightarrow> kvServer result" where
  "ExecuteAppendOpOnKVDB rands x kv =
     rbind (lift_skip (insert_set_element rands (Key x) (Value x) (m_skipList kv))) (\<lambda>l.
     Inr (kv\<lparr>m_skipList := l, m_lastRequestId := AList.update (ClientId x) (RequestId x) (m_lastRequestId kv)\<rparr>))"

definition ExecuteGetOpOnKVDB :: "op \<Rightarrow> kvServer \<Rightarrow> (kvServer \<times> string \<times> bool) result" where
  "ExecuteGetOpOnKVDB x kv =
     rbind (lift_skip (search_element (Key x) (m_skipList kv))) (\<lambda>found.
     Inr (kv\<lparr>m_lastRequestId := AList.update (ClientId x) (RequestId x) (m_lastRequestId kv)\<rparr>,
          (case found of None \<Rightarrow> ([], False) | Some v \<Rightarrow> (v, True))))"

definition ExecutePutOpOnKVDB :: "nat list \<Rightarrow> op \<Rightarrow> kvServer \<Rightarrow> kvServer result" where
  "ExecutePutOpOnKVDB rands x kv =
     rbind (lift_skip (insert_set_element rands (Key x) (Value x) (m_skipList kv))) (\<lambda>l.
     Inr (kv\<lparr>m_skipList := l, m_lastRequestId := AList.update (ClientId x) (RequestId x) (m_lastRequestId kv)\<rparr>))"

section \<open>The RPC handlers\<close>

text \<open>The channel for an index: created when there is none.\<close>

definition obtainChannel :: "int \<Rightarrow> kvServer \<Rightarrow> kvServer \<times> nat" where
  "obtainChannel raftIndex kv =
     (case waitApplyCh kv raftIndex of
        Some ch \<Rightarrow> (kv, ch)
      | None \<Rightarrow> (kv\<lparr>waitApplyCh := (waitApplyCh kv)(raftIndex \<mapsto> next_channel kv),
                     channels := (channels kv)(next_channel kv \<mapsto> []), next_channel := next_channel kv + 1\<rparr>, next_channel kv))"

text \<open>\<open>waitApplyCh[raftIndex]\<close> is erased and its channel deleted; a missing entry reads as \<open>nullptr\<close>.\<close>

definition dropChannel :: "int \<Rightarrow> kvServer \<Rightarrow> kvServer" where
  "dropChannel raftIndex kv =
     (case waitApplyCh kv raftIndex of
        None \<Rightarrow> kv
      | Some ch \<Rightarrow> kv\<lparr>waitApplyCh := (waitApplyCh kv)(raftIndex := None), channels := (channels kv)(ch := None)\<rparr>)"

text \<open>The wait on the channel a handler holds; a deleted channel must not be touched.\<close>

definition waitChannel :: "(bool \<times> op list) list \<Rightarrow> nat \<Rightarrow> kvServer \<Rightarrow> (op option \<times> kvServer) option result" where
  "waitChannel wakes ch kv =
     (case channels kv ch of
        None \<Rightarrow> Inl (OutOfBounds ''wait channel'')
      | Some q \<Rightarrow> Inr (map_option (\<lambda>(r, q'). (r, kv\<lparr>channels := (channels kv)(ch \<mapsto> q')\<rparr>)) (timeOutPop wakes q)))"

definition getOp :: "getArgs \<Rightarrow> op" where
  "getOp args = \<lparr>Operation = ''Get'', Key = ga_key args, Value = [], ClientId = ga_clientid args, RequestId = ga_requestid args\<rparr>"

definition putOp :: "putAppendArgs \<Rightarrow> op" where
  "putOp args = \<lparr>Operation = pa_op args, Key = pa_key args, Value = pa_value args, ClientId = pa_clientid args,
     RequestId = pa_requestid args\<rparr>"

text \<open>A handler either replies at once or waits on the channel of its index.\<close>

datatype handler = Replied kvReply | Waiting int nat

definition startOp :: "codec \<Rightarrow> op \<Rightarrow> kvServer \<Rightarrow> kvServer \<times> handler" where
  "startOp c x kv =
     (let (node, raftIndex, _, isLeader) = Start c x (m_raftNode kv); kv1 = kv\<lparr>m_raftNode := node\<rparr> in
      if \<not> isLeader then (kv1, Replied \<lparr>kr_err = ErrWrongLeader, kr_value = []\<rparr>)
      else let (kv2, ch) = obtainChannel raftIndex kv1 in (kv2, Waiting raftIndex ch))"

definition Get_start :: "codec \<Rightarrow> getArgs \<Rightarrow> kvServer \<Rightarrow> kvServer \<times> handler" where
  "Get_start c args kv = startOp c (getOp args) kv"

definition Get_finish :: "getArgs \<Rightarrow> int \<Rightarrow> op option \<Rightarrow> kvServer \<Rightarrow> (kvServer \<times> kvReply) result" where
  "Get_finish args raftIndex popped kv =
     (let x = getOp args;
          go = (case popped of
              None \<Rightarrow> ifRequestDuplicate (ClientId x) (RequestId x) kv \<and> snd (GetState (m_raftNode kv))
            | Some y \<Rightarrow> ClientId y = ClientId x \<and> RequestId y = RequestId x) in
      rbind (if go then
               rbind (ExecuteGetOpOnKVDB x kv) (\<lambda>(kv1, value, exist).
               Inr (kv1, if exist then \<lparr>kr_err = OK, kr_value = value\<rparr> else \<lparr>kr_err = ErrNoKey, kr_value = []\<rparr>))
             else Inr (kv, \<lparr>kr_err = ErrWrongLeader, kr_value = []\<rparr>)) (\<lambda>(kv1, reply).
      Inr (dropChannel raftIndex kv1, reply)))"

definition PutAppend_start :: "codec \<Rightarrow> putAppendArgs \<Rightarrow> kvServer \<Rightarrow> kvServer \<times> handler" where
  "PutAppend_start c args kv = startOp c (putOp args) kv"

definition PutAppend_finish :: "putAppendArgs \<Rightarrow> int \<Rightarrow> op option \<Rightarrow> kvServer \<Rightarrow> kvServer \<times> kvReply" where
  "PutAppend_finish args raftIndex popped kv =
     (let x = putOp args;
          good = (case popped of
              None \<Rightarrow> ifRequestDuplicate (ClientId x) (RequestId x) kv
            | Some y \<Rightarrow> ClientId y = ClientId x \<and> RequestId y = RequestId x) in
      (dropChannel raftIndex kv, \<lparr>kr_err = (if good then OK else ErrWrongLeader), kr_value = []\<rparr>))"

section \<open>Snapshots\<close>

text \<open>\<open>getSnapshotData\<close> and \<open>parseFromString\<close>: \<open>serialize\<close> archives the dumped list and the request table.\<close>

definition getSnapshotData :: "codec \<Rightarrow> kvServer \<Rightarrow> (kvServer \<times> string) result" where
  "getSnapshotData c kv =
     rbind (lift_skip (dump_file c (m_skipList kv))) (\<lambda>dump.
     let kv1 = kv\<lparr>m_serializedKVData := dump\<rparr>;
         data = oarchive_kv c \<lparr>ka_serializedKVData = m_serializedKVData kv1, ka_lastRequestId = m_lastRequestId kv1\<rparr> in
     Inr (kv1\<lparr>m_serializedKVData := []\<rparr>, data))"

definition kv_parseFromString :: "codec \<Rightarrow> nat list list \<Rightarrow> string \<Rightarrow> kvServer \<Rightarrow> kvServer result" where
  "kv_parseFromString c rs str kv =
     (case iarchive_kv c str of
        None \<Rightarrow> Inl (Uncaught ''archive_exception'')
      | Some a \<Rightarrow>
          let kv1 = kv\<lparr>m_serializedKVData := ka_serializedKVData a, m_lastRequestId := ka_lastRequestId a\<rparr> in
          rbind (lift_skip (load_file c rs (m_serializedKVData kv1) (m_skipList kv1))) (\<lambda>l.
          Inr (kv1\<lparr>m_skipList := l, m_serializedKVData := []\<rparr>)))"

definition MakeSnapShot :: "codec \<Rightarrow> kvServer \<Rightarrow> (kvServer \<times> string) result" where
  "MakeSnapShot c kv = getSnapshotData c kv"

definition ReadSnapShotToInstall :: "codec \<Rightarrow> nat list list \<Rightarrow> string \<Rightarrow> kvServer \<Rightarrow> kvServer result" where
  "ReadSnapShotToInstall c rs snapshot kv = (if snapshot = [] then Inr kv else kv_parseFromString c rs snapshot kv)"

text \<open>\<open>GetRaftStateSize() > m_maxRaftState / 10.0\<close>; the parameter \<open>proportion\<close> is not used.\<close>

definition IfNeedToSendSnapShotCommand :: "codec \<Rightarrow> int \<Rightarrow> int \<Rightarrow> kvServer \<Rightarrow> kvServer result" where
  "IfNeedToSendSnapShotCommand c raftIndex proportion kv =
     (if 10 * GetRaftStateSize (m_raftNode kv) > m_maxRaftState kv then
        rbind (MakeSnapShot c kv) (\<lambda>(kv1, snapshot).
        rbind (Snapshot c raftIndex snapshot (m_raftNode kv1)) (\<lambda>node. Inr (kv1\<lparr>m_raftNode := node\<rparr>)))
      else Inr kv)"

definition GetSnapShotFromRaft :: "codec \<Rightarrow> nat list list \<Rightarrow> applyMsg \<Rightarrow> kvServer \<Rightarrow> kvServer result" where
  "GetSnapShotFromRaft c rs message kv =
     (if CondInstallSnapshot (SnapshotTerm message) (SnapshotIndex message) (Snapshot_data message) then
        rbind (ReadSnapShotToInstall c rs (Snapshot_data message) kv) (\<lambda>kv1.
        Inr (kv1\<lparr>m_lastSnapShotRaftLogIndex := SnapshotIndex message\<rparr>))
      else Inr kv)"

section \<open>Applying what the replica commits\<close>

definition SendMessageToWaitChan :: "op \<Rightarrow> int \<Rightarrow> kvServer \<Rightarrow> (kvServer \<times> bool) result" where
  "SendMessageToWaitChan x raftIndex kv =
     (case waitApplyCh kv raftIndex of
        None \<Rightarrow> Inr (kv, False)
      | Some ch \<Rightarrow>
          (case channels kv ch of
             None \<Rightarrow> Inl (OutOfBounds ''wait channel'')
           | Some q \<Rightarrow> Inr (kv\<lparr>channels := (channels kv)(ch \<mapsto> Push x q)\<rparr>, True)))"

definition executeCommand :: "nat list \<Rightarrow> op \<Rightarrow> kvServer \<Rightarrow> kvServer result" where
  "executeCommand rands x kv =
     (if \<not> ifRequestDuplicate (ClientId x) (RequestId x) kv then
        rbind (if Operation x = ''Put'' then ExecutePutOpOnKVDB rands x kv else Inr kv) (\<lambda>kv1.
        if Operation x = ''Append'' then ExecuteAppendOpOnKVDB rands x kv1 else Inr kv1)
      else Inr kv)"

definition GetCommandFromRaft :: "codec \<Rightarrow> nat list \<Rightarrow> applyMsg \<Rightarrow> kvServer \<Rightarrow> kvServer result" where
  "GetCommandFromRaft c rands message kv =
     rbind (op_parseFromString c (Command message)) (\<lambda>x.
     if CommandIndex message \<le> m_lastSnapShotRaftLogIndex kv then Inr kv
     else
       rbind (executeCommand rands x kv) (\<lambda>kv1.
       rbind (if m_maxRaftState kv1 \<noteq> -1 then IfNeedToSendSnapShotCommand c (CommandIndex message) 9 kv1 else Inr kv1) (\<lambda>kv2.
       rbind (SendMessageToWaitChan x (CommandIndex message) kv2) (\<lambda>(kv3, _). Inr kv3))))"

text \<open>One round of \<open>ReadRaftApplyCommandLoop\<close>: \<open>None\<close> while the channel is empty.\<close>

definition ReadRaftApplyCommandLoop :: "codec \<Rightarrow> nat list \<Rightarrow> nat list list \<Rightarrow> kvServer \<Rightarrow> kvServer result option" where
  "ReadRaftApplyCommandLoop c rands rs kv =
     map_option (\<lambda>(message, rest).
       let kv1 = kv\<lparr>m_raftNode := (m_raftNode kv)\<lparr>applyChan := rest\<rparr>\<rparr> in
       rbind (if CommandValid message then GetCommandFromRaft c rands message kv1 else Inr kv1) (\<lambda>kv2.
       if SnapshotValid message then GetSnapShotFromRaft c rs message kv2 else Inr kv2))
     (Pop (applyChan (m_raftNode kv)))"

section \<open>The constructor\<close>

text \<open>
  The nodes of the configuration file are the peers; the entry of the server itself is \<open>nullptr\<close>, so their
  number is the number of entries. \<open>files\<close> are the persister's files before the start.
\<close>

definition KvServer :: "codec \<Rightarrow> int \<Rightarrow> nat list list \<Rightarrow> int \<Rightarrow> int \<Rightarrow> string \<Rightarrow> persister \<Rightarrow> kvServer result" where
  "KvServer c clk rs me maxraftstate config files =
     (let pers = Persister files;
          ipPortVt = loadNodes (Load (LoadConfigFile config Map.empty)) 0 in
      rbind (init c clk (length ipPortVt) me pers) (\<lambda>node.
      let kv = \<lparr>kv_me = me, m_raftNode = node, m_maxRaftState = maxraftstate, m_serializedKVData = [],
                m_skipList = SkipList [] [] 6, waitApplyCh = Map.empty, channels = Map.empty, next_channel = 0,
                m_lastRequestId = [], m_lastSnapShotRaftLogIndex = 0\<rparr>;
          (snapshot, p) = ReadSnapshot (m_persister node);
          kv1 = kv\<lparr>m_raftNode := node\<lparr>m_persister := p\<rparr>\<rparr> in
      if snapshot \<noteq> [] then ReadSnapShotToInstall c rs snapshot kv1 else Inr kv1))"

section \<open>The abstract service\<close>

text \<open>A map from keys to values and the last write request executed for every client.\<close>

type_synonym kvState = "(string \<rightharpoonup> string) \<times> (string \<rightharpoonup> int)"

definition kv_view :: "kvServer \<Rightarrow> kvState" where
  "kv_view kv = (map_of (the (contents (m_skipList kv))), map_of (m_lastRequestId kv))"

definition is_write :: "op \<Rightarrow> bool" where
  "is_write x \<longleftrightarrow> Operation x = ''Put'' \<or> Operation x = ''Append''"

definition seen :: "op \<Rightarrow> kvState \<Rightarrow> bool" where
  "seen x st \<longleftrightarrow> (case snd st (ClientId x) of None \<Rightarrow> False | Some r \<Rightarrow> RequestId x \<le> r)"

definition spec_apply :: "op \<Rightarrow> kvState \<Rightarrow> kvState" where
  "spec_apply x st = (if is_write x \<and> \<not> seen x st then ((fst st)(Key x \<mapsto> Value x), (snd st)(ClientId x \<mapsto> RequestId x)) else st)"

lemma seen_kept: "seen x st \<Longrightarrow> seen x (spec_apply y st)"
  by (auto simp: seen_def spec_apply_def split: option.splits if_splits)

lemma seen_after: "is_write x \<Longrightarrow> seen x (spec_apply x st)"
  by (auto simp: seen_def spec_apply_def split: option.splits)

lemma spec_apply_seen: "seen x st \<Longrightarrow> spec_apply x st = st"
  by (simp add: spec_apply_def)

lemma seen_fold: "seen x st \<Longrightarrow> seen x (fold spec_apply ys st)"
  by (induction ys arbitrary: st) (auto simp: seen_kept)

section \<open>The invariant\<close>

text \<open>Every registered channel exists, and no two indices share one.\<close>

definition channels_ok :: "kvServer \<Rightarrow> bool" where
  "channels_ok kv \<longleftrightarrow> (\<forall>i ch. waitApplyCh kv i = Some ch \<longrightarrow> channels kv ch \<noteq> None) \<and>
     (\<forall>ch. channels kv ch \<noteq> None \<longrightarrow> ch < next_channel kv) \<and>
     (\<forall>i j ch. waitApplyCh kv i = Some ch \<and> waitApplyCh kv j = Some ch \<longrightarrow> i = j)"

definition kv_ok :: "kvServer \<Rightarrow> bool" where
  "kv_ok kv \<longleftrightarrow> skip_ok (m_skipList kv) \<and> raft_wf (m_raftNode kv) \<and> channels_ok kv"

lemma kv_okD: "kv_ok kv \<Longrightarrow> skip_ok (m_skipList kv)" "kv_ok kv \<Longrightarrow> raft_wf (m_raftNode kv)" "kv_ok kv \<Longrightarrow> channels_ok kv"
  by (simp_all add: kv_ok_def)

lemma duplicate_seen: "ifRequestDuplicate (ClientId x) (RequestId x) kv = seen x (kv_view kv)"
  by (simp add: ifRequestDuplicate_def seen_def kv_view_def)

lemma lift_skip_Some [simp]: "lift_skip (Some y) = Inr y"
  by (simp add: lift_skip_def)

section \<open>Executing operations\<close>

text \<open>The contents of a store are what its lookups return.\<close>

lemma view_lookup: "skip_ok l \<Longrightarrow> search_element k l = Some (map_of (the (contents l)) k)"
  using search_ok by (metis contents_sorted option.sel)

lemma put_view:
  assumes ok: "skip_ok (m_skipList kv)" and fair: "fair rands"
  shows "\<exists>l. insert_set_element rands k v (m_skipList kv) = Some l \<and> skip_ok l \<and>
    map_of (the (contents l)) = (map_of (the (contents (m_skipList kv))))(k \<mapsto> v)"
proof -
  obtain l where l: "insert_set_element rands k v (m_skipList kv) = Some l" "skip_ok l"
    "\<forall>a. search_element a l = (if a = k then Some (Some v) else search_element a (m_skipList kv))"
    using store.put_law [OF ok fair, of k v] by blast
  moreover have "map_of (the (contents l)) = (map_of (the (contents (m_skipList kv))))(k \<mapsto> v)"
    using l view_lookup [OF l(2)] view_lookup [OF ok] by (fastforce simp: fun_eq_iff split: if_splits)
  ultimately show ?thesis by blast
qed

lemma executeCommand_spec:
  assumes ok: "kv_ok kv" and fair: "fair rands"
  shows "\<exists>l t. executeCommand rands x kv = Inr (kv\<lparr>m_skipList := l, m_lastRequestId := t\<rparr>) \<and>
     kv_ok (kv\<lparr>m_skipList := l, m_lastRequestId := t\<rparr>) \<and> kv_view (kv\<lparr>m_skipList := l, m_lastRequestId := t\<rparr>) = spec_apply x (kv_view kv)"
proof (cases "is_write x \<and> \<not> seen x (kv_view kv)")
  case True
  obtain l where l: "insert_set_element rands (Key x) (Value x) (m_skipList kv) = Some l" "skip_ok l"
    "map_of (the (contents l)) = (map_of (the (contents (m_skipList kv))))(Key x \<mapsto> Value x)"
    using put_view [OF kv_okD(1) [OF ok] fair] by blast
  let ?kv = "kv\<lparr>m_skipList := l, m_lastRequestId := AList.update (ClientId x) (RequestId x) (m_lastRequestId kv)\<rparr>"
  have "executeCommand rands x kv = Inr ?kv" using True l(1)
    by (auto simp: executeCommand_def duplicate_seen is_write_def ExecutePutOpOnKVDB_def ExecuteAppendOpOnKVDB_def)
  moreover have "kv_view ?kv = spec_apply x (kv_view kv)" using True l(3) by (simp add: spec_apply_def kv_view_def update_conv')
  moreover have "kv_ok ?kv" using ok l(2) by (simp add: kv_ok_def channels_ok_def)
  ultimately show ?thesis by blast
next
  case False
  then have "executeCommand rands x kv = Inr kv" by (auto simp: executeCommand_def duplicate_seen is_write_def)
  moreover have "kv = kv\<lparr>m_skipList := m_skipList kv, m_lastRequestId := m_lastRequestId kv\<rparr>" by simp
  moreover have "spec_apply x (kv_view kv) = kv_view kv" using False by (auto simp: spec_apply_def)
  ultimately show ?thesis using ok by metis
qed

lemma snapshot_step:
  assumes ok: "kv_ok kv"
  shows "\<exists>node. IfNeedToSendSnapShotCommand c i p kv = Inr (kv\<lparr>m_raftNode := node, m_serializedKVData := (if 10 * GetRaftStateSize (m_raftNode kv) > m_maxRaftState kv then [] else m_serializedKVData kv)\<rparr>) \<and> raft_wf node"
proof (cases "10 * GetRaftStateSize (m_raftNode kv) > m_maxRaftState kv")
  case True
  obtain kvs where kvs: "contents (m_skipList kv) = Some kvs" using kv_okD(1) [OF ok] by (auto elim: contents_sorted)
  then obtain d where d: "dump_file c (m_skipList kv) = Some d" using dump_ok [OF kv_okD(1) [OF ok]] by blast
  let ?data = "oarchive_kv c \<lparr>ka_serializedKVData = d, ka_lastRequestId = m_lastRequestId kv\<rparr>"
  obtain node where node: "Snapshot c i ?data (m_raftNode kv) = Inr node"
    using Snapshot_spec [OF kv_okD(2) [OF ok], of c i ?data] by (auto split: if_splits)
  then have "raft_wf node" using Snapshot_wf_evolves [OF kv_okD(2) [OF ok]] by blast
  moreover have "IfNeedToSendSnapShotCommand c i p kv = Inr (kv\<lparr>m_raftNode := node, m_serializedKVData := []\<rparr>)"
    using True d node by (simp add: IfNeedToSendSnapShotCommand_def MakeSnapShot_def getSnapshotData_def Let_def)
  ultimately show ?thesis using True by auto
next
  case False
  then show ?thesis using kv_okD(2) [OF ok] by (intro exI [of _ "m_raftNode kv"]) (simp add: IfNeedToSendSnapShotCommand_def)
qed

text \<open>The channels after a command was handed to the handler that waits for its index.\<close>

definition notified :: "op \<Rightarrow> int \<Rightarrow> kvServer \<Rightarrow> nat \<rightharpoonup> op lockQueue" where
  "notified x i kv = (case waitApplyCh kv i of None \<Rightarrow> channels kv
     | Some ch \<Rightarrow> (channels kv)(ch \<mapsto> Push x (the (channels kv ch))))"

lemma command_spec:
  assumes ok: "kv_ok kv" and fair: "fair rands" and dec: "op_parseFromString c (Command msg) = Inr x"
    and new: "m_lastSnapShotRaftLogIndex kv < CommandIndex msg"
  shows "\<exists>kv'. GetCommandFromRaft c rands msg kv = Inr kv' \<and> kv_ok kv' \<and> kv_view kv' = spec_apply x (kv_view kv) \<and>
     waitApplyCh kv' = waitApplyCh kv \<and> channels kv' = notified x (CommandIndex msg) kv \<and> next_channel kv' = next_channel kv \<and>
     m_lastSnapShotRaftLogIndex kv' = m_lastSnapShotRaftLogIndex kv"
proof -
  obtain l t where ex: "executeCommand rands x kv = Inr (kv\<lparr>m_skipList := l, m_lastRequestId := t\<rparr>)"
    and ok1: "kv_ok (kv\<lparr>m_skipList := l, m_lastRequestId := t\<rparr>)"
    and view: "kv_view (kv\<lparr>m_skipList := l, m_lastRequestId := t\<rparr>) = spec_apply x (kv_view kv)"
    using executeCommand_spec [OF ok fair] by blast
  let ?kv1 = "kv\<lparr>m_skipList := l, m_lastRequestId := t\<rparr>"
  obtain node d where snap: "(if m_maxRaftState ?kv1 \<noteq> -1 then IfNeedToSendSnapShotCommand c (CommandIndex msg) 9 ?kv1 else Inr ?kv1) =
      Inr (?kv1\<lparr>m_raftNode := node, m_serializedKVData := d\<rparr>)" and node: "raft_wf node"
  proof (cases "m_maxRaftState ?kv1 = -1")
    case True
    then show thesis using that [of "m_serializedKVData kv" "m_raftNode kv"] kv_okD(2) [OF ok] by simp
  next
    case False
    then show thesis using that snapshot_step [OF ok1, of c "CommandIndex msg" 9] by auto
  qed
  let ?kv2 = "?kv1\<lparr>m_raftNode := node, m_serializedKVData := d\<rparr>"
  let ?kv3 = "?kv2\<lparr>channels := notified x (CommandIndex msg) kv\<rparr>"
  have ch: "channels kv ch \<noteq> None" if "waitApplyCh kv (CommandIndex msg) = Some ch" for ch
    using kv_okD(3) [OF ok] that by (simp add: channels_ok_def)
  have "\<exists>b. SendMessageToWaitChan x (CommandIndex msg) ?kv2 = Inr (?kv3, b)"
    using ch by (auto simp: SendMessageToWaitChan_def notified_def split: option.splits)
  then have "GetCommandFromRaft c rands msg kv = Inr ?kv3"
    using ex snap new dec by (auto simp: GetCommandFromRaft_def)
  moreover have "channels_ok ?kv3"
    using kv_okD(3) [OF ok] by (auto simp: channels_ok_def notified_def split: option.splits)
  then have "kv_ok ?kv3" using ok1 node by (simp add: kv_ok_def)
  moreover have "kv_view ?kv3 = spec_apply x (kv_view kv)" using view by (simp add: kv_view_def)
  ultimately show ?thesis by auto
qed

section \<open>Applying a sequence of commands\<close>

text \<open>The service is given messages one after the other, each with its own random draws.\<close>

fun apply_all :: "codec \<Rightarrow> (nat list \<times> applyMsg) list \<Rightarrow> kvServer \<Rightarrow> kvServer result" where
  "apply_all c [] kv = Inr kv"
| "apply_all c ((rands, msg) # ms) kv = rbind (GetCommandFromRaft c rands msg kv) (apply_all c ms)"

text \<open>The messages carry the operations \<open>xs\<close> under indices the server has no snapshot of.\<close>

definition carries :: "codec \<Rightarrow> (nat list \<times> applyMsg) list \<Rightarrow> op list \<Rightarrow> kvServer \<Rightarrow> bool" where
  "carries c ms xs kv \<longleftrightarrow> list_all2 (\<lambda>m x. fair (fst m) \<and> op_parseFromString c (Command (snd m)) = Inr x \<and>
     m_lastSnapShotRaftLogIndex kv < CommandIndex (snd m)) ms xs"

lemma apply_all_spec:
  assumes "kv_ok kv" and "carries c ms xs kv"
  shows "\<exists>kv'. apply_all c ms kv = Inr kv' \<and> kv_ok kv' \<and> kv_view kv' = fold spec_apply xs (kv_view kv) \<and>
     m_lastSnapShotRaftLogIndex kv' = m_lastSnapShotRaftLogIndex kv"
  using assms
proof (induction ms arbitrary: xs kv)
  case Nil
  then show ?case by (simp add: carries_def)
next
  case (Cons m ms)
  then obtain x xs' where xs: "xs = x # xs'" "carries c ms xs' kv" "fair (fst m)" "op_parseFromString c (Command (snd m)) = Inr x"
    "m_lastSnapShotRaftLogIndex kv < CommandIndex (snd m)"
    by (auto simp: carries_def list_all2_Cons1)
  obtain kv1 where kv1: "GetCommandFromRaft c (fst m) (snd m) kv = Inr kv1" "kv_ok kv1" "kv_view kv1 = spec_apply x (kv_view kv)"
    "m_lastSnapShotRaftLogIndex kv1 = m_lastSnapShotRaftLogIndex kv"
    using command_spec [OF Cons.prems(1) xs(3-5)] by blast
  have "carries c ms xs' kv1" using xs(2) kv1(4) by (simp add: carries_def)
  from Cons.IH [OF kv1(2) this] show ?case using kv1 xs(1) by (cases m) auto
qed

section \<open>The handlers\<close>

lemma Get_finish_spec:
  assumes ok: "kv_ok kv" and go: "(case popped of None \<Rightarrow> ifRequestDuplicate (ga_clientid args) (ga_requestid args) kv \<and> snd (GetState (m_raftNode kv))
      | Some y \<Rightarrow> ClientId y = ga_clientid args \<and> RequestId y = ga_requestid args)"
  shows "\<exists>kv'. Get_finish args i popped kv = Inr (kv', case fst (kv_view kv) (ga_key args) of
      None \<Rightarrow> \<lparr>kr_err = ErrNoKey, kr_value = []\<rparr> | Some v \<Rightarrow> \<lparr>kr_err = OK, kr_value = v\<rparr>) \<and>
    kv_view kv' = (fst (kv_view kv), (snd (kv_view kv))(ga_clientid args \<mapsto> ga_requestid args))"
proof -
  have s: "search_element (ga_key args) (m_skipList kv) = Some (fst (kv_view kv) (ga_key args))"
    using view_lookup [OF kv_okD(1) [OF ok]] by (simp add: kv_view_def)
  let ?kv = "kv\<lparr>m_lastRequestId := AList.update (ga_clientid args) (ga_requestid args) (m_lastRequestId kv)\<rparr>"
  have "kv_view (dropChannel i ?kv) = (fst (kv_view kv), (snd (kv_view kv))(ga_clientid args \<mapsto> ga_requestid args))"
    by (simp add: kv_view_def dropChannel_def update_conv' split: option.splits)
  moreover have "Get_finish args i popped kv = Inr (dropChannel i ?kv, case fst (kv_view kv) (ga_key args) of
      None \<Rightarrow> \<lparr>kr_err = ErrNoKey, kr_value = []\<rparr> | Some v \<Rightarrow> \<lparr>kr_err = OK, kr_value = v\<rparr>)"
    using go s by (auto simp: Get_finish_def getOp_def ExecuteGetOpOnKVDB_def split: option.splits)
  ultimately show ?thesis by blast
qed

lemma dropChannel_ok: "kv_ok kv \<Longrightarrow> kv_ok (dropChannel i kv)"
  by (fastforce simp: dropChannel_def kv_ok_def channels_ok_def split: option.splits)

lemma obtainChannel_ok:
  assumes "kv_ok kv" and "obtainChannel i kv = (kv', ch)"
  shows "kv_ok kv'" and "waitApplyCh kv' i = Some ch" and "channels kv' ch \<noteq> None" and "kv_view kv' = kv_view kv"
  using assms by (fastforce simp: obtainChannel_def kv_ok_def channels_ok_def kv_view_def split: option.splits if_splits)+

end
