(* ===== verification/KvService.thy ===== *)
theory KvService
  imports KvServer ReplicaProperties
begin

text \<open>
  What the skip list and the service on top of it (\<open>skipList.h\<close>, \<open>kvServer.cpp\<close>) promise: the runs of one server
  with their invariant, and the properties of the store, of the replicated state machine and of the RPC handlers.
\<close>

section \<open>Runs of the service\<close>

text \<open>
  The steps of one server between restarts and snapshot installations: whatever its replica does, the parts of
  the RPC handlers and the commands the replica delivers, in any order. The history records the index and the
  operation of every command delivered.
\<close>

inductive kv_run :: "codec \<Rightarrow> (int \<times> op) list \<Rightarrow> kvServer \<Rightarrow> bool" for c where
  start: "kv_ok kv \<Longrightarrow> waitApplyCh kv = Map.empty \<Longrightarrow> kv_run c [] kv"
| replica: "kv_run c hist kv \<Longrightarrow> raft_wf node \<Longrightarrow> kv_run c hist (kv\<lparr>m_raftNode := node\<rparr>)"
| put_call: "kv_run c hist kv \<Longrightarrow> PutAppend_start c pargs kv = (kv', h) \<Longrightarrow> kv_run c hist kv'"
| get_call: "kv_run c hist kv \<Longrightarrow> Get_start c gargs kv = (kv', h) \<Longrightarrow> kv_run c hist kv'"
| wait: "kv_run c hist kv \<Longrightarrow> waitChannel [] ch kv = Inr (Some (popped, kv')) \<Longrightarrow> kv_run c hist kv'"
| put_return: "kv_run c hist kv \<Longrightarrow> PutAppend_finish pargs i popped kv = (kv', reply) \<Longrightarrow> kv_run c hist kv'"
| get_return: "kv_run c hist kv \<Longrightarrow> Get_finish gargs i popped kv = Inr (kv', reply) \<Longrightarrow> kv_run c hist kv'"
| command: "kv_run c hist kv \<Longrightarrow> fair rands \<Longrightarrow> op_parseFromString c (Command msg) = Inr x \<Longrightarrow>
    m_lastSnapShotRaftLogIndex kv < CommandIndex msg \<Longrightarrow> GetCommandFromRaft c rands msg kv = Inr kv' \<Longrightarrow>
    kv_run c ((CommandIndex msg, x) # hist) kv'"

text \<open>Every operation in the channel of an index was delivered under that index.\<close>

definition delivered :: "(int \<times> op) list \<Rightarrow> kvServer \<Rightarrow> bool" where
  "delivered hist kv \<longleftrightarrow> (\<forall>i ch q y. waitApplyCh kv i = Some ch \<and> channels kv ch = Some q \<and> y \<in> set q \<longrightarrow> (i, y) \<in> set hist)"

lemma startOp_keeps:
  assumes ok: "kv_ok kv" and del: "delivered hist kv" and st: "startOp c x kv = (kv', h)"
  shows "kv_ok kv' \<and> delivered hist kv' \<and> kv_view kv' = kv_view kv"
proof -
  obtain node i trm ldr where s: "Start c x (m_raftNode kv) = (node, i, trm, ldr)" by (cases "Start c x (m_raftNode kv)")
  have wf: "raft_wf node" using Start_wf_evolves [OF kv_okD(2) [OF ok]] s by blast
  let ?kv1 = "kv\<lparr>m_raftNode := node\<rparr>"
  have ok1: "kv_ok ?kv1" "delivered hist ?kv1" "kv_view ?kv1 = kv_view kv"
    using ok del wf by (auto simp: kv_ok_def channels_ok_def delivered_def kv_view_def)
  show ?thesis
  proof (cases ldr)
    case False
    then show ?thesis using st s ok1 by (auto simp: startOp_def)
  next
    case True
    obtain kv2 ch where o: "obtainChannel i ?kv1 = (kv2, ch)" by (cases "obtainChannel i ?kv1")
    have "kv' = kv2" using st s True o by (auto simp: startOp_def)
    moreover have "delivered hist kv2"
    proof -
      have "next_channel kv \<noteq> ch'" if "waitApplyCh kv j = Some ch'" for j ch'
        using kv_okD(3) [OF ok] that unfolding channels_ok_def by (metis less_irrefl)
      then show ?thesis using o del by (fastforce simp: obtainChannel_def delivered_def split: option.splits if_splits)
    qed
    ultimately show ?thesis using obtainChannel_ok [OF ok1(1) o] ok1(3) by simp
  qed
qed


lemma command_keeps:
  assumes "kv_ok kv" and "delivered hist kv" and "channels kv' = notified x i kv" and "waitApplyCh kv' = waitApplyCh kv"
  shows "delivered ((i, x) # hist) kv'"
  unfolding delivered_def
proof (intro allI impI)
  fix j ch q y assume a: "waitApplyCh kv' j = Some ch \<and> channels kv' ch = Some q \<and> y \<in> set q"
  have one: "waitApplyCh kv i = Some ch \<Longrightarrow> waitApplyCh kv j = Some ch \<Longrightarrow> i = j"
    using kv_okD(3) [OF assms(1)] unfolding channels_ok_def by blast
  have ex: "waitApplyCh kv i = Some ch \<Longrightarrow> channels kv ch \<noteq> None" using kv_okD(3) [OF assms(1)] by (simp add: channels_ok_def)
  show "(j, y) \<in> set ((i, x) # hist)"
    using a assms(2-4) one ex by (fastforce simp: delivered_def notified_def Push_def split: option.splits if_splits)
qed

lemma wait_keeps:
  assumes "kv_ok kv" and "delivered hist kv" and "waitChannel [] ch kv = Inr (Some (popped, kv'))"
  shows "kv_ok kv' \<and> delivered hist kv'"
proof -
  obtain q where q: "channels kv ch = Some q" using assms(3) by (auto simp: waitChannel_def split: option.splits)
  with assms(3) obtain y ys where "q = y # ys" "kv' = kv\<lparr>channels := (channels kv)(ch \<mapsto> ys)\<rparr>"
    by (cases q) (auto simp: waitChannel_def)
  with q assms(1,2) show ?thesis by (fastforce simp: kv_ok_def channels_ok_def delivered_def split: if_splits)
qed

lemma finish_keeps:
  assumes "kv_ok kv" and "delivered hist kv"
  shows "kv_ok (dropChannel i (kv\<lparr>m_lastRequestId := t\<rparr>)) \<and> delivered hist (dropChannel i (kv\<lparr>m_lastRequestId := t\<rparr>))"
proof -
  have "kv_ok (kv\<lparr>m_lastRequestId := t\<rparr>)" using assms(1) by (simp add: kv_ok_def channels_ok_def)
  moreover have "delivered hist (dropChannel i (kv\<lparr>m_lastRequestId := t\<rparr>))"
    using assms(2) by (auto simp: dropChannel_def delivered_def split: option.splits if_splits)
  ultimately show ?thesis using dropChannel_ok by blast
qed

lemma Get_finish_state:
  assumes "Get_finish args i popped kv = Inr (kv', reply)"
  shows "\<exists>t. kv' = dropChannel i (kv\<lparr>m_lastRequestId := t\<rparr>)"
  using assms by (auto simp: Get_finish_def ExecuteGetOpOnKVDB_def Let_def rbind_eq_Inr split: if_splits)
    (metis kvServer.surjective kvServer.update_convs(9))

lemma run_invariant: "kv_run c hist kv \<Longrightarrow> kv_ok kv \<and> delivered hist kv"
proof (induction rule: kv_run.induct)
  case (start kv)
  then show ?case by (simp add: delivered_def)
next
  case (replica hist kv node)
  then show ?case by (auto simp: kv_ok_def channels_ok_def delivered_def)
next
  case (put_call hist kv pargs kv' h)
  then show ?case using startOp_keeps by (metis PutAppend_start_def)
next
  case (get_call hist kv gargs kv' h)
  then show ?case using startOp_keeps by (metis Get_start_def)
next
  case (wait hist kv ch popped kv')
  then show ?case using wait_keeps by blast
next
  case (put_return hist kv pargs i popped kv' reply)
  then show ?case using finish_keeps [of kv hist i "m_lastRequestId kv"] by (auto simp: PutAppend_finish_def Let_def)
next
  case (get_return hist kv gargs i popped kv' reply)
  then show ?case using finish_keeps Get_finish_state [OF get_return.hyps(2)] by blast
next
  case (command hist kv rands msg x kv')
  then obtain kv'' where "GetCommandFromRaft c rands msg kv = Inr kv''" "kv_ok kv''" "waitApplyCh kv'' = waitApplyCh kv"
    "channels kv'' = notified x (CommandIndex msg) kv"
    using command_spec by blast
  with command show ?case using command_keeps [of kv hist kv' x "CommandIndex msg"] by simp
qed

section \<open>The store\<close>

definition sample_list :: "(string, string) skipList" where
  "sample_list = SkipList [] [] 6"

lemma sample_list_ok: "skip_ok sample_list" "contents sample_list = Some []"
  unfolding sample_list_def by (rule SkipList_ok)+

text \<open>C15: \<open>insert_set_element\<close>: on a skip list whose invariant holds, and with random draws that end, the call
  returns, keeps the invariant and replaces or inserts the pair at its place in the sorted list of pairs.\<close>

theorem skip_list_put:
  assumes "skip_ok l" and "contents l = Some kvs" and "fair rands"
  shows "\<exists>l'. insert_set_element rands k v l = Some l' \<and> skip_ok l' \<and> contents l' = Some (put_pair k v kvs)"
  using insert_set_ok [OF assms] by blast

theorem skip_list_put_witness:
  "\<exists>l'. insert_set_element [3, 5, 2] ''a'' ''1'' sample_list = Some l' \<and> skip_ok l' \<and> contents l' = Some [(''a'', ''1'')]"
proof -
  have "fair [3, 5, 2]" by (simp add: fair_def)
  from skip_list_put [OF sample_list_ok this, of "''a''" "''1''"] show ?thesis by (simp add: put_pair_def)
qed

text \<open>\<open>delete_element\<close> returns, keeps the invariant and removes exactly the pair of the key, if there is one.\<close>

theorem skip_list_delete:
  assumes "skip_ok l" and "contents l = Some kvs"
  shows "\<exists>l'. delete_element k l = Some l' \<and> skip_ok l' \<and> contents l' = Some (drop_pair k kvs)"
  using delete_ok [OF assms] by blast

theorem skip_list_delete_witness:
  "\<exists>l l'. insert_set_element [3, 5, 2] ''a'' ''1'' sample_list = Some l \<and> delete_element ''a'' l = Some l' \<and> contents l' = Some []"
proof -
  have "fair [3, 5, 2]" by (simp add: fair_def)
  then obtain l where l: "insert_set_element [3, 5, 2] ''a'' ''1'' sample_list = Some l" "skip_ok l" "contents l = Some (put_pair ''a'' ''1'' [])"
    using insert_set_ok [OF sample_list_ok] by blast
  from skip_list_delete [OF l(2,3), of "''a''"] l(1) show ?thesis by (auto simp: put_pair_def drop_pair_def)
qed

text \<open>\<open>search_element\<close> returns the value stored under the key, and \<open>size\<close> the number of keys.\<close>

theorem skip_list_search:
  assumes "skip_ok l" and "contents l = Some kvs"
  shows "search_element k l = Some (map_of kvs k) \<and> skip_size l = int (card (dom (map_of kvs)))"
proof -
  obtain kvs' where k: "contents l = Some kvs'" "sorted_wrt (<) (map fst kvs')" "element_count l = int (length kvs')"
    using assms(1) by (rule contents_sorted)
  have "distinct (map fst kvs)" using k assms(2) strict_sorted_iff by fastforce
  then have "card (dom (map_of kvs)) = length kvs" by (simp add: dom_map_of_conv_image_fst card_image distinct_map distinct_card)
  then show ?thesis using search_ok [OF assms] k assms(2) by (simp add: skip_size_def)
qed

theorem skip_list_search_witness: "search_element ''a'' sample_list = Some None \<and> skip_size sample_list = 0"
  using skip_list_search [OF sample_list_ok, of "''a''"] by simp

text \<open>The destructor returns and frees the header and every node, each exactly once: nothing is left allocated.\<close>

theorem skip_list_destroyed:
  assumes "skip_ok l"
  shows "delete_SkipList l = Some Map.empty"
  using assms by (rule destructor_frees)

theorem skip_list_destroyed_witness: "delete_SkipList sample_list = Some Map.empty"
  using skip_list_destroyed [OF sample_list_ok(1)] .


lemma Get_finish_ok:
  assumes "kv_ok kv" and "Get_finish args i popped kv = Inr (kv', reply)"
  shows "kv_ok kv' \<and> m_lastSnapShotRaftLogIndex kv' = m_lastSnapShotRaftLogIndex kv"
proof -
  obtain t where kv': "kv' = dropChannel i (kv\<lparr>m_lastRequestId := t\<rparr>)" using Get_finish_state [OF assms(2)] by blast
  have "kv_ok (kv\<lparr>m_lastRequestId := t\<rparr>)" using assms(1) by (simp add: kv_ok_def channels_ok_def)
  then have "kv_ok kv'" unfolding kv' by (rule dropChannel_ok)
  then show ?thesis by (auto simp: kv' dropChannel_def split: option.splits)
qed

section \<open>The replicated state machine\<close>

definition sample_server :: kvServer where
  "sample_server = \<lparr>kv_me = 1, m_raftNode = sample_raft, m_maxRaftState = -1, m_serializedKVData = [], m_skipList = sample_list,
     waitApplyCh = Map.empty, channels = Map.empty, next_channel = 0, m_lastRequestId = [], m_lastSnapShotRaftLogIndex = 0\<rparr>"

definition sample_put :: op where
  "sample_put = \<lparr>Operation = ''Put'', Key = ''k'', Value = ''v'', ClientId = ''c'', RequestId = 1\<rparr>"

definition sample_msg :: "int \<Rightarrow> nat list \<times> applyMsg" where
  "sample_msg i = ([0], ApplyMsg\<lparr>CommandValid := True, Command := asString unary_codec sample_put, CommandIndex := i\<rparr>)"

lemma sample_server_ok: "kv_ok sample_server"
  using sample_wf sample_list_ok(1) by (simp add: kv_ok_def channels_ok_def sample_server_def)

lemma sample_view: "kv_view sample_server = (Map.empty, Map.empty)"
  by (simp add: kv_view_def sample_server_def sample_list_ok(2))

lemma sample_carries: "0 < i \<Longrightarrow> carries unary_codec [sample_msg i] [sample_put] sample_server"
  by (simp add: carries_def sample_msg_def fair_def sample_server_def)

text \<open>C11: State machine replication. Two servers in states with the same contents and the same request table that
  are given the same operations, in the same order and under indices they have no snapshot of, both process all
  of them and end with the same contents and table, whatever random levels they draw and whoever waits for a reply.\<close>

theorem servers_agree:
  assumes "kv_ok kv1" and "kv_ok kv2" and "kv_view kv1 = kv_view kv2" and "carries c ms1 xs kv1" and "carries c ms2 xs kv2"
  shows "\<exists>kv1' kv2'. apply_all c ms1 kv1 = Inr kv1' \<and> apply_all c ms2 kv2 = Inr kv2' \<and> kv_view kv1' = kv_view kv2' \<and>
    kv_view kv1' = fold spec_apply xs (kv_view kv1) \<and> kv_ok kv1' \<and> kv_ok kv2'"
  using apply_all_spec [OF assms(1,4)] apply_all_spec [OF assms(2,5)] assms(3) by auto

theorem servers_agree_witness:
  "\<exists>kv1' kv2'. apply_all unary_codec [sample_msg 1] sample_server = Inr kv1' \<and> apply_all unary_codec [sample_msg 2] sample_server = Inr kv2' \<and>
    kv_view kv1' = kv_view kv2' \<and> fst (kv_view kv1') ''k'' = Some ''v''"
proof -
  have "fst (fold spec_apply [sample_put] (kv_view sample_server)) ''k'' = Some ''v''"
    by (simp add: spec_apply_def is_write_def seen_def sample_view sample_put_def)
  then show ?thesis
    using servers_agree [OF sample_server_ok sample_server_ok refl sample_carries [of 1] sample_carries [of 2]] by auto
qed

text \<open>C12: Exactly once. After a write was applied, the same request delivered again, after any number of other
  operations, changes neither the contents nor the request table.\<close>

theorem duplicate_ignored:
  assumes "kv_ok kv" and "is_write x" and "carries c (ms @ [m]) (xs @ [x]) kv" and "x \<in> set xs"
  shows "\<exists>kv1 kv2. apply_all c ms kv = Inr kv1 \<and> apply_all c (ms @ [m]) kv = Inr kv2 \<and> kv_view kv2 = kv_view kv1"
proof -
  have len: "length ms = length xs" using list_all2_lengthD assms(3) by (fastforce simp: carries_def)
  then have "carries c ms xs kv" using assms(3) by (simp add: carries_def list_all2_append)
  then obtain kv1 where kv1: "apply_all c ms kv = Inr kv1" "kv_view kv1 = fold spec_apply xs (kv_view kv)"
    using apply_all_spec [OF assms(1)] by blast
  obtain kv2 where kv2: "apply_all c (ms @ [m]) kv = Inr kv2" "kv_view kv2 = fold spec_apply (xs @ [x]) (kv_view kv)"
    using apply_all_spec [OF assms(1,3)] by blast
  obtain as bs where "xs = as @ x # bs" using split_list [OF assms(4)] by blast
  then have "seen x (fold spec_apply xs (kv_view kv))" using seen_fold seen_after [OF assms(2)] by simp
  then show ?thesis using kv1 kv2 spec_apply_seen by simp
qed

theorem duplicate_ignored_witness:
  "\<exists>kv1 kv2. apply_all unary_codec [sample_msg 1] sample_server = Inr kv1 \<and>
     apply_all unary_codec [sample_msg 1, sample_msg 2] sample_server = Inr kv2 \<and> kv_view kv2 = kv_view kv1"
proof -
  have w: "is_write sample_put" by (simp add: is_write_def sample_put_def)
  have "carries unary_codec ([sample_msg 1] @ [sample_msg 2]) ([sample_put] @ [sample_put]) sample_server"
    by (simp add: carries_def sample_msg_def fair_def sample_server_def)
  from duplicate_ignored [OF sample_server_ok w this] show ?thesis by simp
qed

text \<open>C13: A successful write is committed. In every run of a server, when a \<open>PutAppend\<close> handler takes an operation from
  the channel of its index and then replies, it replies \<open>OK\<close> exactly when that operation carries its client and
  request number; the operation was delivered by the replica under that index. After a timeout the reply is
  \<open>OK\<close> exactly when the request table covers the request.\<close>

theorem put_reply_sound:
  assumes "kv_run c hist kv" and "waitApplyCh kv i = Some ch" and "waitChannel [] ch kv = Inr (Some (popped, kv1))"
  shows "\<exists>y. popped = Some y \<and> (i, y) \<in> set hist \<and>
    (kr_err (snd (PutAppend_finish args i popped kv2)) = OK \<longleftrightarrow> ClientId y = pa_clientid args \<and> RequestId y = pa_requestid args) \<and>
    (kr_err (snd (PutAppend_finish args i None kv2)) = OK \<longleftrightarrow> ifRequestDuplicate (pa_clientid args) (pa_requestid args) kv2)"
proof -
  obtain q where q: "channels kv ch = Some q" using assms(3) by (auto simp: waitChannel_def split: option.splits)
  with assms(3) obtain y ys where y: "q = y # ys" "popped = Some y" by (cases q) (auto simp: waitChannel_def)
  have "(i, y) \<in> set hist" using run_invariant [OF assms(1)] assms(2) q y(1) unfolding delivered_def by (metis list.set_intros(1))
  then show ?thesis using y by (auto simp: PutAppend_finish_def putOp_def OK_def ErrWrongLeader_def)
qed


definition sample_args :: putAppendArgs where
  "sample_args = \<lparr>pa_key = ''k'', pa_value = ''v'', pa_op = ''Put'', pa_clientid = ''c'', pa_requestid = 1\<rparr>"

definition sample_leader :: kvServer where
  "sample_leader = sample_server\<lparr>m_raftNode := sample_raft\<lparr>m_status := Leader\<rparr>\<rparr>"

lemma sample_leader_ok: "kv_ok sample_leader"
proof -
  have "raft_wf (sample_raft\<lparr>m_status := Leader\<rparr>)"
    by (simp add: raft_wf_def log_wf_def sample_raft_def numbered_Cons lastlog_defs)
  then show ?thesis using sample_server_ok by (simp add: sample_leader_def kv_ok_def channels_ok_def)
qed

theorem put_reply_sound_witness:
  "\<exists>hist kv y kv1. kv_run unary_codec hist kv \<and> waitApplyCh kv 3 = Some 0 \<and> waitChannel [] 0 kv = Inr (Some (Some y, kv1)) \<and>
     (3, y) \<in> set hist \<and> kr_err (snd (PutAppend_finish sample_args 3 (Some y) kv1)) = OK"
proof -
  have r0: "kv_run unary_codec [] sample_leader"
    by (rule kv_run.start [OF sample_leader_ok]) (simp add: sample_leader_def sample_server_def)
  have "snd (PutAppend_start c sample_args sample_leader) = Waiting 3 0 \<and> waitApplyCh (fst (PutAppend_start c sample_args sample_leader)) 3 = Some 0 \<and>
     channels (fst (PutAppend_start c sample_args sample_leader)) 0 = Some [] \<and> m_lastSnapShotRaftLogIndex (fst (PutAppend_start c sample_args sample_leader)) = 0" for c
    by code_simp
  then obtain kv where kv: "PutAppend_start unary_codec sample_args sample_leader = (kv, Waiting 3 0)" "waitApplyCh kv 3 = Some 0"
    "channels kv 0 = Some []" "m_lastSnapShotRaftLogIndex kv = 0" by (metis prod.collapse)
  have r1: "kv_run unary_codec [] kv" by (rule kv_run.put_call [OF r0 kv(1)])
  let ?msg = "ApplyMsg\<lparr>CommandValid := True, Command := asString unary_codec (putOp sample_args), CommandIndex := 3\<rparr>"
  have fair: "fair [0]" by (simp add: fair_def)
  have dec: "op_parseFromString unary_codec (Command ?msg) = Inr (putOp sample_args)" by simp
  have new: "m_lastSnapShotRaftLogIndex kv < CommandIndex ?msg" using kv(4) by simp
  obtain kv' where kv': "GetCommandFromRaft unary_codec [0] ?msg kv = Inr kv'" "waitApplyCh kv' = waitApplyCh kv"
    "channels kv' = notified (putOp sample_args) 3 kv"
    using command_spec [OF conjunct1 [OF run_invariant [OF r1]] fair dec new] by auto
  have r2: "kv_run unary_codec [(CommandIndex ?msg, putOp sample_args)] kv'" by (rule kv_run.command [OF r1 fair dec new kv'(1)])
  have w: "waitApplyCh kv' 3 = Some 0" using kv' kv by simp
  have "channels kv' 0 = Some [putOp sample_args]" using kv kv' by (simp add: notified_def Push_def)
  then have p: "waitChannel [] 0 kv' = Inr (Some (Some (putOp sample_args), kv'\<lparr>channels := (channels kv')(0 \<mapsto> [])\<rparr>))"
    by (simp add: waitChannel_def)
  from put_reply_sound [OF r2 w p, of sample_args "kv'\<lparr>channels := (channels kv')(0 \<mapsto> [])\<rparr>"] r2 w p show ?thesis
    by (fastforce simp: putOp_def sample_args_def)
qed

text \<open>C14: The request table is changed outside the log. Of two servers with the same contents and table, let one
  finish a \<open>Get\<close> of a client and then let both apply the same, older write of that client: the write is skipped on the
  one server and executed on the other.\<close>

theorem get_makes_servers_diverge:
  assumes "kv_ok kv1" and "kv_ok kv2" and "kv_view kv1 = kv_view kv2" and "ClientId y = ga_clientid args" and "RequestId y = ga_requestid args"
    and "is_write x" and "ClientId x = ga_clientid args" and "RequestId x \<le> ga_requestid args" and "\<not> seen x (kv_view kv2)"
    and "fair rands" and "op_parseFromString c (Command msg) = Inr x" and "m_lastSnapShotRaftLogIndex kv2 < CommandIndex msg"
    and "m_lastSnapShotRaftLogIndex kv1 < CommandIndex msg"
  shows "\<exists>kv1' reply kv1'' kv2'. Get_finish args i (Some y) kv1 = Inr (kv1', reply) \<and> GetCommandFromRaft c rands msg kv1' = Inr kv1'' \<and>
    GetCommandFromRaft c rands msg kv2 = Inr kv2' \<and> fst (kv_view kv1'') = fst (kv_view kv1) \<and>
    fst (kv_view kv2') = (fst (kv_view kv1))(Key x \<mapsto> Value x)"
proof -
  obtain kv1' reply where g: "Get_finish args i (Some y) kv1 = Inr (kv1', reply)"
    and v1: "kv_view kv1' = (fst (kv_view kv1), (snd (kv_view kv1))(ga_clientid args \<mapsto> ga_requestid args))"
    using Get_finish_spec [OF assms(1), of args "Some y" i] assms(4,5) by auto
  have ok1: "kv_ok kv1'" and ls: "m_lastSnapShotRaftLogIndex kv1' = m_lastSnapShotRaftLogIndex kv1"
    using Get_finish_ok [OF assms(1) g] by auto
  obtain kv1'' where a1: "GetCommandFromRaft c rands msg kv1' = Inr kv1''" "kv_view kv1'' = spec_apply x (kv_view kv1')"
    using command_spec [OF ok1 assms(10,11)] assms(13) ls by auto
  obtain kv2' where a2: "GetCommandFromRaft c rands msg kv2 = Inr kv2'" "kv_view kv2' = spec_apply x (kv_view kv2)"
    using command_spec [OF assms(2,10,11,12)] by blast
  have "seen x (kv_view kv1')" using assms(7,8) v1 by (simp add: seen_def)
  then have "kv_view kv1'' = kv_view kv1'" using a1(2) spec_apply_seen by simp
  moreover have "kv_view kv2' = ((fst (kv_view kv1))(Key x \<mapsto> Value x), (snd (kv_view kv1))(ClientId x \<mapsto> RequestId x))"
    using a2(2) assms(3,6,9) by (simp add: spec_apply_def)
  ultimately show ?thesis using g a1(1) a2(1) v1 by auto
qed

theorem get_makes_servers_diverge_witness:
  "\<exists>kv1' reply kv1'' kv2'. Get_finish \<lparr>ga_key = ''k'', ga_clientid = ''c'', ga_requestid = 2\<rparr> 5
       (Some \<lparr>Operation = ''Get'', Key = ''k'', Value = [], ClientId = ''c'', RequestId = 2\<rparr>) sample_server = Inr (kv1', reply) \<and>
     GetCommandFromRaft unary_codec [0] (snd (sample_msg 6)) kv1' = Inr kv1'' \<and>
     GetCommandFromRaft unary_codec [0] (snd (sample_msg 6)) sample_server = Inr kv2' \<and>
     fst (kv_view kv1'') ''k'' = None \<and> fst (kv_view kv2') ''k'' = Some ''v''"
proof -
  have h: "is_write sample_put" "ClientId sample_put = ''c''" "RequestId sample_put \<le> 2" "\<not> seen sample_put (kv_view sample_server)"
    "fair [0]" "op_parseFromString unary_codec (Command (snd (sample_msg 6))) = Inr sample_put" "Key sample_put = ''k''" "Value sample_put = ''v''"
    by (simp_all add: is_write_def sample_put_def seen_def sample_view fair_def sample_msg_def)
  have "m_lastSnapShotRaftLogIndex sample_server < CommandIndex (snd (sample_msg 6))" by (simp add: sample_server_def sample_msg_def)
  then show ?thesis
    using get_makes_servers_diverge [OF sample_server_ok sample_server_ok refl, of "\<lparr>Operation = ''Get'', Key = ''k'', Value = [], ClientId = ''c'', RequestId = 2\<rparr>"
      "\<lparr>ga_key = ''k'', ga_clientid = ''c'', ga_requestid = 2\<rparr>" sample_put "[0]" unary_codec "snd (sample_msg 6)" 5] h
    by (fastforce simp: sample_view)
qed

text \<open>A \<open>Get\<close> that finishes late also moves the table backwards, so that a write already executed is new again.\<close>

lemma late_get_forgets:
  assumes "kv_ok kv" and "ClientId y = ga_clientid args" and "RequestId y = ga_requestid args"
    and "ClientId x = ga_clientid args" and "ga_requestid args < RequestId x"
  shows "\<exists>kv' reply. Get_finish args i (Some y) kv = Inr (kv', reply) \<and> \<not> seen x (kv_view kv')"
  using Get_finish_spec [OF assms(1), of args "Some y" i] assms(2-5) by (auto simp: seen_def)

section \<open>Snapshots of the service\<close>

text \<open>A snapshot of one server installed on a server that holds no keys restores the request table and the set of
  keys, but every key comes back with itself as its value.\<close>

theorem snapshot_loses_values:
  assumes c: "codec_ok c" and ok: "kv_ok kv" and contents: "contents (m_skipList kv) = Some kvs"
    and ok0: "kv_ok kv0" and empty: "contents (m_skipList kv0) = Some []"
    and rs: "length kvs \<le> length rs" "\<forall>r \<in> set rs. fair r"
  shows "\<exists>kv1 data kv'. MakeSnapShot c kv = Inr (kv1, data) \<and> kv_view kv1 = kv_view kv \<and> ReadSnapShotToInstall c rs data kv0 = Inr kv' \<and>
     snd (kv_view kv') = snd (kv_view kv) \<and> fst (kv_view kv') = (\<lambda>k. if k \<in> dom (fst (kv_view kv)) then Some k else None)"
proof -
  let ?d = "oarchive_dump c \<lparr>keyDumpVt = map fst kvs, valDumpVt = map snd kvs\<rparr>"
  let ?data = "oarchive_kv c \<lparr>ka_serializedKVData = ?d, ka_lastRequestId = m_lastRequestId kv\<rparr>"
  have d: "dump_file c (m_skipList kv) = Some ?d" by (rule dump_ok [OF kv_okD(1) [OF ok] contents])
  have make: "MakeSnapShot c kv = Inr (kv\<lparr>m_serializedKVData := []\<rparr>, ?data)"
    by (simp add: MakeSnapShot_def getSnapshotData_def d Let_def)
  have ne: "?d \<noteq> []" "?data \<noteq> []" "iarchive_dump c ?d = Some \<lparr>keyDumpVt = map fst kvs, valDumpVt = map snd kvs\<rparr>"
    "iarchive_kv c ?data = Some \<lparr>ka_serializedKVData = ?d, ka_lastRequestId = m_lastRequestId kv\<rparr>"
    using c by (simp_all add: codec_ok_def)
  have "length (map fst kvs) \<le> length rs" using rs(1) by simp
  from load_loop_ok [OF kv_okD(1) [OF ok0] empty this rs(2)]
  obtain l where l: "load_loop rs (map fst kvs) (m_skipList kv0) = Some l" "contents l = Some (load_pairs (map fst kvs) [])" by blast
  have "load_file c rs ?d (m_skipList kv0) = Some l" using l(1) ne by (simp add: load_file_def)
  then have read: "ReadSnapShotToInstall c rs ?data kv0 =
      Inr (kv0\<lparr>m_skipList := l, m_serializedKVData := [], m_lastRequestId := m_lastRequestId kv\<rparr>)"
    using ne by (simp add: ReadSnapShotToInstall_def kv_parseFromString_def Let_def)
  show ?thesis using make read l(2) contents
    by (auto simp: kv_view_def map_of_load_pairs fun_eq_iff dom_map_of_conv_image_fst)
qed

theorem snapshot_loses_values_witness:
  "\<exists>kv kv1 data kv'. fst (kv_view kv) = [''k'' \<mapsto> ''v''] \<and> MakeSnapShot unary_codec kv = Inr (kv1, data) \<and>
     ReadSnapShotToInstall unary_codec [[0]] data sample_server = Inr kv' \<and> fst (kv_view kv') ''k'' = Some ''k''"
proof -
  obtain kv where kv: "apply_all unary_codec [sample_msg 1] sample_server = Inr kv" "kv_ok kv"
    "kv_view kv = fold spec_apply [sample_put] (kv_view sample_server)"
    using apply_all_spec [OF sample_server_ok sample_carries [of 1]] by auto
  then have v: "fst (kv_view kv) = [''k'' \<mapsto> ''v'']"
    by (simp add: spec_apply_def is_write_def seen_def sample_view sample_put_def)
  obtain kvs where kvs: "contents (m_skipList kv) = Some kvs" "sorted_wrt (<) (map fst kvs)"
    using kv_okD(1) [OF kv(2)] by (auto elim: contents_sorted)
  have "distinct (map fst kvs)" using kvs(2) strict_sorted_iff by blast
  then have "length kvs = card (dom (map_of kvs))" by (simp add: dom_map_of_conv_image_fst card_image distinct_map distinct_card)
  also have "\<dots> = 1" using v kvs(1) by (simp add: kv_view_def)
  finally have len: "length kvs \<le> length [[0 :: nat]]" by simp
  have e: "contents (m_skipList sample_server) = Some []" by (simp add: sample_server_def sample_list_ok(2))
  have fair: "\<forall>r \<in> set [[0]]. fair r" by (simp add: fair_def)
  from snapshot_loses_values [OF unary_codec_ok kv(2) kvs(1) sample_server_ok e len fair] v show ?thesis by fastforce
qed

end
