(* ===== verification/Clerk.thy ===== *)
theory Clerk
  imports KvServer
begin

text \<open>
  \<open>raftClerk/clerk.cpp\<close> and \<open>include/clerk.h\<close>: the client of the key-value service.

  The remote calls are an argument: \<open>rpc n server args\<close> is the outcome of the \<open>n\<close>-th attempt of a call,
  whether the transport succeeded and the reply. The clock is the number of attempts that start before the
  deadline. The loops that repeat a call until it is answered take the attempts of every round; they have
  no result (\<open>None\<close>) while no round was answered.
\<close>

section \<open>State\<close>

datatype clerkStatus = kOk | kNotFound | kUnavailable

record clerkGetResult =
  cg_status :: clerkStatus
  cg_value :: string

record clerk =
  m_servers :: nat
  m_clientId :: string
  m_requestId :: int
  m_recentLeaderId :: nat

definition Uuid :: "nat \<Rightarrow> nat \<Rightarrow> nat \<Rightarrow> nat \<Rightarrow> string" where
  "Uuid a b d e = to_string (int a) @ to_string (int b) @ to_string (int d) @ to_string (int e)"

definition Clerk :: "string \<Rightarrow> clerk" where
  "Clerk uuid = \<lparr>m_servers = 0, m_clientId = uuid, m_requestId = 0, m_recentLeaderId = 0\<rparr>"

text \<open>\<open>Init\<close>: one connection per node of the configuration file.\<close>

definition Clerk_Init :: "string \<Rightarrow> clerk \<Rightarrow> clerk" where
  "Clerk_Init config ck =
     ck\<lparr>m_servers := length (loadNodes (Load (LoadConfigFile config Map.empty)) 0), m_recentLeaderId := 0\<rparr>"

section \<open>One call\<close>

fun TryGet_loop :: "(nat \<Rightarrow> nat \<Rightarrow> getArgs \<Rightarrow> bool \<times> kvReply) \<Rightarrow> getArgs \<Rightarrow> nat \<Rightarrow> nat \<Rightarrow> nat \<Rightarrow> clerk \<Rightarrow> clerk \<times> clerkGetResult" where
  "TryGet_loop rpc args 0 n server ck = (ck, \<lparr>cg_status = kUnavailable, cg_value = []\<rparr>)"
| "TryGet_loop rpc args (Suc left) n server ck =
     (let (ok, reply) = rpc n server args; nextServer = (server + 1) mod m_servers ck in
      if \<not> ok \<or> kr_err reply = ErrWrongLeader then TryGet_loop rpc args left (n + 1) nextServer ck
      else if kr_err reply = ErrNoKey then (ck, \<lparr>cg_status = kNotFound, cg_value = []\<rparr>)
      else if kr_err reply = OK then (ck\<lparr>m_recentLeaderId := server\<rparr>, \<lparr>cg_status = kOk, cg_value = kr_value reply\<rparr>)
      else TryGet_loop rpc args left (n + 1) nextServer ck)"

definition TryGet :: "(nat \<Rightarrow> nat \<Rightarrow> getArgs \<Rightarrow> bool \<times> kvReply) \<Rightarrow> nat \<Rightarrow> string \<Rightarrow> int \<Rightarrow> clerk \<Rightarrow> clerk \<times> clerkGetResult" where
  "TryGet rpc left key timeout ck =
     (if timeout \<le> 0 \<or> m_servers ck = 0 then (ck, \<lparr>cg_status = kUnavailable, cg_value = []\<rparr>)
      else
        let ck1 = ck\<lparr>m_requestId := m_requestId ck + 1\<rparr>;
            server = m_recentLeaderId ck1 mod m_servers ck1 in
        TryGet_loop rpc \<lparr>ga_key = key, ga_clientid = m_clientId ck1, ga_requestid = m_requestId ck1\<rparr> left 0 server ck1)"

fun TryPutAppend_loop :: "(nat \<Rightarrow> nat \<Rightarrow> putAppendArgs \<Rightarrow> bool \<times> kvReply) \<Rightarrow> putAppendArgs \<Rightarrow> nat \<Rightarrow> nat \<Rightarrow> nat \<Rightarrow> clerk \<Rightarrow> clerk \<times> clerkStatus" where
  "TryPutAppend_loop rpc args 0 n server ck = (ck, kUnavailable)"
| "TryPutAppend_loop rpc args (Suc left) n server ck =
     (let (ok, reply) = rpc n server args; nextServer = (server + 1) mod m_servers ck in
      if \<not> ok \<or> kr_err reply = ErrWrongLeader then TryPutAppend_loop rpc args left (n + 1) nextServer ck
      else if kr_err reply = OK then (ck\<lparr>m_recentLeaderId := server\<rparr>, kOk)
      else TryPutAppend_loop rpc args left (n + 1) nextServer ck)"

definition TryPutAppend :: "(nat \<Rightarrow> nat \<Rightarrow> putAppendArgs \<Rightarrow> bool \<times> kvReply) \<Rightarrow> nat \<Rightarrow> string \<Rightarrow> string \<Rightarrow> string \<Rightarrow> int \<Rightarrow> clerk \<Rightarrow> clerk \<times> clerkStatus" where
  "TryPutAppend rpc left key value opn timeout ck =
     (if timeout \<le> 0 \<or> m_servers ck = 0 then (ck, kUnavailable)
      else
        let ck1 = ck\<lparr>m_requestId := m_requestId ck + 1\<rparr>;
            server = m_recentLeaderId ck1 mod m_servers ck1 in
        TryPutAppend_loop rpc \<lparr>pa_key = key, pa_value = value, pa_op = opn, pa_clientid = m_clientId ck1,
          pa_requestid = m_requestId ck1\<rparr> left 0 server ck1)"

definition TryPut :: "(nat \<Rightarrow> nat \<Rightarrow> putAppendArgs \<Rightarrow> bool \<times> kvReply) \<Rightarrow> nat \<Rightarrow> string \<Rightarrow> string \<Rightarrow> int \<Rightarrow> clerk \<Rightarrow> clerk \<times> clerkStatus" where
  "TryPut rpc left key value timeout ck = TryPutAppend rpc left key value ''Put'' timeout ck"

section \<open>Repeated calls\<close>

fun Clerk_Get :: "((nat \<Rightarrow> nat \<Rightarrow> getArgs \<Rightarrow> bool \<times> kvReply) \<times> nat) list \<Rightarrow> string \<Rightarrow> clerk \<Rightarrow> (clerk \<times> string) option" where
  "Clerk_Get [] key ck = None"
| "Clerk_Get ((rpc, left) # rounds) key ck =
     (let (ck1, r) = TryGet rpc left key 1000 ck in
      if cg_status r \<noteq> kUnavailable then Some (ck1, cg_value r) else Clerk_Get rounds key ck1)"

fun Clerk_Put :: "((nat \<Rightarrow> nat \<Rightarrow> putAppendArgs \<Rightarrow> bool \<times> kvReply) \<times> nat) list \<Rightarrow> string \<Rightarrow> string \<Rightarrow> clerk \<Rightarrow> clerk option" where
  "Clerk_Put [] key value ck = None"
| "Clerk_Put ((rpc, left) # rounds) key value ck =
     (let (ck1, st) = TryPut rpc left key value 1000 ck in
      if st = kUnavailable then Clerk_Put rounds key value ck1 else Some ck1)"

fun Clerk_Append :: "((nat \<Rightarrow> nat \<Rightarrow> putAppendArgs \<Rightarrow> bool \<times> kvReply) \<times> nat) list \<Rightarrow> string \<Rightarrow> string \<Rightarrow> clerk \<Rightarrow> clerk option" where
  "Clerk_Append [] key value ck = None"
| "Clerk_Append ((rpc, left) # rounds) key value ck =
     (let (ck1, st) = TryPutAppend rpc left key value ''Append'' 1000 ck in
      if st = kUnavailable then Clerk_Append rounds key value ck1 else Some ck1)"

section \<open>What a call returns\<close>

definition refuses :: "bool \<times> kvReply \<Rightarrow> bool" where
  "refuses r \<longleftrightarrow> \<not> fst r \<or> kr_err (snd r) = ErrWrongLeader"

lemma err_distinct [simp]: "OK \<noteq> ErrWrongLeader" "OK \<noteq> ErrNoKey" "ErrNoKey \<noteq> ErrWrongLeader"
  "ErrWrongLeader \<noteq> OK" "ErrNoKey \<noteq> OK" "ErrWrongLeader \<noteq> ErrNoKey"
  by (simp_all add: OK_def ErrNoKey_def ErrWrongLeader_def)

text \<open>The attempts go round the servers; the first server that does not refuse is the one that is heard.\<close>

lemma TryPutAppend_loop_finds:
  assumes "d < left" and "\<forall>j < d. refuses (rpc (n + j) ((server + j) mod m_servers ck) args)"
    and "rpc (n + d) ((server + d) mod m_servers ck) args = (True, \<lparr>kr_err = OK, kr_value = v\<rparr>)" and "server < m_servers ck"
  shows "TryPutAppend_loop rpc args left n server ck = (ck\<lparr>m_recentLeaderId := (server + d) mod m_servers ck\<rparr>, kOk)"
  using assms
proof (induction d arbitrary: left n server)
  case 0
  then show ?case by (cases left) simp_all
next
  case (Suc d)
  then obtain left' where left: "left = Suc left'" "d < left'" by (cases left) auto
  have r: "refuses (rpc n server args)" using Suc.prems(2) [rule_format, of 0] Suc.prems(4) by simp
  let ?s = "(server + 1) mod m_servers ck"
  have "(?s + j) mod m_servers ck = (server + Suc j) mod m_servers ck" for j by (simp add: mod_add_left_eq)
  moreover have "?s < m_servers ck" using Suc.prems(4) by simp
  moreover have "\<forall>j < d. refuses (rpc (n + 1 + j) ((server + Suc j) mod m_servers ck) args)"
    using Suc.prems(2) by (metis Suc_less_eq add.assoc plus_1_eq_Suc)
  ultimately have "TryPutAppend_loop rpc args left' (n + 1) ?s ck = (ck\<lparr>m_recentLeaderId := (server + Suc d) mod m_servers ck\<rparr>, kOk)"
    using Suc.IH [of left' "n + 1" ?s] left(2) Suc.prems(3) by simp
  then show ?case using r left(1) by (cases "rpc n server args") (auto simp: refuses_def)
qed

lemma TryGet_loop_finds:
  assumes "d < left" and "\<forall>j < d. refuses (rpc (n + j) ((server + j) mod m_servers ck) args)"
    and "rpc (n + d) ((server + d) mod m_servers ck) args = (True, \<lparr>kr_err = OK, kr_value = v\<rparr>)" and "server < m_servers ck"
  shows "TryGet_loop rpc args left n server ck =
    (ck\<lparr>m_recentLeaderId := (server + d) mod m_servers ck\<rparr>, \<lparr>cg_status = kOk, cg_value = v\<rparr>)"
  using assms
proof (induction d arbitrary: left n server)
  case 0
  then show ?case by (cases left) simp_all
next
  case (Suc d)
  then obtain left' where left: "left = Suc left'" "d < left'" by (cases left) auto
  have r: "refuses (rpc n server args)" using Suc.prems(2) [rule_format, of 0] Suc.prems(4) by simp
  let ?s = "(server + 1) mod m_servers ck"
  have "(?s + j) mod m_servers ck = (server + Suc j) mod m_servers ck" for j by (simp add: mod_add_left_eq)
  moreover have "?s < m_servers ck" using Suc.prems(4) by simp
  moreover have "\<forall>j < d. refuses (rpc (n + 1 + j) ((server + Suc j) mod m_servers ck) args)"
    using Suc.prems(2) by (metis Suc_less_eq add.assoc plus_1_eq_Suc)
  ultimately have "TryGet_loop rpc args left' (n + 1) ?s ck =
      (ck\<lparr>m_recentLeaderId := (server + Suc d) mod m_servers ck\<rparr>, \<lparr>cg_status = kOk, cg_value = v\<rparr>)"
    using Suc.IH [of left' "n + 1" ?s] left(2) Suc.prems(3) by simp
  then show ?case using r left(1) by (cases "rpc n server args") (auto simp: refuses_def)
qed

lemma TryPutAppend_loop_sound:
  assumes "TryPutAppend_loop rpc args left n server ck = (ck', kOk)"
  shows "\<exists>m s. n \<le> m \<and> m < n + left \<and> fst (rpc m s args) \<and> kr_err (snd (rpc m s args)) = OK \<and> ck' = ck\<lparr>m_recentLeaderId := s\<rparr>"
  using assms
proof (induction left arbitrary: n server)
  case (Suc left)
  show ?case
  proof (cases "fst (rpc n server args) \<and> kr_err (snd (rpc n server args)) = OK")
    case True
    then show ?thesis using Suc.prems by (intro exI [of _ n] exI [of _ server]) (auto simp: split_def)
  next
    case False
    then have "TryPutAppend_loop rpc args left (n + 1) ((server + 1) mod m_servers ck) ck = (ck', kOk)"
      using Suc.prems by (auto simp: split_def Let_def split: if_splits)
    from Suc.IH [OF this] obtain m s where "n + 1 \<le> m" "m < n + 1 + left" "fst (rpc m s args)" "kr_err (snd (rpc m s args)) = OK" "ck' = ck\<lparr>m_recentLeaderId := s\<rparr>"
      by blast
    then show ?thesis by (intro exI [of _ m] exI [of _ s]) auto
  qed
qed simp

text \<open>Where, from server \<open>s\<close>, the next occurrence of \<open>L\<close> in the round is.\<close>

lemma round_robin:
  assumes "s < N" and "L < (N::nat)"
  obtains d where "d < N" "(s + d) mod N = L" "\<forall>j < d. (s + j) mod N \<noteq> L"
proof -
  have hit: "(s + (L + N - s) mod N) mod N = L" using assms by (simp add: mod_add_right_eq)
  let ?d = "LEAST d. (s + d) mod N = L"
  have "?d \<le> (L + N - s) mod N" by (rule Least_le) (rule hit)
  also have "\<dots> < N" using assms by simp
  finally show thesis using that [of ?d] LeastI [of "\<lambda>d. (s + d) mod N = L", OF hit] not_less_Least by blast
qed

section \<open>Contracts\<close>

text \<open>C16: With enough attempts for one round over the servers, and when one server answers \<open>OK\<close> while the others fail or
  refuse, \<open>TryPutAppend\<close> and \<open>TryGet\<close> return that answer, remember the server and have used exactly one new request
  number.\<close>

theorem clerk_finds_leader:
  assumes "0 < timeout" and "L < m_servers ck" and "m_servers ck \<le> left"
    and "\<forall>n s. s \<noteq> L \<longrightarrow> refuses (rpcP n s pargs)" and "\<forall>n. rpcP n L pargs = (True, \<lparr>kr_err = OK, kr_value = []\<rparr>)"
    and "\<forall>n s. s \<noteq> L \<longrightarrow> refuses (rpcG n s gargs)" and "\<forall>n. rpcG n L gargs = (True, \<lparr>kr_err = OK, kr_value = v\<rparr>)"
    and "pargs = \<lparr>pa_key = key, pa_value = x, pa_op = opn, pa_clientid = m_clientId ck, pa_requestid = m_requestId ck + 1\<rparr>"
    and "gargs = \<lparr>ga_key = key, ga_clientid = m_clientId ck, ga_requestid = m_requestId ck + 1\<rparr>"
  shows "TryPutAppend rpcP left key x opn timeout ck = (ck\<lparr>m_requestId := m_requestId ck + 1, m_recentLeaderId := L\<rparr>, kOk) \<and>
    TryGet rpcG left key timeout ck =
      (ck\<lparr>m_requestId := m_requestId ck + 1, m_recentLeaderId := L\<rparr>, \<lparr>cg_status = kOk, cg_value = v\<rparr>)"
proof -
  let ?ck = "ck\<lparr>m_requestId := m_requestId ck + 1\<rparr>" and ?s = "m_recentLeaderId ck mod m_servers ck"
  have s: "?s < m_servers ck" using assms(2) by simp
  obtain d where d: "d < m_servers ck" "(?s + d) mod m_servers ck = L" "\<forall>j < d. (?s + j) mod m_servers ck \<noteq> L"
    using round_robin [OF s assms(2)] by blast
  have left: "d < left" using d(1) assms(3) by simp
  have "TryPutAppend_loop rpcP pargs left 0 ?s ?ck = (?ck\<lparr>m_recentLeaderId := L\<rparr>, kOk)"
    using TryPutAppend_loop_finds [OF left, of rpcP 0 ?s ?ck pargs "[]"] s d assms(4,5) by simp
  moreover have "TryGet_loop rpcG gargs left 0 ?s ?ck = (?ck\<lparr>m_recentLeaderId := L\<rparr>, \<lparr>cg_status = kOk, cg_value = v\<rparr>)"
    using TryGet_loop_finds [OF left, of rpcG 0 ?s ?ck gargs v] s d assms(6,7) by simp
  ultimately show ?thesis
    using assms(1,2,8,9) by (simp add: TryGet_def TryPutAppend_def Let_def)
qed

theorem clerk_finds_leader_witness:
  "TryPutAppend (\<lambda>n s args. if s = 2 then (True, \<lparr>kr_err = OK, kr_value = []\<rparr>) else (False, \<lparr>kr_err = [], kr_value = []\<rparr>)) 3 ''k'' ''v'' ''Put'' 1000
     \<lparr>m_servers = 3, m_clientId = ''c'', m_requestId = 4, m_recentLeaderId = 0\<rparr> =
   (\<lparr>m_servers = 3, m_clientId = ''c'', m_requestId = 5, m_recentLeaderId = 2\<rparr>, kOk)"
  using clerk_finds_leader [where ck = "\<lparr>m_servers = 3, m_clientId = ''c'', m_requestId = 4, m_recentLeaderId = 0\<rparr>" and L = 2 and left = 3
    and timeout = 1000 and rpcP = "\<lambda>n s args. if s = 2 then (True, \<lparr>kr_err = OK, kr_value = []\<rparr>) else (False, \<lparr>kr_err = [], kr_value = []\<rparr>)"
    and rpcG = "\<lambda>n s args. if s = 2 then (True, \<lparr>kr_err = OK, kr_value = []\<rparr>) else (False, \<lparr>kr_err = [], kr_value = []\<rparr>)"
    and key = "''k''" and x = "''v''" and opn = "''Put''" and v = "[]"]
  by (simp add: refuses_def)

lemma TryPut_sound:
  assumes "TryPut rpc left key value timeout ck = (ck', st)" and "0 < timeout" and "0 < m_servers ck"
  shows "m_requestId ck' = m_requestId ck + 1 \<and> m_servers ck' = m_servers ck \<and> m_clientId ck' = m_clientId ck \<and> st \<noteq> kNotFound \<and>
    (st = kOk \<longrightarrow> (\<exists>m s. let r = rpc m s \<lparr>pa_key = key, pa_value = value, pa_op = ''Put'', pa_clientid = m_clientId ck,
       pa_requestid = m_requestId ck + 1\<rparr> in fst r \<and> kr_err (snd r) = OK))"
proof -
  let ?a = "\<lparr>pa_key = key, pa_value = value, pa_op = ''Put'', pa_clientid = m_clientId ck, pa_requestid = m_requestId ck + 1\<rparr>"
  let ?ck = "ck\<lparr>m_requestId := m_requestId ck + 1\<rparr>"
  have loop: "TryPutAppend_loop rpc ?a left 0 (m_recentLeaderId ck mod m_servers ck) ?ck = (ck', st)"
    using assms by (simp add: TryPut_def TryPutAppend_def Let_def)
  have st: "TryPutAppend_loop rpc args left n server k = (k, kUnavailable) \<or>
      (\<exists>s. TryPutAppend_loop rpc args left n server k = (k\<lparr>m_recentLeaderId := s\<rparr>, kOk))" for args n server k
    by (induction left arbitrary: n server) (auto simp: split_def Let_def)
  have "ck' = ?ck \<and> st = kUnavailable \<or> (\<exists>s. ck' = ?ck\<lparr>m_recentLeaderId := s\<rparr>) \<and> st = kOk"
    using st [of ?a 0 "m_recentLeaderId ck mod m_servers ck" ?ck] loop by auto
  then show ?thesis using TryPutAppend_loop_sound [of rpc ?a left 0 "m_recentLeaderId ck mod m_servers ck" ?ck ck'] loop
    by (auto simp: Let_def)
qed

text \<open>\<open>Put\<close> returns only after some server answered \<open>OK\<close>, to a request whose number tells how many rounds came before
  it: every round that timed out used a number of its own, so that the request table cannot recognise the
  repetition.\<close>

theorem clerk_put_at_least_once:
  assumes "Clerk_Put rounds key value ck = Some ck'" and "0 < m_servers ck"
  shows "\<exists>j < length rounds. m_requestId ck' = m_requestId ck + int j + 1 \<and>
    (\<exists>m s. let r = fst (rounds ! j) m s \<lparr>pa_key = key, pa_value = value, pa_op = ''Put'', pa_clientid = m_clientId ck,
        pa_requestid = m_requestId ck + int j + 1\<rparr> in fst r \<and> kr_err (snd r) = OK)"
  using assms
proof (induction rounds arbitrary: ck)
  case (Cons round rounds)
  obtain rpc left where rd: "round = (rpc, left)" by fastforce
  obtain ck1 st where t: "TryPut rpc left key value 1000 ck = (ck1, st)" by fastforce
  note sound = TryPut_sound [OF t _ Cons.prems(2), simplified]
  show ?case
  proof (cases st)
    case kOk
    then show ?thesis using sound t Cons.prems(1) rd by (intro exI [of _ 0]) (auto simp: Let_def)
  next
    case kNotFound
    then show ?thesis using sound by simp
  next
    case kUnavailable
    then have "Clerk_Put rounds key value ck1 = Some ck'" using t Cons.prems(1) rd by simp
    from Cons.IH [OF this] sound Cons.prems(2)
    obtain j where "j < length rounds" "m_requestId ck' = m_requestId ck1 + int j + 1"
      "\<exists>m s. let r = fst (rounds ! j) m s \<lparr>pa_key = key, pa_value = value, pa_op = ''Put'', pa_clientid = m_clientId ck1,
        pa_requestid = m_requestId ck1 + int j + 1\<rparr> in fst r \<and> kr_err (snd r) = OK" by auto
    then show ?thesis using sound by (intro exI [of _ "Suc j"]) (auto simp: algebra_simps)
  qed
qed simp

theorem clerk_put_at_least_once_witness:
  "let rpc = (\<lambda>n s (args :: putAppendArgs). if n = 1 then (True, \<lparr>kr_err = OK, kr_value = []\<rparr>) else (False, \<lparr>kr_err = [], kr_value = []\<rparr>));
       ck = \<lparr>m_servers = 3, m_clientId = ''c'', m_requestId = 4, m_recentLeaderId = 0\<rparr> in
   \<exists>ck' j. Clerk_Put [(rpc, 1), (rpc, 2)] ''k'' ''v'' ck = Some ck' \<and> j < 2 \<and> m_requestId ck' = 4 + int j + 1"
proof -
  let ?rpc = "\<lambda>n s (args :: putAppendArgs). if n = (1 :: nat) then (True, \<lparr>kr_err = OK, kr_value = []\<rparr>) else (False, \<lparr>kr_err = [], kr_value = []\<rparr>)"
  let ?ck = "\<lparr>m_servers = 3, m_clientId = ''c'', m_requestId = 4, m_recentLeaderId = 0\<rparr>"
  have run: "\<exists>ck'. Clerk_Put [(?rpc, 1), (?rpc, 2)] ''k'' ''v'' ?ck = Some ck'"
    by (simp add: TryPut_def TryPutAppend_def Let_def numeral_2_eq_2)
  then obtain ck' where ck': "Clerk_Put [(?rpc, 1), (?rpc, 2)] ''k'' ''v'' ?ck = Some ck'" by blast
  show ?thesis using clerk_put_at_least_once [OF ck'] ck' by (auto simp: Let_def)
qed

end
