(* ===== verification/Board.thy ===== *)
theory Board
  imports Prelude
begin

text \<open>
  The 15 by 15 board that \<open>GameRoom\<close> and \<open>AiGame\<close> share, and their common winning test.

  A board is a vector of vectors of cell names, indexed like \<open>board_[x][y]\<close>; an index outside a vector is a
  failure. \<open>checkWin\<close> is the loop of both classes (their texts are the same): from the stone just placed it
  counts up to four equal stones each way in four directions. \<open>five_through\<close> is the rule of the game, five equal
  stones in a row through that cell, and \<open>has_five\<close> the same anywhere on the board.
\<close>

section \<open>Cells\<close>

definition BOARD_SIZE :: int where "BOARD_SIZE = 15"
definition BOARD_EMPTY :: string where "BOARD_EMPTY = ''empty''"
definition BOARD_BLACK :: string where "BOARD_BLACK = ''black''"
definition BOARD_WHITE :: string where "BOARD_WHITE = ''white''"

type_synonym board = "string list list"

definition board_get :: "board \<Rightarrow> int \<Rightarrow> int \<Rightarrow> string result" where
  "board_get b x y = rbind (vget b x) (\<lambda>row. vget row y)"

definition board_set :: "board \<Rightarrow> int \<Rightarrow> int \<Rightarrow> string \<Rightarrow> board result" where
  "board_set b x y c = rbind (vget b x) (\<lambda>row. rbind (vset row y c) (\<lambda>row'. vset b x row'))"

definition isInBoard :: "int \<Rightarrow> int \<Rightarrow> bool" where
  "isInBoard x y \<longleftrightarrow> x \<ge> 0 \<and> x < BOARD_SIZE \<and> y \<ge> 0 \<and> y < BOARD_SIZE"

definition empty_board :: board where
  "empty_board = replicate 15 (replicate 15 BOARD_EMPTY)"

section \<open>The winning test\<close>

fun countLine :: "board \<Rightarrow> string \<Rightarrow> int \<Rightarrow> int \<Rightarrow> int \<Rightarrow> int \<Rightarrow> int list \<Rightarrow> int result" where
  "countLine b player x y dx dy [] = Inr 0"
| "countLine b player x y dx dy (i # is) =
     (let newX = x + dx * i; newY = y + dy * i in
      if \<not> isInBoard newX newY then Inr 0
      else rbind (board_get b newX newY) (\<lambda>c.
        if c \<noteq> player then Inr 0 else rbind (countLine b player x y dx dy is) (\<lambda>n. Inr (n + 1))))"

definition directions :: "(int \<times> int) list" where
  "directions = [(1, 0), (0, 1), (1, 1), (1, -1)]"

fun checkWin_dirs :: "board \<Rightarrow> int \<Rightarrow> int \<Rightarrow> string \<Rightarrow> (int \<times> int) list \<Rightarrow> bool result" where
  "checkWin_dirs b x y player [] = Inr False"
| "checkWin_dirs b x y player ((dx, dy) # ds) =
     rbind (countLine b player x y dx dy [1, 2, 3, 4]) (\<lambda>m.
     rbind (countLine b player x y (- dx) (- dy) [1, 2, 3, 4]) (\<lambda>n.
     if 1 + m + n \<ge> 5 then Inr True else checkWin_dirs b x y player ds))"

definition checkWin :: "board \<Rightarrow> int \<Rightarrow> int \<Rightarrow> string \<Rightarrow> bool result" where
  "checkWin b x y player = checkWin_dirs b x y player directions"

section \<open>Well-formed boards\<close>

definition board_wf :: "board \<Rightarrow> bool" where
  "board_wf b \<longleftrightarrow> length b = 15 \<and> (\<forall>row \<in> set b. length row = 15)"

definition cell :: "board \<Rightarrow> int \<Rightarrow> int \<Rightarrow> string" where
  "cell b x y = b ! nat x ! nat y"

definition place :: "board \<Rightarrow> int \<Rightarrow> int \<Rightarrow> string \<Rightarrow> board" where
  "place b x y c = b[nat x := (b ! nat x)[nat y := c]]"

lemma board_row: "board_wf b \<Longrightarrow> i < 15 \<Longrightarrow> length (b ! i) = 15"
  by (simp add: board_wf_def)

lemma inBoardD: "isInBoard x y \<Longrightarrow> 0 \<le> x \<and> x < 15 \<and> 0 \<le> y \<and> y < 15 \<and> nat x < 15 \<and> nat y < 15"
  by (auto simp: isInBoard_def BOARD_SIZE_def)

lemma board_get_wf: "board_wf b \<Longrightarrow> isInBoard x y \<Longrightarrow> board_get b x y = Inr (cell b x y)"
  using board_row [of b "nat x"] inBoardD [of x y] by (simp add: board_get_def vget_def cell_def) (simp add: board_wf_def)

lemma board_set_wf: "board_wf b \<Longrightarrow> isInBoard x y \<Longrightarrow> board_set b x y c = Inr (place b x y c)"
  using board_row [of b "nat x"] inBoardD [of x y] by (simp add: board_set_def vget_def vset_def place_def) (simp add: board_wf_def)

lemma place_wf: "board_wf b \<Longrightarrow> isInBoard x y \<Longrightarrow> board_wf (place b x y c)"
  using board_row [of b "nat x"]
  by (auto simp: board_wf_def place_def isInBoard_def BOARD_SIZE_def dest: set_update_mem)

lemma cell_place:
  assumes "board_wf b" and "isInBoard x y" and "isInBoard u v"
  shows "cell (place b x y c) u v = (if u = x \<and> v = y then c else cell b u v)"
proof -
  have "nat u < 15" "nat v < 15" "nat x < 15" "nat y < 15" "nat u = nat x \<longleftrightarrow> u = x" "nat v = nat y \<longleftrightarrow> v = y"
    using assms by (auto simp: isInBoard_def BOARD_SIZE_def)
  then show ?thesis using assms(1) board_row [of b "nat x"]
    by (auto simp: cell_def place_def board_wf_def nth_list_update)
qed

lemma empty_board_wf [simp]: "board_wf empty_board"
  by (simp add: board_wf_def empty_board_def)

lemma cell_empty_board: "isInBoard x y \<Longrightarrow> cell empty_board x y = BOARD_EMPTY"
  using inBoardD [of x y] by (simp add: cell_def empty_board_def)

section \<open>Five in a row\<close>

text \<open>The cell \<open>i\<close> steps from \<open>(x, y)\<close> in the direction \<open>(dx, dy)\<close> holds a stone of the player.\<close>

definition stone_at :: "board \<Rightarrow> string \<Rightarrow> int \<Rightarrow> int \<Rightarrow> int \<times> int \<Rightarrow> int \<Rightarrow> bool" where
  "stone_at b p x y d i \<longleftrightarrow> isInBoard (x + fst d * i) (y + snd d * i) \<and> cell b (x + fst d * i) (y + snd d * i) = p"

definition five_through :: "board \<Rightarrow> string \<Rightarrow> int \<Rightarrow> int \<Rightarrow> bool" where
  "five_through b p x y \<longleftrightarrow> (\<exists>d \<in> set directions. \<exists>k \<in> {0..4}. \<forall>j \<in> {0..4}. stone_at b p x y d (j - k))"

definition has_five :: "board \<Rightarrow> string \<Rightarrow> bool" where
  "has_five b p \<longleftrightarrow> (\<exists>x y. \<exists>d \<in> set directions. \<forall>j \<in> {0..4}. stone_at b p x y d j)"

definition runs :: "(int \<Rightarrow> bool) \<Rightarrow> int list \<Rightarrow> int" where
  "runs P is = int (length (takeWhile P is))"

lemma countLine_wf:
  assumes "board_wf b"
  shows "countLine b p x y dx dy is = Inr (runs (stone_at b p x y (dx, dy)) is)"
  using assms by (induction "is") (auto simp: runs_def stone_at_def board_get_wf Let_def)

lemma stone_at_opposite: "stone_at b p x y (- dx, - dy) = (\<lambda>i. stone_at b p x y (dx, dy) (- i))"
  by (simp add: stone_at_def fun_eq_iff)

lemma atLeast0AtMost4: "{0..4::int} = {0, 1, 2, 3, 4}"
  by auto

lemma runs_five:
  assumes "P 0"
  shows "1 + runs P [1, 2, 3, 4] + runs (\<lambda>i. P (- i)) [1, 2, 3, 4] \<ge> 5 \<longleftrightarrow> (\<exists>k \<in> {0..4}. \<forall>j \<in> {0..4}. P (j - k))"
  unfolding atLeast0AtMost4 runs_def using assms
  by (cases "P 1"; cases "P 2"; cases "P 3"; cases "P 4"; cases "P (-1)"; cases "P (-2)"; cases "P (-3)"; cases "P (-4)") simp_all

lemma checkWin_dirs_wf:
  assumes wf: "board_wf b" and here: "isInBoard x y" "cell b x y = p"
  shows "checkWin_dirs b x y p ds = Inr (\<exists>d \<in> set ds. \<exists>k \<in> {0..4}. \<forall>j \<in> {0..4}. stone_at b p x y d (j - k))"
proof (induction ds)
  case (Cons d ds)
  obtain dx dy where d: "d = (dx, dy)" by fastforce
  have "stone_at b p x y d 0" using here by (simp add: stone_at_def)
  then have "1 + runs (stone_at b p x y (dx, dy)) [1, 2, 3, 4] + runs (stone_at b p x y (- dx, - dy)) [1, 2, 3, 4] \<ge> 5 \<longleftrightarrow>
      (\<exists>k \<in> {0..4}. \<forall>j \<in> {0..4}. stone_at b p x y d (j - k))"
    using runs_five [of "stone_at b p x y (dx, dy)"] by (simp add: d stone_at_opposite)
  then show ?case using Cons.IH by (simp add: d countLine_wf [OF wf] del: countLine.simps) blast
qed simp

lemma checkWin_wf:
  assumes "board_wf b" and "isInBoard x y" and "cell b x y = p"
  shows "checkWin b x y p = Inr (five_through b p x y)"
  using checkWin_dirs_wf [OF assms] by (simp add: checkWin_def five_through_def)

text \<open>Placing a stone makes five of its colour exactly when they run through the new stone, and no five of another colour.\<close>

lemma five_through_has: "five_through b p x y \<Longrightarrow> has_five b p"
proof -
  assume "five_through b p x y"
  then obtain d k where d: "d \<in> set directions" and s: "\<forall>j \<in> {0..4}. stone_at b p x y d (j - k)"
    by (auto simp: five_through_def)
  have "stone_at b p (x - fst d * k) (y - snd d * k) d j = stone_at b p x y d (j - k)" for j
    by (simp add: stone_at_def algebra_simps)
  then show "has_five b p" using d s unfolding has_five_def by blast
qed

lemma place_five:
  assumes wf: "board_wf b" and here: "isInBoard x y" and no: "\<not> has_five b p"
  shows "has_five (place b x y p) p \<longleftrightarrow> five_through (place b x y p) p x y"
proof
  assume "has_five (place b x y p) p"
  then obtain u v d where d: "d \<in> set directions" and s: "\<forall>j \<in> {0..4}. stone_at (place b x y p) p u v d j"
    by (auto simp: has_five_def)
  have "\<exists>j \<in> {0..4}. \<not> stone_at b p u v d j" using no d by (auto simp: has_five_def)
  then obtain j where j: "j \<in> {0..4}" "\<not> stone_at b p u v d j" by blast
  have "stone_at (place b x y p) p u v d j" using s j(1) by blast
  with j(2) have "x = u + fst d * j \<and> y = v + snd d * j"
    using cell_place [OF wf here, of "u + fst d * j" "v + snd d * j" p] by (auto simp: stone_at_def split: if_splits)
  then have "stone_at (place b x y p) p x y d (i - j) = stone_at (place b x y p) p u v d i" for i
    by (simp add: stone_at_def algebra_simps)
  then show "five_through (place b x y p) p x y" using d j(1) s unfolding five_through_def by blast
qed (rule five_through_has)

lemma place_other_five:
  assumes wf: "board_wf b" and here: "isInBoard x y" and "cell b x y \<noteq> q" and "p \<noteq> q"
  shows "has_five (place b x y p) q = has_five b q"
proof -
  have "stone_at (place b x y p) q u v d j = stone_at b q u v d j" for u v d j
    using cell_place [OF wf here] assms(3,4) by (auto simp: stone_at_def)
  then show ?thesis by (simp add: has_five_def)
qed

section \<open>Counting stones\<close>

definition cells :: "(int \<times> int) set" where
  "cells = {0..14} \<times> {0..14}"

definition stones :: "board \<Rightarrow> string \<Rightarrow> nat" where
  "stones b c = card {(x, y) \<in> cells. cell b x y = c}"

definition occupied :: "board \<Rightarrow> nat" where
  "occupied b = card {(x, y) \<in> cells. cell b x y \<noteq> BOARD_EMPTY}"

lemma cells_iff: "(x, y) \<in> cells \<longleftrightarrow> isInBoard x y"
  by (auto simp: cells_def isInBoard_def BOARD_SIZE_def)

lemma cells_card: "finite cells" "card cells = 225"
  by (simp_all add: cells_def)

lemma place_stones:
  assumes wf: "board_wf b" and here: "isInBoard x y" and c: "cell b x y \<noteq> c"
  shows "stones (place b x y c) c = stones b c + 1"
proof -
  have "{(u, v) \<in> cells. cell (place b x y c) u v = c} = insert (x, y) {(u, v) \<in> cells. cell b u v = c}"
    using cell_place [OF wf here] here by (auto simp: cells_iff split: if_splits)
  moreover have "finite {(u, v) \<in> cells. cell b u v = c}" using cells_card(1) by (rule rev_finite_subset) auto
  ultimately show ?thesis using c by (simp add: stones_def)
qed

lemma place_other_stones:
  assumes wf: "board_wf b" and here: "isInBoard x y" and c: "cell b x y \<noteq> d" and "c \<noteq> d"
  shows "stones (place b x y c) d = stones b d"
proof -
  have "{(u, v) \<in> cells. cell (place b x y c) u v = d} = {(u, v) \<in> cells. cell b u v = d}"
    using cell_place [OF wf here] c assms(4) by (auto simp: cells_iff split: if_splits)
  then show ?thesis by (simp add: stones_def)
qed

lemma place_occupied:
  assumes wf: "board_wf b" and here: "isInBoard x y" and e: "cell b x y = BOARD_EMPTY" and "c \<noteq> BOARD_EMPTY"
  shows "occupied (place b x y c) = occupied b + 1"
proof -
  have "{(u, v) \<in> cells. cell (place b x y c) u v \<noteq> BOARD_EMPTY} = insert (x, y) {(u, v) \<in> cells. cell b u v \<noteq> BOARD_EMPTY}"
    using cell_place [OF wf here] here assms(4) by (auto simp: cells_iff split: if_splits)
  moreover have "finite {(u, v) \<in> cells. cell b u v \<noteq> BOARD_EMPTY}" using cells_card(1) by (rule rev_finite_subset) auto
  ultimately show ?thesis using e by (simp add: occupied_def)
qed

lemma occupied_bound: "occupied b \<le> 225"
  using card_mono [OF cells_card(1), of "{(x, y) \<in> cells. cell b x y \<noteq> BOARD_EMPTY}"] by (auto simp: occupied_def cells_card(2))

lemma occupied_less:
  assumes "occupied b < 225"
  obtains x y where "isInBoard x y" "cell b x y = BOARD_EMPTY"
proof -
  have "{(x, y) \<in> cells. cell b x y \<noteq> BOARD_EMPTY} \<noteq> cells" using assms cells_card by (auto simp: occupied_def)
  then obtain x y where "(x, y) \<in> cells" "cell b x y = BOARD_EMPTY" by auto
  then show thesis using that by (simp add: cells_iff)
qed

lemma occupied_full: "occupied b = 225 \<Longrightarrow> isInBoard x y \<Longrightarrow> cell b x y \<noteq> BOARD_EMPTY"
proof -
  assume full: "occupied b = 225" and here: "isInBoard x y"
  have "{(x, y) \<in> cells. cell b x y \<noteq> BOARD_EMPTY} = cells"
    using card_subset_eq [OF cells_card(1), of "{(x, y) \<in> cells. cell b x y \<noteq> BOARD_EMPTY}"] full cells_card(2) by (auto simp: occupied_def)
  moreover have "(x, y) \<in> cells" using here by (simp add: cells_iff)
  ultimately show ?thesis by blast
qed

lemma empty_board_counts: "occupied empty_board = 0" "c \<noteq> BOARD_EMPTY \<Longrightarrow> stones empty_board c = 0" "c \<noteq> BOARD_EMPTY \<Longrightarrow> \<not> has_five empty_board c"
proof -
  have e: "{(x, y) \<in> cells. cell empty_board x y \<noteq> BOARD_EMPTY} = {}" by (auto simp: cells_iff cell_empty_board)
  show "occupied empty_board = 0" unfolding occupied_def e by simp
  show "stones empty_board c = 0" if "c \<noteq> BOARD_EMPTY"
  proof -
    have "{(x, y) \<in> cells. cell empty_board x y = c} = {}" using that by (auto simp: cells_iff cell_empty_board)
    then show ?thesis unfolding stones_def by (simp only: card.empty)
  qed
  show "\<not> has_five empty_board c" if "c \<noteq> BOARD_EMPTY"
    using that cell_empty_board by (auto simp: has_five_def stone_at_def atLeast0AtMost4)
qed

end
