(* ===== verification/Json.thy ===== *)
theory Json
  imports Prelude "HOL-Library.AList"
begin

text \<open>
  JSON values, as far as the game server uses them: null, booleans, integers, strings, arrays and objects
  with distinct keys, the accessors that throw (\<open>at\<close>, \<open>get<int>\<close>, \<open>get<bool>\<close>, \<open>get<std::string>\<close>) and the assignment
  \<open>j[key] = value\<close>. The text form is the business of the JSON library: \<open>dump\<close> and \<open>parse\<close> are a record \<open>jsonLib\<close>
  that the definitions take as an argument, with the documented law \<open>json_ok\<close> that \<open>parse\<close> reads back what \<open>dump\<close>
  writes.
\<close>

datatype json = JNull | JBool bool | JInt int | JString string | JArray "json list" | JObject "(string \<times> json) list"

definition json_at :: "string \<Rightarrow> json \<Rightarrow> json result" where
  "json_at k j = (case j of JObject kvs \<Rightarrow> (case map_of kvs k of Some v \<Rightarrow> Inr v | None \<Rightarrow> Inl (Uncaught ''out_of_range''))
     | _ \<Rightarrow> Inl (Uncaught ''type_error''))"

text \<open>A boolean converts to \<open>int\<close>.\<close>

definition json_int :: "json \<Rightarrow> int result" where
  "json_int j = (case j of JInt i \<Rightarrow> Inr i | JBool b \<Rightarrow> Inr (if b then 1 else 0) | _ \<Rightarrow> Inl (Uncaught ''type_error''))"

definition json_bool :: "json \<Rightarrow> bool result" where
  "json_bool j = (case j of JBool b \<Rightarrow> Inr b | _ \<Rightarrow> Inl (Uncaught ''type_error''))"

definition json_string :: "json \<Rightarrow> string result" where
  "json_string j = (case j of JString s \<Rightarrow> Inr s | _ \<Rightarrow> Inl (Uncaught ''type_error''))"

fun json_list :: "(json \<Rightarrow> 'a result) \<Rightarrow> json list \<Rightarrow> 'a list result" where
  "json_list f [] = Inr []"
| "json_list f (j # js) = rbind (f j) (\<lambda>x. rbind (json_list f js) (\<lambda>xs. Inr (x # xs)))"

definition json_array :: "(json \<Rightarrow> 'a result) \<Rightarrow> json \<Rightarrow> 'a list result" where
  "json_array f j = (case j of JArray js \<Rightarrow> json_list f js | _ \<Rightarrow> Inl (Uncaught ''type_error''))"

definition json_set :: "string \<Rightarrow> json \<Rightarrow> json \<Rightarrow> json" where
  "json_set k v j = (case j of JObject kvs \<Rightarrow> JObject (AList.update k v kvs) | _ \<Rightarrow> JObject [(k, v)])"

definition is_array :: "json \<Rightarrow> bool" where
  "is_array j = (case j of JArray _ \<Rightarrow> True | _ \<Rightarrow> False)"

definition is_object :: "json \<Rightarrow> bool" where
  "is_object j = (case j of JObject _ \<Rightarrow> True | _ \<Rightarrow> False)"

record jsonLib =
  json_dump :: "json \<Rightarrow> string"
  json_parse :: "string \<Rightarrow> json option"

definition json_ok :: "jsonLib \<Rightarrow> bool" where
  "json_ok lib \<longleftrightarrow> (\<forall>j. json_parse lib (json_dump lib j) = Some j)"

lemma json_list_map [simp]: "(\<And>x. x \<in> set xs \<Longrightarrow> f (g x) = Inr x) \<Longrightarrow> json_list f (map g xs) = Inr xs"
  by (induction xs) auto

lemma json_simps [simp]:
  "json_int (JInt i) = Inr i" "json_bool (JBool b) = Inr b" "json_string (JString s) = Inr s"
  "json_array f (JArray js) = json_list f js" "is_array (JArray js)" "is_object (JObject kvs)"
  by (simp_all add: json_int_def json_bool_def json_string_def json_array_def is_array_def is_object_def)

lemma json_at_object: "json_at k (JObject kvs) = (case map_of kvs k of Some v \<Rightarrow> Inr v | None \<Rightarrow> Inl (Uncaught ''out_of_range''))"
  by (simp add: json_at_def)

end
