(* ===== verification/GameRoom.thy ===== *)
theory GameRoom
  imports Board Json
begin

text \<open>
  \<open>GomokuServer/src/GameRoom.cpp\<close> and \<open>include/GameRoom.h\<close>: one game between two players.

  Every public function holds \<open>mutex_\<close>, so each definition is one step. The state is the record \<open>gameRoom\<close> with the
  members of the class; a snapshot is a JSON value. \<open>room_ok\<close> is what the rules of the game promise about every
  state that moves and resignations reach.
\<close>

section \<open>State\<close>

record gameRoom =
  roomId :: int
  player1 :: int
  player2 :: int
  currentTurn :: int
  moveCount :: int
  gameOver :: bool
  winner :: int
  winnerReason :: string
  lastMove :: "int \<times> int"
  board :: board

definition GameRoom :: "int \<Rightarrow> int \<Rightarrow> int \<Rightarrow> gameRoom" where
  "GameRoom rid p1 p2 = \<lparr>roomId = rid, player1 = p1, player2 = p2, currentTurn = p1, moveCount = 0, gameOver = False,
     winner = 0, winnerReason = [], lastMove = (-1, -1), board = empty_board\<rparr>"

definition getOpponent :: "int \<Rightarrow> gameRoom \<Rightarrow> int" where
  "getOpponent playerId r = (if playerId = player1 r then player2 r else player1 r)"

definition getPlayerColor :: "int \<Rightarrow> gameRoom \<Rightarrow> string" where
  "getPlayerColor playerId r = (if playerId = player1 r then ''black'' else ''white'')"

section \<open>Operations\<close>

definition isValidMove :: "int \<Rightarrow> int \<Rightarrow> gameRoom \<Rightarrow> bool result" where
  "isValidMove x y r =
     (if x < 0 \<or> x \<ge> BOARD_SIZE \<or> y < 0 \<or> y \<ge> BOARD_SIZE then Inr False
      else rbind (board_get (board r) x y) (\<lambda>c. Inr (c = BOARD_EMPTY)))"

definition isDraw :: "gameRoom \<Rightarrow> bool" where
  "isDraw r \<longleftrightarrow> moveCount r \<ge> BOARD_SIZE * BOARD_SIZE"

definition makeMove :: "int \<Rightarrow> int \<Rightarrow> int \<Rightarrow> gameRoom \<Rightarrow> (int \<times> gameRoom) result" where
  "makeMove playerId x y r =
     (if gameOver r then Inr (-2, r)
      else if playerId \<noteq> currentTurn r then Inr (-3, r)
      else rbind (isValidMove x y r) (\<lambda>valid.
        if \<not> valid then Inr (-1, r)
        else
          let stoneColor = (if playerId = player1 r then BOARD_BLACK else BOARD_WHITE) in
          rbind (board_set (board r) x y stoneColor) (\<lambda>b.
          let r1 = r\<lparr>board := b, moveCount := moveCount r + 1, lastMove := (x, y)\<rparr> in
          rbind (checkWin (board r1) x y stoneColor) (\<lambda>win.
          if win then Inr (0, r1\<lparr>gameOver := True, winner := playerId, winnerReason := ''five_in_row''\<rparr>)
          else if isDraw r1 then Inr (0, r1\<lparr>gameOver := True, winner := -1, winnerReason := ''draw''\<rparr>)
          else Inr (0, r1\<lparr>currentTurn := (if currentTurn r1 = player1 r1 then player2 r1 else player1 r1)\<rparr>)))))"

definition forfeit :: "int \<Rightarrow> gameRoom \<Rightarrow> gameRoom" where
  "forfeit winnerId r = r\<lparr>gameOver := True, winner := winnerId, winnerReason := ''opponent_left''\<rparr>"

section \<open>Snapshots\<close>

definition board_json :: "board \<Rightarrow> json" where
  "board_json b = JArray (map (\<lambda>row. JArray (map JString row)) b)"

definition snapshot :: "gameRoom \<Rightarrow> json" where
  "snapshot r = JObject [(''roomId'', JInt (roomId r)), (''player1'', JInt (player1 r)), (''player2'', JInt (player2 r)),
     (''currentTurn'', JInt (currentTurn r)), (''moveCount'', JInt (moveCount r)), (''gameOver'', JBool (gameOver r)),
     (''winner'', JInt (winner r)), (''winnerReason'', JString (winnerReason r)),
     (''lastMove'', JObject [(''x'', JInt (fst (lastMove r))), (''y'', JInt (snd (lastMove r)))]),
     (''board'', board_json (board r))]"

definition fromSnapshot :: "json \<Rightarrow> gameRoom result" where
  "fromSnapshot j =
     rbind (rbind (json_at ''roomId'' j) json_int) (\<lambda>rid.
     rbind (rbind (json_at ''player1'' j) json_int) (\<lambda>p1.
     rbind (rbind (json_at ''player2'' j) json_int) (\<lambda>p2.
     let room = GameRoom rid p1 p2 in
     rbind (rbind (json_at ''currentTurn'' j) json_int) (\<lambda>turn.
     rbind (rbind (json_at ''moveCount'' j) json_int) (\<lambda>cnt.
     rbind (rbind (json_at ''gameOver'' j) json_bool) (\<lambda>over.
     rbind (rbind (json_at ''winner'' j) json_int) (\<lambda>win.
     rbind (rbind (json_at ''winnerReason'' j) json_string) (\<lambda>reason.
     rbind (rbind (rbind (json_at ''lastMove'' j) (json_at ''x'')) json_int) (\<lambda>lx.
     rbind (rbind (rbind (json_at ''lastMove'' j) (json_at ''y'')) json_int) (\<lambda>ly.
     rbind (rbind (json_at ''board'' j) (json_array (json_array json_string))) (\<lambda>b.
     Inr (room\<lparr>currentTurn := turn, moveCount := cnt, gameOver := over, winner := win, winnerReason := reason,
       lastMove := (lx, ly), board := b\<rparr>))))))))))))"

text \<open>The text of the board and of the whole state; \<open>dump\<close> is the JSON library's.\<close>

definition getBoardJson :: "jsonLib \<Rightarrow> gameRoom \<Rightarrow> string result" where
  "getBoardJson lib r = rbind (json_at ''board'' (snapshot r)) (\<lambda>b. Inr (json_dump lib b))"

definition getGameStateJson :: "jsonLib \<Rightarrow> gameRoom \<Rightarrow> string" where
  "getGameStateJson lib r = json_dump lib (snapshot r)"

lemma fromSnapshot_snapshot: "fromSnapshot (snapshot r) = Inr r"
  by (simp add: fromSnapshot_def snapshot_def board_json_def json_at_object GameRoom_def)

section \<open>The rules\<close>

definition colour :: "gameRoom \<Rightarrow> int \<Rightarrow> string" where
  "colour r p = (if p = player1 r then BOARD_BLACK else BOARD_WHITE)"

text \<open>
  The board has the right size and only the three kinds of cells, the counter counts the stones, black and
  white alternate, and an unfinished game has no five in a row and room left. A finished one has the five stones
  of its winner, or a full board without five, or was resigned.
\<close>

definition board_ok :: "board \<Rightarrow> bool" where
  "board_ok b \<longleftrightarrow> board_wf b \<and> (\<forall>x y. isInBoard x y \<longrightarrow> cell b x y \<in> {BOARD_EMPTY, BOARD_BLACK, BOARD_WHITE})"

definition turns_ok :: "gameRoom \<Rightarrow> bool" where
  "turns_ok r \<longleftrightarrow> currentTurn r \<in> {player1 r, player2 r} \<and>
     (currentTurn r = player1 r \<longrightarrow> stones (board r) BOARD_BLACK = stones (board r) BOARD_WHITE) \<and>
     (currentTurn r = player2 r \<longrightarrow> stones (board r) BOARD_BLACK = stones (board r) BOARD_WHITE + 1)"

definition no_five :: "board \<Rightarrow> bool" where
  "no_five b \<longleftrightarrow> \<not> has_five b BOARD_BLACK \<and> \<not> has_five b BOARD_WHITE"

definition room_ok :: "gameRoom \<Rightarrow> bool" where
  "room_ok r \<longleftrightarrow> player1 r \<noteq> player2 r \<and> board_ok (board r) \<and> moveCount r = int (occupied (board r)) \<and>
     (if gameOver r
      then winner r \<in> {player1 r, player2 r} \<and> winnerReason r = ''five_in_row'' \<and> has_five (board r) (colour r (winner r)) \<or>
           winner r = -1 \<and> winnerReason r = ''draw'' \<and> moveCount r = 225 \<and> no_five (board r) \<or>
           winnerReason r = ''opponent_left''
      else winner r = 0 \<and> winnerReason r = [] \<and> turns_ok r \<and> no_five (board r) \<and> moveCount r < 225)"

lemma stone_names [simp]: "BOARD_BLACK \<noteq> BOARD_EMPTY" "BOARD_WHITE \<noteq> BOARD_EMPTY" "BOARD_BLACK \<noteq> BOARD_WHITE"
  "BOARD_EMPTY \<noteq> BOARD_BLACK" "BOARD_EMPTY \<noteq> BOARD_WHITE" "BOARD_WHITE \<noteq> BOARD_BLACK"
  by (simp_all add: BOARD_EMPTY_def BOARD_BLACK_def BOARD_WHITE_def)

lemma colour_simps [simp]: "colour r p \<noteq> BOARD_EMPTY" "BOARD_EMPTY \<noteq> colour r p" "colour r p \<in> {BOARD_EMPTY, BOARD_BLACK, BOARD_WHITE}"
  by (auto simp: colour_def)

lemma GameRoom_ok: "p1 \<noteq> p2 \<Longrightarrow> room_ok (GameRoom rid p1 p2)"
  by (simp add: room_ok_def GameRoom_def board_ok_def cell_empty_board empty_board_counts turns_ok_def no_five_def)

lemma isValidMove_wf: "board_wf (board r) \<Longrightarrow> isValidMove x y r = Inr (isInBoard x y \<and> cell (board r) x y = BOARD_EMPTY)"
  using board_get_wf [of "board r" x y] by (auto simp: isValidMove_def isInBoard_def)

section \<open>Moves\<close>

text \<open>The state after a legal move.\<close>

definition moved :: "int \<Rightarrow> int \<Rightarrow> int \<Rightarrow> gameRoom \<Rightarrow> gameRoom" where
  "moved p x y r =
     (let b = place (board r) x y (colour r p);
          r1 = r\<lparr>board := b, moveCount := moveCount r + 1, lastMove := (x, y)\<rparr> in
      if five_through b (colour r p) x y then r1\<lparr>gameOver := True, winner := p, winnerReason := ''five_in_row''\<rparr>
      else if moveCount r + 1 \<ge> 225 then r1\<lparr>gameOver := True, winner := -1, winnerReason := ''draw''\<rparr>
      else r1\<lparr>currentTurn := getOpponent p r\<rparr>)"

lemma makeMove_wf:
  assumes wf: "board_wf (board r)"
  shows "makeMove p x y r = Inr (if gameOver r then (-2, r) else if p \<noteq> currentTurn r then (-3, r)
    else if \<not> (isInBoard x y \<and> cell (board r) x y = BOARD_EMPTY) then (-1, r) else (0, moved p x y r))"
proof (cases "\<not> gameOver r \<and> p = currentTurn r \<and> isInBoard x y \<and> cell (board r) x y = BOARD_EMPTY")
  case True
  let ?b = "place (board r) x y (colour r p)"
  have "checkWin ?b x y (colour r p) = Inr (five_through ?b (colour r p) x y)"
    using True place_wf [OF wf] cell_place [OF wf, of x y x y] by (intro checkWin_wf) auto
  then show ?thesis using True board_set_wf [OF wf] isValidMove_wf [OF wf]
    by (auto simp: makeMove_def moved_def colour_def Let_def isDraw_def BOARD_SIZE_def getOpponent_def)
qed (auto simp: makeMove_def isValidMove_wf [OF wf])

lemma board_ok_place:
  assumes "board_ok b" and "isInBoard x y" and "c \<in> {BOARD_EMPTY, BOARD_BLACK, BOARD_WHITE}"
  shows "board_ok (place b x y c)"
  using assms place_wf [of b x y c] cell_place [of b x y] by (auto simp: board_ok_def)

lemma moved_ok:
  assumes ok: "room_ok r" and over: "\<not> gameOver r" and turn: "p = currentTurn r" and here: "isInBoard x y" "cell (board r) x y = BOARD_EMPTY"
  shows "room_ok (moved p x y r)"
proof -
  let ?c = "colour r p" and ?b = "place (board r) x y (colour r p)"
  from ok over have r: "player1 r \<noteq> player2 r" "board_ok (board r)" "moveCount r = int (occupied (board r))"
    "turns_ok r" "no_five (board r)" "moveCount r < 225" "winner r = 0" "winnerReason r = []" by (auto simp: room_ok_def)
  then have wf: "board_wf (board r)" by (simp add: board_ok_def)
  have b: "board_ok ?b" by (rule board_ok_place [OF r(2) here(1) colour_simps(3)])
  have cnt: "occupied ?b = occupied (board r) + 1" using place_occupied [OF wf here] by simp
  have five: "has_five ?b ?c \<longleftrightarrow> five_through ?b ?c x y"
    using place_five [OF wf here(1), of ?c] r(5) by (auto simp: no_five_def colour_def)
  have nf: "no_five ?b" if "\<not> five_through ?b ?c x y"
    using that five place_other_five [OF wf here(1), of _ ?c] here(2) r(5) by (auto simp: no_five_def colour_def split: if_splits)
  have same: "stones ?b ?c = stones (board r) ?c + 1" using place_stones [OF wf here(1)] here(2) by simp
  have other: "stones ?b d = stones (board r) d" if "d \<noteq> ?c" "d \<noteq> BOARD_EMPTY" for d
    using place_other_stones [OF wf here(1)] here(2) that by auto
  have turns: "turns_ok (r\<lparr>board := ?b, moveCount := m, lastMove := lm, currentTurn := getOpponent p r\<rparr>)" for m lm
    using r(1,4) turn same other by (auto simp: turns_ok_def getOpponent_def colour_def split: if_splits)
  show ?thesis
  proof (cases "five_through ?b ?c x y")
    case True
    have "p \<in> {player1 r, player2 r}" using r(4) turn by (simp add: turns_ok_def)
    then show ?thesis using True five_through_has [OF True] r(1,3) b cnt by (auto simp: moved_def room_ok_def Let_def colour_def)
  next
    case False
    then show ?thesis using nf b cnt r turns over by (auto simp: moved_def room_ok_def Let_def)
  qed
qed

lemma makeMove_ok:
  assumes ok: "room_ok r" and ret: "makeMove p x y r = Inr (code, r')"
  shows "room_ok r'"
proof -
  have "board_wf (board r)" using ok by (simp add: room_ok_def board_ok_def)
  from makeMove_wf [OF this] ret moved_ok [OF ok] ok show ?thesis by (auto split: if_splits)
qed

lemma forfeit_ok: "room_ok r \<Longrightarrow> room_ok (forfeit w r)"
  by (auto simp: room_ok_def forfeit_def colour_def)

section \<open>Whole games\<close>

inductive played :: "gameRoom \<Rightarrow> gameRoom \<Rightarrow> bool" for r0 where
  start: "played r0 r0"
| move: "played r0 r \<Longrightarrow> makeMove p x y r = Inr (code, r') \<Longrightarrow> played r0 r'"
| leave: "played r0 r \<Longrightarrow> played r0 (forfeit w r)"

lemma played_ok: "played r0 r \<Longrightarrow> room_ok r0 \<Longrightarrow> room_ok r"
  by (induction rule: played.induct) (auto intro: makeMove_ok forfeit_ok)


text \<open>C20: \<open>checkWin\<close> decides the rule of the game: on a board of the right size, for a stone of the player at the cell, it
  is true exactly when five stones of the player in a row, in one of the four directions, include the cell.\<close>

theorem checkWin_correct:
  assumes "board_wf b" and "isInBoard x y" and "cell b x y = p"
  shows "checkWin b x y p = Inr (\<exists>(dx, dy) \<in> {(1, 0), (0, 1), (1, 1), (1, -1)}. \<exists>k \<in> {0..4}. \<forall>j \<in> {0..4}.
    isInBoard (x + dx * (j - k)) (y + dy * (j - k)) \<and> cell b (x + dx * (j - k)) (y + dy * (j - k)) = p)"
  using checkWin_wf [OF assms] by (simp add: five_through_def directions_def stone_at_def)

theorem checkWin_correct_witness:
  "checkWin (foldr (\<lambda>y b. place b 3 y BOARD_BLACK) [2, 3, 4, 5, 6] empty_board) 3 4 BOARD_BLACK = Inr True"
proof -
  let ?b = "foldr (\<lambda>y b. place b 3 y BOARD_BLACK) [2, 3, 4, 5, 6] empty_board"
  have wf: "board_wf ?b" and here: "isInBoard 3 4" "cell ?b 3 4 = BOARD_BLACK" by code_simp+
  have "\<forall>j \<in> {0, 1, 2, 3, 4}. isInBoard (3 + 0 * (j - 2)) (4 + 1 * (j - 2)) \<and> cell ?b (3 + 0 * (j - 2)) (4 + 1 * (j - 2)) = BOARD_BLACK"
    by code_simp
  then have f: "\<forall>j \<in> {0..4}. isInBoard (3 + 0 * (j - 2)) (4 + 1 * (j - 2)) \<and> cell ?b (3 + 0 * (j - 2)) (4 + 1 * (j - 2)) = BOARD_BLACK"
    unfolding atLeast0AtMost4 .
  show ?thesis unfolding checkWin_correct [OF wf here]
  proof (rule arg_cong [where f = Inr], rule iffD2 [OF eq_True], rule bexI [of _ "(0, 1)"])
    show "case (0, 1) of (dx, dy) \<Rightarrow> \<exists>k \<in> {0..4}. \<forall>j \<in> {0..4}. isInBoard (3 + dx * (j - k)) (4 + dy * (j - k)) \<and>
      cell ?b (3 + dx * (j - k)) (4 + dy * (j - k)) = BOARD_BLACK"
      unfolding prod.case by (rule bexI [of _ 2]) (rule f, simp)
  qed simp
qed

text \<open>C21: Every room that two different players reach from a new one by any attempts to move and resignations obeys the
  rules: the board has only legal stones, their number is the move count, black and white alternate, an unfinished
  game has no five in a row and a free cell, and a finished one has the five of its winner, or is a full board
  without five, or was resigned.\<close>

theorem game_follows_rules:
  assumes "played (GameRoom rid p1 p2) r" and "p1 \<noteq> p2"
  shows "room_ok r"
  using played_ok [OF assms(1) GameRoom_ok [OF assms(2)]] .

theorem game_follows_rules_witness:
  "\<exists>r. played (GameRoom 1 7 8) r \<and> moveCount r = 1 \<and> room_ok r"
proof -
  have "case makeMove 7 3 4 (GameRoom 1 7 8) of Inl _ \<Rightarrow> False | Inr (c, r) \<Rightarrow> moveCount r = 1" by code_simp
  then obtain c r where m: "makeMove 7 3 4 (GameRoom 1 7 8) = Inr (c, r)" "moveCount r = 1" by (auto split: sum.splits)
  then have "played (GameRoom 1 7 8) r" using played.move [OF played.start] by blast
  with game_follows_rules [OF this] m(2) show ?thesis by auto
qed

text \<open>\<open>makeMove\<close> never leaves the board's vectors. It refuses a finished game with -2, a player whose turn it is not with -3
  and a cell outside the board or taken with -1, each time without changing the room. Otherwise it returns 0, has
  placed one stone of the player's colour there and nowhere else and counted it, and the game is over exactly when
  this makes five in a row or fills the board.\<close>

theorem makeMove_spec:
  assumes "room_ok r"
  shows "\<exists>code r'. makeMove p x y r = Inr (code, r') \<and>
    (code = -2 \<longleftrightarrow> gameOver r) \<and> (code = -3 \<longleftrightarrow> \<not> gameOver r \<and> p \<noteq> currentTurn r) \<and>
    (code = -1 \<longleftrightarrow> \<not> gameOver r \<and> p = currentTurn r \<and> \<not> (isInBoard x y \<and> cell (board r) x y = BOARD_EMPTY)) \<and>
    (code \<noteq> 0 \<longrightarrow> r' = r) \<and>
    (code = 0 \<longrightarrow> moveCount r' = moveCount r + 1 \<and> moveCount r' \<le> 225 \<and> lastMove r' = (x, y) \<and>
       (\<forall>u v. isInBoard u v \<longrightarrow> cell (board r') u v = (if (u, v) = (x, y) then colour r p else cell (board r) u v)) \<and>
       (gameOver r' \<longleftrightarrow> has_five (board r') (colour r p) \<or> moveCount r' = 225) \<and>
       (\<not> gameOver r' \<longrightarrow> currentTurn r' = getOpponent p r))"
proof -
  have wf: "board_wf (board r)" using assms by (simp add: room_ok_def board_ok_def)
  show ?thesis
  proof (cases "\<not> gameOver r \<and> p = currentTurn r \<and> isInBoard x y \<and> cell (board r) x y = BOARD_EMPTY")
    case True
    let ?b = "place (board r) x y (colour r p)"
    have r: "no_five (board r)" "moveCount r < 225" using assms True by (auto simp: room_ok_def)
    have five: "has_five ?b (colour r p) \<longleftrightarrow> five_through ?b (colour r p) x y"
      using True place_five [OF wf, of x y "colour r p"] r(1) by (auto simp: no_five_def colour_def)
    have "makeMove p x y r = Inr (0, moved p x y r)" using makeMove_wf [OF wf] True by simp
    then show ?thesis using True r(2) five cell_place [OF wf]
      by (intro exI [of _ 0] exI [of _ "moved p x y r"]) (auto simp: moved_def Let_def)
  qed (auto simp: makeMove_wf [OF wf])
qed

theorem makeMove_spec_witness:
  "\<exists>r'. makeMove 7 3 4 (GameRoom 1 7 8) = Inr (0, r') \<and> cell (board r') 3 4 = BOARD_BLACK \<and> currentTurn r' = 8"
proof -
  have ok: "room_ok (GameRoom 1 7 8)" by (rule GameRoom_ok) simp
  have "case makeMove 7 3 4 (GameRoom 1 7 8) of Inl _ \<Rightarrow> False | Inr (c, r) \<Rightarrow> c = 0 \<and> \<not> gameOver r" by code_simp
  moreover have "isInBoard 3 4" "colour (GameRoom 1 7 8) 7 = BOARD_BLACK" "getOpponent 7 (GameRoom 1 7 8) = 8" by code_simp+
  ultimately show ?thesis using makeMove_spec [OF ok, of 7 3 4] by auto
qed

text \<open>C22: A room is restored from its snapshot exactly, every field and cell.\<close>

theorem room_snapshot_roundtrip: "fromSnapshot (snapshot r) = Inr r"
  by (rule fromSnapshot_snapshot)

end
