(* ===== verification/GameStore.thy ===== *)
theory GameStore
  imports Json Clerk
begin

text \<open>
  Where the game server keeps its rooms: the interface \<open>GameStateStore\<close> (\<open>include/GameStateStore.h\<close>), its in-memory
  implementation, the one on the replicated key-value store (\<open>RaftGameStateStore.cpp\<close>) and the client that
  connects the latter to the clerk (\<open>RaftClerkGameStateClient.cpp\<close>).

  A store is a pair of functions on a state, \<open>load\<close> and \<open>replace\<close>. The locale \<open>game_store\<close> is their contract: the
  state holds a map from keys to JSON values, a load reports it or is unavailable, a replacement writes all its
  records or, when it fails, all or none. The locale \<open>state_client\<close> is the contract of the remote client, a map of
  strings with the same kind of failure; the Raft store turns any such client into a game store.
  \<open>clerkWorld\<close> is the world of the clerk's client: the clerk, the abstract service that the servers refine
  (\<open>spec_apply\<close>), and what the network does during each call.
\<close>

section \<open>The interface\<close>

datatype gameStateStoreStatus = gsOk | gsNotFound | gsUnavailable

type_synonym readResult = "gameStateStoreStatus \<times> json"
type_synonym records = "(string \<times> json) list"

text \<open>\<open>recs\<close> written one after the other into a map.\<close>

abbreviation written :: "('k \<rightharpoonup> 'v) \<Rightarrow> ('k \<times> 'v) list \<Rightarrow> ('k \<rightharpoonup> 'v)" where
  "written m recs \<equiv> m ++ map_of (rev recs)"

locale game_store =
  fixes ok :: "'s \<Rightarrow> bool" and view :: "'s \<Rightarrow> (string \<rightharpoonup> json)"
    and ld :: "string \<Rightarrow> 's \<Rightarrow> 's \<times> readResult" and rp :: "records \<Rightarrow> 's \<Rightarrow> 's \<times> gameStateStoreStatus"
  assumes load_law: "ok s \<Longrightarrow> ld k s = (s', r) \<Longrightarrow> ok s' \<and> view s' = view s \<and>
      (fst r = gsUnavailable \<or> fst r = gsNotFound \<and> view s k = None \<or> fst r = gsOk \<and> view s k = Some (snd r))"
    and replace_law: "ok s \<Longrightarrow> rp recs s = (s', st) \<Longrightarrow> ok s' \<and> st \<noteq> gsNotFound \<and>
      (if st = gsOk then view s' = written (view s) recs else view s' = view s \<or> view s' = written (view s) recs)"
begin

lemma load_cases:
  assumes "ok s" and "ld k s = (s', r)"
  obtains (unavailable) "fst r = gsUnavailable" "ok s'" "view s' = view s"
  | (absent) "fst r = gsNotFound" "view s k = None" "ok s'" "view s' = view s"
  | (found) v where "r = (gsOk, v)" "view s k = Some v" "ok s'" "view s' = view s"
  using load_law [OF assms] by (cases r) auto

end

section \<open>The store in memory\<close>

record memoryStore =
  mem_values :: "string \<rightharpoonup> json"
  failNextWrite :: bool
  writesBeforeFailure :: "nat option"

definition MemoryGameStateStore :: memoryStore where
  "MemoryGameStateStore = \<lparr>mem_values = Map.empty, failNextWrite = False, writesBeforeFailure = None\<rparr>"

definition mem_load :: "string \<Rightarrow> memoryStore \<Rightarrow> memoryStore \<times> readResult" where
  "mem_load key s = (s, case mem_values s key of None \<Rightarrow> (gsNotFound, JNull) | Some v \<Rightarrow> (gsOk, v))"

definition mem_replace :: "records \<Rightarrow> memoryStore \<Rightarrow> memoryStore \<times> gameStateStoreStatus" where
  "mem_replace recs s =
     (if failNextWrite s \<or> (case writesBeforeFailure s of None \<Rightarrow> False | Some n \<Rightarrow> n < length recs)
      then (s\<lparr>failNextWrite := False, writesBeforeFailure := None\<rparr>, gsUnavailable)
      else
        let s1 = s\<lparr>writesBeforeFailure := map_option (\<lambda>n. n - length recs) (writesBeforeFailure s)\<rparr> in
        (s1\<lparr>mem_values := fold (\<lambda>(k, v) m. m(k \<mapsto> v)) recs (mem_values s1)\<rparr>, gsOk))"

definition mem_failNextWrite :: "memoryStore \<Rightarrow> memoryStore" where
  "mem_failNextWrite s = s\<lparr>failNextWrite := True\<rparr>"

definition failAfterSuccessfulWrites :: "nat \<Rightarrow> memoryStore \<Rightarrow> memoryStore" where
  "failAfterSuccessfulWrites writes s = s\<lparr>writesBeforeFailure := Some writes\<rparr>"

lemma fold_write: "fold (\<lambda>(k, v) m. m(k \<mapsto> v)) recs m = written m recs"
  by (induction recs arbitrary: m) auto

interpretation mem: game_store "\<lambda>_. True" mem_values mem_load mem_replace
  by unfold_locales
    (auto simp: mem_load_def mem_replace_def fold_write Let_def split: option.splits if_splits)

section \<open>The store on the replicated service\<close>

datatype clientStatus = rcOk | rcNotFound | rcUnavailable

definition stateEnvelopeKey :: string where
  "stateEnvelopeKey = ''gomoku:state''"

definition isStateEnvelope :: "json \<Rightarrow> bool" where
  "isStateEnvelope v = is_object v"

definition raft_load :: "jsonLib \<Rightarrow> (string \<Rightarrow> 's \<Rightarrow> 's \<times> clientStatus \<times> string) \<Rightarrow> string \<Rightarrow> 's \<Rightarrow> 's \<times> readResult" where
  "raft_load lib get key s =
     (let (s1, st, raw) = get stateEnvelopeKey s in
      (s1,
       if st = rcNotFound then (gsNotFound, JNull)
       else if st \<noteq> rcOk then (gsUnavailable, JNull)
       else case json_parse lib raw of
           None \<Rightarrow> (gsUnavailable, JNull)
         | Some envelope \<Rightarrow>
             (case envelope of
                JObject kvs \<Rightarrow> (case map_of kvs key of None \<Rightarrow> (gsNotFound, JNull) | Some v \<Rightarrow> (gsOk, v))
              | _ \<Rightarrow> (gsUnavailable, JNull))))"

definition raft_replace :: "jsonLib \<Rightarrow> (string \<Rightarrow> 's \<Rightarrow> 's \<times> clientStatus \<times> string) \<Rightarrow> (string \<Rightarrow> string \<Rightarrow> 's \<Rightarrow> 's \<times> clientStatus) \<Rightarrow>
    records \<Rightarrow> 's \<Rightarrow> 's \<times> gameStateStoreStatus" where
  "raft_replace lib get put recs s =
     (let (s1, st, raw) = get stateEnvelopeKey s;
          envelope = (if st = rcNotFound then Some (JObject []) else if st \<noteq> rcOk then None
                      else case json_parse lib raw of None \<Rightarrow> None | Some e \<Rightarrow> if isStateEnvelope e then Some e else None) in
      case envelope of
        None \<Rightarrow> (s1, gsUnavailable)
      | Some e \<Rightarrow>
          let e1 = fold (\<lambda>(k, v) j. json_set k v j) recs e;
              (s2, st2) = put stateEnvelopeKey (json_dump lib e1) s1 in
          (s2, if st2 = rcOk then gsOk else gsUnavailable))"

locale state_client =
  fixes ok :: "'s \<Rightarrow> bool" and reg :: "'s \<Rightarrow> (string \<rightharpoonup> string)"
    and get :: "string \<Rightarrow> 's \<Rightarrow> 's \<times> clientStatus \<times> string" and put :: "string \<Rightarrow> string \<Rightarrow> 's \<Rightarrow> 's \<times> clientStatus"
    and lib :: jsonLib
  assumes get_law: "ok s \<Longrightarrow> get k s = (s', st, v) \<Longrightarrow> ok s' \<and> reg s' = reg s \<and>
      (st = rcUnavailable \<or> st = rcNotFound \<and> reg s k = None \<or> st = rcOk \<and> reg s k = Some v)"
    and put_law: "ok s \<Longrightarrow> put k v s = (s', st) \<Longrightarrow> ok s' \<and>
      (if st = rcOk then reg s' = (reg s)(k \<mapsto> v) else reg s' = reg s \<or> reg s' = (reg s)(k \<mapsto> v))"
begin

text \<open>The map of records inside the envelope.\<close>

definition records_of :: "'s \<Rightarrow> (string \<rightharpoonup> json)" where
  "records_of s = (case reg s stateEnvelopeKey of None \<Rightarrow> Map.empty
     | Some raw \<Rightarrow> (case json_parse lib raw of Some (JObject kvs) \<Rightarrow> map_of kvs | _ \<Rightarrow> Map.empty))"

text \<open>The library keeps its promise, and what is stored under the envelope's key is the text of an object.\<close>

definition envelope_ok :: "'s \<Rightarrow> bool" where
  "envelope_ok s \<longleftrightarrow> json_ok lib \<and> ok s \<and> (\<forall>raw. reg s stateEnvelopeKey = Some raw \<longrightarrow> (\<exists>kvs. json_parse lib raw = Some (JObject kvs)))"

lemma fold_json_set: "\<exists>kvs'. fold (\<lambda>(k, v) j. json_set k v j) recs (JObject kvs) = JObject kvs' \<and> map_of kvs' = written (map_of kvs) recs"
proof (induction recs arbitrary: kvs)
  case (Cons e recs)
  obtain k v where e: "e = (k, v)" by fastforce
  obtain kvs' where "fold (\<lambda>(k, v) j. json_set k v j) recs (JObject (AList.update k v kvs)) = JObject kvs'"
    "map_of kvs' = written (map_of (AList.update k v kvs)) recs" using Cons.IH by blast
  then show ?case by (auto simp: e json_set_def update_conv')
qed simp

lemma raft_load_law:
  assumes "envelope_ok s" and "raft_load lib get k s = (s', r)"
  shows "envelope_ok s' \<and> records_of s' = records_of s \<and>
      (fst r = gsUnavailable \<or> fst r = gsNotFound \<and> records_of s k = None \<or> fst r = gsOk \<and> records_of s k = Some (snd r))"
proof -
  obtain s1 st raw where g: "get stateEnvelopeKey s = (s1, st, raw)" by (metis prod_cases3)
  have s1: "s' = s1" using assms(2) g by (auto simp: raft_load_def)
  have law: "ok s1" "reg s1 = reg s" "st = rcUnavailable \<or> st = rcNotFound \<and> reg s stateEnvelopeKey = None \<or> st = rcOk \<and> reg s stateEnvelopeKey = Some raw"
    using get_law [OF _ g] assms(1) by (auto simp: envelope_ok_def)
  have same: "envelope_ok s'" "records_of s' = records_of s" using assms(1) law(1,2) by (simp_all add: s1 envelope_ok_def records_of_def)
  from law(3) show ?thesis
  proof (elim disjE conjE)
    assume "st = rcOk" "reg s stateEnvelopeKey = Some raw"
    moreover from this obtain kvs where "json_parse lib raw = Some (JObject kvs)" using assms(1) by (auto simp: envelope_ok_def)
    ultimately show ?thesis using assms(2) g same by (auto simp: raft_load_def records_of_def split: option.splits)
  qed (use assms(2) g same in \<open>auto simp: raft_load_def records_of_def\<close>)
qed

lemma raft_replace_law:
  assumes "envelope_ok s" and "raft_replace lib get put recs s = (s', st')"
  shows "envelope_ok s' \<and> st' \<noteq> gsNotFound \<and> (if st' = gsOk then records_of s' = written (records_of s) recs
      else records_of s' = records_of s \<or> records_of s' = written (records_of s) recs)"
proof -
  obtain s1 st raw where g: "get stateEnvelopeKey s = (s1, st, raw)" by (metis prod_cases3)
  have law: "ok s1" "reg s1 = reg s" "st = rcUnavailable \<or> st = rcNotFound \<and> reg s stateEnvelopeKey = None \<or> st = rcOk \<and> reg s stateEnvelopeKey = Some raw"
    using get_law [OF _ g] assms(1) by (auto simp: envelope_ok_def)
  have same: "envelope_ok s1" "records_of s1 = records_of s" using assms(1) law(1,2) by (simp_all add: envelope_ok_def records_of_def)
  show ?thesis
  proof (cases "st = rcUnavailable")
    case True
    then show ?thesis using assms(2) g same by (auto simp: raft_replace_def)
  next
    case False
    obtain kvs where env: "(if st = rcNotFound then Some (JObject []) else if st \<noteq> rcOk then None
        else case json_parse lib raw of None \<Rightarrow> None | Some e \<Rightarrow> if isStateEnvelope e then Some e else None) = Some (JObject kvs)"
      and kvs: "map_of kvs = records_of s"
      using False law(3) assms(1) by (fastforce simp: envelope_ok_def records_of_def isStateEnvelope_def)
    obtain kvs' where e1: "fold (\<lambda>(k, v) j. json_set k v j) recs (JObject kvs) = JObject kvs'" "map_of kvs' = written (map_of kvs) recs"
      using fold_json_set by blast
    obtain s2 st2 where p: "put stateEnvelopeKey (json_dump lib (JObject kvs')) s1 = (s2, st2)" by fastforce
    have jl: "json_ok lib" using assms(1) by (simp add: envelope_ok_def)
    then have parse: "json_parse lib (json_dump lib (JObject kvs')) = Some (JObject kvs')" by (simp add: json_ok_def)
    have upd: "records_of s2 = written (records_of s) recs \<and> envelope_ok s2"
      if "reg s2 = (reg s1)(stateEnvelopeKey \<mapsto> json_dump lib (JObject kvs'))"
      using that parse jl e1(2) kvs put_law [OF law(1) p] by (auto simp: records_of_def envelope_ok_def split: if_splits)
    have old: "records_of s2 = records_of s \<and> envelope_ok s2" if "reg s2 = reg s1"
      using that same jl put_law [OF law(1) p] by (auto simp: records_of_def envelope_ok_def split: if_splits)
    have "s' = s2" "st' = (if st2 = rcOk then gsOk else gsUnavailable)"
      using assms(2) g env e1(1) p by (simp_all add: raft_replace_def Let_def)
    then show ?thesis using upd old put_law [OF law(1) p] by (auto split: if_splits)
  qed
qed

end

sublocale state_client \<subseteq> raft: game_store envelope_ok records_of "raft_load lib get" "raft_replace lib get put"
  by unfold_locales (use raft_load_law raft_replace_law in blast)+


section \<open>The client on the clerk\<close>

definition toClientStatus :: "clerkStatus \<Rightarrow> clientStatus" where
  "toClientStatus st = (case st of kOk \<Rightarrow> rcOk | kNotFound \<Rightarrow> rcNotFound | kUnavailable \<Rightarrow> rcUnavailable)"

text \<open>
  During the \<open>i\<close>-th call \<open>net_left i\<close> attempts start before the deadline, attempt \<open>n\<close> at a server is answered
  when \<open>net_answers i n server\<close>, and a write that no answer confirmed was executed when \<open>net_applied i\<close>.
\<close>

record network =
  net_left :: "nat \<Rightarrow> nat"
  net_answers :: "nat \<Rightarrow> nat \<Rightarrow> nat \<Rightarrow> bool"
  net_applied :: "nat \<Rightarrow> bool"

record clerkWorld =
  cl_clerk :: clerk
  cl_state :: kvState
  cl_calls :: nat

definition no_reply :: "bool \<times> kvReply" where
  "no_reply = (False, \<lparr>kr_err = [], kr_value = []\<rparr>)"

definition service_get :: "kvState \<Rightarrow> getArgs \<Rightarrow> kvReply" where
  "service_get st args = (case fst st (ga_key args) of None \<Rightarrow> \<lparr>kr_err = ErrNoKey, kr_value = []\<rparr> | Some v \<Rightarrow> \<lparr>kr_err = OK, kr_value = v\<rparr>)"

definition client_get :: "network \<Rightarrow> int \<Rightarrow> string \<Rightarrow> clerkWorld \<Rightarrow> clerkWorld \<times> clientStatus \<times> string" where
  "client_get net timeout key w =
     (let rpc = (\<lambda>n s args. if net_answers net (cl_calls w) n s then (True, service_get (cl_state w) args) else no_reply);
          (ck, r) = TryGet rpc (net_left net (cl_calls w)) key timeout (cl_clerk w) in
      (w\<lparr>cl_clerk := ck, cl_calls := cl_calls w + 1\<rparr>, toClientStatus (cg_status r), cg_value r))"

definition client_put :: "network \<Rightarrow> int \<Rightarrow> string \<Rightarrow> string \<Rightarrow> clerkWorld \<Rightarrow> clerkWorld \<times> clientStatus" where
  "client_put net timeout key value w =
     (let rpc = (\<lambda>n s args. if net_answers net (cl_calls w) n s then (True, \<lparr>kr_err = OK, kr_value = []\<rparr>) else no_reply);
          (ck, st) = TryPut rpc (net_left net (cl_calls w)) key value timeout (cl_clerk w);
          sent = putOp \<lparr>pa_key = key, pa_value = value, pa_op = ''Put'', pa_clientid = m_clientId ck, pa_requestid = m_requestId ck\<rparr>;
          executed = (st = kOk \<or> m_requestId ck \<noteq> m_requestId (cl_clerk w) \<and> net_applied net (cl_calls w)) in
      (w\<lparr>cl_clerk := ck, cl_calls := cl_calls w + 1, cl_state := (if executed then spec_apply sent (cl_state w) else cl_state w)\<rparr>,
       toClientStatus st))"

text \<open>No request with a larger number than the clerk's last was executed for its client.\<close>

definition cluster_ok :: "clerkWorld \<Rightarrow> bool" where
  "cluster_ok w \<longleftrightarrow> (\<forall>r. snd (cl_state w) (m_clientId (cl_clerk w)) = Some r \<longrightarrow> r \<le> m_requestId (cl_clerk w))"

lemma TryGet_loop_sound:
  "(\<exists>s. fst (TryGet_loop rpc args left n server ck) = ck \<or> fst (TryGet_loop rpc args left n server ck) = ck\<lparr>m_recentLeaderId := s\<rparr>) \<and>
   (case cg_status (snd (TryGet_loop rpc args left n server ck)) of kUnavailable \<Rightarrow> True
    | kNotFound \<Rightarrow> (\<exists>m s. fst (rpc m s args) \<and> kr_err (snd (rpc m s args)) = ErrNoKey)
    | kOk \<Rightarrow> (\<exists>m s. fst (rpc m s args) \<and> kr_err (snd (rpc m s args)) = OK \<and> kr_value (snd (rpc m s args)) = cg_value (snd (TryGet_loop rpc args left n server ck))))"
proof (induction left arbitrary: n server)
  case (Suc left)
  show ?case
  proof (cases "refuses (rpc n server args) \<or> kr_err (snd (rpc n server args)) \<notin> {ErrNoKey, OK}")
    case True
    then have step: "TryGet_loop rpc args (Suc left) n server ck = TryGet_loop rpc args left (n + 1) ((server + 1) mod m_servers ck) ck"
      by (auto simp: refuses_def split_def Let_def)
    show ?thesis unfolding step by (rule Suc.IH)
  next
    case False
    then have ok: "fst (rpc n server args)" and err: "kr_err (snd (rpc n server args)) = ErrNoKey \<or> kr_err (snd (rpc n server args)) = OK"
      by (auto simp: refuses_def)
    show ?thesis
    proof (cases "kr_err (snd (rpc n server args)) = OK")
      case True
      then have "TryGet_loop rpc args (Suc left) n server ck =
          (ck\<lparr>m_recentLeaderId := server\<rparr>, \<lparr>cg_status = kOk, cg_value = kr_value (snd (rpc n server args))\<rparr>)"
        using ok by (simp add: split_def Let_def)
      then show ?thesis using ok True by auto
    next
      case False
      then have e: "kr_err (snd (rpc n server args)) = ErrNoKey" using err by simp
      then have "cg_status (snd (TryGet_loop rpc args (Suc left) n server ck)) = kNotFound"
          "fst (TryGet_loop rpc args (Suc left) n server ck) = ck"
        using ok by (simp_all add: split_def Let_def)
      then show ?thesis using ok e by auto
    qed
  qed
qed auto

lemma client_get_law:
  assumes "cluster_ok w" and "client_get net timeout key w = (w', st, v)"
  shows "cluster_ok w' \<and> cl_state w' = cl_state w \<and>
      (st = rcUnavailable \<or> st = rcNotFound \<and> fst (cl_state w) key = None \<or> st = rcOk \<and> fst (cl_state w) key = Some v)"
proof -
  let ?rpc = "\<lambda>n s args. if net_answers net (cl_calls w) n s then (True, service_get (cl_state w) args) else no_reply"
  let ?ck = "(cl_clerk w)\<lparr>m_requestId := m_requestId (cl_clerk w) + 1\<rparr>"
  let ?args = "\<lparr>ga_key = key, ga_clientid = m_clientId (cl_clerk w), ga_requestid = m_requestId (cl_clerk w) + 1\<rparr>"
  obtain ck r where t: "TryGet ?rpc (net_left net (cl_calls w)) key timeout (cl_clerk w) = (ck, r)" by fastforce
  have w': "w' = w\<lparr>cl_clerk := ck, cl_calls := cl_calls w + 1\<rparr>" "st = toClientStatus (cg_status r)" "v = cg_value r"
    using assms(2) t by (simp_all add: client_get_def Let_def)
  show ?thesis
  proof (cases "timeout \<le> 0 \<or> m_servers (cl_clerk w) = 0")
    case True
    then show ?thesis using t w' assms(1) by (auto simp: TryGet_def toClientStatus_def cluster_ok_def)
  next
    case False
    then have loop: "TryGet_loop ?rpc ?args (net_left net (cl_calls w)) 0 (m_recentLeaderId (cl_clerk w) mod m_servers (cl_clerk w)) ?ck = (ck, r)"
      using t by (simp add: TryGet_def Let_def)
    have "m_clientId ck = m_clientId (cl_clerk w)" "m_requestId ck = m_requestId (cl_clerk w) + 1"
      using TryGet_loop_sound [of ?rpc ?args "net_left net (cl_calls w)" 0 "m_recentLeaderId (cl_clerk w) mod m_servers (cl_clerk w)" ?ck]
      unfolding loop by auto
    then have ok: "cluster_ok w'" using assms(1) unfolding w' cluster_ok_def by fastforce
    have "case cg_status r of kUnavailable \<Rightarrow> True | kNotFound \<Rightarrow> fst (cl_state w) key = None | kOk \<Rightarrow> fst (cl_state w) key = Some (cg_value r)"
      using TryGet_loop_sound [of ?rpc ?args "net_left net (cl_calls w)" 0 "m_recentLeaderId (cl_clerk w) mod m_servers (cl_clerk w)" ?ck]
      unfolding loop by (auto simp: service_get_def no_reply_def split: clerkStatus.splits option.splits if_splits)
    then show ?thesis using ok w' by (auto simp: toClientStatus_def split: clerkStatus.splits)
  qed
qed

lemma client_put_law:
  assumes "cluster_ok w" and "client_put net timeout key value w = (w', st)"
  shows "cluster_ok w' \<and> (if st = rcOk then fst (cl_state w') = (fst (cl_state w))(key \<mapsto> value)
      else fst (cl_state w') = fst (cl_state w) \<or> fst (cl_state w') = (fst (cl_state w))(key \<mapsto> value))"
proof -
  let ?rpc = "\<lambda>n s (args :: putAppendArgs). if net_answers net (cl_calls w) n s then (True, \<lparr>kr_err = OK, kr_value = []\<rparr>) else no_reply"
  obtain ck r where t: "TryPut ?rpc (net_left net (cl_calls w)) key value timeout (cl_clerk w) = (ck, r)" by fastforce
  let ?sent = "putOp \<lparr>pa_key = key, pa_value = value, pa_op = ''Put'', pa_clientid = m_clientId ck, pa_requestid = m_requestId ck\<rparr>"
  let ?ex = "r = kOk \<or> m_requestId ck \<noteq> m_requestId (cl_clerk w) \<and> net_applied net (cl_calls w)"
  have w': "w' = w\<lparr>cl_clerk := ck, cl_calls := cl_calls w + 1, cl_state := (if ?ex then spec_apply ?sent (cl_state w) else cl_state w)\<rparr>"
    "st = toClientStatus r" using assms(2) t by (simp_all add: client_put_def Let_def)
  show ?thesis
  proof (cases "timeout \<le> 0 \<or> m_servers (cl_clerk w) = 0")
    case True
    then show ?thesis using t w' assms(1) by (auto simp: TryPut_def TryPutAppend_def toClientStatus_def cluster_ok_def)
  next
    case False
    then have f: "m_requestId ck = m_requestId (cl_clerk w) + 1" "m_clientId ck = m_clientId (cl_clerk w)"
      using TryPut_sound [OF t] by auto
    have "\<not> seen ?sent (cl_state w)" using assms(1) f by (fastforce simp: seen_def cluster_ok_def putOp_def split: option.splits)
    then have "spec_apply ?sent (cl_state w) = ((fst (cl_state w))(key \<mapsto> value), (snd (cl_state w))(m_clientId ck \<mapsto> m_requestId ck))"
      by (simp add: spec_apply_def is_write_def putOp_def)
    then show ?thesis using w' f assms(1) unfolding cluster_ok_def by (auto simp: toClientStatus_def split: clerkStatus.splits)
  qed
qed

interpretation clerk_client: state_client cluster_ok "\<lambda>w. fst (cl_state w)" "client_get net timeout" "client_put net timeout" lib
  for net timeout lib
proof unfold_locales
  show "cluster_ok s \<Longrightarrow> client_get net timeout k s = (s', st, v) \<Longrightarrow> cluster_ok s' \<and> fst (cl_state s') = fst (cl_state s) \<and>
      (st = rcUnavailable \<or> st = rcNotFound \<and> fst (cl_state s) k = None \<or> st = rcOk \<and> fst (cl_state s) k = Some v)" for s s' k st v
    using client_get_law by metis
qed (use client_put_law in blast)

end
