(* ===== verification/PvpService.thy ===== *)
theory PvpService
  imports GameRoom GameStore "HOL-Library.Countable" "HOL-Library.Sublist"
begin

text \<open>
  The game service (\<open>PvpGameService.cpp\<close>): rooms kept in a game store, under one key per room, with the list of the
  unfinished ones and the next free number beside them. Each operation takes the writer lock for its whole
  length, so each definition is one step on the state of the store; it is generic in the store's \<open>load\<close> and
  \<open>replace\<close>. An operation returns a status and a snapshot, or the exception that \<open>get<int>\<close> throws past it.

  \<open>svc_rel\<close> relates the map in the store to the abstract service: the next number and the rooms themselves.
  The lemmas inside \<open>game_store\<close> show that every operation does to the rooms what the specification does, over any
  store that keeps its contract; the properties are their instances for the store on the replicated service.
\<close>

section \<open>Operations\<close>

datatype pvpGameStatus = PvpOk | PvpNotFound | PvpInvalidMove | PvpGameOver | PvpNotYourTurn | PvpUnavailable

type_synonym pvpGameResult = "pvpGameStatus \<times> json"
type_synonym 's loader = "string \<Rightarrow> 's \<Rightarrow> 's \<times> readResult"
type_synonym 's replacer = "records \<Rightarrow> 's \<Rightarrow> 's \<times> gameStateStoreStatus"

definition roomKey :: "int \<Rightarrow> string" where
  "roomKey rid = ''gomoku:room:'' @ to_string rid"

definition activeRoomIdsKey :: string where
  "activeRoomIdsKey = ''gomoku:active-room-ids''"

definition nextRoomIdKey :: string where
  "nextRoomIdKey = ''gomoku:next-room-id''"

definition loadLocked :: "'s loader \<Rightarrow> int \<Rightarrow> 's \<Rightarrow> 's \<times> pvpGameResult" where
  "loadLocked ld rid s =
     (let (s1, st, v) = ld (roomKey rid) s in
      (s1, if st = gsNotFound then (PvpNotFound, JNull) else if st \<noteq> gsOk then (PvpUnavailable, JNull) else (PvpOk, v)))"

definition pvp_load :: "'s loader \<Rightarrow> int \<Rightarrow> 's \<Rightarrow> 's \<times> pvpGameResult" where
  "pvp_load ld rid s = loadLocked ld rid s"

text \<open>The elements of an array; \<open>std::remove\<close> with \<open>erase\<close> takes out those equal to the number.\<close>

definition json_elems :: "json \<Rightarrow> json list" where
  "json_elems j = (case j of JArray js \<Rightarrow> js | _ \<Rightarrow> [])"

definition createRoom :: "'s loader \<Rightarrow> 's replacer \<Rightarrow> int \<Rightarrow> int \<Rightarrow> 's \<Rightarrow> 's \<times> pvpGameResult result" where
  "createRoom ld rp p1 p2 s =
     (let (s1, nst, nv) = ld nextRoomIdKey s in
      if nst = gsUnavailable then (s1, Inr (PvpUnavailable, JNull))
      else case (if nst = gsOk then json_int nv else Inr 1) of
          Inl e \<Rightarrow> (s1, Inl e)
        | Inr rid \<Rightarrow>
            let snap = snapshot (GameRoom rid p1 p2);
                (s2, ast, av) = ld activeRoomIdsKey s1 in
            if ast = gsUnavailable then (s2, Inr (PvpUnavailable, JNull))
            else if ast = gsOk \<and> \<not> is_array av then (s2, Inr (PvpUnavailable, JNull))
            else
              let ids = (if ast = gsOk then json_elems av else []) @ [JInt rid];
                  (s3, st) = rp [(roomKey rid, snap), (activeRoomIdsKey, JArray ids), (nextRoomIdKey, JInt (rid + 1))] s2 in
              (s3, Inr (if st \<noteq> gsOk then (PvpUnavailable, JNull) else (PvpOk, snap))))"

text \<open>The last part of \<open>move\<close> and \<open>finish\<close>: write a finished room and take it off the list of the active ones.\<close>

definition retire :: "'s loader \<Rightarrow> 's replacer \<Rightarrow> int \<Rightarrow> json \<Rightarrow> json \<Rightarrow> 's \<Rightarrow> 's \<times> pvpGameResult result" where
  "retire ld rp rid current replacement s =
     (let (s1, ast, av) = ld activeRoomIdsKey s in
      if ast \<noteq> gsOk \<or> \<not> is_array av then (s1, Inr (PvpUnavailable, current))
      else
        let ids = filter (\<lambda>j. j \<noteq> JInt rid) (json_elems av);
            (s2, st) = rp [(roomKey rid, replacement), (activeRoomIdsKey, JArray ids)] s1 in
        (s2, Inr (if st \<noteq> gsOk then (PvpUnavailable, current) else (PvpOk, replacement))))"

definition pvp_move :: "'s loader \<Rightarrow> 's replacer \<Rightarrow> int \<Rightarrow> int \<Rightarrow> int \<Rightarrow> int \<Rightarrow> 's \<Rightarrow> 's \<times> pvpGameResult result" where
  "pvp_move ld rp rid playerId x y s =
     (let (s1, st, current) = loadLocked ld rid s in
      if st \<noteq> PvpOk then (s1, Inr (st, current))
      else case fromSnapshot current of
          Inl _ \<Rightarrow> (s1, Inr (PvpUnavailable, JNull))
        | Inr room \<Rightarrow>
            (case makeMove playerId x y room of
               Inl e \<Rightarrow> (s1, Inl e)
             | Inr (moveResult, room1) \<Rightarrow>
                 if moveResult = -1 then (s1, Inr (PvpInvalidMove, current))
                 else if moveResult = -2 then (s1, Inr (PvpGameOver, current))
                 else if moveResult = -3 then (s1, Inr (PvpNotYourTurn, current))
                 else
                   let replacement = snapshot room1 in
                   (case rbind (json_at ''gameOver'' replacement) json_bool of
                      Inl e \<Rightarrow> (s1, Inl e)
                    | Inr over \<Rightarrow>
                        if \<not> over then
                          let (s2, st2) = rp [(roomKey rid, replacement)] s1 in
                          (s2, Inr (if st2 \<noteq> gsOk then (PvpUnavailable, current) else (PvpOk, replacement)))
                        else retire ld rp rid current replacement s1)))"

definition pvp_finish :: "'s loader \<Rightarrow> 's replacer \<Rightarrow> int \<Rightarrow> int \<Rightarrow> 's \<Rightarrow> 's \<times> pvpGameResult result" where
  "pvp_finish ld rp rid winnerId s =
     (let (s1, st, current) = loadLocked ld rid s in
      if st \<noteq> PvpOk then (s1, Inr (st, current))
      else case fromSnapshot current of
          Inl _ \<Rightarrow> (s1, Inr (PvpUnavailable, JNull))
        | Inr room \<Rightarrow>
            let room1 = (if \<not> gameOver room then forfeit winnerId room else room) in
            retire ld rp rid current (snapshot room1) s1)"

text \<open>The loop of \<open>recoverActiveRooms\<close>; an exception ends it without a result.\<close>

fun recover_loop :: "'s loader \<Rightarrow> json list \<Rightarrow> json list \<Rightarrow> 's \<Rightarrow> 's \<times> json list result" where
  "recover_loop ld [] rooms s = (s, Inr rooms)"
| "recover_loop ld (j # js) rooms s =
     (case json_int j of
        Inl e \<Rightarrow> (s, Inl e)
      | Inr rid \<Rightarrow>
          let (s1, st, snap) = loadLocked ld rid s in
          if st \<noteq> PvpOk then recover_loop ld js rooms s1
          else case rbind (json_at ''gameOver'' snap) json_bool of
              Inl e \<Rightarrow> (s1, Inl e)
            | Inr over \<Rightarrow> recover_loop ld js (if \<not> over then rooms @ [snap] else rooms) s1)"

definition recoverActiveRooms :: "'s loader \<Rightarrow> 's \<Rightarrow> 's \<times> json list" where
  "recoverActiveRooms ld s =
     (let (s1, ast, av) = ld activeRoomIdsKey s in
      if ast \<noteq> gsOk \<or> \<not> is_array av then (s1, [])
      else let (s2, r) = recover_loop ld (json_elems av) [] s1 in
        (s2, case r of Inl _ \<Rightarrow> [] | Inr rooms \<Rightarrow> rooms))"

section \<open>The specification\<close>

type_synonym rooms = "int \<rightharpoonup> gameRoom"

text \<open>The rooms before any is created are none, and the first number is 1.\<close>

definition svc_rel :: "(string \<rightharpoonup> json) \<Rightarrow> int \<Rightarrow> rooms \<Rightarrow> bool" where
  "svc_rel m n rooms \<longleftrightarrow>
     (\<forall>i. m (roomKey i) = map_option snapshot (rooms i)) \<and>
     (\<forall>i r. rooms i = Some r \<longrightarrow> roomId r = i \<and> room_ok r \<and> 1 \<le> i \<and> i < n) \<and>
     (m nextRoomIdKey = None \<and> m activeRoomIdsKey = None \<and> n = 1 \<or>
      m nextRoomIdKey = Some (JInt n) \<and> 1 \<le> n \<and>
      (\<exists>ids. m activeRoomIdsKey = Some (JArray (map JInt ids)) \<and> distinct ids \<and>
         (\<forall>i. i \<in> set ids \<longleftrightarrow> (\<exists>r. rooms i = Some r \<and> \<not> gameOver r))))"

definition spec_create :: "int \<Rightarrow> int \<Rightarrow> int \<Rightarrow> rooms \<Rightarrow> int \<times> rooms" where
  "spec_create p1 p2 n rooms = (n + 1, rooms(n \<mapsto> GameRoom n p1 p2))"

definition spec_move :: "int \<Rightarrow> int \<Rightarrow> int \<Rightarrow> int \<Rightarrow> rooms \<Rightarrow> pvpGameStatus \<times> rooms" where
  "spec_move i p x y rooms = (case rooms i of None \<Rightarrow> (PvpNotFound, rooms)
     | Some r \<Rightarrow> if gameOver r then (PvpGameOver, rooms) else if p \<noteq> currentTurn r then (PvpNotYourTurn, rooms)
        else if \<not> (isInBoard x y \<and> cell (board r) x y = BOARD_EMPTY) then (PvpInvalidMove, rooms)
        else (PvpOk, rooms(i \<mapsto> moved p x y r)))"

definition spec_finish :: "int \<Rightarrow> int \<Rightarrow> rooms \<Rightarrow> pvpGameStatus \<times> rooms" where
  "spec_finish i w rooms = (case rooms i of None \<Rightarrow> (PvpNotFound, rooms)
     | Some r \<Rightarrow> (PvpOk, if gameOver r then rooms else rooms(i \<mapsto> forfeit w r)))"

text \<open>The snapshot that goes with a room, or null without one.\<close>

definition shown :: "gameRoom option \<Rightarrow> json" where
  "shown r = (case r of None \<Rightarrow> JNull | Some r \<Rightarrow> snapshot r)"

subsection \<open>Keys\<close>

lemma roomKey_inj [simp]: "roomKey i = roomKey j \<longleftrightarrow> i = j"
proof
  assume "roomKey i = roomKey j"
  then have "parse_int (to_string i @ []) = parse_int (to_string j @ [])" by (simp add: roomKey_def)
  then show "i = j" by (simp only: parse_to_string option.inject simp_thms)
qed simp

lemma keys_distinct [simp]:
  "roomKey i \<noteq> activeRoomIdsKey" "activeRoomIdsKey \<noteq> roomKey i" "roomKey i \<noteq> nextRoomIdKey" "nextRoomIdKey \<noteq> roomKey i"
  "activeRoomIdsKey \<noteq> nextRoomIdKey" "nextRoomIdKey \<noteq> activeRoomIdsKey"
  by (simp_all add: roomKey_def activeRoomIdsKey_def nextRoomIdKey_def)

lemma snapshot_over [simp]: "rbind (json_at ''gameOver'' (snapshot r)) json_bool = Inr (gameOver r)"
  by (simp add: snapshot_def json_at_object)

lemma moved_id [simp]: "roomId (moved p x y r) = roomId r"
  by (simp add: moved_def Let_def)

lemma forfeit_sel [simp]: "roomId (forfeit w r) = roomId r" "gameOver (forfeit w r)"
  by (simp_all add: forfeit_def)

subsection \<open>Writes keep the relation\<close>

lemma svc_rel_room:
  assumes "svc_rel m n rooms" and "rooms i = Some r"
  shows "m (roomKey i) = Some (snapshot r) \<and> roomId r = i \<and> room_ok r \<and> i < n \<and> m nextRoomIdKey = Some (JInt n) \<and>
    (\<exists>ids. m activeRoomIdsKey = Some (JArray (map JInt ids)))"
proof -
  have i: "roomId r = i \<and> room_ok r \<and> 1 \<le> i \<and> i < n" and m: "m (roomKey i) = Some (snapshot r)"
    using assms by (simp_all add: svc_rel_def)
  then have "n \<noteq> 1" by linarith
  then show ?thesis using assms(1) i m unfolding svc_rel_def by blast
qed

lemma svc_rel_create:
  assumes "svc_rel m n rooms" and "p1 \<noteq> p2"
    and "ids = (case m activeRoomIdsKey of Some (JArray js) \<Rightarrow> js | _ \<Rightarrow> [])"
  shows "svc_rel (written m [(roomKey n, snapshot (GameRoom n p1 p2)), (activeRoomIdsKey, JArray (ids @ [JInt n])), (nextRoomIdKey, JInt (n + 1))])
    (n + 1) (rooms(n \<mapsto> GameRoom n p1 p2))"
proof -
  obtain ks where ks: "ids = map JInt ks" "distinct ks" "\<forall>i. i \<in> set ks \<longleftrightarrow> (\<exists>r. rooms i = Some r \<and> \<not> gameOver r)"
  proof (cases "m activeRoomIdsKey")
    case None
    moreover have "rooms i = None" for i using svc_rel_room [OF assms(1), of i] None by (cases "rooms i") auto
    ultimately show ?thesis using that [of "[]"] assms(3) by simp
  next
    case (Some a)
    then show ?thesis using that assms(1,3) by (fastforce simp: svc_rel_def)
  qed
  have n: "rooms n = None" using svc_rel_room [OF assms(1), of n] by (cases "rooms n") auto
  then have "n \<notin> set ks" using ks(3) by simp
  then show ?thesis using assms(1,2) ks n GameRoom_ok [of p1 p2 n]
    by (fastforce simp: svc_rel_def GameRoom_def intro!: exI [of _ "ks @ [n]"])
qed

lemma svc_rel_put:
  assumes "svc_rel m n rooms" and "rooms i = Some r" and "room_ok r'" "roomId r' = i" "gameOver r' \<longleftrightarrow> gameOver r"
  shows "svc_rel (m(roomKey i \<mapsto> snapshot r')) n (rooms(i \<mapsto> r'))"
proof -
  have "m nextRoomIdKey \<noteq> None" using svc_rel_room [OF assms(1,2)] by simp
  then show ?thesis using assms by (auto simp: svc_rel_def)
qed

lemma svc_rel_active:
  assumes "svc_rel m n rooms" and "rooms i = Some r"
  obtains ids where "m activeRoomIdsKey = Some (JArray (map JInt ids))"
  using svc_rel_room [OF assms] by blast

lemma svc_rel_retire:
  assumes "svc_rel m n rooms" and "rooms i = Some r" and "room_ok r'" "roomId r' = i" "gameOver r'"
    and "m activeRoomIdsKey = Some (JArray js)"
  shows "svc_rel (written m [(roomKey i, snapshot r'), (activeRoomIdsKey, JArray (filter (\<lambda>j. j \<noteq> JInt i) js))]) n (rooms(i \<mapsto> r'))"
proof -
  obtain ks where ks: "js = map JInt ks" "distinct ks" "\<forall>i. i \<in> set ks \<longleftrightarrow> (\<exists>r. rooms i = Some r \<and> \<not> gameOver r)"
    using assms(1,6) by (fastforce simp: svc_rel_def)
  have "filter (\<lambda>j. j \<noteq> JInt i) js = map JInt (filter (\<lambda>k. k \<noteq> i) ks)" by (simp add: ks(1) filter_map comp_def)
  then show ?thesis using assms ks by (auto simp: svc_rel_def intro!: exI [of _ "filter (\<lambda>k. k \<noteq> i) ks"])
qed


section \<open>Refinement\<close>

context game_store
begin

lemma loadLocked_spec:
  assumes "ok s" and "svc_rel (view s) n rooms" and "loadLocked ld i s = (s', st, j)"
  shows "ok s' \<and> view s' = view s \<and> (st = PvpUnavailable \<and> j = JNull \<or> rooms i = None \<and> st = PvpNotFound \<and> j = JNull \<or>
    (\<exists>r. rooms i = Some r \<and> st = PvpOk \<and> j = snapshot r))"
proof -
  obtain s1 r where l: "ld (roomKey i) s = (s1, r)" by (metis surj_pair)
  have m: "view s (roomKey i) = map_option snapshot (rooms i)" using assms(2) by (simp add: svc_rel_def)
  from assms(1) l show ?thesis
    by (cases rule: load_cases) (use assms(3) l m in \<open>auto simp: loadLocked_def split_def split: if_splits\<close>)
qed

lemma createRoom_refines:
  assumes "ok s" and "svc_rel (view s) n rooms" and "p1 \<noteq> p2" and "createRoom ld rp p1 p2 s = (s', res)"
  shows "ok s' \<and>
    (res = Inr (PvpOk, snapshot (GameRoom n p1 p2)) \<and> case_prod (svc_rel (view s')) (spec_create p1 p2 n rooms) \<or>
     res = Inr (PvpUnavailable, JNull) \<and> (svc_rel (view s') n rooms \<or> case_prod (svc_rel (view s')) (spec_create p1 p2 n rooms)))"
proof -
  obtain s1 nst nv where l1: "ld nextRoomIdKey s = (s1, nst, nv)" by (metis surj_pair)
  obtain s2 ast av where l2: "ld activeRoomIdsKey s1 = (s2, ast, av)" by (metis surj_pair)
  have a1: "ok s1" "view s1 = view s" "nst = gsUnavailable \<or> nst = gsNotFound \<and> view s nextRoomIdKey = None \<or> nst = gsOk \<and> view s nextRoomIdKey = Some (nv)"
    using load_law [OF assms(1) l1] by auto
  have a2: "ok s2" "view s2 = view s" "ast = gsUnavailable \<or> ast = gsNotFound \<and> view s activeRoomIdsKey = None \<or> ast = gsOk \<and> view s activeRoomIdsKey = Some (av)"
    using load_law [OF a1(1) l2] a1(2) by auto
  show ?thesis
  proof (cases "nst = gsUnavailable \<or> ast = gsUnavailable")
    case True
    have "nst \<noteq> gsUnavailable \<Longrightarrow> (if nst = gsOk then json_int (nv) else Inr 1) = Inr n"
      using assms(2) a1(3) by (auto simp: svc_rel_def)
    then have "(s' = s1 \<or> s' = s2) \<and> res = Inr (PvpUnavailable, JNull)"
      using assms(4) True l1 l2 by (cases "nst = gsUnavailable") (auto simp: createRoom_def Let_def)
    then show ?thesis using a1 a2 assms(2) by auto
  next
    case False
    then have n: "(if nst = gsOk then json_int (nv) else Inr 1) = Inr n" and na: "is_array (av) \<or> ast = gsNotFound"
      and ids: "(if ast = gsOk then json_elems (av) else []) = (case view s activeRoomIdsKey of Some (JArray js) \<Rightarrow> js | _ \<Rightarrow> [])"
      using assms(2) a1(3) a2(3) by (auto simp: svc_rel_def json_elems_def)
    let ?ids = "case view s activeRoomIdsKey of Some (JArray js) \<Rightarrow> js | _ \<Rightarrow> []"
    let ?recs = "[(roomKey n, snapshot (GameRoom n p1 p2)), (activeRoomIdsKey, JArray (?ids @ [JInt n])), (nextRoomIdKey, JInt (n + 1))]"
    obtain s3 st where w: "rp ?recs s2 = (s3, st)" by fastforce
    have r: "(s', res) = (s3, Inr (if st \<noteq> gsOk then (PvpUnavailable, JNull) else (PvpOk, snapshot (GameRoom n p1 p2))))"
      using assms(4) False n na ids w l1 l2 by (auto simp: createRoom_def Let_def split del: if_split)
    have "svc_rel (written (view s) ?recs) (n + 1) (rooms(n \<mapsto> GameRoom n p1 p2))"
      by (rule svc_rel_create [OF assms(2,3) refl])
    then show ?thesis using replace_law [OF a2(1) w] a2(2) assms(2) r by (auto simp: spec_create_def split: if_splits)
  qed
qed

lemma retire_refines:
  assumes "ok s" and "svc_rel (view s) n rooms" and "rooms i = Some r" and "room_ok r'" "roomId r' = i" "gameOver r'"
    and "retire ld rp i (snapshot r) (snapshot r') s = (s', res)"
  shows "ok s' \<and> (res = Inr (PvpOk, snapshot r') \<and> svc_rel (view s') n (rooms(i \<mapsto> r')) \<or>
    res = Inr (PvpUnavailable, snapshot r) \<and> (svc_rel (view s') n rooms \<or> svc_rel (view s') n (rooms(i \<mapsto> r'))))"
proof -
  obtain s1 ac where l: "ld activeRoomIdsKey s = (s1, ac)" by (metis surj_pair)
  obtain ids where ids: "view s activeRoomIdsKey = Some (JArray (map JInt ids))" using svc_rel_active [OF assms(2,3)] .
  from assms(1) l show ?thesis
  proof (cases rule: load_cases)
    case (found v)
    let ?recs = "[(roomKey i, snapshot r'), (activeRoomIdsKey, JArray (filter (\<lambda>j. j \<noteq> JInt i) (map JInt ids)))]"
    obtain s2 st where w: "rp ?recs s1 = (s2, st)" by fastforce
    have "svc_rel (written (view s) ?recs) n (rooms(i \<mapsto> r'))"
      by (rule svc_rel_retire [OF assms(2-6) ids])
    moreover have "s' = s2" "res = Inr (if st \<noteq> gsOk then (PvpUnavailable, snapshot r) else (PvpOk, snapshot r'))"
      using assms(7) found ids l w by (auto simp: retire_def json_elems_def)
    ultimately show ?thesis using replace_law [OF found(3) w] found(4) assms(2) by (auto split: if_splits)
  qed (use assms(2,7) l ids in \<open>auto simp: retire_def split_def\<close>)
qed

lemma move_refines:
  assumes "ok s" and "svc_rel (view s) n rooms" and "pvp_move ld rp i p x y s = (s', res)"
  shows "ok s' \<and> (\<exists>st j. res = Inr (st, j) \<and>
    (st = fst (spec_move i p x y rooms) \<and> svc_rel (view s') n (snd (spec_move i p x y rooms)) \<and> j = shown (snd (spec_move i p x y rooms) i) \<or>
     st = PvpUnavailable \<and> (svc_rel (view s') n rooms \<or> svc_rel (view s') n (snd (spec_move i p x y rooms)))))"
proof -
  obtain s1 st current where l: "loadLocked ld i s = (s1, st, current)" by (metis prod_cases3)
  note a = loadLocked_spec [OF assms(1,2) l]
  show ?thesis
  proof (cases "st = PvpOk")
    case False
    then have "s' = s1" "res = Inr (st, current)" using assms(3) l by (auto simp: pvp_move_def)
    then show ?thesis using a False assms(2) by (auto simp: spec_move_def shown_def)
  next
    case True
    then obtain r where r: "rooms i = Some r" "current = snapshot r" using a by auto
    have rok: "room_ok r" "roomId r = i" using svc_rel_room [OF assms(2) r(1)] by auto
    then have wf: "board_wf (board r)" by (simp add: room_ok_def board_ok_def)
    show ?thesis
    proof (cases "fst (spec_move i p x y rooms) = PvpOk")
      case False
      then have "s' = s1" "res = Inr (fst (spec_move i p x y rooms), current)" "snd (spec_move i p x y rooms) = rooms"
        using assms(3) l True r by (auto simp: pvp_move_def spec_move_def fromSnapshot_snapshot makeMove_wf [OF wf] split: if_splits)
      then show ?thesis using a r assms(2) by (auto simp: shown_def)
    next
      case mv: True
      then have legal: "\<not> gameOver r" "p = currentTurn r" "isInBoard x y" "cell (board r) x y = BOARD_EMPTY"
        using r by (auto simp: spec_move_def split: if_splits)
      let ?r = "moved p x y r"
      have ok': "room_ok ?r" "roomId ?r = i" using moved_ok [OF rok(1) legal] rok(2) by simp_all
      have spec: "spec_move i p x y rooms = (PvpOk, rooms(i \<mapsto> ?r))" using legal r by (simp add: spec_move_def)
      have step: "pvp_move ld rp i p x y s = (if \<not> gameOver ?r then
          let (s2, st2) = rp [(roomKey i, snapshot ?r)] s1 in
            (s2, Inr (if st2 \<noteq> gsOk then (PvpUnavailable, current) else (PvpOk, snapshot ?r)))
          else retire ld rp i current (snapshot ?r) s1)"
        using l True r legal(1,3,4) unfolding legal(2) r(2) by (simp add: pvp_move_def fromSnapshot_snapshot makeMove_wf [OF wf] Let_def)
      show ?thesis
      proof (cases "gameOver ?r")
        case True
        then show ?thesis using retire_refines [of s1 n rooms i r ?r s' res] assms(2,3) a r ok' step spec
          by (auto simp: shown_def)
      next
        case False
        obtain s2 st2 where w: "rp [(roomKey i, snapshot ?r)] s1 = (s2, st2)" by fastforce
        have "svc_rel ((view s)(roomKey i \<mapsto> snapshot ?r)) n (rooms(i \<mapsto> ?r))"
          using svc_rel_put [OF assms(2) r(1) ok'] False legal(1) by simp
        then show ?thesis using replace_law [OF _ w] a assms(2,3) step w False spec by (auto simp: shown_def split: if_splits)
      qed
    qed
  qed
qed

lemma finish_refines:
  assumes "ok s" and "svc_rel (view s) n rooms" and "pvp_finish ld rp i w s = (s', res)"
  shows "ok s' \<and> (\<exists>st j. res = Inr (st, j) \<and>
    (st = fst (spec_finish i w rooms) \<and> svc_rel (view s') n (snd (spec_finish i w rooms)) \<and> j = shown (snd (spec_finish i w rooms) i) \<or>
     st = PvpUnavailable \<and> (svc_rel (view s') n rooms \<or> svc_rel (view s') n (snd (spec_finish i w rooms)))))"
proof -
  obtain s1 st current where l: "loadLocked ld i s = (s1, st, current)" by (metis prod_cases3)
  note a = loadLocked_spec [OF assms(1,2) l]
  show ?thesis
  proof (cases "st = PvpOk")
    case False
    then have "s' = s1" "res = Inr (st, current)" using assms(3) l by (auto simp: pvp_finish_def)
    then show ?thesis using a False assms(2) by (auto simp: spec_finish_def shown_def)
  next
    case True
    then obtain r where r: "rooms i = Some r" "current = snapshot r" using a by auto
    let ?r = "if gameOver r then r else forfeit w r"
    have ok': "room_ok ?r" "roomId ?r = i" "gameOver ?r" using svc_rel_room [OF assms(2) r(1)] by (simp_all add: forfeit_ok)
    have "retire ld rp i (snapshot r) (snapshot ?r) s1 = (s', res)"
      using assms(3) l True r by (auto simp: pvp_finish_def fromSnapshot_snapshot Let_def split: if_splits)
    from retire_refines [OF _ _ _ ok' this, of n rooms] show ?thesis using a assms(2) r
      by (auto simp: spec_finish_def shown_def fun_upd_idem split: if_splits)
  qed
qed

lemma recover_loop_spec:
  assumes "ok s" and "svc_rel (view s) n rooms" and "\<forall>i \<in> set ids. \<exists>r. rooms i = Some r \<and> \<not> gameOver r"
    and "recover_loop ld (map JInt ids) acc s = (s', res)"
  shows "ok s' \<and> view s' = view s \<and> (\<exists>ks. subseq ks ids \<and> res = Inr (acc @ map (\<lambda>i. shown (rooms i)) ks) \<and>
    ((\<forall>k t. fst (snd (ld k t)) \<noteq> gsUnavailable) \<longrightarrow> ks = ids))"
  using assms
proof (induction ids arbitrary: acc s)
  case (Cons i ids)
  obtain s1 st snap where l: "loadLocked ld i s = (s1, st, snap)" by (metis prod_cases3)
  note a = loadLocked_spec [OF Cons.prems(1,2) l]
  obtain r where r: "rooms i = Some r" "\<not> gameOver r" using Cons.prems(3) by auto
  have o1: "ok s1" and v1: "view s1 = view s" using a by auto
  have un: "st \<noteq> PvpOk \<Longrightarrow> fst (snd (ld (roomKey i) s)) = gsUnavailable"
    using l a r Cons.prems(2) load_law [OF Cons.prems(1)] 
    by (cases "ld (roomKey i) s") (fastforce simp: loadLocked_def split_def svc_rel_def split: if_splits)
  let ?acc = "if st = PvpOk then acc @ [snap] else acc"
  have step: "recover_loop ld (map JInt ids) ?acc s1 = (s', res)"
    using Cons.prems(4) l a r by (auto split: if_splits)
  from Cons.IH [OF o1 _ _ step] v1 Cons.prems(2,3) obtain ks where ks: "ok s'" "view s' = view s" "subseq ks ids"
    "res = Inr (?acc @ map (\<lambda>i. shown (rooms i)) ks)" "(\<forall>k t. fst (snd (ld k t)) \<noteq> gsUnavailable) \<longrightarrow> ks = ids"
    by auto
  show ?case
  proof (cases "st = PvpOk")
    case True
    then have "snap = shown (rooms i)" using a r by (simp add: shown_def)
    then show ?thesis using True ks by (intro conjI exI [of _ "i # ks"]) auto
  next
    case False
    then show ?thesis using ks un by (intro conjI exI [of _ ks]) auto
  qed
qed auto

lemma recover_spec:
  assumes "ok s" and "svc_rel (view s) n rooms" and "recoverActiveRooms ld s = (s', js)"
  shows "ok s' \<and> view s' = view s \<and> (\<exists>ks. distinct ks \<and> js = map (\<lambda>i. shown (rooms i)) ks \<and>
    set ks \<subseteq> {i. \<exists>r. rooms i = Some r \<and> \<not> gameOver r} \<and>
    ((\<forall>k t. fst (snd (ld k t)) \<noteq> gsUnavailable) \<longrightarrow> set ks = {i. \<exists>r. rooms i = Some r \<and> \<not> gameOver r}))"
proof -
  obtain s1 ast av where l: "ld activeRoomIdsKey s = (s1, ast, av)" by (metis surj_pair)
  have a: "ok s1" "view s1 = view s" "ast = gsUnavailable \<or> ast = gsNotFound \<and> view s activeRoomIdsKey = None \<or> ast = gsOk \<and> view s activeRoomIdsKey = Some av"
    using load_law [OF assms(1) l] by auto
  show ?thesis
  proof (cases "ast = gsOk")
    case True
    then obtain ids where ids: "av = JArray (map JInt ids)" "distinct ids" "\<forall>i. i \<in> set ids \<longleftrightarrow> (\<exists>r. rooms i = Some r \<and> \<not> gameOver r)"
      using a(3) assms(2) unfolding svc_rel_def by fastforce
    obtain s2 res where rl: "recover_loop ld (map JInt ids) [] s1 = (s2, res)" by fastforce
    from recover_loop_spec [OF a(1) _ _ rl, of n rooms] assms(2) a(2) ids(3) obtain ks where ks: "ok s2" "view s2 = view s"
      "subseq ks ids" "res = Inr (map (\<lambda>i. shown (rooms i)) ks)" "(\<forall>k t. fst (snd (ld k t)) \<noteq> gsUnavailable) \<longrightarrow> ks = ids" by auto
    have "s' = s2 \<and> js = map (\<lambda>i. shown (rooms i)) ks"
      using assms(3) l True ids(1) rl ks(4) by (simp add: recoverActiveRooms_def json_elems_def)
    then show ?thesis using ks ids(2,3) by (auto intro!: exI [of _ ks] simp: subseq_conv_nths distinct_nthsI dest: in_set_nthsD)
  next
    case False
    then have "s' = s1" "js = []" using assms(3) l by (auto simp: recoverActiveRooms_def)
    moreover have "rooms i = None" if "ast = gsNotFound" for i
      using that a(3) svc_rel_room [OF assms(2), of i] by (cases "rooms i") auto
    moreover have "ast = gsUnavailable \<Longrightarrow> \<not> (\<forall>k t. fst (snd (ld k t)) \<noteq> gsUnavailable)"
      using l by (metis fst_conv snd_conv)
    ultimately show ?thesis using a False by (auto intro!: exI [of _ "[]"])
  qed
qed

end

section \<open>Sequences of operations\<close>

datatype pvpOp = OpCreate int int | OpLoad int | OpMove int int int int | OpFinish int int | OpRecover

definition pvp_step :: "'s loader \<Rightarrow> 's replacer \<Rightarrow> pvpOp \<Rightarrow> 's \<Rightarrow> 's" where
  "pvp_step ld rp a s = (case a of
       OpCreate p1 p2 \<Rightarrow> fst (createRoom ld rp p1 p2 s)
     | OpLoad i \<Rightarrow> fst (pvp_load ld i s)
     | OpMove i p x y \<Rightarrow> fst (pvp_move ld rp i p x y s)
     | OpFinish i w \<Rightarrow> fst (pvp_finish ld rp i w s)
     | OpRecover \<Rightarrow> fst (recoverActiveRooms ld s))"

definition two_players :: "pvpOp \<Rightarrow> bool" where
  "two_players a = (case a of OpCreate p1 p2 \<Rightarrow> p1 \<noteq> p2 | _ \<Rightarrow> True)"

text \<open>A later state of the service: every room is still there, and got where it is by moves and resignations.\<close>

definition svc_leq :: "int \<Rightarrow> rooms \<Rightarrow> int \<Rightarrow> rooms \<Rightarrow> bool" where
  "svc_leq n rooms n' rooms' \<longleftrightarrow> n \<le> n' \<and> (\<forall>i r. rooms i = Some r \<longrightarrow> (\<exists>r'. rooms' i = Some r' \<and> played r r'))"

lemma played_trans: "played r' r'' \<Longrightarrow> played r r' \<Longrightarrow> played r r''"
  by (induction rule: played.induct) (auto intro: played.intros)

lemma svc_leq_refl [simp]: "svc_leq n rooms n rooms"
  by (auto simp: svc_leq_def intro: played.start)

lemma svc_leq_trans: "svc_leq n r n' r' \<Longrightarrow> svc_leq n' r' n'' r'' \<Longrightarrow> svc_leq n r n'' r''"
  unfolding svc_leq_def by (meson order_trans played_trans)

lemma svc_leq_put: "rooms i = Some r \<Longrightarrow> played r r' \<Longrightarrow> svc_leq n rooms n (rooms(i \<mapsto> r'))"
  by (auto simp: svc_leq_def intro: played.start)

lemma svc_leq_create: "svc_rel m n rooms \<Longrightarrow> case_prod (svc_leq n rooms) (spec_create p1 p2 n rooms)"
  by (auto simp: svc_leq_def spec_create_def intro: played.start dest: svc_rel_room)

lemma svc_leq_move:
  assumes "svc_rel m n rooms"
  shows "svc_leq n rooms n (snd (spec_move i p x y rooms))"
proof (cases "fst (spec_move i p x y rooms) = PvpOk")
  case True
  then obtain r where r: "rooms i = Some r" "\<not> gameOver r" "p = currentTurn r" "isInBoard x y" "cell (board r) x y = BOARD_EMPTY"
    by (auto simp: spec_move_def split: option.splits if_splits)
  then have "board_wf (board r)" using svc_rel_room [OF assms r(1)] by (simp add: room_ok_def board_ok_def)
  then have "makeMove p x y r = Inr (0, moved p x y r)" using makeMove_wf r by simp
  then have "played r (moved p x y r)" by (rule played.move [OF played.start])
  then show ?thesis using r svc_leq_put [of rooms i r] by (simp add: spec_move_def)
qed (auto simp: spec_move_def split: option.splits if_splits)

lemma svc_leq_finish: "svc_leq n rooms n (snd (spec_finish i w rooms))"
  by (auto simp: spec_finish_def split: option.splits intro!: svc_leq_put played.leave [OF played.start])

context game_store
begin

lemma step_keeps:
  assumes "ok s" and "svc_rel (view s) n rooms" and "two_players a"
  shows "ok (pvp_step ld rp a s) \<and> (\<exists>n' rooms'. svc_rel (view (pvp_step ld rp a s)) n' rooms' \<and> svc_leq n rooms n' rooms')"
proof (cases a)
  case (OpCreate p1 p2)
  obtain s' res where c: "createRoom ld rp p1 p2 s = (s', res)" by fastforce
  then show ?thesis using createRoom_refines [OF assms(1,2) _ c] svc_leq_create [OF assms(2)] assms(2,3) OpCreate
    by (auto simp: pvp_step_def two_players_def spec_create_def intro: svc_leq_refl)
next
  case (OpMove i p x y)
  obtain s' res where c: "pvp_move ld rp i p x y s = (s', res)" by fastforce
  then show ?thesis using move_refines [OF assms(1,2) c] svc_leq_move [OF assms(2), of i p x y] assms(2) OpMove
    by (simp add: pvp_step_def) (metis svc_leq_refl)
next
  case (OpFinish i w)
  obtain s' res where c: "pvp_finish ld rp i w s = (s', res)" by fastforce
  then show ?thesis using finish_refines [OF assms(1,2) c] svc_leq_finish [of n rooms i w] assms(2) OpFinish
    by (simp add: pvp_step_def) (metis svc_leq_refl)
next
  case (OpLoad i)
  obtain s' res where c: "loadLocked ld i s = (s', res)" by (metis surj_pair)
  obtain st j where "res = (st, j)" by fastforce
  then show ?thesis using loadLocked_spec [OF assms(1,2)] c assms(2) OpLoad
    by (auto simp: pvp_step_def pvp_load_def intro: svc_leq_refl)
next
  case OpRecover
  obtain s' js where c: "recoverActiveRooms ld s = (s', js)" by fastforce
  then show ?thesis using recover_spec [OF assms(1,2) c] assms(2) OpRecover
    by (auto simp: pvp_step_def intro: svc_leq_refl)
qed

lemma run_keeps:
  assumes "ok s" and "svc_rel (view s) n rooms" and "\<forall>a \<in> set acts. two_players a"
  shows "ok (fold (pvp_step ld rp) acts s) \<and> (\<exists>n' rooms'. svc_rel (view (fold (pvp_step ld rp) acts s)) n' rooms' \<and> svc_leq n rooms n' rooms')"
  using assms
proof (induction acts arbitrary: s n rooms)
  case (Cons a acts)
  have "two_players a" "\<forall>a \<in> set acts. two_players a" using Cons.prems(3) by auto
  then show ?case using step_keeps [OF Cons.prems(1,2)] Cons.IH by (fastforce dest: svc_leq_trans)
qed (auto intro: svc_leq_refl)

end

section \<open>The service on the replicated store\<close>

text \<open>What the servers hold of the game state.\<close>

definition stored :: "jsonLib \<Rightarrow> clerkWorld \<Rightarrow> string \<rightharpoonup> json" where
  "stored lib w = (case fst (cl_state w) stateEnvelopeKey of None \<Rightarrow> Map.empty
     | Some raw \<Rightarrow> (case json_parse lib raw of Some (JObject kvs) \<Rightarrow> map_of kvs | _ \<Rightarrow> Map.empty))"

lemma stored_records: "stored lib = clerk_client.records_of lib"
  by (rule ext) (simp add: stored_def clerk_client.records_of_def)

definition raft_ld :: "network \<Rightarrow> int \<Rightarrow> jsonLib \<Rightarrow> clerkWorld loader" where
  "raft_ld net timeout lib = raft_load lib (client_get net timeout)"

definition raft_rp :: "network \<Rightarrow> int \<Rightarrow> jsonLib \<Rightarrow> clerkWorld replacer" where
  "raft_rp net timeout lib = raft_replace lib (client_get net timeout) (client_put net timeout)"

text \<open>Servers that hold no game state yet, and a library that reads back what it writes.\<close>

definition fresh_cluster :: "jsonLib \<Rightarrow> clerkWorld \<Rightarrow> bool" where
  "fresh_cluster lib w \<longleftrightarrow> json_ok lib \<and> cluster_ok w \<and> fst (cl_state w) stateEnvelopeKey = None"

lemma svc_rel_empty: "svc_rel Map.empty 1 Map.empty"
  by (simp add: svc_rel_def)

lemma fresh_start: "fresh_cluster lib w \<Longrightarrow> clerk_client.envelope_ok lib w \<and> svc_rel (stored lib w) 1 Map.empty"
  by (simp add: fresh_cluster_def clerk_client.envelope_ok_def stored_def svc_rel_empty)

lemma raft_run:
  assumes "clerk_client.envelope_ok lib w" and "svc_rel (stored lib w) n rooms" and "\<forall>a \<in> set acts. two_players a"
  shows "clerk_client.envelope_ok lib (fold (pvp_step (raft_ld net timeout lib) (raft_rp net timeout lib)) acts w) \<and>
    (\<exists>n' rooms'. svc_rel (stored lib (fold (pvp_step (raft_ld net timeout lib) (raft_rp net timeout lib)) acts w)) n' rooms' \<and> svc_leq n rooms n' rooms')"
  unfolding stored_records raft_ld_def raft_rp_def
  by (rule clerk_client.raft.run_keeps) (use assms in \<open>simp_all add: stored_records\<close>)

text \<open>A library that writes a number for a value, for concrete runs.\<close>

instance json :: countable by countable_datatype

definition number_lib :: jsonLib where
  "number_lib = \<lparr>json_dump = (\<lambda>j. nat_string (to_nat j)), json_parse = (\<lambda>s. Some (from_nat (digits_val s)))\<rparr>"

lemma number_lib_ok: "json_ok number_lib"
  by (simp add: json_ok_def number_lib_def)

definition new_cluster :: clerkWorld where
  "new_cluster = \<lparr>cl_clerk = \<lparr>m_servers = 3, m_clientId = ''gomoku'', m_requestId = 0, m_recentLeaderId = 0\<rparr>, cl_state = (Map.empty, Map.empty), cl_calls = 0\<rparr>"

definition good_network :: network where
  "good_network = \<lparr>net_left = (\<lambda>_. 3), net_answers = (\<lambda>_ _ _. True), net_applied = (\<lambda>_. True)\<rparr>"

lemma new_cluster_fresh: "fresh_cluster number_lib new_cluster"
  by (simp add: fresh_cluster_def number_lib_ok cluster_ok_def new_cluster_def)




text \<open>C17: A move over the replicated store does what the rules say. After any sequence of operations there is one state of
  the abstract service such that every further move either answers what the rules say of its room (unknown
  room, game over, not the player's turn, cell not free, or the stone placed) with the resulting room and leaves
  exactly that, or answers that the store is unavailable and leaves the state as it was or with the move made. The
  service never fails with an exception.\<close>

theorem raft_move_refines:
  assumes "fresh_cluster lib w" and "\<forall>a \<in> set acts. two_players a"
    and "w1 = fold (pvp_step (raft_ld net timeout lib) (raft_rp net timeout lib)) acts w"
  shows "\<exists>n rooms. svc_rel (stored lib w1) n rooms \<and>
    (\<forall>i p x y. let (w2, res) = pvp_move (raft_ld net timeout lib) (raft_rp net timeout lib) i p x y w1; (st, rooms') = spec_move i p x y rooms in
      res = Inr (st, shown (rooms' i)) \<and> svc_rel (stored lib w2) n rooms' \<or>
      (\<exists>j. res = Inr (PvpUnavailable, j)) \<and> (svc_rel (stored lib w2) n rooms \<or> svc_rel (stored lib w2) n rooms'))"
proof -
  note start = fresh_start [OF assms(1)]
  obtain n rooms where 1: "clerk_client.envelope_ok lib w1" "svc_rel (stored lib w1) n rooms"
    using raft_run [OF start [THEN conjunct1] start [THEN conjunct2], of acts net timeout] assms(2,3) by auto
  have "let (w2, res) = pvp_move (raft_ld net timeout lib) (raft_rp net timeout lib) i p x y w1; (st, rooms') = spec_move i p x y rooms in
      res = Inr (st, shown (rooms' i)) \<and> svc_rel (stored lib w2) n rooms' \<or>
      (\<exists>j. res = Inr (PvpUnavailable, j)) \<and> (svc_rel (stored lib w2) n rooms \<or> svc_rel (stored lib w2) n rooms')" for i p x y
    using clerk_client.raft.move_refines [OF 1 [unfolded stored_records], of net timeout i p x y] unfolding stored_records raft_ld_def raft_rp_def Let_def
    by (auto split: prod.splits)
  then show ?thesis using 1(2) by blast
qed

theorem raft_move_refines_witness:
  "\<exists>n rooms. svc_rel (stored number_lib (fold (pvp_step (raft_ld good_network 5000 number_lib) (raft_rp good_network 5000 number_lib)) [OpCreate 7 8] new_cluster)) n rooms \<and>
    (let (w2, res) = pvp_move (raft_ld good_network 5000 number_lib) (raft_rp good_network 5000 number_lib) 1 7 4 4
           (fold (pvp_step (raft_ld good_network 5000 number_lib) (raft_rp good_network 5000 number_lib)) [OpCreate 7 8] new_cluster);
         (st, rooms') = spec_move 1 7 4 4 rooms in
      res = Inr (st, shown (rooms' 1)) \<and> svc_rel (stored number_lib w2) n rooms' \<or>
      (\<exists>j. res = Inr (PvpUnavailable, j)) \<and> (svc_rel (stored number_lib w2) n rooms \<or> svc_rel (stored number_lib w2) n rooms'))"
proof -
  have "\<forall>a \<in> set [OpCreate 7 8]. two_players a" by (simp add: two_players_def)
  from raft_move_refines [OF new_cluster_fresh this refl, of good_network 5000] show ?thesis by blast
qed

text \<open>A restarted server finds exactly the unfinished games. Over the store in memory, with whatever write failures
  injected, after any sequence of operations \<open>recoverActiveRooms\<close> returns the snapshots of the unfinished rooms, each
  once and no other, and changes nothing.\<close>

theorem recover_finds_unfinished:
  assumes "mem_values s = Map.empty" and "\<forall>a \<in> set acts. two_players a"
    and "s1 = fold (pvp_step mem_load mem_replace) acts s"
  shows "\<exists>n rooms ids. svc_rel (mem_values s1) n rooms \<and> mem_values (fst (recoverActiveRooms mem_load s1)) = mem_values s1 \<and>
    snd (recoverActiveRooms mem_load s1) = map (\<lambda>i. shown (rooms i)) ids \<and> distinct ids \<and>
    set ids = {i. \<exists>r. rooms i = Some r \<and> \<not> gameOver r}"
proof -
  have never: "fst (snd (mem_load k t)) \<noteq> gsUnavailable" for k t by (simp add: mem_load_def split: option.splits)
  obtain n rooms where 1: "svc_rel (mem_values s1) n rooms"
    using mem.run_keeps [of s 1 Map.empty acts] assms svc_rel_empty by auto
  from mem.recover_spec [OF TrueI 1, of "fst (recoverActiveRooms mem_load s1)" "snd (recoverActiveRooms mem_load s1)"] never 1
  show ?thesis by auto
qed

theorem recover_finds_unfinished_witness:
  "length (snd (recoverActiveRooms mem_load (fold (pvp_step mem_load mem_replace) [OpCreate 7 8, OpCreate 9 10, OpFinish 1 8] MemoryGameStateStore))) = 1"
proof -
  let ?s = "fold (pvp_step mem_load mem_replace) [OpCreate 7 8, OpCreate 9 10, OpFinish 1 8] MemoryGameStateStore"
  obtain n rooms ids where 1: "svc_rel (mem_values ?s) n rooms" "snd (recoverActiveRooms mem_load ?s) = map (\<lambda>i. shown (rooms i)) ids"
    "distinct ids" "set ids = {i. \<exists>r. rooms i = Some r \<and> \<not> gameOver r}"
    using recover_finds_unfinished [of MemoryGameStateStore "[OpCreate 7 8, OpCreate 9 10, OpFinish 1 8]" ?s]
    by (auto simp: MemoryGameStateStore_def two_players_def)
  have "mem_values ?s activeRoomIdsKey = Some (JArray [JInt 2])"
    by (simp add: pvp_step_def createRoom_def pvp_finish_def loadLocked_def retire_def mem_load_def mem_replace_def MemoryGameStateStore_def
        json_elems_def fromSnapshot_snapshot GameRoom_def Let_def)
  then have "set ids = {2}" using 1(1,4) by (auto simp: svc_rel_def)
  then show ?thesis using 1(2,3) by (metis distinct_card card.empty card_insert_disjoint empty_iff finite.emptyI length_map One_nat_def)
qed

end
