(* ===== verification/AiGame.thy ===== *)
theory AiGame
  imports GameRoom
begin

text \<open>
  \<open>GomokuServer/src/AiGame.cpp\<close> and \<open>include/AiGame.h\<close>: a game against the computer, who plays white.

  The loops over the board go through the list \<open>scan\<close> of its cells in the order of the source. \<open>getBestMove\<close> tries
  stones on the board itself and takes them back, so it returns the board with the cell. The number \<open>rand()\<close>
  returns is an argument.
\<close>

section \<open>State\<close>

definition EMPTY :: string where "EMPTY = ''empty''"
definition AI_PLAYER :: string where "AI_PLAYER = ''white''"
definition HUMAN_PLAYER :: string where "HUMAN_PLAYER = ''black''"

record aiGame =
  ai_gameOver :: bool
  ai_userId :: int
  ai_moveCount :: int
  ai_winner :: string
  ai_lastMove :: "int \<times> int"
  ai_board :: board

definition AiGame :: "int \<Rightarrow> aiGame" where
  "AiGame userId = \<lparr>ai_gameOver = False, ai_userId = userId, ai_moveCount = 0, ai_winner = ''none'', ai_lastMove = (-1, -1),
     ai_board = replicate 15 (replicate 15 EMPTY)\<rparr>"

definition ai_isDraw :: "aiGame \<Rightarrow> bool" where
  "ai_isDraw g \<longleftrightarrow> ai_moveCount g \<ge> BOARD_SIZE * BOARD_SIZE"

definition ai_isValidMove :: "int \<Rightarrow> int \<Rightarrow> aiGame \<Rightarrow> bool result" where
  "ai_isValidMove x y g =
     (if x < 0 \<or> x \<ge> BOARD_SIZE \<or> y < 0 \<or> y \<ge> BOARD_SIZE then Inr False
      else rbind (board_get (ai_board g) x y) (\<lambda>c.
        if c \<noteq> EMPTY then Inr False
        else if ai_gameOver g \<or> ai_isDraw g then Inr False else Inr True))"

definition humanMove :: "int \<Rightarrow> int \<Rightarrow> aiGame \<Rightarrow> (bool \<times> aiGame) result" where
  "humanMove x y g =
     rbind (ai_isValidMove x y g) (\<lambda>valid.
     if \<not> valid then Inr (False, g)
     else
       rbind (board_set (ai_board g) x y HUMAN_PLAYER) (\<lambda>b.
       let g1 = g\<lparr>ai_board := b, ai_moveCount := ai_moveCount g + 1, ai_lastMove := (x, y)\<rparr> in
       rbind (checkWin (ai_board g1) x y HUMAN_PLAYER) (\<lambda>win.
       Inr (True, if win then g1\<lparr>ai_gameOver := True, ai_winner := ''human''\<rparr> else g1))))"

section \<open>Choosing a move\<close>

definition scan :: "(int \<times> int) list" where
  "scan = concat (map (\<lambda>r. map (\<lambda>c. (r, c)) [0..BOARD_SIZE - 1]) [0..BOARD_SIZE - 1])"

text \<open>Step 1: a cell with which the computer wins, or with which the player would.\<close>

fun attackScan :: "(int \<times> int) list \<Rightarrow> board \<Rightarrow> ((int \<times> int) option \<times> board) result" where
  "attackScan [] b = Inr (None, b)"
| "attackScan ((r, c) # rest) b =
     rbind (board_get b r c) (\<lambda>v.
     if v \<noteq> EMPTY then attackScan rest b
     else
       rbind (board_set b r c AI_PLAYER) (\<lambda>b1.
       rbind (checkWin b1 r c AI_PLAYER) (\<lambda>win.
       if win then Inr (Some (r, c), b1)
       else
         rbind (board_set b1 r c EMPTY) (\<lambda>b2.
         rbind (board_set b2 r c HUMAN_PLAYER) (\<lambda>b3.
         rbind (checkWin b3 r c HUMAN_PLAYER) (\<lambda>lose.
         if lose then rbind (board_set b3 r c AI_PLAYER) (\<lambda>b4. Inr (Some (r, c), b4))
         else rbind (board_set b3 r c EMPTY) (\<lambda>b5. attackScan rest b5)))))))"

text \<open>How many of the next two cells in each direction are the player's.\<close>

definition threatIn :: "board \<Rightarrow> int \<Rightarrow> int \<Rightarrow> int \<times> int \<Rightarrow> int result" where
  "threatIn b r c d =
     foldl (\<lambda>acc i. rbind acc (\<lambda>count.
        let nr = r + i * fst d; nc = c + i * snd d in
        if nr \<ge> 0 \<and> nr < BOARD_SIZE \<and> nc \<ge> 0 \<and> nc < BOARD_SIZE
        then rbind (board_get b nr nc) (\<lambda>v. Inr (if v = HUMAN_PLAYER then count + 1 else count))
        else Inr count)) (Inr 1) [1, 2]"

definition evaluateThreat :: "board \<Rightarrow> int \<Rightarrow> int \<Rightarrow> int result" where
  "evaluateThreat b r c =
     foldl (\<lambda>acc d. rbind acc (\<lambda>threat. rbind (threatIn b r c d) (\<lambda>count. Inr (threat + count)))) (Inr 0) directions"

fun threatScan :: "(int \<times> int) list \<Rightarrow> board \<Rightarrow> int \<Rightarrow> int \<times> int \<Rightarrow> (int \<times> int) result" where
  "threatScan [] b maxThreat bestMove = Inr bestMove"
| "threatScan ((r, c) # rest) b maxThreat bestMove =
     rbind (board_get b r c) (\<lambda>v.
     if v \<noteq> EMPTY then threatScan rest b maxThreat bestMove
     else rbind (evaluateThreat b r c) (\<lambda>level.
       if level > maxThreat then threatScan rest b level (r, c) else threatScan rest b maxThreat bestMove))"

definition neighbours :: "(int \<times> int) list" where
  "neighbours = [(1, 0), (-1, 0), (0, 1), (0, -1), (1, 1), (-1, -1), (1, -1), (-1, 1)]"

fun nearLoop :: "board \<Rightarrow> int \<Rightarrow> int \<Rightarrow> (int \<times> int) list \<Rightarrow> bool result" where
  "nearLoop b r c [] = Inr False"
| "nearLoop b r c (d # ds) =
     (let nr = r + fst d; nc = c + snd d in
      if nr \<ge> 0 \<and> nr < BOARD_SIZE \<and> nc \<ge> 0 \<and> nc < BOARD_SIZE
      then rbind (board_get b nr nc) (\<lambda>v. if v \<noteq> EMPTY then Inr True else nearLoop b r c ds)
      else nearLoop b r c ds)"

definition isNearOccupied :: "board \<Rightarrow> int \<Rightarrow> int \<Rightarrow> bool result" where
  "isNearOccupied b r c = nearLoop b r c neighbours"

fun nearCells :: "(int \<times> int) list \<Rightarrow> board \<Rightarrow> (int \<times> int) list result" where
  "nearCells [] b = Inr []"
| "nearCells ((r, c) # rest) b =
     rbind (board_get b r c) (\<lambda>v.
     rbind (if v = EMPTY then isNearOccupied b r c else Inr False) (\<lambda>near.
     rbind (nearCells rest b) (\<lambda>cs. Inr (if near then (r, c) # cs else cs))))"

fun firstEmpty :: "(int \<times> int) list \<Rightarrow> board \<Rightarrow> (int \<times> int) option result" where
  "firstEmpty [] b = Inr None"
| "firstEmpty ((r, c) # rest) b = rbind (board_get b r c) (\<lambda>v. if v = EMPTY then Inr (Some (r, c)) else firstEmpty rest b)"

definition takeCell :: "int \<times> int \<Rightarrow> board \<Rightarrow> ((int \<times> int) \<times> board) result" where
  "takeCell m b = rbind (board_set b (fst m) (snd m) AI_PLAYER) (\<lambda>b'. Inr (m, b'))"

definition getBestMove :: "nat \<Rightarrow> board \<Rightarrow> ((int \<times> int) \<times> board) result" where
  "getBestMove rnd b0 =
     rbind (attackScan scan b0) (\<lambda>(found, b).
     case found of Some m \<Rightarrow> Inr (m, b)
     | None \<Rightarrow>
       rbind (threatScan scan b (-1) (-1, -1)) (\<lambda>bestMove.
       if fst bestMove = -1 then
         rbind (nearCells scan b) (\<lambda>near.
         if near \<noteq> [] then takeCell (near ! (rnd mod length near)) b
         else rbind (firstEmpty scan b) (\<lambda>e. case e of Some m \<Rightarrow> takeCell m b | None \<Rightarrow> takeCell bestMove b))
       else takeCell bestMove b))"

definition aiMove :: "nat \<Rightarrow> aiGame \<Rightarrow> aiGame result" where
  "aiMove rnd g =
     (if ai_gameOver g \<or> ai_isDraw g then Inr g
      else
        rbind (getBestMove rnd (ai_board g)) (\<lambda>((x, y), b).
        rbind (board_set b x y AI_PLAYER) (\<lambda>b1.
        let g1 = g\<lparr>ai_board := b1, ai_moveCount := ai_moveCount g + 1, ai_lastMove := (x, y)\<rparr> in
        rbind (checkWin (ai_board g1) x y AI_PLAYER) (\<lambda>win.
        Inr (if win then g1\<lparr>ai_gameOver := True, ai_winner := ''ai''\<rparr> else g1)))))"

section \<open>The choice is legal\<close>

lemma ai_names [simp]: "EMPTY = BOARD_EMPTY" "AI_PLAYER = BOARD_WHITE" "HUMAN_PLAYER = BOARD_BLACK"
  by (simp_all add: EMPTY_def AI_PLAYER_def HUMAN_PLAYER_def BOARD_EMPTY_def BOARD_WHITE_def BOARD_BLACK_def)

lemma scan_cells: "set scan = {(x, y). isInBoard x y}"
  by (force simp: scan_def isInBoard_def BOARD_SIZE_def)

lemma place_place: "place (place b x y c) x y d = place b x y d"
proof (cases "nat x < length b")
  case True
  then show ?thesis by (simp add: place_def)
qed (simp add: place_def list_update_beyond)

lemma place_undo: "board_wf b \<Longrightarrow> isInBoard x y \<Longrightarrow> place b x y (cell b x y) = b"
  by (simp add: place_def cell_def)

text \<open>Putting a stone of the colour there makes five.\<close>

definition wins_at :: "board \<Rightarrow> string \<Rightarrow> int \<times> int \<Rightarrow> bool" where
  "wins_at b p m \<longleftrightarrow> cell b (fst m) (snd m) = BOARD_EMPTY \<and> five_through (place b (fst m) (snd m) p) p (fst m) (snd m)"

lemma try_stone:
  assumes "board_wf b" and "isInBoard r c"
  shows "checkWin (place b r c p) r c p = Inr (five_through (place b r c p) p r c)"
  using assms place_wf cell_place by (intro checkWin_wf) auto

lemma attackScan_wf:
  assumes wf: "board_wf b" and "set cs \<subseteq> {(x, y). isInBoard x y}"
  shows "attackScan cs b = Inr (case find (\<lambda>m. wins_at b BOARD_WHITE m \<or> wins_at b BOARD_BLACK m) cs of
      None \<Rightarrow> (None, b) | Some m \<Rightarrow> (Some m, place b (fst m) (snd m) BOARD_WHITE))"
  using assms(2)
proof (induction cs)
  case (Cons m cs)
  obtain r c where m: "m = (r, c)" by fastforce
  with Cons.prems have here: "isInBoard r c" by auto
  note wf' = place_wf [OF wf here]
  have undo: "place b r c BOARD_EMPTY = b" if "cell b r c = BOARD_EMPTY" using place_undo [OF wf here] that by simp
  show ?case
  proof (cases "cell b r c = BOARD_EMPTY")
    case True
    then show ?thesis using Cons undo [OF True]
      by (auto simp: m board_get_wf [OF wf here] board_set_wf [OF wf here] board_set_wf [OF wf' here] try_stone [OF wf here]
          place_place wins_at_def)
  next
    case False
    then show ?thesis using Cons by (simp add: m board_get_wf [OF wf here] wins_at_def)
  qed
qed simp

lemma threatIn_wf:
  assumes wf: "board_wf b"
  shows "\<exists>n \<ge> 1. threatIn b r c d = Inr n"
proof -
  define step where "step = (\<lambda>acc i. rbind acc (\<lambda>count :: int.
        let nr = r + i * fst d; nc = c + i * snd d in
        if nr \<ge> 0 \<and> nr < BOARD_SIZE \<and> nc \<ge> 0 \<and> nc < BOARD_SIZE
        then rbind (board_get b nr nc) (\<lambda>v. Inr (if v = HUMAN_PLAYER then count + 1 else count)) else Inr count))"
  have step: "\<exists>n' \<ge> n. step (Inr n) i = Inr n'" for n i
    using board_get_wf [OF wf, of "r + i * fst d" "c + i * snd d"] by (auto simp: step_def Let_def isInBoard_def)
  obtain n1 where n1: "n1 \<ge> 1" "step (Inr 1) 1 = Inr n1" using step by blast
  obtain n2 where n2: "n2 \<ge> n1" "step (Inr n1) 2 = Inr n2" using step by blast
  have "threatIn b r c d = step (step (Inr 1) 1) 2" by (simp add: threatIn_def step_def)
  then show ?thesis using n1 n2 by auto
qed

lemma evaluateThreat_wf:
  assumes wf: "board_wf b"
  shows "\<exists>n \<ge> 0. evaluateThreat b r c = Inr n"
proof -
  have "\<exists>m \<ge> 0. foldl (\<lambda>acc d. rbind acc (\<lambda>threat. rbind (threatIn b r c d) (\<lambda>count. Inr (threat + count)))) (Inr n) ds = Inr m"
    if "n \<ge> 0" for n ds
    using that
  proof (induction ds arbitrary: n)
    case (Cons d ds)
    obtain k where "k \<ge> 1" "threatIn b r c d = Inr k" using threatIn_wf [OF wf] by blast
    then show ?case using Cons.IH [of "n + k"] Cons.prems by simp
  qed simp
  then show ?thesis by (simp add: evaluateThreat_def)
qed

text \<open>An empty cell always beats the initial score of -1, so the later steps are never needed.\<close>

lemma threatScan_wf:
  assumes wf: "board_wf b" and "set cs \<subseteq> {(x, y). isInBoard x y}"
    and "(best = (-1, -1) \<and> score = -1) \<or> (isInBoard (fst best) (snd best) \<and> cell b (fst best) (snd best) = BOARD_EMPTY)"
  shows "\<exists>m. threatScan cs b score best = Inr m \<and>
    (isInBoard (fst m) (snd m) \<and> cell b (fst m) (snd m) = BOARD_EMPTY \<or> m = best \<and> (\<forall>(x, y) \<in> set cs. cell b x y \<noteq> BOARD_EMPTY))"
  using assms(2,3)
proof (induction cs arbitrary: score best)
  case (Cons m cs)
  obtain r c where m: "m = (r, c)" by fastforce
  with Cons.prems have here: "isInBoard r c" by auto
  show ?case
  proof (cases "cell b r c = BOARD_EMPTY")
    case False
    then show ?thesis using Cons.IH [of best score] Cons.prems by (auto simp: m board_get_wf [OF wf here])
  next
    case True
    obtain n where n: "n \<ge> 0" "evaluateThreat b r c = Inr n" using evaluateThreat_wf [OF wf] by blast
    show ?thesis
    proof (cases "n > score")
      case True
      then show ?thesis using Cons.IH [of "(r, c)" n] Cons.prems(1) here n \<open>cell b r c = BOARD_EMPTY\<close>
        by (auto simp: m board_get_wf [OF wf here])
    next
      case False
      then have "isInBoard (fst best) (snd best) \<and> cell b (fst best) (snd best) = BOARD_EMPTY" using Cons.prems(2) n(1) by auto
      then show ?thesis using Cons.IH [of best score] Cons.prems(1) False n \<open>cell b r c = BOARD_EMPTY\<close>
        by (auto simp: m board_get_wf [OF wf here])
    qed
  qed
qed auto

definition critical :: "board \<Rightarrow> int \<times> int \<Rightarrow> bool" where
  "critical b m \<longleftrightarrow> wins_at b BOARD_WHITE m \<or> wins_at b BOARD_BLACK m"

lemma getBestMove_wf:
  assumes wf: "board_wf b" and free: "isInBoard u v" "cell b u v = BOARD_EMPTY"
  shows "\<exists>x y. getBestMove rnd b = Inr ((x, y), place b x y BOARD_WHITE) \<and> isInBoard x y \<and> cell b x y = BOARD_EMPTY \<and>
    (\<forall>m. find (critical b) scan = Some m \<longrightarrow> (x, y) = m)"
proof -
  have at: "attackScan scan b = Inr (case find (critical b) scan of None \<Rightarrow> (None, b)
      | Some m \<Rightarrow> (Some m, place b (fst m) (snd m) BOARD_WHITE))"
    using attackScan_wf [OF wf, of scan] by (simp add: scan_cells critical_def [abs_def])
  show ?thesis
  proof (cases "find (critical b) scan")
    case (Some m)
    then have "m \<in> set scan" "critical b m" by (auto simp: find_Some_iff)
    then have "isInBoard (fst m) (snd m)" "cell b (fst m) (snd m) = BOARD_EMPTY" by (auto simp: scan_cells critical_def wins_at_def)
    then show ?thesis using at Some by (intro exI [of _ "fst m"] exI [of _ "snd m"]) (simp add: getBestMove_def)
  next
    case None
    obtain m where m: "threatScan scan b (-1) (-1, -1) = Inr m"
      "isInBoard (fst m) (snd m) \<and> cell b (fst m) (snd m) = BOARD_EMPTY \<or> m = (-1, -1) \<and> (\<forall>(x, y) \<in> set scan. cell b x y \<noteq> BOARD_EMPTY)"
      using threatScan_wf [OF wf, of scan "(-1, -1)" "-1"] by (auto simp: scan_cells)
    then have here: "isInBoard (fst m) (snd m)" "cell b (fst m) (snd m) = BOARD_EMPTY" using free by (auto simp: scan_cells)
    have "fst m \<noteq> -1" using here(1) by (auto simp: isInBoard_def)
    then show ?thesis using at None m(1) here board_set_wf [OF wf here(1)]
      by (intro exI [of _ "fst m"] exI [of _ "snd m"]) (simp add: getBestMove_def takeCell_def)
  qed
qed

section \<open>The invariant\<close>

definition ai_ok :: "aiGame \<Rightarrow> bool" where
  "ai_ok g \<longleftrightarrow> board_ok (ai_board g) \<and> ai_moveCount g = int (occupied (ai_board g)) \<and>
     (if ai_gameOver g
      then ai_winner g = ''human'' \<and> has_five (ai_board g) BOARD_BLACK \<or> ai_winner g = ''ai'' \<and> has_five (ai_board g) BOARD_WHITE
      else ai_winner g = ''none'' \<and> no_five (ai_board g))"

lemma AiGame_ok: "ai_ok (AiGame u)"
proof -
  have "replicate 15 (replicate 15 EMPTY) = empty_board" by (simp add: empty_board_def)
  then show ?thesis
    by (simp add: ai_ok_def AiGame_def board_ok_def cell_empty_board empty_board_counts no_five_def)
qed

lemma place_no_five:
  assumes "board_wf b" and "isInBoard x y" and "cell b x y = BOARD_EMPTY" and "no_five b" and "p \<in> {BOARD_BLACK, BOARD_WHITE}"
    and "\<not> five_through (place b x y p) p x y"
  shows "no_five (place b x y p)"
  using assms place_five [OF assms(1,2)] place_other_five [OF assms(1,2)] by (auto simp: no_five_def)

lemma ai_ok_place:
  assumes ok: "ai_ok g" and on: "\<not> ai_gameOver g" and here: "isInBoard x y" "cell (ai_board g) x y = BOARD_EMPTY"
    and p: "p = BOARD_BLACK \<and> w = ''human'' \<or> p = BOARD_WHITE \<and> w = ''ai''"
  defines "g1 \<equiv> g\<lparr>ai_board := place (ai_board g) x y p, ai_moveCount := ai_moveCount g + 1, ai_lastMove := (x, y)\<rparr>"
  shows "ai_ok (if five_through (ai_board g1) p x y then g1\<lparr>ai_gameOver := True, ai_winner := w\<rparr> else g1)"
proof -
  from ok on have g: "board_ok (ai_board g)" "ai_moveCount g = int (occupied (ai_board g))" "ai_winner g = ''none''" "no_five (ai_board g)"
    by (auto simp: ai_ok_def)
  then have wf: "board_wf (ai_board g)" by (simp add: board_ok_def)
  have pc: "p \<in> {BOARD_EMPTY, BOARD_BLACK, BOARD_WHITE}" "p \<in> {BOARD_BLACK, BOARD_WHITE}" "p \<noteq> BOARD_EMPTY" using p by auto
  have b: "board_ok (place (ai_board g) x y p)" by (rule board_ok_place [OF g(1) here(1) pc(1)])
  have cnt: "occupied (place (ai_board g) x y p) = occupied (ai_board g) + 1" using place_occupied [OF wf here pc(3)] .
  show ?thesis
  proof (cases "five_through (place (ai_board g) x y p) p x y")
    case True
    then show ?thesis using five_through_has [OF True] p b cnt g by (auto simp: ai_ok_def g1_def)
  next
    case False
    then show ?thesis using place_no_five [OF wf here g(4) pc(2) False] b cnt g on by (simp add: ai_ok_def g1_def)
  qed
qed

section \<open>Moves\<close>

lemma humanMove_wf:
  assumes ok: "ai_ok g"
  shows "\<exists>g'. humanMove x y g = Inr (isInBoard x y \<and> cell (ai_board g) x y = BOARD_EMPTY \<and> \<not> ai_gameOver g, g') \<and> ai_ok g' \<and>
    (if isInBoard x y \<and> cell (ai_board g) x y = BOARD_EMPTY \<and> \<not> ai_gameOver g
     then ai_moveCount g' = ai_moveCount g + 1 \<and> ai_board g' = place (ai_board g) x y BOARD_BLACK else g' = g)"
proof -
  have wf: "board_wf (ai_board g)" and cnt: "ai_moveCount g = int (occupied (ai_board g))" using ok by (simp_all add: ai_ok_def board_ok_def)
  have draw: "\<not> ai_isDraw g" if "isInBoard x y" "cell (ai_board g) x y = BOARD_EMPTY"
  proof
    assume "ai_isDraw g"
    then have "occupied (ai_board g) = 225" using cnt occupied_bound [of "ai_board g"] by (simp add: ai_isDraw_def BOARD_SIZE_def)
    then show False using occupied_full that by blast
  qed
  have valid: "ai_isValidMove x y g = Inr (isInBoard x y \<and> cell (ai_board g) x y = BOARD_EMPTY \<and> \<not> ai_gameOver g)"
    using board_get_wf [OF wf, of x y] draw by (auto simp: ai_isValidMove_def isInBoard_def)
  show ?thesis
  proof (cases "isInBoard x y \<and> cell (ai_board g) x y = BOARD_EMPTY \<and> \<not> ai_gameOver g")
    case True
    let ?g1 = "g\<lparr>ai_board := place (ai_board g) x y BOARD_BLACK, ai_moveCount := ai_moveCount g + 1, ai_lastMove := (x, y)\<rparr>"
    let ?g = "if five_through (ai_board ?g1) BOARD_BLACK x y then ?g1\<lparr>ai_gameOver := True, ai_winner := ''human''\<rparr> else ?g1"
    have "ai_ok ?g" by (rule ai_ok_place [OF ok]) (use True in auto)
    moreover have "humanMove x y g = Inr (True, ?g)"
      using True valid board_set_wf [OF wf] try_stone [OF wf, of x y BOARD_BLACK] by (simp add: humanMove_def Let_def)
    ultimately show ?thesis using True by (intro exI [of _ ?g]) auto
  qed (use valid ok in \<open>auto simp: humanMove_def\<close>)
qed

lemma aiMove_wf:
  assumes ok: "ai_ok g"
  shows "\<exists>g'. aiMove rnd g = Inr g' \<and> ai_ok g' \<and>
    (if ai_gameOver g \<or> ai_isDraw g then g' = g
     else \<exists>x y. isInBoard x y \<and> cell (ai_board g) x y = BOARD_EMPTY \<and> ai_board g' = place (ai_board g) x y BOARD_WHITE \<and>
       ai_lastMove g' = (x, y) \<and> ai_moveCount g' = ai_moveCount g + 1 \<and>
       (\<forall>m. find (critical (ai_board g)) scan = Some m \<longrightarrow> (x, y) = m))"
proof (cases "ai_gameOver g \<or> ai_isDraw g")
  case False
  have wf: "board_wf (ai_board g)" and cnt: "ai_moveCount g = int (occupied (ai_board g))" using ok by (simp_all add: ai_ok_def board_ok_def)
  have "occupied (ai_board g) < 225" using False cnt by (simp add: ai_isDraw_def BOARD_SIZE_def)
  then obtain u v where "isInBoard u v" "cell (ai_board g) u v = BOARD_EMPTY" by (rule occupied_less)
  then obtain x y where m: "getBestMove rnd (ai_board g) = Inr ((x, y), place (ai_board g) x y BOARD_WHITE)"
    "isInBoard x y" "cell (ai_board g) x y = BOARD_EMPTY" "\<forall>m. find (critical (ai_board g)) scan = Some m \<longrightarrow> (x, y) = m"
    using getBestMove_wf [OF wf] by blast
  let ?g1 = "g\<lparr>ai_board := place (ai_board g) x y BOARD_WHITE, ai_moveCount := ai_moveCount g + 1, ai_lastMove := (x, y)\<rparr>"
  let ?g = "if five_through (ai_board ?g1) BOARD_WHITE x y then ?g1\<lparr>ai_gameOver := True, ai_winner := ''ai''\<rparr> else ?g1"
  have "ai_ok ?g" by (rule ai_ok_place [OF ok]) (use False m in auto)
  moreover have "aiMove rnd g = Inr ?g"
    using False m(1) board_set_wf [OF place_wf [OF wf m(2)] m(2)] try_stone [OF wf m(2), of BOARD_WHITE]
    by (simp add: aiMove_def Let_def place_place)
  ultimately show ?thesis using False m(2-4) by (intro exI [of _ ?g]) auto
qed (use ok in \<open>auto simp: aiMove_def\<close>)

text \<open>A game: the player's attempts, each followed by the computer's turn, as \<open>AiGameMoveHandler\<close> plays them.\<close>

inductive ai_played :: "int \<Rightarrow> aiGame \<Rightarrow> bool" for u where
  start: "ai_played u (AiGame u)"
| human: "ai_played u g \<Longrightarrow> humanMove x y g = Inr (done, g') \<Longrightarrow> ai_played u g'"
| computer: "ai_played u g \<Longrightarrow> aiMove rnd g = Inr g' \<Longrightarrow> ai_played u g'"

lemma ai_played_ok: "ai_played u g \<Longrightarrow> ai_ok g"
proof (induction rule: ai_played.induct)
  case (human g x y r g')
  then show ?case using humanMove_wf [of g x y] by auto
next
  case (computer g rnd g')
  then show ?case using aiMove_wf [of g rnd] by auto
qed (rule AiGame_ok)

text \<open>In every state a game against the computer reaches, \<open>aiMove\<close> returns: it never indexes outside the board, never
  overwrites a stone, and puts exactly one white stone on a free cell unless the game is over or the board full.
  The state again has the counted stones, the winner with five in a row, or no winner and no five.\<close>

theorem ai_moves_legally:
  assumes "ai_played u g"
  shows "\<exists>g'. aiMove rnd g = Inr g' \<and> ai_ok g' \<and> ai_moveCount g' \<le> 225 \<and>
    (if ai_gameOver g \<or> ai_isDraw g then g' = g
     else \<exists>x y. isInBoard x y \<and> cell (ai_board g) x y = BOARD_EMPTY \<and> ai_moveCount g' = ai_moveCount g + 1 \<and>
       (\<forall>a b. isInBoard a b \<longrightarrow> cell (ai_board g') a b = (if (a, b) = (x, y) then AI_PLAYER else cell (ai_board g) a b)))"
proof -
  have ok: "ai_ok g" by (rule ai_played_ok [OF assms])
  then have wf: "board_wf (ai_board g)" by (simp add: ai_ok_def board_ok_def)
  obtain g' where g': "aiMove rnd g = Inr g'" "ai_ok g'"
    "if ai_gameOver g \<or> ai_isDraw g then g' = g
     else \<exists>x y. isInBoard x y \<and> cell (ai_board g) x y = BOARD_EMPTY \<and> ai_board g' = place (ai_board g) x y BOARD_WHITE \<and>
       ai_lastMove g' = (x, y) \<and> ai_moveCount g' = ai_moveCount g + 1 \<and>
       (\<forall>m. find (critical (ai_board g)) scan = Some m \<longrightarrow> (x, y) = m)"
    using aiMove_wf [OF ok] by blast
  have "ai_moveCount g' \<le> 225" using g'(2) occupied_bound [of "ai_board g'"] by (simp add: ai_ok_def)
  show ?thesis
  proof (cases "ai_gameOver g \<or> ai_isDraw g")
    case True
    with g' \<open>ai_moveCount g' \<le> 225\<close> show ?thesis by simp
  next
    case False
    with g'(3) obtain x y where "isInBoard x y" "cell (ai_board g) x y = BOARD_EMPTY" "ai_board g' = place (ai_board g) x y BOARD_WHITE"
      "ai_moveCount g' = ai_moveCount g + 1" by auto
    with g' \<open>ai_moveCount g' \<le> 225\<close> False cell_place [OF wf] show ?thesis
      by (intro exI [of _ g'] conjI) (simp_all, intro exI [of _ x] exI [of _ y], simp)
  qed
qed

theorem ai_moves_legally_witness:
  "ai_played 5 (AiGame 5) \<and> (\<exists>g'. aiMove 0 (AiGame 5) = Inr g' \<and> ai_moveCount g' = 1)"
proof -
  have p: "ai_played 5 (AiGame 5)" by (rule ai_played.start)
  have "\<not> ai_gameOver (AiGame 5)" "\<not> ai_isDraw (AiGame 5)" "ai_moveCount (AiGame 5) = 0" by code_simp+
  with ai_moves_legally [OF p, of 0] p show ?thesis by auto
qed

text \<open>The computer's strategy: if some free cell would complete five in a row for the computer or for the player, the
  computer takes the first such cell in the order in which the board is searched.\<close>

theorem ai_takes_critical_cell:
  assumes "ai_played u g" and "\<not> ai_gameOver g" and "find (critical (ai_board g)) scan = Some m"
  shows "\<exists>g'. aiMove rnd g = Inr g' \<and> ai_lastMove g' = m \<and> cell (ai_board g') (fst m) (snd m) = AI_PLAYER"
proof -
  have ok: "ai_ok g" by (rule ai_played_ok [OF assms(1)])
  then have wf: "board_wf (ai_board g)" and cnt: "ai_moveCount g = int (occupied (ai_board g))" by (simp_all add: ai_ok_def board_ok_def)
  have m: "isInBoard (fst m) (snd m)" "cell (ai_board g) (fst m) (snd m) = BOARD_EMPTY"
    using assms(3) by (auto simp: find_Some_iff scan_cells critical_def wins_at_def dest!: nth_mem)
  have "\<not> ai_isDraw g"
  proof
    assume "ai_isDraw g"
    then have "occupied (ai_board g) = 225" using cnt occupied_bound [of "ai_board g"] by (simp add: ai_isDraw_def BOARD_SIZE_def)
    then show False using occupied_full m by blast
  qed
  with aiMove_wf [OF ok, of rnd] assms(2,3) m show ?thesis using cell_place [OF wf] by fastforce
qed


text \<open>The player's first four stones in a row, without the computer's answers.\<close>

definition four_stones :: "aiGame result" where
  "four_stones = foldl (\<lambda>acc y. rbind acc (\<lambda>g. rbind (humanMove 0 y g) (\<lambda>(_, g'). Inr g'))) (Inr (AiGame 5)) [0, 1, 2, 3]"

lemma four_stones_played: "four_stones = Inr g \<Longrightarrow> ai_played 5 g"
proof -
  have "foldl (\<lambda>acc y. rbind acc (\<lambda>g. rbind (humanMove 0 y g) (\<lambda>(_, g'). Inr g'))) (Inr g0) ys = Inr g \<Longrightarrow> ai_played 5 g0 \<Longrightarrow> ai_played 5 g" for g0 ys
  proof (induction ys arbitrary: g0)
    case (Cons y ys)
    show ?case
    proof (cases "humanMove 0 y g0")
      case (Inl e)
      have "foldl (\<lambda>acc y. rbind acc (\<lambda>g. rbind (humanMove 0 y g) (\<lambda>(_, g'). Inr g'))) (Inl e) zs = Inl e" for zs
        by (induction zs) auto
      with Inl Cons.prems(1) show ?thesis by simp
    next
      case (Inr r)
      then show ?thesis using Cons ai_played.human [OF Cons.prems(2)] by (cases r) auto
    qed
  qed simp
  then show "four_stones = Inr g \<Longrightarrow> ai_played 5 g" unfolding four_stones_def using ai_played.start by blast
qed

theorem ai_takes_critical_cell_witness:
  "\<exists>g m g'. four_stones = Inr g \<and> find (critical (ai_board g)) scan = Some m \<and> aiMove 0 g = Inr g' \<and> ai_lastMove g' = m"
proof -
  have run: "case four_stones of Inl _ \<Rightarrow> False | Inr g \<Rightarrow> \<not> ai_gameOver g \<and> cell (ai_board g) 0 4 = BOARD_EMPTY \<and>
      checkWin (place (ai_board g) 0 4 BOARD_BLACK) 0 4 BOARD_BLACK = Inr True" by code_simp
  obtain g where g1: "four_stones = Inr g"
  proof (cases four_stones)
    case (Inl e)
    from run show thesis unfolding Inl by simp
  qed (rule that)
  from run have g: "four_stones = Inr g" "\<not> ai_gameOver g" "cell (ai_board g) 0 4 = BOARD_EMPTY"
    "checkWin (place (ai_board g) 0 4 BOARD_BLACK) 0 4 BOARD_BLACK = Inr True" unfolding g1 by simp_all
  have wf: "board_wf (ai_board g)" using ai_played_ok [OF four_stones_played [OF g(1)]] by (simp add: ai_ok_def board_ok_def)
  have "isInBoard 0 4" by code_simp
  then have "five_through (place (ai_board g) 0 4 BOARD_BLACK) BOARD_BLACK 0 4" using try_stone [OF wf] g(4) by simp
  then have crit: "critical (ai_board g) (0, 4)" using g(3) by (simp add: critical_def wins_at_def)
  have "(0, 4) \<in> set scan" by (simp add: scan_cells isInBoard_def BOARD_SIZE_def)
  then obtain m where m: "find (critical (ai_board g)) scan = Some m" using crit by (metis find_None_iff not_Some_eq)
  from ai_takes_critical_cell [OF four_stones_played [OF g(1)] g(2) m, of 0] g(1) m show ?thesis by blast
qed

end
