(* ===== verification/WebSocket.thy ===== *)
theory WebSocket
  imports Prelude "HOL-Library.Word"
begin

unbundle bit_operations_syntax

text \<open>
  WebSocket frames (\<open>WebSocketFrame.cpp\<close>) and the per-connection parser (\<open>WebSocketContext.cpp\<close>). The wire is a list of
  bytes. Lengths are natural numbers below \<open>2 ^ 64\<close>, the sum \<open>offset + payloadLen\<close> wraps as \<open>size_t\<close> does. The masking key
  is copied between the wire and memory as it is, so it is the list of its four bytes.
\<close>

type_synonym byte = "8 word"

section \<open>Bytes and lengths\<close>

definition be_bytes :: "nat \<Rightarrow> nat \<Rightarrow> byte list" where
  "be_bytes n k = map (\<lambda>i. of_nat (k div 256 ^ i)) (rev [0..<n])"

definition be_val :: "byte list \<Rightarrow> nat" where
  "be_val bs = foldl (\<lambda>acc b. acc * 256 + unat b) 0 bs"

lemma be_val_Cons: "be_val (b # bs) = unat b * 256 ^ length bs + be_val bs"
proof -
  have "foldl (\<lambda>acc b. acc * 256 + unat b) a bs = a * 256 ^ length bs + be_val bs" for a :: nat and bs :: "byte list"
    unfolding be_val_def
  proof (induction bs arbitrary: a)
    case (Cons b bs)
    let ?f = "\<lambda>acc (b :: byte). acc * 256 + unat b"
    have "foldl ?f a (b # bs) = foldl ?f (a * 256 + unat b) bs" by simp
    also have "\<dots> = (a * 256 + unat b) * 256 ^ length bs + foldl ?f 0 bs" by (rule Cons.IH)
    also have "\<dots> = a * 256 ^ length (b # bs) + (unat b * 256 ^ length bs + foldl ?f 0 bs)" by (simp add: distrib_right)
    also have "unat b * 256 ^ length bs + foldl ?f 0 bs = foldl ?f 0 (b # bs)" using Cons.IH [of "unat b"] by simp
    finally show ?case .
  qed simp
  from this [of "unat b" bs] show ?thesis by (simp add: be_val_def)
qed

lemma be_bytes_simps [simp]: "be_bytes 0 k = []" "be_bytes (Suc n) k = of_nat (k div 256 ^ n) # be_bytes n k" "length (be_bytes n k) = n"
  by (simp_all add: be_bytes_def)

lemma be_val_bytes: "be_val (be_bytes n k) = k mod 256 ^ n"
proof (induction n)
  case (Suc n)
  have "unat (of_nat (k div 256 ^ n) :: byte) = k div 256 ^ n mod 256" by (simp add: unat_of_nat)
  moreover have "k mod (256 ^ n * 256) = 256 ^ n * (k div 256 ^ n mod 256) + k mod 256 ^ n" by (rule mod_mult2_eq)
  ultimately show ?case by (simp add: be_val_Cons Suc mult.commute)
qed (simp add: be_val_def)

section \<open>Frames\<close>

definition OpContinuation :: byte where "OpContinuation = 0x0"
definition OpText :: byte where "OpText = 0x1"
definition OpBinary :: byte where "OpBinary = 0x2"
definition OpClose :: byte where "OpClose = 0x8"
definition OpPing :: byte where "OpPing = 0x9"
definition OpPong :: byte where "OpPong = 0xA"

record webSocketFrame =
  fin :: bool
  opCode :: byte
  mask :: bool
  payloadLen :: nat
  maskingKey :: "byte list"
  payload :: "byte list"

definition WebSocketFrame :: webSocketFrame where
  "WebSocketFrame = \<lparr>fin = True, opCode = OpText, mask = False, payloadLen = 0, maskingKey = [0, 0, 0, 0], payload = []\<rparr>"

text \<open>\<open>payload[i] ^= maskBytes[i % 4]\<close> over the payload.\<close>

definition applyMask :: "byte list \<Rightarrow> byte list \<Rightarrow> byte list" where
  "applyMask key p = map (\<lambda>i. (p ! i) XOR (key ! (i mod 4))) [0..<length p]"

text \<open>The length field: its value and the offset behind it, unless more bytes are needed.\<close>

definition frameLength :: "byte list \<Rightarrow> (nat \<times> nat) option" where
  "frameLength data =
     (let len = length data; n = unat (data ! 1 AND 0x7F) in
      if n = 126 then (if len < 4 then None else Some (be_val (take 2 (drop 2 data)), 4))
      else if n = 127 then (if len < 10 then None else Some (be_val (take 8 (drop 2 data)), 10))
      else Some (n, 2))"

definition parseFrame :: "byte list \<Rightarrow> webSocketFrame option result" where
  "parseFrame data =
     (let len = length data in
      if len < 2 then Inr None
      else
        let frame = WebSocketFrame\<lparr>fin := (drop_bit 7 (data ! 0) AND 0x01 \<noteq> 0), opCode := data ! 0 AND 0x0F,
              mask := (drop_bit 7 (data ! 1) AND 0x01 \<noteq> 0)\<rparr> in
        case frameLength data of
          None \<Rightarrow> Inr None
        | Some (n, offset) \<Rightarrow>
            if mask frame \<and> len < offset + 4 then Inr None
            else
              let maskKey = (if mask frame then take 4 (drop offset data) else [0, 0, 0, 0]);
                  off = (if mask frame then offset + 4 else offset) in
              if len < (off + n) mod 2 ^ 64 then Inr None
              else if n > 2 ^ 63 - 1 then Inl (Uncaught ''length_error'')
              else
                let p = take n (drop off data) in
                Inr (Some (frame\<lparr>payloadLen := n, maskingKey := maskKey, payload := (if mask frame then applyMask maskKey p else p)\<rparr>)))"

text \<open>The random key is an argument.\<close>

definition createFrame :: "byte list \<Rightarrow> byte \<Rightarrow> byte list \<Rightarrow> bool \<Rightarrow> webSocketFrame" where
  "createFrame key oc p m =
     (let frame = WebSocketFrame\<lparr>fin := True, opCode := oc, mask := m, payloadLen := length p\<rparr> in
      if m then frame\<lparr>maskingKey := key, payload := applyMask key p\<rparr> else frame\<lparr>payload := p\<rparr>)"

definition encodeToString :: "webSocketFrame \<Rightarrow> byte list" where
  "encodeToString frame =
     (let byte0 = (if fin frame then 0x80 else 0x00) OR (opCode frame AND 0x0F);
          maskBit = (if mask frame then 0x80 else 0x00 :: byte);
          len = length (payload frame);
          header = (if len \<le> 125 then [maskBit OR of_nat len]
                    else if len \<le> 0xFFFF then (maskBit OR 126) # be_bytes 2 len
                    else (maskBit OR 127) # be_bytes 8 len) in
      [byte0] @ header @ (if mask frame then maskingKey frame else []) @ payload frame)"

section \<open>The parser of a connection\<close>

datatype webSocketState = WsConnecting | WsOpen | WsClosing | WsClosed

record webSocketContext =
  ws_state :: webSocketState
  currentFrame :: "webSocketFrame option"

definition WebSocketContext :: webSocketContext where
  "WebSocketContext = \<lparr>ws_state = WsConnecting, currentFrame = None\<rparr>"

definition ctx_isOpen :: "webSocketContext \<Rightarrow> bool" where
  "ctx_isOpen ctx \<longleftrightarrow> ws_state ctx = WsOpen"

definition ctx_reset :: "webSocketContext \<Rightarrow> webSocketContext" where
  "ctx_reset ctx = ctx\<lparr>ws_state := WsConnecting, currentFrame := None\<rparr>"

definition ctx_parseFrame :: "byte list \<Rightarrow> webSocketContext \<Rightarrow> (bool \<times> webSocketContext \<times> byte list) result" where
  "ctx_parseFrame buf ctx =
     (if buf = [] then Inr (False, ctx, buf)
      else rbind (parseFrame buf) (\<lambda>found. case found of
          None \<Rightarrow> Inr (False, ctx, buf)
        | Some frame \<Rightarrow>
            let firstLen = buf ! 1 AND 0x7F;
                o1 = (if firstLen = 126 then 2 + 2 else if firstLen = 127 then 2 + 8 else 2);
                hasMask = (drop_bit 7 (buf ! 1) AND 0x01 \<noteq> 0);
                offset = (if hasMask then o1 + 4 else o1) + length (payload frame);
                ctx1 = (if opCode frame = OpClose then ctx\<lparr>ws_state := WsClosing\<rparr> else ctx) in
            Inr (True, ctx1\<lparr>currentFrame := Some frame\<rparr>, drop offset buf)))"

section \<open>Reading back what is written\<close>

lemma applyMask_length [simp]: "length (applyMask key p) = length p"
  by (simp add: applyMask_def)

lemma applyMask_twice [simp]: "applyMask key (applyMask key p) = p"
  by (rule nth_equalityI) (simp_all add: applyMask_def xor.assoc)

text \<open>The bits of the second byte, for both values of the mask bit and all lengths it can hold.\<close>

lemma length_bits_table:
  "\<forall>m. \<forall>n \<in> set [0..<128]. ((if m then 0x80 else 0) OR (of_nat n :: byte)) AND 0x7F = of_nat n \<and>
    (drop_bit 7 ((if m then 0x80 else 0) OR (of_nat n :: byte)) AND 0x01 \<noteq> 0 \<longleftrightarrow> m)"
  by code_simp

lemma opcode_bits_table:
  "\<forall>oc \<in> set (map of_nat [0..<16]). ((0x80 :: byte) OR (oc AND 0x0F)) AND 0x0F = oc \<and> drop_bit 7 ((0x80 :: byte) OR (oc AND 0x0F)) AND 0x01 \<noteq> 0"
  by code_simp


lemma length_bits:
  assumes "n < 128"
  shows "((if m then 0x80 else 0) OR (of_nat n :: byte)) AND 0x7F = of_nat n"
    "drop_bit 7 ((if m then 0x80 else 0) OR (of_nat n :: byte)) AND 0x01 \<noteq> 0 \<longleftrightarrow> m"
    "unat (of_nat n :: byte) = n"
  using length_bits_table assms by (simp_all add: unat_of_nat)

lemma opcode_bits:
  fixes oc :: byte
  assumes "oc < 16"
  shows "((0x80 :: byte) OR (oc AND 0x0F)) AND 0x0F = oc" "drop_bit 7 ((0x80 :: byte) OR (oc AND 0x0F)) AND 0x01 \<noteq> 0"
proof -
  have "unat oc < 16" using assms by (simp add: word_less_nat_alt)
  then have "oc \<in> set (map of_nat [0..<16])" by (auto intro!: image_eqI [of _ _ "unat oc"])
  then show "((0x80 :: byte) OR (oc AND 0x0F)) AND 0x0F = oc" "drop_bit 7 ((0x80 :: byte) OR (oc AND 0x0F)) AND 0x01 \<noteq> 0"
    using opcode_bits_table by blast+
qed

text \<open>The bytes of a created frame before its payload.\<close>

definition lengthField :: "nat \<Rightarrow> nat" where
  "lengthField n = (if n \<le> 125 then n else if n \<le> 0xFFFF then 126 else 127)"

definition lengthExt :: "nat \<Rightarrow> byte list" where
  "lengthExt n = (if n \<le> 125 then [] else if n \<le> 0xFFFF then be_bytes 2 n else be_bytes 8 n)"

lemma encode_created:
  "encodeToString (createFrame key oc p m) = ((0x80 :: byte) OR (oc AND 0x0F)) # ((if m then 0x80 else 0) OR of_nat (lengthField (length p))) #
    lengthExt (length p) @ (if m then key @ applyMask key p else p)"
  by (auto simp: encodeToString_def createFrame_def lengthField_def lengthExt_def Let_def WebSocketFrame_def)

lemma lengthField_less [simp]: "lengthField n < 128"
  by (simp add: lengthField_def)

lemma frameLength_ext:
  assumes "b AND 0x7F = of_nat (lengthField n)" and "n < 2 ^ 64"
  shows "frameLength (a # b # lengthExt n @ ds) = Some (n, 2 + length (lengthExt n))"
proof -
  have "unat (b AND 0x7F) = lengthField n" using assms(1) length_bits(3) [of "lengthField n"] by simp
  then show ?thesis using assms(2) by (auto simp: frameLength_def lengthField_def lengthExt_def be_val_bytes Let_def)
qed

lemma drop_more: "drop i xs = ys @ zs \<Longrightarrow> length ys = n \<Longrightarrow> drop (i + n) xs = zs"
  by (metis add.commute append_eq_conv_conj drop_drop)

lemma drop_parts: "drop (2 + length ext) (b0 # b1 # ext @ ds) = ds" "length key = 4 \<Longrightarrow> drop (2 + length ext + 4) (b0 # b1 # ext @ key @ ds) = ds"
proof -
  show 1: "drop (2 + length ext) (b0 # b1 # ext @ ds) = ds" for ds by simp
  show "drop (2 + length ext + 4) (b0 # b1 # ext @ key @ ds) = ds" if "length key = 4"
    using drop_more [OF 1 [of "key @ ds"] that] .
qed

lemma parse_parts:
  assumes "b0 AND 0x0F = oc" and "drop_bit 7 b0 AND 0x01 \<noteq> 0" and "drop_bit 7 b1 AND 0x01 \<noteq> 0 \<longleftrightarrow> m"
    and "data = b0 # b1 # ext @ (if m then key @ q else q) @ rest" and "frameLength data = Some (length q, 2 + length ext)"
    and "length ext \<le> 8" and "length key = 4" and "length q < 2 ^ 63"
  shows "parseFrame data = Inr (Some \<lparr>fin = True, opCode = oc, mask = m, payloadLen = length q,
    maskingKey = (if m then key else [0, 0, 0, 0]), payload = (if m then applyMask key q else q)\<rparr>)"
proof -
  have small: "(k + length q) mod 2 ^ 64 = k + length q" if "k \<le> 14" for k using that assms(8) by simp
  show ?thesis
  proof (cases m)
    case True
    then have d: "data = b0 # b1 # ext @ key @ q @ rest" using assms(4) by simp
    have "take 4 (drop (2 + length ext) data) = key" "take (length q) (drop (2 + length ext + 4) data) = q"
      unfolding d using drop_parts(1) [of ext b0 b1 "key @ q @ rest"] drop_parts(2) [of key ext b0 b1 "q @ rest"] assms(7) by simp_all
    moreover have "length data = 2 + length ext + 4 + length q + length rest" using d assms(7) by simp
    ultimately show ?thesis using assms True small [of "2 + length ext + 4"] by (simp add: parseFrame_def Let_def WebSocketFrame_def)
  next
    case False
    then have d: "data = b0 # b1 # ext @ q @ rest" using assms(4) by simp
    have "take (length q) (drop (2 + length ext) data) = q"
      unfolding d using drop_parts(1) [of ext b0 b1 "q @ rest"] by simp
    moreover have "length data = 2 + length ext + length q + length rest" using d by simp
    ultimately show ?thesis using assms False small [of "2 + length ext"] by (simp add: parseFrame_def Let_def WebSocketFrame_def)
  qed
qed

lemma parse_created:
  assumes "oc < 16" and "length key = 4" and "length p < 2 ^ 63"
  shows "parseFrame (encodeToString (createFrame key oc p m) @ rest) = Inr (Some \<lparr>fin = True, opCode = oc, mask = m, payloadLen = length p,
    maskingKey = (if m then key else [0, 0, 0, 0]), payload = p\<rparr>)"
proof -
  let ?b1 = "(if m then 0x80 else 0) OR (of_nat (lengthField (length p)) :: byte)"
  let ?q = "if m then applyMask key p else p"
  have d: "encodeToString (createFrame key oc p m) @ rest =
      ((0x80 :: byte) OR (oc AND 0x0F)) # ?b1 # lengthExt (length p) @ (if m then key @ ?q else ?q) @ rest"
    by (simp add: encode_created)
  note bits = length_bits(1,2) [OF lengthField_less, of m "length p"]
  have q: "length ?q = length p" by simp
  have "frameLength (encodeToString (createFrame key oc p m) @ rest) = Some (length ?q, 2 + length (lengthExt (length p)))"
    unfolding d q by (rule frameLength_ext [OF bits(1)]) (use assms(3) in simp)
  moreover have "length (lengthExt (length p)) \<le> 8" by (simp add: lengthExt_def)
  moreover have "length ?q < 2 ^ 63" using assms(3) by simp
  ultimately have "parseFrame (encodeToString (createFrame key oc p m) @ rest) = Inr (Some \<lparr>fin = True, opCode = oc, mask = m, payloadLen = length ?q,
      maskingKey = (if m then key else [0, 0, 0, 0]), payload = (if m then applyMask key ?q else ?q)\<rparr>)"
    using parse_parts [OF opcode_bits [OF assms(1)] bits(2) d _ _ assms(2)] by blast
  then show ?thesis by (cases m) simp_all
qed

lemma ctx_parse_created:
  assumes "oc < 16" and "length key = 4" and "length p < 2 ^ 63"
  shows "ctx_parseFrame (encodeToString (createFrame key oc p m) @ rest) ctx = Inr (True,
    (if oc = OpClose then ctx\<lparr>ws_state := WsClosing\<rparr> else ctx)\<lparr>currentFrame := Some \<lparr>fin = True, opCode = oc, mask = m, payloadLen = length p,
      maskingKey = (if m then key else [0, 0, 0, 0]), payload = p\<rparr>\<rparr>, rest)"
proof -
  let ?b0 = "(0x80 :: byte) OR (oc AND 0x0F)" and ?b1 = "(if m then 0x80 else 0) OR (of_nat (lengthField (length p)) :: byte)"
  let ?d = "encodeToString (createFrame key oc p m) @ rest"
  obtain b0 b1 where b1: "b1 = ?b1" and d: "?d = b0 # b1 # lengthExt (length p) @ (if m then key @ applyMask key p else p) @ rest"
    using encode_created [of key oc p m] by simp
  note bits = length_bits(1,2) [OF lengthField_less, of m "length p", folded b1] length_bits(3) [OF lengthField_less, of "length p"]
  have off: "(if b1 AND 0x7F = 126 then 2 + 2 else if b1 AND 0x7F = 127 then 2 + 8 else 2) = 2 + length (lengthExt (length p))"
  proof -
    have eq: "b1 AND 0x7F = of_nat k \<longleftrightarrow> lengthField (length p) = k" if "k < 128" for k
      using bits(1,3) length_bits(3) [OF that] by metis
    show ?thesis using eq [of 126] eq [of 127] by (auto simp: lengthField_def lengthExt_def split: if_splits)
  qed
  have drp: "drop ((if m then 2 + length (lengthExt (length p)) + 4 else 2 + length (lengthExt (length p))) + length p) ?d = rest"
  proof (cases m)
    case True
    have "drop (2 + length (lengthExt (length p)) + 4) ?d = applyMask key p @ rest"
      unfolding d using True drop_parts(2) [OF assms(2)] by simp
    from drop_more [OF this] True show ?thesis by simp
  next
    case False
    have "drop (2 + length (lengthExt (length p))) ?d = p @ rest"
      unfolding d using False drop_parts(1) [of "lengthExt (length p)" b0 b1 "p @ rest"] by simp
    from drop_more [OF this] False show ?thesis by simp
  qed
  define D where "D = ?d"
  have nth: "D ! 1 = b1" "D \<noteq> []" using d by (simp_all add: D_def)
  note pc = parse_created [OF assms, of m rest, folded D_def]
  show ?thesis unfolding D_def [symmetric] ctx_parseFrame_def pc using nth off drp [folded D_def] bits(2) by (cases m) (simp_all add: Let_def)
qed

section \<open>What the parser reads\<close>

lemma be_val_less: "be_val bs < 256 ^ length bs"
proof (induction bs)
  case (Cons b bs)
  have "unat b < 256" using unsigned_less [of b, where ?'a = nat] by simp
  then have "unat b * 256 ^ length bs \<le> 255 * 256 ^ length bs" by simp
  then have "unat b * 256 ^ length bs + be_val bs < 255 * 256 ^ length bs + 256 ^ length bs" using Cons by linarith
  then show ?case by (simp add: be_val_Cons)
qed (simp add: be_val_def)

lemma frameLength_Some:
  assumes "frameLength data = Some (n, off)" and "2 \<le> length data"
  shows "off \<le> length data \<and> off \<le> 10 \<and> 2 \<le> off \<and> n < 2 ^ 64"
proof -
  have "be_val (take 2 ds) < 2 ^ 64" "be_val (take 8 ds) < 2 ^ 64" for ds
    using be_val_less [of "take 2 ds"] be_val_less [of "take 8 ds"] power_increasing [of "length (take 2 ds)" 8 "256 :: nat"]
      power_increasing [of "length (take 8 ds)" 8 "256 :: nat"] by (simp_all add: min_def split: if_splits)
  moreover have "unat (data ! 1 AND 0x7F) < 2 ^ 64" using unsigned_less [of "data ! 1 AND 0x7F", where ?'a = nat] by simp
  ultimately show ?thesis using assms by (auto simp: frameLength_def Let_def split: if_splits)
qed

lemma frameLength_append: "frameLength data = Some x \<Longrightarrow> 2 \<le> length data \<Longrightarrow> frameLength (data @ ds) = Some x"
  by (auto simp: frameLength_def Let_def nth_append split: if_splits)

text \<open>The size of the header, as \<open>WebSocketContext::parseFrame\<close> recomputes it.\<close>

definition headerSize :: "byte list \<Rightarrow> nat" where
  "headerSize buf =
     (let firstLen = buf ! 1 AND 0x7F; o1 = (if firstLen = 126 then 2 + 2 else if firstLen = 127 then 2 + 8 else 2) in
      if drop_bit 7 (buf ! 1) AND 0x01 \<noteq> 0 then o1 + 4 else o1)"

lemma headerSize_append: "2 \<le> length buf \<Longrightarrow> headerSize (buf @ ds) = headerSize buf"
  by (simp add: headerSize_def nth_append)

lemma firstLen_eq: "k < 256 \<Longrightarrow> unat (b :: byte) = k \<longleftrightarrow> b = of_nat k"
  by (auto simp: unat_of_nat)

lemma frameLength_header:
  assumes "frameLength buf = Some (n, off)"
  shows "headerSize buf = (if drop_bit 7 (buf ! 1) AND 0x01 \<noteq> 0 then off + 4 else off)"
  using assms firstLen_eq [of 126 "buf ! 1 AND 0x7F"] firstLen_eq [of 127 "buf ! 1 AND 0x7F"]
  by (auto simp: frameLength_def headerSize_def Let_def split: if_splits)

text \<open>The frame that a complete buffer holds.\<close>

definition frameOf :: "byte list \<Rightarrow> nat \<Rightarrow> nat \<Rightarrow> webSocketFrame" where
  "frameOf data n off =
     (let m = (drop_bit 7 (data ! 1) AND 0x01 \<noteq> 0); key = (if m then take 4 (drop off data) else [0, 0, 0, 0]); p = take n (drop (headerSize data) data) in
      \<lparr>fin = (drop_bit 7 (data ! 0) AND 0x01 \<noteq> 0), opCode = data ! 0 AND 0x0F, mask = m, payloadLen = n, maskingKey = key, payload = (if m then applyMask key p else p)\<rparr>)"

lemma parseFrame_alt:
  "parseFrame data = (if length data < 2 then Inr None else case frameLength data of None \<Rightarrow> Inr None
     | Some (n, off) \<Rightarrow> if drop_bit 7 (data ! 1) AND 0x01 \<noteq> 0 \<and> length data < off + 4 \<or> length data < (headerSize data + n) mod 2 ^ 64 then Inr None
        else if n > 2 ^ 63 - 1 then Inl (Uncaught ''length_error'') else Inr (Some (frameOf data n off)))"
proof (cases "length data < 2 \<or> frameLength data = None")
  case False
  then obtain n off where fl: "frameLength data = Some (n, off)" by auto
  show ?thesis using False frameLength_header [OF fl] fl
    by (cases "drop_bit 7 (data ! 1) AND 0x01 \<noteq> 0") (simp_all add: parseFrame_def frameOf_def WebSocketFrame_def Let_def)
qed (auto simp: parseFrame_def)

lemma parseFrame_SomeE:
  assumes "parseFrame data = Inr (Some f)"
  obtains n off where "2 \<le> length data" "frameLength data = Some (n, off)" "drop_bit 7 (data ! 1) AND 0x01 \<noteq> 0 \<Longrightarrow> off + 4 \<le> length data"
    "headerSize data + n \<le> length data" "2 \<le> headerSize data" "off \<le> length data" "n \<le> 2 ^ 63 - 1" "headerSize data \<le> 14" "f = frameOf data n off"
proof -
  have len: "2 \<le> length data" using assms by (auto simp: parseFrame_alt split: if_splits)
  obtain n off where fl: "frameLength data = Some (n, off)" using assms by (auto simp: parseFrame_alt split: if_splits option.splits)
  note b = frameLength_Some [OF fl len] and h = frameLength_header [OF fl]
  have r: "drop_bit 7 (data ! 1) AND 0x01 \<noteq> 0 \<Longrightarrow> off + 4 \<le> length data" "(headerSize data + n) mod 2 ^ 64 \<le> length data" "n \<le> 2 ^ 63 - 1" "f = frameOf data n off"
    using assms fl by (auto simp: parseFrame_alt split: if_splits)
  have "headerSize data \<le> 14" "2 \<le> headerSize data" using b h by auto
  moreover from this r(3) have "(headerSize data + n) mod 2 ^ 64 = headerSize data + n" by simp
  ultimately show ?thesis using that [of n off] len fl b r by simp
qed

lemma frameOf_payload: "headerSize data + n \<le> length data \<Longrightarrow> length (payload (frameOf data n off)) = n \<and> payloadLen (frameOf data n off) = n"
  by (simp add: frameOf_def Let_def)

lemma parseFrame_Some:
  assumes "parseFrame data = Inr (Some f)"
  shows "2 \<le> headerSize data \<and> headerSize data + length (payload f) \<le> length data \<and> payloadLen f = length (payload f)"
  using assms by (elim parseFrame_SomeE) (simp add: frameOf_payload)

lemma parseFrame_append:
  assumes "parseFrame data = Inr (Some f)"
  shows "parseFrame (data @ ds) = Inr (Some f)"
  using assms
proof (elim parseFrame_SomeE)
  fix n off
  assume a: "2 \<le> length data" "frameLength data = Some (n, off)" "drop_bit 7 (data ! 1) AND 0x01 \<noteq> 0 \<Longrightarrow> off + 4 \<le> length data"
    "headerSize data + n \<le> length data" "off \<le> length data" "n \<le> 2 ^ 63 - 1" "headerSize data \<le> 14" "f = frameOf data n off"
  have nth: "(data @ ds) ! 0 = data ! 0" "(data @ ds) ! 1 = data ! 1" using a(1) by (auto simp: nth_append)
  have "frameOf (data @ ds) n off = frameOf data n off"
    using a(3,4,5) unfolding frameOf_def nth headerSize_append [OF a(1)] by (auto simp: Let_def)
  moreover have "(headerSize data + n) mod 2 ^ 64 = headerSize data + n" using a(6,7) by simp
  ultimately show ?thesis using a(1,3,4,6,8) frameLength_append [OF a(2,1), of ds]
    unfolding parseFrame_alt nth headerSize_append [OF a(1)] by auto
qed

lemma ctx_parseFrame_alt:
  "ctx_parseFrame buf ctx =
     (if buf = [] then Inr (False, ctx, buf)
      else rbind (parseFrame buf) (\<lambda>found. case found of
          None \<Rightarrow> Inr (False, ctx, buf)
        | Some frame \<Rightarrow> Inr (True, (if opCode frame = OpClose then ctx\<lparr>ws_state := WsClosing\<rparr> else ctx)\<lparr>currentFrame := Some frame\<rparr>,
            drop (headerSize buf + length (payload frame)) buf)))"
  by (auto simp: ctx_parseFrame_def headerSize_def Let_def split: option.splits)

lemma ctx_parseFrame_shorter: "ctx_parseFrame buf ctx = Inr (True, ctx1, buf1) \<Longrightarrow> length buf1 < length buf"
  using parseFrame_Some [of buf] by (force simp: ctx_parseFrame_alt result_simps split: option.splits if_splits)

lemma ctx_parseFrame_append:
  assumes "ctx_parseFrame buf ctx = Inr (True, ctx1, buf1)"
  shows "ctx_parseFrame (buf @ ds) ctx = Inr (True, ctx1, buf1 @ ds)"
proof -
  obtain f where f: "parseFrame buf = Inr (Some f)" and r: "buf \<noteq> []" "buf1 = drop (headerSize buf + length (payload f)) buf"
    "ctx1 = (if opCode f = OpClose then ctx\<lparr>ws_state := WsClosing\<rparr> else ctx)\<lparr>currentFrame := Some f\<rparr>"
    using assms by (auto simp: ctx_parseFrame_alt result_simps split: option.splits if_splits)
  have "2 \<le> length buf" using parseFrame_Some [OF f] by linarith
  then show ?thesis using parseFrame_append [OF f, of ds] parseFrame_Some [OF f] r headerSize_append [of buf ds]
    by (simp add: ctx_parseFrame_alt)
qed

end
