(* ===== verification/Http.thy ===== *)
theory Http
  imports Strings
begin

text \<open>
  HTTP messages: the request (\<open>HttpRequest.cpp\<close>), the incremental parser of a connection (\<open>HttpContext.cpp\<close>) and the
  response (\<open>HttpResponse.cpp\<close>). Pointer pairs into the buffer are the strings between them, the buffer is a string.
  \<open>parse_loop\<close> is the \<open>while\<close> loop of \<open>parseRequest\<close>: \<open>None\<close> means that it does not end, which happens exactly when the
  parser is called on a request that is already complete. An exception leaves the loop with the buffer and the
  parser as they were at that point.
\<close>

section \<open>Requests\<close>

datatype http_method = kInvalid | kGet | kPost | kHead | kPut | kDelete | kOptions

record httpRequest =
  req_method :: http_method
  version :: string
  path :: string
  pathParameters :: "string \<rightharpoonup> string"
  queryParameters :: "string \<rightharpoonup> string"
  queryString :: string
  receiveTime :: int
  headers :: "string \<rightharpoonup> string"
  content :: string
  contentLength :: nat
  clientIP :: string
  connectionPtr :: "string option"

definition HttpRequest :: httpRequest where
  "HttpRequest = \<lparr>req_method = kInvalid, version = ''Unknown'', path = [], pathParameters = Map.empty, queryParameters = Map.empty,
     queryString = [], receiveTime = 0, headers = Map.empty, content = [], contentLength = 0, clientIP = [], connectionPtr = None\<rparr>"

definition setReceiveTime :: "int \<Rightarrow> httpRequest \<Rightarrow> httpRequest" where
  "setReceiveTime t req = req\<lparr>receiveTime := t\<rparr>"

definition setMethod :: "string \<Rightarrow> httpRequest \<Rightarrow> (bool \<times> httpRequest) result" where
  "setMethod m req =
     rbind (myAssert (req_method req = kInvalid) ''method_ == kInvalid'') (\<lambda>_.
     let v = (if m = ''GET'' then kGet else if m = ''POST'' then kPost else if m = ''PUT'' then kPut
              else if m = ''DELETE'' then kDelete else if m = ''OPTIONS'' then kOptions else kInvalid) in
     Inr (v \<noteq> kInvalid, req\<lparr>req_method := v\<rparr>))"

definition setPath :: "string \<Rightarrow> httpRequest \<Rightarrow> httpRequest" where
  "setPath p req = req\<lparr>path := p\<rparr>"

definition setPathParameters :: "string \<Rightarrow> string \<Rightarrow> httpRequest \<Rightarrow> httpRequest" where
  "setPathParameters k v req = req\<lparr>pathParameters := (pathParameters req)(k \<mapsto> v)\<rparr>"

definition getPathParameters :: "string \<Rightarrow> httpRequest \<Rightarrow> string" where
  "getPathParameters k req = (case pathParameters req k of Some v \<Rightarrow> v | None \<Rightarrow> [])"

definition getQueryParameters :: "string \<Rightarrow> httpRequest \<Rightarrow> string" where
  "getQueryParameters k req = (case queryParameters req k of Some v \<Rightarrow> v | None \<Rightarrow> [])"

text \<open>One \<open>key=value\<close> pair of the query; a part without \<open>=\<close> is skipped.\<close>

definition addQueryPair :: "string \<Rightarrow> (string \<rightharpoonup> string) \<Rightarrow> (string \<rightharpoonup> string)" where
  "addQueryPair pair m = (case str_find ''='' pair of None \<Rightarrow> m | Some e \<Rightarrow> m(take e pair \<mapsto> drop (e + 1) pair))"

text \<open>The loop over the parts between \<open>&\<close>, on what is left of the string.\<close>

function queryLoop :: "string \<Rightarrow> (string \<rightharpoonup> string) \<Rightarrow> (string \<rightharpoonup> string)" where
  "queryLoop rest m = (case str_find ''&'' rest of
       None \<Rightarrow> addQueryPair rest m
     | Some pos \<Rightarrow> queryLoop (drop (pos + 1) rest) (addQueryPair (take pos rest) m))"
  by auto
termination
  by (relation "measure (\<lambda>(rest, m). length rest)") (auto simp: str_find_char dest: length_pos_if_in_set split: if_splits)

declare queryLoop.simps [simp del]

definition setQueryParameters :: "string \<Rightarrow> httpRequest \<Rightarrow> httpRequest" where
  "setQueryParameters s req = req\<lparr>queryString := s, queryParameters := queryLoop s (queryParameters req)\<rparr>"

definition isspace :: "char \<Rightarrow> bool" where
  "isspace ch \<longleftrightarrow> ch \<in> {CHR '' '', CHR 0x09, CHR 0x0A, CHR 0x0B, CHR 0x0C, CHR 0x0D}"

definition addHeader :: "string \<Rightarrow> string \<Rightarrow> httpRequest \<Rightarrow> httpRequest" where
  "addHeader key rest req =
     req\<lparr>headers := (headers req)(key \<mapsto> rev (dropWhile isspace (rev (dropWhile isspace rest))))\<rparr>"

definition getHeader :: "string \<Rightarrow> httpRequest \<Rightarrow> string" where
  "getHeader field req = (case headers req field of Some v \<Rightarrow> v | None \<Rightarrow> [])"

definition setBody :: "string \<Rightarrow> httpRequest \<Rightarrow> httpRequest" where
  "setBody b req = req\<lparr>content := b\<rparr>"

definition setContentLength :: "int \<Rightarrow> httpRequest \<Rightarrow> httpRequest" where
  "setContentLength n req = req\<lparr>contentLength := nat (n mod 2 ^ 64)\<rparr>"

text \<open>The fields that \<open>swap\<close> exchanges: first the request with those of \<open>that\<close>, then the other.\<close>

definition req_swap :: "httpRequest \<Rightarrow> httpRequest \<Rightarrow> httpRequest \<times> httpRequest" where
  "req_swap req that =
     (req\<lparr>req_method := req_method that, path := path that, pathParameters := pathParameters that, queryParameters := queryParameters that,
        queryString := queryString that, version := version that, headers := headers that, receiveTime := receiveTime that\<rparr>,
      that\<lparr>req_method := req_method req, path := path req, pathParameters := pathParameters req, queryParameters := queryParameters req,
        queryString := queryString req, version := version req, headers := headers req, receiveTime := receiveTime req\<rparr>)"

section \<open>Parsing\<close>

datatype httpRequestParseState = kExpectRequestLine | kExpectHeaders | kExpectBody | kGotAll

record httpContext =
  parse_state :: httpRequestParseState
  request :: httpRequest

definition HttpContext :: httpContext where
  "HttpContext = \<lparr>parse_state = kExpectRequestLine, request = HttpRequest\<rparr>"

definition gotAll :: "httpContext \<Rightarrow> bool" where
  "gotAll ctx \<longleftrightarrow> parse_state ctx = kGotAll"

definition http_reset :: "httpContext \<Rightarrow> httpContext" where
  "http_reset ctx = \<lparr>parse_state = kExpectRequestLine, request = fst (req_swap (request ctx) HttpRequest)\<rparr>"

definition crlf :: string where
  "crlf = [CHR 0x0D, CHR 0x0A]"

text \<open>\<open>std::stoi\<close>: white space, a sign, digits; anything may follow.\<close>

definition stoi :: "string \<Rightarrow> int result" where
  "stoi s = (case parse_int (dropWhile isspace s) of
       None \<Rightarrow> Inl (Uncaught ''invalid_argument'')
     | Some i \<Rightarrow> if - (2 ^ 31) \<le> i \<and> i < 2 ^ 31 then Inr i else Inl (Uncaught ''out_of_range''))"

definition processRequestLine :: "string \<Rightarrow> httpRequest \<Rightarrow> (bool \<times> httpRequest) result" where
  "processRequestLine line req =
     (case str_find '' '' line of
        None \<Rightarrow> Inr (False, req)
      | Some i \<Rightarrow>
          rbind (setMethod (take i line) req) (\<lambda>(ok, req1).
          if \<not> ok then Inr (False, req1)
          else
            let rest = drop (i + 1) line in
            case str_find '' '' rest of
              None \<Rightarrow> Inr (False, req1)
            | Some j \<Rightarrow>
                let target = take j rest;
                    req2 = (case str_find ''?'' target of
                        Some q \<Rightarrow> setQueryParameters (drop (q + 1) target) (setPath (take q target) req1)
                      | None \<Rightarrow> setPath target req1);
                    v = drop (j + 1) rest in
                if length v = 8 \<and> take 7 v = ''HTTP/1.''
                then if v ! 7 = CHR ''1'' then Inr (True, req2\<lparr>version := ''HTTP/1.1''\<rparr>)
                     else if v ! 7 = CHR ''0'' then Inr (True, req2\<lparr>version := ''HTTP/1.0''\<rparr>)
                     else Inr (False, req2)
                else Inr (False, req2)))"

text \<open>What the blank line after the headers does.\<close>

definition endHeaders :: "httpContext \<Rightarrow> (bool \<times> bool \<times> httpContext) result" where
  "endHeaders ctx =
     (if req_method (request ctx) = kPost \<or> req_method (request ctx) = kPut then
        let len = getHeader ''Content-Length'' (request ctx) in
        if len \<noteq> [] then
          rbind (stoi len) (\<lambda>n.
          let req = setContentLength n (request ctx) in
          if contentLength req > 0 then Inr (True, True, \<lparr>parse_state = kExpectBody, request = req\<rparr>)
          else Inr (True, False, \<lparr>parse_state = kGotAll, request = req\<rparr>))
        else Inr (False, False, ctx)
      else Inr (True, False, ctx\<lparr>parse_state := kGotAll\<rparr>))"

text \<open>One round of the loop: \<open>ok\<close>, \<open>hasMore\<close>, the buffer and the parser after it.\<close>

definition parse_round :: "int \<Rightarrow> string \<Rightarrow> httpContext \<Rightarrow> bool result \<times> bool \<times> string \<times> httpContext" where
  "parse_round t buf ctx =
     (case parse_state ctx of
        kExpectRequestLine \<Rightarrow>
          (case str_find crlf buf of
             None \<Rightarrow> (Inr True, False, buf, ctx)
           | Some e \<Rightarrow>
               (case processRequestLine (take e buf) (request ctx) of
                  Inl x \<Rightarrow> (Inl x, False, buf, ctx)
                | Inr (ok, req) \<Rightarrow>
                    if ok then (Inr True, True, drop (e + 2) buf, \<lparr>parse_state = kExpectHeaders, request = setReceiveTime t req\<rparr>)
                    else (Inr False, False, buf, ctx\<lparr>request := req\<rparr>)))
      | kExpectHeaders \<Rightarrow>
          (case str_find crlf buf of
             None \<Rightarrow> (Inr True, False, buf, ctx)
           | Some e \<Rightarrow>
               let line = take e buf in
               (case str_find '':'' line of
                  Some c \<Rightarrow> (Inr True, True, drop (e + 2) buf, ctx\<lparr>request := addHeader (take c line) (drop (c + 1) line) (request ctx)\<rparr>)
                | None \<Rightarrow>
                    if e = 0 then
                      (case endHeaders ctx of
                         Inl x \<Rightarrow> (Inl x, False, buf, ctx)
                       | Inr (ok, hasMore, ctx1) \<Rightarrow> (Inr ok, hasMore, drop (e + 2) buf, ctx1))
                    else (Inr False, False, drop (e + 2) buf, ctx)))
      | kExpectBody \<Rightarrow>
          (let n = contentLength (request ctx) in
           if length buf < n then (Inr True, False, buf, ctx)
           else (Inr True, False, drop n buf, \<lparr>parse_state = kGotAll, request = setBody (take n buf) (request ctx)\<rparr>))
      | kGotAll \<Rightarrow> (Inr True, True, buf, ctx))"

partial_function (option) parse_loop :: "int \<Rightarrow> string \<Rightarrow> httpContext \<Rightarrow> (bool result \<times> string \<times> httpContext) option" where
  [code]: "parse_loop t buf ctx =
     (case parse_round t buf ctx of (ok, hasMore, buf1, ctx1) \<Rightarrow> if hasMore then parse_loop t buf1 ctx1 else Some (ok, buf1, ctx1))"

definition parseRequest :: "int \<Rightarrow> string \<Rightarrow> httpContext \<Rightarrow> (bool result \<times> string \<times> httpContext) option" where
  "parseRequest t buf ctx = parse_loop t buf ctx"

section \<open>Responses\<close>

text \<open>The headers are a sorted map; the list is in the order of the keys.\<close>

record httpResponse =
  httpVersion :: string
  statusCode :: int
  statusMessage :: string
  closeConnection :: bool
  resp_headers :: "(string \<times> string) list"
  body :: string

definition HttpResponse :: "bool \<Rightarrow> httpResponse" where
  "HttpResponse close = \<lparr>httpVersion = [], statusCode = 0, statusMessage = [], closeConnection = close, resp_headers = [], body = []\<rparr>"

fun map_insert :: "string \<Rightarrow> string \<Rightarrow> (string \<times> string) list \<Rightarrow> (string \<times> string) list" where
  "map_insert k v [] = [(k, v)]"
| "map_insert k v ((k', v') # kvs) =
     (if k = k' then (k, v) # kvs else if ord_class.lexordp k k' then (k, v) # (k', v') # kvs else (k', v') # map_insert k v kvs)"

definition resp_addHeader :: "string \<Rightarrow> string \<Rightarrow> httpResponse \<Rightarrow> httpResponse" where
  "resp_addHeader k v resp = resp\<lparr>resp_headers := map_insert k v (resp_headers resp)\<rparr>"

definition setStatusLine :: "string \<Rightarrow> int \<Rightarrow> string \<Rightarrow> httpResponse \<Rightarrow> httpResponse" where
  "setStatusLine v code msg resp = resp\<lparr>httpVersion := v, statusCode := code, statusMessage := msg\<rparr>"

definition setContentType :: "string \<Rightarrow> httpResponse \<Rightarrow> httpResponse" where
  "setContentType ct resp = resp_addHeader ''Content-Type'' ct resp"

definition resp_setContentLength :: "nat \<Rightarrow> httpResponse \<Rightarrow> httpResponse" where
  "resp_setContentLength n resp = resp_addHeader ''Content-Length'' (to_string (int n)) resp"

text \<open>\<open>snprintf\<close> into 32 bytes keeps the first 31 characters.\<close>

definition appendToBuffer :: "httpResponse \<Rightarrow> string" where
  "appendToBuffer resp =
     take 31 (httpVersion resp @ '' '' @ to_string (statusCode resp) @ '' '') @ statusMessage resp @ crlf @
     (if closeConnection resp then ''Connection: close'' @ crlf else ''Connection: Keep-Alive'' @ crlf) @
     concat (map (\<lambda>(k, v). k @ '': '' @ v @ crlf) (resp_headers resp)) @ crlf @ body resp"

section \<open>Requests in pieces\<close>

lemma find_suffix_unique:
  "n \<le> length xs \<Longrightarrow> P (drop n xs) \<Longrightarrow> (\<forall>i < n. \<not> P (drop i xs)) \<Longrightarrow> find_suffix P xs = Some n"
proof (induction xs arbitrary: n)
  case (Cons x xs)
  show ?case
  proof (cases n)
    case (Suc m)
    then have "\<forall>i < m. \<not> P (drop i xs)" using Cons.prems(3) by auto
    then show ?thesis using Cons.IH [of m] Cons.prems Suc by force
  qed (use Cons.prems in auto)
qed auto

lemma str_find_append:
  assumes "str_find pat s = Some n"
  shows "str_find pat (s @ t) = Some n" and "n + length pat \<le> length s"
proof -
  from assms have n: "n \<le> length s" "prefix pat (drop n s)" "\<forall>i < n. \<not> prefix pat (drop i s)"
    by (auto simp: str_find_def dest: find_suffix_Some)
  from n(2) have "length pat \<le> length (drop n s)" by (rule prefix_length_le)
  with n(1) show l: "n + length pat \<le> length s" by simp
  have "\<not> prefix pat (drop i s @ t)" if "i < n" for i
    using n(3) that l by (auto simp: prefix_append dest: prefix_length_le)
  with n show "str_find pat (s @ t) = Some n" by (auto simp: str_find_def intro!: find_suffix_unique)
qed

lemma str_find_crlf:
  assumes "str_find crlf buf = Some e"
  shows "str_find crlf (buf @ ds) = Some e \<and> take e (buf @ ds) = take e buf \<and> drop (e + 2) (buf @ ds) = drop (e + 2) buf @ ds \<and> e + 2 \<le> length buf"
  using str_find_append [OF assms] by (simp add: crlf_def)


text \<open>A round that goes on, or that completes the request, does the same with more data behind; it consumes data.\<close>

lemma round_append:
  assumes "parse_round t buf ctx = (Inr True, hasMore, buf1, ctx1)" and "hasMore \<or> gotAll ctx1" and "\<not> gotAll ctx"
  shows "parse_round t (buf @ ds) ctx = (Inr True, hasMore, buf1 @ ds, ctx1) \<and> (hasMore \<longrightarrow> length buf1 < length buf \<and> \<not> gotAll ctx1)"
proof (cases "parse_state ctx")
  case kExpectRequestLine
  then obtain e where "str_find crlf buf = Some e" using assms by (auto simp: parse_round_def gotAll_def split: option.splits)
  then show ?thesis using str_find_crlf [of buf e ds] assms kExpectRequestLine
    by (auto simp: parse_round_def gotAll_def split: sum.splits if_splits)
next
  case kExpectHeaders
  then obtain e where e: "str_find crlf buf = Some e" using assms by (auto simp: parse_round_def gotAll_def split: option.splits)
  have no: "ok \<Longrightarrow> endHeaders ctx = Inr (ok, True, ctx1) \<Longrightarrow> \<not> gotAll ctx1" for ok
    by (auto simp: endHeaders_def gotAll_def Let_def result_simps split: if_splits)
  note more = str_find_crlf [OF e, of ds]
  show ?thesis
  proof (cases "str_find '':'' (take e buf)")
    case (Some c)
    then show ?thesis using more e assms kExpectHeaders by (auto simp: parse_round_def gotAll_def)
  next
    case None
    then have "e = 0" using e assms kExpectHeaders by (auto simp: parse_round_def gotAll_def split: if_splits)
    have "parse_round t buf ctx = (case endHeaders ctx of Inl x \<Rightarrow> (Inl x, False, buf, ctx) | Inr (ok, hm, c1) \<Rightarrow> (Inr ok, hm, drop (e + 2) buf, c1))"
      using None e kExpectHeaders unfolding \<open>e = 0\<close> by (simp add: parse_round_def)
    then have eh: "endHeaders ctx = Inr (True, hasMore, ctx1)" "buf1 = drop (e + 2) buf" using assms(1) by (auto split: sum.splits)
    then have "parse_round t (buf @ ds) ctx = (Inr True, hasMore, buf1 @ ds, ctx1)"
      using None more kExpectHeaders \<open>e = 0\<close> by (simp add: parse_round_def)
    then show ?thesis using no [of True] eh more by auto
  qed
next
  case kExpectBody
  then show ?thesis using assms by (auto simp: parse_round_def gotAll_def Let_def split: if_splits)
qed (use assms in \<open>auto simp: gotAll_def\<close>)

text \<open>A round that waits changes nothing.\<close>

lemma round_waits:
  assumes "parse_round t buf ctx = (Inr True, False, buf1, ctx1)" and "\<not> gotAll ctx1"
  shows "buf1 = buf \<and> ctx1 = ctx"
  using assms by (auto simp: parse_round_def endHeaders_def gotAll_def Let_def result_simps split: httpRequestParseState.splits option.splits sum.splits if_splits)

lemma round_goes_on:
  assumes "parse_round t buf ctx = (ok, True, buf1, ctx1)"
  shows "ok = Inr True"
  using assms by (auto simp: parse_round_def endHeaders_def gotAll_def Let_def result_simps split: httpRequestParseState.splits option.splits sum.splits if_splits)

lemma parse_loop_step:
  "parse_round t buf ctx = (ok, hasMore, buf1, ctx1) \<Longrightarrow> parse_loop t buf ctx = (if hasMore then parse_loop t buf1 ctx1 else Some (ok, buf1, ctx1))"
  by (subst parse_loop.simps) simp

lemma parse_loop_ends:
  assumes "\<not> gotAll ctx"
  shows "\<exists>ok buf1 ctx1. parse_loop t buf ctx = Some (ok, buf1, ctx1)"
  using assms
proof (induction "length buf" arbitrary: buf ctx rule: less_induct)
  case less
  obtain ok hasMore buf1 ctx1 where r: "parse_round t buf ctx = (ok, hasMore, buf1, ctx1)" by (metis prod_cases4)
  show ?case
  proof (cases hasMore)
    case True
    then have "length buf1 < length buf" "\<not> gotAll ctx1" using round_append [of t buf ctx True buf1 ctx1 "[]"] round_goes_on r less.prems by auto
    then show ?thesis using less.hyps parse_loop_step [OF r] True by simp
  qed (use parse_loop_step [OF r] in simp)
qed

lemma parse_loop_append:
  assumes "\<not> gotAll ctx" and "parse_loop t buf ctx = Some (Inr True, buf1, ctx1)"
  shows "parse_loop t (buf @ ds) ctx = (if gotAll ctx1 then Some (Inr True, buf1 @ ds, ctx1) else parse_loop t (buf1 @ ds) ctx1)"
  using assms
proof (induction "length buf" arbitrary: buf ctx rule: less_induct)
  case less
  obtain ok hasMore b c where r: "parse_round t buf ctx = (ok, hasMore, b, c)" by (metis prod_cases4)
  show ?case
  proof (cases hasMore)
    case True
    then have r': "parse_round t (buf @ ds) ctx = (Inr True, True, b @ ds, c)" and h: "length b < length buf" "\<not> gotAll c"
      using round_append [of t buf ctx True b c ds] round_goes_on r less.prems by auto
    have "parse_loop t b c = Some (Inr True, buf1, ctx1)" using less.prems(2) parse_loop_step [OF r] True by simp
    from less.hyps [OF h this] show ?thesis using parse_loop_step [OF r'] by simp
  next
    case False
    then have e: "ok = Inr True" "b = buf1" "c = ctx1" using less.prems(2) parse_loop_step [OF r] by simp_all
    show ?thesis
    proof (cases "gotAll ctx1")
      case True
      then have "parse_round t (buf @ ds) ctx = (Inr True, False, buf1 @ ds, ctx1)"
        using round_append [of t buf ctx False buf1 ctx1 ds] r e False less.prems(1) by auto
      from parse_loop_step [OF this] True show ?thesis by simp
    next
      case gF: False
      then show ?thesis using round_waits [of t buf ctx buf1 ctx1] r e False by simp
    qed
  qed
qed

lemma parse_loop_gotAll:
  assumes "gotAll ctx"
  shows "parse_loop t buf ctx = None"
proof -
  have "\<not> gotAll ctx" if "parse_loop t buf ctx = Some y" for y
    using _ that by (rule parse_loop.raw_induct) (auto simp: parse_round_def gotAll_def split: prod.splits if_splits)
  then show ?thesis using assms by (cases "parse_loop t buf ctx") auto
qed

section \<open>Connections that are used again\<close>

lemma processRequestLine_kept:
  assumes "processRequestLine line req = Inr (ok, req1)"
  shows "content req1 = content req" and "req_method req1 \<noteq> kInvalid \<Longrightarrow> \<exists>i. str_find '' '' line = Some i \<or> req1 = req"
  using assms by (auto simp: processRequestLine_def setMethod_def setPath_def setQueryParameters_def Let_def result_simps split: option.splits if_splits)

lemma round_content:
  assumes "parse_round t buf ctx = (Inr True, hasMore, buf1, ctx1)" and "parse_state ctx = kExpectBody \<longrightarrow> req_method (request ctx) \<in> {kPost, kPut}"
    and "\<not> gotAll ctx"
  shows "(parse_state ctx1 = kExpectBody \<longrightarrow> req_method (request ctx1) \<in> {kPost, kPut}) \<and>
    (content (request ctx1) = content (request ctx) \<or> req_method (request ctx1) \<in> {kPost, kPut} \<and> gotAll ctx1)"
proof (cases "parse_state ctx")
  case kExpectRequestLine
  then obtain e where e: "str_find crlf buf = Some e \<or> ctx1 = ctx" using assms by (auto simp: parse_round_def split: option.splits)
  have "content r = content (request ctx)" if "processRequestLine (take e buf) (request ctx) = Inr (ok, r)" for ok r
    using processRequestLine_kept(1) [OF that] .
  then show ?thesis using assms kExpectRequestLine e
    by (fastforce simp: parse_round_def setReceiveTime_def split: option.splits sum.splits if_splits)
next
  case kExpectHeaders
  have eh: "(parse_state c = kExpectBody \<longrightarrow> req_method (request c) \<in> {kPost, kPut}) \<and> content (request c) = content (request ctx)"
    if "endHeaders ctx = Inr (ok, more', c)" for ok more' c
    using that kExpectHeaders by (auto simp: endHeaders_def Let_def result_simps setContentLength_def split: if_splits)
  show ?thesis using assms kExpectHeaders eh
    by (auto simp: parse_round_def addHeader_def Let_def split: option.splits sum.splits if_splits)
next
  case kExpectBody
  then show ?thesis using assms by (auto simp: parse_round_def setBody_def gotAll_def Let_def split: if_splits)
qed (use assms in \<open>simp add: gotAll_def\<close>)

lemma parse_loop_content:
  assumes "parse_loop t buf ctx = Some (Inr True, buf1, ctx1)" and "parse_state ctx = kExpectBody \<longrightarrow> req_method (request ctx) \<in> {kPost, kPut}"
    and "\<not> gotAll ctx" and "req_method (request ctx1) \<notin> {kPost, kPut}"
  shows "content (request ctx1) = content (request ctx)"
  using assms
proof (induction "length buf" arbitrary: buf ctx rule: less_induct)
  case less
  obtain ok hasMore b c where r: "parse_round t buf ctx = (ok, hasMore, b, c)" by (metis prod_cases4)
  show ?case
  proof (cases hasMore)
    case True
    then have r1: "parse_round t buf ctx = (Inr True, True, b, c)" using round_goes_on r by auto
    have h: "length b < length buf" "\<not> gotAll c" using round_append [OF r1, of "[]"] less.prems(3) by auto
    have l: "parse_loop t b c = Some (Inr True, buf1, ctx1)" using parse_loop_step [OF r1] less.prems(1) by simp
    have "parse_state c = kExpectBody \<longrightarrow> req_method (request c) \<in> {kPost, kPut}" "content (request c) = content (request ctx)"
      using round_content [OF r1 less.prems(2,3)] h by auto
    then show ?thesis using less.hyps [OF h(1) l _ h(2) less.prems(4)] by simp
  next
    case False
    then have "ok = Inr True" "c = ctx1" using less.prems(1) parse_loop_step [OF r] by simp_all
    then show ?thesis using round_content [of t buf ctx hasMore b c] r less.prems by auto
  qed
qed

lemma parse_loop_state:
  assumes "parse_loop t buf ctx = Some (ok, buf1, ctx1)" and "parse_state ctx \<noteq> kExpectRequestLine"
  shows "parse_state ctx1 \<noteq> kExpectRequestLine"
proof -
  have r: "parse_state c' \<noteq> kExpectRequestLine" if "parse_round t b c = (ok, hm, b', c')" "parse_state c \<noteq> kExpectRequestLine" for t b c ok hm b' c'
    using that by (auto simp: parse_round_def endHeaders_def Let_def result_simps split: httpRequestParseState.splits option.splits sum.splits if_splits)
  have "parse_state ctx \<noteq> kExpectRequestLine \<longrightarrow> parse_state (snd (snd (ok, buf1, ctx1))) \<noteq> kExpectRequestLine"
    using _ assms(1) by (rule parse_loop.raw_induct) (auto split: prod.splits if_splits dest: r)
  then show ?thesis using assms(2) by simp
qed

text \<open>C35: The parser gives the same result however the network cuts a request into pieces. Called on a request that is
  not complete, it returns. If what it read so far is well formed, then parsing the first piece and later what it left
  together with the rest is the same as parsing everything at once, and a complete request leaves the bytes behind it
  in the buffer.\<close>

theorem http_parse_in_pieces:
  assumes "\<not> gotAll ctx"
  shows "\<exists>r buf1 ctx1. parseRequest t b1 ctx = Some (r, buf1, ctx1) \<and>
    (r = Inr True \<longrightarrow> parseRequest t (b1 @ b2) ctx = (if gotAll ctx1 then Some (Inr True, buf1 @ b2, ctx1) else parseRequest t (buf1 @ b2) ctx1))"
  unfolding parseRequest_def using parse_loop_ends [OF assms, of t b1] parse_loop_append [OF assms, of t b1] by fastforce

theorem http_parse_in_pieces_witness:
  "\<exists>r buf1 ctx1. parseRequest 0 ''GET /menu HT'' HttpContext = Some (r, buf1, ctx1) \<and>
    (r = Inr True \<longrightarrow> parseRequest 0 (''GET /menu HT'' @ ''TP/1.1'' @ crlf @ crlf) HttpContext =
      (if gotAll ctx1 then Some (Inr True, buf1 @ ''TP/1.1'' @ crlf @ crlf, ctx1) else parseRequest 0 (buf1 @ ''TP/1.1'' @ crlf @ crlf) ctx1))"
  by (rule http_parse_in_pieces) (simp add: gotAll_def HttpContext_def)

text \<open>A request line that is refused leaves the connection in a state in which the next data ends the process. When the
  line names a known method and is refused after that, for its version for example, the method stays set and the line
  stays in the buffer; whatever arrives next on the connection, the parser meets the same line again and the
  assertion of \<open>setMethod\<close> fails.\<close>

theorem http_refused_line_aborts:
  assumes "parseRequest t buf HttpContext = Some (Inr False, buf1, ctx1)" and "parse_state ctx1 = kExpectRequestLine"
    and "req_method (request ctx1) \<noteq> kInvalid"
  shows "parseRequest t' (buf1 @ more') ctx1 = Some (Inl (AssertFailed ''method_ == kInvalid''), buf1 @ more', ctx1)"
proof -
  have s0: "parse_state HttpContext = kExpectRequestLine" "req_method (request HttpContext) = kInvalid" by (simp_all add: HttpContext_def HttpRequest_def)
  obtain ok hasMore b c where r: "parse_round t buf HttpContext = (ok, hasMore, b, c)" by (metis prod_cases4)
  have "\<not> hasMore"
  proof
    assume hasMore
    then have "parse_state c \<noteq> kExpectRequestLine" "parse_loop t b c = Some (Inr False, buf1, ctx1)"
      using r s0 assms(1) parse_loop_step [OF r] by (auto simp: parse_round_def parseRequest_def split: option.splits sum.splits if_splits)
    then show False using parse_loop_state assms(2) by blast
  qed
  then have r: "parse_round t buf HttpContext = (Inr False, False, buf1, ctx1)"
    using r assms(1) parse_loop_step [OF r] by (simp add: parseRequest_def)
  then obtain e where e: "str_find crlf buf = Some e" and p: "processRequestLine (take e buf) (request HttpContext) = Inr (False, request ctx1)"
    and b: "buf1 = buf" using s0 by (auto simp: parse_round_def split: option.splits sum.splits if_splits)
  have "\<exists>i. str_find '' '' (take e buf) = Some i" using processRequestLine_kept(2) [OF p assms(3)] s0(2) assms(3) by auto
  then have "processRequestLine (take e buf) (request ctx1) = Inl (AssertFailed ''method_ == kInvalid'')"
    using assms(3) by (auto simp: processRequestLine_def setMethod_def myAssert_def)
  then have "parse_round t' (buf1 @ more') ctx1 = (Inl (AssertFailed ''method_ == kInvalid''), False, buf1 @ more', ctx1)"
    using assms(2) str_find_crlf [OF e, of more'] b by (simp add: parse_round_def)
  from parse_loop_step [OF this] show ?thesis by (simp add: parseRequest_def)
qed

theorem http_refused_line_aborts_witness:
  "\<exists>buf1 ctx1. parseRequest 0 (''GET / HTTP/2.0'' @ crlf) HttpContext = Some (Inr False, buf1, ctx1) \<and>
    parseRequest 0 (buf1 @ ''x'') ctx1 = Some (Inl (AssertFailed ''method_ == kInvalid''), buf1 @ ''x'', ctx1)"
proof -
  let ?ctx = "\<lparr>parse_state = kExpectRequestLine, request = HttpRequest\<lparr>req_method := kGet, path := ''/''\<rparr>\<rparr>"
  have "parse_round 0 (''GET / HTTP/2.0'' @ crlf) HttpContext = (Inr False, False, ''GET / HTTP/2.0'' @ crlf, ?ctx)"
    by (simp add: parse_round_def HttpContext_def HttpRequest_def str_find_def crlf_def processRequestLine_def setMethod_def myAssert_def setPath_def Let_def)
  from parse_loop_step [OF this] have 1: "parseRequest 0 (''GET / HTTP/2.0'' @ crlf) HttpContext = Some (Inr False, ''GET / HTTP/2.0'' @ crlf, ?ctx)"
    by (simp add: parseRequest_def)
  show ?thesis using http_refused_line_aborts [OF 1, of 0 "''x''"] 1 by simp
qed

text \<open>A connection that is used again shows the body of an earlier request. After \<open>reset\<close>, a further request that is
  complete and has a method without a body, such as GET, has the content that was there before.\<close>

theorem http_stale_body:
  assumes "parseRequest t buf (http_reset ctx) = Some (Inr True, buf1, ctx1)" and "gotAll ctx1" and "req_method (request ctx1) \<notin> {kPost, kPut}"
  shows "content (request ctx1) = content (request ctx)"
  using parse_loop_content [of t buf "http_reset ctx" buf1 ctx1] assms
  by (simp add: parseRequest_def http_reset_def req_swap_def gotAll_def)


definition posted :: httpContext where
  "posted = \<lparr>parse_state = kGotAll, request = HttpRequest\<lparr>req_method := kPost, path := ''/login'', content := ''secret'', contentLength := 6\<rparr>\<rparr>"

theorem http_stale_body_witness:
  "\<exists>buf1 ctx1. parseRequest 0 (''GET / HTTP/1.1'' @ crlf @ crlf) (http_reset posted) = Some (Inr True, buf1, ctx1) \<and> content (request ctx1) = ''secret''"
proof -
  let ?r = "(HttpRequest\<lparr>req_method := kGet, path := ''/'', version := ''HTTP/1.1'', content := ''secret'', contentLength := 6\<rparr>)"
  have 1: "parse_round 0 (''GET / HTTP/1.1'' @ crlf @ crlf) (http_reset posted) = (Inr True, True, crlf, \<lparr>parse_state = kExpectHeaders, request = ?r\<rparr>)"
    by (simp add: parse_round_def posted_def http_reset_def req_swap_def HttpRequest_def str_find_def crlf_def processRequestLine_def setMethod_def
        myAssert_def setPath_def setReceiveTime_def Let_def)
  have 2: "parse_round 0 crlf \<lparr>parse_state = kExpectHeaders, request = ?r\<rparr> = (Inr True, False, [], \<lparr>parse_state = kGotAll, request = ?r\<rparr>)"
    by (simp add: parse_round_def HttpRequest_def str_find_def crlf_def endHeaders_def)
  have 3: "parseRequest 0 (''GET / HTTP/1.1'' @ crlf @ crlf) (http_reset posted) = Some (Inr True, [], \<lparr>parse_state = kGotAll, request = ?r\<rparr>)"
    using parse_loop_step [OF 1] parse_loop_step [OF 2] by (simp add: parseRequest_def)
  show ?thesis using http_stale_body [OF 3] 3 by (simp add: gotAll_def posted_def)
qed

end
