(* ===== verification/WsServer.thy ===== *)
theory WsServer
  imports WebSocket Http
begin

text \<open>
  The WebSocket server (\<open>WebSocketServer.cpp\<close>): the handshake, the loop that takes frames off a connection's buffer and
  hands them to the handler, and the registry of connections. A connection is its name. The callbacks of a
  handler change a state of any type \<open>'h\<close>, in which \<open>wire\<close> (the send callback) records what is sent; a callback may
  throw. \<open>SHA1\<close> followed by base64 is the argument \<open>digest\<close>.
\<close>

type_synonym conn = string

record 'h webSocketHandler =
  onOpen :: "conn \<Rightarrow> 'h \<Rightarrow> 'h \<times> unit result"
  onMessage :: "conn \<Rightarrow> string \<Rightarrow> 'h \<Rightarrow> 'h \<times> unit result"
  onClose :: "conn \<Rightarrow> 'h \<Rightarrow> 'h \<times> unit result"
  onPing :: "conn \<Rightarrow> string \<Rightarrow> 'h \<Rightarrow> 'h \<times> unit result"
  onPong :: "conn \<Rightarrow> string \<Rightarrow> 'h \<Rightarrow> 'h \<times> unit result"

record 'h webSocketServer =
  contexts :: "conn \<rightharpoonup> webSocketContext"
  handlers :: "conn \<rightharpoonup> 'h webSocketHandler"
  connections :: "conn set"

definition to_str :: "byte list \<Rightarrow> string" where
  "to_str = map (\<lambda>b. char_of (unat b))"

definition of_str :: "string \<Rightarrow> byte list" where
  "of_str = map (\<lambda>ch. of_nat (of_char ch))"

lemma to_str_of_str [simp]: "to_str (of_str s) = s"
  by (induction s) (simp_all add: to_str_def of_str_def unat_of_nat)

section \<open>Sending\<close>

type_synonym 'h wire = "conn \<Rightarrow> byte list \<Rightarrow> 'h \<Rightarrow> 'h"

definition sendMessage :: "'h wire \<Rightarrow> conn \<Rightarrow> string \<Rightarrow> 'h \<Rightarrow> 'h" where
  "sendMessage wire c message w = wire c (encodeToString (createFrame [] OpText (of_str message) False)) w"

section \<open>Frames of a connection\<close>

text \<open>What a frame other than Close does.\<close>

definition dispatchFrame :: "'h webSocketHandler \<Rightarrow> 'h wire \<Rightarrow> conn \<Rightarrow> webSocketFrame \<Rightarrow> 'h \<Rightarrow> 'h \<times> unit result" where
  "dispatchFrame h wire c frame w =
     (if opCode frame = OpText then onMessage h c (to_str (payload frame)) w
      else if opCode frame = OpBinary then onMessage h c (to_str (payload frame)) w
      else if opCode frame = OpPing then
        onPing h c (to_str (payload frame)) (wire c (encodeToString (createFrame [] OpPong (payload frame) False)) w)
      else if opCode frame = OpPong then onPong h c (to_str (payload frame)) w
      else (w, Inr ()))"

text \<open>The loop of \<open>processFrame\<close>: whether a Close frame ended it, the rest of the buffer, the parser and the state.\<close>

function frameLoop :: "'h webSocketHandler \<Rightarrow> 'h wire \<Rightarrow> conn \<Rightarrow> byte list \<Rightarrow> webSocketContext \<Rightarrow> 'h \<Rightarrow>
    bool \<times> byte list \<times> webSocketContext \<times> 'h \<times> unit result" where
  "frameLoop h wire c buf ctx w =
     (if buf = [] then (False, buf, ctx, w, Inr ())
      else case ctx_parseFrame buf ctx of
          Inl e \<Rightarrow> (False, buf, ctx, w, Inl e)
        | Inr (got, ctx1, buf1) \<Rightarrow>
            if \<not> got then (False, buf1, ctx1, w, Inr ())
            else (case currentFrame ctx1 of
                None \<Rightarrow> (False, buf1, ctx1, w, Inr ())
              | Some frame \<Rightarrow>
                  if opCode frame = OpClose then
                    let (w1, r) = onClose h c (wire c (encodeToString (createFrame [] OpClose [] False)) w) in
                    (case r of Inl e \<Rightarrow> (False, buf1, ctx1, w1, Inl e) | Inr _ \<Rightarrow> (True, buf1, ctx1, w1, Inr ()))
                  else
                    let (w1, r) = dispatchFrame h wire c frame w in
                    (case r of Inl e \<Rightarrow> (False, buf1, ctx1, w1, Inl e) | Inr _ \<Rightarrow> frameLoop h wire c buf1 ctx1 w1)))"
  by pat_completeness auto
termination
  by (relation "measure (\<lambda>(h, wire, c, buf, ctx, w). length buf)") (auto dest: ctx_parseFrame_shorter)

declare frameLoop.simps [simp del]

section \<open>The registry\<close>

definition WebSocketServer :: "'h webSocketServer" where
  "WebSocketServer = \<lparr>contexts = Map.empty, handlers = Map.empty, connections = {}\<rparr>"

definition isWebSocket :: "conn \<Rightarrow> 'h webSocketServer \<Rightarrow> bool" where
  "isWebSocket c srv = (case contexts srv c of None \<Rightarrow> False | Some ctx \<Rightarrow> ctx_isOpen ctx)"

definition removeConnection :: "conn \<Rightarrow> 'h webSocketServer \<Rightarrow> 'h webSocketServer" where
  "removeConnection c srv = srv\<lparr>contexts := (contexts srv)(c := None), handlers := (handlers srv)(c := None), connections := connections srv - {c}\<rparr>"

definition getHandler :: "conn \<Rightarrow> 'h webSocketServer \<Rightarrow> 'h webSocketHandler option" where
  "getHandler c srv = handlers srv c"

definition processFrame :: "'h wire \<Rightarrow> conn \<Rightarrow> byte list \<Rightarrow> 'h webSocketServer \<Rightarrow> 'h \<Rightarrow> byte list \<times> 'h webSocketServer \<times> 'h \<times> unit result" where
  "processFrame wire c buf srv w =
     (case contexts srv c of
        None \<Rightarrow> (buf, srv, w, Inr ())
      | Some ctx \<Rightarrow>
          (case handlers srv c of
             None \<Rightarrow> (buf, srv, w, Inr ())
           | Some h \<Rightarrow>
               let (closed, buf1, ctx1, w1, r) = frameLoop h wire c buf ctx w;
                   srv1 = srv\<lparr>contexts := (contexts srv)(c \<mapsto> ctx1)\<rparr> in
               (buf1, if closed then removeConnection c srv1 else srv1, w1, r)))"

definition closeWs :: "'h wire \<Rightarrow> conn \<Rightarrow> 'h webSocketServer \<Rightarrow> 'h \<Rightarrow> 'h webSocketServer \<times> 'h \<times> unit result" where
  "closeWs wire c srv w =
     (let w1 = wire c (encodeToString (createFrame [] OpClose [] False)) w;
          (w2, r) = (case handlers srv c of Some h \<Rightarrow> onClose h c w1 | None \<Rightarrow> (w1, Inr ())) in
      (case r of Inl e \<Rightarrow> (srv, w2, Inl e) | Inr _ \<Rightarrow> (removeConnection c srv, w2, Inr ())))"

section \<open>The handshake\<close>

definition validateUpgradeRequest :: "httpRequest \<Rightarrow> bool" where
  "validateUpgradeRequest req \<longleftrightarrow>
     req_method req = kGet \<and> getHeader ''Upgrade'' req = ''websocket'' \<and> str_find ''Upgrade'' (getHeader ''Connection'' req) \<noteq> None \<and>
     getHeader ''Sec-WebSocket-Key'' req \<noteq> [] \<and> getHeader ''Sec-WebSocket-Version'' req = ''13''"

definition computeAcceptKey :: "(string \<Rightarrow> string) \<Rightarrow> string \<Rightarrow> string" where
  "computeAcceptKey digest clientKey = digest (clientKey @ ''258EAFA5-E914-47DA-95CA-C5AB0DC85B11'')"

definition handleUpgrade :: "(string \<Rightarrow> string) \<Rightarrow> httpRequest \<Rightarrow> httpResponse \<Rightarrow> 'h webSocketHandler \<Rightarrow> conn \<Rightarrow> 'h webSocketServer \<Rightarrow> 'h \<Rightarrow>
    bool \<times> httpResponse \<times> 'h webSocketServer \<times> 'h \<times> unit result" where
  "handleUpgrade digest req resp h c srv w =
     (if \<not> validateUpgradeRequest req
      then (False, resp\<lparr>statusCode := 400, statusMessage := ''Bad Request'', closeConnection := True\<rparr>, srv, w, Inr ())
      else
        let acceptKey = computeAcceptKey digest (getHeader ''Sec-WebSocket-Key'' req);
            resp1 = resp_addHeader ''Sec-WebSocket-Accept'' acceptKey (resp_addHeader ''Connection'' ''Upgrade'' (resp_addHeader ''Upgrade'' ''websocket''
              (resp\<lparr>statusCode := 101, statusMessage := ''Switching Protocols'', closeConnection := False\<rparr>)));
            ctx = (case contexts srv c of Some x \<Rightarrow> x | None \<Rightarrow> WebSocketContext)\<lparr>ws_state := WsOpen\<rparr>;
            srv1 = srv\<lparr>contexts := (contexts srv)(c \<mapsto> ctx), handlers := (handlers srv)(c \<mapsto> h), connections := insert c (connections srv)\<rparr>;
            (w1, r) = onOpen h c w in
        (True, resp1, srv1, w1, r))"

section \<open>Frames in pieces\<close>

lemma frameLoop_step:
  assumes "buf \<noteq> []" and "ctx_parseFrame buf ctx = Inr (True, ctx1, buf1)" and "currentFrame ctx1 = Some frame" and "opCode frame \<noteq> OpClose"
    and "dispatchFrame h wire c frame w = (w1, Inr u)"
  shows "frameLoop h wire c buf ctx w = frameLoop h wire c buf1 ctx1 w1"
  using assms by (subst frameLoop.simps) simp

lemma ctx_parseFrame_True: "ctx_parseFrame buf ctx = Inr (True, ctx1, buf1) \<Longrightarrow> buf \<noteq> [] \<and> (\<exists>frame. currentFrame ctx1 = Some frame)"
  by (auto simp: ctx_parseFrame_alt result_simps split: option.splits if_splits)

lemma ctx_parseFrame_False: "ctx_parseFrame buf ctx = Inr (False, ctx1, buf1) \<Longrightarrow> ctx1 = ctx \<and> buf1 = buf"
  by (auto simp: ctx_parseFrame_alt result_simps split: option.splits if_splits)

lemma frameLoop_append:
  assumes "frameLoop h wire c buf ctx w = (False, buf1, ctx1, w1, Inr ())"
  shows "frameLoop h wire c (buf @ ds) ctx w = frameLoop h wire c (buf1 @ ds) ctx1 w1"
  using assms
proof (induction h wire c buf ctx w rule: frameLoop.induct)
  case (1 h wire c buf ctx w)
  show ?case
  proof (cases "buf = [] \<or> (\<exists>b x. ctx_parseFrame buf ctx = Inr (False, b, x))")
    case True
    then have "buf1 = buf" "ctx1 = ctx" "w1 = w" using "1.prems" ctx_parseFrame_False [of buf ctx]
      by (subst (asm) frameLoop.simps, fastforce split: if_splits)+
    then show ?thesis by simp
  next
    case False
    then obtain c1 b1 where p: "ctx_parseFrame buf ctx = Inr (True, c1, b1)"
      using "1.prems" by (subst (asm) frameLoop.simps) (auto split: sum.splits if_splits)
    then obtain frame where f: "buf \<noteq> []" "currentFrame c1 = Some frame" using ctx_parseFrame_True by blast
    have nc: "opCode frame \<noteq> OpClose" using "1.prems" p f by (subst (asm) frameLoop.simps) (auto split: prod.splits sum.splits)
    obtain w2 r where d: "dispatchFrame h wire c frame w = (w2, r)" by fastforce
    have r: "r = Inr ()" using "1.prems" p f nc d by (subst (asm) frameLoop.simps) (auto split: sum.splits)
    note step = frameLoop_step [OF _ _ f(2) nc d [unfolded r]]
    have "frameLoop h wire c b1 c1 w2 = (False, buf1, ctx1, w1, Inr ())" using "1.prems" step [OF f(1) p] by simp
    then have "frameLoop h wire c (b1 @ ds) c1 w2 = frameLoop h wire c (buf1 @ ds) ctx1 w1"
      using "1.IH" [OF f(1) p refl refl _ f(2) nc d [symmetric] refl] r by simp
    then show ?thesis using step [OF _ ctx_parseFrame_append [OF p, of ds]] f(1) by simp
  qed
qed

section \<open>A stream of messages\<close>

lemma created_layout:
  assumes "length key = 4" and "length p < 2 ^ 63"
  shows "frameLength (encodeToString (createFrame key oc p m) @ rest) = Some (length p, 2 + length (lengthExt (length p)))"
    and "headerSize (encodeToString (createFrame key oc p m) @ rest) + length p = length (encodeToString (createFrame key oc p m))"
proof -
  let ?b1 = "(if m then 0x80 else 0) OR (of_nat (lengthField (length p)) :: byte)"
  let ?d = "encodeToString (createFrame key oc p m) @ rest"
  obtain b0 b1 where b1: "b1 = ?b1" and d: "?d = b0 # b1 # lengthExt (length p) @ (if m then key @ applyMask key p else p) @ rest"
    using encode_created [of key oc p m] by simp
  note bits = length_bits(1,2) [OF lengthField_less, of m "length p", folded b1]
  show fl: "frameLength ?d = Some (length p, 2 + length (lengthExt (length p)))"
    unfolding d by (rule frameLength_ext [OF bits(1)]) (use assms(2) in simp)
  have "?d ! 1 = b1" using d by simp
  then have "headerSize ?d = (if m then 2 + length (lengthExt (length p)) + 4 else 2 + length (lengthExt (length p)))"
    using frameLength_header [OF fl] bits(2) by simp
  moreover have "length (encodeToString (createFrame key oc p m)) = 2 + length (lengthExt (length p)) + (if m then 4 + length p else length p)"
    using assms(1) by (simp add: encode_created)
  ultimately show "headerSize ?d + length p = length (encodeToString (createFrame key oc p m))" by simp
qed

text \<open>A frame that has not arrived completely is waited for.\<close>

lemma parse_prefix:
  assumes "length key = 4" and "length p < 2 ^ 63" and "encodeToString (createFrame key oc p m) = data @ miss" and "miss \<noteq> []"
  shows "parseFrame data = Inr None"
proof (cases "length data < 2 \<or> frameLength data = None")
  case False
  then obtain n off where fl: "frameLength data = Some (n, off)" and len: "2 \<le> length data" by auto
  have "frameLength (data @ miss) = Some (length p, 2 + length (lengthExt (length p)))" "headerSize (data @ miss) + length p = length (data @ miss)"
    using created_layout [OF assms(1,2), of oc m "[]"] assms(3) by simp_all
  then have n: "n = length p" and h: "headerSize data + n = length data + length miss"
    using frameLength_append [OF fl len, of miss] headerSize_append [OF len, of miss] by auto
  have "headerSize data \<le> 14" using frameLength_Some [OF fl len] frameLength_header [OF fl] by auto
  then have "(headerSize data + n) mod 2 ^ 64 = headerSize data + n" using n assms(2) by simp
  then have "length data < (headerSize data + n) mod 2 ^ 64" using h assms(4) by simp
  then show ?thesis using fl len by (simp add: parseFrame_alt)
qed (auto simp: parseFrame_alt)

text \<open>A client's text frame, with its masking key.\<close>

definition textFrame :: "byte list \<times> string \<Rightarrow> byte list" where
  "textFrame = (\<lambda>(key, m). encodeToString (createFrame key OpText (of_str m) True))"

definition message_ok :: "byte list \<times> string \<Rightarrow> bool" where
  "message_ok = (\<lambda>(key, m). length key = 4 \<and> length m < 2 ^ 63)"

definition quiet :: "'h webSocketHandler \<Rightarrow> conn \<Rightarrow> bool" where
  "quiet h c \<longleftrightarrow> (\<forall>m w. snd (onMessage h c m w) = Inr ())"

definition takeMessage :: "'h webSocketHandler \<Rightarrow> conn \<Rightarrow> byte list \<times> string \<Rightarrow> 'h \<Rightarrow> 'h" where
  "takeMessage h c km w = fst (onMessage h c (snd km) w)"

lemma of_str_length [simp]: "length (of_str m) = length m"
  by (simp add: of_str_def)

lemma textFrame_nonempty [simp]: "textFrame km \<noteq> []"
  by (simp add: textFrame_def encode_created split: prod.splits)

lemma frameLoop_message:
  assumes "message_ok km" and "quiet h c"
  shows "\<exists>ctx1. ws_state ctx1 = ws_state ctx \<and> frameLoop h wire c (textFrame km @ rest) ctx w = frameLoop h wire c rest ctx1 (takeMessage h c km w)"
proof -
  obtain key m where km: "km = (key, m)" by fastforce
  have b: "OpText < 16" "OpText \<noteq> OpClose" by (simp_all add: OpText_def OpClose_def)
  let ?f = "\<lparr>fin = True, opCode = OpText, mask = True, payloadLen = length (of_str m), maskingKey = key, payload = of_str m\<rparr>"
  have p: "ctx_parseFrame (textFrame km @ rest) ctx = Inr (True, ctx\<lparr>currentFrame := Some ?f\<rparr>, rest)"
    using ctx_parse_created [OF b(1), of key "of_str m" True rest ctx] assms(1) b(2) by (simp add: km message_ok_def textFrame_def)
  have "dispatchFrame h wire c ?f w = (takeMessage h c km w, Inr ())"
    using assms(2) by (simp add: dispatchFrame_def takeMessage_def km quiet_def prod_eq_iff)
  then have "frameLoop h wire c (textFrame km @ rest) ctx w = frameLoop h wire c rest (ctx\<lparr>currentFrame := Some ?f\<rparr>) (takeMessage h c km w)"
    by (intro frameLoop_step [OF _ p]) (simp_all add: b)
  then show ?thesis by (intro exI [of _ "ctx\<lparr>currentFrame := Some ?f\<rparr>"]) simp
qed

text \<open>Any prefix of the stream is handled without failure, and leaves the part of it that is no complete frame.\<close>

lemma frameLoop_prefix:
  assumes "\<forall>km \<in> set kms. message_ok km" and "quiet h c" and "concat (map textFrame kms) = data @ miss"
  shows "\<exists>buf1 ctx1 w1. frameLoop h wire c data ctx w = (False, buf1, ctx1, w1, Inr ()) \<and> ws_state ctx1 = ws_state ctx \<and>
    (miss = [] \<longrightarrow> buf1 = [] \<and> w1 = fold (takeMessage h c) kms w)"
  using assms
proof (induction kms arbitrary: data ctx w)
  case Nil
  then show ?case by (simp add: frameLoop.simps)
next
  case (Cons km kms)
  have km: "message_ok km" using Cons.prems(1) by simp
  show ?case
  proof (cases "length (textFrame km) \<le> length data")
    case True
    then obtain d where d: "data = textFrame km @ d" "concat (map textFrame kms) = d @ miss"
      using Cons.prems(3) by (auto simp: append_eq_append_conv2)
    obtain ctx1 where c1: "ws_state ctx1 = ws_state ctx" "frameLoop h wire c data ctx w = frameLoop h wire c d ctx1 (takeMessage h c km w)"
      using frameLoop_message [OF km Cons.prems(2)] d(1) by blast
    from Cons.IH [OF _ Cons.prems(2) d(2), of ctx1 "takeMessage h c km w"] Cons.prems(1) c1 show ?thesis by auto
  next
    case False
    then obtain e where e: "textFrame km = data @ e" "e \<noteq> []" using Cons.prems(3) by (auto simp: append_eq_append_conv2)
    obtain key m where k: "km = (key, m)" by fastforce
    have "parseFrame data = Inr None"
      using parse_prefix [of key "of_str m" OpText True data e] km e by (simp add: k message_ok_def textFrame_def)
    then have "frameLoop h wire c data ctx w = (False, data, ctx, w, Inr ())"
      by (subst frameLoop.simps) (simp add: ctx_parseFrame_alt)
    moreover have "miss \<noteq> []" using Cons.prems(3) False by auto
    ultimately show ?thesis by simp
  qed
qed

text \<open>The arrival of a piece of data at a connection: it is appended to the buffer and processed.\<close>

definition arrive :: "'h wire \<Rightarrow> conn \<Rightarrow> byte list \<Rightarrow> byte list \<times> 'h webSocketServer \<times> 'h \<times> unit result \<Rightarrow> byte list \<times> 'h webSocketServer \<times> 'h \<times> unit result" where
  "arrive wire c chunk = (\<lambda>(buf, srv, w, r). processFrame wire c (buf @ chunk) srv w)"

lemma processFrame_open:
  assumes "handlers srv c = Some h" and "frameLoop h wire c buf ctx w = (False, buf1, ctx1, w1, r)"
  shows "processFrame wire c buf (srv\<lparr>contexts := (contexts srv)(c \<mapsto> ctx)\<rparr>) w = (buf1, srv\<lparr>contexts := (contexts srv)(c \<mapsto> ctx1)\<rparr>, w1, r)"
  using assms by (simp add: processFrame_def)

lemma arrivals:
  assumes "handlers srv c = Some h" and "quiet h c" and "\<forall>km \<in> set kms. message_ok km" and "data @ concat chunks = concat (map textFrame kms)"
    and "frameLoop h wire c data ctx0 w0 = (False, buf, ctx, w, Inr ())"
  shows "\<exists>ctx1. fold (arrive wire c) chunks (buf, srv\<lparr>contexts := (contexts srv)(c \<mapsto> ctx)\<rparr>, w, Inr ()) =
      ([], srv\<lparr>contexts := (contexts srv)(c \<mapsto> ctx1)\<rparr>, fold (takeMessage h c) kms w0, Inr ()) \<and> ws_state ctx1 = ws_state ctx0"
  using assms(4,5)
proof (induction chunks arbitrary: data buf ctx w)
  case Nil
  then show ?case using frameLoop_prefix [OF assms(3,2), of data "[]" wire ctx0 w0] by auto
next
  case (Cons ch chunks)
  have "(data @ ch) @ concat chunks = concat (map textFrame kms)" using Cons.prems(1) by simp
  moreover obtain buf1 ctx1 w1 where l: "frameLoop h wire c (data @ ch) ctx0 w0 = (False, buf1, ctx1, w1, Inr ())"
    using frameLoop_prefix [OF assms(3,2), of "data @ ch" "concat chunks" wire ctx0 w0] Cons.prems(1) by auto
  moreover have "frameLoop h wire c (buf @ ch) ctx w = (False, buf1, ctx1, w1, Inr ())"
    using frameLoop_append [OF Cons.prems(2), of ch] l by simp
  moreover from this have "arrive wire c ch (buf, srv\<lparr>contexts := (contexts srv)(c \<mapsto> ctx)\<rparr>, w, Inr ()) =
      (buf1, srv\<lparr>contexts := (contexts srv)(c \<mapsto> ctx1)\<rparr>, w1, Inr ())"
    unfolding arrive_def prod.case by (rule processFrame_open [OF assms(1)])
  ultimately show ?case using Cons.IH [of "data @ ch" buf1 ctx1 w1] by (simp del: fun_upd_apply)
qed

text \<open>C34: What a client sends arrives, however the network cuts it. When a client sends text messages in masked frames over
  an open connection and the bytes arrive in any pieces, the handler gets exactly these messages, each once and in order,
  nothing stays in the buffer and the connection stays registered.\<close>

theorem ws_messages_delivered:
  assumes "contexts srv c = Some ctx" and "handlers srv c = Some h" and "quiet h c" and "\<forall>km \<in> set kms. message_ok km"
    and "concat chunks = concat (map textFrame kms)"
  shows "\<exists>ctx1. fold (arrive wire c) chunks ([], srv, w, Inr ()) =
    ([], srv\<lparr>contexts := (contexts srv)(c \<mapsto> ctx1)\<rparr>, fold (takeMessage h c) kms w, Inr ()) \<and> ws_state ctx1 = ws_state ctx"
proof -
  have "srv\<lparr>contexts := (contexts srv)(c \<mapsto> ctx)\<rparr> = srv" using assms(1) by (simp add: fun_upd_idem)
  moreover have "frameLoop h wire c [] ctx w = (False, [], ctx, w, Inr ())" by (simp add: frameLoop.simps)
  ultimately show ?thesis using arrivals [OF assms(2,3,4), of "[]" chunks wire ctx w "[]" ctx w] assms(5) by simp
qed

text \<open>A handler that keeps a log, for concrete runs.\<close>

definition logger :: "string list webSocketHandler" where
  "logger = \<lparr>onOpen = (\<lambda>c w. (w, Inr ())), onMessage = (\<lambda>c m w. (w @ [m], Inr ())), onClose = (\<lambda>c w. (w, Inr ())),
     onPing = (\<lambda>c m w. (w, Inr ())), onPong = (\<lambda>c m w. (w, Inr ()))\<rparr>"

theorem ws_messages_delivered_witness:
  "fst (snd (snd (fold (arrive (\<lambda>c bs w. w) ''c1'')
      [take 3 (textFrame ([1, 2, 3, 4], ''hi'')), drop 3 (textFrame ([1, 2, 3, 4], ''hi'')) @ textFrame ([9, 9, 9, 9], ''you'')]
      ([], \<lparr>contexts = [''c1'' \<mapsto> WebSocketContext\<lparr>ws_state := WsOpen\<rparr>], handlers = [''c1'' \<mapsto> logger], connections = {''c1''}\<rparr>, [], Inr ())))) = [''hi'', ''you'']"
proof -
  let ?srv = "\<lparr>contexts = [''c1'' \<mapsto> WebSocketContext\<lparr>ws_state := WsOpen\<rparr>], handlers = [''c1'' \<mapsto> logger], connections = {''c1''}\<rparr>"
  let ?kms = "[([1, 2, 3, 4], ''hi''), ([9, 9, 9, 9], ''you'')]"
  obtain ctx1 where "fold (arrive (\<lambda>c bs w. w) ''c1'')
      [take 3 (textFrame ([1, 2, 3, 4], ''hi'')), drop 3 (textFrame ([1, 2, 3, 4], ''hi'')) @ textFrame ([9, 9, 9, 9], ''you'')] ([], ?srv, [], Inr ()) =
      ([], ?srv\<lparr>contexts := (contexts ?srv)(''c1'' \<mapsto> ctx1)\<rparr>, fold (takeMessage logger ''c1'') ?kms [], Inr ())"
    using ws_messages_delivered [of ?srv "''c1''" "WebSocketContext\<lparr>ws_state := WsOpen\<rparr>" logger ?kms
        "[take 3 (textFrame ([1, 2, 3, 4], ''hi'')), drop 3 (textFrame ([1, 2, 3, 4], ''hi'')) @ textFrame ([9, 9, 9, 9], ''you'')]" "\<lambda>c bs w. w" "[]"]
    by (fastforce simp: quiet_def logger_def message_ok_def)
  then show ?thesis by (simp add: takeMessage_def logger_def)
qed

text \<open>A frame is read back exactly: what \<open>parseFrame\<close> finds at the start of a buffer that begins with an encoded frame is
  that frame with its payload unmasked, and a buffer that holds only a part of it is recognised as incomplete.\<close>

theorem ws_frame_roundtrip:
  assumes "oc < 16" and "length key = 4" and "length p < 2 ^ 63"
  shows "parseFrame (encodeToString (createFrame key oc p m) @ rest) = Inr (Some \<lparr>fin = True, opCode = oc, mask = m, payloadLen = length p,
      maskingKey = (if m then key else [0, 0, 0, 0]), payload = p\<rparr>) \<and>
    (\<forall>k < length (encodeToString (createFrame key oc p m)). parseFrame (take k (encodeToString (createFrame key oc p m))) = Inr None)"
proof -
  have "parseFrame (take k (encodeToString (createFrame key oc p m))) = Inr None" if "k < length (encodeToString (createFrame key oc p m))" for k
    by (rule parse_prefix [OF assms(2,3), of oc m _ "drop k (encodeToString (createFrame key oc p m))"]) (use that in simp_all)
  then show ?thesis using parse_created [OF assms] by blast
qed

theorem ws_frame_roundtrip_witness:
  "parseFrame (encodeToString (createFrame [1, 2, 3, 4] OpBinary [7, 8, 9] True)) =
    Inr (Some \<lparr>fin = True, opCode = OpBinary, mask = True, payloadLen = 3, maskingKey = [1, 2, 3, 4], payload = [7, 8, 9]\<rparr>)"
  using ws_frame_roundtrip [of OpBinary "[1, 2, 3, 4]" "[7, 8, 9]" True "[]"] by (simp add: OpBinary_def)

text \<open>The frame parser stays inside the data it was given. A frame it returns lies within the buffer, header and
  payload, and has the announced length. It fails only when the announced length is so close to \<open>2 ^ 64\<close> that the sum
  with the header's size wraps around; there the test for missing data is passed and the construction of the payload
  throws.\<close>

theorem ws_parse_bounds:
  assumes "length data < 2 ^ 63"
  shows "case parseFrame data of
     Inl e \<Rightarrow> e = Uncaught ''length_error'' \<and> (\<exists>n off. frameLength data = Some (n, off) \<and> n < 2 ^ 64 \<and> 2 ^ 64 \<le> off + 4 + n)
   | Inr None \<Rightarrow> True
   | Inr (Some f) \<Rightarrow> headerSize data + payloadLen f \<le> length data \<and> length (payload f) = payloadLen f"
proof (cases "parseFrame data")
  case (Inl e)
  then obtain n off where fl: "frameLength data = Some (n, off)" and len: "2 \<le> length data" and e: "e = Uncaught ''length_error''"
    and n: "2 ^ 63 \<le> n" and le: "(headerSize data + n) mod 2 ^ 64 \<le> length data"
    by (auto simp: parseFrame_alt split: if_splits option.splits)
  note b = frameLength_Some [OF fl len]
  have h: "headerSize data \<le> off + 4" using frameLength_header [OF fl] by simp
  have "2 ^ 64 \<le> headerSize data + n"
  proof (rule ccontr)
    assume "\<not> 2 ^ 64 \<le> headerSize data + n"
    then have "(headerSize data + n) mod 2 ^ 64 = headerSize data + n" by simp
    then show False using le n assms by linarith
  qed
  then show ?thesis using Inl e fl b h by auto
next
  case (Inr x)
  then show ?thesis using parseFrame_Some [of data] by (auto split: option.splits)
qed

theorem ws_parse_bounds_witness:
  "parseFrame [0x81, 0x7F, 255, 255, 255, 255, 255, 255, 255, 255] = Inl (Uncaught ''length_error'') \<and>
    (\<exists>n off. frameLength [0x81, 0x7F, 255, 255, 255, 255, 255, 255, 255, 255] = Some (n, off) \<and> n < 2 ^ 64 \<and> 2 ^ 64 \<le> off + 4 + n)"
proof -
  have "parseFrame [0x81, 0x7F, 255, 255, 255, 255, 255, 255, 255, 255] = Inl (Uncaught ''length_error'')"
    by (simp add: parseFrame_def frameLength_def be_val_def WebSocketFrame_def)
  then show ?thesis using ws_parse_bounds [of "[0x81, 0x7F, 255, 255, 255, 255, 255, 255, 255, 255]"] by simp
qed

end
