(* ===== verification/GameServer.thy ===== *)
theory GameServer
  imports PvpService WsServer
begin

text \<open>
  The game server: matchmaking (\<open>MatchmakingPool.cpp\<close>), chat (\<open>ChatManager.cpp\<close>), the rooms that \<open>GomokuServer\<close> keeps in
  memory in front of the game service (\<open>GomokuServer.cpp\<close>) and the handler of the players' messages
  (\<open>GameWsHandler.cpp\<close>, \<open>gameWsMessages.cpp\<close>, \<open>gameWsMoveFlow.cpp\<close>). The state is the record \<open>gameServer\<close>; each handler is
  one step on it, and a handler that throws returns the exception with the state at that point. Hash maps that are
  iterated are association lists, in the order of the iteration. What is sent goes to the log \<open>gs_sent\<close> as the bytes
  on the wire. \<open>env\<close> holds what the handlers read of the world: which connections are up, the clock, the JSON library.
  A member lock is held for one access each, and the handlers of one connection run one after the other.
\<close>

section \<open>State\<close>

record 's gameServer =
  gs_store :: 's
  gs_rooms :: "(int \<times> gameRoom) list"
  gs_queue :: "int list"
  gs_lobby :: "(int \<times> conn option) list"
  gs_connToUser :: "conn \<rightharpoonup> int"
  gs_userToConn :: "int \<rightharpoonup> conn"
  gs_sent :: "(conn \<times> byte list) list"

record env =
  env_up :: "conn \<Rightarrow> bool"
  env_now :: int
  env_lib :: jsonLib

section \<open>Matchmaking\<close>

definition tryMatch :: "int \<Rightarrow> int list \<Rightarrow> int \<times> int list" where
  "tryMatch userId q =
     (if userId \<in> set q then (-2, q)
      else case q of opponent # rest \<Rightarrow> (opponent, rest) | [] \<Rightarrow> (-1, q @ [userId]))"

definition leaveQueue :: "int \<Rightarrow> int list \<Rightarrow> int list" where
  "leaveQueue userId q = remove1 userId q"

definition isInQueue :: "int \<Rightarrow> int list \<Rightarrow> bool" where
  "isInQueue userId q \<longleftrightarrow> userId \<in> set q"

section \<open>Sending and chat\<close>

definition wire_log :: "conn \<Rightarrow> byte list \<Rightarrow> 's gameServer \<Rightarrow> 's gameServer" where
  "wire_log c bs w = w\<lparr>gs_sent := gs_sent w @ [(c, bs)]\<rparr>"

definition send_json :: "env \<Rightarrow> conn \<Rightarrow> json \<Rightarrow> 's gameServer \<Rightarrow> 's gameServer" where
  "send_json env c j w = sendMessage wire_log c (json_dump (env_lib env) j) w"

text \<open>\<open>if (conn && conn->connected())\<close>\<close>

definition reachable :: "env \<Rightarrow> conn option \<Rightarrow> bool" where
  "reachable env p = (case p of None \<Rightarrow> False | Some c \<Rightarrow> env_up env c)"

definition send_if_up :: "env \<Rightarrow> conn option \<Rightarrow> json \<Rightarrow> 's gameServer \<Rightarrow> 's gameServer" where
  "send_if_up env p j w = (case p of Some c \<Rightarrow> if env_up env c then send_json env c j w else w | None \<Rightarrow> w)"

definition addToLobby :: "int \<Rightarrow> conn option \<Rightarrow> 's gameServer \<Rightarrow> 's gameServer" where
  "addToLobby userId p w = w\<lparr>gs_lobby := AList.update userId p (gs_lobby w)\<rparr>"

definition removeFromLobby :: "int \<Rightarrow> 's gameServer \<Rightarrow> 's gameServer" where
  "removeFromLobby userId w = w\<lparr>gs_lobby := AList.delete userId (gs_lobby w)\<rparr>"

definition broadcastLobby :: "env \<Rightarrow> int \<Rightarrow> string \<Rightarrow> string \<Rightarrow> 's gameServer \<Rightarrow> 's gameServer" where
  "broadcastLobby env senderId username message w =
     (let msg = JObject [(''type'', JString ''lobby_broadcast''), (''userId'', JInt senderId), (''username'', JString username),
                (''message'', JString message), (''timestamp'', JInt (env_now env))] in
      fold (\<lambda>(u, p). send_if_up env p msg) (gs_lobby w) w)"

definition sendToRoom :: "env \<Rightarrow> int \<Rightarrow> int \<Rightarrow> string \<Rightarrow> string \<Rightarrow> conn option \<Rightarrow> conn option \<Rightarrow> 's gameServer \<Rightarrow> 's gameServer" where
  "sendToRoom env rid senderId username message p1 p2 w =
     (let msg = JObject [(''type'', JString ''room_message''), (''roomId'', JInt rid), (''userId'', JInt senderId), (''username'', JString username),
                (''message'', JString message), (''timestamp'', JInt (env_now env))] in
      send_if_up env p2 msg (send_if_up env p1 msg w))"

definition sendSystemMessage :: "env \<Rightarrow> conn \<Rightarrow> string \<Rightarrow> 's gameServer \<Rightarrow> 's gameServer" where
  "sendSystemMessage env c message w =
     send_json env c (JObject [(''type'', JString ''system_message''), (''message'', JString message), (''timestamp'', JInt (env_now env))]) w"

definition getLobbyCount :: "'s gameServer \<Rightarrow> nat" where
  "getLobbyCount w = length (gs_lobby w)"

section \<open>Rooms in memory\<close>

text \<open>The end of \<open>moveGameRoom\<close>, \<open>loadGameRoom\<close> and \<open>finishGameRoom\<close>: a successful result replaces the room.\<close>

definition keepRoom :: "int \<Rightarrow> pvpGameResult \<Rightarrow> 's gameServer \<Rightarrow> 's gameServer \<times> pvpGameResult result" where
  "keepRoom rid res w =
     (if fst res \<noteq> PvpOk then (w, Inr res)
      else case fromSnapshot (snd res) of
          Inl e \<Rightarrow> (w, Inl e)
        | Inr room \<Rightarrow> (w\<lparr>gs_rooms := AList.update rid room (gs_rooms w)\<rparr>, Inr res))"

definition createGameRoom :: "'s loader \<Rightarrow> 's replacer \<Rightarrow> int \<Rightarrow> int \<Rightarrow> 's gameServer \<Rightarrow> 's gameServer \<times> int result" where
  "createGameRoom ld rp p1 p2 w =
     (let (s, res) = createRoom ld rp p1 p2 (gs_store w); w1 = w\<lparr>gs_store := s\<rparr> in
      case res of
        Inl e \<Rightarrow> (w1, Inl e)
      | Inr (st, snap) \<Rightarrow>
          if st \<noteq> PvpOk then (w1, Inr 0)
          else (case fromSnapshot snap of
              Inl e \<Rightarrow> (w1, Inl e)
            | Inr room \<Rightarrow> (w1\<lparr>gs_rooms := AList.update (roomId room) room (gs_rooms w1)\<rparr>, Inr (roomId room))))"

definition getGameRoom :: "'s loader \<Rightarrow> int \<Rightarrow> 's gameServer \<Rightarrow> 's gameServer \<times> gameRoom option result" where
  "getGameRoom ld rid w =
     (case map_of (gs_rooms w) rid of
        Some room \<Rightarrow> (w, Inr (Some room))
      | None \<Rightarrow>
          let (s, st, snap) = pvp_load ld rid (gs_store w); w1 = w\<lparr>gs_store := s\<rparr> in
          if st \<noteq> PvpOk then (w1, Inr None)
          else (case fromSnapshot snap of
              Inl e \<Rightarrow> (w1, Inl e)
            | Inr room \<Rightarrow> (w1\<lparr>gs_rooms := AList.update rid room (gs_rooms w1)\<rparr>, Inr (Some room))))"

definition moveGameRoom :: "'s loader \<Rightarrow> 's replacer \<Rightarrow> int \<Rightarrow> int \<Rightarrow> int \<Rightarrow> int \<Rightarrow> 's gameServer \<Rightarrow> 's gameServer \<times> pvpGameResult result" where
  "moveGameRoom ld rp rid playerId x y w =
     (let (s, res) = pvp_move ld rp rid playerId x y (gs_store w); w1 = w\<lparr>gs_store := s\<rparr> in
      case res of Inl e \<Rightarrow> (w1, Inl e) | Inr r \<Rightarrow> keepRoom rid r w1)"

definition loadGameRoom :: "'s loader \<Rightarrow> int \<Rightarrow> 's gameServer \<Rightarrow> 's gameServer \<times> pvpGameResult result" where
  "loadGameRoom ld rid w = (let (s, r) = pvp_load ld rid (gs_store w) in keepRoom rid r (w\<lparr>gs_store := s\<rparr>))"

definition finishGameRoom :: "'s loader \<Rightarrow> 's replacer \<Rightarrow> int \<Rightarrow> int \<Rightarrow> 's gameServer \<Rightarrow> 's gameServer \<times> pvpGameResult result" where
  "finishGameRoom ld rp rid winnerId w =
     (let (s, res) = pvp_finish ld rp rid winnerId (gs_store w); w1 = w\<lparr>gs_store := s\<rparr> in
      case res of Inl e \<Rightarrow> (w1, Inl e) | Inr r \<Rightarrow> keepRoom rid r w1)"

definition getRoomByUserId :: "int \<Rightarrow> 's gameServer \<Rightarrow> int" where
  "getRoomByUserId userId w =
     (case find (\<lambda>(rid, room). player1 room = userId \<or> player2 room = userId) (gs_rooms w) of Some (rid, room) \<Rightarrow> rid | None \<Rightarrow> 0)"

definition removeGameRoom :: "int \<Rightarrow> 's gameServer \<Rightarrow> 's gameServer" where
  "removeGameRoom rid w = w\<lparr>gs_rooms := AList.delete rid (gs_rooms w)\<rparr>"

text \<open>At the start the unfinished rooms are taken over; a snapshot that cannot be read is skipped.\<close>

definition recoverActiveGameRooms :: "'s loader \<Rightarrow> 's gameServer \<Rightarrow> 's gameServer" where
  "recoverActiveGameRooms ld w =
     (let (s, snaps) = recoverActiveRooms ld (gs_store w) in
      fold (\<lambda>snap w. case fromSnapshot snap of Inl _ \<Rightarrow> w | Inr room \<Rightarrow> w\<lparr>gs_rooms := AList.update (roomId room) room (gs_rooms w)\<rparr>)
        snaps (w\<lparr>gs_store := s\<rparr>))"

definition GomokuServer :: "'s loader \<Rightarrow> 's \<Rightarrow> 's gameServer" where
  "GomokuServer ld s = recoverActiveGameRooms ld \<lparr>gs_store = s, gs_rooms = [], gs_queue = [], gs_lobby = [], gs_connToUser = Map.empty,
     gs_userToConn = Map.empty, gs_sent = []\<rparr>"

section \<open>Connections and users\<close>

definition getUserId :: "conn \<Rightarrow> 's gameServer \<Rightarrow> int" where
  "getUserId c w = (case gs_connToUser w c of Some u \<Rightarrow> u | None \<Rightarrow> 0)"

definition setUserId :: "conn \<Rightarrow> int \<Rightarrow> 's gameServer \<Rightarrow> 's gameServer" where
  "setUserId c userId w = w\<lparr>gs_connToUser := (gs_connToUser w)(c \<mapsto> userId), gs_userToConn := (gs_userToConn w)(userId \<mapsto> c)\<rparr>"

definition removeUserId :: "conn \<Rightarrow> 's gameServer \<Rightarrow> 's gameServer" where
  "removeUserId c w = (case gs_connToUser w c of
       Some u \<Rightarrow> w\<lparr>gs_userToConn := (gs_userToConn w)(u := None), gs_connToUser := (gs_connToUser w)(c := None)\<rparr>
     | None \<Rightarrow> w)"

definition getConnectionByUserId :: "int \<Rightarrow> 's gameServer \<Rightarrow> conn option" where
  "getConnectionByUserId userId w = gs_userToConn w userId"

section \<open>Messages\<close>

text \<open>Literals of the source outside ASCII, by their bytes.\<close>

definition utf8 :: "nat list \<Rightarrow> string" where "utf8 = map char_of"

definition msg_disconnected :: string where "msg_disconnected = utf8 [229, 175, 185, 230, 137, 139, 229, 183, 178, 230, 150, 173, 229, 188, 128, 232, 191, 158, 230, 142, 165]"
definition msg_waiting :: string where "msg_waiting = utf8 [230, 173, 163, 229, 156, 168, 229, 175, 187, 230, 137, 190, 229, 175, 185, 230, 137, 139, 46, 46, 46]"
definition msg_already :: string where "msg_already = utf8 [229, 183, 178, 229, 156, 168, 229, 140, 185, 233, 133, 141, 233, 152, 159, 229, 136, 151, 228, 184, 173, 239, 188, 140, 232, 175, 183, 232, 128, 144, 229, 191, 131, 231, 173, 137, 229, 190, 133]"
definition msg_cancelled :: string where "msg_cancelled = utf8 [229, 183, 178, 229, 143, 150, 230, 182, 136, 229, 140, 185, 233, 133, 141]"
definition msg_no_game :: string where "msg_no_game = utf8 [228, 189, 160, 228, 184, 141, 229, 156, 168, 228, 187, 187, 228, 189, 149, 229, 175, 185, 229, 177, 128, 228, 184, 173]"
definition msg_no_room :: string where "msg_no_room = utf8 [230, 136, 191, 233, 151, 180, 228, 184, 141, 229, 173, 152, 229, 156, 168]"
definition msg_bad_cell :: string where "msg_bad_cell = utf8 [230, 151, 160, 230, 149, 136, 231, 154, 132, 232, 144, 189, 229, 173, 144, 228, 189, 141, 231, 189, 174]"
definition msg_not_turn :: string where "msg_not_turn = utf8 [232, 191, 152, 230, 178, 161, 232, 189, 174, 229, 136, 176, 228, 189, 160, 232, 144, 189, 229, 173, 144]"
definition msg_draw :: string where "msg_draw = utf8 [229, 185, 179, 229, 177, 128, 239, 188, 129]"
definition msg_won :: string where "msg_won = utf8 [228, 189, 160, 232, 181, 162, 228, 186, 134, 239, 188, 129]"
definition msg_lost :: string where "msg_lost = utf8 [228, 189, 160, 232, 190, 147, 228, 186, 134, 239, 188, 129]"
definition msg_left :: string where "msg_left = utf8 [229, 175, 185, 230, 137, 139, 229, 183, 178, 231, 166, 187, 229, 188, 128, 239, 188, 140, 228, 189, 160, 232, 142, 183, 232, 131, 156, 228, 186, 134, 239, 188, 129]"

definition raftUnavailable :: "int \<Rightarrow> json \<times> bool" where
  "raftUnavailable rid = (JObject [(''type'', JString ''raft_unavailable''), (''roomId'', JInt rid)], False)"

definition stateResult :: "json \<Rightarrow> json" where
  "stateResult snap = JObject [(''type'', JString ''state_result''), (''state'', snap)]"

definition moveResult :: "int \<Rightarrow> int \<Rightarrow> int \<Rightarrow> int \<Rightarrow> string \<Rightarrow> json \<Rightarrow> json \<times> bool" where
  "moveResult rid playerId x y color snap =
     (JObject [(''type'', JString ''move_result''), (''roomId'', JInt rid), (''x'', JInt x), (''y'', JInt y), (''color'', JString color),
        (''userId'', JInt playerId), (''state'', snap)], True)"

definition errorMessage :: "string \<Rightarrow> json" where
  "errorMessage text = JObject [(''type'', JString ''error''), (''message'', JString text)]"

text \<open>\<open>GameWsMoveFlow::submit\<close>: the result of the move, and the message to the requester when the store is unavailable.\<close>

definition submit :: "int \<Rightarrow> (json \<Rightarrow> 's gameServer \<Rightarrow> 's gameServer) \<Rightarrow> ('s gameServer \<Rightarrow> 's gameServer \<times> pvpGameResult result) \<Rightarrow>
    's gameServer \<Rightarrow> 's gameServer \<times> pvpGameResult result" where
  "submit rid sendToRequester commitMove w =
     (let (w1, res) = commitMove w in
      case res of
        Inl e \<Rightarrow> (w1, Inl e)
      | Inr r \<Rightarrow>
          if fst r \<noteq> PvpUnavailable then (w1, Inr r)
          else let (msg, bcast) = raftUnavailable rid in (if \<not> bcast then sendToRequester msg w1 else w1, Inr r))"

text \<open>\<open>j.value(key, default)\<close>: a value of the wrong type throws, as does a \<open>j\<close> that is no object; an integer is cut to 32 bits.\<close>

definition wrap32 :: "int \<Rightarrow> int" where
  "wrap32 i = (i + 2 ^ 31) mod 2 ^ 32 - 2 ^ 31"

definition value_string :: "string \<Rightarrow> string \<Rightarrow> json \<Rightarrow> string result" where
  "value_string k d j = (case j of JObject kvs \<Rightarrow> (case map_of kvs k of None \<Rightarrow> Inr d | Some v \<Rightarrow> json_string v) | _ \<Rightarrow> Inl (Uncaught ''type_error''))"

definition value_int :: "string \<Rightarrow> int \<Rightarrow> json \<Rightarrow> int result" where
  "value_int k d j = (case j of JObject kvs \<Rightarrow> (case map_of kvs k of None \<Rightarrow> Inr d | Some v \<Rightarrow> rbind (json_int v) (\<lambda>i. Inr (wrap32 i))) | _ \<Rightarrow> Inl (Uncaught ''type_error''))"

section \<open>The handlers\<close>

definition handleMatchRequest :: "env \<Rightarrow> 's loader \<Rightarrow> 's replacer \<Rightarrow> conn \<Rightarrow> int \<Rightarrow> 's gameServer \<Rightarrow> 's gameServer \<times> unit result" where
  "handleMatchRequest env ld rp c userId w0 =
     (let (result, q) = tryMatch userId (gs_queue w0); w = w0\<lparr>gs_queue := q\<rparr> in
      if result \<ge> 0 then
        let opponent = result; oppConn = getConnectionByUserId opponent w; (w1, created) = createGameRoom ld rp userId opponent w in
        case created of
          Inl e \<Rightarrow> (w1, Inl e)
        | Inr rid \<Rightarrow>
            if rid \<le> 0 then (send_json env c (JObject [(''type'', JString ''raft_unavailable''), (''roomId'', JInt 0)]) w1, Inr ())
            else
              let w2 = removeFromLobby opponent (removeFromLobby userId w1);
                  w3 = send_json env c (JObject [(''type'', JString ''match_found''), (''roomId'', JInt rid), (''color'', JString ''black''),
                         (''opponent'', JInt opponent), (''yourTurn'', JBool True)]) w2;
                  w4 = send_if_up env oppConn (JObject [(''type'', JString ''match_found''), (''roomId'', JInt rid), (''color'', JString ''white''),
                         (''opponent'', JInt userId), (''yourTurn'', JBool False)]) w3 in
              (w4, Inr ())
      else if result = -1 then
        (send_json env c (JObject [(''type'', JString ''match_waiting''), (''message'', JString msg_waiting)]) w, Inr ())
      else if result = -2 then
        (send_json env c (JObject [(''type'', JString ''match_waiting''), (''message'', JString msg_already)]) w, Inr ())
      else (w, Inr ()))"

definition handleMatchCancel :: "env \<Rightarrow> int \<Rightarrow> 's gameServer \<Rightarrow> 's gameServer \<times> unit result" where
  "handleMatchCancel env userId w =
     (let w1 = w\<lparr>gs_queue := leaveQueue userId (gs_queue w)\<rparr> in
      (send_if_up env (getConnectionByUserId userId w1) (JObject [(''type'', JString ''match_cancelled''), (''message'', JString msg_cancelled)]) w1, Inr ()))"

definition handleStateRequest :: "env \<Rightarrow> 's loader \<Rightarrow> conn \<Rightarrow> int \<Rightarrow> 's gameServer \<Rightarrow> 's gameServer \<times> unit result" where
  "handleStateRequest env ld c userId w =
     (let rid = getRoomByUserId userId w in
      if rid \<le> 0 then (send_json env c (errorMessage msg_no_game) w, Inr ())
      else
        let (w1, res) = loadGameRoom ld rid w in
        case res of
          Inl e \<Rightarrow> (w1, Inl e)
        | Inr (st, snap) \<Rightarrow>
            if st = PvpUnavailable then (send_json env c (fst (raftUnavailable rid)) w1, Inr ())
            else if st \<noteq> PvpOk then (send_json env c (errorMessage msg_no_room) w1, Inr ())
            else (send_json env c (stateResult snap) w1, Inr ()))"

text \<open>The fields of a move's result that depend on whether the game is over.\<close>

definition resultFields :: "int \<Rightarrow> json \<Rightarrow> json \<Rightarrow> json result" where
  "resultFields userId snap data =
     rbind (rbind (json_at ''gameOver'' snap) json_bool) (\<lambda>over.
     if over then
       rbind (rbind (json_at ''winner'' snap) json_int) (\<lambda>win.
       if win = -1 then
         Inr (json_set ''message'' (JString msg_draw) (json_set ''result'' (JString ''draw'') (json_set ''gameOver'' (JBool True) data)))
       else
         Inr (json_set ''message'' (JString (if win = userId then msg_won else msg_lost))
           (json_set ''result'' (JString (if win = userId then ''win'' else ''lose''))
           (json_set ''winner'' (JInt win) (json_set ''gameOver'' (JBool True) data)))))
     else
       rbind (json_at ''currentTurn'' snap) (\<lambda>turn.
       Inr (json_set ''nextTurn'' turn (json_set ''gameOver'' (JBool False) data))))"

text \<open>After a committed move: what is sent to the players, and the end of the game.\<close>

definition announceMove :: "env \<Rightarrow> conn \<Rightarrow> int \<Rightarrow> int \<Rightarrow> int \<Rightarrow> int \<Rightarrow> json \<Rightarrow> 's gameServer \<Rightarrow> 's gameServer \<times> unit result" where
  "announceMove env c userId rid x y snap w =
     (case rbind (rbind (json_at ''player1'' snap) json_int) (\<lambda>p1. rbind (rbind (json_at ''player2'' snap) json_int) (\<lambda>p2. Inr (p1, p2))) of
        Inl e \<Rightarrow> (w, Inl e)
      | Inr (p1, p2) \<Rightarrow>
          let color = (if userId = p1 then ''black'' else ''white'');
              opponentId = (if userId = p1 then p2 else p1);
              oppConn = getConnectionByUserId opponentId w;
              (data0, bcast) = moveResult rid userId x y color snap in
          (case resultFields userId snap data0 of
             Inl e \<Rightarrow> (w, Inl e)
           | Inr data1 \<Rightarrow>
               let w1 = (if bcast then send_if_up env oppConn data1 (send_json env c data1 w) else w) in
               (case rbind (json_at ''gameOver'' snap) json_bool of
                  Inl e \<Rightarrow> (w1, Inl e)
                | Inr over \<Rightarrow>
                    if over then
                      let w2 = addToLobby userId (Some c) w1;
                          w3 = (if reachable env oppConn then addToLobby opponentId oppConn w2 else w2) in
                      (removeGameRoom rid w3, Inr ())
                    else (w1, Inr ()))))"

definition handleMove :: "env \<Rightarrow> 's loader \<Rightarrow> 's replacer \<Rightarrow> conn \<Rightarrow> int \<Rightarrow> json \<Rightarrow> 's gameServer \<Rightarrow> 's gameServer \<times> unit result" where
  "handleMove env ld rp c userId msg w =
     (let rid = getRoomByUserId userId w in
      if rid \<le> 0 then (send_json env c (errorMessage msg_no_game) w, Inr ())
      else
        case rbind (value_int ''x'' (-1) msg) (\<lambda>x. rbind (value_int ''y'' (-1) msg) (\<lambda>y. Inr (x, y))) of
          Inl e \<Rightarrow> (w, Inl e)
        | Inr (x, y) \<Rightarrow>
            let (w1, res) = submit rid (send_json env c) (moveGameRoom ld rp rid userId x y) w in
            (case res of
               Inl e \<Rightarrow> (w1, Inl e)
             | Inr (st, snap) \<Rightarrow>
                 if st = PvpUnavailable then (w1, Inr ())
                 else if st = PvpInvalidMove then (send_json env c (errorMessage msg_bad_cell) w1, Inr ())
                 else if st = PvpNotYourTurn then (send_json env c (errorMessage msg_not_turn) w1, Inr ())
                 else if st \<noteq> PvpOk then (send_json env c (errorMessage ''game is over'') w1, Inr ())
                 else announceMove env c userId rid x y snap w1))"

definition handleChatLobby :: "env \<Rightarrow> int \<Rightarrow> json \<Rightarrow> 's gameServer \<Rightarrow> 's gameServer \<times> unit result" where
  "handleChatLobby env userId msg w =
     (case rbind (value_string ''username'' [] msg) (\<lambda>u. rbind (value_string ''message'' [] msg) (\<lambda>m. Inr (u, m))) of
        Inl e \<Rightarrow> (w, Inl e)
      | Inr (username, message) \<Rightarrow> if message = [] then (w, Inr ()) else (broadcastLobby env userId username message w, Inr ()))"

definition handleChatRoom :: "env \<Rightarrow> 's loader \<Rightarrow> conn \<Rightarrow> int \<Rightarrow> json \<Rightarrow> 's gameServer \<Rightarrow> 's gameServer \<times> unit result" where
  "handleChatRoom env ld c userId msg w =
     (let rid = getRoomByUserId userId w in
      if rid \<le> 0 then (w, Inr ())
      else
        let (w1, found) = getGameRoom ld rid w in
        case found of
          Inl e \<Rightarrow> (w1, Inl e)
        | Inr None \<Rightarrow> (w1, Inr ())
        | Inr (Some room) \<Rightarrow>
            (case rbind (value_string ''username'' [] msg) (\<lambda>u. rbind (value_string ''message'' [] msg) (\<lambda>m. Inr (u, m))) of
               Inl e \<Rightarrow> (w1, Inl e)
             | Inr (username, message) \<Rightarrow>
                 if message = [] then (w1, Inr ())
                 else
                   let oppConn = getConnectionByUserId (getOpponent userId room) w1 in
                   (sendToRoom env rid userId username message (Some c) oppConn w1, Inr ())))"

definition handleLeaveGame :: "env \<Rightarrow> 's loader \<Rightarrow> 's replacer \<Rightarrow> int \<Rightarrow> 's gameServer \<Rightarrow> 's gameServer \<times> unit result" where
  "handleLeaveGame env ld rp userId w =
     (let rid = getRoomByUserId userId w in
      if rid \<le> 0 then (w, Inr ())
      else
        let (w1, found) = getGameRoom ld rid w in
        case found of
          Inl e \<Rightarrow> (w1, Inl e)
        | Inr None \<Rightarrow> (w1, Inr ())
        | Inr (Some room) \<Rightarrow>
            let opponentId = getOpponent userId room; (w2, res) = finishGameRoom ld rp rid opponentId w1 in
            (case res of
               Inl e \<Rightarrow> (w2, Inl e)
             | Inr (st, snap) \<Rightarrow>
                 if st \<noteq> PvpOk then (w2, Inr ())
                 else
                   let oppConn = getConnectionByUserId opponentId w2;
                       w3 = (if reachable env oppConn then
                           addToLobby opponentId oppConn (send_if_up env oppConn (JObject [(''type'', JString ''game_over''), (''winner'', JInt opponentId),
                             (''reason'', JString ''opponent_left''), (''message'', JString msg_left)]) w2)
                         else w2);
                       own = getConnectionByUserId userId w3;
                       w4 = (if reachable env own then addToLobby userId own w3 else w3) in
                   (removeGameRoom rid w4, Inr ())))"

text \<open>The dispatch of \<open>onMessage\<close>; its \<open>catch\<close> makes every exception a log line.\<close>

definition dispatchMessage :: "env \<Rightarrow> 's loader \<Rightarrow> 's replacer \<Rightarrow> conn \<Rightarrow> string \<Rightarrow> 's gameServer \<Rightarrow> 's gameServer \<times> unit result" where
  "dispatchMessage env ld rp c text w =
     (case json_parse (env_lib env) text of
        None \<Rightarrow> (w, Inl (Uncaught ''parse_error''))
      | Some msg \<Rightarrow>
          (case value_string ''type'' [] msg of
             Inl e \<Rightarrow> (w, Inl e)
           | Inr kind \<Rightarrow>
               let userId = getUserId c w in
               if kind = ''match_request'' then handleMatchRequest env ld rp c userId w
               else if kind = ''match_cancel'' then handleMatchCancel env userId w
               else if kind = ''move'' then handleMove env ld rp c userId msg w
               else if kind = ''state_request'' then handleStateRequest env ld c userId w
               else if kind = ''chat_lobby'' then handleChatLobby env userId msg w
               else if kind = ''chat_room'' then handleChatRoom env ld c userId msg w
               else if kind = ''leave_game'' then handleLeaveGame env ld rp userId w
               else (w, Inr ())))"

definition game_onMessage :: "env \<Rightarrow> 's loader \<Rightarrow> 's replacer \<Rightarrow> conn \<Rightarrow> string \<Rightarrow> 's gameServer \<Rightarrow> 's gameServer \<times> unit result" where
  "game_onMessage env ld rp c text w = (fst (dispatchMessage env ld rp c text w), Inr ())"

text \<open>What \<open>onClose\<close> does about the game of a user that left.\<close>

definition abandonGame :: "env \<Rightarrow> 's loader \<Rightarrow> 's replacer \<Rightarrow> int \<Rightarrow> 's gameServer \<Rightarrow> 's gameServer \<times> unit result" where
  "abandonGame env ld rp userId w =
     (let rid = getRoomByUserId userId w in
      if rid > 0 then
        let (w1, found) = getGameRoom ld rid w in
        case found of
          Inl e \<Rightarrow> (w1, Inl e)
        | Inr None \<Rightarrow> (w1, Inr ())
        | Inr (Some room) \<Rightarrow>
            let opponentId = getOpponent userId room; oppConn = getConnectionByUserId opponentId w1;
                (w2, res) = finishGameRoom ld rp rid opponentId w1 in
            (case res of
               Inl e \<Rightarrow> (w2, Inl e)
             | Inr (st, snap) \<Rightarrow>
                 if st \<noteq> PvpOk then (w2, Inr ())
                 else
                   let w3 = send_if_up env oppConn (JObject [(''type'', JString ''opponent_left''), (''message'', JString msg_disconnected)]) w2;
                       w4 = (if opponentId > 0 then addToLobby opponentId oppConn w3 else w3) in
                   (removeGameRoom rid w4, Inr ()))
      else (w, Inr ()))"

definition game_onClose :: "env \<Rightarrow> 's loader \<Rightarrow> 's replacer \<Rightarrow> conn \<Rightarrow> 's gameServer \<Rightarrow> 's gameServer \<times> unit result" where
  "game_onClose env ld rp c w =
     (let userId = getUserId c w;
          (w2, r) = (if userId > 0 then
              abandonGame env ld rp userId (removeFromLobby userId (w\<lparr>gs_queue := leaveQueue userId (gs_queue w)\<rparr>))
            else (w, Inr ())) in
      case r of Inl e \<Rightarrow> (w2, Inl e) | Inr _ \<Rightarrow> (removeUserId c w2, Inr ()))"

definition GameWsHandler :: "env \<Rightarrow> 's loader \<Rightarrow> 's replacer \<Rightarrow> 's gameServer webSocketHandler" where
  "GameWsHandler env ld rp = \<lparr>onOpen = (\<lambda>c w. (w, Inr ())), onMessage = game_onMessage env ld rp, onClose = game_onClose env ld rp,
     onPing = (\<lambda>c p w. (w, Inr ())), onPong = (\<lambda>c p w. (w, Inr ()))\<rparr>"

text \<open>The handshake of a logged-in user; \<open>session\<close> is what the session holds under a key.\<close>

definition game_handle :: "env \<Rightarrow> 's loader \<Rightarrow> 's replacer \<Rightarrow> (string \<Rightarrow> string) \<Rightarrow> (string \<Rightarrow> string) \<Rightarrow> httpRequest \<Rightarrow> httpResponse \<Rightarrow>
    's gameServer webSocketServer \<Rightarrow> 's gameServer \<Rightarrow> httpResponse \<times> 's gameServer webSocketServer \<times> 's gameServer \<times> unit result" where
  "game_handle env ld rp digest session req resp srv w =
     (if session ''isLoggedIn'' \<noteq> ''true''
      then (resp\<lparr>statusCode := 401, statusMessage := ''Unauthorized'', closeConnection := True\<rparr>, srv, w, Inr ())
      else case stoi (session ''userId'') of
          Inl e \<Rightarrow> (resp, srv, w, Inl e)
        | Inr userId \<Rightarrow>
            (case connectionPtr req of
               None \<Rightarrow> (resp\<lparr>statusCode := 500, statusMessage := ''Internal Server Error'', closeConnection := True\<rparr>, srv, w, Inr ())
             | Some c \<Rightarrow>
                 let (success, resp1, srv1, w1, r) = handleUpgrade digest req resp (GameWsHandler env ld rp) c srv w in
                 (case r of
                    Inl e \<Rightarrow> (resp1, srv1, w1, Inl e)
                  | Inr _ \<Rightarrow> (resp1, srv1, if success then addToLobby userId (Some c) (setUserId c userId w1) else w1, Inr ()))))"

end
