(* ===== verification/GameSafety.thy ===== *)
theory GameSafety
  imports GameServer
begin

text \<open>
  The game server over the game service. \<open>server_rel\<close> ties the server's memory and everything it has sent to the stored
  games; \<open>good\<close>, inside \<open>game_store\<close>, says of a step that it keeps this and moves the stored games only forward. Every
  handler is shown to be good once, for any store with the contract; the property is the instance for the store on
  the replicated service.
\<close>

section \<open>What the server keeps\<close>

text \<open>Every room in memory is a past or present state of the stored one.\<close>

definition cache_ok :: "rooms \<Rightarrow> (int \<times> gameRoom) list \<Rightarrow> bool" where
  "cache_ok rooms kvs \<longleftrightarrow> (\<forall>(rid, r) \<in> set kvs. \<exists>r'. rooms rid = Some r' \<and> played r r')"

text \<open>A message on the wire is the text of a JSON value, and the game state it shows, if any, is a past or present state of a stored room.\<close>

definition shows_stored :: "rooms \<Rightarrow> json \<Rightarrow> bool" where
  "shows_stored rooms j \<longleftrightarrow> (\<forall>s. json_at ''state'' j = Inr s \<longrightarrow> (\<exists>i r r'. s = snapshot r \<and> rooms i = Some r' \<and> played r r'))"

definition announced :: "jsonLib \<Rightarrow> rooms \<Rightarrow> conn \<times> byte list \<Rightarrow> bool" where
  "announced lib rooms = (\<lambda>(c, bs). \<exists>j. bs = encodeToString (createFrame [] OpText (of_str (json_dump lib j)) False) \<and> shows_stored rooms j)"

definition server_rel :: "jsonLib \<Rightarrow> (string \<rightharpoonup> json) \<Rightarrow> 's gameServer \<Rightarrow> int \<Rightarrow> rooms \<Rightarrow> bool" where
  "server_rel lib m w n rooms \<longleftrightarrow> svc_rel m n rooms \<and> cache_ok rooms (gs_rooms w) \<and> distinct (gs_queue w) \<and> (\<forall>x \<in> set (gs_sent w). announced lib rooms x)"

lemma cache_ok_mono: "cache_ok rooms kvs \<Longrightarrow> svc_leq n rooms n' rooms' \<Longrightarrow> cache_ok rooms' kvs"
  unfolding cache_ok_def svc_leq_def by (fast intro: played_trans)

lemma shows_stored_mono: "shows_stored rooms j \<Longrightarrow> svc_leq n rooms n' rooms' \<Longrightarrow> shows_stored rooms' j"
  unfolding shows_stored_def svc_leq_def by (meson played_trans)

lemma announced_mono: "announced lib rooms x \<Longrightarrow> svc_leq n rooms n' rooms' \<Longrightarrow> announced lib rooms' x"
  unfolding announced_def by (cases x) (auto dest: shows_stored_mono)

lemma server_rel_mono:
  assumes "server_rel lib m w n rooms" and "svc_leq n rooms n' rooms'" and "svc_rel m' n' rooms'"
  shows "server_rel lib m' w n' rooms'"
  using assms cache_ok_mono [OF _ assms(2)] announced_mono [OF _ assms(2)] by (simp add: server_rel_def)

lemma cache_ok_update: "cache_ok rooms kvs \<Longrightarrow> rooms rid = Some r' \<Longrightarrow> played r r' \<Longrightarrow> cache_ok rooms (AList.update rid r kvs)"
  by (induction kvs) (auto simp: cache_ok_def)

lemma cache_ok_delete: "cache_ok rooms kvs \<Longrightarrow> cache_ok rooms (AList.delete rid kvs)"
  by (auto simp: cache_ok_def AList.delete_eq)

lemma server_rel_keep:
  assumes "server_rel lib m w n rooms" and "rooms rid = Some r'" and "played r r'"
  shows "server_rel lib m (w\<lparr>gs_rooms := AList.update rid r (gs_rooms w)\<rparr>) n rooms"
  using assms by (simp add: server_rel_def cache_ok_update)

lemma server_rel_store [simp]: "server_rel lib m (w\<lparr>gs_store := s\<rparr>) n rooms = server_rel lib m w n rooms"
  by (simp add: server_rel_def)

lemma server_rel_send:
  assumes "server_rel lib m w n rooms" and "shows_stored rooms j" and "env_lib env = lib"
  shows "server_rel lib m (send_json env c j w) n rooms"
proof -
  have "announced lib rooms (c, encodeToString (createFrame [] OpText (of_str (json_dump lib j)) False))"
    unfolding announced_def using assms(2) by auto
  then show ?thesis using assms by (auto simp: server_rel_def send_json_def sendMessage_def wire_log_def)
qed

lemma server_rel_send_if_up:
  assumes "server_rel lib m w n rooms" and "shows_stored rooms j" and "env_lib env = lib"
  shows "server_rel lib m (send_if_up env p j w) n rooms"
  using server_rel_send [OF assms] assms(1) by (simp add: send_if_up_def split: option.split)

lemma send_store [simp]: "gs_store (send_json env c j w) = gs_store w" "gs_store (send_if_up env p j w) = gs_store w"
  by (simp_all add: send_if_up_def send_json_def sendMessage_def wire_log_def split: option.split)

lemma no_state: "(\<And>s. json_at ''state'' j \<noteq> Inr s) \<Longrightarrow> shows_stored rooms j"
  by (simp add: shows_stored_def)

context game_store
begin

text \<open>A step of the server that keeps what was promised, from any state of the abstract service to a later one.\<close>

definition good :: "jsonLib \<Rightarrow> 's gameServer \<Rightarrow> 's gameServer \<Rightarrow> bool" where
  "good lib w w' \<longleftrightarrow> (\<forall>n rooms. ok (gs_store w) \<and> server_rel lib (view (gs_store w)) w n rooms \<longrightarrow>
     ok (gs_store w') \<and> (\<exists>n' rooms'. server_rel lib (view (gs_store w')) w' n' rooms' \<and> svc_leq n rooms n' rooms'))"

lemma good_refl: "good lib w w"
  unfolding good_def using svc_leq_refl by blast

lemma good_trans: "good lib w w1 \<Longrightarrow> good lib w1 w2 \<Longrightarrow> good lib w w2"
  unfolding good_def by (meson svc_leq_trans)

text \<open>Steps that do not touch the store.\<close>

lemma good_local:
  assumes "gs_store w' = gs_store w" and "\<And>rooms. cache_ok rooms (gs_rooms w) \<Longrightarrow> cache_ok rooms (gs_rooms w')"
    and "distinct (gs_queue w) \<Longrightarrow> distinct (gs_queue w')" and "gs_sent w' = gs_sent w"
  shows "good lib w w'"
  using assms svc_leq_refl unfolding good_def server_rel_def by metis

lemma good_addToLobby: "good lib w (addToLobby u p w)" and good_removeFromLobby: "good lib w (removeFromLobby u w)"
  and good_removeGameRoom: "good lib w (removeGameRoom rid w)" and good_removeUserId: "good lib w (removeUserId c w)"
  and good_setUserId: "good lib w (setUserId c u w)" and good_leaveQueue: "good lib w (w\<lparr>gs_queue := leaveQueue u (gs_queue w)\<rparr>)"
  by (rule good_local; simp add: addToLobby_def removeFromLobby_def removeGameRoom_def removeUserId_def setUserId_def leaveQueue_def cache_ok_delete split: option.split)+

lemma good_send:
  assumes "env_lib env = lib" and "\<And>s. json_at ''state'' j \<noteq> Inr s"
  shows "good lib w (send_json env c j w)"
  using server_rel_send [OF _ no_state [OF assms(2)] assms(1)] svc_leq_refl unfolding good_def by (metis send_store(1))

lemma good_send_if_up:
  assumes "env_lib env = lib" and "\<And>s. json_at ''state'' j \<noteq> Inr s"
  shows "good lib w (send_if_up env p j w)"
  using good_send [OF assms] by (simp add: send_if_up_def good_refl split: option.split)

text \<open>A step of the service under the server.\<close>

lemma good_keepRoom:
  assumes ok: "ok s'" and rel: "server_rel lib (view s') (w\<lparr>gs_store := s'\<rparr>) n rooms" and res: "fst res = PvpOk \<Longrightarrow> \<exists>r. rooms rid = Some r \<and> snd res = snapshot r"
    and kr: "keepRoom rid res (w\<lparr>gs_store := s'\<rparr>) = (w', out)"
  shows "gs_store w' = s' \<and> server_rel lib (view s') w' n rooms \<and> out = Inr res"
proof (cases "fst res = PvpOk")
  case True
  then obtain r where r: "rooms rid = Some r" "snd res = snapshot r" using res by blast
  then have "w' = w\<lparr>gs_store := s', gs_rooms := AList.update rid r (gs_rooms w)\<rparr>" "out = Inr res"
    using kr True by (auto simp: keepRoom_def fromSnapshot_snapshot)
  then show ?thesis using server_rel_keep [OF rel r(1) played.start] by simp
qed (use kr rel in \<open>auto simp: keepRoom_def\<close>)

lemma finish_result: "fst (spec_finish i p rooms) = PvpOk \<Longrightarrow> \<exists>r. snd (spec_finish i p rooms) i = Some r"
  by (auto simp: spec_finish_def split: option.splits)

lemma move_result: "fst (spec_move i p x y rooms) = PvpOk \<Longrightarrow> \<exists>r. snd (spec_move i p x y rooms) i = Some r"
  by (auto simp: spec_move_def split: option.splits if_splits)

text \<open>A call of the service whose outcome is the specification's, or unavailable with either state: the room in memory follows.\<close>

lemma follow_service:
  assumes rel: "server_rel lib (view (gs_store w)) w n rooms" and ok': "ok s'" and leq: "svc_leq n rooms n rooms'"
    and out: "st = spec_st \<and> svc_rel (view s') n rooms' \<and> j = shown (rooms' rid) \<or> st = PvpUnavailable \<and> (svc_rel (view s') n rooms \<or> svc_rel (view s') n rooms')"
    and res: "spec_st = PvpOk \<Longrightarrow> \<exists>r. rooms' rid = Some r" and kr: "keepRoom rid (st, j) (w\<lparr>gs_store := s'\<rparr>) = (w', out')"
  shows "ok (gs_store w') \<and> out' = Inr (st, j) \<and> (\<exists>n' rooms''. server_rel lib (view (gs_store w')) w' n' rooms'' \<and> svc_leq n rooms n' rooms'' \<and>
    (st = PvpOk \<longrightarrow> (\<exists>r. rooms'' rid = Some r \<and> j = snapshot r)))"
proof -
  obtain rooms'' where r: "rooms'' = rooms \<or> rooms'' = rooms'" "svc_rel (view s') n rooms''" "st = PvpOk \<longrightarrow> (\<exists>r. rooms'' rid = Some r \<and> j = snapshot r)"
  proof (cases "st = spec_st \<and> svc_rel (view s') n rooms' \<and> j = shown (rooms' rid)")
    case True
    then show ?thesis using that [of rooms'] res by (auto simp: shown_def split: option.splits)
  next
    case False
    then show ?thesis using that out by auto
  qed
  then have leq'': "svc_leq n rooms n rooms''" using leq svc_leq_refl by metis
  have "server_rel lib (view s') (w\<lparr>gs_store := s'\<rparr>) n rooms''" using server_rel_mono [OF rel leq'' r(2)] by simp
  then have "gs_store w' = s' \<and> server_rel lib (view s') w' n rooms'' \<and> out' = Inr (st, j)"
    using good_keepRoom [OF ok' _ _ kr, of lib n rooms''] r(3) by simp
  then show ?thesis using r(3) leq'' ok' by (intro conjI exI [of _ n] exI [of _ rooms'']) simp_all
qed

lemma moveGameRoom_good:
  assumes "ok (gs_store w)" and "server_rel lib (view (gs_store w)) w n rooms" and "moveGameRoom ld rp rid p x y w = (w', out)"
  shows "ok (gs_store w') \<and> (\<exists>st j. out = Inr (st, j) \<and> (\<exists>n' rooms'. server_rel lib (view (gs_store w')) w' n' rooms' \<and> svc_leq n rooms n' rooms' \<and>
    (st = PvpOk \<longrightarrow> (\<exists>r. rooms' rid = Some r \<and> j = snapshot r))))"
proof -
  obtain s' res where m: "pvp_move ld rp rid p x y (gs_store w) = (s', res)" by fastforce
  have sr: "svc_rel (view (gs_store w)) n rooms" using assms(2) by (simp add: server_rel_def)
  obtain st j where res: "res = Inr (st, j)" and o: "ok s'" and out: "st = fst (spec_move rid p x y rooms) \<and> svc_rel (view s') n (snd (spec_move rid p x y rooms)) \<and>
      j = shown (snd (spec_move rid p x y rooms) rid) \<or> st = PvpUnavailable \<and> (svc_rel (view s') n rooms \<or> svc_rel (view s') n (snd (spec_move rid p x y rooms)))"
    using move_refines [OF assms(1) sr m] by auto
  have "keepRoom rid (st, j) (w\<lparr>gs_store := s'\<rparr>) = (w', out)" using assms(3) m res by (simp add: moveGameRoom_def)
  from follow_service [OF assms(2) o svc_leq_move [OF sr] out move_result this] show ?thesis by auto
qed

lemma finishGameRoom_good:
  assumes "ok (gs_store w)" and "server_rel lib (view (gs_store w)) w n rooms" and "finishGameRoom ld rp rid p w = (w', out)"
  shows "ok (gs_store w') \<and> (\<exists>st j. out = Inr (st, j) \<and> (\<exists>n' rooms'. server_rel lib (view (gs_store w')) w' n' rooms' \<and> svc_leq n rooms n' rooms'))"
proof -
  obtain s' res where m: "pvp_finish ld rp rid p (gs_store w) = (s', res)" by fastforce
  have sr: "svc_rel (view (gs_store w)) n rooms" using assms(2) by (simp add: server_rel_def)
  obtain st j where res: "res = Inr (st, j)" and o: "ok s'" and out: "st = fst (spec_finish rid p rooms) \<and> svc_rel (view s') n (snd (spec_finish rid p rooms)) \<and>
      j = shown (snd (spec_finish rid p rooms) rid) \<or> st = PvpUnavailable \<and> (svc_rel (view s') n rooms \<or> svc_rel (view s') n (snd (spec_finish rid p rooms)))"
    using finish_refines [OF assms(1) sr m] by auto
  have "keepRoom rid (st, j) (w\<lparr>gs_store := s'\<rparr>) = (w', out)" using assms(3) m res by (simp add: finishGameRoom_def)
  from follow_service [OF assms(2) o svc_leq_finish out finish_result this] show ?thesis by auto
qed

lemma loadGameRoom_good:
  assumes "ok (gs_store w)" and "server_rel lib (view (gs_store w)) w n rooms" and "loadGameRoom ld rid w = (w', out)"
  shows "ok (gs_store w') \<and> (\<exists>st j. out = Inr (st, j) \<and> (\<exists>n' rooms'. server_rel lib (view (gs_store w')) w' n' rooms' \<and> svc_leq n rooms n' rooms' \<and>
    (st = PvpOk \<longrightarrow> (\<exists>r. rooms' rid = Some r \<and> j = snapshot r))))"
proof -
  obtain s' st j where m: "loadLocked ld rid (gs_store w) = (s', st, j)" by (metis prod_cases3)
  have sr: "svc_rel (view (gs_store w)) n rooms" using assms(2) by (simp add: server_rel_def)
  note l = loadLocked_spec [OF assms(1) sr m]
  have kr: "keepRoom rid (st, j) (w\<lparr>gs_store := s'\<rparr>) = (w', out)" using assms(3) m by (simp add: loadGameRoom_def pvp_load_def)
  have "server_rel lib (view s') (w\<lparr>gs_store := s'\<rparr>) n rooms" using assms(2) l by simp
  then have k: "gs_store w' = s' \<and> server_rel lib (view s') w' n rooms \<and> out = Inr (st, j)"
    using good_keepRoom [OF _ _ _ kr, of lib n rooms] l by auto
  have "st = PvpOk \<longrightarrow> (\<exists>r. rooms rid = Some r \<and> j = snapshot r)" using l by auto
  then have "server_rel lib (view (gs_store w')) w' n rooms \<and> svc_leq n rooms n rooms \<and> (st = PvpOk \<longrightarrow> (\<exists>r. rooms rid = Some r \<and> j = snapshot r))"
    using k by simp
  then show ?thesis using k l by blast
qed

lemma getGameRoom_good: "good lib w (fst (getGameRoom ld rid w))"
proof (cases "map_of (gs_rooms w) rid")
  case (Some room)
  then show ?thesis by (simp add: getGameRoom_def good_refl)
next
  case None
  show ?thesis unfolding good_def
  proof (intro allI impI, elim conjE)
    fix n rooms
    assume a: "ok (gs_store w)" "server_rel lib (view (gs_store w)) w n rooms"
    obtain s' st j where m: "loadLocked ld rid (gs_store w) = (s', st, j)" by (metis prod_cases3)
    have sr: "svc_rel (view (gs_store w)) n rooms" using a(2) by (simp add: server_rel_def)
    note l = loadLocked_spec [OF a(1) sr m]
    let ?w' = "fst (getGameRoom ld rid w)"
    have "gs_store ?w' = s' \<and> server_rel lib (view s') ?w' n rooms"
    proof (cases "st = PvpOk")
      case True
      then obtain r where r: "rooms rid = Some r" "j = snapshot r" using l by auto
      have "?w' = w\<lparr>gs_store := s', gs_rooms := AList.update rid r (gs_rooms w)\<rparr>"
        using None m True r by (simp add: getGameRoom_def pvp_load_def fromSnapshot_snapshot)
      then show ?thesis using server_rel_keep [OF a(2) r(1) played.start] l by (simp add: server_rel_def)
    next
      case False
      then have "?w' = w\<lparr>gs_store := s'\<rparr>" using None m by (simp add: getGameRoom_def pvp_load_def)
      then show ?thesis using a(2) l by simp
    qed
    then show "ok (gs_store ?w') \<and> (\<exists>n' rooms'. server_rel lib (view (gs_store ?w')) ?w' n' rooms' \<and> svc_leq n rooms n' rooms')"
      using l svc_leq_refl by metis
  qed
qed

lemma createGameRoom_good:
  assumes "p1 \<noteq> p2"
  shows "good lib w (fst (createGameRoom ld rp p1 p2 w))"
  unfolding good_def
proof (intro allI impI, elim conjE)
  fix n rooms
  assume a: "ok (gs_store w)" "server_rel lib (view (gs_store w)) w n rooms"
  obtain s' res where m: "createRoom ld rp p1 p2 (gs_store w) = (s', res)" by fastforce
  have sr: "svc_rel (view (gs_store w)) n rooms" using a(2) by (simp add: server_rel_def)
  note cr = createRoom_refines [OF a(1) sr assms m]
  let ?w' = "fst (createGameRoom ld rp p1 p2 w)" and ?n' = "n + 1" and ?rooms' = "rooms(n \<mapsto> GameRoom n p1 p2)"
  have leq: "svc_leq n rooms ?n' ?rooms'" using svc_leq_create [OF sr, of p1 p2] by (simp add: spec_create_def)
  show "ok (gs_store ?w') \<and> (\<exists>n' rooms'. server_rel lib (view (gs_store ?w')) ?w' n' rooms' \<and> svc_leq n rooms n' rooms')"
  proof (cases "res = Inr (PvpOk, snapshot (GameRoom n p1 p2))")
    case True
    then have "?w' = w\<lparr>gs_store := s', gs_rooms := AList.update n (GameRoom n p1 p2) (gs_rooms w)\<rparr>"
      using m by (simp add: createGameRoom_def fromSnapshot_snapshot) (simp add: GameRoom_def)
    moreover have "server_rel lib (view s') w ?n' ?rooms'" using server_rel_mono [OF a(2) leq] cr True by (auto simp: spec_create_def)
    ultimately show ?thesis using cr leq server_rel_keep [of lib "view s'" w ?n' ?rooms' n "GameRoom n p1 p2" "GameRoom n p1 p2"] played.start
      by (auto simp: server_rel_def)
  next
    case False
    then have r: "res = Inr (PvpUnavailable, JNull)" using cr by auto
    then have "?w' = w\<lparr>gs_store := s'\<rparr>" using m by (simp add: createGameRoom_def)
    moreover have "(\<exists>n' rooms'. server_rel lib (view s') w n' rooms' \<and> svc_leq n rooms n' rooms')"
    proof (cases "svc_rel (view s') n rooms")
      case True
      then show ?thesis using server_rel_mono [OF a(2) svc_leq_refl] svc_leq_refl by blast
    next
      case nF: False
      then show ?thesis using cr r server_rel_mono [OF a(2) leq] leq by (auto simp: spec_create_def)
    qed
    ultimately show ?thesis using cr by auto
  qed
qed

lemma tryMatch_spec:
  assumes "tryMatch u q = (r, q')"
  shows "distinct q \<Longrightarrow> distinct q'" and "r \<ge> 0 \<Longrightarrow> r \<noteq> u"
  using assms by (auto simp: tryMatch_def split: if_splits list.splits)

text \<open>The handlers' messages other than results of moves and of state requests show no state.\<close>

lemma no_state_simps [simp]: "json_at ''state'' (JObject kvs) = Inr s \<longleftrightarrow> map_of kvs ''state'' = Some s"
  by (simp add: json_at_def split: option.split)

lemma handleMatchRequest_good:
  assumes lib: "env_lib env = lib"
  shows "good lib w (fst (handleMatchRequest env ld rp c u w))"
proof -
  obtain r q where t: "tryMatch u (gs_queue w) = (r, q)" by fastforce
  let ?w = "w\<lparr>gs_queue := q\<rparr>"
  have gq: "good lib w ?w" by (rule good_local) (simp_all add: tryMatch_spec(1) [OF t])
  note send = good_send [OF lib] and send_up = good_send_if_up [OF lib]
  show ?thesis
  proof (cases "r \<ge> 0")
    case False
    then show ?thesis using t by (auto simp: handleMatchRequest_def Let_def intro!: good_trans [OF gq] send good_refl)
  next
    case True
    obtain w1 created where cr: "createGameRoom ld rp u r ?w = (w1, created)" by fastforce
    have "good lib ?w w1" using createGameRoom_good [of u r lib ?w] tryMatch_spec(2) [OF t True] cr by simp
    then have g1: "good lib w w1" using good_trans [OF gq] by blast
    show ?thesis
    proof (cases "\<exists>rid. created = Inr rid \<and> rid > 0")
      case False
      then show ?thesis using True t cr g1 by (cases created) (auto simp: handleMatchRequest_def Let_def intro!: good_trans [OF g1] send good_refl)
    next
      case True
      then obtain rid where rid: "created = Inr rid" "\<not> rid \<le> 0" by auto
      let ?j1 = "JObject [(''type'', JString ''match_found''), (''roomId'', JInt rid), (''color'', JString ''black''), (''opponent'', JInt r), (''yourTurn'', JBool True)]"
      let ?j2 = "JObject [(''type'', JString ''match_found''), (''roomId'', JInt rid), (''color'', JString ''white''), (''opponent'', JInt u), (''yourTurn'', JBool False)]"
      have e: "fst (handleMatchRequest env ld rp c u w) =
          send_if_up env (getConnectionByUserId r ?w) ?j2 (send_json env c ?j1 (removeFromLobby r (removeFromLobby u w1)))"
        using \<open>r \<ge> 0\<close> rid by (simp add: handleMatchRequest_def t cr)
      have "good lib w1 (send_json env c ?j1 (removeFromLobby r (removeFromLobby u w1)))"
        by (rule good_trans [OF good_trans [OF good_removeFromLobby good_removeFromLobby] send]) simp
      from good_trans [OF g1 this] show ?thesis unfolding e by (rule good_trans [OF _ send_up]) simp
    qed
  qed
qed

lemma handleMatchCancel_good: "env_lib env = lib \<Longrightarrow> good lib w (fst (handleMatchCancel env u w))"
  unfolding handleMatchCancel_def Let_def fst_conv by (rule good_trans [OF good_leaveQueue good_send_if_up]) simp_all

lemma broadcast_good:
  assumes "env_lib env = lib" and "\<And>s. json_at ''state'' j \<noteq> Inr s"
  shows "good lib w (fold (\<lambda>(u, p). send_if_up env p j) ps w)"
proof (induction ps arbitrary: w)
  case (Cons p ps)
  obtain u q where p: "p = (u, q)" by fastforce
  show ?case using good_trans [OF good_send_if_up [OF assms, of w q] Cons] by (simp add: p)
qed (simp add: good_refl)

lemma handleChatLobby_good: "env_lib env = lib \<Longrightarrow> good lib w (fst (handleChatLobby env u msg w))"
  by (auto simp: handleChatLobby_def broadcastLobby_def Let_def good_refl intro!: broadcast_good split: sum.split)

lemma sendToRoom_good: "env_lib env = lib \<Longrightarrow> good lib w (sendToRoom env rid u name text p1 p2 w)"
  unfolding sendToRoom_def Let_def by (rule good_trans [OF good_send_if_up good_send_if_up]) simp_all

lemma handleChatRoom_good:
  assumes "env_lib env = lib"
  shows "good lib w (fst (handleChatRoom env ld c u msg w))"
proof -
  obtain w1 found where g: "getGameRoom ld (getRoomByUserId u w) w = (w1, found)" by fastforce
  have g1: "good lib w w1" using getGameRoom_good [of lib w "getRoomByUserId u w"] g by simp
  show ?thesis using g g1 sendToRoom_good [OF assms] good_trans [OF g1]
    by (auto simp: handleChatRoom_def Let_def good_refl split: sum.split option.split)
qed

lemma finish_step:
  assumes "good lib w w1" and "finishGameRoom ld rp rid p w1 = (w2, out)"
  shows "good lib w w2"
proof -
  have "good lib w1 w2" unfolding good_def using finishGameRoom_good [OF _ _ assms(2)] by blast
  then show ?thesis using good_trans [OF assms(1)] by blast
qed

lemma handleLeaveGame_good:
  assumes lib: "env_lib env = lib"
  shows "good lib w (fst (handleLeaveGame env ld rp u w))"
proof -
  obtain w1 found where g: "getGameRoom ld (getRoomByUserId u w) w = (w1, found)" by fastforce
  have g1: "good lib w w1" using getGameRoom_good [of lib w "getRoomByUserId u w"] g by simp
  show ?thesis
  proof (cases "getRoomByUserId u w \<le> 0 \<or> (\<forall>room. found \<noteq> Inr (Some room))")
    case True
    then show ?thesis using g g1 by (auto simp: handleLeaveGame_def Let_def good_refl split: sum.split option.split)
  next
    case False
    then obtain room where r: "found = Inr (Some room)" "\<not> getRoomByUserId u w \<le> 0" by auto
    obtain w2 res where f: "finishGameRoom ld rp (getRoomByUserId u w) (getOpponent u room) w1 = (w2, res)" by fastforce
    note g2 = finish_step [OF g1 f]
    show ?thesis
    proof (cases "\<exists>snap. res = Inr (PvpOk, snap)")
      case False
      then show ?thesis using r g f g2 by (auto simp: handleLeaveGame_def Let_def split: sum.split)
    next
      case True
      let ?opp = "getOpponent u room"
      define w3 where "w3 = (if reachable env (getConnectionByUserId ?opp w2) then addToLobby ?opp (getConnectionByUserId ?opp w2)
        (send_if_up env (getConnectionByUserId ?opp w2) (JObject [(''type'', JString ''game_over''), (''winner'', JInt ?opp),
          (''reason'', JString ''opponent_left''), (''message'', JString msg_left)]) w2) else w2)"
      have "good lib w2 w3" unfolding w3_def using good_trans [OF good_send_if_up [OF lib] good_addToLobby] good_refl by simp
      then have g3: "good lib w w3" by (rule good_trans [OF g2])
      then have "good lib w (if reachable env (getConnectionByUserId u w3) then addToLobby u (getConnectionByUserId u w3) w3 else w3)"
        using good_trans [OF g3 good_addToLobby] by simp
      moreover have "fst (handleLeaveGame env ld rp u w) = removeGameRoom (getRoomByUserId u w)
          (if reachable env (getConnectionByUserId u w3) then addToLobby u (getConnectionByUserId u w3) w3 else w3)"
        using True r by (auto simp: handleLeaveGame_def g f w3_def Let_def)
      ultimately show ?thesis using good_trans [OF _ good_removeGameRoom] by metis
    qed
  qed
qed

lemma abandonGame_good:
  assumes lib: "env_lib env = lib"
  shows "good lib w (fst (abandonGame env ld rp u w))"
proof -
  obtain w1 found where g: "getGameRoom ld (getRoomByUserId u w) w = (w1, found)" by fastforce
  have g1: "good lib w w1" using getGameRoom_good [of lib w "getRoomByUserId u w"] g by simp
  show ?thesis
  proof (cases "getRoomByUserId u w \<le> 0 \<or> (\<forall>room. found \<noteq> Inr (Some room))")
    case True
    then show ?thesis using g g1 by (auto simp: abandonGame_def Let_def good_refl split: sum.split option.split)
  next
    case False
    then obtain room where r: "found = Inr (Some room)" "getRoomByUserId u w > 0" by auto
    obtain w2 res where f: "finishGameRoom ld rp (getRoomByUserId u w) (getOpponent u room) w1 = (w2, res)" by fastforce
    note g2 = finish_step [OF g1 f]
    show ?thesis
    proof (cases "\<exists>snap. res = Inr (PvpOk, snap)")
      case False
      then show ?thesis using r g f g2 by (auto simp: abandonGame_def Let_def split: sum.split)
    next
      case True
      let ?opp = "getOpponent u room"
      define w3 where "w3 = send_if_up env (getConnectionByUserId ?opp w1) (JObject [(''type'', JString ''opponent_left''), (''message'', JString msg_disconnected)]) w2"
      have "good lib w2 w3" unfolding w3_def by (rule good_send_if_up [OF lib]) simp
      then have g3: "good lib w w3" by (rule good_trans [OF g2])
      then have "good lib w (if ?opp > 0 then addToLobby ?opp (getConnectionByUserId ?opp w1) w3 else w3)"
        using good_trans [OF g3 good_addToLobby] by simp
      moreover have "fst (abandonGame env ld rp u w) = removeGameRoom (getRoomByUserId u w)
          (if ?opp > 0 then addToLobby ?opp (getConnectionByUserId ?opp w1) w3 else w3)"
        using True r by (auto simp: abandonGame_def g f w3_def Let_def)
      ultimately show ?thesis using good_trans [OF _ good_removeGameRoom] by metis
    qed
  qed
qed

lemma onClose_good:
  assumes lib: "env_lib env = lib"
  shows "good lib w (fst (game_onClose env ld rp c w))"
proof -
  let ?u = "getUserId c w"
  let ?w1 = "removeFromLobby ?u (w\<lparr>gs_queue := leaveQueue ?u (gs_queue w)\<rparr>)"
  obtain w2 r where a: "(if ?u > 0 then abandonGame env ld rp ?u ?w1 else (w, Inr ())) = (w2, r)" by fastforce
  have "good lib w w2"
  proof (cases "?u > 0")
    case True
    then have "w2 = fst (abandonGame env ld rp ?u ?w1)" using a by simp
    then show ?thesis using good_trans [OF good_trans [OF good_leaveQueue good_removeFromLobby] abandonGame_good [OF lib]] by metis
  qed (use a good_refl in auto)
  then show ?thesis using good_trans [OF _ good_removeUserId] a by (auto simp: game_onClose_def Let_def split: sum.split)
qed

lemma handleStateRequest_good:
  assumes lib: "env_lib env = lib"
  shows "good lib w (fst (handleStateRequest env ld c u w))"
proof (cases "getRoomByUserId u w \<le> 0")
  case True
  then show ?thesis using good_send [OF lib] by (simp add: handleStateRequest_def errorMessage_def)
next
  case False
  show ?thesis unfolding good_def
  proof (intro allI impI, elim conjE)
    fix n rooms
    assume a: "ok (gs_store w)" "server_rel lib (view (gs_store w)) w n rooms"
    obtain w1 out where l: "loadGameRoom ld (getRoomByUserId u w) w = (w1, out)" by fastforce
    obtain st j n' rooms' where o: "ok (gs_store w1)" "out = Inr (st, j)" "server_rel lib (view (gs_store w1)) w1 n' rooms'" "svc_leq n rooms n' rooms'"
      "st = PvpOk \<longrightarrow> (\<exists>r. rooms' (getRoomByUserId u w) = Some r \<and> j = snapshot r)" using loadGameRoom_good [OF a l] by blast
    have e: "fst (handleStateRequest env ld c u w) = send_json env c (if st = PvpUnavailable then fst (raftUnavailable (getRoomByUserId u w))
        else if st \<noteq> PvpOk then errorMessage msg_no_room else stateResult j) w1"
      using False l o(2) by (simp add: handleStateRequest_def)
    have "shows_stored rooms' (if st = PvpUnavailable then fst (raftUnavailable (getRoomByUserId u w)) else if st \<noteq> PvpOk then errorMessage msg_no_room else stateResult j)"
      using o(5) by (auto simp: shows_stored_def raftUnavailable_def errorMessage_def stateResult_def intro: played.start)
    from server_rel_send [OF o(3) this lib] show "ok (gs_store (fst (handleStateRequest env ld c u w))) \<and> (\<exists>n' rooms'.
        server_rel lib (view (gs_store (fst (handleStateRequest env ld c u w)))) (fst (handleStateRequest env ld c u w)) n' rooms' \<and> svc_leq n rooms n' rooms')"
      using o(1,4) unfolding e by (metis send_store(1))
  qed
qed

lemma map_of_update_other: "k \<noteq> k' \<Longrightarrow> map_of (AList.update k' v kvs) k = map_of kvs k"
  by (simp add: update_conv')

lemma resultFields_state:
  assumes "resultFields u snap (JObject kvs) = Inr d"
  shows "json_at ''state'' d = json_at ''state'' (JObject kvs)"
  using assms by (auto simp: resultFields_def json_set_def json_at_def map_of_update_other result_simps split: if_splits)

text \<open>What is told after a committed move.\<close>

lemma announceMove_good:
  assumes lib: "env_lib env = lib" and rel: "server_rel lib m w n rooms" and r: "rooms rid = Some r" and m: "m = view (gs_store w)" and ok: "ok (gs_store w)"
  shows "\<exists>w'. fst (announceMove env c u rid x y (snapshot r) w) = w' \<and> gs_store w' = gs_store w \<and> server_rel lib m w' n rooms"
proof -
  let ?color = "if u = player1 r then ''black'' else ''white''" and ?opp = "if u = player1 r then player2 r else player1 r"
  have p: "rbind (json_at ''player1'' (snapshot r)) json_int = Inr (player1 r)" "rbind (json_at ''player2'' (snapshot r)) json_int = Inr (player2 r)"
    by (simp_all add: snapshot_def json_at_object)
  show ?thesis
  proof (cases "resultFields u (snapshot r) (fst (moveResult rid u x y ?color (snapshot r)))")
    case (Inl e)
    then show ?thesis using rel by (auto simp: announceMove_def p moveResult_def Let_def)
  next
    case (Inr d)
    have st: "json_at ''state'' d = Inr (snapshot r)" using resultFields_state [OF Inr [unfolded moveResult_def fst_conv]] by simp
    have sh: "shows_stored rooms d" using st r played.start by (auto simp: shows_stored_def)
    define w1 where "w1 = send_if_up env (getConnectionByUserId ?opp w) d (send_json env c d w)"
    have 1: "server_rel lib m w1 n rooms" "gs_store w1 = gs_store w"
      unfolding w1_def using server_rel_send_if_up [OF server_rel_send [OF rel sh lib] sh lib] by simp_all
    have lob: "server_rel lib m (addToLobby v q t) n rooms = server_rel lib m t n rooms" "gs_store (addToLobby v q t) = gs_store t" for v q t
      by (simp_all add: addToLobby_def server_rel_def)
    have rem: "server_rel lib m t n rooms \<Longrightarrow> server_rel lib m (removeGameRoom i t) n rooms" "gs_store (removeGameRoom i t) = gs_store t" for i t
      by (simp_all add: removeGameRoom_def server_rel_def cache_ok_delete)
    show ?thesis using Inr 1 by (simp add: announceMove_def p moveResult_def Let_def w1_def [symmetric] lob rem)
  qed
qed

lemma handleMove_good:
  assumes lib: "env_lib env = lib"
  shows "good lib w (fst (handleMove env ld rp c u msg w))"
proof (cases "getRoomByUserId u w \<le> 0 \<or> (\<exists>e. rbind (value_int ''x'' (-1) msg) (\<lambda>x. rbind (value_int ''y'' (-1) msg) (\<lambda>y. Inr (x, y))) = Inl e)")
  case True
  then show ?thesis using good_send [OF lib] good_refl by (auto simp: handleMove_def errorMessage_def Let_def)
next
  case False
  then obtain x y where xy: "rbind (value_int ''x'' (-1) msg) (\<lambda>x. rbind (value_int ''y'' (-1) msg) (\<lambda>y. Inr (x, y))) = Inr (x, y)"
    by (metis Inr_Inl_False sumE surj_pair)
  let ?rid = "getRoomByUserId u w"
  show ?thesis unfolding good_def
  proof (intro allI impI, elim conjE)
    fix n rooms
    assume a: "ok (gs_store w)" "server_rel lib (view (gs_store w)) w n rooms"
    obtain w1 out where mv: "moveGameRoom ld rp ?rid u x y w = (w1, out)" by fastforce
    obtain st j n' rooms' where o: "ok (gs_store w1)" "out = Inr (st, j)" "server_rel lib (view (gs_store w1)) w1 n' rooms'" "svc_leq n rooms n' rooms'"
      "st = PvpOk \<longrightarrow> (\<exists>r. rooms' ?rid = Some r \<and> j = snapshot r)" using moveGameRoom_good [OF a mv] by blast
    have "\<exists>w'. fst (handleMove env ld rp c u msg w) = w' \<and> gs_store w' = gs_store w1 \<and> server_rel lib (view (gs_store w1)) w' n' rooms'"
    proof (cases "st = PvpOk")
      case True
      then obtain r where r: "rooms' ?rid = Some r" "j = snapshot r" using o(5) by blast
      have "fst (handleMove env ld rp c u msg w) = fst (announceMove env c u ?rid x y (snapshot r) w1)"
        using False xy mv o(2) True r by (simp add: handleMove_def submit_def)
      then show ?thesis using announceMove_good [OF lib o(3) r(1) refl o(1)] by metis
    next
      case nok: False
      have s: "server_rel lib (view (gs_store w1)) (send_json env c k w1) n' rooms'" if "\<And>s. json_at ''state'' k \<noteq> Inr s" for k
        using server_rel_send [OF o(3) no_state [OF that] lib] .
      show ?thesis using False xy mv o(2) nok s by (cases st) (simp_all add: handleMove_def submit_def raftUnavailable_def errorMessage_def)
    qed
    then show "ok (gs_store (fst (handleMove env ld rp c u msg w))) \<and> (\<exists>n' rooms'.
        server_rel lib (view (gs_store (fst (handleMove env ld rp c u msg w)))) (fst (handleMove env ld rp c u msg w)) n' rooms' \<and> svc_leq n rooms n' rooms')"
      using o(1,4) by metis
  qed
qed

lemma onMessage_good:
  assumes "env_lib env = lib"
  shows "good lib w (fst (game_onMessage env ld rp c text w))"
  using handleMatchRequest_good [OF assms] handleMatchCancel_good [OF assms] handleMove_good [OF assms] handleStateRequest_good [OF assms]
    handleChatLobby_good [OF assms] handleChatRoom_good [OF assms] handleLeaveGame_good [OF assms] good_refl
  by (simp add: game_onMessage_def dispatchMessage_def Let_def split: option.split sum.split)

lemma recover_fold:
  assumes "server_rel lib m w n rooms" and "\<forall>i \<in> set ks. \<exists>r. rooms i = Some r"
  shows "server_rel lib m (fold (\<lambda>snap w. case fromSnapshot snap of Inl _ \<Rightarrow> w | Inr room \<Rightarrow> w\<lparr>gs_rooms := AList.update (roomId room) room (gs_rooms w)\<rparr>)
      (map (\<lambda>i. shown (rooms i)) ks) w) n rooms \<and>
    gs_store (fold (\<lambda>snap w. case fromSnapshot snap of Inl _ \<Rightarrow> w | Inr room \<Rightarrow> w\<lparr>gs_rooms := AList.update (roomId room) room (gs_rooms w)\<rparr>)
      (map (\<lambda>i. shown (rooms i)) ks) w) = gs_store w"
  using assms
proof (induction ks arbitrary: w)
  case (Cons i ks)
  obtain r where r: "rooms i = Some r" using Cons.prems(2) by auto
  have "roomId r = i" using svc_rel_room [of m n rooms i r] r Cons.prems(1) by (simp add: server_rel_def)
  then have "server_rel lib m (w\<lparr>gs_rooms := AList.update (roomId r) r (gs_rooms w)\<rparr>) n rooms"
    using server_rel_keep [OF Cons.prems(1) r played.start] by simp
  from Cons.IH [OF this] Cons.prems(2) show ?case by (simp add: r shown_def fromSnapshot_snapshot)
qed simp

lemma start_good:
  assumes "ok s" and "svc_rel (view s) n rooms"
  shows "ok (gs_store (GomokuServer ld s)) \<and> server_rel lib (view (gs_store (GomokuServer ld s))) (GomokuServer ld s) n rooms"
proof -
  obtain s' js where r: "recoverActiveRooms ld s = (s', js)" by fastforce
  from recover_spec [OF assms r] obtain ks where ks: "ok s'" "view s' = view s" "js = map (\<lambda>i. shown (rooms i)) ks"
    and "set ks \<subseteq> {i. \<exists>r. rooms i = Some r \<and> \<not> gameOver r}" by blast
  then have ks4: "\<forall>i \<in> set ks. \<exists>r. rooms i = Some r" by blast
  let ?w = "\<lparr>gs_store = s', gs_rooms = [], gs_queue = [], gs_lobby = [], gs_connToUser = Map.empty, gs_userToConn = Map.empty, gs_sent = []\<rparr>"
  have "server_rel lib (view s') ?w n rooms" using assms(2) ks(2) by (simp add: server_rel_def cache_ok_def)
  from recover_fold [OF this ks4] show ?thesis using ks r by (simp add: GomokuServer_def recoverActiveGameRooms_def)
qed

end

section \<open>Runs of the server\<close>

datatype serverEvent = EvText conn string | EvClose conn | EvOpen conn int

definition server_step :: "'s loader \<Rightarrow> 's replacer \<Rightarrow> env \<times> serverEvent \<Rightarrow> 's gameServer \<Rightarrow> 's gameServer" where
  "server_step ld rp = (\<lambda>(env, ev) w. case ev of
       EvText c text \<Rightarrow> fst (game_onMessage env ld rp c text w)
     | EvClose c \<Rightarrow> fst (game_onClose env ld rp c w)
     | EvOpen c userId \<Rightarrow> addToLobby userId (Some c) (setUserId c userId w))"

context game_store
begin

lemma server_step_good: "env_lib env = lib \<Longrightarrow> good lib w (server_step ld rp (env, ev) w)"
  using onMessage_good onClose_good good_trans [OF good_setUserId good_addToLobby] by (simp add: server_step_def split: serverEvent.split)

lemma server_run_good:
  assumes "\<forall>e \<in> set evs. env_lib (fst e) = lib"
  shows "good lib w (fold (server_step ld rp) evs w)"
  using assms
proof (induction evs arbitrary: w)
  case (Cons e evs)
  obtain env ev where e: "e = (env, ev)" by fastforce
  have "good lib w (server_step ld rp e w)" using server_step_good Cons.prems unfolding e by simp
  from good_trans [OF this Cons.IH] Cons.prems show ?case by simp
qed (simp add: good_refl)

lemma server_safe:
  assumes "ok s" and "svc_rel (view s) n rooms" and "\<forall>e \<in> set evs. env_lib (fst e) = lib" and "w = fold (server_step ld rp) evs (GomokuServer ld s)"
  shows "ok (gs_store w) \<and> (\<exists>n' rooms'. server_rel lib (view (gs_store w)) w n' rooms' \<and> svc_leq n rooms n' rooms')"
  using server_run_good [OF assms(3), of "GomokuServer ld s"] start_good [OF assms(1,2), of lib] unfolding good_def assms(4) by blast

end

lemma game_handler_quiet: "quiet (GameWsHandler env ld rp) c"
  by (simp add: quiet_def GameWsHandler_def game_onMessage_def)



end
