(* ===== verification/Rpc.thy ===== *)
theory Rpc
  imports Config
begin

text \<open>
  Remote calls: the client's channel (\<open>mprpcchannel.cpp\<close>, \<open>mprpccontroller.cpp\<close>) and the provider that publishes services
  (\<open>rpcprovider.cpp\<close>). Protobuf is the argument \<open>pb\<close>: writing and reading a varint, reading a string of given length,
  the text form of a header; what the code relies on is \<open>protobuf_ok\<close>. \<open>PushLimit\<close> with the length that is read next and
  the matching \<open>PopLimit\<close> leave that read as it is. The answers of the socket calls are arguments too: a record for
  those of \<open>newConnect\<close>, a function for the results of \<open>send\<close>, the bytes of \<open>recv\<close> (\<open>None\<close> is \<open>-1\<close>). The list \<open>fds\<close> holds
  the descriptors the channel has open. A method of a service is how it reads its request and what it does to the state of
  the service, with the serialized response.
\<close>

section \<open>The controller\<close>

record mprpcController =
  m_failed :: bool
  m_errText :: string

definition MprpcController :: mprpcController where
  "MprpcController = \<lparr>m_failed = False, m_errText = []\<rparr>"

definition ctl_Reset :: "mprpcController \<Rightarrow> mprpcController" where
  "ctl_Reset ctl = ctl\<lparr>m_failed := False, m_errText := []\<rparr>"

definition Failed :: "mprpcController \<Rightarrow> bool" where
  "Failed ctl = m_failed ctl"

definition ErrorText :: "mprpcController \<Rightarrow> string" where
  "ErrorText ctl = m_errText ctl"

definition SetFailed :: "string \<Rightarrow> mprpcController \<Rightarrow> mprpcController" where
  "SetFailed reason ctl = ctl\<lparr>m_failed := True, m_errText := reason\<rparr>"

section \<open>Messages\<close>

record rpcHeader =
  service_name :: string
  method_name :: string
  args_size :: "32 word"

record protobuf =
  pb_WriteVarint32 :: "32 word \<Rightarrow> string"
  pb_ReadVarint32 :: "string \<Rightarrow> bool \<times> 32 word \<times> string"
  pb_ReadString :: "nat \<Rightarrow> string \<Rightarrow> bool \<times> string \<times> string"
  pb_SerializeHeader :: "rpcHeader \<Rightarrow> string"
  pb_ParseHeader :: "string \<Rightarrow> rpcHeader option"

definition protobuf_ok :: "protobuf \<Rightarrow> bool" where
  "protobuf_ok pb \<longleftrightarrow>
     (\<forall>n rest. pb_ReadVarint32 pb (pb_WriteVarint32 pb n @ rest) = (True, n, rest)) \<and>
     (\<forall>s rest. pb_ReadString pb (length s) (s @ rest) = (True, s, rest)) \<and>
     (\<forall>n s. length s < n \<longrightarrow> \<not> fst (pb_ReadString pb n s)) \<and>
     (\<forall>h. pb_ParseHeader pb (pb_SerializeHeader pb h) = Some h)"

text \<open>The bytes of a call: the length of the header, the header, the arguments.\<close>

definition rpc_message :: "protobuf \<Rightarrow> string \<Rightarrow> string \<Rightarrow> string \<Rightarrow> string" where
  "rpc_message pb service meth args_str =
     (let rpc_header_str = pb_SerializeHeader pb \<lparr>service_name = service, method_name = meth, args_size = of_nat (length args_str)\<rparr> in
      pb_WriteVarint32 pb (of_nat (length rpc_header_str)) @ rpc_header_str @ args_str)"

section \<open>The channel\<close>

record mprpcChannel =
  m_clientFd :: int
  m_ip :: string
  m_port :: "16 word"
  m_timeout :: int

record netAnswers =
  na_socket :: int
  na_sndtimeo :: bool
  na_rcvtimeo :: bool
  na_getfl :: bool
  na_setfl :: bool
  na_connect :: bool
  na_inprogress :: bool
  na_poll :: int
  na_soerror :: "int option"
  na_errno :: int

definition errno_text :: "string \<Rightarrow> int \<Rightarrow> string" where
  "errno_text what errno = what @ to_string errno"

text \<open>The \<open>timeval\<close> of a time-out: seconds and microseconds.\<close>

definition timeval_of :: "int \<Rightarrow> int \<times> int" where
  "timeval_of timeout = (let seconds = timeout div 1000 in (seconds, (timeout - seconds * 1000) * 1000))"

definition configureSocketTimeout :: "int \<Rightarrow> netAnswers \<Rightarrow> bool \<times> string" where
  "configureSocketTimeout timeout a =
     (if timeout \<le> 0 then (True, [])
      else if \<not> na_sndtimeo a \<or> \<not> na_rcvtimeo a then (False, errno_text ''set socket timeout failed! errno:'' (na_errno a))
      else (True, []))"

definition connected :: "int \<Rightarrow> netAnswers \<Rightarrow> bool" where
  "connected timeout a =
     (if timeout > 0 then
        if \<not> na_getfl a \<or> \<not> na_setfl a then False
        else if na_connect a then True
        else na_inprogress a \<and> na_poll a > 0 \<and> na_soerror a = Some 0
      else na_connect a)"

text \<open>The \<open>errno\<close> of a failed attempt: a time-out of \<open>poll\<close> and the pending error of the socket are stored in it.\<close>

definition connect_errno :: "int \<Rightarrow> netAnswers \<Rightarrow> int" where
  "connect_errno timeout a =
     (if timeout > 0 \<and> na_getfl a \<and> na_setfl a \<and> na_inprogress a then
        if na_poll a = 0 then 110
        else (case na_soerror a of
            Some connectError \<Rightarrow> if na_poll a > 0 \<and> connectError \<noteq> 0 then connectError else na_errno a
          | None \<Rightarrow> na_errno a)
      else na_errno a)"

definition newConnect :: "netAnswers \<Rightarrow> mprpcChannel \<Rightarrow> int list \<Rightarrow> (bool \<times> string) \<times> mprpcChannel \<times> int list" where
  "newConnect a ch fds =
     (let clientfd = na_socket a in
      if clientfd = -1 then ((False, errno_text ''create socket error! errno:'' (na_errno a)), ch\<lparr>m_clientFd := -1\<rparr>, fds)
      else
        let fds1 = clientfd # fds; (ok, msg) = configureSocketTimeout (m_timeout ch) a in
        if \<not> ok then ((False, msg), ch\<lparr>m_clientFd := -1\<rparr>, remove1 clientfd fds1)
        else if \<not> connected (m_timeout ch) a then
          ((False, errno_text ''connect fail! errno:'' (connect_errno (m_timeout ch) a)), ch\<lparr>m_clientFd := -1\<rparr>, remove1 clientfd fds1)
        else ((True, []), ch\<lparr>m_clientFd := clientfd\<rparr>, fds1))"

text \<open>The loop of \<open>send\<close>: whether all was sent, and the bytes that went out. \<open>written i\<close> is the result of the \<open>i\<close>-th call.\<close>

function sendLoop :: "(nat \<Rightarrow> int) \<Rightarrow> nat \<Rightarrow> string \<Rightarrow> nat \<Rightarrow> string \<Rightarrow> bool \<times> string" where
  "sendLoop written i str sent out =
     (if sent < length str then
        if written i \<le> 0 then (False, out)
        else let n = nat (written i) in sendLoop written (i + 1) str (sent + n) (out @ substr sent n str)
      else (True, out))"
  by pat_completeness auto
termination
  by (relation "measure (\<lambda>(written, i, str, sent, out). length str - sent)") auto

declare sendLoop.simps [simp del]

text \<open>
  A call. The arguments are the serialized request (\<open>None\<close>: \<open>SerializeToString\<close> failed) and how the response is parsed; the
  results are the response, if one was stored, and the bytes sent. The buffer has 1024 bytes and is printed up to its
  first zero byte when the response cannot be parsed; without one, \<open>sprintf\<close> reads and writes outside its arrays.
\<close>

record rpcNet =
  rn_connect :: netAnswers
  rn_send :: "nat \<Rightarrow> int"
  rn_recv :: "string option"
  rn_errno :: int

definition CallMethod :: "protobuf \<Rightarrow> string \<Rightarrow> string \<Rightarrow> string option \<Rightarrow> (string \<Rightarrow> 'r option) \<Rightarrow> rpcNet \<Rightarrow> mprpcController \<Rightarrow>
    mprpcChannel \<Rightarrow> int list \<Rightarrow> ((mprpcController \<times> 'r option \<times> string) \<times> mprpcChannel \<times> int list) result" where
  "CallMethod pb service meth request parse net ctl ch fds =
     (let ((rt, errMsg), ch1, fds1) = (if m_clientFd ch = -1 then newConnect (rn_connect net) ch fds else ((True, []), ch, fds)) in
      if \<not> rt then Inr ((SetFailed errMsg ctl, None, []), ch1, fds1)
      else case request of
          None \<Rightarrow> Inr ((SetFailed ''serialize request error!'' ctl, None, []), ch1, fds1)
        | Some args_str \<Rightarrow>
            let (ok, out) = sendLoop (rn_send net) 0 (rpc_message pb service meth args_str) 0 [] in
            if \<not> ok then
              Inr ((SetFailed (errno_text ''send error! errno:'' (rn_errno net)) ctl, None, out), ch1\<lparr>m_clientFd := -1\<rparr>, remove1 (m_clientFd ch1) fds1)
            else (case rn_recv net of
                None \<Rightarrow>
                  Inr ((SetFailed (errno_text ''recv error! errno:'' (rn_errno net)) ctl, None, out), ch1\<lparr>m_clientFd := -1\<rparr>, remove1 (m_clientFd ch1) fds1)
              | Some recv_buf \<Rightarrow>
                  (case parse recv_buf of
                     None \<Rightarrow>
                       if length recv_buf = 1024 \<and> CHR 0x00 \<notin> set recv_buf then Inl (OutOfBounds ''recv_buf'')
                       else Inr ((SetFailed (''parse error! response_str:'' @ takeWhile (\<lambda>x. x \<noteq> CHR 0x00) recv_buf) ctl, None, out), ch1, fds1)
                   | Some r \<Rightarrow> Inr ((ctl, Some r, out), ch1, fds1))))"

definition SetTimeout :: "int \<Rightarrow> netAnswers \<Rightarrow> mprpcChannel \<Rightarrow> int list \<Rightarrow> mprpcChannel \<times> int list" where
  "SetTimeout timeout a ch fds =
     (let ch1 = ch\<lparr>m_timeout := timeout\<rparr> in
      if m_clientFd ch1 \<noteq> -1 \<and> \<not> fst (configureSocketTimeout timeout a) then (ch1\<lparr>m_clientFd := -1\<rparr>, remove1 (m_clientFd ch1) fds)
      else (ch1, fds))"

definition delete_MprpcChannel :: "mprpcChannel \<Rightarrow> int list \<Rightarrow> int list" where
  "delete_MprpcChannel ch fds = (if m_clientFd ch \<noteq> -1 then remove1 (m_clientFd ch) fds else fds)"

text \<open>The constructor: one attempt and three more; \<open>a i\<close> are the answers to the \<open>i\<close>-th.\<close>

fun connectRetry :: "(nat \<Rightarrow> netAnswers) \<Rightarrow> nat \<Rightarrow> nat \<Rightarrow> bool \<times> mprpcChannel \<times> int list \<Rightarrow> bool \<times> mprpcChannel \<times> int list" where
  "connectRetry a i 0 (rt, ch, fds) = (rt, ch, fds)"
| "connectRetry a i (Suc tryCount) (rt, ch, fds) =
     (if rt then (rt, ch, fds)
      else let ((rt1, msg), ch1, fds1) = newConnect (a i) ch fds in connectRetry a (i + 1) tryCount (rt1, ch1, fds1))"

definition MprpcChannel :: "(nat \<Rightarrow> netAnswers) \<Rightarrow> string \<Rightarrow> 16 word \<Rightarrow> bool \<Rightarrow> int list \<Rightarrow> mprpcChannel \<times> int list" where
  "MprpcChannel a ip port connectNow fds =
     (let ch = \<lparr>m_clientFd = -1, m_ip = ip, m_port = port, m_timeout = 0\<rparr> in
      if \<not> connectNow then (ch, fds)
      else let ((rt, msg), ch1, fds1) = newConnect (a 0) ch fds in snd (connectRetry a 1 3 (rt, ch1, fds1)))"

section \<open>The provider\<close>

record 'w rpcMethod =
  rm_parses :: "string \<Rightarrow> bool"
  rm_call :: "string \<Rightarrow> 'w \<Rightarrow> 'w \<times> string option"

type_synonym 'w serviceInfo = "string \<rightharpoonup> 'w rpcMethod"

text \<open>\<open>insert\<close> keeps an entry that is there.\<close>

definition map_keep :: "'k \<Rightarrow> 'v \<Rightarrow> ('k \<rightharpoonup> 'v) \<Rightarrow> ('k \<rightharpoonup> 'v)" where
  "map_keep k v m = (if m k = None then m(k \<mapsto> v) else m)"

definition NotifyService :: "string \<Rightarrow> (string \<times> 'w rpcMethod) list \<Rightarrow> (string \<rightharpoonup> 'w serviceInfo) \<Rightarrow> (string \<rightharpoonup> 'w serviceInfo)" where
  "NotifyService name methods m_serviceMap =
     map_keep name (fold (\<lambda>(method_name, pmethodDesc). map_keep method_name pmethodDesc) methods Map.empty) m_serviceMap"

text \<open>\<open>SendRpcResponse\<close>: what goes back, if the response could be serialized.\<close>

definition SendRpcResponse :: "string option \<Rightarrow> string list" where
  "SendRpcResponse response = (case response of Some s \<Rightarrow> [s] | None \<Rightarrow> [])"

text \<open>One message callback: it takes all bytes off the buffer. The result is the state of the service and what is sent.\<close>

definition OnMessage :: "protobuf \<Rightarrow> (string \<rightharpoonup> 'w serviceInfo) \<Rightarrow> string \<Rightarrow> 'w \<Rightarrow> 'w \<times> string list \<times> string" where
  "OnMessage pb m_serviceMap recv_buf w =
     (let (_, header_size, in1) = pb_ReadVarint32 pb recv_buf;
          (_, rpc_header_str, in2) = pb_ReadString pb (unat header_size) in1 in
      case pb_ParseHeader pb rpc_header_str of
        None \<Rightarrow> (w, [], [])
      | Some h \<Rightarrow>
          let (read_args_success, args_str, _) = pb_ReadString pb (unat (args_size h)) in2 in
          if \<not> read_args_success then (w, [], [])
          else (case m_serviceMap (service_name h) of
              None \<Rightarrow> (w, [], [])
            | Some methods \<Rightarrow>
                (case methods (method_name h) of
                   None \<Rightarrow> (w, [], [])
                 | Some meth \<Rightarrow>
                     if \<not> rm_parses meth args_str then (w, [], [])
                     else let (w1, response) = rm_call meth args_str w in (w1, SendRpcResponse response, []))))"

text \<open>\<open>Run\<close> appends the address of the node to the configuration file; \<open>port\<close> is a \<open>short\<close>.\<close>

definition Run_file :: "nat \<Rightarrow> 16 word \<Rightarrow> string \<Rightarrow> string" where
  "Run_file nodeIndex port file =
     (let node = ''node'' @ to_string (int nodeIndex) in
      file @ node @ ''ip='' @ ''127.0.1.1'' @ ''\<newline>'' @ node @ ''port='' @ to_string (sint port) @ ''\<newline>'')"

section \<open>Delivery\<close>

lemma sendLoop_all:
  assumes "\<forall>i. written i > 0"
  shows "sendLoop written i str sent (take sent str) = (True, str)"
proof (induction "length str - sent" arbitrary: i sent rule: less_induct)
  case less
  show ?case
  proof (cases "sent < length str")
    case True
    let ?n = "nat (written i)"
    have n: "?n > 0" using assms by simp
    have "sendLoop written (i + 1) str (sent + ?n) (take (sent + ?n) str) = (True, str)"
      using True n by (intro less) linarith
    moreover have "take sent str @ substr sent ?n str = take (sent + ?n) str" by (simp add: substr_def take_add)
    ultimately show ?thesis using True n by (subst sendLoop.simps) (simp add: Let_def)
  qed (subst sendLoop.simps, simp)
qed

lemma sendLoop_sent: "\<forall>i. written i > 0 \<Longrightarrow> sendLoop written 0 str 0 [] = (True, str)"
  using sendLoop_all [of written 0 str 0] by simp

text \<open>What the provider does with the header and the arguments of a message.\<close>

definition serve :: "(string \<rightharpoonup> 'w serviceInfo) \<Rightarrow> string \<Rightarrow> string \<Rightarrow> string \<Rightarrow> 'w \<Rightarrow> 'w \<times> string list" where
  "serve m service meth args w =
     (case m service of
        None \<Rightarrow> (w, [])
      | Some methods \<Rightarrow>
          (case methods meth of
             None \<Rightarrow> (w, [])
           | Some f \<Rightarrow> if rm_parses f args then let (w1, r) = rm_call f args w in (w1, SendRpcResponse r) else (w, [])))"

definition header_of :: "protobuf \<Rightarrow> string \<Rightarrow> string \<Rightarrow> string \<Rightarrow> string" where
  "header_of pb service meth args =
     pb_SerializeHeader pb \<lparr>service_name = service, method_name = meth, args_size = of_nat (length args)\<rparr>"

definition sizes_ok :: "protobuf \<Rightarrow> string \<Rightarrow> string \<Rightarrow> string \<Rightarrow> bool" where
  "sizes_ok pb service meth args \<longleftrightarrow> length (header_of pb service meth args) < 2 ^ 32 \<and> length args < 2 ^ 32"

lemma OnMessage_prefix:
  assumes "protobuf_ok pb" and "sizes_ok pb service meth args"
  shows "OnMessage pb m (pb_WriteVarint32 pb (of_nat (length (header_of pb service meth args))) @ header_of pb service meth args @ rest) w =
    (let (ok, a, _) = pb_ReadString pb (length args) rest in if ok then let (w1, out) = serve m service meth a w in (w1, out, []) else (w, [], []))"
proof -
  have u: "unat (of_nat (length (header_of pb service meth args)) :: 32 word) = length (header_of pb service meth args)"
    "unat (of_nat (length args) :: 32 word) = length args"
    using assms(2) by (simp_all add: sizes_ok_def unat_of_nat take_bit_nat_eq_self)
  have h: "pb_ParseHeader pb (header_of pb service meth args) = Some \<lparr>service_name = service, method_name = meth, args_size = of_nat (length args)\<rparr>"
    using assms(1) by (simp add: protobuf_ok_def header_of_def)
  have v: "pb_ReadVarint32 pb (pb_WriteVarint32 pb n @ r) = (True, n, r)" "pb_ReadString pb (length s) (s @ r) = (True, s, r)" for n r s
    using assms(1) by (simp_all add: protobuf_ok_def)
  show ?thesis
    by (simp add: OnMessage_def v u h serve_def Let_def split: prod.split option.split)
qed

lemma rpc_message_eq: "rpc_message pb service meth args =
   pb_WriteVarint32 pb (of_nat (length (header_of pb service meth args))) @ header_of pb service meth args @ args"
  by (simp add: rpc_message_def header_of_def Let_def)

lemma OnMessage_whole:
  assumes "protobuf_ok pb" and "sizes_ok pb service meth args"
  shows "OnMessage pb m (rpc_message pb service meth args) w = (let (w1, out) = serve m service meth args w in (w1, out, []))"
proof -
  have "pb_ReadString pb (length args) args = (True, args, [])"
    using assms(1) unfolding protobuf_ok_def by (metis append_Nil2)
  then show ?thesis by (simp add: rpc_message_eq OnMessage_prefix [OF assms])
qed

lemma OnMessage_short:
  assumes "protobuf_ok pb" and "sizes_ok pb service meth args" and "k < length args"
  shows "OnMessage pb m (pb_WriteVarint32 pb (of_nat (length (header_of pb service meth args))) @ header_of pb service meth args @ take k args) w = (w, [], [])"
proof -
  have "\<not> fst (pb_ReadString pb (length args) (take k args))"
    using assms(1,3) by (simp add: protobuf_ok_def)
  then show ?thesis by (auto simp: OnMessage_prefix [OF assms(1,2)] split: prod.split)
qed

text \<open>The descriptors a channel holds, and what the kernel promises of a new one.\<close>

definition holds :: "int list \<Rightarrow> mprpcChannel \<Rightarrow> int list \<Rightarrow> bool" where
  "holds others ch fds \<longleftrightarrow> (m_clientFd ch = -1 \<and> fds = others) \<or> (m_clientFd ch \<ge> 0 \<and> m_clientFd ch \<notin> set others \<and> fds = m_clientFd ch # others)"

definition fresh_socket :: "int list \<Rightarrow> netAnswers \<Rightarrow> bool" where
  "fresh_socket fds a \<longleftrightarrow> na_socket a = -1 \<or> (na_socket a \<ge> 0 \<and> na_socket a \<notin> set fds)"

lemma newConnect_holds:
  assumes "fresh_socket others a" and "m_clientFd ch = -1" and "newConnect a ch others = ((rt, msg), ch', fds')"
  shows "holds others ch' fds' \<and> (rt \<longleftrightarrow> m_clientFd ch' \<noteq> -1) \<and> m_timeout ch' = m_timeout ch"
  using assms by (auto simp: newConnect_def holds_def fresh_socket_def Let_def split: if_splits prod.splits)

lemma connectRetry_holds:
  assumes "\<forall>i. fresh_socket others (a i)" and "holds others ch fds" and "rt \<longleftrightarrow> m_clientFd ch \<noteq> -1"
  shows "holds others (fst (snd (connectRetry a i n (rt, ch, fds)))) (snd (snd (connectRetry a i n (rt, ch, fds))))"
  using assms
proof (induction n arbitrary: i rt ch fds)
  case (Suc n)
  show ?case
  proof (cases rt)
    case False
    then have no: "m_clientFd ch = -1" "fds = others" using Suc.prems(2,3) by (auto simp: holds_def)
    obtain rt1 msg ch1 fds1 where nc: "newConnect (a i) ch fds = ((rt1, msg), ch1, fds1)" by (metis prod.exhaust)
    then have "holds others ch1 fds1" "rt1 \<longleftrightarrow> m_clientFd ch1 \<noteq> -1"
      using newConnect_holds [OF _ no(1), of others "a i"] Suc.prems(1) no(2) by auto
    with Suc.IH [OF Suc.prems(1)] False nc show ?thesis by simp
  qed (use Suc.prems in simp)
qed simp

lemma CallMethod_holds:
  assumes "holds others ch fds" and "fresh_socket others (rn_connect net)"
    and "CallMethod pb service meth request parse net ctl ch fds = Inr (r, ch', fds')"
  shows "holds others ch' fds'"
proof -
  obtain rt msg ch1 fds1 where c: "(if m_clientFd ch = -1 then newConnect (rn_connect net) ch fds else ((True, []), ch, fds)) = ((rt, msg), ch1, fds1)"
    by (metis prod.exhaust)
  have h: "holds others ch1 fds1" "rt \<longrightarrow> m_clientFd ch1 \<noteq> -1"
    using newConnect_holds [OF assms(2)] c assms(1) by (auto simp: holds_def split: if_splits)
  have cl: "m_clientFd ch1 \<noteq> -1 \<Longrightarrow> holds others (ch1\<lparr>m_clientFd := -1\<rparr>) (remove1 (m_clientFd ch1) fds1)"
    using h(1) by (auto simp: holds_def)
  from assms(3) show ?thesis
    unfolding CallMethod_def c using h cl
    by (auto simp: Let_def split: if_splits prod.splits option.splits)
qed

section \<open>A wire format\<close>

text \<open>An encoding with the laws of \<open>protobuf_ok\<close>: numbers in groups of seven bits, strings with their length before them.\<close>

function leb :: "nat \<Rightarrow> string" where
  "leb n = (if n < 128 then [char_of n] else char_of (128 + n mod 128) # leb (n div 128))"
  by pat_completeness auto
termination by (relation "measure id") auto

declare leb.simps [simp del]

fun unleb :: "string \<Rightarrow> (nat \<times> string) option" where
  "unleb [] = None"
| "unleb (ch # s) = (if of_char ch < (128::nat) then Some (of_char ch, s) else map_option (\<lambda>(n, r). (of_char ch - 128 + 128 * n, r)) (unleb s))"

lemma unleb_leb [simp]: "unleb (leb n @ r) = Some (n, r)"
proof (induction n rule: leb.induct)
  case (1 n)
  show ?case
  proof (cases "n < 128")
    case False
    have "unleb (leb (n div 128) @ r) = Some (n div 128, r)" using 1 [OF False] .
    moreover have "n mod 128 < 128" by simp
    then have "n mod 128 + 128 < 256" by linarith
    ultimately show ?thesis using False by (subst leb.simps) simp
  qed (subst leb.simps, simp)
qed

definition leb_string :: "string \<Rightarrow> string" where
  "leb_string s = leb (length s) @ s"

definition unleb_string :: "string \<Rightarrow> (string \<times> string) option" where
  "unleb_string inp = (case unleb inp of Some (n, r) \<Rightarrow> if n \<le> length r then Some (take n r, drop n r) else None | None \<Rightarrow> None)"

lemma unleb_string [simp]: "unleb_string (leb_string s @ r) = Some (s, r)"
  by (simp add: unleb_string_def leb_string_def)

definition leb_pb :: protobuf where
  "leb_pb = \<lparr>pb_WriteVarint32 = (\<lambda>n. leb (unat n)),
     pb_ReadVarint32 = (\<lambda>s. case unleb s of Some (n, r) \<Rightarrow> (True, of_nat n, r) | None \<Rightarrow> (False, 0, s)),
     pb_ReadString = (\<lambda>n s. if n \<le> length s then (True, take n s, drop n s) else (False, s, [])),
     pb_SerializeHeader = (\<lambda>h. leb_string (service_name h) @ leb_string (method_name h) @ leb (unat (args_size h))),
     pb_ParseHeader = (\<lambda>s. case unleb_string s of None \<Rightarrow> None | Some (a, s1) \<Rightarrow> (case unleb_string s1 of None \<Rightarrow> None
       | Some (b, s2) \<Rightarrow> (case unleb s2 of Some (n, []) \<Rightarrow> Some \<lparr>service_name = a, method_name = b, args_size = of_nat n\<rparr> | _ \<Rightarrow> None)))\<rparr>"

lemma leb_pb_ok: "protobuf_ok leb_pb"
proof -
  have "unleb (leb n) = Some (n, [])" for n using unleb_leb [of n "[]"] by simp
  then show ?thesis by (simp add: protobuf_ok_def leb_pb_def)
qed

section \<open>Calls\<close>

text \<open>C23: A remote call end to end. On an open connection whose \<open>send\<close> calls make progress, the bytes the channel writes make
  the provider run exactly the named method on exactly the serialized arguments, once, and leave nothing in its buffer; when
  the reply comes back in one piece, the call stores the parsed reply, does not touch the controller, and keeps the
  connection.\<close>

theorem rpc_call_returns:
  assumes "protobuf_ok pb" and "sizes_ok pb service meth args" and "m_clientFd ch \<noteq> -1" and "\<forall>i. rn_send net i > 0"
    and "serve m service meth args w = (w', [reply])" and "rn_recv net = Some reply" and "parse reply = Some r"
  shows "\<exists>out. CallMethod pb service meth (Some args) parse net ctl ch fds = Inr ((ctl, Some r, out), ch, fds) \<and>
     OnMessage pb m out w = (w', [reply], [])"
  using assms by (simp add: CallMethod_def sendLoop_sent OnMessage_whole)

definition echo_service :: "string \<rightharpoonup> nat serviceInfo" where
  "echo_service = NotifyService ''kvServerRpc'' [(''Get'', \<lparr>rm_parses = (\<lambda>_. True), rm_call = (\<lambda>a n. (n + 1, Some a))\<rparr>)] Map.empty"

definition open_channel :: mprpcChannel where
  "open_channel = \<lparr>m_clientFd = 7, m_ip = ''127.0.1.1'', m_port = 29016, m_timeout = 0\<rparr>"

definition good_net :: "string \<Rightarrow> rpcNet" where
  "good_net reply = \<lparr>rn_connect = \<lparr>na_socket = 7, na_sndtimeo = True, na_rcvtimeo = True, na_getfl = True, na_setfl = True, na_connect = True,
     na_inprogress = False, na_poll = 0, na_soerror = None, na_errno = 0\<rparr>, rn_send = (\<lambda>_. 3), rn_recv = Some reply, rn_errno = 0\<rparr>"

theorem rpc_call_returns_witness:
  "\<exists>out. CallMethod leb_pb ''kvServerRpc'' ''Get'' (Some ''abc'') Some (good_net ''abc'') MprpcController open_channel [7] =
       Inr ((MprpcController, Some ''abc'', out), open_channel, [7]) \<and>
     OnMessage leb_pb echo_service out 0 = (1, [''abc''], [])"
proof -
  have "length (header_of leb_pb ''kvServerRpc'' ''Get'' ''abc'') = 17" by code_simp
  then have "sizes_ok leb_pb ''kvServerRpc'' ''Get'' ''abc''" by (simp add: sizes_ok_def)
  moreover have "serve echo_service ''kvServerRpc'' ''Get'' ''abc'' 0 = (1, [''abc''])" by code_simp
  ultimately show ?thesis
    by (intro rpc_call_returns leb_pb_ok) (simp_all add: good_net_def open_channel_def)
qed

text \<open>C39: A request that the network cuts. The provider takes every callback for one whole message: when the first piece of a
  request ends inside its arguments, the callback runs no method, answers nothing and has emptied the buffer, so the request
  is lost.\<close>

theorem rpc_split_request_lost:
  assumes "protobuf_ok pb" and "sizes_ok pb service meth args" and "rpc_message pb service meth args = first @ second"
    and "second \<noteq> []" and "length second \<le> length args"
  shows "OnMessage pb m first w = (w, [], [])"
proof -
  let ?k = "length args - length second" and ?h = "pb_WriteVarint32 pb (of_nat (length (header_of pb service meth args))) @ header_of pb service meth args"
  have "first @ second = (?h @ take ?k args) @ drop ?k args" using assms(3) by (simp add: rpc_message_eq)
  moreover have "length second = length (drop ?k args)" using assms(5) by simp
  ultimately have "first = ?h @ take ?k args" by (metis append_eq_append_conv)
  then show ?thesis using OnMessage_short [OF assms(1,2), of ?k m w] assms(4,5) by (cases second) auto
qed

theorem rpc_split_request_lost_witness:
  "\<exists>first. first @ ''c'' = rpc_message leb_pb ''kvServerRpc'' ''Get'' ''abc'' \<and> OnMessage leb_pb echo_service first 0 = (0, [], [])"
proof -
  have "length (header_of leb_pb ''kvServerRpc'' ''Get'' ''abc'') = 17" by code_simp
  then have s: "sizes_ok leb_pb ''kvServerRpc'' ''Get'' ''abc''" by (simp add: sizes_ok_def)
  let ?m = "rpc_message leb_pb ''kvServerRpc'' ''Get'' ''abc''"
  have e: "?m = butlast ?m @ ''c''" by code_simp
  have "OnMessage leb_pb echo_service (butlast ?m) 0 = (0, [], [])"
    by (rule rpc_split_request_lost [OF leb_pb_ok s e]) simp_all
  then show ?thesis using e by metis
qed

text \<open>The replies that wait in the socket are one stream; a call reads at most 1024 bytes of it.\<close>

definition call_stream :: "protobuf \<Rightarrow> string \<Rightarrow> string \<Rightarrow> string option \<Rightarrow> (string \<Rightarrow> 'r option) \<Rightarrow> rpcNet \<Rightarrow> mprpcController \<Rightarrow> mprpcChannel \<Rightarrow>
    int list \<Rightarrow> string \<Rightarrow> ((mprpcController \<times> 'r option \<times> string) \<times> mprpcChannel \<times> int list) result \<times> string" where
  "call_stream pb service meth request parse net ctl ch fds inp =
     (CallMethod pb service meth request parse (net\<lparr>rn_recv := Some (take 1024 inp)\<rparr>) ctl ch fds, drop 1024 inp)"

lemma call_stream_open:
  assumes "m_clientFd ch \<noteq> -1" and "\<forall>i. rn_send net i > 0"
  shows "call_stream pb service meth (Some args) parse net ctl ch fds inp =
    (case parse (take 1024 inp) of
       None \<Rightarrow> if length inp \<ge> 1024 \<and> CHR 0x00 \<notin> set (take 1024 inp) then Inl (OutOfBounds ''recv_buf'')
         else Inr ((SetFailed (''parse error! response_str:'' @ takeWhile (\<lambda>x. x \<noteq> CHR 0x00) (take 1024 inp)) ctl, None,
           rpc_message pb service meth args), ch, fds)
     | Some r \<Rightarrow> Inr ((ctl, Some r, rpc_message pb service meth args), ch, fds), drop 1024 inp)"
  using assms by (simp add: call_stream_def CallMethod_def sendLoop_sent min_def split: option.split)

text \<open>A peer that closes the connection instead of answering: the call succeeds with the message that the empty string parses to.\<close>

lemma rpc_closed_peer_succeeds:
  assumes "m_clientFd ch \<noteq> -1" and "\<forall>i. rn_send net i > 0" and "parse [] = Some d"
  shows "call_stream pb service meth (Some args) parse net ctl ch fds [] = (Inr ((ctl, Some d, rpc_message pb service meth args), ch, fds), [])"
  using assms by (simp add: call_stream_open)

text \<open>A full buffer without a zero byte that does not parse is read beyond its end.\<close>

lemma rpc_parse_error_overruns:
  assumes "m_clientFd ch \<noteq> -1" and "\<forall>i. rn_send net i > 0" and "length inp \<ge> 1024" and "CHR 0x00 \<notin> set (take 1024 inp)"
    and "parse (take 1024 inp) = None"
  shows "fst (call_stream pb service meth (Some args) parse net ctl ch fds inp) = Inl (OutOfBounds ''recv_buf'')"
  using assms by (simp add: call_stream_open)

text \<open>Long replies. A reply of more than 1024 bytes is cut: unless the call ends in the overrun of its buffer, the channel stays open,
  with or without an error in the controller, and the rest of the reply is what the next call on it reads first, before
  its own reply \<open>r2\<close>.\<close>

theorem rpc_long_reply_shifts:
  assumes "m_clientFd ch \<noteq> -1" and "\<forall>i. rn_send net i > 0" and "length r1 \<ge> 2048"
    and "call_stream pb service meth (Some args) parse net ctl ch fds r1 = (Inr (res, ch1, fds1), rest)"
  shows "ch1 = ch \<and> fds1 = fds \<and> rest = drop 1024 r1 \<and>
     fst (call_stream pb service meth' (Some args') parse net ctl' ch1 fds1 (rest @ r2)) =
     fst (call_stream pb service meth' (Some args') parse net ctl' ch fds (take 1024 (drop 1024 r1)))"
proof -
  have r: "ch1 = ch" "fds1 = fds" "rest = drop 1024 r1"
    using assms(4) by (auto simp: call_stream_open [OF assms(1,2)] split: option.splits if_splits)
  have "take 1024 (drop 1024 r1 @ r2) = take 1024 (take 1024 (drop 1024 r1))" using assms(3) by simp
  then have "fst (call_stream pb service meth' (Some args') parse net ctl' ch fds (drop 1024 r1 @ r2)) =
      fst (call_stream pb service meth' (Some args') parse net ctl' ch fds (take 1024 (drop 1024 r1)))"
    by (simp only: call_stream_def fst_conv)
  with r show ?thesis by simp
qed

theorem rpc_long_reply_shifts_witness:
  "fst (call_stream leb_pb ''kvServerRpc'' ''Get'' (Some ''k2'') Some (good_net []) MprpcController open_channel [7] (replicate 1024 CHR ''b'' @ ''own'')) =
     fst (call_stream leb_pb ''kvServerRpc'' ''Get'' (Some ''k2'') Some (good_net []) MprpcController open_channel [7] (replicate 1024 CHR ''b''))"
proof -
  let ?r = "replicate 1024 CHR ''a'' @ replicate 1024 CHR ''b''"
  have o: "m_clientFd open_channel \<noteq> -1" "\<forall>i. rn_send (good_net []) i > 0" by (simp_all add: good_net_def open_channel_def)
  have l: "length ?r \<ge> 2048" by simp
  have "call_stream leb_pb ''kvServerRpc'' ''Get'' (Some ''k1'') Some (good_net []) MprpcController open_channel [7] ?r =
      (Inr ((MprpcController, Some (replicate 1024 CHR ''a''), rpc_message leb_pb ''kvServerRpc'' ''Get'' ''k1''), open_channel, [7]), replicate 1024 CHR ''b'')"
    by (simp only: call_stream_open [OF o]) simp
  from rpc_long_reply_shifts [OF o l this, of "''Get''" "''k2''" MprpcController "''own''"]
  show ?thesis by simp
qed

text \<open>The life of a channel: construction, calls and changes of the time-out, each with any answers of the kernel.\<close>

inductive channel_life :: "protobuf \<Rightarrow> int list \<Rightarrow> mprpcChannel \<Rightarrow> int list \<Rightarrow> bool" for pb :: protobuf and others :: "int list" where
  born: "channel_life pb others ch fds" if "\<forall>i. fresh_socket others (a i)" "MprpcChannel a ip port now others = (ch, fds)"
| called: "channel_life pb others ch' fds'" if "channel_life pb others ch fds" "fresh_socket others (rn_connect net)"
    "CallMethod pb service meth request (parse :: string \<Rightarrow> string option) net ctl ch fds = Inr (r, ch', fds')"
| timed: "channel_life pb others ch' fds'" if "channel_life pb others ch fds" "SetTimeout t an ch fds = (ch', fds')"

lemma MprpcChannel_holds:
  assumes f: "\<forall>i. fresh_socket others (a i)" and m: "MprpcChannel a ip port now others = (ch, fds)"
  shows "holds others ch fds"
proof -
  let ?c = "\<lparr>m_clientFd = -1, m_ip = ip, m_port = port, m_timeout = 0\<rparr>"
  obtain rt msg ch1 fds1 where nc: "newConnect (a 0) ?c others = ((rt, msg), ch1, fds1)" by (metis prod.exhaust)
  have h: "holds others ch1 fds1 \<and> (rt \<longleftrightarrow> m_clientFd ch1 \<noteq> -1) \<and> m_timeout ch1 = m_timeout ?c"
    by (rule newConnect_holds [OF f [rule_format] _ nc]) simp
  show ?thesis
  proof (cases now)
    case True
    then have "snd (connectRetry a 1 3 (rt, ch1, fds1)) = (ch, fds)"
      using m nc by (simp add: MprpcChannel_def del: connectRetry.simps)
    then show ?thesis using connectRetry_holds [OF f, of ch1 fds1 rt 1 3] h by (metis fst_conv snd_conv)
  qed (use m in \<open>auto simp: MprpcChannel_def holds_def\<close>)
qed

text \<open>Descriptors. Through construction with its repeated attempts, calls with every outcome and changes of the time-out a
  channel has open exactly the descriptor in \<open>m_clientFd\<close>, or none when that is \<open>-1\<close>, and its destruction closes just that
  one: no path leaks a socket or closes a foreign one.\<close>

theorem rpc_descriptors:
  assumes "channel_life pb others ch fds"
  shows "holds others ch fds \<and> delete_MprpcChannel ch fds = others"
proof -
  have "holds others ch fds"
    using assms
  proof induction
    case born
    then show ?case by (rule MprpcChannel_holds)
  next
    case called
    then show ?case using CallMethod_holds by blast
  next
    case timed
    then show ?case by (auto simp: SetTimeout_def holds_def Let_def split: if_splits)
  qed
  then show ?thesis by (auto simp: holds_def delete_MprpcChannel_def)
qed

theorem rpc_descriptors_witness:
  "\<exists>ch. channel_life leb_pb [3] ch [7, 3] \<and> holds [3] ch [7, 3] \<and> delete_MprpcChannel ch [7, 3] = [3]"
proof -
  have "channel_life leb_pb [3] (open_channel\<lparr>m_timeout := 0\<rparr>) [7, 3]"
    by (rule born [of _ "\<lambda>_. rn_connect (good_net [])" "''127.0.1.1''" 29016 True])
      (simp_all add: fresh_socket_def good_net_def MprpcChannel_def newConnect_def configureSocketTimeout_def connected_def open_channel_def eval_nat_numeral)
  with rpc_descriptors [OF this] show ?thesis by blast
qed

section \<open>The addresses of the group\<close>

lemma nat_string_length: "n < 10 ^ k \<Longrightarrow> 0 < k \<Longrightarrow> length (nat_string n) \<le> k"
proof (induction k arbitrary: n)
  case (Suc k)
  show ?case
  proof (cases "n < 10")
    case False
    with Suc.prems have "k \<noteq> 0" by (cases k) auto
    moreover have "n div 10 < 10 ^ k" using Suc.prems by (simp add: less_mult_imp_div_less mult.commute)
    ultimately have "length (nat_string (n div 10)) \<le> k" using Suc.IH by blast
    then show ?thesis using False by (subst nat_string.simps) simp
  qed (subst nat_string.simps, simp)
qed simp

definition node_key :: "nat \<Rightarrow> string \<Rightarrow> string" where
  "node_key i field = ''node'' @ to_string (int i) @ field"

definition node_entries :: "16 word list \<Rightarrow> nat \<Rightarrow> (string \<times> string) list" where
  "node_entries ports i = [(node_key i ''ip'', ''127.0.1.1''), (node_key i ''port'', to_string (sint (ports ! i)))]"

lemma node_key_inj:
  assumes "node_key i a = node_key j b" and "a \<in> {''ip'', ''port''}" and "b \<in> {''ip'', ''port''}"
  shows "i = j \<and> a = b"
proof -
  have nd: "\<not> is_digit (hd ''ip'')" "\<not> is_digit (hd ''port'')" by code_simp+
  have p: "parse_int (drop 4 (node_key n c)) = Some (int n)" if "c \<in> {''ip'', ''port''}" for n c
    using parse_to_string [of c "int n"] that nd by (auto simp: node_key_def)
  have "Some (int i) = Some (int j)" using p [of a i] p [of b j] assms by simp
  then have "i = j" by simp
  with assms(1) show ?thesis by (simp add: node_key_def)
qed

lemma node_key_eq [simp]:
  "node_key i ''ip'' = node_key j ''ip'' \<longleftrightarrow> i = j" "node_key i ''port'' = node_key j ''port'' \<longleftrightarrow> i = j"
  "node_key i ''ip'' \<noteq> node_key j ''port''" "node_key i ''port'' \<noteq> node_key j ''ip''"
  using node_key_inj by blast+

lemma node_entries_distinct: "distinct (map fst (concat (map (node_entries ports) [0..<n])))"
  by (induction n) (auto simp: node_entries_def)

lemma digit_not_markup: "is_digit ch \<or> ch = CHR ''-'' \<Longrightarrow> ch \<notin> {CHR '' '', CHR ''='', CHR ''#'', CHR ''\<newline>'', CHR 0x00}"
proof -
  have "\<forall>ch \<in> {CHR '' '', CHR ''='', CHR ''#'', CHR ''\<newline>'', CHR 0x00}. \<not> (is_digit ch \<or> ch = CHR ''-'')" by code_simp
  then show "is_digit ch \<or> ch = CHR ''-'' \<Longrightarrow> ch \<notin> {CHR '' '', CHR ''='', CHR ''#'', CHR ''\<newline>'', CHR 0x00}" by blast
qed

lemma plain_append: "plain a \<Longrightarrow> plain b \<Longrightarrow> plain (a @ b)"
  unfolding plain_def set_append by blast

lemma number_plain: "plain (to_string i)"
proof -
  have "\<forall>ch \<in> set (to_string i). is_digit ch \<or> ch = CHR ''-''" "to_string i \<noteq> []"
    using nat_string_digits nat_string_nonempty by (auto simp: to_string_def)
  then show ?thesis unfolding plain_def using digit_not_markup by blast
qed

lemma node_key_plain: "field \<in> {''ip'', ''port''} \<Longrightarrow> plain (node_key i field)"
proof -
  assume f: "field \<in> {''ip'', ''port''}"
  have "plain ''node''" "plain ''ip''" "plain ''port''" by code_simp+
  with f number_plain [of "int i"] show "plain (node_key i field)" unfolding node_key_def by (blast intro: plain_append)
qed

lemma to_string_length: "\<bar>i\<bar> < 10 ^ k \<Longrightarrow> 0 < k \<Longrightarrow> length (to_string i) \<le> k + 1"
proof -
  assume "\<bar>i\<bar> < 10 ^ k" "0 < k"
  then have "nat \<bar>i\<bar> < 10 ^ k" by (simp add: nat_less_iff)
  with \<open>0 < k\<close> nat_string_length [of "nat \<bar>i\<bar>" k] show ?thesis by (auto simp: to_string_def abs_if split: if_splits)
qed

lemma sint_short: "\<bar>sint (p :: 16 word)\<bar> < 10 ^ 9"
  using sint_lt [of p] sint_ge [of p] by (simp add: abs_if)

text \<open>The file after the providers of the nodes have started in order.\<close>

definition cluster_file :: "16 word list \<Rightarrow> string" where
  "cluster_file ports = fold (\<lambda>i. Run_file i (ports ! i)) [0..<length ports] []"

lemma cluster_file_entries:
  "fold (\<lambda>i. Run_file i (ports ! i)) is inp =
   inp @ concat (map (\<lambda>(k, v). k @ ''='' @ v @ ''\<newline>'') (concat (map (node_entries ports) is)))"
  by (induction "is" arbitrary: inp) (simp_all add: Run_file_def node_entries_def node_key_def Let_def)

text \<open>The cluster file. The lines that the providers of nodes \<open>0\<close> to \<open>n - 1\<close> append when they start are read back by the clients'
  loop over the nodes as exactly their addresses, in order.\<close>

theorem cluster_file_roundtrip:
  assumes "length ports < 2147483646"
  shows "loadNodes (Load (LoadConfigFile (cluster_file ports) Map.empty)) 0 = map (\<lambda>port. (''127.0.1.1'', port)) ports"
proof -
  let ?kvs = "concat (map (node_entries ports) [0..<length ports])"
  have "plain k \<and> plain v \<and> length k + length v < 510" if "(k, v) \<in> set ?kvs" for k v
  proof -
    from that obtain i where i: "i < length ports" "(k, v) \<in> set (node_entries ports i)" by auto
    have "length (to_string (int i)) \<le> 11" using to_string_length [of "int i" 10] i assms by simp
    moreover have "length (to_string (sint (ports ! i))) \<le> 10" using to_string_length [OF sint_short] by simp
    moreover have "plain ''127.0.1.1''" by code_simp
    ultimately show ?thesis using i(2) node_key_plain number_plain by (auto simp: node_entries_def) (simp_all add: node_key_def)
  qed
  then have load: "LoadConfigFile (cluster_file ports) Map.empty = map_of ?kvs"
    unfolding cluster_file_def cluster_file_entries append_Nil by (subst LoadConfigFile_lines) auto
  have look: "map_of ?kvs (node_key i ''ip'') = Some ''127.0.1.1''" "map_of ?kvs (node_key i ''port'') = Some (to_string (sint (ports ! i)))"
    if "i < length ports" for i
    using that node_entries_distinct [of ports "length ports"] by (auto intro!: map_of_is_SomeI simp: node_entries_def)
  have none: "map_of ?kvs (node_key (length ports) ''ip'') = None"
    by (auto simp: map_of_eq_None_iff node_entries_def)
  have "loadNodes (Load (map_of ?kvs)) 0 = map (\<lambda>(ip, port). (ip, word_of_int port)) (map (\<lambda>p. (''127.0.1.1'', sint p)) ports)"
    using look none assms by (intro loadNodes_spec) (auto simp: Load_def node_key_def)
  then show ?thesis unfolding load by (simp add: o_def)
qed

theorem cluster_file_roundtrip_witness:
  "loadNodes (Load (LoadConfigFile (cluster_file [29016, 29017]) Map.empty)) 0 = [(''127.0.1.1'', 29016), (''127.0.1.1'', 29017)]"
  using cluster_file_roundtrip [of "[29016, 29017]"] by simp

end
