(* ===== verification/Fibers.thy ===== *)
theory Fibers
  imports Prelude "HOL-Library.Multiset"
begin

text \<open>
  Fibers and their scheduler (\<open>fiber/fiber.cpp\<close>, \<open>fiber/scheduler.cpp\<close>, \<open>scheduler.hpp\<close>). A fiber is its state, its function and two flags;
  pointers to fibers are their numbers. The thread-local variables are the record \<open>threadVars\<close>. \<open>swapcontext\<close> is the pair of
  the fiber whose context is saved and the one that goes on; what a fiber does between being resumed and yielding is
  up to its function. \<open>CondPanic\<close> ends the process, its message is not modelled. A critical section of the scheduler is one
  step, and the loop \<open>run\<close> is cut where its thread leaves it for a fiber: \<open>runTake\<close> up to the switch, \<open>runBack\<close> after it.
\<close>

definition CondPanic :: "bool \<Rightarrow> string \<Rightarrow> unit result" where
  "CondPanic condition err = (if condition then Inr () else Inl (AssertFailed err))"

lemma CondPanic_eq_Inr [simp, result_simps]: "CondPanic c msg = Inr u \<longleftrightarrow> c"
  by (simp add: CondPanic_def)

lemma rbind_CondPanic [simp]: "rbind (CondPanic c msg) f = (if c then f () else Inl (AssertFailed msg))"
  by (simp add: CondPanic_def)

section \<open>Fibers\<close>

datatype fiberState = READY | RUNNING | Term

record 'c fiber =
  fb_state :: fiberState
  fb_cb :: "'c option"
  fb_stack :: bool
  isRunInScheduler :: bool

record threadVars =
  cur_fiber :: "nat option"
  cur_thread_fiber :: "nat option"
  cur_scheduler_fiber :: "nat option"

record 'c fibers =
  fb_all :: "nat \<rightharpoonup> 'c fiber"
  cur_fiber_id :: nat
  fiber_count :: nat

definition fiber_at :: "nat \<Rightarrow> 'c fibers \<Rightarrow> 'c fiber result" where
  "fiber_at f fs = (case fb_all fs f of Some x \<Rightarrow> Inr x | None \<Rightarrow> Inl (OutOfBounds ''fiber''))"

text \<open>The constructor of a thread's main fiber.\<close>

definition Fiber_main :: "threadVars \<Rightarrow> 'c fibers \<Rightarrow> nat \<times> threadVars \<times> 'c fibers" where
  "Fiber_main th fs =
     (let f = cur_fiber_id fs in
      (f, th\<lparr>cur_fiber := Some f\<rparr>,
       fs\<lparr>fb_all := (fb_all fs)(f \<mapsto> \<lparr>fb_state = RUNNING, fb_cb = None, fb_stack = False, isRunInScheduler = False\<rparr>),
          cur_fiber_id := f + 1, fiber_count := fiber_count fs + 1\<rparr>))"

definition GetThis :: "threadVars \<Rightarrow> 'c fibers \<Rightarrow> nat \<times> threadVars \<times> 'c fibers" where
  "GetThis th fs =
     (case cur_fiber th of
        Some f \<Rightarrow> (f, th, fs)
      | None \<Rightarrow> let (f, th1, fs1) = Fiber_main th fs in (f, th1\<lparr>cur_thread_fiber := Some f\<rparr>, fs1))"

definition Fiber :: "'c \<Rightarrow> bool \<Rightarrow> 'c fibers \<Rightarrow> nat \<times> 'c fibers" where
  "Fiber c run_inscheduler fs =
     (let f = cur_fiber_id fs in
      (f, fs\<lparr>fb_all := (fb_all fs)(f \<mapsto> \<lparr>fb_state = READY, fb_cb = Some c, fb_stack = True, isRunInScheduler = run_inscheduler\<rparr>),
             cur_fiber_id := f + 1, fiber_count := fiber_count fs + 1\<rparr>))"

text \<open>The fiber whose context is swapped against that of a fiber: the scheduler's or the thread's main fiber.\<close>

definition partner :: "'c fiber \<Rightarrow> threadVars \<Rightarrow> nat result" where
  "partner x th =
     (case (if isRunInScheduler x then cur_scheduler_fiber th else cur_thread_fiber th) of Some m \<Rightarrow> Inr m | None \<Rightarrow> Inl (OutOfBounds ''null fiber''))"

definition resume :: "nat \<Rightarrow> threadVars \<Rightarrow> 'c fibers \<Rightarrow> ((nat \<times> nat) \<times> threadVars \<times> 'c fibers) result" where
  "resume f th fs =
     rbind (fiber_at f fs) (\<lambda>x.
     rbind (CondPanic (fb_state x \<noteq> Term \<and> fb_state x \<noteq> RUNNING) ''state error'') (\<lambda>_.
     rbind (partner x th) (\<lambda>m.
     Inr ((m, f), th\<lparr>cur_fiber := Some f\<rparr>, fs\<lparr>fb_all := (fb_all fs)(f \<mapsto> x\<lparr>fb_state := RUNNING\<rparr>)\<rparr>))))"

definition fiber_yield :: "nat \<Rightarrow> threadVars \<Rightarrow> 'c fibers \<Rightarrow> ((nat \<times> nat) \<times> threadVars \<times> 'c fibers) result" where
  "fiber_yield f th fs =
     rbind (fiber_at f fs) (\<lambda>x.
     rbind (CondPanic (fb_state x = Term \<or> fb_state x = RUNNING) ''state error'') (\<lambda>_.
     rbind (partner x th) (\<lambda>m.
     Inr ((f, m), th\<lparr>cur_fiber := cur_thread_fiber th\<rparr>,
          fs\<lparr>fb_all := (fb_all fs)(f \<mapsto> (if fb_state x \<noteq> Term then x\<lparr>fb_state := READY\<rparr> else x))\<rparr>))))"

text \<open>The end of \<open>MainFunc\<close>, after the fiber's function has returned.\<close>

definition fiber_finish :: "nat \<Rightarrow> threadVars \<Rightarrow> 'c fibers \<Rightarrow> ((nat \<times> nat) \<times> threadVars \<times> 'c fibers) result" where
  "fiber_finish f th fs =
     rbind (fiber_at f fs) (\<lambda>x. fiber_yield f th (fs\<lparr>fb_all := (fb_all fs)(f \<mapsto> x\<lparr>fb_cb := None, fb_state := Term\<rparr>)\<rparr>))"

definition fiber_reset :: "nat \<Rightarrow> 'c \<Rightarrow> 'c fibers \<Rightarrow> 'c fibers result" where
  "fiber_reset f c fs =
     rbind (fiber_at f fs) (\<lambda>x.
     rbind (CondPanic (fb_stack x) ''stack is nullptr'') (\<lambda>_.
     rbind (CondPanic (fb_state x = Term) ''state is not TERM'') (\<lambda>_.
     Inr (fs\<lparr>fb_all := (fb_all fs)(f \<mapsto> x\<lparr>fb_cb := Some c, fb_state := READY\<rparr>)\<rparr>))))"

definition delete_Fiber :: "nat \<Rightarrow> threadVars \<Rightarrow> 'c fibers \<Rightarrow> (threadVars \<times> 'c fibers) result" where
  "delete_Fiber f th fs =
     rbind (fiber_at f fs) (\<lambda>x.
     let fs1 = fs\<lparr>fb_all := (fb_all fs)(f := None), fiber_count := fiber_count fs - 1\<rparr> in
     if fb_stack x then rbind (CondPanic (fb_state x = Term) ''fiber state should be term'') (\<lambda>_. Inr (th, fs1))
     else
       rbind (CondPanic (fb_cb x = None) ''main fiber no callback'') (\<lambda>_.
       rbind (CondPanic (fb_state x = RUNNING) ''main fiber state should be running'') (\<lambda>_.
       Inr (if cur_fiber th = Some f then th\<lparr>cur_fiber := None\<rparr> else th, fs1))))"

section \<open>The scheduler\<close>

text \<open>A task is a fiber or a function, and the thread that must run it, or \<open>-1\<close>.\<close>

datatype 'c work = FiberWork nat | CbWork 'c

record 'c schedulerTask =
  task_work :: "'c work option"
  task_thread :: int

record 'c schedulerObj =
  tasks :: "'c schedulerTask list"
  activeThreadCnt :: nat
  idleThreadCnt :: nat
  isUseCaller :: bool
  rootThread :: int
  threadCnt :: nat
  isStopped :: bool

text \<open>The constructor in thread \<open>tid\<close>; \<open>this\<close> is whether that thread has a scheduler already. The main fiber and the scheduling fiber that it
  makes for the calling thread are in the variables with which that thread enters \<open>run\<close>.\<close>

definition Scheduler :: "nat \<Rightarrow> bool \<Rightarrow> bool \<Rightarrow> int \<Rightarrow> 'c schedulerObj result" where
  "Scheduler threads use_caller this tid =
     rbind (CondPanic (threads > 0) ''threads <= 0'') (\<lambda>_.
     rbind (CondPanic (use_caller \<longrightarrow> \<not> this) ''GetThis err:cur scheduler is not nullptr'') (\<lambda>_.
     Inr \<lparr>tasks = [], activeThreadCnt = 0, idleThreadCnt = 0, isUseCaller = use_caller, rootThread = (if use_caller then tid else -1),
          threadCnt = (if use_caller then threads - 1 else threads), isStopped = False\<rparr>))"

text \<open>\<open>schedulerNoLock\<close> under the lock; the flag says whether \<open>tickle\<close> is called. An empty task is not queued.\<close>

definition scheduler :: "'c work option \<Rightarrow> int \<Rightarrow> 'c schedulerObj \<Rightarrow> bool \<times> 'c schedulerObj" where
  "scheduler t thread sc =
     (tasks sc = [], sc\<lparr>tasks := (if t \<noteq> None then tasks sc @ [\<lparr>task_work = t, task_thread = thread\<rparr>] else tasks sc)\<rparr>)"

text \<open>The search of \<open>run\<close>: the tasks before the one taken, that task and the ones after it; \<open>tickle_me\<close> is set when a task of
  another thread is passed.\<close>

fun pickTask :: "int \<Rightarrow> 'c fibers \<Rightarrow> 'c schedulerTask list \<Rightarrow> (bool \<times> 'c schedulerTask list \<times> ('c schedulerTask \<times> 'c schedulerTask list) option) result" where
  "pickTask tid fs [] = Inr (False, [], None)"
| "pickTask tid fs (t # ts) =
     (if task_thread t \<noteq> -1 \<and> task_thread t \<noteq> tid then
        rbind (pickTask tid fs ts) (\<lambda>(_, passed, found). Inr (True, t # passed, found))
      else
        rbind (CondPanic (task_work t \<noteq> None) ''task is nullptr'') (\<lambda>_.
        case task_work t of
          Some (FiberWork f) \<Rightarrow>
            rbind (fiber_at f fs) (\<lambda>x.
            rbind (CondPanic (fb_state x = READY) ''fiber task state error'') (\<lambda>_.
            Inr (False, [], Some (t, ts))))
        | _ \<Rightarrow> Inr (False, [], Some (t, ts))))"

definition stopping :: "'c schedulerObj \<Rightarrow> bool" where
  "stopping sc \<longleftrightarrow> isStopped sc \<and> tasks sc = [] \<and> activeThreadCnt sc = 0"

text \<open>Where a thread of the scheduler is: in the loop of \<open>run\<close>, in a fiber that a task started, in its idle fiber, or out of the loop.\<close>

datatype threadPhase = Looping | Executing nat | Idling | Exited

record runThread =
  rt_phase :: threadPhase
  rt_idleTerm :: bool
  rt_vars :: threadVars

record 'c schedWorld =
  w_fibers :: "'c fibers"
  w_sched :: "'c schedulerObj"
  w_threads :: "int \<rightharpoonup> runThread"
  w_started :: "('c schedulerTask \<times> int) list"

text \<open>A thread enters \<open>run\<close>: it sets its scheduler fiber, unless it is the caller thread, and makes its idle fiber.\<close>

definition runStart :: "'c \<Rightarrow> threadVars \<Rightarrow> int \<Rightarrow> 'c schedWorld \<Rightarrow> 'c schedWorld" where
  "runStart idle_cb vars tid w =
     (let (th, fs) = (if tid \<noteq> rootThread (w_sched w)
                      then let (f, th1, fs1) = GetThis vars (w_fibers w) in (th1\<lparr>cur_scheduler_fiber := Some f\<rparr>, fs1) else (vars, w_fibers w));
          (_, fs2) = Fiber idle_cb True fs in
      w\<lparr>w_fibers := fs2, w_threads := (w_threads w)(tid \<mapsto> \<lparr>rt_phase = Looping, rt_idleTerm = False, rt_vars = th\<rparr>)\<rparr>)"

text \<open>One round of the loop up to the switch. \<open>w_started\<close> records which task went to which thread. The second
  component is whether \<open>tickle\<close> was called.\<close>

definition runTake :: "int \<Rightarrow> runThread \<Rightarrow> 'c schedWorld \<Rightarrow> (bool \<times> 'c schedWorld) result" where
  "runTake tid rt w =
     rbind (pickTask tid (w_fibers w) (tasks (w_sched w))) (\<lambda>(tickle_me, passed, found).
     case found of
       Some (t, rest) \<Rightarrow>
         let sc = (w_sched w)\<lparr>tasks := passed @ rest, activeThreadCnt := activeThreadCnt (w_sched w) + 1\<rparr>;
             (f, fs) = (case task_work t of Some (CbWork c) \<Rightarrow> Fiber c True (w_fibers w) | Some (FiberWork g) \<Rightarrow> (g, w_fibers w) | None \<Rightarrow> (0, w_fibers w)) in
         rbind (resume f (rt_vars rt) fs) (\<lambda>(_, th, fs1).
         Inr (tickle_me \<or> rest \<noteq> [],
              w\<lparr>w_sched := sc, w_fibers := fs1, w_threads := (w_threads w)(tid \<mapsto> rt\<lparr>rt_phase := Executing f, rt_vars := th\<rparr>), w_started := (t, tid) # w_started w\<rparr>))
     | None \<Rightarrow>
         Inr (tickle_me,
              if rt_idleTerm rt then w\<lparr>w_threads := (w_threads w)(tid \<mapsto> rt\<lparr>rt_phase := Exited\<rparr>)\<rparr>
              else w\<lparr>w_sched := (w_sched w)\<lparr>idleThreadCnt := idleThreadCnt (w_sched w) + 1\<rparr>, w_threads := (w_threads w)(tid \<mapsto> rt\<lparr>rt_phase := Idling\<rparr>)\<rparr>))"

text \<open>Back in the loop, after the fiber of a task has yielded (\<open>finished\<close> is false) or its function has returned. A fiber object stays until its
  last pointer goes; only \<open>delete_Fiber\<close> takes it out.\<close>

definition runBack :: "bool \<Rightarrow> nat \<Rightarrow> int \<Rightarrow> runThread \<Rightarrow> 'c schedWorld \<Rightarrow> 'c schedWorld result" where
  "runBack finished f tid rt w =
     rbind ((if finished then fiber_finish else fiber_yield) f (rt_vars rt) (w_fibers w)) (\<lambda>(_, th, fs).
     Inr (w\<lparr>w_fibers := fs, w_sched := (w_sched w)\<lparr>activeThreadCnt := activeThreadCnt (w_sched w) - 1\<rparr>,
            w_threads := (w_threads w)(tid \<mapsto> rt\<lparr>rt_phase := Looping, rt_vars := th\<rparr>)\<rparr>))"

text \<open>One turn of the idle fiber, whose state is \<open>rt_phase\<close> and \<open>rt_idleTerm\<close>: it ends when the scheduler is stopping.\<close>

definition idleTurn :: "int \<Rightarrow> runThread \<Rightarrow> 'c schedWorld \<Rightarrow> 'c schedWorld" where
  "idleTurn tid rt w =
     w\<lparr>w_sched := (w_sched w)\<lparr>idleThreadCnt := idleThreadCnt (w_sched w) - 1\<rparr>,
       w_threads := (w_threads w)(tid \<mapsto> rt\<lparr>rt_phase := Looping, rt_idleTerm := stopping (w_sched w)\<rparr>)\<rparr>"

text \<open>The first lines of \<open>stop\<close>; \<open>caller\<close> says whether the calling thread belongs to the scheduler.\<close>

definition sched_stop :: "bool \<Rightarrow> 'c schedulerObj \<Rightarrow> (nat \<times> 'c schedulerObj) result" where
  "sched_stop caller sc =
     (if stopping sc then Inr (0, sc)
      else
        let sc1 = sc\<lparr>isStopped := True\<rparr> in
        rbind (CondPanic (if isUseCaller sc1 then caller else \<not> caller) ''stop'') (\<lambda>_.
        Inr (threadCnt sc1 + (if isUseCaller sc1 then 1 else 0), sc1)))"

section \<open>Runs of the scheduler\<close>

definition SchedWorld :: "'c schedulerObj \<Rightarrow> 'c schedWorld" where
  "SchedWorld sc = \<lparr>w_fibers = \<lparr>fb_all = Map.empty, cur_fiber_id = 0, fiber_count = 0\<rparr>, w_sched = sc, w_threads = Map.empty, w_started = []\<rparr>"

text \<open>Any interleaving of threads that start, take tasks, come back from fibers and idle, with tasks queued at any time; \<open>subm\<close> is the
  multiset of the tasks queued so far.\<close>

inductive sched_run :: "'c schedulerTask multiset \<Rightarrow> 'c schedWorld \<Rightarrow> bool" where
  created: "sched_run {#} (SchedWorld sc)" if "Scheduler threads use_caller this tid = Inr sc"
| started: "sched_run subm (runStart idle_cb vars tid w)" if "sched_run subm w" "w_threads w tid = None"
| queued: "sched_run (add_mset \<lparr>task_work = Some t, task_thread = thread\<rparr> subm) (w\<lparr>w_sched := snd (scheduler (Some t) thread (w_sched w))\<rparr>)"
    if "sched_run subm w"
| taken: "sched_run subm w'" if "sched_run subm w" "w_threads w tid = Some rt" "rt_phase rt = Looping" "runTake tid rt w = Inr (tickle, w')"
| came_back: "sched_run subm w'" if "sched_run subm w" "w_threads w tid = Some rt" "rt_phase rt = Executing f" "runBack finished f tid rt w = Inr w'"
| idled: "sched_run subm (idleTurn tid rt w)" if "sched_run subm w" "w_threads w tid = Some rt" "rt_phase rt = Idling"
| stopped: "sched_run subm (w\<lparr>w_sched := sc\<rparr>)" if "sched_run subm w" "sched_stop caller (w_sched w) = Inr (n, sc)"

lemma pickTask_Some:
  assumes "pickTask tid fs ts = Inr (tickle, passed, Some (t, rest))"
  shows "ts = passed @ t # rest \<and> (task_thread t = -1 \<or> task_thread t = tid) \<and>
    (\<forall>u \<in> set passed. task_thread u \<noteq> -1 \<and> task_thread u \<noteq> tid) \<and> task_work t \<noteq> None \<and>
    (\<forall>f. task_work t = Some (FiberWork f) \<longrightarrow> (\<exists>x. fb_all fs f = Some x \<and> fb_state x = READY))"
  using assms
proof (induction ts arbitrary: passed tickle)
  case (Cons u us)
  then show ?case
    by (auto simp: result_simps fiber_at_def split: if_splits option.splits work.splits prod.splits)
qed simp

lemma pickTask_None: "pickTask tid fs ts = Inr (tickle, passed, None) \<Longrightarrow> passed = ts"
  by (induction ts arbitrary: passed tickle) (auto simp: result_simps split: if_splits option.splits work.splits prod.splits)

definition executing :: "'c schedWorld \<Rightarrow> int \<Rightarrow> nat \<Rightarrow> bool" where
  "executing w tid f \<longleftrightarrow> (\<exists>rt. w_threads w tid = Some rt \<and> rt_phase rt = Executing f)"

definition busy :: "'c schedWorld \<Rightarrow> int set" where
  "busy w = {tid. \<exists>f. executing w tid f}"

text \<open>The invariant: tasks are neither lost nor duplicated and run where they must; a fiber that a thread executes is marked running and
  is executed by no other thread; the counter of active threads is right.\<close>

definition sched_inv :: "'c schedulerTask multiset \<Rightarrow> 'c schedWorld \<Rightarrow> bool" where
  "sched_inv subm w \<longleftrightarrow>
     subm = mset (tasks (w_sched w)) + mset (map fst (w_started w)) \<and>
     (\<forall>(t, tid) \<in> set (w_started w). task_thread t = -1 \<or> task_thread t = tid) \<and>
     (\<forall>tid f. executing w tid f \<longrightarrow> (\<exists>x. fb_all (w_fibers w) f = Some x \<and> fb_state x = RUNNING)) \<and>
     (\<forall>t1 t2 f. executing w t1 f \<longrightarrow> executing w t2 f \<longrightarrow> t1 = t2) \<and>
     (\<forall>f. fb_all (w_fibers w) f \<noteq> None \<longrightarrow> f < cur_fiber_id (w_fibers w)) \<and>
     finite (busy w) \<and> activeThreadCnt (w_sched w) = card (busy w) \<and>
     (\<forall>tid rt. w_threads w tid = Some rt \<longrightarrow> (rt_idleTerm rt \<or> rt_phase rt = Exited) \<longrightarrow> isStopped (w_sched w))"

lemma sched_invI:
  assumes "subm = mset (tasks (w_sched w)) + mset (map fst (w_started w))"
    and "\<And>t tid. (t, tid) \<in> set (w_started w) \<Longrightarrow> task_thread t = -1 \<or> task_thread t = tid"
    and "\<And>tid f. executing w tid f \<Longrightarrow> \<exists>x. fb_all (w_fibers w) f = Some x \<and> fb_state x = RUNNING"
    and "\<And>t1 t2 f. executing w t1 f \<Longrightarrow> executing w t2 f \<Longrightarrow> t1 = t2"
    and "\<And>f. fb_all (w_fibers w) f \<noteq> None \<Longrightarrow> f < cur_fiber_id (w_fibers w)"
    and "finite (busy w)" and "activeThreadCnt (w_sched w) = card (busy w)"
    and "\<And>tid rt. w_threads w tid = Some rt \<Longrightarrow> rt_idleTerm rt \<or> rt_phase rt = Exited \<Longrightarrow> isStopped (w_sched w)"
  shows "sched_inv subm w"
  unfolding sched_inv_def using assms by blast

lemma sched_invD:
  assumes "sched_inv subm w"
  shows "subm = mset (tasks (w_sched w)) + mset (map fst (w_started w))"
    and "(t, tid) \<in> set (w_started w) \<Longrightarrow> task_thread t = -1 \<or> task_thread t = tid"
    and "executing w tid f \<Longrightarrow> \<exists>x. fb_all (w_fibers w) f = Some x \<and> fb_state x = RUNNING"
    and "executing w t1 f \<Longrightarrow> executing w t2 f \<Longrightarrow> t1 = t2"
    and "fb_all (w_fibers w) f \<noteq> None \<Longrightarrow> f < cur_fiber_id (w_fibers w)"
    and "finite (busy w)" and "activeThreadCnt (w_sched w) = card (busy w)"
    and "w_threads w tid = Some rt \<Longrightarrow> rt_idleTerm rt \<or> rt_phase rt = Exited \<Longrightarrow> isStopped (w_sched w)"
proof -
  note inv = assms [unfolded sched_inv_def]
  show "subm = mset (tasks (w_sched w)) + mset (map fst (w_started w))" using inv by (elim conjE)
  show "finite (busy w)" using inv by (elim conjE)
  show "activeThreadCnt (w_sched w) = card (busy w)" using inv by (elim conjE)
  show "executing w tid f \<Longrightarrow> \<exists>x. fb_all (w_fibers w) f = Some x \<and> fb_state x = RUNNING" using inv by blast
  show "executing w t1 f \<Longrightarrow> executing w t2 f \<Longrightarrow> t1 = t2" using inv by blast
  show "fb_all (w_fibers w) f \<noteq> None \<Longrightarrow> f < cur_fiber_id (w_fibers w)" using inv by blast
  show "w_threads w tid = Some rt \<Longrightarrow> rt_idleTerm rt \<or> rt_phase rt = Exited \<Longrightarrow> isStopped (w_sched w)" using inv by blast
  show "(t, tid) \<in> set (w_started w) \<Longrightarrow> task_thread t = -1 \<or> task_thread t = tid" using inv by auto
qed

text \<open>Steps that change neither what is executed nor which tasks were queued or started.\<close>

lemma sched_inv_frame:
  assumes "sched_inv subm w" and "\<And>t f. executing w' t f = executing w t f" and "w_started w' = w_started w" and "tasks (w_sched w') = tasks (w_sched w)"
    and "activeThreadCnt (w_sched w') = activeThreadCnt (w_sched w)"
    and "\<And>f x. fb_all (w_fibers w) f = Some x \<Longrightarrow> fb_all (w_fibers w') f = Some x"
    and "\<And>f. fb_all (w_fibers w') f \<noteq> None \<Longrightarrow> f < cur_fiber_id (w_fibers w')"
    and "\<And>t r. w_threads w' t = Some r \<Longrightarrow> rt_idleTerm r \<or> rt_phase r = Exited \<Longrightarrow> isStopped (w_sched w')"
  shows "sched_inv subm w'"
proof (rule sched_invI)
  have b: "busy w' = busy w" by (simp add: busy_def assms(2))
  show "finite (busy w')" "activeThreadCnt (w_sched w') = card (busy w')" using sched_invD [OF assms(1)] b assms(5) by simp_all
  show "subm = mset (tasks (w_sched w')) + mset (map fst (w_started w'))" using sched_invD(1) [OF assms(1)] assms(3,4) by simp
  show "executing w' tid f \<Longrightarrow> \<exists>x. fb_all (w_fibers w') f = Some x \<and> fb_state x = RUNNING" for tid f
    using sched_invD(3) [OF assms(1)] assms(2,6) by blast
  show "executing w' t1 f \<Longrightarrow> executing w' t2 f \<Longrightarrow> t1 = t2" for t1 t2 f using sched_invD(4) [OF assms(1)] assms(2) by blast
  show "(t, tid) \<in> set (w_started w') \<Longrightarrow> task_thread t = -1 \<or> task_thread t = tid" for t tid using sched_invD(2) [OF assms(1)] assms(3) by simp
qed (use assms(7,8) in blast)+

lemma resume_eq:
  assumes "resume f th fs = Inr (sw, th', fs')"
  shows "\<exists>x. fb_all fs f = Some x \<and> fb_state x = READY \<and> fb_all fs' = (fb_all fs)(f \<mapsto> x\<lparr>fb_state := RUNNING\<rparr>) \<and> cur_fiber_id fs' = cur_fiber_id fs"
  using assms by (auto simp: resume_def fiber_at_def result_simps split: if_splits option.splits) (metis fiberState.exhaust)

lemma back_eq:
  assumes "(if finished then fiber_finish else fiber_yield) f th fs = Inr (sw, th', fs')"
  shows "\<exists>y. fb_all fs' = (fb_all fs)(f \<mapsto> y) \<and> cur_fiber_id fs' = cur_fiber_id fs \<and> fb_all fs f \<noteq> None"
  using assms by (auto simp: fiber_finish_def fiber_yield_def fiber_at_def result_simps split: if_splits option.splits)

lemma runStart_inv:
  assumes "sched_inv subm w" and "w_threads w tid = None"
  shows "sched_inv subm (runStart idle_cb vars tid w)"
proof -
  let ?w = "runStart idle_cb vars tid w"
  have sch: "w_sched ?w = w_sched w" "w_started ?w = w_started w" by (simp_all add: runStart_def split_def Let_def)
  have ex: "executing ?w t f \<longleftrightarrow> executing w t f" for t f
    using assms(2) by (auto simp: executing_def runStart_def split_def Let_def)
  have fb: "\<forall>f x. fb_all (w_fibers w) f = Some x \<longrightarrow> fb_all (w_fibers ?w) f = Some x"
    "\<forall>f. fb_all (w_fibers ?w) f \<noteq> None \<longrightarrow> f < cur_fiber_id (w_fibers ?w)"
    using assms(1) by (auto simp: sched_inv_def runStart_def Fiber_def GetThis_def Fiber_main_def Let_def less_Suc_eq split: option.splits prod.splits)
  have th: "w_threads ?w t = Some rt \<Longrightarrow> rt_idleTerm rt \<or> rt_phase rt = Exited \<Longrightarrow> w_threads w t = Some rt" for t rt
    by (auto simp: runStart_def split_def Let_def split: if_splits)
  show ?thesis by (rule sched_inv_frame [OF assms(1) ex]) (use fb sch th [THEN sched_invD(8) [OF assms(1)]] in simp_all)
qed

lemma runTake_inv:
  assumes inv: "sched_inv subm w" and rt: "w_threads w tid = Some rt" "rt_phase rt = Looping" and tk: "runTake tid rt w = Inr (tickle, w')"
  shows "sched_inv subm w'"
proof -
  obtain tm passed found where pk: "pickTask tid (w_fibers w) (tasks (w_sched w)) = Inr (tm, passed, found)"
    using tk by (auto simp: runTake_def result_simps)
  have idle: "tid \<notin> busy w" using rt by (simp add: busy_def executing_def)
  show ?thesis
  proof (cases found)
    case None
    then have p: "passed = tasks (w_sched w)" using pickTask_None pk by blast
    have ex: "executing w' t f \<longleftrightarrow> executing w t f" for t f
      using tk None pk rt by (auto simp: runTake_def executing_def split: if_splits)
    have same: "w_fibers w' = w_fibers w" "tasks (w_sched w') = tasks (w_sched w)" "w_started w' = w_started w"
      "activeThreadCnt (w_sched w') = activeThreadCnt (w_sched w)" "isStopped (w_sched w') = isStopped (w_sched w)"
      using tk None pk by (auto simp: runTake_def split: if_splits)
    have th: "\<exists>r'. w_threads w t = Some r' \<and> (rt_idleTerm r' \<or> rt_phase r' = Exited)"
      if "w_threads w' t = Some r" "rt_idleTerm r \<or> rt_phase r = Exited" for t r
      using that tk None pk rt by (auto simp: runTake_def split: if_splits)
    have st: "isStopped (w_sched w')" if "w_threads w' t = Some r" "rt_idleTerm r \<or> rt_phase r = Exited" for t r
      using th [OF that] sched_invD(8) [OF inv] same(5) by blast
    show ?thesis by (rule sched_inv_frame [OF inv ex]) (use same st sched_invD(5) [OF inv] in simp_all)
  next
    case (Some tr)
    obtain t rest where tr: "tr = (t, rest)" by (cases tr)
    note pick = pickTask_Some [OF pk [unfolded Some tr]]
    obtain f fs where ff: "(case task_work t of Some (CbWork c) \<Rightarrow> Fiber c True (w_fibers w) | Some (FiberWork g) \<Rightarrow> (g, w_fibers w) | None \<Rightarrow> (0, w_fibers w)) = (f, fs)"
      by fastforce
    obtain sw th fs1 where rs: "resume f (rt_vars rt) fs = Inr (sw, th, fs1)"
      using tk Some tr pk ff by (auto simp: runTake_def result_simps Let_def)
    have w': "w' = w\<lparr>w_sched := (w_sched w)\<lparr>tasks := passed @ rest, activeThreadCnt := activeThreadCnt (w_sched w) + 1\<rparr>, w_fibers := fs1,
        w_threads := (w_threads w)(tid \<mapsto> rt\<lparr>rt_phase := Executing f, rt_vars := th\<rparr>), w_started := (t, tid) # w_started w\<rparr>"
      using tk Some tr pk ff rs by (auto simp: runTake_def Let_def)
    have ex: "executing w' u g \<longleftrightarrow> (if u = tid then g = f else executing w u g)" for u g by (auto simp: executing_def w')
    obtain x where x: "fb_all fs f = Some x" "fb_state x = READY" "fb_all fs1 = (fb_all fs)(f \<mapsto> x\<lparr>fb_state := RUNNING\<rparr>)" "cur_fiber_id fs1 = cur_fiber_id fs"
      using resume_eq [OF rs] by blast
    have fs: "\<forall>g y. fb_all (w_fibers w) g = Some y \<longrightarrow> fb_all fs g = Some y" "\<forall>g. fb_all fs g \<noteq> None \<longrightarrow> g < cur_fiber_id fs"
      using ff inv by (auto simp: sched_inv_def Fiber_def Let_def less_Suc_eq split: option.splits work.splits)
    have run: "\<And>u g. executing w u g \<Longrightarrow> \<exists>y. fb_all (w_fibers w) g = Some y \<and> fb_state y = RUNNING" using inv by (auto simp: sched_inv_def)
    have nf: "\<not> executing w u f" for u using run [of u f] fs(1) x(1,2) by auto
    have busy: "busy w' = insert tid (busy w)" by (auto simp: busy_def ex)
    have fin: "finite (busy w)" "activeThreadCnt (w_sched w) = card (busy w)" using inv by (auto simp: sched_inv_def)
    have "activeThreadCnt (w_sched w') = card (busy w')" using fin idle by (simp add: busy) (simp add: w')
    moreover have "\<exists>y. fb_all (w_fibers w') g = Some y \<and> fb_state y = RUNNING" if "executing w' u g" for u g
    proof -
      from that have "g = f \<or> executing w u g" by (auto simp: ex split: if_splits)
      then show ?thesis using run [of u g] fs(1) x(3) by (auto simp: w')
    qed
    moreover have "u1 = u2" if "executing w' u1 g" "executing w' u2 g" for u1 u2 g
      using that nf inv by (auto simp: ex sched_inv_def split: if_splits)
    moreover have "subm = mset (tasks (w_sched w')) + mset (map fst (w_started w'))"
      using inv pick by (simp add: sched_inv_def w')
    moreover have "\<forall>(t, tid) \<in> set (w_started w'). task_thread t = -1 \<or> task_thread t = tid" using inv pick by (auto simp: sched_inv_def w')
    moreover have "\<forall>g. fb_all (w_fibers w') g \<noteq> None \<longrightarrow> g < cur_fiber_id (w_fibers w')" using fs(2) x by (auto simp: w')
    moreover have "\<forall>u r. w_threads w' u = Some r \<longrightarrow> rt_idleTerm r \<or> rt_phase r = Exited \<longrightarrow> isStopped (w_sched w')"
      using inv rt by (auto simp: sched_inv_def w' split: if_splits)
    ultimately show ?thesis using fin(1) by (intro sched_invI) (auto simp: busy)
  qed
qed

lemma runBack_inv:
  assumes inv: "sched_inv subm w" and rt: "w_threads w tid = Some rt" "rt_phase rt = Executing f" and bk: "runBack finished f tid rt w = Inr w'"
  shows "sched_inv subm w'"
proof -
  obtain sw th fs where y: "(if finished then fiber_finish else fiber_yield) f (rt_vars rt) (w_fibers w) = Inr (sw, th, fs)"
    using bk unfolding runBack_def by (cases "(if finished then fiber_finish else fiber_yield) f (rt_vars rt) (w_fibers w)") auto
  have w': "w' = w\<lparr>w_fibers := fs, w_sched := (w_sched w)\<lparr>activeThreadCnt := activeThreadCnt (w_sched w) - 1\<rparr>,
      w_threads := (w_threads w)(tid \<mapsto> rt\<lparr>rt_phase := Looping, rt_vars := th\<rparr>)\<rparr>"
    using bk unfolding runBack_def y by simp
  obtain z where z: "fb_all fs = (fb_all (w_fibers w))(f \<mapsto> z)" "cur_fiber_id fs = cur_fiber_id (w_fibers w)" "fb_all (w_fibers w) f \<noteq> None"
    using back_eq [OF y] by blast
  have ex: "executing w' u g \<longleftrightarrow> u \<noteq> tid \<and> executing w u g" for u g by (auto simp: executing_def w')
  have me: "executing w tid f" using rt by (auto simp: executing_def)
  have busy: "busy w' = busy w - {tid}" "tid \<in> busy w" using me by (auto simp: busy_def ex)
  note d = sched_invD [OF inv]
  show ?thesis
  proof (rule sched_invI)
    show "activeThreadCnt (w_sched w') = card (busy w')" "finite (busy w')" using d(6,7) busy by (auto simp: w')
    show "subm = mset (tasks (w_sched w')) + mset (map fst (w_started w'))" using d(1) by (simp add: w')
    show "executing w' t1 g \<Longrightarrow> executing w' t2 g \<Longrightarrow> t1 = t2" for t1 t2 g using d(4) ex by blast
    show "\<exists>x. fb_all (w_fibers w') g = Some x \<and> fb_state x = RUNNING" if "executing w' u g" for u g
    proof -
      from that have "u \<noteq> tid" "executing w u g" by (simp_all add: ex)
      then show ?thesis using d(3) [of u g] d(4) [OF me, of u] z(1) by (auto simp: w')
    qed
    show "fb_all (w_fibers w') g \<noteq> None \<Longrightarrow> g < cur_fiber_id (w_fibers w')" for g using d(5) z by (auto simp: w' split: if_splits)
    show "(t, u) \<in> set (w_started w') \<Longrightarrow> task_thread t = -1 \<or> task_thread t = u" for t u using d(2) by (simp add: w')
    show "w_threads w' u = Some r \<Longrightarrow> rt_idleTerm r \<or> rt_phase r = Exited \<Longrightarrow> isStopped (w_sched w')" for u r
      using d(8) rt by (auto simp: w' split: if_splits)
  qed
qed

lemma sched_run_inv: "sched_run subm w \<Longrightarrow> sched_inv subm w"
proof (induction rule: sched_run.induct)
  case (created threads use_caller tid sc)
  then show ?case by (auto simp: sched_inv_def SchedWorld_def Scheduler_def executing_def busy_def split: if_splits)
next
  case (queued subm w t thread)
  note d = sched_invD [OF queued.IH]
  have "executing (w\<lparr>w_sched := snd (scheduler (Some t) thread (w_sched w))\<rparr>) u f = executing w u f" for u f by (simp add: executing_def)
  then show ?case using d by (intro sched_invI) (auto simp: scheduler_def busy_def)
next
  case (idled subm w tid rt)
  have "executing (idleTurn tid rt w) u f = executing w u f" for u f using idled by (auto simp: executing_def idleTurn_def)
  then show ?case
    by (rule sched_inv_frame [OF idled.IH])
      (use idled sched_invD(5,8) [OF idled.IH] in \<open>auto simp: idleTurn_def stopping_def split: if_splits\<close>)
next
  case (stopped subm w caller n sc)
  have sc: "tasks sc = tasks (w_sched w)" "activeThreadCnt sc = activeThreadCnt (w_sched w)" "isStopped (w_sched w) \<longrightarrow> isStopped sc"
    using stopped(2) by (auto simp: sched_stop_def Let_def split: if_splits)
  show ?case
    by (rule sched_inv_frame [OF stopped.IH]) (use sc sched_invD(5,8) [OF stopped.IH] in \<open>auto simp: executing_def\<close>)
next
  case started
  show ?case by (rule runStart_inv [OF started.IH started.hyps(2)])
next
  case taken
  show ?case by (rule runTake_inv [OF taken.IH taken.hyps(2-4)])
next
  case came_back
  show ?case by (rule runBack_inv [OF came_back.IH came_back.hyps(2-4)])
qed


text \<open>C40: The wake-up race. When the wake-up of a fiber is queued while the fiber is still on its way to \<open>yield\<close> on its thread, the next
  thread that looks for a task ends the process: it insists that the fiber is READY instead of passing it over.\<close>

theorem early_wakeup_panics:
  assumes "sched_run subm w" and "executing w t1 f" and "tasks (w_sched w) = \<lparr>task_work = Some (FiberWork f), task_thread = -1\<rparr> # ts"
  shows "runTake t2 rt w = Inl (AssertFailed ''fiber task state error'')"
proof -
  obtain x where "fb_all (w_fibers w) f = Some x" "fb_state x = RUNNING" using sched_invD(3) [OF sched_run_inv [OF assms(1)] assms(2)] by blast
  then show ?thesis using assms(3) by (simp add: runTake_def fiber_at_def)
qed

text \<open>Two threads; the first runs a function while the wake-up of its fiber is queued.\<close>

definition no_vars :: threadVars where
  "no_vars = \<lparr>cur_fiber = None, cur_thread_fiber = None, cur_scheduler_fiber = None\<rparr>"

definition race_start :: "string schedWorld" where
  "race_start = (let w = runStart ''idle'' no_vars 2 (runStart ''idle'' no_vars 1 (SchedWorld (projr (Scheduler 2 False False 1)))) in
     w\<lparr>w_sched := snd (scheduler (Some (CbWork ''ticker'')) (-1) (w_sched w))\<rparr>)"

definition race_mid :: "string schedWorld" where
  "race_mid = snd (projr (runTake 1 (the (w_threads race_start 1)) race_start))"

definition race_end :: "string schedWorld" where
  "race_end = race_mid\<lparr>w_sched := snd (scheduler (Some (FiberWork 4)) (-1) (w_sched race_mid))\<rparr>"

lemma race_end_run: "\<exists>subm. sched_run subm race_end"
proof -
  have "Scheduler 2 False False 1 = Inr (projr (Scheduler 2 False False 1 :: string schedulerObj result))" by (simp add: Scheduler_def)
  then have "sched_run {#} (SchedWorld (projr (Scheduler 2 False False 1 :: string schedulerObj result)))" by (rule sched_run.created)
  then have "sched_run {#} (runStart ''idle'' no_vars 2 (runStart ''idle'' no_vars 1 (SchedWorld (projr (Scheduler 2 False False 1)))))"
    by (intro sched_run.started) (simp_all add: SchedWorld_def runStart_def split_def Let_def)
  from sched_run.queued [OF this, of "CbWork ''ticker''" "-1"]
  obtain subm where s: "sched_run subm race_start" by (auto simp: race_start_def Let_def)
  have th: "\<not> isl (runTake 1 (the (w_threads race_start 1)) race_start)" "map_option rt_phase (w_threads race_start 1) = Some Looping" by code_simp+
  then have "runTake 1 (the (w_threads race_start 1)) race_start = Inr (fst (projr (runTake 1 (the (w_threads race_start 1)) race_start)), race_mid)"
    by (simp add: race_mid_def sum.collapse(2))
  with s th have "sched_run subm race_mid" by (intro sched_run.taken [OF s, of 1]) auto
  from sched_run.queued [OF this, of "FiberWork 4" "-1"] show ?thesis by (auto simp: race_end_def)
qed


theorem early_wakeup_panics_witness:
  "runTake 2 (the (w_threads race_end 2)) race_end = Inl (AssertFailed ''fiber task state error'')"
proof -
  obtain subm where r: "sched_run subm race_end" using race_end_run by blast
  have ph: "map_option rt_phase (w_threads race_end 1) = Some (Executing 4)" by code_simp
  then have e: "executing race_end 1 4" by (auto simp: executing_def)
  have t: "tasks (w_sched race_end) = [\<lparr>task_work = Some (FiberWork 4), task_thread = -1\<rparr>]" by code_simp
  show ?thesis by (rule early_wakeup_panics [OF r e t])
qed

end
