(* ===== verification/Timer.thy ===== *)
theory Timer
  imports Prelude "HOL-Library.Word"
begin

text \<open>
  Timers of the fiber library (\<open>fiber/timer.cpp\<close>). A timer is an object at an address; \<open>tm_heap\<close> holds the timers that exist, and
  \<open>timers\<close> is the \<open>std::set\<close> of the pending ones in the order of the comparator: by due time, then by address. Times are
  milliseconds in 64 bits and wrap. The clock \<open>GetElapsedMS()\<close>, the address of a new object and whether a weak pointer can
  be locked are arguments. Each function holds the manager's lock for its whole length and is one step; the flag that
  \<open>addTimer\<close> returns says whether it calls \<open>OnTimerInsertedAtFront\<close>. Erasing \<open>end()\<close> is a failure.
\<close>

section \<open>Timers\<close>

text \<open>\<open>Conditional w cb\<close> is \<open>std::bind(&OnTimer, weak_cond, cb)\<close>.\<close>

datatype 'c timerCb = Plain 'c | Conditional nat 'c

record 'c timer =
  recurring :: bool
  ms :: "64 word"
  nextTime :: "64 word"
  cb :: "'c timerCb option"

record 'c timerManager =
  tm_heap :: "nat \<rightharpoonup> 'c timer"
  timers :: "nat list"
  tickled :: bool
  previouseTime :: "64 word"

definition OnTimer :: "(nat \<Rightarrow> bool) \<Rightarrow> nat \<Rightarrow> 'c \<Rightarrow> 'c list" where
  "OnTimer alive weak_cond c = (if alive weak_cond then [c] else [])"

text \<open>What calling an expired timer's function runs.\<close>

definition runTimerCb :: "(nat \<Rightarrow> bool) \<Rightarrow> 'c timerCb \<Rightarrow> 'c list" where
  "runTimerCb alive f = (case f of Plain c \<Rightarrow> [c] | Conditional w c \<Rightarrow> OnTimer alive w c)"

definition Timer :: "64 word \<Rightarrow> 64 word \<Rightarrow> 'c timerCb \<Rightarrow> bool \<Rightarrow> 'c timer" where
  "Timer now m c recur = \<lparr>recurring = recur, ms = m, nextTime = now + m, cb = Some c\<rparr>"

text \<open>The comparator, on pointers; \<open>None\<close> is the null pointer.\<close>

definition Comparator :: "(nat \<Rightarrow> 64 word) \<Rightarrow> nat option \<Rightarrow> nat option \<Rightarrow> bool" where
  "Comparator nxt lhs rhs =
     (case lhs of
        None \<Rightarrow> rhs \<noteq> None
      | Some l \<Rightarrow>
          (case rhs of
             None \<Rightarrow> False
           | Some r \<Rightarrow> if nxt l < nxt r then True else if nxt r < nxt l then False else l < r))"

definition next_of :: "'c timerManager \<Rightarrow> nat \<Rightarrow> 64 word" where
  "next_of tm p = (case tm_heap tm p of Some t \<Rightarrow> nextTime t | None \<Rightarrow> 0)"

abbreviation before :: "'c timerManager \<Rightarrow> nat \<Rightarrow> nat \<Rightarrow> bool" where
  "before tm a b \<equiv> Comparator (next_of tm) (Some a) (Some b)"

section \<open>The set\<close>

definition set_find :: "(nat \<Rightarrow> nat \<Rightarrow> bool) \<Rightarrow> nat \<Rightarrow> nat list \<Rightarrow> nat option" where
  "set_find lt p xs = find (\<lambda>q. \<not> lt p q \<and> \<not> lt q p) xs"

fun set_insert :: "(nat \<Rightarrow> nat \<Rightarrow> bool) \<Rightarrow> nat \<Rightarrow> nat list \<Rightarrow> nat list" where
  "set_insert lt p [] = [p]"
| "set_insert lt p (q # qs) = (if lt p q then p # q # qs else if lt q p then q # set_insert lt p qs else q # qs)"

text \<open>\<open>erase(it)\<close> with \<open>it\<close> from \<open>find\<close>\<close>

definition set_erase :: "nat option \<Rightarrow> nat list \<Rightarrow> nat list result" where
  "set_erase it xs = (case it of None \<Rightarrow> Inl (OutOfBounds ''erase(end())'') | Some q \<Rightarrow> Inr (remove1 q xs))"

section \<open>Operations\<close>

definition TimerManager :: "64 word \<Rightarrow> 'c timerManager" where
  "TimerManager now = \<lparr>tm_heap = Map.empty, timers = [], tickled = False, previouseTime = now\<rparr>"

text \<open>The private \<open>addTimer(val, lock)\<close>.\<close>

definition addTimer_locked :: "nat \<Rightarrow> 'c timerManager \<Rightarrow> bool \<times> 'c timerManager" where
  "addTimer_locked p tm =
     (let ts = set_insert (before tm) p (timers tm);
          at_front = (hd ts = the (set_find (before tm) p ts) \<and> \<not> tickled tm) in
      (at_front, tm\<lparr>timers := ts, tickled := (if at_front then True else tickled tm)\<rparr>))"

definition addTimer :: "64 word \<Rightarrow> nat \<Rightarrow> 64 word \<Rightarrow> 'c timerCb \<Rightarrow> bool \<Rightarrow> 'c timerManager \<Rightarrow> bool \<times> 'c timerManager" where
  "addTimer now p m c recur tm = addTimer_locked p (tm\<lparr>tm_heap := (tm_heap tm)(p \<mapsto> Timer now m c recur)\<rparr>)"

definition addConditionTimer :: "64 word \<Rightarrow> nat \<Rightarrow> 64 word \<Rightarrow> 'c \<Rightarrow> nat \<Rightarrow> bool \<Rightarrow> 'c timerManager \<Rightarrow> bool \<times> 'c timerManager" where
  "addConditionTimer now p m c weak_cond recur tm = addTimer now p m (Conditional weak_cond c) recur tm"

definition timer_cancel :: "nat \<Rightarrow> 'c timerManager \<Rightarrow> (bool \<times> 'c timerManager) result" where
  "timer_cancel p tm =
     (case tm_heap tm p of
        None \<Rightarrow> Inl (OutOfBounds ''timer'')
      | Some t \<Rightarrow>
          if cb t \<noteq> None then
            let tm1 = tm\<lparr>tm_heap := (tm_heap tm)(p \<mapsto> t\<lparr>cb := None\<rparr>)\<rparr> in
            rbind (set_erase (set_find (before tm1) p (timers tm1)) (timers tm1)) (\<lambda>ts. Inr (True, tm1\<lparr>timers := ts\<rparr>))
          else Inr (False, tm))"

definition timer_refresh :: "64 word \<Rightarrow> nat \<Rightarrow> 'c timerManager \<Rightarrow> (bool \<times> 'c timerManager) result" where
  "timer_refresh now p tm =
     (case tm_heap tm p of
        None \<Rightarrow> Inl (OutOfBounds ''timer'')
      | Some t \<Rightarrow>
          if cb t = None then Inr (False, tm)
          else (case set_find (before tm) p (timers tm) of
              None \<Rightarrow> Inr (False, tm)
            | Some q \<Rightarrow>
                let tm1 = tm\<lparr>timers := remove1 q (timers tm), tm_heap := (tm_heap tm)(p \<mapsto> t\<lparr>nextTime := now + ms t\<rparr>)\<rparr> in
                Inr (True, tm1\<lparr>timers := set_insert (before tm1) p (timers tm1)\<rparr>)))"

text \<open>The results are the return value, whether the front changed, and the manager.\<close>

definition timer_reset :: "64 word \<Rightarrow> 64 word \<Rightarrow> bool \<Rightarrow> nat \<Rightarrow> 'c timerManager \<Rightarrow> (bool \<times> bool \<times> 'c timerManager) result" where
  "timer_reset now m from_now p tm =
     (case tm_heap tm p of
        None \<Rightarrow> Inl (OutOfBounds ''timer'')
      | Some t \<Rightarrow>
          if m = ms t \<and> \<not> from_now then Inr (True, False, tm)
          else if cb t = None then Inr (True, False, tm)
          else (case set_find (before tm) p (timers tm) of
              None \<Rightarrow> Inr (False, False, tm)
            | Some q \<Rightarrow>
                let start = (if from_now then now else nextTime t - ms t);
                    tm1 = tm\<lparr>timers := remove1 q (timers tm), tm_heap := (tm_heap tm)(p \<mapsto> t\<lparr>ms := m, nextTime := start + m\<rparr>)\<rparr>;
                    (front, tm2) = addTimer_locked p tm1 in
                Inr (True, front, tm2)))"

definition getNextTimer :: "64 word \<Rightarrow> 'c timerManager \<Rightarrow> 64 word \<times> 'c timerManager" where
  "getNextTimer now_ms tm =
     (let tm1 = tm\<lparr>tickled := False\<rparr> in
      case timers tm1 of
        [] \<Rightarrow> (- 1, tm1)
      | p # _ \<Rightarrow> (if now_ms \<ge> next_of tm1 p then 0 else next_of tm1 p - now_ms, tm1))"

definition detectClockRolllover :: "64 word \<Rightarrow> 'c timerManager \<Rightarrow> bool \<times> 'c timerManager" where
  "detectClockRolllover now_ms tm =
     (now_ms < previouseTime tm \<and> now_ms < previouseTime tm - 60 * 60 * 1000, tm\<lparr>previouseTime := now_ms\<rparr>)"

text \<open>The position of \<open>lower_bound(now_timer)\<close> and of the loop after it; \<open>q\<close> is the address of \<open>now_timer\<close>.\<close>

definition splitExpired :: "64 word \<Rightarrow> nat \<Rightarrow> bool \<Rightarrow> 'c timerManager \<Rightarrow> nat list \<times> nat list" where
  "splitExpired now_ms q rollover tm =
     (let nxt = (next_of tm)(q := now_ms);
          lt = (\<lambda>p. Comparator nxt (Some p) (Some q));
          (early, rest) = (if rollover then (timers tm, []) else (takeWhile lt (timers tm), dropWhile lt (timers tm)));
          here = takeWhile (\<lambda>p. next_of tm p = now_ms) rest in
      (early @ here, drop (length here) rest))"

text \<open>One expired timer: its function is collected; it is put back or loses its function.\<close>

fun collectExpired :: "64 word \<Rightarrow> nat list \<Rightarrow> 'c timerManager \<Rightarrow> 'c timerCb option list \<times> 'c timerManager" where
  "collectExpired now_ms [] tm = ([], tm)"
| "collectExpired now_ms (p # ps) tm =
     (let t = the (tm_heap tm p);
          tm1 = (if recurring t then
                   let tm0 = tm\<lparr>tm_heap := (tm_heap tm)(p \<mapsto> t\<lparr>nextTime := now_ms + ms t\<rparr>)\<rparr> in tm0\<lparr>timers := set_insert (before tm0) p (timers tm0)\<rparr>
                 else tm\<lparr>tm_heap := (tm_heap tm)(p \<mapsto> t\<lparr>cb := None\<rparr>)\<rparr>);
          (cbs, tm2) = collectExpired now_ms ps tm1 in
      (cb t # cbs, tm2))"

definition listExpiredCb :: "64 word \<Rightarrow> nat \<Rightarrow> 'c timerManager \<Rightarrow> 'c timerCb option list \<times> 'c timerManager" where
  "listExpiredCb now_ms q tm =
     (case timers tm of
        [] \<Rightarrow> ([], tm)
      | p # _ \<Rightarrow>
          let (rollover, tm1) = detectClockRolllover now_ms tm in
          if \<not> rollover \<and> next_of tm1 p > now_ms then ([], tm1)
          else
            let (expired, rest) = splitExpired now_ms q rollover tm1 in
            collectExpired now_ms expired (tm1\<lparr>timers := rest\<rparr>))"

definition hasTimer :: "'c timerManager \<Rightarrow> bool" where
  "hasTimer tm \<longleftrightarrow> timers tm \<noteq> []"

section \<open>The set is ordered\<close>

locale ordered_set =
  fixes lt :: "nat \<Rightarrow> nat \<Rightarrow> bool"
  assumes irrefl: "\<not> lt a a" and trans: "lt a b \<Longrightarrow> lt b c \<Longrightarrow> lt a c" and total: "a \<noteq> b \<Longrightarrow> lt a b \<or> lt b a"
begin

lemma find_member: "set_find lt p xs = (if p \<in> set xs then Some p else None)"
proof -
  have "\<not> lt p q \<and> \<not> lt q p \<longleftrightarrow> q = p" for q using irrefl total by blast
  then show ?thesis unfolding set_find_def by (induction xs) auto
qed

lemma distinct: "sorted_wrt lt xs \<Longrightarrow> distinct xs"
  using irrefl by (induction xs) auto

lemma insert_elements [simp]: "set (set_insert lt p xs) = insert p (set xs)"
  using total by (induction xs) auto

lemma insert_sorted: "sorted_wrt lt xs \<Longrightarrow> sorted_wrt lt (set_insert lt p xs)"
proof (induction xs)
  case (Cons q qs)
  then show ?case using trans total [of p q] by (cases "lt p q") auto
qed simp

lemma remove_sorted: "sorted_wrt lt xs \<Longrightarrow> sorted_wrt lt (remove1 p xs)"
  by (induction xs) (auto dest: in_set_takeD set_remove1_subset [THEN subsetD])

lemma remove_elements: "sorted_wrt lt xs \<Longrightarrow> set (remove1 p xs) = set xs - {p}"
  using distinct by (simp add: set_remove1_eq)

end

lemma before_iff:
  "Comparator nxt (Some a) (Some b) \<longleftrightarrow> nxt a < nxt b \<or> nxt a = nxt b \<and> a < b"
  by (auto simp: Comparator_def)

interpretation timer_set: ordered_set "\<lambda>a b. Comparator nxt (Some a) (Some b)" for nxt
  by unfold_locales (auto simp: before_iff)

lemma sorted_takeWhile:
  assumes "sorted_wrt R xs" and "\<And>x y. x \<in> set xs \<Longrightarrow> y \<in> set xs \<Longrightarrow> R x y \<Longrightarrow> P y \<Longrightarrow> P x"
  shows "takeWhile P xs = filter P xs" "dropWhile P xs = filter (\<lambda>x. \<not> P x) xs"
proof -
  have "takeWhile P xs = filter P xs \<and> dropWhile P xs = filter (\<lambda>x. \<not> P x) xs"
    using assms
  proof (induction xs)
    case (Cons x xs)
    show ?case
    proof (cases "P x")
      case False
      then have "\<forall>y \<in> set xs. \<not> P y" using Cons.prems by auto
      then show ?thesis using False by (simp add: filter_True filter_False)
    qed (use Cons in auto)
  qed simp
  then show "takeWhile P xs = filter P xs" "dropWhile P xs = filter (\<lambda>x. \<not> P x) xs" by auto
qed

definition timers_ok :: "'c timerManager \<Rightarrow> bool" where
  "timers_ok tm \<longleftrightarrow> sorted_wrt (before tm) (timers tm) \<and> set (timers tm) = {p. \<exists>t. tm_heap tm p = Some t \<and> cb t \<noteq> None}"

lemma timers_okD:
  assumes "timers_ok tm"
  shows "sorted_wrt (before tm) (timers tm)" "p \<in> set (timers tm) \<longleftrightarrow> (\<exists>t. tm_heap tm p = Some t \<and> cb t \<noteq> None)"
  using assms by (auto simp: timers_ok_def)

lemma next_of_upd [simp]: "next_of (tm\<lparr>tm_heap := (tm_heap tm)(p \<mapsto> t)\<rparr>) = (next_of tm)(p := nextTime t)"
  "next_of (tm\<lparr>timers := ts\<rparr>) = next_of tm" "next_of (tm\<lparr>tickled := b\<rparr>) = next_of tm" "next_of (tm\<lparr>previouseTime := w\<rparr>) = next_of tm"
  by (auto simp: next_of_def)

text \<open>A change at an address outside the set does not disturb the order.\<close>

lemma sorted_upd:
  assumes "sorted_wrt (\<lambda>a b. Comparator nxt (Some a) (Some b)) xs" and "p \<notin> set xs"
  shows "sorted_wrt (\<lambda>a b. Comparator (nxt(p := w)) (Some a) (Some b)) xs"
  by (rule sorted_wrt_mono_rel [OF _ assms(1)]) (use assms(2) in \<open>auto simp: before_iff\<close>)

text \<open>Entering a timer that is not in the set, with any time.\<close>

lemma enter_ok:
  assumes "timers_ok tm" and "cb t \<noteq> None"
    and "ts = remove1 p (timers tm)" and "tm1 = tm\<lparr>timers := ts, tm_heap := (tm_heap tm)(p \<mapsto> t)\<rparr>"
  shows "timers_ok (tm1\<lparr>timers := set_insert (before tm1) p ts\<rparr>)"
proof -
  note s = timers_okD(1) [OF assms(1)]
  have el: "set ts = set (timers tm) - {p}" using timer_set.remove_elements [OF s] assms(3) by simp
  have nx: "next_of tm1 = (next_of tm)(p := nextTime t)" by (auto simp: assms(4) next_of_def)
  have hp: "tm_heap tm1 = (tm_heap tm)(p \<mapsto> t)" by (simp add: assms(4))
  have "sorted_wrt (before tm1) ts"
    unfolding nx by (rule sorted_upd) (use timer_set.remove_sorted [OF s] el assms(3) in simp_all)
  from timer_set.insert_sorted [OF this, of p] show ?thesis
    using timers_okD(2) [OF assms(1)] assms(2) el hp by (auto simp: timers_ok_def split: if_splits)
qed

lemma timers_ok_tickled [simp]: "timers_ok (tm\<lparr>tickled := b\<rparr>) = timers_ok tm" "timers_ok (tm\<lparr>previouseTime := w\<rparr>) = timers_ok tm"
  by (simp_all add: timers_ok_def)

lemma not_pending: "timers_ok tm \<Longrightarrow> tm_heap tm p = None \<Longrightarrow> p \<notin> set (timers tm)"
  using timers_okD(2) by fastforce

lemma addTimer_ok:
  assumes "timers_ok tm" and "tm_heap tm p = None"
  shows "timers_ok (snd (addTimer now p m c recur tm))"
proof -
  let ?t = "Timer now m c recur" and ?ts = "timers tm"
  have e: "remove1 p ?ts = ?ts" using not_pending [OF assms] by (simp add: remove1_idem)
  have "timers_ok ((tm\<lparr>timers := ?ts, tm_heap := (tm_heap tm)(p \<mapsto> ?t)\<rparr>)
     \<lparr>timers := set_insert (before (tm\<lparr>timers := ?ts, tm_heap := (tm_heap tm)(p \<mapsto> ?t)\<rparr>)) p ?ts\<rparr>)"
    by (rule enter_ok [OF assms(1)]) (use e in \<open>simp_all add: Timer_def\<close>)
  then show ?thesis by (simp add: addTimer_def addTimer_locked_def Let_def timers_ok_def)
qed

lemma timer_cancel_ok:
  assumes "timers_ok tm" and "tm_heap tm p = Some t"
  shows "\<exists>tm'. timer_cancel p tm = Inr (cb t \<noteq> None, tm') \<and> timers_ok tm' \<and> p \<notin> set (timers tm') \<and> set (timers tm') = set (timers tm) - {p}"
proof (cases "cb t = None")
  case True
  then show ?thesis using assms timers_okD(2) [OF assms(1), of p] by (simp add: timer_cancel_def)
next
  case False
  note s = timers_okD(1) [OF assms(1)]
  let ?tm1 = "tm\<lparr>tm_heap := (tm_heap tm)(p \<mapsto> t\<lparr>cb := None\<rparr>)\<rparr>"
  have nx: "next_of ?tm1 = next_of tm" using assms(2) by (auto simp: next_of_def)
  have mem: "p \<in> set (timers tm)" using timers_okD(2) [OF assms(1)] assms(2) False by blast
  have el: "set (remove1 p (timers tm)) = set (timers tm) - {p}" by (rule timer_set.remove_elements [OF s])
  have "timers_ok (?tm1\<lparr>timers := remove1 p (timers tm)\<rparr>)"
    unfolding timers_ok_def using timer_set.remove_sorted [OF s] timers_okD(2) [OF assms(1)] el nx by (auto simp: next_of_def)
  then show ?thesis using False assms(2) mem el nx
    by (simp add: timer_cancel_def timer_set.find_member set_erase_def Let_def)
qed

lemma timer_refresh_ok:
  assumes "timers_ok tm" and "tm_heap tm p = Some t" and "timer_refresh now p tm = Inr (b, tm')"
  shows "timers_ok tm' \<and> b = (cb t \<noteq> None)"
proof (cases "cb t = None")
  case False
  then have mem: "p \<in> set (timers tm)" using timers_okD(2) [OF assms(1)] assms(2) by blast
  let ?tm1 = "tm\<lparr>timers := remove1 p (timers tm), tm_heap := (tm_heap tm)(p \<mapsto> t\<lparr>nextTime := now + ms t\<rparr>)\<rparr>"
  have "timers_ok (?tm1\<lparr>timers := set_insert (before ?tm1) p (remove1 p (timers tm))\<rparr>)"
    by (rule enter_ok [OF assms(1)]) (use False in simp_all)
  then show ?thesis using assms(2,3) False mem by (simp add: timer_refresh_def timer_set.find_member Let_def)
qed (use assms in \<open>simp add: timer_refresh_def\<close>)

lemma timer_reset_ok:
  assumes "timers_ok tm" and "tm_heap tm p = Some t" and "timer_reset now m fn p tm = Inr (b, front, tm')"
  shows "timers_ok tm' \<and> b"
proof (cases "m = ms t \<and> \<not> fn \<or> cb t = None")
  case False
  then have mem: "p \<in> set (timers tm)" using timers_okD(2) [OF assms(1)] assms(2) by blast
  let ?t = "t\<lparr>ms := m, nextTime := (if fn then now else nextTime t - ms t) + m\<rparr>"
  let ?tm1 = "tm\<lparr>timers := remove1 p (timers tm), tm_heap := (tm_heap tm)(p \<mapsto> ?t)\<rparr>"
  have "timers_ok (?tm1\<lparr>timers := set_insert (before ?tm1) p (remove1 p (timers tm))\<rparr>)"
    by (rule enter_ok [OF assms(1)]) (use False in simp_all)
  moreover have "tm' = snd (addTimer_locked p ?tm1)" "b"
    using assms(2,3) False mem by (auto simp: timer_reset_def timer_set.find_member Let_def split: prod.splits if_splits)
  ultimately show ?thesis by (simp add: addTimer_locked_def Let_def timers_ok_def)
qed (use assms in \<open>auto simp: timer_reset_def split: if_splits\<close>)

section \<open>Expiry\<close>

lemma splitExpired_eq:
  assumes "timers_ok tm" and "tm_heap tm q = None"
  shows "splitExpired now q roll tm =
    (filter (\<lambda>p. roll \<or> next_of tm p \<le> now) (timers tm), filter (\<lambda>p. \<not> (roll \<or> next_of tm p \<le> now)) (timers tm))"
proof (cases roll)
  case False
  note s = timers_okD(1) [OF assms(1)] and q = not_pending [OF assms]
  let ?lt = "\<lambda>p. next_of tm p < now \<or> next_of tm p = now \<and> p < q"
  let ?rest = "dropWhile ?lt (timers tm)"
  have lt: "takeWhile (\<lambda>p. Comparator ((next_of tm)(q := now)) (Some p) (Some q)) (timers tm) = takeWhile ?lt (timers tm)"
    "dropWhile (\<lambda>p. Comparator ((next_of tm)(q := now)) (Some p) (Some q)) (timers tm) = ?rest"
    using q by (auto simp: before_iff intro!: takeWhile_cong dropWhile_cong)
  have d: "?lt x" if "before tm x y" "?lt y" for x y using that by (auto simp: before_iff)
  have le_d: "next_of tm x \<le> now" if "before tm x y" "next_of tm y \<le> now" for x y using that by (auto simp: before_iff)
  have rest: "?rest = filter (\<lambda>p. \<not> ?lt p) (timers tm)" "takeWhile ?lt (timers tm) = filter ?lt (timers tm)"
    using sorted_takeWhile [OF s, of ?lt] d by blast+
  have eq: "takeWhile (\<lambda>p. next_of tm p = now) ?rest = takeWhile (\<lambda>p. next_of tm p \<le> now) ?rest"
    by (rule takeWhile_cong) (auto simp: rest(1))
  have sr: "sorted_wrt (before tm) ?rest" unfolding rest(1) using s by (rule sorted_wrt_filter)
  have le: "takeWhile (\<lambda>p. next_of tm p \<le> now) ?rest = filter (\<lambda>p. next_of tm p \<le> now) ?rest"
    "dropWhile (\<lambda>p. next_of tm p \<le> now) ?rest = filter (\<lambda>p. \<not> next_of tm p \<le> now) ?rest"
    using sorted_takeWhile [OF sr, of "\<lambda>p. next_of tm p \<le> now"] le_d by blast+
  have all: "takeWhile (\<lambda>p. next_of tm p \<le> now) (timers tm) = filter (\<lambda>p. next_of tm p \<le> now) (timers tm)"
    using sorted_takeWhile [OF s, of "\<lambda>p. next_of tm p \<le> now"] le_d by blast
  have app: "takeWhile P xs @ takeWhile Q (dropWhile P xs) = takeWhile Q xs" if "\<And>x. P x \<Longrightarrow> Q x" for P Q and xs :: "nat list"
    using that by (induction xs) auto
  have 1: "takeWhile ?lt (timers tm) @ takeWhile (\<lambda>p. next_of tm p \<le> now) ?rest = filter (\<lambda>p. next_of tm p \<le> now) (timers tm)"
    unfolding all [symmetric] by (rule app) auto
  have "drop (length (takeWhile (\<lambda>p. next_of tm p \<le> now) ?rest)) ?rest = dropWhile (\<lambda>p. next_of tm p \<le> now) ?rest"
    by (simp add: dropWhile_eq_drop)
  also have "\<dots> = filter (\<lambda>p. \<not> next_of tm p \<le> now) ?rest" by (rule le(2))
  also have "\<dots> = filter (\<lambda>p. \<not> next_of tm p \<le> now) (timers tm)"
    unfolding rest(1) by (auto simp: filter_filter intro!: filter_cong)
  finally have 2: "drop (length (takeWhile (\<lambda>p. next_of tm p \<le> now) ?rest)) ?rest = filter (\<lambda>p. \<not> next_of tm p \<le> now) (timers tm)" .
  show ?thesis using False 1 2 by (simp add: splitExpired_def Let_def lt eq)
qed (simp add: splitExpired_def)

text \<open>What becomes of a timer that expires.\<close>

definition expire :: "64 word \<Rightarrow> 'c timer \<Rightarrow> 'c timer" where
  "expire now t = (if recurring t then t\<lparr>nextTime := now + ms t\<rparr> else t\<lparr>cb := None\<rparr>)"

lemma collectExpired_eq:
  assumes "distinct ps" and "\<forall>p \<in> set ps. tm_heap tm p \<noteq> None" and "set ps \<inter> set (timers tm) = {}" and "sorted_wrt (before tm) (timers tm)"
    and "collectExpired now ps tm = (cbs, tm')"
  shows "cbs = map (\<lambda>p. cb (the (tm_heap tm p))) ps \<and>
    tm_heap tm' = (\<lambda>p. if p \<in> set ps then Some (expire now (the (tm_heap tm p))) else tm_heap tm p) \<and>
    sorted_wrt (before tm') (timers tm') \<and> set (timers tm') = set (timers tm) \<union> {p \<in> set ps. recurring (the (tm_heap tm p))}"
  using assms
proof (induction ps arbitrary: tm cbs tm')
  case (Cons p ps)
  let ?t = "the (tm_heap tm p)"
  let ?h = "(tm_heap tm)(p \<mapsto> expire now ?t)"
  have t: "tm_heap tm p = Some ?t" using Cons.prems(2) by auto
  define tm1 where "tm1 = (if recurring ?t then tm\<lparr>tm_heap := ?h, timers := set_insert (before (tm\<lparr>tm_heap := ?h\<rparr>)) p (timers tm)\<rparr> else tm\<lparr>tm_heap := ?h\<rparr>)"
  have step: "collectExpired now (p # ps) tm = (let (cbs, tm2) = collectExpired now ps tm1 in (cb ?t # cbs, tm2))"
    by (simp add: tm1_def expire_def Let_def)
  then obtain cbs' where rec: "collectExpired now ps tm1 = (cbs', tm')" "cbs = cb ?t # cbs'"
    using Cons.prems(5) by (auto simp: split: prod.splits)
  have hp: "tm_heap tm1 = ?h" by (simp add: tm1_def)
  have nx: "next_of tm1 = (next_of tm)(p := nextTime (expire now ?t))" by (auto simp: next_of_def hp)
  have sorted0: "sorted_wrt (before tm1) (timers tm)" unfolding nx by (rule sorted_upd) (use Cons.prems(3,4) in auto)
  have ts: "timers tm1 = (if recurring ?t then set_insert (before tm1) p (timers tm) else timers tm)"
    by (simp add: tm1_def next_of_def)
  have s1: "sorted_wrt (before tm1) (timers tm1)" using sorted0 timer_set.insert_sorted [OF sorted0] by (simp add: ts)
  have e1: "set (timers tm1) = set (timers tm) \<union> (if recurring ?t then {p} else {})" by (simp add: ts)
  have "cbs' = map (\<lambda>p. cb (the (tm_heap tm1 p))) ps \<and>
    tm_heap tm' = (\<lambda>p. if p \<in> set ps then Some (expire now (the (tm_heap tm1 p))) else tm_heap tm1 p) \<and>
    sorted_wrt (before tm') (timers tm') \<and> set (timers tm') = set (timers tm1) \<union> {p \<in> set ps. recurring (the (tm_heap tm1 p))}"
    using Cons.prems(1,2,3) e1 hp by (intro Cons.IH [OF _ _ _ s1 rec(1)]) auto
  moreover have "tm_heap tm1 x = tm_heap tm x" if "x \<in> set ps" for x using that Cons.prems(1) by (auto simp: hp)
  ultimately show ?case using rec(2) Cons.prems(1) e1 hp by (auto simp: fun_eq_iff)
qed simp

definition due :: "64 word \<Rightarrow> 'c timerManager \<Rightarrow> nat \<Rightarrow> bool" where
  "due now tm p \<longleftrightarrow> p \<in> set (timers tm) \<and> (fst (detectClockRolllover now tm) \<or> next_of tm p \<le> now)"

lemma due_filter: "filter (due now tm) (timers tm) = filter (\<lambda>p. fst (detectClockRolllover now tm) \<or> next_of tm p \<le> now) (timers tm)"
  by (rule filter_cong) (auto simp: due_def)

lemma listExpiredCb_none:
  assumes "timers_ok tm" and "timers tm = p # ps" and "\<not> fst (detectClockRolllover now tm)" and "next_of tm p > now"
  shows "\<not> due now tm x"
proof
  assume "due now tm x"
  then have "x = p \<or> before tm p x" "next_of tm x \<le> now" using assms timers_okD(1) [OF assms(1)] by (auto simp: due_def)
  then show False using assms(4) by (auto simp: before_iff)
qed

lemma listExpiredCb_eq:
  assumes "timers_ok tm" and "tm_heap tm q = None" and "listExpiredCb now q tm = (cbs, tm')"
  shows "cbs = map (\<lambda>p. cb (the (tm_heap tm p))) (filter (due now tm) (timers tm)) \<and> None \<notin> set cbs \<and>
    tm_heap tm' = (\<lambda>p. if due now tm p then Some (expire now (the (tm_heap tm p))) else tm_heap tm p) \<and> timers_ok tm'"
proof -
  have some: "None \<notin> (\<lambda>p. cb (the (tm_heap tm p))) ` {p. due now tm p}"
    using timers_okD(2) [OF assms(1)] by (force simp: due_def)
  show ?thesis
  proof (cases "timers tm")
    case Nil
    then have "\<not> due now tm p" for p by (simp add: due_def)
    then show ?thesis using assms(1,3) Nil by (simp add: listExpiredCb_def)
  next
    case (Cons p ps)
    let ?roll = "fst (detectClockRolllover now tm)" and ?tm1 = "snd (detectClockRolllover now tm)"
    have tm1: "tm_heap ?tm1 = tm_heap tm" "timers ?tm1 = timers tm" "next_of ?tm1 = next_of tm" "timers_ok ?tm1"
      using assms(1) by (simp_all add: detectClockRolllover_def)
    show ?thesis
    proof (cases "\<not> ?roll \<and> next_of tm p > now")
      case True
      then have "\<not> due now tm x" for x using listExpiredCb_none [OF assms(1) Cons] by blast
      then show ?thesis using assms(3) Cons True tm1 by (simp add: listExpiredCb_def split_def Let_def)
    next
      case False
      let ?ex = "filter (due now tm) (timers tm)" and ?rest = "filter (\<lambda>p. \<not> due now tm p) (timers tm)"
      have "filter (\<lambda>p. \<not> (?roll \<or> next_of tm p \<le> now)) (timers tm) = ?rest" by (rule filter_cong) (auto simp: due_def)
      then have "splitExpired now q ?roll ?tm1 = (?ex, ?rest)"
        using splitExpired_eq [OF tm1(4), of q now ?roll] assms(2) by (simp add: tm1 due_filter)
      define tm2 where "tm2 = ?tm1\<lparr>timers := ?rest\<rparr>"
      have tm2: "tm_heap tm2 = tm_heap tm" "timers tm2 = ?rest" "next_of tm2 = next_of tm" using tm1 by (simp_all add: tm2_def)
      have col: "collectExpired now ?ex tm2 = (cbs, tm')"
        using assms(3) Cons False tm1(3) \<open>splitExpired now q ?roll ?tm1 = (?ex, ?rest)\<close> by (auto simp: listExpiredCb_def split_def Let_def tm2_def)
      note s = timers_okD(1) [OF assms(1)]
      have mem: "due now tm p \<Longrightarrow> \<exists>t. tm_heap tm p = Some t \<and> cb t \<noteq> None" for p
        using timers_okD(2) [OF assms(1)] by (auto simp: due_def)
      have res: "cbs = map (\<lambda>p. cb (the (tm_heap tm p))) ?ex \<and>
         tm_heap tm' = (\<lambda>p. if p \<in> set ?ex then Some (expire now (the (tm_heap tm p))) else tm_heap tm p) \<and>
         sorted_wrt (before tm') (timers tm') \<and> set (timers tm') = set ?rest \<union> {p \<in> set ?ex. recurring (the (tm_heap tm p))}"
        using collectExpired_eq [OF _ _ _ _ col, unfolded tm2] timer_set.distinct [OF s] mem sorted_wrt_filter [OF s] by auto
      have ex: "set ?ex = {p. due now tm p}" by (auto simp: due_def)
      have heap: "tm_heap tm' = (\<lambda>p. if due now tm p then Some (expire now (the (tm_heap tm p))) else tm_heap tm p)"
        using res unfolding ex by simp
      have "set (timers tm') = {p. \<exists>t. tm_heap tm' p = Some t \<and> cb t \<noteq> None}"
        using res mem timers_okD(2) [OF assms(1)] unfolding ex heap by (fastforce simp: expire_def split: if_splits)
      moreover have "None \<notin> set cbs" using some res by (auto simp: image_def)
      ultimately show ?thesis using res heap by (simp add: timers_ok_def)
    qed
  qed
qed

section \<open>The life of a timer manager\<close>

text \<open>Every sequence of calls, with any clock readings; a new timer is at an address that no timer has.\<close>

inductive timer_run :: "'c timerManager \<Rightarrow> bool" where
  created: "timer_run (TimerManager now)"
| added: "timer_run (snd (addTimer now p m c recur tm))" if "timer_run tm" "tm_heap tm p = None"
| cancelled: "timer_run tm'" if "timer_run tm" "tm_heap tm p \<noteq> None" "timer_cancel p tm = Inr (b, tm')"
| refreshed: "timer_run tm'" if "timer_run tm" "tm_heap tm p \<noteq> None" "timer_refresh now p tm = Inr (b, tm')"
| reset: "timer_run tm'" if "timer_run tm" "tm_heap tm p \<noteq> None" "timer_reset now m fn p tm = Inr (b, front, tm')"
| asked: "timer_run (snd (getNextTimer now tm))" if "timer_run tm"
| expired: "timer_run (snd (listExpiredCb now q tm))" if "timer_run tm" "tm_heap tm q = None"

lemma getNextTimer_state [simp]: "snd (getNextTimer now tm) = tm\<lparr>tickled := False\<rparr>"
  by (simp add: getNextTimer_def Let_def split: list.split)

lemma timer_run_ok: "timer_run tm \<Longrightarrow> timers_ok tm"
proof (induction rule: timer_run.induct)
  case (added tm p now m c recur)
  then show ?case by (intro addTimer_ok)
next
  case (cancelled tm p b tm')
  then show ?case using timer_cancel_ok by fastforce
next
  case (refreshed tm p now b tm')
  then show ?case using timer_refresh_ok by blast
next
  case (reset tm p now m fn b front tm')
  then show ?case using timer_reset_ok by blast
next
  case (expired tm q now)
  then show ?case using listExpiredCb_eq [of tm q now] by (metis prod.collapse)
qed (simp_all add: TimerManager_def timers_ok_def)

text \<open>Timers. However timers are added, cancelled, refreshed, reset and listed, the set is ordered by due time and holds exactly the
  timers that have a function; so \<open>cancel\<close> never erases \<open>end()\<close>, it reports whether the timer was pending, and afterwards that
  timer and no other is gone.\<close>

theorem timers_well_kept:
  assumes "timer_run tm" and "tm_heap tm p = Some t"
  shows "sorted_wrt (before tm) (timers tm) \<and> (p \<in> set (timers tm) \<longleftrightarrow> cb t \<noteq> None) \<and>
    (\<exists>tm'. timer_cancel p tm = Inr (cb t \<noteq> None, tm') \<and> set (timers tm') = set (timers tm) - {p})"
proof -
  note ok = timer_run_ok [OF assms(1)]
  from timer_cancel_ok [OF ok assms(2)] timers_okD(1) [OF ok] timers_okD(2) [OF ok, of p] assms(2) show ?thesis by auto
qed

text \<open>C28: Expiry. \<open>listExpiredCb\<close> returns the functions of exactly the pending timers whose time has come, or of all of them when the
  clock was set back by more than an hour, ordered by due time; a recurring timer is pending again with its period counted
  from now, another one has lost its function, and every other timer is as it was.\<close>

theorem timers_expire:
  assumes "timer_run tm" and "tm_heap tm q = None" and "listExpiredCb now q tm = (cbs, tm')"
  shows "cbs = map (\<lambda>p. cb (the (tm_heap tm p))) (filter (due now tm) (timers tm)) \<and> None \<notin> set cbs \<and>
    tm_heap tm' = (\<lambda>p. if due now tm p then Some (expire now (the (tm_heap tm p))) else tm_heap tm p) \<and>
    set (timers tm') = {p. \<exists>t. tm_heap tm' p = Some t \<and> cb t \<noteq> None}"
  using listExpiredCb_eq [OF timer_run_ok [OF assms(1)] assms(2,3)] unfolding timers_ok_def by blast

text \<open>Waiting. After waiting for as long as \<open>getNextTimer\<close> says, some timer has expired; and it says \<open>~0ull\<close>, forever, exactly when none
  is pending, unless the next one is due in \<open>2\<^sup>6\<^sup>4 - 1\<close> milliseconds.\<close>

theorem timer_wait_enough:
  assumes "timer_run tm" and "tm_heap tm q = None" and "getNextTimer now tm = (d, tm1)"
  shows "(if timers tm = [] then d = - 1 \<and> listExpiredCb (now + d) q tm1 = ([], tm1) else fst (listExpiredCb (now + d) q tm1) \<noteq> [])"
proof (cases "timers tm")
  case (Cons p ps)
  have tm1: "tm1 = tm\<lparr>tickled := False\<rparr>" and d: "d = (if now \<ge> next_of tm p then 0 else next_of tm p - now)"
    using assms(3) Cons by (auto simp: getNextTimer_def Let_def)
  have "next_of tm p \<le> now + d" unfolding d by simp
  then have "due (now + d) tm1 p" using Cons by (simp add: due_def tm1)
  moreover obtain cbs tm' where l: "listExpiredCb (now + d) q tm1 = (cbs, tm')" by fastforce
  have ok: "timers_ok tm1" "tm_heap tm1 q = None" using timer_run_ok [OF assms(1)] assms(2) tm1 by simp_all
  ultimately show ?thesis using listExpiredCb_eq [OF ok l] Cons l by (auto simp: filter_empty_conv due_def)
qed (use assms in \<open>auto simp: getNextTimer_def listExpiredCb_def\<close>)

definition two_timers :: "string timerManager" where
  "two_timers = snd (addTimer 100 2 5 (Plain ''b'') True (snd (addTimer 100 1 20 (Conditional 9 ''a'') False (TimerManager 100))))"

lemma two_timers_run: "timer_run two_timers"
proof -
  have "tm_heap (snd (addTimer 100 1 20 (Conditional 9 ''a'') False (TimerManager 100 :: string timerManager))) 2 = None" by code_simp
  then show ?thesis unfolding two_timers_def by (intro timer_run.intros) (simp_all add: TimerManager_def)
qed

theorem timers_well_kept_witness:
  "timers two_timers = [2, 1] \<and> (\<exists>tm'. timer_cancel 1 two_timers = Inr (True, tm') \<and> set (timers tm') = {2})"
proof -
  have "map_option cb (tm_heap two_timers 1) = Some (Some (Conditional 9 ''a''))" by code_simp
  then obtain t where t: "tm_heap two_timers 1 = Some t" "cb t \<noteq> None" by auto
  have ts: "timers two_timers = [2, 1]" by code_simp
  with timers_well_kept [OF two_timers_run t(1)] t(2) show ?thesis by auto
qed

theorem timers_expire_witness:
  "fst (listExpiredCb 110 7 two_timers) = [Some (Plain ''b'')]"
proof -
  have q: "tm_heap two_timers 7 = None" by code_simp
  have f: "map (\<lambda>p. cb (the (tm_heap two_timers p))) (filter (due 110 two_timers) (timers two_timers)) = [Some (Plain ''b'')]" by code_simp
  obtain cbs tm' where l: "listExpiredCb 110 7 two_timers = (cbs, tm')" by fastforce
  with timers_expire [OF two_timers_run q l] f show ?thesis by simp
qed

theorem timer_wait_enough_witness: "fst (listExpiredCb (102 + 3) 7 (two_timers\<lparr>tickled := False\<rparr>)) \<noteq> []"
proof -
  have q: "tm_heap two_timers 7 = None" "timers two_timers \<noteq> []" "fst (getNextTimer 102 two_timers) = 3" by code_simp+
  then have "getNextTimer 102 two_timers = (3, two_timers\<lparr>tickled := False\<rparr>)" by (simp add: prod_eq_iff)
  from timer_wait_enough [OF two_timers_run q(1) this] q(2) show ?thesis by simp
qed

end
