(* ===== verification/IoManager.thy ===== *)
theory IoManager
  imports Fibers Timer
begin

unbundle bit_operations_syntax

text \<open>
  The I/O manager of the fiber library (\<open>fiber/iomanager.cpp\<close>) over the scheduler and the timers: events of descriptors that fibers wait
  for, and the idle fiber that waits for them in \<open>epoll_wait\<close>. \<open>epoll\<close> is the interest list of the kernel; whether
  \<open>epoll_ctl\<close> succeeds, the clock and what \<open>epoll_wait\<close> reports are arguments. The context of a descriptor is the element of
  \<open>fdContexts\<close> at its number, and the thread that adds an event belongs to the scheduler. The pipe that wakes an idle thread is the number of bytes in it. Each function is one step.
\<close>

section \<open>State\<close>

definition READ :: "32 word" where "READ = 0x1"
definition WRITE :: "32 word" where "WRITE = 0x4"

definition EPOLLIN :: "32 word" where "EPOLLIN = 0x001"
definition EPOLLOUT :: "32 word" where "EPOLLOUT = 0x004"
definition EPOLLERR :: "32 word" where "EPOLLERR = 0x008"
definition EPOLLHUP :: "32 word" where "EPOLLHUP = 0x010"
definition EPOLLET :: "32 word" where "EPOLLET = 0x80000000"

lemmas event_defs = READ_def WRITE_def EPOLLIN_def EPOLLOUT_def EPOLLERR_def EPOLLHUP_def EPOLLET_def

record 'c eventContext =
  ec_scheduler :: bool
  ec_fiber :: "nat option"
  ec_cb :: "'c option"

record 'c fdContext =
  fc_read :: "'c eventContext"
  fc_write :: "'c eventContext"
  fc_events :: "32 word"

record 'c ioManager =
  io_sched :: "'c schedulerObj"
  io_timers :: "'c timerManager"
  pendingEventCnt :: int
  fdContexts :: "'c fdContext list"
  epoll :: "nat \<rightharpoonup> 32 word"
  io_pipe :: nat

definition EventContext :: "'c eventContext" where
  "EventContext = \<lparr>ec_scheduler = False, ec_fiber = None, ec_cb = None\<rparr>"

definition FdContext :: "'c fdContext" where
  "FdContext = \<lparr>fc_read = EventContext, fc_write = EventContext, fc_events = 0\<rparr>"

section \<open>Contexts\<close>

definition getEveContext :: "32 word \<Rightarrow> 'c fdContext \<Rightarrow> 'c eventContext result" where
  "getEveContext event ctx =
     (if event = READ then Inr (fc_read ctx) else if event = WRITE then Inr (fc_write ctx) else Inl (AssertFailed ''getContext error: unknow event''))"

definition setEveContext :: "32 word \<Rightarrow> 'c eventContext \<Rightarrow> 'c fdContext \<Rightarrow> 'c fdContext" where
  "setEveContext event ec ctx = (if event = READ then ctx\<lparr>fc_read := ec\<rparr> else ctx\<lparr>fc_write := ec\<rparr>)"

definition resetEveContext :: "32 word \<Rightarrow> 'c fdContext \<Rightarrow> 'c fdContext" where
  "resetEveContext event ctx = setEveContext event EventContext ctx"

definition contextResize :: "nat \<Rightarrow> 'c ioManager \<Rightarrow> 'c ioManager" where
  "contextResize n io = io\<lparr>fdContexts := take n (fdContexts io) @ replicate (n - length (fdContexts io)) FdContext\<rparr>"

section \<open>Waking threads\<close>

definition tickle :: "'c ioManager \<Rightarrow> 'c ioManager" where
  "tickle io = (if idleThreadCnt (io_sched io) = 0 then io else io\<lparr>io_pipe := io_pipe io + 1\<rparr>)"

text \<open>\<open>scheduler(task)\<close>, whose call of \<open>tickle\<close> is the one above.\<close>

definition io_schedule :: "'c work option \<Rightarrow> 'c ioManager \<Rightarrow> 'c ioManager" where
  "io_schedule t io = (let (need, sc) = scheduler t (-1) (io_sched io); io1 = io\<lparr>io_sched := sc\<rparr> in if need then tickle io1 else io1)"

definition OnTimerInsertedAtFront :: "'c ioManager \<Rightarrow> 'c ioManager" where
  "OnTimerInsertedAtFront io = tickle io"

text \<open>The public \<open>addTimer\<close> of the I/O manager.\<close>

definition io_addTimer :: "64 word \<Rightarrow> nat \<Rightarrow> 64 word \<Rightarrow> 'c timerCb \<Rightarrow> bool \<Rightarrow> 'c ioManager \<Rightarrow> 'c ioManager" where
  "io_addTimer now p m c recur io =
     (let (front, tm) = addTimer now p m c recur (io_timers io); io1 = io\<lparr>io_timers := tm\<rparr> in if front then OnTimerInsertedAtFront io1 else io1)"

section \<open>Events\<close>

definition eventWork :: "'c eventContext \<Rightarrow> 'c work option" where
  "eventWork ec = (case ec_cb ec of Some c \<Rightarrow> Some (CbWork c) | None \<Rightarrow> map_option FiberWork (ec_fiber ec))"

definition triggerEvent :: "32 word \<Rightarrow> nat \<Rightarrow> 'c ioManager \<Rightarrow> 'c ioManager result" where
  "triggerEvent event fd io =
     (let ctx = fdContexts io ! fd in
      rbind (CondPanic (fc_events ctx AND event \<noteq> 0) ''event has not been registed'') (\<lambda>_.
      let ctx1 = ctx\<lparr>fc_events := fc_events ctx AND NOT event\<rparr> in
      rbind (getEveContext event ctx1) (\<lambda>ec.
      if \<not> ec_scheduler ec then Inl (OutOfBounds ''null scheduler'')
      else Inr (io_schedule (eventWork ec) (io\<lparr>fdContexts := (fdContexts io)[fd := resetEveContext event ctx1]\<rparr>)))))"

text \<open>The mask that \<open>epoll_ctl\<close> installs: with no event left the descriptor is deleted from the list.\<close>

definition epoll_set :: "nat \<Rightarrow> 32 word \<Rightarrow> 'c ioManager \<Rightarrow> 'c ioManager" where
  "epoll_set fd new_events io = io\<lparr>epoll := (epoll io)(fd := if new_events = 0 then None else Some (EPOLLET OR new_events))\<rparr>"

text \<open>The context of a descriptor, with the list grown to one and a half times its number where it is too short.\<close>

definition fd_context :: "int \<Rightarrow> 'c ioManager \<Rightarrow> ('c fdContext \<times> 'c ioManager) result" where
  "fd_context fd io =
     (let io1 = (if int (length (fdContexts io)) > fd then io else contextResize (nat (fd * 3 div 2)) io) in
      rbind (vget (fdContexts io1) fd) (\<lambda>ctx. Inr (ctx, io1)))"

text \<open>\<open>cur\<close> is the current fiber with its state; \<open>ctl\<close> whether \<open>epoll_ctl\<close> succeeds.\<close>

definition addEvent :: "bool \<Rightarrow> nat \<times> fiberState \<Rightarrow> int \<Rightarrow> 32 word \<Rightarrow> 'c option \<Rightarrow> 'c ioManager \<Rightarrow> (int \<times> 'c ioManager) result" where
  "addEvent ctl cur fd event c io0 =
     rbind (fd_context fd io0) (\<lambda>(ctx, io).
     rbind (CondPanic (fc_events ctx AND event = 0) ''addevent error'') (\<lambda>_.
     if \<not> ctl then Inr (-1, io)
     else
       let io1 = epoll_set (nat fd) (fc_events ctx OR event) (io\<lparr>pendingEventCnt := pendingEventCnt io + 1\<rparr>);
           ctx1 = ctx\<lparr>fc_events := fc_events ctx OR event\<rparr> in
       rbind (getEveContext event ctx1) (\<lambda>ec.
       rbind (CondPanic (\<not> ec_scheduler ec \<and> ec_fiber ec = None \<and> ec_cb ec = None) ''event_ctx is nullptr'') (\<lambda>_.
       rbind (case c of
           Some f \<Rightarrow> Inr (ec\<lparr>ec_scheduler := True, ec_cb := Some f\<rparr>)
         | None \<Rightarrow> rbind (CondPanic (snd cur = RUNNING) ''state'') (\<lambda>_. Inr (ec\<lparr>ec_scheduler := True, ec_fiber := Some (fst cur)\<rparr>))) (\<lambda>ec1.
       Inr (0, io1\<lparr>fdContexts := (fdContexts io1)[nat fd := setEveContext event ec1 ctx1]\<rparr>))))))"

definition delEvent :: "bool \<Rightarrow> int \<Rightarrow> 32 word \<Rightarrow> 'c ioManager \<Rightarrow> (bool \<times> 'c ioManager) result" where
  "delEvent ctl fd event io =
     (if int (length (fdContexts io)) \<le> fd then Inr (False, io)
      else
        rbind (vget (fdContexts io) fd) (\<lambda>ctx.
        if fc_events ctx AND event = 0 then Inr (False, io)
        else if \<not> ctl then Inr (False, io)
        else
          let new_events = fc_events ctx AND NOT event;
              io1 = epoll_set (nat fd) new_events (io\<lparr>pendingEventCnt := pendingEventCnt io - 1\<rparr>);
              ctx1 = ctx\<lparr>fc_events := new_events\<rparr> in
          rbind (getEveContext event ctx1) (\<lambda>_.
          Inr (True, io1\<lparr>fdContexts := (fdContexts io1)[nat fd := resetEveContext event ctx1]\<rparr>))))"

definition cancelEvent :: "bool \<Rightarrow> int \<Rightarrow> 32 word \<Rightarrow> 'c ioManager \<Rightarrow> (bool \<times> 'c ioManager) result" where
  "cancelEvent ctl fd event io =
     (if int (length (fdContexts io)) \<le> fd then Inr (False, io)
      else
        rbind (vget (fdContexts io) fd) (\<lambda>ctx.
        if fc_events ctx AND event = 0 then Inr (False, io)
        else if \<not> ctl then Inr (False, io)
        else
          rbind (triggerEvent event (nat fd) (epoll_set (nat fd) (fc_events ctx AND NOT event) io)) (\<lambda>io1.
          Inr (True, io1\<lparr>pendingEventCnt := pendingEventCnt io1 - 1\<rparr>))))"

text \<open>\<open>if (events & event) { triggerEvent(event); --pendingEventCnt_; }\<close>\<close>

definition triggerIf :: "bool \<Rightarrow> 32 word \<Rightarrow> nat \<Rightarrow> 'c ioManager \<Rightarrow> 'c ioManager result" where
  "triggerIf fire event fd io =
     (if fire then rbind (triggerEvent event fd io) (\<lambda>io1. Inr (io1\<lparr>pendingEventCnt := pendingEventCnt io1 - 1\<rparr>)) else Inr io)"

definition cancelAll :: "bool \<Rightarrow> int \<Rightarrow> 'c ioManager \<Rightarrow> (bool \<times> 'c ioManager) result" where
  "cancelAll ctl fd io =
     (if int (length (fdContexts io)) \<le> fd then Inr (False, io)
      else
        rbind (vget (fdContexts io) fd) (\<lambda>ctx.
        if fc_events ctx = 0 then Inr (False, io)
        else if \<not> ctl then Inr (False, io)
        else
          rbind (triggerIf (fc_events ctx AND READ \<noteq> 0) READ (nat fd) (epoll_set (nat fd) 0 io)) (\<lambda>io1.
          rbind (triggerIf (fc_events (fdContexts io1 ! nat fd) AND WRITE \<noteq> 0) WRITE (nat fd) io1) (\<lambda>io2.
          rbind (CondPanic (fc_events (fdContexts io2 ! nat fd) = 0) ''fd not totally clear'') (\<lambda>_. Inr (True, io2))))))"

section \<open>The idle fiber\<close>

definition io_stopping :: "64 word \<Rightarrow> 'c ioManager \<Rightarrow> bool \<times> 64 word \<times> 'c ioManager" where
  "io_stopping now io =
     (let (timeout, tm) = getNextTimer now (io_timers io) in
      (timeout = - 1 \<and> pendingEventCnt io = 0 \<and> stopping (io_sched io), timeout, io\<lparr>io_timers := tm\<rparr>))"

text \<open>The argument of \<open>epoll_wait\<close>: \<open>std::min((int)next_timeout, MAX_TIMEOUT)\<close>, through \<open>uint64_t\<close> and back to \<open>int\<close>.\<close>

definition waitTimeout :: "64 word \<Rightarrow> int" where
  "waitTimeout next_timeout =
     (let t = (if next_timeout \<noteq> - 1 then word_of_int (min (sint (ucast next_timeout :: 32 word)) 5000) else 5000 :: 64 word) in
      sint (ucast t :: 32 word))"

text \<open>The events that happened, from the mask \<open>epoll_wait\<close> reported: an error or a hang-up counts as every registered event.\<close>

definition realEvents :: "32 word \<Rightarrow> 'c fdContext \<Rightarrow> 32 word" where
  "realEvents reported ctx =
     (let evs = (if reported AND (EPOLLERR OR EPOLLHUP) \<noteq> 0 then reported OR ((EPOLLIN OR EPOLLOUT) AND fc_events ctx) else reported) in
      (if evs AND EPOLLIN \<noteq> 0 then READ else 0) OR (if evs AND EPOLLOUT \<noteq> 0 then WRITE else 0))"

definition idleEvent :: "bool \<Rightarrow> nat \<times> 32 word \<Rightarrow> 'c ioManager \<Rightarrow> 'c ioManager result" where
  "idleEvent ctl ev io =
     (let (fd, reported) = ev; ctx = fdContexts io ! fd; real_events = realEvents reported ctx in
      if fc_events ctx AND real_events = 0 then Inr io
      else
        let left_events = fc_events ctx AND NOT real_events in
        if \<not> ctl then Inr io
        else
          rbind (triggerIf (real_events AND READ \<noteq> 0) READ fd (epoll_set fd left_events io)) (\<lambda>io1.
          triggerIf (real_events AND WRITE \<noteq> 0) WRITE fd io1))"

text \<open>The entries that \<open>epoll_wait\<close> filled in: \<open>None\<close> is the pipe, which is read until it is empty.\<close>

fun idleEvents :: "(bool \<times> nat \<times> 32 word) option list \<Rightarrow> 'c ioManager \<Rightarrow> 'c ioManager result" where
  "idleEvents [] io = Inr io"
| "idleEvents (None # evs) io = idleEvents evs (io\<lparr>io_pipe := 0\<rparr>)"
| "idleEvents (Some (ctl, ev) # evs) io = rbind (idleEvent ctl ev io) (\<lambda>io1. idleEvents evs io1)"

text \<open>A round of the loop after \<open>epoll_wait\<close> has returned: the expired timers, then the events. A timer's function goes to the queue
  as it is; \<open>run_cb\<close> makes it the function of a task.\<close>

definition idleRound :: "('c timerCb \<Rightarrow> 'c) \<Rightarrow> 64 word \<Rightarrow> nat \<Rightarrow> (bool \<times> nat \<times> 32 word) option list \<Rightarrow> 'c ioManager \<Rightarrow> 'c ioManager result" where
  "idleRound run_cb now q evs io =
     (let (cbs, tm) = listExpiredCb now q (io_timers io) in
      idleEvents evs (fold (\<lambda>c. io_schedule (map_option (CbWork \<circ> run_cb) c)) cbs (io\<lparr>io_timers := tm\<rparr>)))"

definition IOManager :: "'c schedulerObj \<Rightarrow> 64 word \<Rightarrow> 'c ioManager" where
  "IOManager sc now = contextResize 32 \<lparr>io_sched = sc, io_timers = TimerManager now, pendingEventCnt = 0, fdContexts = [], epoll = Map.empty, io_pipe = 0\<rparr>"

section \<open>The invariant\<close>

definition valid_events :: "32 word \<Rightarrow> bool" where
  "valid_events e \<longleftrightarrow> e \<in> {0, 1, 4, 5}"

definition slot_ok :: "bool \<Rightarrow> 'c eventContext \<Rightarrow> bool" where
  "slot_ok registered ec \<longleftrightarrow> (if registered then ec_scheduler ec \<and> (ec_fiber ec = None \<longleftrightarrow> ec_cb ec \<noteq> None) else ec = EventContext)"

definition ctx_ok :: "'c fdContext \<Rightarrow> bool" where
  "ctx_ok c \<longleftrightarrow> valid_events (fc_events c) \<and> slot_ok (fc_events c AND READ \<noteq> 0) (fc_read c) \<and> slot_ok (fc_events c AND WRITE \<noteq> 0) (fc_write c)"

definition ctx_count :: "'c fdContext \<Rightarrow> int" where
  "ctx_count c = of_bool (fc_events c AND READ \<noteq> 0) + of_bool (fc_events c AND WRITE \<noteq> 0)"

definition interest :: "'c fdContext list \<Rightarrow> nat \<rightharpoonup> 32 word" where
  "interest cs i = (if i < length cs \<and> fc_events (cs ! i) \<noteq> 0 then Some (EPOLLET OR fc_events (cs ! i)) else None)"

definition io_ok :: "'c ioManager \<Rightarrow> bool" where
  "io_ok io \<longleftrightarrow> 32 \<le> length (fdContexts io) \<and> (\<forall>c \<in> set (fdContexts io). ctx_ok c) \<and> epoll io = interest (fdContexts io) \<and>
     pendingEventCnt io = sum_list (map ctx_count (fdContexts io))"

text \<open>The arithmetic of the four masks.\<close>

lemma valid_eventsE:
  assumes "valid_events e" obtains "e = 0" | "e = 1" | "e = 4" | "e = 5"
  using assms by (auto simp: valid_events_def)

lemma ctx_simps [simp]:
  "ctx_ok FdContext" "ctx_count FdContext = 0" "fc_events FdContext = 0"
  by (simp_all add: ctx_ok_def FdContext_def slot_ok_def valid_events_def ctx_count_def)

lemma interest_update:
  "fd < length cs \<Longrightarrow> interest (cs[fd := c]) = (interest cs)(fd := if fc_events c = 0 then None else Some (EPOLLET OR fc_events c))"
  by (auto simp: interest_def nth_list_update fun_eq_iff)

lemma interest_grow: "(\<forall>c \<in> set xs. fc_events c = 0) \<Longrightarrow> interest (cs @ xs) = interest cs"
  by (auto simp: interest_def nth_append fun_eq_iff)

lemma sum_list_replace: "i < length xs \<Longrightarrow> sum_list (xs[i := x]) = sum_list xs + x - xs ! i" for xs :: "int list"
  by (induction xs arbitrary: i) (auto split: nat.split)

lemma io_ok_update:
  assumes "io_ok io" "fd < length (fdContexts io)" "ctx_ok c"
    and "fdContexts io' = (fdContexts io)[fd := c]"
    and "epoll io' = (epoll io)(fd := if fc_events c = 0 then None else Some (EPOLLET OR fc_events c))"
    and "pendingEventCnt io' = pendingEventCnt io + ctx_count c - ctx_count (fdContexts io ! fd)"
  shows "io_ok io'"
proof -
  have "map ctx_count ((fdContexts io)[fd := c]) = (map ctx_count (fdContexts io))[fd := ctx_count c]" by (simp add: map_update)
  moreover have "sum_list ((map ctx_count (fdContexts io))[fd := ctx_count c]) = sum_list (map ctx_count (fdContexts io)) + ctx_count c - ctx_count (fdContexts io ! fd)"
    using assms(2) by (simp add: sum_list_replace)
  ultimately show ?thesis using assms by (auto simp: io_ok_def interest_update dest: set_update_mem)
qed

section \<open>Triggered events\<close>

definition clearEvents :: "32 word \<Rightarrow> 'c fdContext \<Rightarrow> 'c fdContext" where
  "clearEvents evs c = c\<lparr>fc_read := (if evs AND READ \<noteq> 0 then EventContext else fc_read c),
     fc_write := (if evs AND WRITE \<noteq> 0 then EventContext else fc_write c), fc_events := fc_events c AND NOT evs\<rparr>"

definition continuations :: "32 word \<Rightarrow> 'c fdContext \<Rightarrow> 'c work list" where
  "continuations evs c = (if evs AND READ \<noteq> 0 then [the (eventWork (fc_read c))] else []) @ (if evs AND WRITE \<noteq> 0 then [the (eventWork (fc_write c))] else [])"

definition queued :: "'c work list \<Rightarrow> 'c schedulerTask list" where
  "queued ws = map (\<lambda>w. \<lparr>task_work = Some w, task_thread = -1\<rparr>) ws"

definition fires :: "32 word \<Rightarrow> nat \<Rightarrow> 'c ioManager \<Rightarrow> 'c ioManager \<Rightarrow> bool" where
  "fires evs fd io io' \<longleftrightarrow> fdContexts io' = (fdContexts io)[fd := clearEvents evs (fdContexts io ! fd)] \<and> epoll io' = epoll io \<and>
     io_timers io' = io_timers io \<and> pendingEventCnt io' = pendingEventCnt io - int (length (continuations evs (fdContexts io ! fd))) \<and>
     tasks (io_sched io') = tasks (io_sched io) @ queued (continuations evs (fdContexts io ! fd))"

lemma io_schedule_frame [simp]:
  "fdContexts (io_schedule t io) = fdContexts io" "epoll (io_schedule t io) = epoll io" "io_timers (io_schedule t io) = io_timers io"
  "pendingEventCnt (io_schedule t io) = pendingEventCnt io"
  "tasks (io_sched (io_schedule t io)) = tasks (io_sched io) @ (case t of None \<Rightarrow> [] | Some w \<Rightarrow> queued [w])"
  by (auto simp: io_schedule_def scheduler_def tickle_def Let_def queued_def split: option.split)

lemma queued_append [simp]: "queued (xs @ ys) = queued xs @ queued ys" "queued [] = []"
  by (simp_all add: queued_def)

lemma slot_work: "slot_ok True ec \<Longrightarrow> ec_scheduler ec \<and> (\<exists>w. eventWork ec = Some w)"
  by (auto simp: slot_ok_def eventWork_def split: option.split)

lemma clearEvents_one:
  "event \<in> {READ, WRITE} \<Longrightarrow> resetEveContext event (c\<lparr>fc_events := fc_events c AND NOT event\<rparr>) = clearEvents event c"
  by (cases c) (auto simp: resetEveContext_def setEveContext_def clearEvents_def event_defs)

lemma clearEvents_ok:
  assumes "ctx_ok c" "evs \<in> {0, READ, WRITE, READ OR WRITE}" "evs AND NOT (fc_events c) = 0"
  shows "ctx_ok (clearEvents evs c)" "ctx_count (clearEvents evs c) = ctx_count c - int (length (continuations evs c))"
    "fc_events (clearEvents evs c) = fc_events c AND NOT evs"
proof -
  have v: "valid_events (fc_events c)" using assms(1) by (simp add: ctx_ok_def)
  have e: "evs = 0 \<or> evs = 1 \<or> evs = 4 \<or> evs = 5" using assms(2) by (auto simp: event_defs)
  show "ctx_ok (clearEvents evs c)"
    using v e assms(1,3) by (elim valid_eventsE disjE) (simp_all add: ctx_ok_def clearEvents_def slot_ok_def valid_events_def event_defs)
  show "ctx_count (clearEvents evs c) = ctx_count c - int (length (continuations evs c))"
    using v e assms(3) by (elim valid_eventsE disjE) (simp_all add: clearEvents_def ctx_count_def continuations_def event_defs)
qed (simp add: clearEvents_def)

lemma fires_0: "fires 0 fd io io"
  by (simp add: fires_def clearEvents_def continuations_def list_update_id)

lemma fires_trans:
  assumes "fires r fd io io1" "fires w fd io1 io2" "r \<in> {0, READ}" "w \<in> {0, WRITE}" "fd < length (fdContexts io)"
  shows "fires (r OR w) fd io io2"
  using assms by (auto simp: fires_def clearEvents_def continuations_def event_defs and.assoc)

lemma triggerIf_fires:
  assumes "ctx_ok (fdContexts io ! fd)" "event \<in> {READ, WRITE}" "fire \<Longrightarrow> fc_events (fdContexts io ! fd) AND event \<noteq> 0"
    and "fd < length (fdContexts io)"
  shows "\<exists>io'. triggerIf fire event fd io = Inr io' \<and> fires (if fire then event else 0) fd io io'"
proof (cases fire)
  case True
  then have e: "fc_events (fdContexts io ! fd) AND event \<noteq> 0" using assms(3) by simp
  let ?c = "fdContexts io ! fd"
  obtain ec w where ec: "getEveContext event ?c = Inr ec" "ec_scheduler ec" "eventWork ec = Some w" "continuations event ?c = [w]"
  proof (cases "event = READ")
    case True
    then have "slot_ok True (fc_read ?c)" using assms(1) e by (simp add: ctx_ok_def)
    with slot_work [OF this] True that show ?thesis by (auto simp: getEveContext_def continuations_def event_defs)
  next
    case False
    then have w: "event = WRITE" using assms(2) by simp
    then have "slot_ok True (fc_write ?c)" using assms(1) e by (simp add: ctx_ok_def)
    with slot_work [OF this] w that show ?thesis by (auto simp: getEveContext_def continuations_def event_defs)
  qed
  have "getEveContext event (?c\<lparr>fc_events := x\<rparr>) = Inr ec" for x using ec(1) by (auto simp: getEveContext_def split: if_splits)
  then have "triggerEvent event fd io = Inr (io_schedule (Some w) (io\<lparr>fdContexts := (fdContexts io)[fd := clearEvents event ?c]\<rparr>))"
    using e ec(2,3) by (simp add: triggerEvent_def Let_def clearEvents_one [OF assms(2)])
  with \<open>fire\<close> ec(4) show ?thesis by (simp add: triggerIf_def fires_def)
qed (simp add: triggerIf_def fires_0)


lemma io_okD:
  assumes "io_ok io" shows "32 \<le> length (fdContexts io)" "fd < length (fdContexts io) \<Longrightarrow> ctx_ok (fdContexts io ! fd)"
    "epoll io = interest (fdContexts io)" "pendingEventCnt io = sum_list (map ctx_count (fdContexts io))"
  using assms by (simp_all add: io_ok_def)

lemma io_ok_cong:
  "io_ok io \<Longrightarrow> fdContexts io' = fdContexts io \<Longrightarrow> epoll io' = epoll io \<Longrightarrow> pendingEventCnt io' = pendingEventCnt io \<Longrightarrow> io_ok io'"
  by (simp add: io_ok_def)

lemma epoll_set_frame [simp]:
  "fdContexts (epoll_set fd n io) = fdContexts io" "io_sched (epoll_set fd n io) = io_sched io" "io_timers (epoll_set fd n io) = io_timers io"
  "pendingEventCnt (epoll_set fd n io) = pendingEventCnt io"
  "epoll (epoll_set fd n io) = (epoll io)(fd := if n = 0 then None else Some (EPOLLET OR n))"
  by (simp_all add: epoll_set_def)

lemma fires_ok:
  assumes "io_ok io" "fd < length (fdContexts io)" "evs \<in> {0, READ, WRITE, READ OR WRITE}" "evs AND NOT (fc_events (fdContexts io ! fd)) = 0"
    and "fires evs fd (epoll_set fd (fc_events (fdContexts io ! fd) AND NOT evs) io) io'"
  shows "io_ok io'"
proof (rule io_ok_update [OF assms(1,2)])
  let ?c = "clearEvents evs (fdContexts io ! fd)"
  note c = clearEvents_ok [OF io_okD(2) [OF assms(1,2)] assms(3,4)]
  show "ctx_ok ?c" by (rule c(1))
  show "fdContexts io' = (fdContexts io)[fd := ?c]" using assms(5) by (simp add: fires_def)
  show "epoll io' = (epoll io)(fd := if fc_events ?c = 0 then None else Some (EPOLLET OR fc_events ?c))"
    unfolding c(3) using assms(5) by (simp add: fires_def)
  show "pendingEventCnt io' = pendingEventCnt io + ctx_count ?c - ctx_count (fdContexts io ! fd)"
    unfolding c(2) using assms(5) by (simp add: fires_def)
qed

text \<open>The two conditional triggers of \<open>idle\<close>, \<open>cancelEvent\<close> and \<open>cancelAll\<close>.\<close>

lemma trigger_both:
  assumes "io_ok io" "fd < length (fdContexts io)" "evs \<in> {0, READ, WRITE, READ OR WRITE}" "evs AND NOT (fc_events (fdContexts io ! fd)) = 0"
    and "io0 = epoll_set fd (fc_events (fdContexts io ! fd) AND NOT evs) io"
  shows "\<exists>io1 io2. triggerIf (evs AND READ \<noteq> 0) READ fd io0 = Inr io1 \<and> triggerIf (evs AND WRITE \<noteq> 0) WRITE fd io1 = Inr io2 \<and>
    fires (evs AND READ) fd io0 io1 \<and> fires evs fd io0 io2 \<and> io_ok io2"
proof -
  let ?c = "fdContexts io ! fd"
  have c: "ctx_ok ?c" "ctx_ok (fdContexts io0 ! fd)" using io_okD(2) [OF assms(1,2)] assms(5) by simp_all
  have v: "valid_events (fc_events ?c)" using c by (simp add: ctx_ok_def)
  have e: "evs = 0 \<or> evs = 1 \<or> evs = 4 \<or> evs = 5" using assms(3) by (auto simp: event_defs)
  have sub: "evs AND READ \<noteq> 0 \<Longrightarrow> fc_events ?c AND READ \<noteq> 0" "evs AND WRITE \<noteq> 0 \<Longrightarrow> (fc_events ?c AND NOT (evs AND READ)) AND WRITE \<noteq> 0"
    using v e assms(4) by - (elim valid_eventsE disjE; simp add: event_defs)+
  have split: "(if evs AND READ \<noteq> 0 then READ else 0) = evs AND READ" "(if evs AND WRITE \<noteq> 0 then WRITE else 0) = evs AND WRITE"
    "(evs AND READ) OR (evs AND WRITE) = evs" "evs AND READ \<in> {0, READ}" "evs AND WRITE \<in> {0, WRITE}"
    "evs AND READ \<in> {0, READ, WRITE, READ OR WRITE}" "(evs AND READ) AND NOT (fc_events ?c) = 0"
    using v e assms(4) by - (elim valid_eventsE disjE; simp add: event_defs)+
  have l: "fd < length (fdContexts io0)" using assms(2,5) by simp
  obtain io1 where io1: "triggerIf (evs AND READ \<noteq> 0) READ fd io0 = Inr io1" "fires (evs AND READ) fd io0 io1"
    using triggerIf_fires [OF c(2), of READ "evs AND READ \<noteq> 0"] l sub(1) assms(5) unfolding split(1) by auto
  have c1: "fdContexts io1 ! fd = clearEvents (evs AND READ) ?c" "fd < length (fdContexts io1)" using io1(2) assms(2,5) by (simp_all add: fires_def)
  have "ctx_ok (fdContexts io1 ! fd)" unfolding c1 by (rule clearEvents_ok [OF c(1) split(6,7)])
  moreover have "fc_events (fdContexts io1 ! fd) AND WRITE \<noteq> 0" if "evs AND WRITE \<noteq> 0"
    using sub(2) [OF that] unfolding c1 by (simp add: clearEvents_def)
  ultimately obtain io2 where io2: "triggerIf (evs AND WRITE \<noteq> 0) WRITE fd io1 = Inr io2" "fires (evs AND WRITE) fd io1 io2"
    using triggerIf_fires [of io1 fd WRITE "evs AND WRITE \<noteq> 0"] c1(2) unfolding split(2) by auto
  have "fires evs fd io0 io2" using fires_trans [OF io1(2) io2(2) split(4,5) l] unfolding split(3) .
  with io1 io2 fires_ok [OF assms(1-4), of io2] show ?thesis unfolding assms(5) by blast
qed

lemma outside_mask: "r AND NOT m = 0 \<Longrightarrow> m AND k = 0 \<Longrightarrow> r AND k = 0" for r :: "32 word"
  by (auto simp: bit_eq_iff bit_simps)

definition reported_ok :: "'c ioManager \<Rightarrow> nat \<times> 32 word \<Rightarrow> bool" where
  "reported_ok io ev \<longleftrightarrow> (\<exists>m. epoll io (fst ev) = Some m \<and> snd ev AND NOT (m OR EPOLLERR OR EPOLLHUP) = 0)"

lemma realEvents_sub:
  assumes "valid_events (fc_events c)" "r AND NOT ((EPOLLET OR fc_events c) OR EPOLLERR OR EPOLLHUP) = 0"
  shows "realEvents r c AND NOT (fc_events c) = 0" "realEvents r c \<in> {0, READ, WRITE, READ OR WRITE}"
proof -
  note m = outside_mask [OF assms(2), of 1] outside_mask [OF assms(2), of 4]
  have d: "(r OR x) AND y = (r AND y) OR (x AND y)" for x y by (rule bit.conj_disj_distrib2)
  show "realEvents r c AND NOT (fc_events c) = 0"
    using assms(1) m by (elim valid_eventsE) (simp_all add: realEvents_def event_defs d)
qed (auto simp: realEvents_def Let_def)

section \<open>Rounds of the idle fiber\<close>

definition ready :: "'c ioManager \<Rightarrow> (bool \<times> nat \<times> 32 word) option \<Rightarrow> 'c work list" where
  "ready io e = (case e of Some (True, fd, r) \<Rightarrow> continuations (realEvents r (fdContexts io ! fd)) (fdContexts io ! fd) | _ \<Rightarrow> [])"

lemma idleEvent_ok:
  assumes "io_ok io" "reported_ok io (fd, r)"
  shows "\<exists>io'. idleEvent ctl (fd, r) io = Inr io' \<and> io_ok io' \<and> io_timers io' = io_timers io \<and>
    tasks (io_sched io') = tasks (io_sched io) @ queued (ready io (Some (ctl, fd, r))) \<and>
    (\<forall>i. i \<noteq> fd \<longrightarrow> fdContexts io' ! i = fdContexts io ! i \<and> epoll io' i = epoll io i) \<and>
    (ctl \<longrightarrow> fc_events (fdContexts io' ! fd) = fc_events (fdContexts io ! fd) AND NOT (realEvents r (fdContexts io ! fd)))"
proof -
  let ?c = "fdContexts io ! fd" and ?r = "realEvents r (fdContexts io ! fd)"
  have fd: "fd < length (fdContexts io)" "r AND NOT ((EPOLLET OR fc_events ?c) OR EPOLLERR OR EPOLLHUP) = 0"
    using assms(2) io_okD(3) [OF assms(1)] by (auto simp: reported_ok_def interest_def split: if_splits)
  have v: "valid_events (fc_events ?c)" using io_okD(2) [OF assms(1) fd(1)] by (simp add: ctx_ok_def)
  note sub = realEvents_sub [OF v fd(2)]
  have r0: "?r = 0" if "fc_events ?c AND ?r = 0" using sub(1) that by (auto simp: bit_eq_iff bit_simps)
  obtain io1 io2 where io: "triggerIf (?r AND READ \<noteq> 0) READ fd (epoll_set fd (fc_events ?c AND NOT ?r) io) = Inr io1"
    "triggerIf (?r AND WRITE \<noteq> 0) WRITE fd io1 = Inr io2"
    "fires ?r fd (epoll_set fd (fc_events ?c AND NOT ?r) io) io2" "io_ok io2"
    using trigger_both [OF assms(1) fd(1) sub(2,1) refl] by blast
  show ?thesis
  proof (cases "fc_events ?c AND ?r = 0 \<or> \<not> ctl")
    case True
    then have "idleEvent ctl (fd, r) io = Inr io" "ready io (Some (ctl, fd, r)) = []"
      using r0 by (auto simp: idleEvent_def Let_def ready_def continuations_def split: bool.split)
    with assms(1) True r0 show ?thesis by auto
  next
    case False
    then have "idleEvent ctl (fd, r) io = Inr io2" using io(1,2) by (simp add: idleEvent_def Let_def)
    with io(3,4) False fd(1) show ?thesis by (auto simp: fires_def ready_def clearEvents_def)
  qed
qed

lemma io_ok_pipe [simp]: "io_ok (io\<lparr>io_pipe := n\<rparr>) = io_ok io" "reported_ok (io\<lparr>io_pipe := n\<rparr>) = reported_ok io" "ready (io\<lparr>io_pipe := n\<rparr>) = ready io"
  by (auto simp: io_ok_def reported_ok_def ready_def fun_eq_iff split: option.split bool.split)

fun ev_fd :: "(bool \<times> nat \<times> 32 word) option \<Rightarrow> nat list" where
  "ev_fd None = []"
| "ev_fd (Some (ctl, fd, r)) = [fd]"

lemma idleEvents_ok:
  assumes "io_ok io" "\<And>ctl ev. Some (ctl, ev) \<in> set evs \<Longrightarrow> reported_ok io ev" "distinct (concat (map ev_fd evs))"
  shows "\<exists>io'. idleEvents evs io = Inr io' \<and> io_ok io' \<and> io_timers io' = io_timers io \<and>
    tasks (io_sched io') = tasks (io_sched io) @ queued (concat (map (ready io) evs)) \<and>
    (\<forall>i. i \<notin> set (concat (map ev_fd evs)) \<longrightarrow> fdContexts io' ! i = fdContexts io ! i) \<and>
    (\<forall>fd r. Some (True, fd, r) \<in> set evs \<longrightarrow>
       fc_events (fdContexts io' ! fd) = fc_events (fdContexts io ! fd) AND NOT (realEvents r (fdContexts io ! fd)))"
  using assms
proof (induction evs io rule: idleEvents.induct)
  case (1 io)
  then show ?case by simp
next
  case (2 evs io)
  from 2(2-) show ?case using 2(1) by (simp add: ready_def)
next
  case (3 ctl ev evs io)
  obtain fd r where ev: "ev = (fd, r)" by fastforce
  have "reported_ok io (fd, r)" using 3(3) [of ctl ev] ev by simp
  then obtain io1 where io1: "idleEvent ctl (fd, r) io = Inr io1" "io_ok io1" "io_timers io1 = io_timers io"
      "tasks (io_sched io1) = tasks (io_sched io) @ queued (ready io (Some (ctl, fd, r)))"
      "\<And>i. i \<noteq> fd \<Longrightarrow> fdContexts io1 ! i = fdContexts io ! i" "\<And>i. i \<noteq> fd \<Longrightarrow> epoll io1 i = epoll io i"
      "ctl \<Longrightarrow> fc_events (fdContexts io1 ! fd) = fc_events (fdContexts io ! fd) AND NOT (realEvents r (fdContexts io ! fd))"
    using idleEvent_ok [OF 3(2), of fd r ctl] by blast
  have fresh: "fd \<notin> set (concat (map ev_fd evs))" "distinct (concat (map ev_fd evs))" using 3(4) ev by simp_all
  then have other: "Some (c, fd', r') \<in> set evs \<Longrightarrow> fd' \<noteq> fd" for c fd' r' by force
  have rep: "reported_ok io1 ev'" if "Some (c, ev') \<in> set evs" for c ev'
    using 3(3) [of c ev'] that other [of c "fst ev'" "snd ev'"] io1(6) by (simp add: reported_ok_def)
  have "ready io1 e = ready io e" if "e \<in> set evs" for e
    using other that io1(5) by (auto simp: ready_def split: option.split bool.split)
  then have "concat (map (ready io1) evs) = concat (map (ready io) evs)" by (simp cong: map_cong)
  moreover obtain io2 where "idleEvents evs io1 = Inr io2" "io_ok io2" "io_timers io2 = io_timers io1"
    "tasks (io_sched io2) = tasks (io_sched io1) @ queued (concat (map (ready io1) evs))"
    "\<And>i. i \<notin> set (concat (map ev_fd evs)) \<Longrightarrow> fdContexts io2 ! i = fdContexts io1 ! i"
    "\<And>fd r. Some (True, fd, r) \<in> set evs \<Longrightarrow>
       fc_events (fdContexts io2 ! fd) = fc_events (fdContexts io1 ! fd) AND NOT (realEvents r (fdContexts io1 ! fd))"
    using 3(1) [of io1] io1(1,2) ev rep fresh(2) by auto
  ultimately show ?case using io1 ev fresh(1) other by auto
qed


section \<open>The other operations\<close>

lemma contextResize_ok:
  assumes "io_ok io" "length (fdContexts io) \<le> n"
  shows "io_ok (contextResize n io)" "length (fdContexts (contextResize n io)) = n"
proof -
  have "interest (fdContexts io @ replicate k FdContext) = interest (fdContexts io)" for k by (rule interest_grow) simp
  then show "io_ok (contextResize n io)" using assms by (auto simp: io_ok_def contextResize_def sum_list_replicate)
qed (use assms(2) in \<open>simp add: contextResize_def\<close>)

lemma fd_context_ok:
  assumes "io_ok io" "fd_context fd io = Inr (ctx, io1)"
  shows "io_ok io1 \<and> nat fd < length (fdContexts io1) \<and> ctx = fdContexts io1 ! nat fd \<and> 0 \<le> fd \<and> io_timers io1 = io_timers io"
proof -
  have "io_ok io1" "vget (fdContexts io1) fd = Inr ctx" "io_timers io1 = io_timers io"
    using assms contextResize_ok(1) [OF assms(1), of "nat (fd * 3 div 2)"] io_okD(1) [OF assms(1)]
    by (auto simp: fd_context_def Let_def result_simps contextResize_def split: if_splits)
  then show ?thesis by (auto simp: vget_eq_Inr)
qed

lemma getEveContext_event: "getEveContext event ctx = Inr ec \<Longrightarrow> event \<in> {READ, WRITE}"
  by (simp add: getEveContext_def split: if_splits)

text \<open>A context that has gained an event.\<close>

lemma setEveContext_ok:
  assumes "ctx_ok ctx" "event \<in> {READ, WRITE}" "fc_events ctx AND event = 0" "slot_ok True ec"
    and "c = setEveContext event ec (ctx\<lparr>fc_events := fc_events ctx OR event\<rparr>)"
  shows "ctx_ok c" "ctx_count c = ctx_count ctx + 1" "fc_events c = fc_events ctx OR event"
proof -
  have v: "valid_events (fc_events ctx)" and e: "event = 1 \<or> event = 4" using assms(1,2) by (auto simp: ctx_ok_def event_defs)
  show "ctx_ok c" using v e assms(1,3,4) unfolding assms(5)
    by (elim valid_eventsE disjE) (simp_all add: ctx_ok_def setEveContext_def valid_events_def event_defs)
  show "ctx_count c = ctx_count ctx + 1" using v e assms(3) unfolding assms(5)
    by (elim valid_eventsE disjE) (simp_all add: ctx_count_def setEveContext_def event_defs)
qed (simp add: assms(5) setEveContext_def)

lemma addEvent_ok:
  assumes "io_ok io0" "addEvent ctl cur fd event c io0 = Inr (ret, io')"
  shows "io_ok io' \<and> io_timers io' = io_timers io0"
proof -
  obtain ctx io where f: "fd_context fd io0 = Inr (ctx, io)" and free: "fc_events ctx AND event = 0"
    using assms(2) by (auto simp: addEvent_def result_simps split: if_splits)
  note io = fd_context_ok [OF assms(1) f]
  show ?thesis
  proof (cases ctl)
    case False
    then show ?thesis using assms(2) f free io by (simp add: addEvent_def)
  next
    case True
    define c' where "c' = ctx\<lparr>fc_events := fc_events ctx OR event\<rparr>"
    obtain ec ec1 where ec: "getEveContext event c' = Inr ec" "\<not> ec_scheduler ec" "ec_fiber ec = None" "ec_cb ec = None"
        "ec1 = ec\<lparr>ec_scheduler := True, ec_cb := c\<rparr> \<and> c \<noteq> None \<or> ec1 = ec\<lparr>ec_scheduler := True, ec_fiber := Some (fst cur)\<rparr>"
      and io': "io' = (epoll_set (nat fd) (fc_events ctx OR event) (io\<lparr>pendingEventCnt := pendingEventCnt io + 1\<rparr>))
        \<lparr>fdContexts := (fdContexts io)[nat fd := setEveContext event ec1 c']\<rparr>"
      using assms(2) f free True
      by (auto simp: addEvent_def result_simps Let_def c'_def split: if_splits option.splits)
    have "slot_ok True ec1" using ec(2-) by (auto simp: slot_ok_def)
    note n = setEveContext_ok [OF _ getEveContext_event [OF ec(1)] free this refl, folded c'_def]
    have ctx: "ctx_ok ctx" "nat fd < length (fdContexts io)" using io io_okD(2) by auto
    have "io_ok io'"
      by (rule io_ok_update [OF conjunct1 [OF io] ctx(2) n(1) [OF ctx(1)]]) (use n(2,3) [OF ctx(1)] io in \<open>simp_all add: io'\<close>)
    with io io' show ?thesis by simp
  qed
qed

lemma delEvent_ok:
  assumes "io_ok io" "delEvent ctl fd event io = Inr (b, io')"
  shows "io_ok io' \<and> io_timers io' = io_timers io"
proof (cases "io' = io")
  case False
  define ctx where "ctx = fdContexts io ! nat fd"
  have fd: "nat fd < length (fdContexts io)" "fc_events ctx AND event \<noteq> 0" and ev: "event \<in> {READ, WRITE}"
    and io': "io' = (epoll_set (nat fd) (fc_events ctx AND NOT event) (io\<lparr>pendingEventCnt := pendingEventCnt io - 1\<rparr>))
      \<lparr>fdContexts := (fdContexts io)[nat fd := clearEvents event ctx]\<rparr>"
    using assms(2) False
    by (auto simp: delEvent_def result_simps vget_eq_Inr Let_def ctx_def clearEvents_one dest!: getEveContext_event split: if_splits)
  have c: "ctx_ok ctx" using io_okD(2) [OF assms(1) fd(1)] ctx_def by simp
  then have "valid_events (fc_events ctx)" by (simp add: ctx_ok_def)
  then have sub: "event AND NOT (fc_events ctx) = 0" "length (continuations event ctx) = 1"
    using ev fd(2) by - (elim valid_eventsE; auto simp: event_defs continuations_def)+
  have "event \<in> {0, READ, WRITE, READ OR WRITE}" using ev by blast
  note n = clearEvents_ok [OF c this sub(1)]
  have "io_ok io'" by (rule io_ok_update [OF assms(1) fd(1) n(1)]) (use n(2,3) sub(2) in \<open>simp_all add: io' ctx_def\<close>)
  with io' show ?thesis by simp
qed (use assms(1) in simp)


lemma cancelEvent_ok:
  assumes "io_ok io" "cancelEvent ctl fd event io = Inr (b, io')"
  shows "io_ok io' \<and> io_timers io' = io_timers io"
proof (cases "io' = io")
  case False
  define ctx where "ctx = fdContexts io ! nat fd"
  let ?io = "epoll_set (nat fd) (fc_events ctx AND NOT event) io"
  obtain io1 where fd: "nat fd < length (fdContexts io)" "fc_events ctx AND event \<noteq> 0" and t: "triggerEvent event (nat fd) ?io = Inr io1"
    and io': "io' = io1\<lparr>pendingEventCnt := pendingEventCnt io1 - 1\<rparr>"
    using assms(2) False by (auto simp: cancelEvent_def result_simps vget_eq_Inr Let_def ctx_def split: if_splits)
  have ev: "event \<in> {READ, WRITE}" using t by (auto simp: triggerEvent_def result_simps Let_def dest!: getEveContext_event split: if_splits)
  have c: "ctx_ok ctx" using io_okD(2) [OF assms(1) fd(1)] ctx_def by simp
  have "\<exists>io'. triggerIf True event (nat fd) ?io = Inr io' \<and> fires (if True then event else 0) (nat fd) ?io io'"
    by (rule triggerIf_fires) (use c fd ev in \<open>simp_all add: ctx_def\<close>)
  then have f: "fires event (nat fd) ?io io'" using t io' by (auto simp: triggerIf_def)
  have "valid_events (fc_events ctx)" using c by (simp add: ctx_ok_def)
  then have sub: "event AND NOT (fc_events ctx) = 0" using ev fd(2) by (elim valid_eventsE) (auto simp: event_defs)
  have "event \<in> {0, READ, WRITE, READ OR WRITE}" using ev by blast
  from fires_ok [OF assms(1) fd(1) this sub [unfolded ctx_def]] f have "io_ok io'" by (simp add: ctx_def)
  with f show ?thesis by (simp add: fires_def)
qed (use assms(1) in simp)

text \<open>\<open>cancelAll\<close> always ends: with nothing left registered, and with every continuation queued.\<close>

lemma cancelAll_ok:
  assumes "io_ok io" "0 \<le> fd"
  shows "\<exists>b io'. cancelAll ctl fd io = Inr (b, io') \<and> io_ok io' \<and> io_timers io' = io_timers io \<and>
    (b \<longrightarrow> fc_events (fdContexts io' ! nat fd) = 0 \<and>
       tasks (io_sched io') = tasks (io_sched io) @ queued (continuations (fc_events (fdContexts io ! nat fd)) (fdContexts io ! nat fd)))"
proof (cases "int (length (fdContexts io)) \<le> fd \<or> fc_events (fdContexts io ! nat fd) = 0 \<or> \<not> ctl")
  case True
  then show ?thesis using assms by (auto simp: cancelAll_def vget_def)
next
  case False
  define c where "c = fdContexts io ! nat fd"
  let ?e = "fc_events c" and ?io = "epoll_set (nat fd) 0 io"
  have fd: "nat fd < length (fdContexts io)" "?e \<noteq> 0" ctl using False assms(2) by (auto simp: c_def)
  have v: "valid_events ?e" using io_okD(2) [OF assms(1) fd(1)] by (simp add: ctx_ok_def c_def)
  then have e: "?e \<in> {0, READ, WRITE, READ OR WRITE}" by (auto simp: valid_events_def event_defs)
  have i: "?io = epoll_set (nat fd) (fc_events (fdContexts io ! nat fd) AND NOT ?e) io" by (simp add: c_def)
  obtain io1 io2 where t: "triggerIf (?e AND READ \<noteq> 0) READ (nat fd) ?io = Inr io1" "triggerIf (?e AND WRITE \<noteq> 0) WRITE (nat fd) io1 = Inr io2"
      "fires (?e AND READ) (nat fd) ?io io1" "fires ?e (nat fd) ?io io2" "io_ok io2"
    using trigger_both [OF assms(1) fd(1) e _ i] by (auto simp: c_def)
  have "fc_events (fdContexts io1 ! nat fd) AND WRITE = ?e AND WRITE"
    using t(3) fd(1) v by (elim valid_eventsE) (simp_all add: fires_def clearEvents_def event_defs c_def)
  then have "cancelAll ctl fd io = Inr (True, io2)"
    using False t(1,2,4) fd assms(2) by (simp add: cancelAll_def vget_def c_def [symmetric] fires_def clearEvents_def)
  with t(4,5) fd(1) show ?thesis by (intro exI [of _ True] exI [of _ io2]) (simp add: fires_def clearEvents_def c_def [symmetric])
qed

lemma schedule_all:
  assumes "None \<notin> set cbs"
  shows "fdContexts (fold (\<lambda>c. io_schedule (map_option f c)) cbs io) = fdContexts io"
    "epoll (fold (\<lambda>c. io_schedule (map_option f c)) cbs io) = epoll io"
    "pendingEventCnt (fold (\<lambda>c. io_schedule (map_option f c)) cbs io) = pendingEventCnt io"
    "io_timers (fold (\<lambda>c. io_schedule (map_option f c)) cbs io) = io_timers io"
    "tasks (io_sched (fold (\<lambda>c. io_schedule (map_option f c)) cbs io)) = tasks (io_sched io) @ queued (map (f \<circ> the) cbs)"
  using assms by (induction cbs arbitrary: io) (auto simp: queued_def eq_commute [of None])

lemma idleRound_ok:
  assumes "io_ok io" "timers_ok (io_timers io)" "tm_heap (io_timers io) q = None"
    and "\<And>ctl ev. Some (ctl, ev) \<in> set evs \<Longrightarrow> reported_ok io ev" "distinct (concat (map ev_fd evs))"
  shows "\<exists>io'. idleRound run_cb now q evs io = Inr io' \<and> io_ok io' \<and> timers_ok (io_timers io') \<and>
    tasks (io_sched io') = tasks (io_sched io) @
      queued (map (CbWork \<circ> run_cb \<circ> the) (fst (listExpiredCb now q (io_timers io))) @ concat (map (ready io) evs)) \<and>
    (\<forall>i. i \<notin> set (concat (map ev_fd evs)) \<longrightarrow> fdContexts io' ! i = fdContexts io ! i) \<and>
    (\<forall>fd r. Some (True, fd, r) \<in> set evs \<longrightarrow>
       fc_events (fdContexts io' ! fd) = fc_events (fdContexts io ! fd) AND NOT (realEvents r (fdContexts io ! fd)))"
proof -
  obtain cbs tm where l: "listExpiredCb now q (io_timers io) = (cbs, tm)" by fastforce
  from listExpiredCb_eq [OF assms(2,3) l] have cbs: "None \<notin> set cbs" and tm: "timers_ok tm" by blast+
  define io1 where "io1 = fold (\<lambda>c. io_schedule (map_option (CbWork \<circ> run_cb) c)) cbs (io\<lparr>io_timers := tm\<rparr>)"
  note f = schedule_all [OF cbs, where io = "io\<lparr>io_timers := tm\<rparr>" and f = "CbWork \<circ> run_cb", folded io1_def, simplified]
  have r: "reported_ok io1 = reported_ok io" "ready io1 = ready io"
    using f by (auto simp: fun_eq_iff reported_ok_def ready_def split: option.split bool.split)
  have "idleRound run_cb now q evs io = idleEvents evs io1" by (simp add: idleRound_def l io1_def)
  moreover have "io_ok io1" using io_ok_cong [OF assms(1)] f by simp
  ultimately show ?thesis using idleEvents_ok [of io1 evs] assms(4,5) f tm l by (auto simp: r comp_assoc)
qed

section \<open>Runs\<close>

inductive io_run :: "'c ioManager \<Rightarrow> bool" where
  created: "io_run (IOManager sc now)"
| added: "io_run io'" if "io_run io" "addEvent ctl cur fd event c io = Inr (ret, io')"
| deleted: "io_run io'" if "io_run io" "delEvent ctl fd event io = Inr (b, io')"
| cancelled: "io_run io'" if "io_run io" "cancelEvent ctl fd event io = Inr (b, io')"
| cancelled_all: "io_run io'" if "io_run io" "0 \<le> fd" "cancelAll ctl fd io = Inr (b, io')"
| timer_added: "io_run (io_addTimer now p m c recur io)" if "io_run io" "tm_heap (io_timers io) p = None"
| timer_cancelled: "io_run (io\<lparr>io_timers := tm\<rparr>)" if "io_run io" "tm_heap (io_timers io) p \<noteq> None" "timer_cancel p (io_timers io) = Inr (b, tm)"
| scheduled: "io_run (io_schedule t io)" if "io_run io"
| sched_changed: "io_run (io\<lparr>io_sched := sc\<rparr>)" if "io_run io"
| asked: "io_run (snd (snd (io_stopping now io)))" if "io_run io"
| waited: "io_run io'" if "io_run io" "tm_heap (io_timers io) q = None" "\<And>ctl ev. Some (ctl, ev) \<in> set evs \<Longrightarrow> reported_ok io ev"
    "distinct (concat (map ev_fd evs))" "idleRound run_cb now q evs io = Inr io'"

lemma io_run_ok: "io_run io \<Longrightarrow> io_ok io \<and> timers_ok (io_timers io)"
proof (induction rule: io_run.induct)
  case (created sc now)
  show ?case by (auto simp: interest_def fun_eq_iff IOManager_def contextResize_def io_ok_def TimerManager_def timers_ok_def sum_list_replicate)
next
  case (added io ctl cur fd event c ret io')
  then show ?case using addEvent_ok by (metis)
next
  case (deleted io ctl fd event b io')
  then show ?case using delEvent_ok by metis
next
  case (cancelled io ctl fd event b io')
  then show ?case using cancelEvent_ok by metis
next
  case (cancelled_all io fd ctl b io')
  then show ?case using cancelAll_ok [of io fd ctl] by auto
next
  case (timer_added io p now m c recur)
  have "timers_ok (snd (addTimer now p m c recur (io_timers io)))" using timer_added by (intro addTimer_ok) auto
  then show ?case using timer_added
    by (auto simp: io_addTimer_def OnTimerInsertedAtFront_def tickle_def split_def Let_def intro: io_ok_cong)
next
  case (timer_cancelled io p b tm)
  then show ?case using timer_cancel_ok by (fastforce intro: io_ok_cong)
next
  case (scheduled io t)
  then show ?case by (auto intro: io_ok_cong)
next
  case (sched_changed io sc)
  then show ?case by (auto intro: io_ok_cong)
next
  case (asked io now)
  then show ?case by (auto simp: io_stopping_def split_def Let_def intro: io_ok_cong)
next
  case (waited io q evs run_cb now io')
  then show ?case using idleRound_ok [of io q evs run_cb now] by auto
qed


text \<open>C25: The descriptors. However events are added, deleted, cancelled and waited for, every registered event has exactly one continuation
  (a fiber or a function) and no other event has one, \<open>pendingEventCnt_\<close> is the number of registered events and the kernel's interest list
  holds exactly the registered events, edge-triggered.\<close>

theorem io_events_accounted:
  assumes "io_run io"
  shows "pendingEventCnt io = sum_list (map ctx_count (fdContexts io)) \<and> epoll io = interest (fdContexts io) \<and>
    (\<forall>fd < length (fdContexts io). slot_ok (fc_events (fdContexts io ! fd) AND READ \<noteq> 0) (fc_read (fdContexts io ! fd)) \<and>
      slot_ok (fc_events (fdContexts io ! fd) AND WRITE \<noteq> 0) (fc_write (fdContexts io ! fd)))"
  using io_run_ok [OF assms] by (auto simp: io_ok_def ctx_ok_def)

text \<open>C26: Wake-ups. When \<open>epoll_wait\<close> reports each descriptor once, with events it was asked for (or an error), the round of the idle fiber
  returns, and queues exactly the functions of the expired timers and the continuations of the reported events, once each and in that order;
  these events are unregistered and no other descriptor is touched.\<close>

theorem idle_wakes_exactly:
  assumes "io_run io" and "tm_heap (io_timers io) q = None"
    and "\<And>ctl ev. Some (ctl, ev) \<in> set evs \<Longrightarrow> reported_ok io ev" and "distinct (concat (map ev_fd evs))"
  shows "\<exists>io'. idleRound run_cb now q evs io = Inr io' \<and>
    tasks (io_sched io') = tasks (io_sched io) @
      queued (map (CbWork \<circ> run_cb \<circ> the) (fst (listExpiredCb now q (io_timers io))) @ concat (map (ready io) evs)) \<and>
    (\<forall>fd r. Some (True, fd, r) \<in> set evs \<longrightarrow>
       fc_events (fdContexts io' ! fd) = fc_events (fdContexts io ! fd) AND NOT (realEvents r (fdContexts io ! fd))) \<and>
    (\<forall>i. i \<notin> set (concat (map ev_fd evs)) \<longrightarrow> fdContexts io' ! i = fdContexts io ! i)"
  using idleRound_ok [of io q evs run_cb now] io_run_ok [OF assms(1)] assms(2-) by blast

text \<open>A stale report. The events that happened are not cut down to the registered ones: when another thread has already taken the write
  event of a descriptor whose read event is still registered, a report of both events ends the process.\<close>

theorem idle_stale_report_panics:
  assumes "io_run io" and "fd < length (fdContexts io)" and "fc_events (fdContexts io ! fd) = READ" and "reported AND EPOLLIN \<noteq> 0"
    and "reported AND EPOLLOUT \<noteq> 0" and "reported AND (EPOLLERR OR EPOLLHUP) = 0"
  shows "idleEvent True (fd, reported) io = Inl (AssertFailed ''event has not been registed'')"
proof -
  have r: "realEvents reported (fdContexts io ! fd) = READ OR WRITE" using assms(4-6) by (simp add: realEvents_def)
  have ok: "io_ok io" using io_run_ok [OF assms(1)] by simp
  let ?io = "epoll_set fd (fc_events (fdContexts io ! fd) AND NOT (READ OR WRITE)) io"
  have "\<exists>io'. triggerIf True READ fd ?io = Inr io' \<and> fires (if True then READ else 0) fd ?io io'"
    by (rule triggerIf_fires) (use io_okD(2) [OF ok assms(2)] assms(2,3) in \<open>simp_all add: event_defs\<close>)
  then obtain io1 where io1: "triggerIf True READ fd ?io = Inr io1" "fires READ fd ?io io1" by auto
  have "fc_events (fdContexts io1 ! fd) = 0" using io1(2) assms(2,3) by (simp add: fires_def clearEvents_def)
  then have "triggerIf True WRITE fd io1 = Inl (AssertFailed ''event has not been registed'')" by (simp add: triggerIf_def triggerEvent_def Let_def)
  with io1(1) assms(3) show ?thesis unfolding idleEvent_def by (simp add: r Let_def) (simp add: event_defs)
qed

lemma int_back: "- (2 ^ 31) \<le> x \<Longrightarrow> x < 2 ^ 31 \<Longrightarrow> sint (ucast (word_of_int x :: 64 word) :: 32 word) = x"
proof -
  assume "- (2 ^ 31) \<le> x" "x < 2 ^ 31"
  then have "signed_take_bit 31 x = x" by (simp add: signed_take_bit_int_eq_self)
  moreover have "(ucast (word_of_int x :: 64 word) :: 32 word) = word_of_int x" by (rule bit_word_eqI) (simp add: bit_simps)
  ultimately show ?thesis by (simp add: sint_sbintrunc')
qed

text \<open>The wait. Where the next timer is due in less than \<open>2\<^sup>3\<^sup>1\<close> milliseconds, \<open>epoll_wait\<close> is given that time, cut to five seconds.\<close>

theorem waitTimeout_bounds:
  assumes "t < 2 ^ 31"
  shows "waitTimeout t = min (uint t) 5000"
proof -
  have u: "uint t < 2 ^ 31" using assms by (simp add: word_less_def)
  have g: "- (2 ^ 31) \<le> uint t" by (rule order_trans [OF _ uint_ge_0]) simp
  have "sint (ucast t :: 32 word) = uint t" using int_back [OF g u] by simp
  moreover have "t \<noteq> - 1" using assms by auto
  ultimately show ?thesis using int_back [of "min (uint t) 5000"] u g by (simp add: waitTimeout_def)
qed

lemma waitTimeout_forever: "waitTimeout (2 ^ 31) = - (2 ^ 31)"
  by (simp add: waitTimeout_def)


section \<open>Witnesses\<close>

text \<open>Fiber 7 waits for descriptor 3 to be readable, a function for descriptor 40 to be writable, and a timer is pending.\<close>

definition after_add :: "nat \<times> fiberState \<Rightarrow> int \<Rightarrow> 32 word \<Rightarrow> 'c option \<Rightarrow> 'c ioManager \<Rightarrow> 'c ioManager" where
  "after_add cur fd event c io = (case addEvent True cur fd event c io of Inr (_, io') \<Rightarrow> io' | Inl _ \<Rightarrow> io)"

lemma after_add_run: "io_run io \<Longrightarrow> io_run (after_add cur fd event c io)"
  by (auto simp: after_add_def intro: io_run.added split: sum.split)

definition idle_io :: "string ioManager" where
  "idle_io = IOManager \<lparr>tasks = [], activeThreadCnt = 0, idleThreadCnt = 1, isUseCaller = False, rootThread = -1, threadCnt = 1, isStopped = False\<rparr> 100"

definition two_waiting :: "string ioManager" where
  "two_waiting = after_add (8, RUNNING) 40 WRITE (Some ''sent'') (after_add (7, RUNNING) 3 READ None (io_addTimer 100 1 50 (Plain ''tick'') False idle_io))"

lemma two_waiting_run: "io_run two_waiting"
proof -
  have "io_run idle_io" unfolding idle_io_def by (rule io_run.created)
  moreover have "tm_heap (io_timers idle_io) 1 = None" by code_simp
  ultimately show ?thesis unfolding two_waiting_def by (intro after_add_run io_run.timer_added)
qed

theorem io_events_accounted_witness: "io_run two_waiting \<and> pendingEventCnt two_waiting = 2 \<and> epoll two_waiting 40 = Some (EPOLLET OR WRITE)"
proof -
  have "sum_list (map ctx_count (fdContexts two_waiting)) = 2" "interest (fdContexts two_waiting) 40 = Some (EPOLLET OR WRITE)" by code_simp+
  with io_events_accounted [OF two_waiting_run] two_waiting_run show ?thesis by simp
qed

definition plain_cb :: "string timerCb \<Rightarrow> string" where
  "plain_cb c = (case c of Plain f \<Rightarrow> f | _ \<Rightarrow> [])"

theorem idle_wakes_exactly_witness:
  "\<exists>io'. idleRound plain_cb 150 9 [Some (True, 40, EPOLLOUT), None, Some (True, 3, EPOLLHUP)] two_waiting = Inr io' \<and>
     tasks (io_sched io') = queued [CbWork ''tick'', CbWork ''sent'', FiberWork 7]"
proof -
  let ?evs = "[Some (True, 40, EPOLLOUT), None, Some (True, 3, EPOLLHUP)]"
  have "tm_heap (io_timers two_waiting) 9 = None" by code_simp
  moreover have "epoll two_waiting 40 = Some (EPOLLET OR WRITE)" "epoll two_waiting 3 = Some (EPOLLET OR READ)" by code_simp+
  then have "\<And>ctl ev. Some (ctl, ev) \<in> set ?evs \<Longrightarrow> reported_ok two_waiting ev" by (auto simp: reported_ok_def event_defs)
  moreover have "distinct (concat (map ev_fd ?evs))" by simp
  moreover have "map (CbWork \<circ> plain_cb \<circ> the) (fst (listExpiredCb 150 9 (io_timers two_waiting))) @
      concat (map (ready two_waiting) ?evs) = [CbWork ''tick'', CbWork ''sent'', FiberWork 7]" by code_simp
  moreover have "tasks (io_sched two_waiting) = []" by code_simp
  ultimately show ?thesis using idle_wakes_exactly [OF two_waiting_run, of 9 ?evs plain_cb 150] by (metis append_Nil)
qed

theorem idle_stale_report_panics_witness:
  "idleEvent True (3, EPOLLIN OR EPOLLOUT) two_waiting = Inl (AssertFailed ''event has not been registed'')"
proof (rule idle_stale_report_panics [OF two_waiting_run])
  show "3 < length (fdContexts two_waiting)" "fc_events (fdContexts two_waiting ! 3) = READ" by code_simp+
qed (simp_all add: event_defs)

theorem waitTimeout_bounds_witness: "waitTimeout 60000 = 5000 \<and> waitTimeout (2 ^ 31) = - (2 ^ 31)"
  using waitTimeout_bounds [of 60000] waitTimeout_forever by simp

end
