(* ===== verification/Hook.thy ===== *)
theory Hook
  imports IoManager
begin

text \<open>
  The system calls that the fiber library replaces (\<open>fiber/hook.cpp\<close>) and its table of descriptors (\<open>fiber/fd_manager.cpp\<close>): a call that
  would block adds an event and a timer to the I/O manager and suspends the fiber instead. The kernel is the map from descriptors to
  (is it a socket, its status flags); what the original calls return is an argument. A call that suspends its fiber is split there:
  \<open>do_io_try\<close> runs up to the switch, \<open>do_io_resume\<close> from it. \<open>tinfos\<close> holds the \<open>timer_info\<close> objects that still have an owner.
\<close>

section \<open>State\<close>

definition O_NONBLOCK :: "32 word" where "O_NONBLOCK = 0x800"
definition EINTR :: int where "EINTR = 4"
definition EBADF :: int where "EBADF = 9"
definition EAGAIN :: int where "EAGAIN = 11"
definition ETIMEDOUT :: int where "ETIMEDOUT = 110"
definition EINPROGRESS :: int where "EINPROGRESS = 115"
definition F_GETFL :: int where "F_GETFL = 3"
definition F_SETFL :: int where "F_SETFL = 4"
definition FIONBIO :: int where "FIONBIO = 0x5421"
definition SOL_SOCKET :: int where "SOL_SOCKET = 1"
definition SO_RCVTIMEO :: int where "SO_RCVTIMEO = 20"
definition SO_SNDTIMEO :: int where "SO_SNDTIMEO = 21"

lemmas posix_defs = O_NONBLOCK_def EINTR_def EBADF_def EAGAIN_def ETIMEDOUT_def EINPROGRESS_def F_GETFL_def F_SETFL_def FIONBIO_def SOL_SOCKET_def
  SO_RCVTIMEO_def SO_SNDTIMEO_def

record fdCtx =
  m_isInit :: bool
  m_isSocket :: bool
  m_sysNonblock :: bool
  m_userNonblock :: bool
  m_isClosed :: bool
  m_recvTimeout :: "64 word"
  m_sendTimeout :: "64 word"

type_synonym kernel = "int \<rightharpoonup> bool \<times> 32 word"

text \<open>The functions that the hooks hand to the manager: \<open>scheduler(fiber, -1)\<close> and the time-out of a call.\<close>

datatype hookCb = ScheduleFiber nat | TimeOut nat int "32 word"

record hook =
  t_hook_enable :: bool
  m_datas :: "fdCtx option list"
  kern :: kernel
  h_io :: "hookCb ioManager"
  tinfos :: "nat \<rightharpoonup> int"

section \<open>The kernel\<close>

text \<open>\<open>F_SETFL\<close> changes \<open>O_APPEND\<close>, \<open>O_NONBLOCK\<close>, \<open>O_ASYNC\<close>, \<open>O_DIRECT\<close> and \<open>O_NOATIME\<close>. The result of every other command is an argument.\<close>

definition settable :: "32 word" where "settable = 0x46C00"

definition fcntl_f :: "(int \<Rightarrow> 32 word option \<Rightarrow> 32 word) \<Rightarrow> int \<Rightarrow> int \<Rightarrow> 32 word option \<Rightarrow> kernel \<Rightarrow> 32 word \<times> kernel" where
  "fcntl_f other fd cmd arg k =
     (case k fd of
        None \<Rightarrow> (- 1, k)
      | Some (sock, flags) \<Rightarrow>
          if cmd = F_GETFL then (flags, k)
          else if cmd = F_SETFL then
            (case arg of
               Some a \<Rightarrow> (0, k(fd \<mapsto> (sock, (flags AND NOT settable) OR (a AND settable))))
             | None \<Rightarrow> (0, k))
          else (other cmd arg, k))"

definition ioctl_f :: "int \<Rightarrow> int \<Rightarrow> int \<Rightarrow> kernel \<Rightarrow> 32 word \<times> kernel" where
  "ioctl_f d request arg k =
     (case k d of
        None \<Rightarrow> (- 1, k)
      | Some (sock, flags) \<Rightarrow>
          if request = FIONBIO then (0, k(d \<mapsto> (sock, if arg \<noteq> 0 then flags OR O_NONBLOCK else flags AND NOT O_NONBLOCK))) else (0, k))"

section \<open>The table of descriptors\<close>

definition FdCtx :: "int \<Rightarrow> kernel \<Rightarrow> fdCtx \<times> kernel" where
  "FdCtx fd k =
     (case k fd of
        None \<Rightarrow> (\<lparr>m_isInit = False, m_isSocket = False, m_sysNonblock = False, m_userNonblock = False, m_isClosed = False,
                 m_recvTimeout = - 1, m_sendTimeout = - 1\<rparr>, k)
      | Some (sock, flags) \<Rightarrow>
          (\<lparr>m_isInit = True, m_isSocket = sock, m_sysNonblock = sock, m_userNonblock = False, m_isClosed = False,
            m_recvTimeout = - 1, m_sendTimeout = - 1\<rparr>,
           if sock \<and> flags AND O_NONBLOCK = 0 then snd (fcntl_f (\<lambda>_ _. 0) fd F_SETFL (Some (flags OR O_NONBLOCK)) k) else k))"

definition setTimeout :: "int \<Rightarrow> 64 word \<Rightarrow> fdCtx \<Rightarrow> fdCtx" where
  "setTimeout type v ctx = (if type = SO_RCVTIMEO then ctx\<lparr>m_recvTimeout := v\<rparr> else ctx\<lparr>m_sendTimeout := v\<rparr>)"

definition getTimeout :: "int \<Rightarrow> fdCtx \<Rightarrow> 64 word" where
  "getTimeout type ctx = (if type = SO_RCVTIMEO then m_recvTimeout ctx else m_sendTimeout ctx)"

definition FdManager :: "fdCtx option list" where
  "FdManager = replicate 64 None"

definition FdMgr_get :: "int \<Rightarrow> bool \<Rightarrow> hook \<Rightarrow> (fdCtx option \<times> hook) result" where
  "FdMgr_get fd auto_create h =
     (if fd = -1 then Inr (None, h)
      else if int (length (m_datas h)) \<le> fd \<and> \<not> auto_create then Inr (None, h)
      else
        rbind (if int (length (m_datas h)) \<le> fd then Inr None else vget (m_datas h) fd) (\<lambda>d.
        if int (length (m_datas h)) > fd \<and> (d \<noteq> None \<or> \<not> auto_create) then Inr (d, h)
        else
          let (ctx, k) = FdCtx fd (kern h);
              datas = (if fd \<ge> int (length (m_datas h)) then m_datas h @ replicate (nat (fd * 3 div 2) - length (m_datas h)) None else m_datas h) in
          rbind (vset datas fd (Some ctx)) (\<lambda>datas'. Inr (Some ctx, h\<lparr>m_datas := datas', kern := k\<rparr>))))"

definition FdMgr_del :: "int \<Rightarrow> hook \<Rightarrow> hook result" where
  "FdMgr_del fd h = (if int (length (m_datas h)) \<le> fd then Inr h else rbind (vset (m_datas h) fd None) (\<lambda>d. Inr (h\<lparr>m_datas := d\<rparr>)))"

text \<open>A write through the pointer that \<open>get\<close> returned.\<close>

definition ctx_update :: "int \<Rightarrow> fdCtx \<Rightarrow> hook \<Rightarrow> hook" where
  "ctx_update fd ctx h = h\<lparr>m_datas := (m_datas h)[nat fd := Some ctx]\<rparr>"

section \<open>Calls that wait\<close>

datatype ioMode = Direct | BadFd | Hooked "64 word"

definition do_io_mode :: "int \<Rightarrow> int \<Rightarrow> hook \<Rightarrow> ioMode result" where
  "do_io_mode fd timeout_so h =
     (if \<not> t_hook_enable h then Inr Direct
      else rbind (FdMgr_get fd False h) (\<lambda>(ctx, _).
        case ctx of
          None \<Rightarrow> Inr Direct
        | Some c \<Rightarrow>
            if m_isClosed c then Inr BadFd
            else if \<not> m_isSocket c \<or> m_userNonblock c then Inr Direct
            else Inr (Hooked (getTimeout timeout_so c))))"

text \<open>\<open>while (n == -1 && errno == EINTR)\<close> over what the attempts return.\<close>

fun retryEintr :: "(int \<times> int) list \<Rightarrow> ((int \<times> int) \<times> (int \<times> int) list) option" where
  "retryEintr [] = None"
| "retryEintr ((n, e) # rs) = (if n = -1 \<and> e = EINTR then retryEintr rs else Some ((n, e), rs))"

text \<open>How far a call has come: it has returned (with \<open>errno\<close>), it has suspended its fiber with that timer, or the attempts given were all
  interrupted and it tries again.\<close>

datatype ioStep = IoReturn int int | IoWait "nat option" | IoAgain

definition cancelTimer :: "nat option \<Rightarrow> hook \<Rightarrow> hook result" where
  "cancelTimer timer h =
     (case timer of
        None \<Rightarrow> Inr h
      | Some p \<Rightarrow> rbind (timer_cancel p (io_timers (h_io h))) (\<lambda>(_, tm). Inr (h\<lparr>h_io := (h_io h)\<lparr>io_timers := tm\<rparr>\<rparr>)))"

text \<open>The condition timer of a call and the event it waits for. \<open>ti\<close> is the call's \<open>timer_info\<close>, \<open>p\<close> the address of a new timer, \<open>cur\<close> the
  running fiber, \<open>ctl_err\<close> the error of \<open>epoll_ctl\<close> or 0.\<close>

definition waitEvent :: "64 word \<Rightarrow> nat \<Rightarrow> nat \<Rightarrow> nat \<times> fiberState \<Rightarrow> int \<Rightarrow> int \<Rightarrow> 32 word \<Rightarrow> 64 word \<Rightarrow> hook \<Rightarrow> (nat option \<times> int \<times> hook) result" where
  "waitEvent now p ti cur ctl_err fd event to h =
     (let (timer, io1) = (if to \<noteq> - 1 then (Some p, io_addTimer now p to (Conditional ti (TimeOut ti fd event)) False (h_io h)) else (None, h_io h)) in
      rbind (addEvent (ctl_err = 0) cur fd event None io1) (\<lambda>(rt, io2). Inr (timer, rt, h\<lparr>h_io := io2\<rparr>)))"

text \<open>From \<open>retry:\<close> to the switch. \<open>rs\<close> are the results of the attempts.\<close>

definition do_io_try :: "(int \<times> int) list \<Rightarrow> 64 word \<Rightarrow> nat \<Rightarrow> nat \<Rightarrow> nat \<times> fiberState \<Rightarrow> int \<Rightarrow> int \<Rightarrow> 32 word \<Rightarrow> 64 word \<Rightarrow> hook \<Rightarrow> (ioStep \<times> hook) result" where
  "do_io_try rs now p ti cur ctl_err fd event to h =
     (case retryEintr rs of
        None \<Rightarrow> Inr (IoAgain, h)
      | Some ((n, err), _) \<Rightarrow>
          if n = -1 \<and> err = EAGAIN then
            rbind (waitEvent now p ti cur ctl_err fd event to h) (\<lambda>(timer, rt, h1).
            if rt \<noteq> 0 then rbind (cancelTimer timer h1) (\<lambda>h2. Inr (IoReturn (-1) ctl_err, h2\<lparr>tinfos := (tinfos h2)(ti := None)\<rparr>))
            else Inr (IoWait timer, h1))
          else Inr (IoReturn n err, h\<lparr>tinfos := (tinfos h)(ti := None)\<rparr>))"

text \<open>\<open>do_io\<close> up to the first switch; \<open>direct\<close> is the result of the original call where it is called directly.\<close>

definition do_io :: "int \<times> int \<Rightarrow> (int \<times> int) list \<Rightarrow> 64 word \<Rightarrow> nat \<Rightarrow> nat \<Rightarrow> nat \<times> fiberState \<Rightarrow> int \<Rightarrow> int \<Rightarrow> 32 word \<Rightarrow> int \<Rightarrow> hook \<Rightarrow> (ioStep \<times> hook) result" where
  "do_io direct rs now p ti cur ctl_err fd event timeout_so h =
     rbind (do_io_mode fd timeout_so h) (\<lambda>m.
     case m of
       Direct \<Rightarrow> Inr (IoReturn (fst direct) (snd direct), h)
     | BadFd \<Rightarrow> Inr (IoReturn (-1) EBADF, h)
     | Hooked to \<Rightarrow> do_io_try rs now p ti cur ctl_err fd event to (h\<lparr>tinfos := (tinfos h)(ti \<mapsto> 0)\<rparr>))"

text \<open>After the switch back: the timer goes, and the call fails with the time-out or is tried again.\<close>

definition do_io_resume :: "nat option \<Rightarrow> (int \<times> int) list \<Rightarrow> 64 word \<Rightarrow> nat \<Rightarrow> nat \<Rightarrow> nat \<times> fiberState \<Rightarrow> int \<Rightarrow> int \<Rightarrow> 32 word \<Rightarrow> 64 word \<Rightarrow> hook \<Rightarrow> (ioStep \<times> hook) result" where
  "do_io_resume timer rs now p ti cur ctl_err fd event to h =
     rbind (cancelTimer timer h) (\<lambda>h1.
     let c = (case tinfos h1 ti of Some c \<Rightarrow> c | None \<Rightarrow> 0) in
     if c \<noteq> 0 then Inr (IoReturn (-1) c, h1\<lparr>tinfos := (tinfos h1)(ti := None)\<rparr>)
     else do_io_try rs now p ti cur ctl_err fd event to h1)"

text \<open>The function of the condition timer.\<close>

definition onTimeOut :: "bool \<Rightarrow> nat \<Rightarrow> int \<Rightarrow> 32 word \<Rightarrow> hook \<Rightarrow> hook result" where
  "onTimeOut ctl ti fd event h =
     (case tinfos h ti of
        None \<Rightarrow> Inr h
      | Some c \<Rightarrow>
          if c \<noteq> 0 then Inr h
          else rbind (cancelEvent ctl fd event (h_io h)) (\<lambda>(_, io). Inr (h\<lparr>tinfos := (tinfos h)(ti \<mapsto> ETIMEDOUT), h_io := io\<rparr>)))"

text \<open>Which event and which time-out each hooked call passes to \<open>do_io\<close>.\<close>

datatype ioCall = Accept | Read | Readv | Recv | Recvfrom | Recvmsg | Write | Writev | Send | Sendto | Sendmsg

definition call_event :: "ioCall \<Rightarrow> 32 word \<times> int" where
  "call_event c = (if c \<in> {Accept, Read, Readv, Recv, Recvfrom, Recvmsg} then (READ, SO_RCVTIMEO) else (WRITE, SO_SNDTIMEO))"

section \<open>Sleeping\<close>

definition sleep_ms :: "32 word \<Rightarrow> 64 word" where
  "sleep_ms seconds = ucast (seconds * 1000)"

definition usleep_ms :: "32 word \<Rightarrow> 64 word" where
  "usleep_ms usec = ucast (usec div 1000)"

text \<open>\<open>int timeout_s = tv_sec * 1000 + tv_nsec / 1000 / 1000\<close>, then to \<open>uint64_t\<close>\<close>

definition nanosleep_ms :: "64 word \<Rightarrow> nat \<Rightarrow> 64 word" where
  "nanosleep_ms tv_sec tv_nsec = (let timeout_s = (ucast (tv_sec * 1000 + of_nat (tv_nsec div 1000 div 1000)) :: 32 word) in word_of_int (sint timeout_s))"

text \<open>The common part: a timer that schedules the fiber again; the fiber then yields.\<close>

definition hooked_sleep :: "64 word \<Rightarrow> nat \<Rightarrow> nat \<Rightarrow> 64 word \<Rightarrow> hook \<Rightarrow> hook" where
  "hooked_sleep now p fiber m h = h\<lparr>h_io := io_addTimer now p m (Plain (ScheduleFiber fiber)) False (h_io h)\<rparr>"

section \<open>Sockets\<close>

text \<open>\<open>socket\<close>: \<open>r\<close> is the descriptor that the original call returned, or -1.\<close>

definition hook_socket :: "int \<Rightarrow> hook \<Rightarrow> (int \<times> hook) result" where
  "hook_socket r h = (if \<not> t_hook_enable h then Inr (r, h) else if r = -1 then Inr (r, h) else rbind (FdMgr_get r True h) (\<lambda>(_, h1). Inr (r, h1)))"

text \<open>\<open>accept\<close> after \<open>do_io\<close> has returned.\<close>

definition hook_accepted :: "int \<Rightarrow> hook \<Rightarrow> (int \<times> hook) result" where
  "hook_accepted fd h = (if fd \<ge> 0 then rbind (FdMgr_get fd True h) (\<lambda>(_, h1). Inr (fd, h1)) else Inr (fd, h))"

text \<open>\<open>connect_with_timeout\<close> up to the switch and from it; \<open>so_error\<close> is what \<open>getsockopt\<close> says, \<open>None\<close> where it fails.\<close>

definition connect_result :: "int option \<Rightarrow> int \<Rightarrow> ioStep" where
  "connect_result so_error err = (case so_error of None \<Rightarrow> IoReturn (-1) err | Some e \<Rightarrow> if e = 0 then IoReturn 0 0 else IoReturn (-1) e)"

definition connect_with_timeout :: "int \<times> int \<Rightarrow> 64 word \<Rightarrow> nat \<Rightarrow> nat \<Rightarrow> nat \<times> fiberState \<Rightarrow> int \<Rightarrow> int option \<Rightarrow> int \<Rightarrow> 64 word \<Rightarrow> hook \<Rightarrow> (ioStep \<times> hook) result" where
  "connect_with_timeout r now p ti cur ctl_err so_error fd timeout_ms h =
     (if \<not> t_hook_enable h then Inr (IoReturn (fst r) (snd r), h)
      else rbind (FdMgr_get fd False h) (\<lambda>(ctx, _).
        case ctx of
          None \<Rightarrow> Inr (IoReturn (-1) EBADF, h)
        | Some c \<Rightarrow>
            if m_isClosed c then Inr (IoReturn (-1) EBADF, h)
            else if \<not> m_isSocket c \<or> m_userNonblock c then Inr (IoReturn (fst r) (snd r), h)
            else if fst r = 0 then Inr (IoReturn 0 0, h)
            else if fst r \<noteq> -1 \<or> snd r \<noteq> EINPROGRESS then Inr (IoReturn (fst r) (snd r), h)
            else
              rbind (waitEvent now p ti cur ctl_err fd WRITE timeout_ms (h\<lparr>tinfos := (tinfos h)(ti \<mapsto> 0)\<rparr>)) (\<lambda>(timer, rt, h1).
              if rt = 0 then Inr (IoWait timer, h1)
              else rbind (cancelTimer timer h1) (\<lambda>h2. Inr (connect_result so_error ctl_err, h2\<lparr>tinfos := (tinfos h2)(ti := None)\<rparr>)))))"

definition connect_resume :: "nat option \<Rightarrow> nat \<Rightarrow> int option \<Rightarrow> int \<Rightarrow> hook \<Rightarrow> (ioStep \<times> hook) result" where
  "connect_resume timer ti so_error err h =
     rbind (cancelTimer timer h) (\<lambda>h1.
     let c = (case tinfos h1 ti of Some c \<Rightarrow> c | None \<Rightarrow> 0); h2 = h1\<lparr>tinfos := (tinfos h1)(ti := None)\<rparr> in
     if c \<noteq> 0 then Inr (IoReturn (-1) c, h2) else Inr (connect_result so_error err, h2))"

definition hook_close :: "bool \<Rightarrow> int \<Rightarrow> hook \<Rightarrow> hook result" where
  "hook_close ctl fd h =
     rbind (if \<not> t_hook_enable h then Inr h
            else rbind (FdMgr_get fd False h) (\<lambda>(ctx, _).
              if ctx = None then Inr h
              else rbind (cancelAll ctl fd (h_io h)) (\<lambda>(_, io). FdMgr_del fd (h\<lparr>h_io := io\<rparr>)))) (\<lambda>h1.
     Inr (h1\<lparr>kern := (kern h1)(fd := None)\<rparr>))"

section \<open>Flags and options\<close>

definition hookedSocket :: "int \<Rightarrow> hook \<Rightarrow> fdCtx option result" where
  "hookedSocket fd h =
     rbind (FdMgr_get fd False h) (\<lambda>(ctx, _). Inr (case ctx of Some c \<Rightarrow> if m_isClosed c \<or> \<not> m_isSocket c then None else Some c | None \<Rightarrow> None))"

text \<open>The commands whose third argument is passed on, besides \<open>F_SETFL\<close>: the ones of \<open>F_DUPFD\<close>, \<open>F_DUPFD_CLOEXEC\<close>, \<open>F_SETFD\<close>, \<open>F_SETOWN\<close>,
  \<open>F_SETSIG\<close>, \<open>F_SETLEASE\<close>, \<open>F_NOTIFY\<close>, \<open>F_SETPIPE_SZ\<close>, \<open>F_SETLK\<close>, \<open>F_SETLKW\<close>, \<open>F_GETLK\<close>, \<open>F_GETOWN_EX\<close> and \<open>F_SETOWN_EX\<close>.\<close>

definition with_arg :: "int \<Rightarrow> bool" where
  "with_arg cmd \<longleftrightarrow> cmd \<in> {0, 1030, 2, 8, 10, 1024, 1026, 1031, 6, 7, 5, 16, 15}"

definition hook_fcntl :: "(int \<Rightarrow> 32 word option \<Rightarrow> 32 word) \<Rightarrow> int \<Rightarrow> int \<Rightarrow> 32 word \<Rightarrow> hook \<Rightarrow> (32 word \<times> hook) result" where
  "hook_fcntl other fd cmd arg h =
     (let pass = (\<lambda>a h. let (r, k) = fcntl_f other fd cmd a (kern h) in (r, h\<lparr>kern := k\<rparr>)) in
      if cmd = F_SETFL then
        rbind (hookedSocket fd h) (\<lambda>ctx.
        case ctx of
          None \<Rightarrow> Inr (pass (Some arg) h)
        | Some c \<Rightarrow>
            Inr (pass (Some (if m_sysNonblock c then arg OR O_NONBLOCK else arg AND NOT O_NONBLOCK))
              (ctx_update fd (c\<lparr>m_userNonblock := (arg AND O_NONBLOCK \<noteq> 0)\<rparr>) h)))
      else if cmd = F_GETFL then
        rbind (hookedSocket fd h) (\<lambda>ctx.
        let (r, h1) = pass None h in
        case ctx of
          None \<Rightarrow> Inr (r, h1)
        | Some c \<Rightarrow> Inr (if m_userNonblock c then r OR O_NONBLOCK else r AND NOT O_NONBLOCK, h1))
      else Inr (pass (if with_arg cmd then Some arg else None) h))"

definition hook_ioctl :: "int \<Rightarrow> int \<Rightarrow> int \<Rightarrow> hook \<Rightarrow> (32 word \<times> hook) result" where
  "hook_ioctl d request arg h =
     rbind (if request = FIONBIO then
              rbind (hookedSocket d h) (\<lambda>ctx. Inr (case ctx of None \<Rightarrow> h | Some c \<Rightarrow> ctx_update d (c\<lparr>m_userNonblock := (arg \<noteq> 0)\<rparr>) h))
            else Inr h) (\<lambda>h1.
     let (r, k) = ioctl_f d request arg (kern h1) in Inr (r, h1\<lparr>kern := k\<rparr>))"

text \<open>\<open>setsockopt\<close>, before the original call; \<open>v\<close> is the \<open>timeval\<close>.\<close>

definition hook_setsockopt :: "int \<Rightarrow> int \<Rightarrow> int \<Rightarrow> 64 word \<times> nat \<Rightarrow> hook \<Rightarrow> hook result" where
  "hook_setsockopt sockfd level optname v h =
     (if \<not> t_hook_enable h then Inr h
      else if level = SOL_SOCKET \<and> (optname = SO_RCVTIMEO \<or> optname = SO_SNDTIMEO) then
        rbind (FdMgr_get sockfd False h) (\<lambda>(ctx, _).
        Inr (case ctx of
            None \<Rightarrow> h
          | Some c \<Rightarrow> ctx_update sockfd (setTimeout optname (fst v * 1000 + of_nat (snd v div 1000)) c) h))
      else Inr h)"

unbundle bit_operations_syntax

section \<open>Sockets stay non-blocking\<close>

definition entry_ok :: "kernel \<Rightarrow> int \<Rightarrow> fdCtx \<Rightarrow> bool" where
  "entry_ok k fd c \<longleftrightarrow> \<not> m_isClosed c \<and> m_sysNonblock c = m_isSocket c \<and>
     (\<exists>flags. k fd = Some (m_isSocket c, flags) \<and> (m_isSocket c \<longrightarrow> flags AND O_NONBLOCK \<noteq> 0))"

definition hook_ok :: "hook \<Rightarrow> bool" where
  "hook_ok h \<longleftrightarrow> t_hook_enable h \<and> 64 \<le> length (m_datas h) \<and>
     (\<forall>fd < length (m_datas h). \<forall>c. m_datas h ! fd = Some c \<longrightarrow> entry_ok (kern h) (int fd) c)"

lemma nonblock_bits: "bit O_NONBLOCK n \<longleftrightarrow> n = 11" "bit settable 11" "a AND O_NONBLOCK = 0 \<longleftrightarrow> \<not> bit a 11" for a :: "32 word"
proof -
  have p: "O_NONBLOCK = push_bit 11 1" by (simp add: O_NONBLOCK_def)
  have "bit (push_bit 11 (1 :: 32 word)) n \<longleftrightarrow> 11 \<le> n \<and> possible_bit TYPE(32 word) n \<and> bit (1 :: 32 word) (n - 11)" by (rule bit_push_bit_iff)
  then show "bit O_NONBLOCK n \<longleftrightarrow> n = 11" unfolding p by (auto simp: bit_1_iff)
  show "a AND O_NONBLOCK = 0 \<longleftrightarrow> \<not> bit a 11" unfolding p using bit_iff_and_push_bit_not_eq_0 [of a 11] by simp
qed (simp add: settable_def)

lemma hook_okD:
  assumes "hook_ok h" "m_datas h ! fd = Some c" "fd < length (m_datas h)"
  shows "entry_ok (kern h) (int fd) c"
  using assms by (auto simp: hook_ok_def)

lemma hook_ok_cong:
  "hook_ok h \<Longrightarrow> t_hook_enable h' = t_hook_enable h \<Longrightarrow> m_datas h' = m_datas h \<Longrightarrow> kern h' = kern h \<Longrightarrow> hook_ok h'"
  by (simp add: hook_ok_def)

text \<open>Looking a descriptor up.\<close>

lemma FdMgr_get_False: "FdMgr_get fd False h = Inr (ctx, h') \<Longrightarrow> h' = h"
  by (auto simp: FdMgr_get_def result_simps split: if_splits)

lemma FdMgr_get_Some: "FdMgr_get fd False h = Inr (Some c, h') \<Longrightarrow> 0 \<le> fd \<and> nat fd < length (m_datas h) \<and> m_datas h ! nat fd = Some c"
  by (auto simp: FdMgr_get_def result_simps vget_eq_Inr split: if_splits)

lemma hookedSocket_Some:
  assumes "hookedSocket fd h = Inr (Some c)"
  shows "0 \<le> fd \<and> nat fd < length (m_datas h) \<and> m_datas h ! nat fd = Some c \<and> m_isSocket c \<and> \<not> m_isClosed c"
  using assms FdMgr_get_Some by (fastforce simp: hookedSocket_def result_simps split: option.splits if_splits)

text \<open>Changes of one context, of one descriptor's flags, of one entry.\<close>

lemma entry_ok_flags:
  "entry_ok k fd c \<Longrightarrow> k fd' = Some (sock, flags) \<Longrightarrow> sock \<longrightarrow> flags' AND O_NONBLOCK \<noteq> 0 \<Longrightarrow> entry_ok (k(fd' \<mapsto> (sock, flags'))) fd c"
  by (auto simp: entry_ok_def)

lemma hook_ok_flags:
  assumes "hook_ok h" "kern h fd = Some (sock, flags)" "sock \<longrightarrow> flags' AND O_NONBLOCK \<noteq> 0"
  shows "hook_ok (h\<lparr>kern := (kern h)(fd \<mapsto> (sock, flags'))\<rparr>)"
  using assms(1) entry_ok_flags [where k = "kern h" and fd' = fd] assms(2,3) by (simp add: hook_ok_def)

lemma hook_ok_ctx:
  assumes "hook_ok h" "0 \<le> fd \<and> nat fd < length (m_datas h) \<and> m_datas h ! nat fd = Some c"
    and "m_isSocket c' = m_isSocket c" "m_sysNonblock c' = m_sysNonblock c" "m_isClosed c' = m_isClosed c"
  shows "hook_ok (ctx_update fd c' h)"
proof -
  have "entry_ok (kern h) fd c'" using hook_okD [OF assms(1), of "nat fd" c] assms(2-) by (simp add: entry_ok_def)
  with assms(1,2) show ?thesis by (simp add: hook_ok_def ctx_update_def nth_list_update)
qed

lemma FdCtx_ok:
  assumes "k fd = Some (sock, flags)" "FdCtx fd k = (c, k')"
  shows "entry_ok k' fd c \<and> (\<forall>fd'. fd' \<noteq> fd \<longrightarrow> k' fd' = k fd')"
  using assms by (auto simp: entry_ok_def FdCtx_def fcntl_f_def nonblock_bits bit_simps F_GETFL_def F_SETFL_def split: if_splits)

text \<open>A descriptor that the kernel has just given out.\<close>

lemma FdMgr_get_new:
  assumes "hook_ok h" "kern h fd = None" "0 \<le> fd"
    and "FdMgr_get fd True (h\<lparr>kern := (kern h)(fd \<mapsto> (sock, flags))\<rparr>) = Inr (ctx, h')"
  shows "hook_ok h'"
proof -
  let ?h = "h\<lparr>kern := (kern h)(fd \<mapsto> (sock, flags))\<rparr>"
  let ?n = "nat (fd * 3 div 2) - length (m_datas h)"
  have free: "m_datas h ! nat fd = None" if "nat fd < length (m_datas h)"
    using hook_okD [OF assms(1) _ that] assms(2,3) by (cases "m_datas h ! nat fd") (auto simp: entry_ok_def)
  obtain c k where F: "FdCtx fd (kern ?h) = (c, k)" by fastforce
  define datas where "datas = (if fd \<ge> int (length (m_datas h)) then m_datas h @ replicate ?n None else m_datas h)"
  have h': "nat fd < length datas \<and> h' = h\<lparr>m_datas := datas[nat fd := Some c], kern := k\<rparr>"
    using assms(3,4) free F by (auto simp: FdMgr_get_def result_simps vget_eq_Inr vset_eq_Inr datas_def split: if_splits)
  have k: "entry_ok k fd c" "fd' \<noteq> fd \<Longrightarrow> k fd' = kern h fd'" for fd' using FdCtx_ok [OF _ F, of sock flags] by auto
  have old: "entry_ok k (int i) c'" if "i < length datas" "datas ! i = Some c'" "i \<noteq> nat fd" for i c'
  proof -
    have "i < length (m_datas h)" "m_datas h ! i = Some c'" using that(1,2) by (auto simp: datas_def nth_append split: if_splits)
    from hook_okD [OF assms(1) this(2,1)] k(2) [of "int i"] that(3) assms(3) show ?thesis by (simp add: entry_ok_def)
  qed
  show ?thesis using h' old k(1) assms(1,3) by (auto simp: hook_ok_def nth_list_update datas_def)
qed

lemma hook_socket_ok:
  assumes "hook_ok h" "kern h r = None" "0 \<le> r" "hook_socket r (h\<lparr>kern := (kern h)(r \<mapsto> (True, flags))\<rparr>) = Inr (r', h')"
  shows "hook_ok h'"
proof -
  have "t_hook_enable h" using assms(1) by (simp add: hook_ok_def)
  with assms(4,3) obtain ctx where "FdMgr_get r True (h\<lparr>kern := (kern h)(r \<mapsto> (True, flags))\<rparr>) = Inr (ctx, h')"
    by (auto simp: hook_socket_def result_simps)
  from FdMgr_get_new [OF assms(1-3) this] show ?thesis .
qed

lemma hook_accepted_ok:
  assumes "hook_ok h" "kern h r = None" "0 \<le> r" "hook_accepted r (h\<lparr>kern := (kern h)(r \<mapsto> (True, flags))\<rparr>) = Inr (r', h')"
  shows "hook_ok h'"
proof -
  from assms(4,3) obtain ctx where "FdMgr_get r True (h\<lparr>kern := (kern h)(r \<mapsto> (True, flags))\<rparr>) = Inr (ctx, h')"
    by (auto simp: hook_accepted_def result_simps)
  from FdMgr_get_new [OF assms(1-3) this] show ?thesis .
qed

lemma hook_close_ok:
  assumes "hook_ok h" "0 \<le> fd" "hook_close ctl fd h = Inr h'"
  shows "hook_ok h'"
proof -
  have e: "t_hook_enable h" using assms(1) by (simp add: hook_ok_def)
  have "m_datas h' = (if nat fd < length (m_datas h) then (m_datas h)[nat fd := None] else m_datas h) \<and> kern h' = (kern h)(fd := None) \<and> t_hook_enable h'"
    using assms(2,3) e
    by (auto simp: hook_close_def result_simps FdMgr_get_def FdMgr_del_def vget_eq_Inr vset_eq_Inr list_update_id split: if_splits)
       (metis list_update_id)+
  then show ?thesis using assms(1,2) by (auto simp: hook_ok_def entry_ok_def nth_list_update split: if_splits)
qed


text \<open>The flags after \<open>F_SETFL\<close>; other commands leave them.\<close>

lemma fcntl_f_ok:
  assumes "hook_ok h" "fcntl_f other fd cmd a (kern h) = (r, k)"
    and "\<And>x. cmd = F_SETFL \<Longrightarrow> a = Some x \<Longrightarrow> x AND O_NONBLOCK \<noteq> 0 \<or> (\<forall>flags. kern h fd \<noteq> Some (True, flags))"
  shows "hook_ok (h\<lparr>kern := k\<rparr>)"
proof (cases "\<exists>sock flags x. kern h fd = Some (sock, flags) \<and> cmd = F_SETFL \<and> a = Some x")
  case True
  then obtain sock flags x where k: "kern h fd = Some (sock, flags)" "cmd = F_SETFL" "a = Some x" by blast
  then have "k = (kern h)(fd \<mapsto> (sock, (flags AND NOT settable) OR (x AND settable)))"
    using assms(2) by (simp add: fcntl_f_def F_GETFL_def F_SETFL_def)
  moreover have "sock \<longrightarrow> ((flags AND NOT settable) OR (x AND settable)) AND O_NONBLOCK \<noteq> 0"
    using assms(3) [OF k(2,3)] k(1) by (auto simp: nonblock_bits bit_simps)
  ultimately show ?thesis using hook_ok_flags [OF assms(1) k(1)] by simp
next
  case False
  then have "k = kern h" using assms(2) by (auto simp: fcntl_f_def split: option.splits prod.splits if_splits)
  then show ?thesis using assms(1) by simp
qed

text \<open>A descriptor that the table does not know may be any; a socket it knows is never given a blocking flag.\<close>

lemma hook_fcntl_ok:
  assumes "hook_ok h" "hook_fcntl other fd cmd arg h = Inr (r, h')" "cmd = F_SETFL \<Longrightarrow> \<exists>c. hookedSocket fd h = Inr (Some c)"
  shows "hook_ok h'"
proof (cases "cmd = F_SETFL")
  case True
  then obtain c where c: "hookedSocket fd h = Inr (Some c)" using assms(3) by blast
  note d = hookedSocket_Some [OF c]
  define h1 where "h1 = ctx_update fd (c\<lparr>m_userNonblock := (arg AND O_NONBLOCK \<noteq> 0)\<rparr>) h"
  have "entry_ok (kern h) fd c" using hook_okD [OF assms(1)] d by fastforce
  then have sys: "m_sysNonblock c" using d by (simp add: entry_ok_def)
  have h1: "hook_ok h1" unfolding h1_def by (rule hook_ok_ctx [OF assms(1)]) (use d in auto)
  obtain q k where f: "fcntl_f other fd cmd (Some (arg OR O_NONBLOCK)) (kern h1) = (q, k)" by fastforce
  have "h' = h1\<lparr>kern := k\<rparr>" using assms(2) True c sys f by (simp add: hook_fcntl_def Let_def h1_def)
  moreover have "(arg OR O_NONBLOCK) AND O_NONBLOCK \<noteq> 0" by (simp add: O_NONBLOCK_def)
  ultimately show ?thesis using fcntl_f_ok [OF h1 f] by blast
next
  case False
  then have "\<exists>a. h' = h\<lparr>kern := snd (fcntl_f other fd cmd a (kern h))\<rparr>"
    using assms(2) by (auto simp: hook_fcntl_def Let_def result_simps split_def split: if_splits option.split_asm)
  then show ?thesis using fcntl_f_ok [OF assms(1)] False by (metis prod.collapse)
qed

lemma hook_setsockopt_ok:
  assumes "hook_ok h" "hook_setsockopt fd level optname v h = Inr h'"
  shows "hook_ok h'"
proof (cases "h' = h")
  case False
  then obtain c where "FdMgr_get fd False h = Inr (Some c, h)" "h' = ctx_update fd (setTimeout optname (fst v * 1000 + of_nat (snd v div 1000)) c) h"
    using assms(2) FdMgr_get_False by (fastforce simp: hook_setsockopt_def result_simps split: if_splits option.splits)
  then show ?thesis using hook_ok_ctx [OF assms(1) FdMgr_get_Some] by (simp add: setTimeout_def)
qed (use assms(1) in simp)

text \<open>Waiting touches neither the table nor the kernel.\<close>

definition same_fds :: "hook \<Rightarrow> hook \<Rightarrow> bool" where
  "same_fds h h' \<longleftrightarrow> t_hook_enable h' = t_hook_enable h \<and> m_datas h' = m_datas h \<and> kern h' = kern h"

lemma same_fds_ok: "hook_ok h \<Longrightarrow> same_fds h h' \<Longrightarrow> hook_ok h'"
  using hook_ok_cong by (simp add: same_fds_def)

lemma cancelTimer_same: "cancelTimer timer h = Inr h' \<Longrightarrow> same_fds h h'"
  by (auto simp: cancelTimer_def result_simps same_fds_def split: option.splits)

lemma waitEvent_same: "waitEvent now p ti cur ctl_err fd event to h = Inr (timer, rt, h') \<Longrightarrow> same_fds h h'"
  by (auto simp: waitEvent_def result_simps same_fds_def Let_def split_def split: if_splits)

lemma do_io_try_same: "do_io_try rs now p ti cur ctl_err fd event to h = Inr (s, h') \<Longrightarrow> same_fds h h'"
  by (auto simp: do_io_try_def result_simps same_fds_def split: option.splits if_splits dest!: waitEvent_same cancelTimer_same)

lemma do_io_same: "do_io direct rs now p ti cur ctl_err fd event so h = Inr (s, h') \<Longrightarrow> same_fds h h'"
proof -
  assume "do_io direct rs now p ti cur ctl_err fd event so h = Inr (s, h')"
  then obtain m where "do_io_mode fd so h = Inr m" "(case m of Direct \<Rightarrow> Inr (IoReturn (fst direct) (snd direct), h) | BadFd \<Rightarrow> Inr (IoReturn (-1) EBADF, h)
      | Hooked to \<Rightarrow> do_io_try rs now p ti cur ctl_err fd event to (h\<lparr>tinfos := (tinfos h)(ti \<mapsto> 0)\<rparr>)) = Inr (s, h')"
    by (auto simp: do_io_def result_simps)
  then show ?thesis by (cases m) (auto simp: same_fds_def dest!: do_io_try_same)
qed

lemma do_io_resume_same: "do_io_resume timer rs now p ti cur ctl_err fd event to h = Inr (s, h') \<Longrightarrow> same_fds h h'"
  by (auto simp: do_io_resume_def result_simps same_fds_def Let_def split: if_splits dest!: do_io_try_same cancelTimer_same)

lemma onTimeOut_same: "onTimeOut ctl ti fd event h = Inr h' \<Longrightarrow> same_fds h h'"
  by (auto simp: onTimeOut_def result_simps same_fds_def split: option.splits if_splits)

lemma connect_same: "connect_with_timeout r now p ti cur ctl_err so_error fd to h = Inr (s, h') \<Longrightarrow> same_fds h h'"
  by (auto simp: connect_with_timeout_def result_simps same_fds_def split: option.splits if_splits dest!: waitEvent_same cancelTimer_same)

lemma connect_resume_same: "connect_resume timer ti so_error err h = Inr (s, h') \<Longrightarrow> same_fds h h'"
  by (auto simp: connect_resume_def result_simps same_fds_def Let_def split: if_splits dest!: cancelTimer_same)

section \<open>Runs\<close>

text \<open>The calls of threads with hooks. \<open>F_SETFL\<close> is called on sockets that the table knows; \<open>FIONBIO\<close> is left out.\<close>

inductive hook_run :: "hook \<Rightarrow> bool" where
  created: "hook_run \<lparr>t_hook_enable = True, m_datas = FdManager, kern = k, h_io = io, tinfos = Map.empty\<rparr>"
| opened: "hook_run h'" if "hook_run h" "kern h r = None" "0 \<le> r" "hook_socket r (h\<lparr>kern := (kern h)(r \<mapsto> (True, flags))\<rparr>) = Inr (r', h')"
| accepted: "hook_run h'" if "hook_run h" "kern h r = None" "0 \<le> r" "hook_accepted r (h\<lparr>kern := (kern h)(r \<mapsto> (True, flags))\<rparr>) = Inr (r', h')"
| closed: "hook_run h'" if "hook_run h" "0 \<le> fd" "hook_close ctl fd h = Inr h'"
| flagged: "hook_run h'" if "hook_run h" "cmd = F_SETFL \<Longrightarrow> \<exists>c. hookedSocket fd h = Inr (Some c)" "hook_fcntl other fd cmd arg h = Inr (x, h')"
| option_set: "hook_run h'" if "hook_run h" "hook_setsockopt fd level optname v h = Inr h'"
| called: "hook_run h'" if "hook_run h" "do_io direct rs now p ti cur ctl_err fd event so h = Inr (s, h')"
| resumed: "hook_run h'" if "hook_run h" "do_io_resume timer rs now p ti cur ctl_err fd event to h = Inr (s, h')"
| retried: "hook_run h'" if "hook_run h" "do_io_try rs now p ti cur ctl_err fd event to h = Inr (s, h')"
| timed_out: "hook_run h'" if "hook_run h" "onTimeOut ctl ti fd event h = Inr h'"
| connecting: "hook_run h'" if "hook_run h" "connect_with_timeout r now p ti cur ctl_err so_error fd to h = Inr (s, h')"
| connected: "hook_run h'" if "hook_run h" "connect_resume timer ti so_error err h = Inr (s, h')"
| slept: "hook_run (hooked_sleep now p fiber m h)" if "hook_run h"
| io_changed: "hook_run (h\<lparr>h_io := io\<rparr>)" if "hook_run h"

lemma hook_run_ok: "hook_run h \<Longrightarrow> hook_ok h"
proof (induction rule: hook_run.induct)
  case (created k io)
  show ?case by (simp add: hook_ok_def FdManager_def)
next
  case (slept h now p fiber m)
  then show ?case by (simp add: hooked_sleep_def hook_ok_def)
next
  case (io_changed h io)
  then show ?case by (simp add: hook_ok_def)
qed (blast intro: hook_socket_ok hook_accepted_ok hook_close_ok hook_fcntl_ok hook_setsockopt_ok same_fds_ok do_io_same do_io_resume_same
    do_io_try_same onTimeOut_same connect_same connect_resume_same)+


lemma flags_masked: "((flags AND NOT settable) OR (arg OR O_NONBLOCK) AND settable) OR O_NONBLOCK = ((flags AND NOT settable) OR arg AND settable)"
  if "arg AND O_NONBLOCK \<noteq> 0"
  by (rule bit_word_eqI) (use that in \<open>auto simp: bit_simps nonblock_bits\<close>)

lemma flags_unmasked: "((flags AND NOT settable) OR (arg OR O_NONBLOCK) AND settable) AND NOT O_NONBLOCK = ((flags AND NOT settable) OR arg AND settable)"
  if "arg AND O_NONBLOCK = 0"
  by (rule bit_word_eqI) (use that in \<open>auto simp: bit_simps nonblock_bits\<close>)

text \<open>Flags. On every open descriptor that is in range of the table, \<open>F_GETFL\<close> after \<open>F_SETFL\<close> returns what it would return without the library.\<close>

theorem fcntl_flags_roundtrip:
  assumes "hook_run h" and "0 \<le> fd" and "kern h fd = Some (sock, flags)"
  shows "\<exists>h1 h2. hook_fcntl other fd F_SETFL arg h = Inr (0, h1) \<and>
    hook_fcntl other fd F_GETFL 0 h1 = Inr ((flags AND NOT settable) OR (arg AND settable), h2)"
proof -
  have ne: "F_SETFL \<noteq> F_GETFL" by (simp add: posix_defs)
  let ?f = "\<lambda>a. (flags AND NOT settable) OR (a AND settable)"
  have get: "\<exists>ctx. FdMgr_get fd False h = Inr (ctx, h)" using assms(2) by (auto simp: FdMgr_get_def vget_def)
  then obtain ctx where ctx: "hookedSocket fd h = Inr ctx" by (auto simp: hookedSocket_def)
  show ?thesis
  proof (cases ctx)
    case None
    have "hookedSocket fd (h\<lparr>kern := k\<rparr>) = Inr None" for k
      using ctx None assms(2) by (auto simp: hookedSocket_def FdMgr_get_def result_simps vget_eq_Inr split: if_splits option.splits)
    then show ?thesis using ctx None assms(3) ne by (simp add: hook_fcntl_def Let_def fcntl_f_def)
  next
    case (Some c)
    note d = hookedSocket_Some [OF ctx [unfolded Some]]
    have sys: "m_sysNonblock c" using hook_okD [OF hook_run_ok [OF assms(1)], of "nat fd" c] d by (simp add: entry_ok_def)
    define c' where "c' = c\<lparr>m_userNonblock := (arg AND O_NONBLOCK \<noteq> 0)\<rparr>"
    define h1 where "h1 = (ctx_update fd c' h)\<lparr>kern := (kern h)(fd \<mapsto> (sock, ?f (arg OR O_NONBLOCK)))\<rparr>"
    have "hook_fcntl other fd F_SETFL arg h = Inr (0, h1)"
      using ctx Some sys assms(3) ne by (simp add: hook_fcntl_def Let_def fcntl_f_def h1_def c'_def ctx_update_def)
    moreover have "fd < int (length (m_datas h))" using d by linarith
    then have "hookedSocket fd h1 = Inr (Some c')"
      using d by (simp add: hookedSocket_def FdMgr_get_def vget_def h1_def ctx_update_def c'_def)
    then have "hook_fcntl other fd F_GETFL 0 h1 = Inr (if arg AND O_NONBLOCK \<noteq> 0 then ?f (arg OR O_NONBLOCK) OR O_NONBLOCK else ?f (arg OR O_NONBLOCK) AND NOT O_NONBLOCK, h1)"
      using ne by (simp add: hook_fcntl_def Let_def fcntl_f_def h1_def c'_def)
    ultimately show ?thesis using flags_masked [of arg flags] flags_unmasked [of arg flags] by auto
  qed
qed


text \<open>\<open>FIONBIO\<close>. Unlike \<open>fcntl\<close>, \<open>ioctl\<close> passes the program's choice on to the kernel: after \<open>FIONBIO\<close> with 0 on a socket of the table the
  descriptor is blocking, and \<open>do_io\<close> still relies on \<open>EAGAIN\<close>, so its call blocks the whole thread.\<close>

theorem fionbio_blocks_thread:
  assumes "hook_run h" and "hookedSocket fd h = Inr (Some c)"
  shows "\<exists>r h' flags. hook_ioctl fd FIONBIO 0 h = Inr (r, h') \<and> do_io_mode fd so h' = Inr (Hooked (getTimeout so c)) \<and>
    kern h' fd = Some (True, flags) \<and> flags AND O_NONBLOCK = 0"
proof -
  note d = hookedSocket_Some [OF assms(2)]
  then have l: "fd < int (length (m_datas h))" by linarith
  have ok: "hook_ok h" by (rule hook_run_ok [OF assms(1)])
  then obtain flags where k: "kern h fd = Some (True, flags)" using hook_okD [OF ok, of "nat fd" c] d by (auto simp: entry_ok_def)
  define h' where "h' = (ctx_update fd (c\<lparr>m_userNonblock := False\<rparr>) h)\<lparr>kern := (kern h)(fd \<mapsto> (True, flags AND NOT O_NONBLOCK))\<rparr>"
  have "hook_ioctl fd FIONBIO 0 h = Inr (0, h')" using assms(2) k by (simp add: hook_ioctl_def ioctl_f_def h'_def ctx_update_def)
  moreover have "do_io_mode fd so h' = Inr (Hooked (getTimeout so c))"
    using d l ok by (simp add: do_io_mode_def FdMgr_get_def vget_def h'_def ctx_update_def hook_ok_def getTimeout_def)
  moreover have "(flags AND NOT O_NONBLOCK) AND O_NONBLOCK = 0" by (simp add: nonblock_bits bit_simps)
  then have "kern h' fd = Some (True, flags AND NOT O_NONBLOCK) \<and> (flags AND NOT O_NONBLOCK) AND O_NONBLOCK = 0" by (simp add: h'_def)
  ultimately show ?thesis by blast
qed

text \<open>Time-outs. When the condition timer of a waiting call runs and takes the event back, the fiber of the call is queued once, the event
  is no longer registered, and the resumed call returns -1 with \<open>ETIMEDOUT\<close>, its timer not pending.\<close>

theorem io_times_out:
  assumes "io_run (h_io h)" and "tinfos h ti = Some 0" and "0 \<le> fd" and "nat fd < length (fdContexts (h_io h))" and "event \<in> {READ, WRITE}"
    and "fc_events (fdContexts (h_io h) ! nat fd) AND event \<noteq> 0" and "tm_heap (io_timers (h_io h)) p \<noteq> None"
  shows "\<exists>h1 h2. onTimeOut True ti fd event h = Inr h1 \<and>
    tasks (io_sched (h_io h1)) = tasks (io_sched (h_io h)) @ queued (continuations event (fdContexts (h_io h) ! nat fd)) \<and>
    fc_events (fdContexts (h_io h1) ! nat fd) AND event = 0 \<and>
    do_io_resume (Some p) rs now q ti cur ctl_err fd event to h1 = Inr (IoReturn (-1) ETIMEDOUT, h2) \<and> p \<notin> set (timers (io_timers (h_io h2)))"
proof -
  let ?io = "h_io h" and ?c = "fdContexts (h_io h) ! nat fd"
  have ok: "io_ok ?io" "timers_ok (io_timers ?io)" using io_run_ok [OF assms(1)] by simp_all
  let ?e = "epoll_set (nat fd) (fc_events ?c AND NOT event) ?io"
  have "\<exists>io'. triggerIf True event (nat fd) ?e = Inr io' \<and> fires (if True then event else 0) (nat fd) ?e io'"
    by (rule triggerIf_fires) (use io_okD(2) [OF ok(1) assms(4)] assms(4-6) in simp_all)
  then obtain io1 where io1: "triggerEvent event (nat fd) ?e = Inr io1" and f: "fires event (nat fd) ?e (io1\<lparr>pendingEventCnt := pendingEventCnt io1 - 1\<rparr>)"
    by (auto simp: triggerIf_def result_simps)
  define io2 where "io2 = io1\<lparr>pendingEventCnt := pendingEventCnt io1 - 1\<rparr>"
  have c: "cancelEvent True fd event ?io = Inr (True, io2)"
    using assms(3,4,6) io1 by (simp add: cancelEvent_def vget_def io2_def) 
  define h1 where "h1 = h\<lparr>tinfos := (tinfos h)(ti \<mapsto> ETIMEDOUT), h_io := io2\<rparr>"
  have t: "onTimeOut True ti fd event h = Inr h1" using assms(2) c by (simp add: onTimeOut_def h1_def)
  have tm: "io_timers io2 = io_timers ?io" using f by (simp add: fires_def io2_def)
  obtain t where "tm_heap (io_timers ?io) p = Some t" using assms(7) by blast
  then obtain b tm' where can: "timer_cancel p (io_timers ?io) = Inr (b, tm')" "p \<notin> set (timers tm')" using timer_cancel_ok [OF ok(2)] by blast
  define h2 where "h2 = h1\<lparr>h_io := io2\<lparr>io_timers := tm'\<rparr>, tinfos := (tinfos h1)(ti := None)\<rparr>"
  have "do_io_resume (Some p) rs now q ti cur ctl_err fd event to h1 = Inr (IoReturn (-1) ETIMEDOUT, h2)"
    using can tm by (simp add: do_io_resume_def cancelTimer_def h1_def h2_def ETIMEDOUT_def)
  moreover have "fc_events (fdContexts (h_io h1) ! nat fd) AND event = 0"
    using f assms(4) by (simp add: fires_def clearEvents_def h1_def io2_def bit_eq_iff bit_simps)
  ultimately show ?thesis using t f can(2) by (auto simp: fires_def h1_def h2_def io2_def)
qed

text \<open>Sleeping. A sleep of fewer than \<open>2\<^sup>3\<^sup>2\<close> milliseconds sets a timer for that time, one of more wraps.\<close>

theorem sleep_exact:
  assumes "uint seconds * 1000 < 2 ^ 32"
  shows "uint (sleep_ms seconds) = uint seconds * 1000"
proof -
  have "uint (seconds * 1000) = uint seconds * 1000" using assms by (simp add: uint_word_ariths uint_mod_distrib)
  moreover have "take_bit 64 (uint seconds * 1000) = uint seconds * 1000" by (rule take_bit_int_eq_self) (use assms in simp_all)
  ultimately show ?thesis by (simp add: sleep_ms_def unsigned_ucast_eq)
qed

lemma sleep_wraps: "sleep_ms 4294968 = 704"
  by (simp add: sleep_ms_def)

lemma nanosleep_wraps: "nanosleep_ms 2147484 0 = - 2147483296"
  by (simp add: nanosleep_ms_def)

lemma zero_timeout: "getTimeout SO_RCVTIMEO (setTimeout SO_RCVTIMEO (0 * 1000 + of_nat (0 div 1000)) c) = 0"
  by (simp add: setTimeout_def getTimeout_def)


section \<open>Witnesses\<close>

definition waiting_io :: "hookCb ioManager" where
  "waiting_io = after_add (7, RUNNING) 5 READ None (io_addTimer 100 1 50 (Conditional 3 (TimeOut 3 5 READ)) False
     (IOManager \<lparr>tasks = [], activeThreadCnt = 0, idleThreadCnt = 1, isUseCaller = False, rootThread = -1, threadCnt = 1, isStopped = False\<rparr> 100))"

lemma waiting_io_run: "io_run waiting_io"
  unfolding waiting_io_def by (intro after_add_run io_run.timer_added io_run.created) code_simp

definition fresh_hook :: hook where
  "fresh_hook = \<lparr>t_hook_enable = True, m_datas = FdManager, kern = Map.empty, h_io = waiting_io, tinfos = Map.empty\<rparr>"

text \<open>Socket 5 has been opened in blocking mode, \<open>O_RDWR\<close>.\<close>

definition one_socket :: hook where
  "one_socket = (case hook_socket 5 (fresh_hook\<lparr>kern := (kern fresh_hook)(5 \<mapsto> (True, 2))\<rparr>) of Inr (_, h) \<Rightarrow> h | Inl _ \<Rightarrow> fresh_hook)"

lemma one_socket_run: "hook_run one_socket"
proof -
  have f: "hook_run fresh_hook" unfolding fresh_hook_def by (rule hook_run.created)
  have "kern fresh_hook 5 = None" by (simp add: fresh_hook_def)
  from hook_run.opened [OF f this, of 2] f show ?thesis unfolding one_socket_def by (auto split: sum.split)
qed


theorem fcntl_flags_roundtrip_witness:
  "\<exists>h1 h2. hook_fcntl (\<lambda>_ _. 0) 5 F_SETFL 0xC02 one_socket = Inr (0, h1) \<and> hook_fcntl (\<lambda>_ _. 0) 5 F_GETFL 0 h1 = Inr (0xC02, h2)"
proof -
  have k: "kern one_socket 5 = Some (True, 0x802)" by code_simp
  show ?thesis using fcntl_flags_roundtrip [OF one_socket_run _ k, of "\<lambda>_ _. 0" "0xC02"] by (simp add: settable_def)
qed

theorem fionbio_blocks_thread_witness:
  "\<exists>r h' flags. hook_ioctl 5 FIONBIO 0 one_socket = Inr (r, h') \<and> do_io_mode 5 SO_RCVTIMEO h' = Inr (Hooked (- 1)) \<and>
     kern h' 5 = Some (True, flags) \<and> flags AND O_NONBLOCK = 0"
proof -
  define c where "c = fst (FdCtx 5 [5 \<mapsto> (True, 2)])"
  have "hookedSocket 5 one_socket = Inr (Some c)" "getTimeout SO_RCVTIMEO c = - 1" unfolding c_def by code_simp+
  with fionbio_blocks_thread [OF one_socket_run this(1), of SO_RCVTIMEO] show ?thesis by simp
qed

theorem io_times_out_witness:
  "\<exists>h1 h2. onTimeOut True 3 5 READ (one_socket\<lparr>tinfos := [3 \<mapsto> 0]\<rparr>) = Inr h1 \<and> tasks (io_sched (h_io h1)) = queued [FiberWork 7] \<and>
     do_io_resume (Some 1) [] 150 2 3 (7, RUNNING) 0 5 READ 50 h1 = Inr (IoReturn (-1) ETIMEDOUT, h2)"
proof -
  let ?h = "one_socket\<lparr>tinfos := [3 \<mapsto> 0]\<rparr>"
  have io: "h_io ?h = waiting_io"
    by (simp add: one_socket_def hook_socket_def FdMgr_get_def fresh_hook_def FdManager_def rbind_def vget_def vset_def Let_def split: sum.split prod.split)
  have w: "nat 5 < length (fdContexts waiting_io)" "fc_events (fdContexts waiting_io ! nat 5) AND READ \<noteq> 0" "tm_heap (io_timers waiting_io) 1 \<noteq> None"
    "tasks (io_sched waiting_io) @ queued (continuations READ (fdContexts waiting_io ! nat 5)) = queued [FiberWork 7]"
    by code_simp+
  have "io_run (h_io ?h)" unfolding io by (rule waiting_io_run)
  from io_times_out [OF this, of 3 5 READ 1 "[]" 150 2 "(7, RUNNING)" 0 50, unfolded io] w show ?thesis by (auto simp: event_defs)
qed

theorem sleep_exact_witness: "uint (sleep_ms 60) = 60000 \<and> uint (sleep_ms 4294968) = 704"
  using sleep_exact [of 60] sleep_wraps by simp

end
