(* ===== verification/Middleware.thy ===== *)
theory Middleware
  imports Http Complex_Main
begin

text \<open>
  The middleware of the HTTP server: the two rate limiters and their middleware (\<open>middleware/ratelimiter\<close>), CORS
  (\<open>middleware/cors\<close>), request logging (\<open>middleware/logging\<close>) and the chain (\<open>MiddlewareChain.cpp\<close>). Times are nanoseconds of
  the monotonic clock, passed to every call; the \<open>double\<close> of a token bucket is a rational number, so rounding is left out. A
  middleware that answers a request itself throws the response; logs are the lines that have been written.
\<close>

section \<open>Token bucket\<close>

record tokenBucket =
  capacity :: rat
  tokens_left :: rat
  refillRate :: rat
  lastRefill :: int

definition TokenBucket :: "int \<Rightarrow> rat \<Rightarrow> rat \<Rightarrow> tokenBucket" where
  "TokenBucket now cap rate = \<lparr>capacity = cap, tokens_left = cap, refillRate = rate, lastRefill = now\<rparr>"

definition refill :: "int \<Rightarrow> tokenBucket \<Rightarrow> tokenBucket" where
  "refill now b =
     (let elapsed = rat_of_int (now - lastRefill b) / 1000000000;
          newTokens = elapsed * refillRate b in
      b\<lparr>tokens_left := min (capacity b) (tokens_left b + newTokens), lastRefill := now\<rparr>)"

definition tryConsume :: "int \<Rightarrow> tokenBucket \<Rightarrow> bool \<times> tokenBucket" where
  "tryConsume now b = (let b1 = refill now b in if tokens_left b1 \<ge> 1 then (True, b1\<lparr>tokens_left := tokens_left b1 - 1\<rparr>) else (False, b1))"

section \<open>Sliding window\<close>

record slidingWindow =
  maxRequests :: nat
  windowSize :: int
  requests :: "int list"

definition SlidingWindow :: "nat \<Rightarrow> int \<Rightarrow> slidingWindow" where
  "SlidingWindow n size_ms = \<lparr>maxRequests = n, windowSize = size_ms * 1000000, requests = []\<rparr>"

definition cleanup :: "int \<Rightarrow> slidingWindow \<Rightarrow> slidingWindow" where
  "cleanup now w = w\<lparr>requests := dropWhile (\<lambda>t. t < now - windowSize w) (requests w)\<rparr>"

text \<open>The clock is read twice: in \<open>cleanup\<close> and for the new entry.\<close>

definition tryAccept :: "int \<Rightarrow> int \<Rightarrow> slidingWindow \<Rightarrow> bool \<times> slidingWindow" where
  "tryAccept now now' w =
     (let w1 = cleanup now w in
      if length (requests w1) < maxRequests w1 then (True, w1\<lparr>requests := requests w1 @ [now']\<rparr>) else (False, w1))"

section \<open>Rate limiting\<close>

datatype algorithm = UseTokenBucket | UseSlidingWindow
datatype dimension = Global | PerIP | PerRoute | PerUser

record limiterConfig =
  lc_algorithm :: algorithm
  lc_dimension :: dimension
  lc_bucketCapacity :: rat
  lc_refillRate :: rat
  lc_maxRequests :: nat
  lc_windowSize :: int

record rateLimiter =
  rl_config :: limiterConfig
  rl_routeConfigs :: "(string \<times> limiterConfig) list"
  tokenBuckets :: "string \<rightharpoonup> tokenBucket"
  slidingWindows :: "string \<rightharpoonup> slidingWindow"

definition RateLimiterConfig :: limiterConfig where
  "RateLimiterConfig = \<lparr>lc_algorithm = UseTokenBucket, lc_dimension = PerIP, lc_bucketCapacity = 5, lc_refillRate = 2, lc_maxRequests = 10, lc_windowSize = 30000\<rparr>"

definition RateLimiterMiddleware :: "limiterConfig \<Rightarrow> (string \<times> limiterConfig) list \<Rightarrow> rateLimiter" where
  "RateLimiterMiddleware config routes = \<lparr>rl_config = config, rl_routeConfigs = routes, tokenBuckets = Map.empty, slidingWindows = Map.empty\<rparr>"

definition getLimiterKey :: "httpRequest \<Rightarrow> dimension \<Rightarrow> string" where
  "getLimiterKey req d =
     (case d of Global \<Rightarrow> ''__global__'' | PerIP \<Rightarrow> ''ip:'' @ clientIP req | PerRoute \<Rightarrow> ''route:'' @ path req | PerUser \<Rightarrow> ''user:anonymous'')"

text \<open>The first prefix of the path in the order of the table.\<close>

definition getConfigForRoute :: "string \<Rightarrow> rateLimiter \<Rightarrow> limiterConfig" where
  "getConfigForRoute p rl = (case find (\<lambda>(r, _). str_find r p = Some 0) (rl_routeConfigs rl) of Some (_, c) \<Rightarrow> c | None \<Rightarrow> rl_config rl)"

definition getOrCreateLimiter :: "int \<Rightarrow> string \<Rightarrow> limiterConfig \<Rightarrow> rateLimiter \<Rightarrow> rateLimiter" where
  "getOrCreateLimiter now key config rl =
     (if lc_algorithm config = UseTokenBucket then
        if tokenBuckets rl key = None
        then rl\<lparr>tokenBuckets := (tokenBuckets rl)(key \<mapsto> TokenBucket now (lc_bucketCapacity config) (lc_refillRate config))\<rparr> else rl
      else
        if slidingWindows rl key = None
        then rl\<lparr>slidingWindows := (slidingWindows rl)(key \<mapsto> SlidingWindow (lc_maxRequests config) (lc_windowSize config))\<rparr> else rl)"

definition isAllowed :: "int \<Rightarrow> int \<Rightarrow> string \<Rightarrow> limiterConfig \<Rightarrow> rateLimiter \<Rightarrow> bool \<times> rateLimiter" where
  "isAllowed now now' key config rl =
     (let rl1 = getOrCreateLimiter now key config rl in
      if lc_algorithm config = UseTokenBucket then
        (let (ok, b) = tryConsume now' (the (tokenBuckets rl1 key)) in (ok, rl1\<lparr>tokenBuckets := (tokenBuckets rl1)(key \<mapsto> b)\<rparr>))
      else
        (let (ok, w) = tryAccept now now' (the (slidingWindows rl1 key)) in (ok, rl1\<lparr>slidingWindows := (slidingWindows rl1)(key \<mapsto> w)\<rparr>)))"

definition tooManyRequests :: "httpRequest \<Rightarrow> httpResponse" where
  "tooManyRequests req =
     resp_addHeader ''Retry-After'' ''60'' ((setContentType ''text/plain''
       ((HttpResponse True)\<lparr>httpVersion := version req, statusCode := 429, statusMessage := ''Too Many Requests''\<rparr>))
       \<lparr>body := ''Too Many Requests. Please try again later.''\<rparr>)"

text \<open>\<open>Some\<close> is the response that is thrown.\<close>

definition limiter_before :: "int \<Rightarrow> int \<Rightarrow> httpRequest \<Rightarrow> rateLimiter \<Rightarrow> httpResponse option \<times> rateLimiter" where
  "limiter_before now now' req rl =
     (let requestConfig = getConfigForRoute (path req) rl;
          key = getLimiterKey req (lc_dimension requestConfig);
          (ok, rl1) = isAllowed now now' key requestConfig rl in
      (if ok then None else Some (tooManyRequests req), rl1))"

section \<open>CORS\<close>

record corsConfig =
  allowedOrigins :: "string list"
  allowedMethods :: "string list"
  allowedHeaders :: "string list"
  allowCredentials :: bool
  maxAge :: int

definition CorsConfig :: corsConfig where
  "CorsConfig = \<lparr>allowedOrigins = [''*''], allowedMethods = [''GET'', ''POST'', ''PUT'', ''DELETE'', ''OPTIONS''],
     allowedHeaders = [''Content-Type'', ''Authorization''], allowCredentials = False, maxAge = 3600\<rparr>"

fun join :: "string list \<Rightarrow> string \<Rightarrow> string" where
  "join [] delimiter = []"
| "join [s] delimiter = s"
| "join (s # ss) delimiter = s @ delimiter @ join ss delimiter"

definition isOriginAllowed :: "string \<Rightarrow> corsConfig \<Rightarrow> bool" where
  "isOriginAllowed origin c \<longleftrightarrow> allowedOrigins c = [] \<or> ''*'' \<in> set (allowedOrigins c) \<or> origin \<in> set (allowedOrigins c)"

definition addCorsHeaders :: "string \<Rightarrow> corsConfig \<Rightarrow> httpResponse \<Rightarrow> httpResponse" where
  "addCorsHeaders origin c resp =
     (let r1 = resp_addHeader ''Access-Control-Allow-Origin'' origin resp;
          r2 = (if allowCredentials c then resp_addHeader ''Access-Control-Allow-Credentials'' ''true'' r1 else r1);
          r3 = (if allowedMethods c \<noteq> [] then resp_addHeader ''Access-Control-Allow-Methods'' (join (allowedMethods c) '', '') r2 else r2);
          r4 = (if allowedHeaders c \<noteq> [] then resp_addHeader ''Access-Control-Allow-Headers'' (join (allowedHeaders c) '', '') r3 else r3) in
      resp_addHeader ''Access-Control-Max-Age'' (to_string (maxAge c)) r4)"

definition handlePreflightRequest :: "httpRequest \<Rightarrow> corsConfig \<Rightarrow> httpResponse \<Rightarrow> httpResponse" where
  "handlePreflightRequest req c resp =
     (let origin = getHeader ''Origin'' req in
      if \<not> isOriginAllowed origin c then resp\<lparr>statusCode := 403\<rparr>
      else (addCorsHeaders origin c resp)\<lparr>statusCode := 204\<rparr>)"

definition cors_before :: "httpRequest \<Rightarrow> corsConfig \<Rightarrow> httpResponse option" where
  "cors_before req c = (if req_method req = kOptions then Some (handlePreflightRequest req c (HttpResponse True)) else None)"

definition cors_after :: "corsConfig \<Rightarrow> httpResponse \<Rightarrow> httpResponse" where
  "cors_after c resp =
     (if allowedOrigins c \<noteq> [] then
        if ''*'' \<in> set (allowedOrigins c) then addCorsHeaders ''*'' c resp else addCorsHeaders (hd (allowedOrigins c)) c resp
      else resp)"

section \<open>Logging\<close>

datatype logOutput = ToConsole | ToFile | ToBoth

record requestInfo =
  ri_method :: string
  ri_path :: string
  ri_statusCode :: int
  ri_responseTime :: rat
  ri_clientIP :: string
  ri_userAgent :: string
  ri_start :: int

record logging =
  log_text :: bool
  log_output :: logOutput
  excludedPaths :: "string list"
  currentRequest :: requestInfo
  log_async :: bool
  log_console :: "string list"
  log_file :: "string list"

text \<open>The constructor: \<open>dir_ok\<close> says whether the directory of the file exists or could be created.\<close>

definition RequestLoggingMiddleware :: "bool \<Rightarrow> bool \<Rightarrow> logOutput \<Rightarrow> string list \<Rightarrow> logging" where
  "RequestLoggingMiddleware dir_ok text out excluded =
     \<lparr>log_text = text, log_output = out, excludedPaths = excluded,
      currentRequest = \<lparr>ri_method = [], ri_path = [], ri_statusCode = 0, ri_responseTime = 0, ri_clientIP = [], ri_userAgent = [], ri_start = 0\<rparr>,
      log_async = (out \<in> {ToFile, ToBoth} \<and> dir_ok), log_console = [], log_file = []\<rparr>"

definition method_name :: "http_method \<Rightarrow> string" where
  "method_name m =
     (case m of kGet \<Rightarrow> ''GET'' | kPost \<Rightarrow> ''POST'' | kHead \<Rightarrow> ''HEAD'' | kPut \<Rightarrow> ''PUT'' | kDelete \<Rightarrow> ''DELETE'' | _ \<Rightarrow> ''UNKNOWN'')"

definition logging_before :: "int \<Rightarrow> httpRequest \<Rightarrow> logging \<Rightarrow> logging" where
  "logging_before now req l =
     l\<lparr>currentRequest := (currentRequest l)\<lparr>ri_method := method_name (req_method req), ri_path := path req, ri_start := now,
        ri_clientIP := getHeader ''X-Forwarded-For'' req, ri_userAgent := getHeader ''User-Agent'' req\<rparr>\<rparr>"

definition shouldExclude :: "string \<Rightarrow> logging \<Rightarrow> bool" where
  "shouldExclude p l \<longleftrightarrow> p \<in> set (excludedPaths l)"

text \<open>\<open>fixed2\<close> prints a number with two digits after the point, \<open>dump\<close> the JSON object of the fields; both are library functions.\<close>

record logLib =
  fixed2 :: "rat \<Rightarrow> string"
  log_dump :: "requestInfo \<Rightarrow> string"

definition formatTextLog :: "logLib \<Rightarrow> requestInfo \<Rightarrow> string" where
  "formatTextLog lib info =
     ri_method info @ '' '' @ ri_path info @ '' '' @ to_string (ri_statusCode info) @ '' '' @ fixed2 lib (ri_responseTime info) @ ''ms'' @ '' '' @ ri_clientIP info"

definition writeToFile :: "string \<Rightarrow> logging \<Rightarrow> logging" where
  "writeToFile line l = (if log_async l then l\<lparr>log_file := log_file l @ [line]\<rparr> else l)"

definition writeLog :: "string \<Rightarrow> logging \<Rightarrow> logging" where
  "writeLog line l =
     (let l1 = (if log_output l \<in> {ToConsole, ToBoth} then l\<lparr>log_console := log_console l @ [line]\<rparr> else l) in
      if log_output l1 \<in> {ToFile, ToBoth} then writeToFile line l1 else l1)"

definition logging_after :: "logLib \<Rightarrow> int \<Rightarrow> httpResponse \<Rightarrow> logging \<Rightarrow> logging" where
  "logging_after lib now resp l =
     (let info = (currentRequest l)\<lparr>ri_statusCode := statusCode resp, ri_responseTime := rat_of_int (now - ri_start (currentRequest l)) / 1000000\<rparr>;
          l1 = l\<lparr>currentRequest := info\<rparr> in
      if \<not> shouldExclude (ri_path info) l1
      then writeLog (if log_text l1 then formatTextLog lib info else log_dump lib info) l1 else l1)"

section \<open>The chain\<close>

datatype middleware = Cors corsConfig | Limiter rateLimiter | Logging logging

record clock =
  ck_lib :: logLib
  ck_now :: int
  ck_now' :: int

definition mw_before :: "clock \<Rightarrow> httpRequest \<Rightarrow> middleware \<Rightarrow> httpResponse option \<times> middleware" where
  "mw_before ck req m =
     (case m of
        Cors c \<Rightarrow> (cors_before req c, m)
      | Limiter rl \<Rightarrow> (let (t, rl1) = limiter_before (ck_now ck) (ck_now' ck) req rl in (t, Limiter rl1))
      | Logging l \<Rightarrow> (None, Logging (logging_before (ck_now ck) req l)))"

definition mw_after :: "clock \<Rightarrow> httpResponse \<Rightarrow> middleware \<Rightarrow> httpResponse \<times> middleware" where
  "mw_after ck resp m =
     (case m of
        Cors c \<Rightarrow> (cors_after c resp, m)
      | Limiter rl \<Rightarrow> (resp, m)
      | Logging l \<Rightarrow> (resp, Logging (logging_after (ck_lib ck) (ck_now' ck) resp l)))"

definition addMiddleware :: "middleware \<Rightarrow> middleware list \<Rightarrow> middleware list" where
  "addMiddleware m ms = ms @ [m]"

text \<open>A response that a middleware throws ends the loop.\<close>

fun processBefore :: "clock \<Rightarrow> httpRequest \<Rightarrow> middleware list \<Rightarrow> httpResponse option \<times> middleware list" where
  "processBefore ck req [] = (None, [])"
| "processBefore ck req (m # ms) =
     (case mw_before ck req m of
        (Some r, m1) \<Rightarrow> (Some r, m1 # ms)
      | (None, m1) \<Rightarrow> (let (t, ms1) = processBefore ck req ms in (t, m1 # ms1)))"

text \<open>From the last to the first.\<close>

fun processAfter :: "clock \<Rightarrow> httpResponse \<Rightarrow> middleware list \<Rightarrow> httpResponse \<times> middleware list" where
  "processAfter ck resp [] = (resp, [])"
| "processAfter ck resp (m # ms) =
     (let (resp1, ms1) = processAfter ck resp ms; (resp2, m1) = mw_after ck resp1 m in (resp2, m1 # ms1))"

text \<open>\<open>initializeMiddleware\<close> of the game server.\<close>

definition initializeMiddleware :: "bool \<Rightarrow> middleware list" where
  "initializeMiddleware dir_ok =
     addMiddleware (Cors CorsConfig) (addMiddleware (Limiter (RateLimiterMiddleware RateLimiterConfig []))
       (addMiddleware (Logging (RequestLoggingMiddleware dir_ok True ToBoth [''/health'', ''/favicon.ico''])) []))"

section \<open>Token buckets bound the rate\<close>

definition seconds :: "int \<Rightarrow> rat" where
  "seconds ns = rat_of_int ns / 1000000000"

lemma seconds_add: "seconds (a - b) = seconds (a - c) + seconds (c - b)" "0 \<le> d \<Longrightarrow> 0 \<le> seconds d"
  by (simp_all add: seconds_def add_divide_distrib [symmetric])

definition bucket_ok :: "int \<Rightarrow> tokenBucket \<Rightarrow> bool" where
  "bucket_ok t b \<longleftrightarrow> 0 \<le> refillRate b \<and> 0 \<le> tokens_left b \<and> tokens_left b \<le> capacity b \<and> lastRefill b \<le> t"

text \<open>What the bucket would hold at a later time: the potential of the amortised argument.\<close>

definition level :: "int \<Rightarrow> tokenBucket \<Rightarrow> rat" where
  "level t b = min (capacity b) (tokens_left b + seconds (t - lastRefill b) * refillRate b)"

lemma tokens_refill: "tokens_left (refill now b) = level now b"
  by (simp add: refill_def level_def seconds_def Let_def)

lemma level_bounds: "bucket_ok t b \<Longrightarrow> 0 \<le> level t b" "level t b \<le> capacity b"
  using seconds_add(2) by (auto simp: level_def bucket_ok_def)

lemma level_grows: "bucket_ok t b \<Longrightarrow> t \<le> t' \<Longrightarrow> level t' b \<le> level t b + seconds (t' - t) * refillRate b"
proof -
  assume "bucket_ok t b" "t \<le> t'"
  then have "0 \<le> seconds (t' - t) * refillRate b" using seconds_add(2) by (simp add: bucket_ok_def)
  moreover have "seconds (t' - lastRefill b) * refillRate b = seconds (t' - t) * refillRate b + seconds (t - lastRefill b) * refillRate b"
    using seconds_add(1) [of t' "lastRefill b" t] by (simp add: distrib_right)
  ultimately show ?thesis by (simp add: level_def min_def)
qed

lemma tryConsume_level:
  assumes "tryConsume now b = (ok, b')" and "bucket_ok t b" and "t \<le> now"
  shows "of_bool ok + level now b' \<le> level t b + seconds (now - t) * refillRate b" and "bucket_ok now b'" and "capacity b' = capacity b"
    and "refillRate b' = refillRate b"
proof -
  have b': "b' = (refill now b)\<lparr>tokens_left := level now b - of_bool ok\<rparr>" "ok \<longleftrightarrow> level now b \<ge> 1"
    using assms(1) by (auto simp: tryConsume_def Let_def tokens_refill [symmetric] split: if_splits)
  have c: "capacity (refill now b) = capacity b" "refillRate (refill now b) = refillRate b" "lastRefill (refill now b) = now"
    by (simp_all add: refill_def Let_def)
  show "capacity b' = capacity b" "refillRate b' = refillRate b" using b'(1) c by simp_all
  have "bucket_ok now b" using assms(2,3) by (simp add: bucket_ok_def)
  from level_bounds(1) [OF this] level_bounds(2) [of now b] show "bucket_ok now b'"
    using assms(2) b' c by (auto simp: bucket_ok_def of_bool_def)
  have "level now b' \<le> level now b - of_bool ok" using b'(1) c by (simp add: level_def seconds_def)
  with level_grows [OF assms(2,3)] show "of_bool ok + level now b' \<le> level t b + seconds (now - t) * refillRate b" by simp
qed

text \<open>The requests of a stretch of time, each with the two readings of the clock, and how many a client got through.\<close>

fun admitted :: "string \<Rightarrow> (int \<times> int \<times> httpRequest) list \<Rightarrow> rateLimiter \<Rightarrow> nat \<times> rateLimiter" where
  "admitted ip [] rl = (0, rl)"
| "admitted ip ((now, now', req) # rs) rl =
     (let (t, rl1) = limiter_before now now' req rl; (n, rl2) = admitted ip rs rl1 in
      ((if t = None \<and> clientIP req = ip then 1 else 0) + n, rl2))"

fun in_order :: "int \<Rightarrow> (int \<times> int \<times> httpRequest) list \<Rightarrow> int \<Rightarrow> bool" where
  "in_order a [] b \<longleftrightarrow> a \<le> b"
| "in_order a ((now, now', req) # rs) b \<longleftrightarrow> a \<le> now \<and> now \<le> now' \<and> in_order now' rs b"

definition limiter_ok :: "int \<Rightarrow> rateLimiter \<Rightarrow> bool" where
  "limiter_ok t rl \<longleftrightarrow> lc_algorithm (rl_config rl) = UseTokenBucket \<and> lc_dimension (rl_config rl) = PerIP \<and> rl_routeConfigs rl = [] \<and>
     0 \<le> lc_refillRate (rl_config rl) \<and> 0 \<le> lc_bucketCapacity (rl_config rl) \<and>
     (\<forall>key b. tokenBuckets rl key = Some b \<longrightarrow> bucket_ok t b \<and> capacity b = lc_bucketCapacity (rl_config rl) \<and> refillRate b = lc_refillRate (rl_config rl))"

definition client_level :: "int \<Rightarrow> string \<Rightarrow> rateLimiter \<Rightarrow> rat" where
  "client_level t ip rl = (case tokenBuckets rl (''ip:'' @ ip) of Some b \<Rightarrow> level t b | None \<Rightarrow> lc_bucketCapacity (rl_config rl))"

lemma limiter_okD:
  assumes "limiter_ok t rl" and "tokenBuckets rl key = Some b"
  shows "bucket_ok t b" "capacity b = lc_bucketCapacity (rl_config rl)" "refillRate b = lc_refillRate (rl_config rl)"
  using assms by (auto simp: limiter_ok_def)

lemma client_level_grows:
  assumes "limiter_ok t rl" "t \<le> t'"
  shows "client_level t' ip rl \<le> client_level t ip rl + seconds (t' - t) * lc_refillRate (rl_config rl)"
proof (cases "tokenBuckets rl (''ip:'' @ ip)")
  case None
  have "0 \<le> seconds (t' - t) * lc_refillRate (rl_config rl)" using seconds_add(2) [of "t' - t"] assms by (simp add: limiter_ok_def)
  then show ?thesis using None by (simp add: client_level_def)
next
  case (Some b)
  show ?thesis using level_grows [OF limiter_okD(1) [OF assms(1) Some] assms(2)] limiter_okD(3) [OF assms(1) Some] Some by (simp add: client_level_def)
qed

lemma client_level_bounds:
  assumes "limiter_ok t rl" shows "0 \<le> client_level t ip rl" "client_level t ip rl \<le> lc_bucketCapacity (rl_config rl)"
proof -
  have "0 \<le> client_level t ip rl \<and> client_level t ip rl \<le> lc_bucketCapacity (rl_config rl)"
  proof (cases "tokenBuckets rl (''ip:'' @ ip)")
    case None
    then show ?thesis using assms by (simp add: client_level_def limiter_ok_def)
  next
    case (Some b)
    note d = limiter_okD [OF assms Some]
    show ?thesis using level_bounds(1) [OF d(1)] level_bounds(2) [of t b] d(2) Some by (simp add: client_level_def)
  qed
  then show "0 \<le> client_level t ip rl" "client_level t ip rl \<le> lc_bucketCapacity (rl_config rl)" by simp_all
qed

lemma limiter_ok_later: "limiter_ok t rl \<Longrightarrow> t \<le> t' \<Longrightarrow> limiter_ok t' rl"
  by (force simp: limiter_ok_def bucket_ok_def)

lemma limiter_step:
  assumes "limiter_ok t rl" and "limiter_before now now' req rl = (thrown, rl')" and "t \<le> now" "now \<le> now'"
  shows "limiter_ok now' rl' \<and> rl_config rl' = rl_config rl \<and>
    (if thrown = None \<and> clientIP req = ip then 1 else 0) + client_level now' ip rl' \<le> client_level t ip rl + seconds (now' - t) * lc_refillRate (rl_config rl)"
proof -
  let ?c = "rl_config rl" and ?key = "''ip:'' @ clientIP req"
  define b where "b = (case tokenBuckets rl ?key of Some b \<Rightarrow> b | None \<Rightarrow> TokenBucket now (lc_bucketCapacity ?c) (lc_refillRate ?c))"
  have ok': "limiter_ok now rl" using limiter_ok_later [OF assms(1,3)] .
  have conf: "getConfigForRoute (path req) rl = ?c" using assms(1) by (simp add: getConfigForRoute_def limiter_ok_def)
  obtain ok b' where tc: "tryConsume now' b = (ok, b')" by fastforce
  have s: "thrown = (if ok then None else Some (tooManyRequests req))" "rl' = rl\<lparr>tokenBuckets := (tokenBuckets rl)(?key \<mapsto> b')\<rparr>"
    using assms(1,2) tc
    by (auto simp: limiter_before_def conf limiter_ok_def getLimiterKey_def isAllowed_def getOrCreateLimiter_def b_def Let_def split: option.splits)
  have b: "bucket_ok now b" "capacity b = lc_bucketCapacity ?c" "refillRate b = lc_refillRate ?c" "level now b = client_level now (clientIP req) rl"
    using ok' limiter_okD [OF ok'] by (auto simp: b_def client_level_def limiter_ok_def TokenBucket_def bucket_ok_def level_def seconds_def split: option.split)
  note step = tryConsume_level [OF tc b(1) assms(4)]
  have l': "limiter_ok now' rl'" using limiter_ok_later [OF ok' assms(4)] step(2-4) b by (auto simp: s limiter_ok_def)
  have "(if thrown = None \<and> clientIP req = ip then 1 else 0) + client_level now' ip rl' \<le> client_level now ip rl + seconds (now' - now) * lc_refillRate ?c"
  proof (cases "clientIP req = ip")
    case True
    then have "client_level now' ip rl' = level now' b'" by (simp add: client_level_def s)
    then show ?thesis using step(1) True b(3,4) by (cases ok) (simp_all add: s)
  next
    case False
    then have "client_level now' ip rl' = client_level now' ip rl" by (simp add: client_level_def s split: option.split)
    then show ?thesis using False client_level_grows [OF ok' assms(4)] by simp
  qed
  moreover have "seconds (now' - t) = seconds (now' - now) + seconds (now - t)" by (rule seconds_add(1))
  ultimately show ?thesis using client_level_grows [OF assms(1,3), of ip] l' s by (simp add: distrib_right split: if_splits)
qed

lemma admitted_bound:
  assumes "limiter_ok a rl" and "in_order a rs b" and "admitted ip rs rl = (n, rl')"
  shows "limiter_ok b rl' \<and> rl_config rl' = rl_config rl \<and> of_nat n + client_level b ip rl' \<le> client_level a ip rl + seconds (b - a) * lc_refillRate (rl_config rl)"
  using assms
proof (induction ip rs rl arbitrary: a n rule: admitted.induct)
  case (1 ip rl)
  then show ?case using client_level_grows [of a rl b ip] limiter_ok_later [of a rl b] by simp
next
  case (2 ip now now' req rs rl)
  obtain t rl1 where l: "limiter_before now now' req rl = (t, rl1)" by fastforce
  obtain m where m: "admitted ip rs rl1 = (m, rl')" "n = (if t = None \<and> clientIP req = ip then 1 else 0) + m"
    using "2.prems"(3) l by (auto simp: Let_def split: prod.splits)
  have o: "a \<le> now" "now \<le> now'" "in_order now' rs b" using "2.prems"(2) by simp_all
  note s = limiter_step [OF "2.prems"(1) l o(1,2), of ip]
  note ih = "2.IH" [OF l [symmetric] refl _ o(3) m(1)]
  have "seconds (b - a) = seconds (b - now') + seconds (now' - a)" by (rule seconds_add(1))
  then show ?case using s ih m(2) by (auto simp: distrib_right split: if_splits)
qed

text \<open>C37: Rate limit. With the server's configuration (a token bucket of 5 per address, 2 per second), whatever was requested before, the requests
  of one address that the limiter lets through between two times are at most 5 plus 2 for every second between them.\<close>

theorem rate_limit_holds:
  assumes "in_order start earlier a" and "admitted ip earlier (RateLimiterMiddleware RateLimiterConfig []) = (m, rl)"
    and "in_order a rs b" and "admitted ip rs rl = (n, rl')"
  shows "of_nat n \<le> 5 + 2 * seconds (b - a)"
proof -
  have "limiter_ok start (RateLimiterMiddleware RateLimiterConfig [])" by (simp add: limiter_ok_def RateLimiterMiddleware_def RateLimiterConfig_def)
  from admitted_bound [OF this assms(1,2)] have rl: "limiter_ok a rl" "rl_config rl = RateLimiterConfig" by (auto simp: RateLimiterMiddleware_def)
  note l = admitted_bound [OF rl(1) assms(3,4)]
  show ?thesis using l client_level_bounds(2) [OF rl(1), of ip] client_level_bounds(1) [OF conjunct1 [OF l], of ip] rl(2) by (simp add: RateLimiterConfig_def)
qed


section \<open>Sliding windows bound every window\<close>

text \<open>The times at which requests were accepted, oldest first, over a sequence of calls.\<close>

fun accepted :: "(int \<times> int) list \<Rightarrow> slidingWindow \<Rightarrow> int list \<times> slidingWindow" where
  "accepted [] w = ([], w)"
| "accepted ((now, now') # ts) w =
     (let (ok, w1) = tryAccept now now' w; (as, w2) = accepted ts w1 in (if ok then now' # as else as, w2))"

fun increasing :: "int \<Rightarrow> (int \<times> int) list \<Rightarrow> bool" where
  "increasing a [] \<longleftrightarrow> True"
| "increasing a ((now, now') # ts) \<longleftrightarrow> a \<le> now \<and> now \<le> now' \<and> increasing now' ts"

text \<open>With \<open>past\<close> the accepted times so far: the queue holds all of them that can still count, and no window holds more than the maximum.\<close>

definition in_window :: "slidingWindow \<Rightarrow> int \<Rightarrow> int list \<Rightarrow> nat" where
  "in_window w u past = length (filter (\<lambda>s. u - windowSize w \<le> s \<and> s \<le> u) past)"

definition window_ok :: "int \<Rightarrow> int list \<Rightarrow> slidingWindow \<Rightarrow> bool" where
  "window_ok t past w \<longleftrightarrow> (\<exists>old. past = old @ requests w \<and> (\<forall>s \<in> set old. s < t - windowSize w)) \<and> (\<forall>u. in_window w u past \<le> maxRequests w)"

lemma tryAccept_ok:
  assumes "window_ok t past w" and "t \<le> now" "now \<le> now'" and "tryAccept now now' w = (ok, w')"
  shows "window_ok now' (if ok then past @ [now'] else past) w' \<and> windowSize w' = windowSize w \<and> maxRequests w' = maxRequests w"
proof -
  let ?old = "\<lambda>s. s < now - windowSize w"
  obtain old where old: "past = old @ requests w" "\<forall>s \<in> set old. s < t - windowSize w" using assms(1) by (auto simp: window_ok_def)
  define past0 where "past0 = old @ takeWhile ?old (requests w)"
  define rest where "rest = dropWhile ?old (requests w)"
  have past: "past = past0 @ rest" by (simp add: old(1) past0_def rest_def)
  have p0: "\<forall>s \<in> set past0. s < now' - windowSize w" using old(2) assms(2,3) by (fastforce simp: past0_def dest: set_takeWhileD)
  have le: "in_window w u past \<le> maxRequests w" for u using assms(1) by (simp add: window_ok_def)
  have w': "w' = w\<lparr>requests := (if ok then rest @ [now'] else rest)\<rparr>" "ok \<longleftrightarrow> length rest < maxRequests w"
    using assms(4) by (auto simp: tryAccept_def cleanup_def rest_def Let_def split: if_splits)
  have "in_window w' u (past @ [now']) \<le> maxRequests w" if ok for u
  proof (cases "u - windowSize w \<le> now' \<and> now' \<le> u")
    case True
    then have "filter (\<lambda>s. u - windowSize w \<le> s \<and> s \<le> u) past0 = []" using p0 by (auto simp: filter_empty_conv)
    then have "in_window w' u (past @ [now']) \<le> length rest + 1"
      using w'(1) length_filter_le [of "\<lambda>s. u - windowSize w \<le> s \<and> s \<le> u" rest] by (simp add: in_window_def past le_SucI)
    then show ?thesis using w'(2) that by simp
  next
    case False
    then show ?thesis using le [of u] w'(1) by (auto simp: in_window_def)
  qed
  then show ?thesis using p0 past le w' by (auto simp: window_ok_def in_window_def intro!: exI [of _ past0])
qed

lemma accepted_ok:
  assumes "window_ok t past w" and "increasing t ts" and "accepted ts w = (as, w')"
  shows "(\<forall>u. in_window w u (past @ as) \<le> maxRequests w)"
  using assms
proof (induction ts w arbitrary: t past as rule: accepted.induct)
  case (1 w)
  then show ?case by (simp add: window_ok_def)
next
  case (2 now now' ts w)
  obtain ok w1 where a: "tryAccept now now' w = (ok, w1)" by fastforce
  obtain as1 where r: "accepted ts w1 = (as1, w')" "as = (if ok then now' # as1 else as1)"
    using "2.prems"(3) a by (auto simp: Let_def split: prod.splits)
  have o: "t \<le> now" "now \<le> now'" "increasing now' ts" using "2.prems"(2) by simp_all
  note s = tryAccept_ok [OF "2.prems"(1) o(1,2) a]
  have "in_window w1 u ((if ok then past @ [now'] else past) @ as1) \<le> maxRequests w1" for u
    using "2.IH" [OF a [symmetric] refl _ o(3) r(1)] s by blast
  then show ?case using s r(2) by (cases ok) (simp_all add: in_window_def)
qed

text \<open>Sliding window. Whatever the times of the calls, no interval of the length of the window contains more accepted requests than the maximum.\<close>

theorem sliding_window_holds:
  assumes "increasing t ts" and "accepted ts (SlidingWindow n size_ms) = (as, w)"
  shows "length (filter (\<lambda>s. u - size_ms * 1000000 \<le> s \<and> s \<le> u) as) \<le> n"
proof -
  have "window_ok t [] (SlidingWindow n size_ms)" by (simp add: window_ok_def SlidingWindow_def in_window_def)
  from accepted_ok [OF this assms] show ?thesis by (simp add: in_window_def SlidingWindow_def)
qed

section \<open>Limits of a route\<close>

text \<open>The limits of a route. The limiter of a client is found by its address alone: once a request to any other page has created it, a stricter
  limit configured for a route does not apply to that client.\<close>

theorem route_limit_shared:
  assumes "lc_algorithm general = UseTokenBucket" and "lc_dimension general = PerIP" and "lc_algorithm strict = UseTokenBucket" and "lc_dimension strict = PerIP"
    and "clientIP req2 = clientIP req1" and "str_find route (path req1) \<noteq> Some 0" and "str_find route (path req2) = Some 0"
    and "limiter_before now now1 req1 (RateLimiterMiddleware general [(route, strict)]) = (t1, rl1)"
    and "limiter_before now2 now3 req2 rl1 = (t2, rl2)"
  shows "\<exists>b. tokenBuckets rl2 (''ip:'' @ clientIP req2) = Some b \<and> capacity b = lc_bucketCapacity general \<and> refillRate b = lc_refillRate general"
proof -
  have c: "capacity (snd (tryConsume x b)) = capacity b" "refillRate (snd (tryConsume x b)) = refillRate b" for x b
    by (simp_all add: tryConsume_def refill_def Let_def)
  let ?b = "TokenBucket now (lc_bucketCapacity general) (lc_refillRate general)"
  have 1: "tokenBuckets rl1 = [''ip:'' @ clientIP req1 \<mapsto> snd (tryConsume now1 ?b)]" "rl_config rl1 = general" "rl_routeConfigs rl1 = [(route, strict)]"
    using assms(1,2,6,8) by (auto simp: limiter_before_def getConfigForRoute_def RateLimiterMiddleware_def getLimiterKey_def isAllowed_def getOrCreateLimiter_def
        Let_def split_def)
  then have "tokenBuckets rl2 = [''ip:'' @ clientIP req1 \<mapsto> snd (tryConsume now3 (snd (tryConsume now1 ?b)))]"
    using assms(3,4,5,7,9) by (auto simp: limiter_before_def getConfigForRoute_def getLimiterKey_def isAllowed_def getOrCreateLimiter_def Let_def split_def)
  then show ?thesis using c assms(5) by (simp add: TokenBucket_def)
qed

section \<open>Witnesses\<close>

definition from_ip :: "string \<Rightarrow> string \<Rightarrow> httpRequest" where
  "from_ip ip p = HttpRequest\<lparr>req_method := kGet, path := p, clientIP := ip\<rparr>"

definition burst :: "(int \<times> int \<times> httpRequest) list" where
  "burst = replicate 8 (20, 20, from_ip ''1.2.3.4'' ''/menu'') @ [(20, 30, from_ip ''5.6.7.8'' ''/menu'')]"

theorem rate_limit_holds_witness: "fst (admitted ''1.2.3.4'' burst (RateLimiterMiddleware RateLimiterConfig [])) = 5 \<and> (5 :: rat) \<le> 5 + 2 * seconds 100"
proof -
  let ?rl = "RateLimiterMiddleware RateLimiterConfig []"
  obtain n rl' where a: "admitted ''1.2.3.4'' burst ?rl = (n, rl')" by fastforce
  have "fst (admitted ''1.2.3.4'' burst ?rl) = 5" by code_simp
  moreover have "in_order 0 [] 0" "in_order 0 burst 100" by code_simp+
  ultimately show ?thesis using rate_limit_holds [OF \<open>in_order 0 [] 0\<close>, of "''1.2.3.4''" 0 ?rl burst 100 n rl'] a by simp
qed

theorem sliding_window_holds_witness:
  "length (filter (\<lambda>s. 0 \<le> s \<and> s \<le> 30000000000) (fst (accepted (replicate 12 (6, 6)) (SlidingWindow 10 30000)))) \<le> 10 \<and>
   length (fst (accepted (replicate 12 (6, 6)) (SlidingWindow 10 30000))) = 10"
proof -
  obtain as w where a: "accepted (replicate 12 (6, 6)) (SlidingWindow 10 30000) = (as, w)" by fastforce
  have "length (fst (accepted (replicate 12 (6, 6)) (SlidingWindow 10 30000))) = 10" "increasing 0 (replicate 12 (6, 6))" by code_simp+
  with sliding_window_holds [OF this(2) a, of 30000000000] a show ?thesis by simp
qed

theorem route_limit_shared_witness:
  "\<exists>b rl. snd (limiter_before 30 40 (from_ip ''1.2.3.4'' ''/login'') (snd (limiter_before 10 20 (from_ip ''1.2.3.4'' ''/menu'')
     (RateLimiterMiddleware RateLimiterConfig [(''/login'', RateLimiterConfig\<lparr>lc_bucketCapacity := 1\<rparr>)])))) = rl \<and>
     tokenBuckets rl ''ip:1.2.3.4'' = Some b \<and> capacity b = 5"
proof -
  let ?rl = "RateLimiterMiddleware RateLimiterConfig [(''/login'', RateLimiterConfig\<lparr>lc_bucketCapacity := 1\<rparr>)]"
  obtain t1 rl1 where a: "limiter_before 10 20 (from_ip ''1.2.3.4'' ''/menu'') ?rl = (t1, rl1)" by fastforce
  obtain t2 rl2 where b: "limiter_before 30 40 (from_ip ''1.2.3.4'' ''/login'') rl1 = (t2, rl2)" by fastforce
  have p: "str_find ''/login'' (path (from_ip ''1.2.3.4'' ''/menu'')) \<noteq> Some 0" "str_find ''/login'' (path (from_ip ''1.2.3.4'' ''/login'')) = Some 0" by code_simp+
  show ?thesis using route_limit_shared [OF _ _ _ _ _ p a b] a b by (auto simp: RateLimiterConfig_def from_ip_def)
qed

end
