(* ===== verification/Router.thy ===== *)
theory Router
  imports Http
begin

text \<open>
  The router of the HTTP server (\<open>router/Router.h\<close>, \<open>Router.cpp\<close>). A handler is a value of any type. The regular expressions
  that \<open>convertToRegex\<close> builds from a path pattern are lists of tokens: a literal character, or the group \<open>([^/]+)\<close> that stands
  where the pattern has \<open>/:name\<close>. A pattern with further characters that are special in a regular expression is not modelled
  (\<open>None\<close>). A group is always followed by a slash or by the end, so that a match never has to be given up and the matcher takes
  the whole segment.
\<close>

section \<open>Patterns\<close>

datatype routeToken = Lit char | Param

definition regex_special :: "char \<Rightarrow> bool" where
  "regex_special c \<longleftrightarrow> c \<in> set ''.[]{}()*+?|^$'' \<or> c = CHR 0x5C"

abbreviation slash :: char where
  "slash \<equiv> CHR ''/''"

text \<open>\<open>regex_replace(pathPattern, "/:([^/]+)", "/([^/]+)")\<close>\<close>

function convertToRegex :: "string \<Rightarrow> routeToken list option" where
  "convertToRegex [] = Some []"
| "convertToRegex (c # cs) =
     (if c = slash \<and> cs \<noteq> [] \<and> hd cs = CHR '':'' \<and> tl cs \<noteq> [] \<and> hd (tl cs) \<noteq> slash
      then map_option (\<lambda>ts. Lit slash # Param # ts) (convertToRegex (dropWhile (\<lambda>x. x \<noteq> slash) (tl cs)))
      else if regex_special c then None
      else map_option (\<lambda>ts. Lit c # ts) (convertToRegex cs))"
  by pat_completeness auto
termination
proof (relation "measure length")
  show "(dropWhile (\<lambda>x. x \<noteq> slash) (tl cs), c # cs) \<in> measure length" for c cs
    using length_dropWhile_le [of "\<lambda>x. x \<noteq> slash" "tl cs"] by simp
qed simp_all

text \<open>\<open>regex_match\<close>: the groups of a match.\<close>

fun regex_match :: "routeToken list \<Rightarrow> string \<Rightarrow> string list option" where
  "regex_match [] s = (if s = [] then Some [] else None)"
| "regex_match (Lit c # ts) s = (case s of x # xs \<Rightarrow> if x = c then regex_match ts xs else None | [] \<Rightarrow> None)"
| "regex_match (Param # ts) s =
     (let seg = takeWhile (\<lambda>x. x \<noteq> slash) s in
      if seg = [] then None else map_option (\<lambda>vs. seg # vs) (regex_match ts (dropWhile (\<lambda>x. x \<noteq> slash) s)))"

fun extractFrom :: "nat \<Rightarrow> string list \<Rightarrow> httpRequest \<Rightarrow> httpRequest" where
  "extractFrom i [] req = req"
| "extractFrom i (v # vs) req = extractFrom (i + 1) vs (setPathParameters (''param'' @ to_string (int i)) v req)"

definition extractPathParameters :: "string list \<Rightarrow> httpRequest \<Rightarrow> httpRequest" where
  "extractPathParameters vs req = extractFrom 1 vs req"

section \<open>Routes\<close>

record 'h router =
  static_handlers :: "http_method \<times> string \<rightharpoonup> 'h"
  static_callbacks :: "http_method \<times> string \<rightharpoonup> 'h"
  regexHandlers :: "(http_method \<times> routeToken list \<times> 'h) list"
  regexCallbacks :: "(http_method \<times> routeToken list \<times> 'h) list"

definition Router :: "'h router" where
  "Router = \<lparr>static_handlers = Map.empty, static_callbacks = Map.empty, regexHandlers = [], regexCallbacks = []\<rparr>"

definition registerHandler :: "http_method \<Rightarrow> string \<Rightarrow> 'h \<Rightarrow> 'h router \<Rightarrow> 'h router" where
  "registerHandler m p h r = r\<lparr>static_handlers := (static_handlers r)((m, p) \<mapsto> h)\<rparr>"

definition registerCallback :: "http_method \<Rightarrow> string \<Rightarrow> 'h \<Rightarrow> 'h router \<Rightarrow> 'h router" where
  "registerCallback m p h r = r\<lparr>static_callbacks := (static_callbacks r)((m, p) \<mapsto> h)\<rparr>"

definition addRegexHandler :: "http_method \<Rightarrow> string \<Rightarrow> 'h \<Rightarrow> 'h router \<Rightarrow> 'h router option" where
  "addRegexHandler m p h r = map_option (\<lambda>ts. r\<lparr>regexHandlers := regexHandlers r @ [(m, ts, h)]\<rparr>) (convertToRegex p)"

definition addRegexCallback :: "http_method \<Rightarrow> string \<Rightarrow> 'h \<Rightarrow> 'h router \<Rightarrow> 'h router option" where
  "addRegexCallback m p h r = map_option (\<lambda>ts. r\<lparr>regexCallbacks := regexCallbacks r @ [(m, ts, h)]\<rparr>) (convertToRegex p)"

text \<open>The loop over dynamic routes: the first one of the method that matches, with the parameters added to a copy of the request.\<close>

fun searchRegex :: "(http_method \<times> routeToken list \<times> 'h) list \<Rightarrow> httpRequest \<Rightarrow> ('h \<times> httpRequest) option" where
  "searchRegex [] req = None"
| "searchRegex ((m, ts, h) # rs) req =
     (if m = req_method req
      then (case regex_match ts (path req) of Some vs \<Rightarrow> Some (h, extractPathParameters vs req) | None \<Rightarrow> searchRegex rs req)
      else searchRegex rs req)"

text \<open>\<open>route\<close>: the handler that is called and the request it is given; \<open>None\<close> is \<open>false\<close>.\<close>

definition route :: "httpRequest \<Rightarrow> 'h router \<Rightarrow> ('h \<times> httpRequest) option" where
  "route req r =
     (case static_handlers r (req_method req, path req) of
        Some h \<Rightarrow> Some (h, req)
      | None \<Rightarrow>
          (case static_callbacks r (req_method req, path req) of
             Some h \<Rightarrow> Some (h, req)
           | None \<Rightarrow>
               (case searchRegex (regexHandlers r) req of
                  Some x \<Rightarrow> Some x
                | None \<Rightarrow> searchRegex (regexCallbacks r) req)))"

section \<open>Path parameters\<close>

text \<open>A pattern with values for its groups; values are non-empty and have no slash.\<close>

fun fill :: "routeToken list \<Rightarrow> string list \<Rightarrow> string" where
  "fill [] vs = []"
| "fill (Lit c # ts) vs = c # fill ts vs"
| "fill (Param # ts) (v # vs) = v @ fill ts vs"
| "fill (Param # ts) [] = []"

definition params :: "routeToken list \<Rightarrow> nat" where
  "params ts = length (filter (\<lambda>t. t = Param) ts)"

definition segment :: "string \<Rightarrow> bool" where
  "segment v \<longleftrightarrow> v \<noteq> [] \<and> slash \<notin> set v"

text \<open>Every group is followed by a slash or by the end.\<close>

fun groups_end :: "routeToken list \<Rightarrow> bool" where
  "groups_end [] \<longleftrightarrow> True"
| "groups_end [t] \<longleftrightarrow> True"
| "groups_end (t # u # ts) \<longleftrightarrow> (t = Param \<longrightarrow> u = Lit slash) \<and> groups_end (u # ts)"

lemma groups_end_cons: "groups_end (t # ts) \<longleftrightarrow> groups_end ts \<and> (t = Param \<longrightarrow> ts = [] \<or> hd ts = Lit slash)"
  by (cases ts) auto

lemma convert_groups:
  "convertToRegex cs = Some ts \<Longrightarrow> groups_end ts \<and> (cs = [] \<or> hd cs = slash \<longrightarrow> ts = [] \<or> hd ts = Lit slash)"
proof (induction cs arbitrary: ts rule: convertToRegex.induct)
  case (2 c cs)
  let ?rest = "dropWhile (\<lambda>x. x \<noteq> slash) (tl cs)"
  have r: "?rest = [] \<or> hd ?rest = slash" using hd_dropWhile [of "\<lambda>x. x \<noteq> slash" "tl cs"] by auto
  show ?case
  proof (cases "c = slash \<and> cs \<noteq> [] \<and> hd cs = CHR '':'' \<and> tl cs \<noteq> [] \<and> hd (tl cs) \<noteq> slash")
    case True
    then obtain ts1 where "convertToRegex ?rest = Some ts1" "ts = Lit slash # Param # ts1" using "2.prems" by auto
    then show ?thesis using "2.IH"(1) [OF True] r by (auto simp: groups_end_cons)
  next
    case False
    then obtain ts1 where "\<not> regex_special c" "convertToRegex cs = Some ts1" "ts = Lit c # ts1" using "2.prems" by (auto simp del: convertToRegex.simps simp: convertToRegex.simps(2) split: if_splits)
    then show ?thesis using "2.IH"(2) [OF False] by (auto simp: groups_end_cons)
  qed
qed simp

lemma takeWhile_segment: "slash \<notin> set v \<Longrightarrow> s = [] \<or> hd s = slash \<Longrightarrow> takeWhile (\<lambda>x. x \<noteq> slash) (v @ s) = v \<and> dropWhile (\<lambda>x. x \<noteq> slash) (v @ s) = s"
  by (induction v) (cases s; auto)+

lemma fill_starts: "ts = [] \<or> hd ts = Lit slash \<Longrightarrow> fill ts vs = [] \<or> hd (fill ts vs) = slash"
  by (cases ts) auto

text \<open>A path matches exactly when it is the pattern with its groups filled in, and the groups are the captures.\<close>

lemma regex_match_iff:
  "groups_end ts \<Longrightarrow> regex_match ts s = Some vs \<longleftrightarrow> s = fill ts vs \<and> length vs = params ts \<and> (\<forall>v \<in> set vs. segment v)"
proof (induction ts s arbitrary: vs rule: regex_match.induct)
  case (2 c ts s)
  then show ?case by (cases s) (auto simp: params_def groups_end_cons)
next
  case (3 ts s)
  let ?seg = "takeWhile (\<lambda>x. x \<noteq> slash) s" and ?rest = "dropWhile (\<lambda>x. x \<noteq> slash) s"
  have g: "groups_end ts" "ts = [] \<or> hd ts = Lit slash" using "3.prems" by (auto simp: groups_end_cons)
  have ns: "slash \<notin> set ?seg" using set_takeWhileD by fastforce
  show ?case
  proof
    assume "regex_match (Param # ts) s = Some vs"
    then obtain ws where ws: "?seg \<noteq> []" "vs = ?seg # ws" "regex_match ts ?rest = Some ws" by (auto simp: Let_def split: if_splits)
    then have "?rest = fill ts ws \<and> length ws = params ts \<and> (\<forall>v \<in> set ws. segment v)" using "3.IH" [OF refl _ g(1)] by blast
    then show "s = fill (Param # ts) vs \<and> length vs = params (Param # ts) \<and> (\<forall>v \<in> set vs. segment v)"
      using ws ns takeWhile_dropWhile_id [of "\<lambda>x. x \<noteq> slash" s] by (auto simp: params_def segment_def)
  next
    assume r: "s = fill (Param # ts) vs \<and> length vs = params (Param # ts) \<and> (\<forall>v \<in> set vs. segment v)"
    then obtain v ws where v: "vs = v # ws" by (cases vs) (auto simp: params_def)
    have s: "?seg = v" "?rest = fill ts ws" "v \<noteq> []"
      using takeWhile_segment [of v "fill ts ws"] fill_starts [OF g(2), of ws] r v by (auto simp: segment_def)
    then have "regex_match ts ?rest = Some ws" using "3.IH" [OF refl _ g(1)] r v by (auto simp: params_def)
    then show "regex_match (Param # ts) s = Some vs" using s v by simp
  qed
qed (auto simp: params_def)

lemma to_string_inj: "to_string i = to_string j \<longleftrightarrow> i = j"
proof
  assume "to_string i = to_string j"
  then have "parse_int (to_string i @ []) = parse_int (to_string j @ [])" by simp
  then show "i = j" using parse_to_string [of "[]"] by simp
qed simp

lemma extractFrom_param:
  "pathParameters (extractFrom i vs req) (''param'' @ to_string (int j)) =
     (if i \<le> j \<and> j < i + length vs then Some (vs ! (j - i)) else pathParameters req (''param'' @ to_string (int j)))"
proof (induction i vs req rule: extractFrom.induct)
  case (2 i v vs req)
  then show ?case by (auto simp: setPathParameters_def to_string_inj nth_Cons Suc_le_eq split: nat.split) (metis Suc_diff_Suc diff_Suc_1)
qed auto

lemma searchRegex_append: "searchRegex (xs @ ys) req = (case searchRegex xs req of Some x \<Rightarrow> Some x | None \<Rightarrow> searchRegex ys req)"
  by (induction xs req rule: searchRegex.induct) (auto split: option.split)

text \<open>Dynamic routes. A pattern such as \<open>/user/:id/move/:n\<close> matches exactly the paths with a non-empty segment in the place of each name. Where no
  static route has the path and no earlier pattern matches, its handler is called with the segments as \<open>param1\<close>, \<open>param2\<close>, and so on; a path of another form is
  routed as if the pattern had not been registered.\<close>

theorem route_parameters:
  assumes "convertToRegex pat = Some ts" and "regexHandlers r = before @ (req_method req, ts, h) # after"
    and "static_handlers r (req_method req, path req) = None" and "static_callbacks r (req_method req, path req) = None"
    and "searchRegex before req = None"
  shows "if \<exists>vs. path req = fill ts vs \<and> length vs = params ts \<and> (\<forall>v \<in> set vs. segment v)
    then \<exists>vs req'. path req = fill ts vs \<and> length vs = params ts \<and> route req r = Some (h, req') \<and>
      (\<forall>i < length vs. getPathParameters (''param'' @ to_string (int (i + 1))) req' = vs ! i)
    else route req r = route req (r\<lparr>regexHandlers := before @ after\<rparr>)"
proof -
  have g: "groups_end ts" using convert_groups [OF assms(1)] by simp
  note m = regex_match_iff [OF g, of "path req"]
  show ?thesis
  proof (cases "regex_match ts (path req)")
    case None
    then have "\<not> (\<exists>vs. path req = fill ts vs \<and> length vs = params ts \<and> (\<forall>v \<in> set vs. segment v))" using m by fastforce
    moreover have "route req r = route req (r\<lparr>regexHandlers := before @ after\<rparr>)"
      using None assms(2-) by (simp add: route_def searchRegex_append split: option.split)
    ultimately show ?thesis by (simp only: if_False)
  next
    case (Some vs)
    have "route req r = Some (h, extractPathParameters vs req)" using Some assms(2-) by (simp add: route_def searchRegex_append)
    moreover have "getPathParameters (''param'' @ to_string (int (i + 1))) (extractPathParameters vs req) = vs ! i" if "i < length vs" for i
      using that extractFrom_param [of 1 vs req "i + 1"] by (simp add: getPathParameters_def extractPathParameters_def)
    moreover have ok: "path req = fill ts vs \<and> length vs = params ts \<and> (\<forall>v \<in> set vs. segment v)" using m Some by blast
    ultimately show ?thesis by (subst if_P) blast+
  qed
qed

definition user_router :: "string router" where
  "user_router = the (addRegexHandler kGet ''/user/:id/move/:n'' ''moves'' (registerHandler kGet ''/user/7/move/best'' ''best'' Router))"

theorem route_parameters_witness:
  "\<exists>req'. route (HttpRequest\<lparr>req_method := kGet, path := ''/user/42/move/9''\<rparr>) user_router = Some (''moves'', req') \<and>
     getPathParameters ''param1'' req' = ''42''"
proof -
  let ?req = "HttpRequest\<lparr>req_method := kGet, path := ''/user/42/move/9''\<rparr>" and ?ts = "the (convertToRegex ''/user/:id/move/:n'')"
  have c: "convertToRegex ''/user/:id/move/:n'' = Some ?ts" "regexHandlers user_router = [] @ (req_method ?req, ?ts, ''moves'') # []"
    "static_handlers user_router (req_method ?req, path ?req) = None" "static_callbacks user_router (req_method ?req, path ?req) = None"
    by code_simp+
  have f: "path ?req = fill ?ts [''42'', ''9'']" "length [''42'', ''9''] = params ?ts" "\<forall>v \<in> set [''42'', ''9'']. segment v" by code_simp+
  then have ex: "\<exists>vs. path ?req = fill ?ts vs \<and> length vs = params ?ts \<and> (\<forall>v \<in> set vs. segment v)" by blast
  obtain req' where r: "route ?req user_router = Some (''moves'', req')"
    using route_parameters [OF c searchRegex.simps(1), unfolded if_P [OF ex]] by blast
  have "getPathParameters ''param1'' (snd (the (route ?req user_router))) = ''42''" by code_simp
  with r show ?thesis by simp
qed

end
