(* ===== verification/Tls.thy ===== *)
theory Tls
  imports Strings
begin

text \<open>
  The TLS layer of a connection (\<open>ssl/SslConnection.cpp\<close>). OpenSSL is the record \<open>sslLib\<close> of functions on an engine of any
  type: the memory BIOs, the handshake, reading and writing. The loops over it are partial: \<open>None\<close> means that the loop does not
  end. What is sent to the TCP connection is a list of pieces. \<open>bio_ok\<close> states what the documentation of the memory BIO promises.
\<close>

datatype sslState = HANDSHAKE | ESTABLISHED | SHUTDOWN | ERROR
datatype sslRead = SslData string | SslWant | SslClosed | SslFailed

text \<open>The result of the handshake: its return value, and whether the error is \<open>SSL_ERROR_WANT_READ\<close> or \<open>SSL_ERROR_WANT_WRITE\<close>.\<close>

record 'e sslLib =
  BIO_write :: "string \<Rightarrow> 'e \<Rightarrow> 'e"
  BIO_pending :: "'e \<Rightarrow> nat"
  BIO_read :: "nat \<Rightarrow> 'e \<Rightarrow> string \<times> 'e"
  SSL_do_handshake :: "'e \<Rightarrow> int \<times> bool \<times> 'e"
  SSL_read :: "'e \<Rightarrow> sslRead \<times> 'e"
  SSL_write :: "string \<Rightarrow> 'e \<Rightarrow> int \<times> 'e"

record 'e sslConnection =
  ssl :: 'e
  ssl_state :: sslState
  decryptedBuffer :: string
  cntHandshake :: nat

definition SslConnection :: "'e \<Rightarrow> 'e sslConnection" where
  "SslConnection e = \<lparr>ssl = e, ssl_state = HANDSHAKE, decryptedBuffer = [], cntHandshake = 0\<rparr>"

definition isHandshakeCompleted :: "'e sslConnection \<Rightarrow> bool" where
  "isHandshakeCompleted s \<longleftrightarrow> ssl_state s = ESTABLISHED"

text \<open>\<open>while ((pending = BIO_pending(writeBio_)) > 0)\<close>: pieces of at most 4096 bytes.\<close>

partial_function (option) flushWriteBio :: "'e sslLib \<Rightarrow> string list \<Rightarrow> 'e \<Rightarrow> (string list \<times> 'e) option" where
  [code]: "flushWriteBio lib out e =
     (if BIO_pending lib e > 0 then
        let (buf, e1) = BIO_read lib (min (BIO_pending lib e) 4096) e in
        flushWriteBio lib (if buf \<noteq> [] then out @ [buf] else out) e1
      else Some (out, e))"

text \<open>\<open>while ((ret = SSL_read(\<dots>)) > 0)\<close>: the decrypted buffer and how the loop ended.\<close>

partial_function (option) readLoop :: "'e sslLib \<Rightarrow> string \<Rightarrow> 'e \<Rightarrow> (string \<times> sslRead \<times> 'e) option" where
  [code]: "readLoop lib ds e =
     (case SSL_read lib e of
        (r, e1) \<Rightarrow> (case r of SslData d \<Rightarrow> readLoop lib (ds @ d) e1 | _ \<Rightarrow> Some (ds, r, e1)))"

text \<open>The results: what goes to the TCP connection, whether it is shut down, and the connection.\<close>

definition handleHandshake :: "'e sslLib \<Rightarrow> 'e sslConnection \<Rightarrow> (string list \<times> bool \<times> 'e sslConnection) option" where
  "handleHandshake lib s =
     (let (ret, want, e1) = SSL_do_handshake lib (ssl s) in
      case flushWriteBio lib [] e1 of
        None \<Rightarrow> None
      | Some (out, e2) \<Rightarrow>
          let s1 = s\<lparr>ssl := e2, cntHandshake := cntHandshake s + 1\<rparr> in
          if ret = 1 then Some (out, False, s1\<lparr>ssl_state := ESTABLISHED\<rparr>) else Some (out, \<not> want, s1))"

text \<open>The data phase of \<open>onRead\<close>: what is left of the input is fed to the engine, and the plain text is read.\<close>

definition readData :: "'e sslLib \<Rightarrow> string \<Rightarrow> 'e sslConnection \<Rightarrow> (bool \<times> 'e sslConnection) option" where
  "readData lib buf s =
     (let e1 = (if buf \<noteq> [] then BIO_write lib buf (ssl s) else ssl s) in
      case readLoop lib (decryptedBuffer s) e1 of
        None \<Rightarrow> None
      | Some (ds, r, e2) \<Rightarrow> Some (r = SslFailed, s\<lparr>ssl := e2, decryptedBuffer := ds\<rparr>))"

definition onRead :: "'e sslLib \<Rightarrow> string \<Rightarrow> 'e sslConnection \<Rightarrow> (string \<times> string list \<times> bool \<times> 'e sslConnection) option" where
  "onRead lib buf s =
     (if ssl_state s = HANDSHAKE then
        let s1 = (if buf \<noteq> [] then s\<lparr>ssl := BIO_write lib buf (ssl s)\<rparr> else s) in
        (case handleHandshake lib s1 of
           None \<Rightarrow> None
         | Some (out, shut, s2) \<Rightarrow>
             if ssl_state s2 \<noteq> ESTABLISHED then Some ([], out, shut, s2)
             else (case readData lib [] s2 of None \<Rightarrow> None | Some (shut2, s3) \<Rightarrow> Some ([], out, shut \<or> shut2, s3)))
      else if ssl_state s = ESTABLISHED then
        (case readData lib buf s of None \<Rightarrow> None | Some (shut, s1) \<Rightarrow> Some ([], [], shut, s1))
      else Some (buf, [], False, s))"

definition ssl_send :: "'e sslLib \<Rightarrow> string \<Rightarrow> 'e sslConnection \<Rightarrow> (string list \<times> 'e sslConnection) option" where
  "ssl_send lib d s =
     (if ssl_state s \<noteq> ESTABLISHED then Some ([], s)
      else
        let (written, e1) = SSL_write lib d (ssl s) in
        if written \<noteq> int (length d) then Some ([], s\<lparr>ssl := e1\<rparr>)
        else (case flushWriteBio lib [] e1 of None \<Rightarrow> None | Some (out, e2) \<Rightarrow> Some (out, s\<lparr>ssl := e2\<rparr>)))"

section \<open>Flushing\<close>

text \<open>A memory BIO is a queue of bytes: \<open>content\<close> is what the write BIO of an engine holds.\<close>

definition bio_ok :: "'e sslLib \<Rightarrow> ('e \<Rightarrow> string) \<Rightarrow> bool" where
  "bio_ok lib content \<longleftrightarrow> (\<forall>e. BIO_pending lib e = length (content e)) \<and>
     (\<forall>e n. n \<le> length (content e) \<longrightarrow> (\<exists>e'. BIO_read lib n e = (take n (content e), e') \<and> content e' = drop n (content e)))"

lemma flush_all:
  assumes "bio_ok lib content"
  shows "\<exists>out e'. flushWriteBio lib sent e = Some (sent @ out, e') \<and> concat out = content e \<and> content e' = [] \<and> (\<forall>p \<in> set out. p \<noteq> [] \<and> length p \<le> 4096)"
proof (induction "length (content e)" arbitrary: e sent rule: less_induct)
  case less
  let ?n = "min (length (content e)) 4096"
  have p: "BIO_pending lib e = length (content e)" using assms by (simp add: bio_ok_def)
  show ?case
  proof (cases "content e = []")
    case True
    then show ?thesis using p by (subst flushWriteBio.simps) simp
  next
    case False
    obtain e1 where r: "BIO_read lib ?n e = (take ?n (content e), e1)" "content e1 = drop ?n (content e)"
      using assms unfolding bio_ok_def by (metis min.cobounded1)
    have "length (content e1) < length (content e)" using False r(2) by simp
    then obtain out e' where ih: "flushWriteBio lib (sent @ [take ?n (content e)]) e1 = Some ((sent @ [take ?n (content e)]) @ out, e')"
        "concat out = content e1" "content e' = []" "\<forall>p \<in> set out. p \<noteq> [] \<and> length p \<le> 4096"
      using less by blast
    have "flushWriteBio lib sent e = Some (sent @ take ?n (content e) # out, e')"
      using False p r(1) ih(1) by (subst flushWriteBio.simps) simp
    moreover have "take ?n (content e) @ concat out = content e" using ih(2) r(2) by simp
    ultimately show ?thesis using ih(3,4) False by (intro exI [of _ "take ?n (content e) # out"] exI [of _ e']) auto
  qed
qed

text \<open>Sending over TLS. On an established connection a response that OpenSSL takes whole reaches the TCP connection as exactly the bytes that OpenSSL
  made of it, in order, in pieces of at most 4096 bytes, and nothing stays behind; the loop ends.\<close>

theorem tls_send_complete:
  assumes "bio_ok lib content" and "ssl_state s = ESTABLISHED" and "SSL_write lib d (ssl s) = (int (length d), e1)"
  shows "\<exists>out s'. ssl_send lib d s = Some (out, s') \<and> concat out = content e1 \<and> content (ssl s') = [] \<and> (\<forall>p \<in> set out. p \<noteq> [] \<and> length p \<le> 4096)"
proof -
  obtain out e' where f: "flushWriteBio lib [] e1 = Some (out, e')" "concat out = content e1" "content e' = []" "\<forall>p \<in> set out. p \<noteq> [] \<and> length p \<le> 4096"
    using flush_all [OF assms(1), of "[]" e1] by auto
  then have "ssl_send lib d s = Some (out, s\<lparr>ssl := e'\<rparr>)" using assms(2,3) by (simp add: ssl_send_def)
  with f(2-) show ?thesis by simp
qed

text \<open>A library whose write BIO is the first string: writing puts the plain text there.\<close>

definition plain_lib :: "(string \<times> string) sslLib" where
  "plain_lib = \<lparr>BIO_write = (\<lambda>b (w, r). (w, r @ b)), BIO_pending = (\<lambda>(w, r). length w), BIO_read = (\<lambda>n (w, r). (take n w, (drop n w, r))),
     SSL_do_handshake = (\<lambda>e. (1, False, e)), SSL_read = (\<lambda>(w, r). if r = [] then (SslWant, (w, r)) else (SslData r, (w, []))),
     SSL_write = (\<lambda>d (w, r). (int (length d), (w @ d, r)))\<rparr>"

theorem tls_send_complete_witness:
  "\<exists>out s'. ssl_send plain_lib ''hello'' ((SslConnection ([], []))\<lparr>ssl_state := ESTABLISHED\<rparr>) = Some (out, s') \<and> concat out = ''hello''"
proof -
  have "bio_ok plain_lib fst" by (auto simp: bio_ok_def plain_lib_def)
  from tls_send_complete [OF this, of "(SslConnection ([], []))\<lparr>ssl_state := ESTABLISHED\<rparr>" "''hello''"] show ?thesis
    by (auto simp: plain_lib_def SslConnection_def)
qed

end
