(* ===== verification/HttpServer.thy ===== *)
theory HttpServer
  imports Middleware Router WsServer Tls
begin

text \<open>
  The HTTP server (\<open>http/HttpServer.cpp\<close>): what it does when a connection opens, closes or has data, from the TLS layer and the parser
  through the middleware and the router to the response. \<open>app\<close> is the state of the application with the handlers of its routes, given by
  the function \<open>handle\<close>: it gets a request, the response so far and the state with the WebSocket server, and returns them changed, or
  throws; \<open>hw_get\<close> and \<open>hw_put\<close> are the part of the state that the handlers of WebSocket messages work on. A \<open>std::exception\<close> is \<open>Uncaught\<close>; other failures end the process. The buffer of a connection is a string. What is handed to
  \<open>TcpConnection::send\<close> is \<open>hs_out\<close>, \<open>hs_shut\<close> are the connections that have been shut down for writing.
\<close>

record ('h, 'a, 'w, 'e) httpServer =
  hs_useSSL :: bool
  hs_middleware :: "middleware list"
  hs_router :: "'h router"
  hs_ws :: "'w webSocketServer"
  hs_app :: 'a
  hs_contexts :: "conn \<rightharpoonup> httpContext"
  hs_ssl :: "conn \<rightharpoonup> 'e sslConnection"
  hs_out :: "(conn \<times> string) list"
  hs_shut :: "conn set"

text \<open>The world of a call: the handlers, the send callback of WebSocket frames, the clock, the address of a connection and OpenSSL.\<close>

record ('h, 'a, 'w, 'e) httpWorld =
  hw_handle :: "'h \<Rightarrow> httpRequest \<Rightarrow> httpResponse \<Rightarrow> 'a \<times> 'w webSocketServer \<Rightarrow> httpResponse \<times> ('a \<times> 'w webSocketServer) \<times> unit result"
  hw_wire :: "'w wire"
  hw_get :: "'a \<Rightarrow> 'w"
  hw_put :: "'w \<Rightarrow> 'a \<Rightarrow> 'a"
  hw_clock :: clock
  hw_ip :: "conn \<Rightarrow> string"
  hw_lib :: "'e sslLib"
  hw_new :: 'e

section \<open>Sending\<close>

definition tcp_send :: "conn \<Rightarrow> string list \<Rightarrow> ('h, 'a, 'w, 'e) httpServer \<Rightarrow> ('h, 'a, 'w, 'e) httpServer" where
  "tcp_send c ds hs = hs\<lparr>hs_out := hs_out hs @ map (\<lambda>d. (c, d)) ds\<rparr>"

definition shutdown :: "conn \<Rightarrow> ('h, 'a, 'w, 'e) httpServer \<Rightarrow> ('h, 'a, 'w, 'e) httpServer" where
  "shutdown c hs = hs\<lparr>hs_shut := insert c (hs_shut hs)\<rparr>"

definition sendData :: "'e sslLib \<Rightarrow> conn \<Rightarrow> string \<Rightarrow> ('h, 'a, 'w, 'e) httpServer \<Rightarrow> ('h, 'a, 'w, 'e) httpServer option" where
  "sendData lib c d hs =
     (case if hs_useSSL hs then hs_ssl hs c else None of
        Some s \<Rightarrow> map_option (\<lambda>(out, s1). tcp_send c out (hs\<lparr>hs_ssl := (hs_ssl hs)(c \<mapsto> s1)\<rparr>)) (ssl_send lib d s)
      | None \<Rightarrow> Some (tcp_send c [d] hs))"

definition badRequest :: string where
  "badRequest = ''HTTP/1.1 400 Bad Request'' @ crlf @ crlf"

definition refuse :: "'e sslLib \<Rightarrow> conn \<Rightarrow> ('h, 'a, 'w, 'e) httpServer \<Rightarrow> ('h, 'a, 'w, 'e) httpServer option" where
  "refuse lib c hs = map_option (shutdown c) (sendData lib c badRequest hs)"

section \<open>Connections\<close>

definition onConnection :: "('h, 'a, 'w, 'e) httpWorld \<Rightarrow> bool \<Rightarrow> conn \<Rightarrow> ('h, 'a, 'w, 'e) httpServer \<Rightarrow> ('h, 'a, 'w, 'e) httpServer" where
  "onConnection hw up c hs =
     (if up then
        let hs1 = (if hs_useSSL hs then hs\<lparr>hs_ssl := (hs_ssl hs)(c \<mapsto> SslConnection (hw_new hw))\<rparr> else hs) in
        hs1\<lparr>hs_contexts := (hs_contexts hs1)(c \<mapsto> HttpContext)\<rparr>
      else
        let hs1 = (if isWebSocket c (hs_ws hs) then hs\<lparr>hs_ws := removeConnection c (hs_ws hs)\<rparr> else hs) in
        if hs_useSSL hs1 then hs1\<lparr>hs_ssl := (hs_ssl hs1)(c := None)\<rparr> else hs1)"

section \<open>Requests\<close>

definition notFound :: "httpResponse \<Rightarrow> httpResponse" where
  "notFound resp = resp\<lparr>statusCode := 404, statusMessage := ''Not Found'', closeConnection := True\<rparr>"

definition handleRequest :: "('h, 'a, 'w, 'e) httpWorld \<Rightarrow> httpRequest \<Rightarrow> httpResponse \<Rightarrow> ('h, 'a, 'w, 'e) httpServer \<Rightarrow> (httpResponse \<times> ('h, 'a, 'w, 'e) httpServer) result" where
  "handleRequest hw req resp hs =
     (case processBefore (hw_clock hw) req (hs_middleware hs) of
        (Some r, ms) \<Rightarrow> Inr (r, hs\<lparr>hs_middleware := ms\<rparr>)
      | (None, ms) \<Rightarrow>
          let hs1 = hs\<lparr>hs_middleware := ms\<rparr>;
              (resp1, (app, ws), r) = (case route req (hs_router hs) of
                  Some (h, req') \<Rightarrow> hw_handle hw h req' resp (hs_app hs, hs_ws hs)
                | None \<Rightarrow> (notFound resp, (hs_app hs, hs_ws hs), Inr ()));
              hs2 = hs1\<lparr>hs_app := app, hs_ws := ws\<rparr> in
          (case r of
             Inr _ \<Rightarrow> (let (resp2, ms2) = processAfter (hw_clock hw) resp1 (hs_middleware hs2) in Inr (resp2, hs2\<lparr>hs_middleware := ms2\<rparr>))
           | Inl (Uncaught e) \<Rightarrow> Inr (resp1\<lparr>statusCode := 500, body := e\<rparr>, hs2)
           | Inl e \<Rightarrow> Inl e))"

definition checkClose :: "httpRequest \<Rightarrow> bool" where
  "checkClose req \<longleftrightarrow> getHeader ''Connection'' req = ''close'' \<or> version req = ''HTTP/1.0'' \<and> getHeader ''Connection'' req \<noteq> ''Keep-Alive''"

definition onRequest :: "('h, 'a, 'w, 'e) httpWorld \<Rightarrow> conn \<Rightarrow> httpRequest \<Rightarrow> ('h, 'a, 'w, 'e) httpServer \<Rightarrow> ('h, 'a, 'w, 'e) httpServer option result" where
  "onRequest hw c req hs =
     (let req1 = req\<lparr>clientIP := hw_ip hw c, connectionPtr := Some c\<rparr> in
      rbind (handleRequest hw req1 (HttpResponse (checkClose req1)) hs) (\<lambda>(resp, hs1).
      Inr (map_option (\<lambda>hs2. if closeConnection resp then shutdown c hs2 else hs2) (sendData (hw_lib hw) c (appendToBuffer resp) hs1))))"

section \<open>Data\<close>

text \<open>\<open>processFrame\<close> on the buffer of an upgraded connection.\<close>

definition wsFrames :: "('h, 'a, 'w, 'e) httpWorld \<Rightarrow> conn \<Rightarrow> string \<Rightarrow> ('h, 'a, 'w, 'e) httpServer \<Rightarrow> string \<times> ('h, 'a, 'w, 'e) httpServer \<times> unit result" where
  "wsFrames hw c buf hs =
     (let (buf1, ws, app, r) = processFrame (hw_wire hw) c (of_str buf) (hs_ws hs) (hw_get hw (hs_app hs)) in
      (to_str buf1, hs\<lparr>hs_ws := ws, hs_app := hw_put hw app (hs_app hs)\<rparr>, r))"

text \<open>The \<open>catch\<close> of \<open>onMessage\<close>.\<close>

definition catching :: "('h, 'a, 'w, 'e) httpWorld \<Rightarrow> conn \<Rightarrow> string \<times> ('h, 'a, 'w, 'e) httpServer \<times> unit result \<Rightarrow> (string \<times> ('h, 'a, 'w, 'e) httpServer) option result" where
  "catching hw c x =
     (case x of (buf, hs, r) \<Rightarrow>
        (case r of
           Inr _ \<Rightarrow> Inr (Some (buf, hs))
         | Inl (Uncaught e) \<Rightarrow> Inr (map_option (\<lambda>hs1. (buf, hs1)) (refuse (hw_lib hw) c hs))
         | Inl e \<Rightarrow> Inl e))"

text \<open>\<open>onMessage\<close> on plain data: the rest of the buffer and the server. \<open>None\<close> stands for a loop that does not end.\<close>

definition onPlain :: "('h, 'a, 'w, 'e) httpWorld \<Rightarrow> int \<Rightarrow> conn \<Rightarrow> string \<Rightarrow> ('h, 'a, 'w, 'e) httpServer \<Rightarrow> (string \<times> ('h, 'a, 'w, 'e) httpServer) option result" where
  "onPlain hw t c buf hs =
     (if isWebSocket c (hs_ws hs) then catching hw c (wsFrames hw c buf hs)
      else case hs_contexts hs c of
          None \<Rightarrow> Inl (OutOfBounds ''no context'')
        | Some ctx \<Rightarrow>
            (case parseRequest t buf ctx of
               None \<Rightarrow> Inr None
             | Some (ok, buf1, ctx1) \<Rightarrow>
                 let hs1 = hs\<lparr>hs_contexts := (hs_contexts hs)(c \<mapsto> ctx1)\<rparr> in
                 (case ok of
                    Inl e \<Rightarrow> catching hw c (buf1, hs1, Inl e)
                  | Inr False \<Rightarrow> Inr (map_option (\<lambda>hs2. (buf1, hs2)) (refuse (hw_lib hw) c hs1))
                  | Inr True \<Rightarrow>
                      if \<not> gotAll ctx1 then Inr (Some (buf1, hs1))
                      else
                        rbind (onRequest hw c (request ctx1) hs1) (\<lambda>o1.
                        case o1 of
                          None \<Rightarrow> Inr None
                        | Some hs2 \<Rightarrow>
                            let hs3 = hs2\<lparr>hs_contexts := (hs_contexts hs2)(c \<mapsto> http_reset ctx1)\<rparr> in
                            if isWebSocket c (hs_ws hs3) \<and> buf1 \<noteq> [] then catching hw c (wsFrames hw c buf1 hs3)
                            else Inr (Some (buf1, hs3))))))"

text \<open>\<open>onMessage\<close>: over TLS the data is decrypted first, and the plain text is kept by the TLS connection.\<close>

definition hs_onMessage :: "('h, 'a, 'w, 'e) httpWorld \<Rightarrow> int \<Rightarrow> conn \<Rightarrow> string \<Rightarrow> ('h, 'a, 'w, 'e) httpServer \<Rightarrow> (string \<times> ('h, 'a, 'w, 'e) httpServer) option result" where
  "hs_onMessage hw t c buf hs =
     (case if hs_useSSL hs then hs_ssl hs c else None of
        None \<Rightarrow> onPlain hw t c buf hs
      | Some s \<Rightarrow>
          (case onRead (hw_lib hw) buf s of
             None \<Rightarrow> Inr None
           | Some (buf1, out, shut, s1) \<Rightarrow>
               let hs1 = tcp_send c out (hs\<lparr>hs_ssl := (hs_ssl hs)(c \<mapsto> s1)\<rparr>);
                   hs2 = (if shut then shutdown c hs1 else hs1) in
               if \<not> isHandshakeCompleted s1 \<or> decryptedBuffer s1 = [] then Inr (Some (buf1, hs2))
               else
                 rbind (onPlain hw t c (decryptedBuffer s1) hs2) (\<lambda>o1.
                 Inr (map_option (\<lambda>(plain, hs3).
                   (buf1, hs3\<lparr>hs_ssl := (case hs_ssl hs3 c of Some s2 \<Rightarrow> (hs_ssl hs3)(c \<mapsto> s2\<lparr>decryptedBuffer := plain\<rparr>) | None \<Rightarrow> hs_ssl hs3)\<rparr>)) o1))))"

section \<open>Requests in pieces\<close>




text \<open>A handler that ends the process is a defect of its own; here handlers return or throw a \<open>std::exception\<close>, and do not upgrade the connection.\<close>

definition well_behaved :: "('h, 'a, 'w, 'e) httpWorld \<Rightarrow> conn \<Rightarrow> bool" where
  "well_behaved hw c \<longleftrightarrow> (\<forall>h req resp w resp' w' r. hw_handle hw h req resp w = (resp', w', r) \<longrightarrow>
     (isWebSocket c (snd w') \<longrightarrow> isWebSocket c (snd w)) \<and> (case r of Inr _ \<Rightarrow> True | Inl e \<Rightarrow> \<exists>what. e = Uncaught what))"

definition plain_conn :: "conn \<Rightarrow> httpContext \<Rightarrow> ('h, 'a, 'w, 'e) httpServer \<Rightarrow> bool" where
  "plain_conn c ctx hs \<longleftrightarrow> \<not> hs_useSSL hs \<and> \<not> isWebSocket c (hs_ws hs) \<and> hs_contexts hs c = Some ctx"

lemma handleRequest_returns:
  assumes "well_behaved hw c" "\<not> isWebSocket c (hs_ws hs)"
  shows "\<exists>resp' hs'. handleRequest hw req resp hs = Inr (resp', hs') \<and> \<not> isWebSocket c (hs_ws hs') \<and> hs_out hs' = hs_out hs \<and>
    hs_contexts hs' = hs_contexts hs \<and> hs_useSSL hs' = hs_useSSL hs \<and> hs_shut hs' = hs_shut hs"
proof (cases "processBefore (hw_clock hw) req (hs_middleware hs)")
  case (Pair thrown ms)
  show ?thesis
  proof (cases thrown)
    case (Some r)
    then show ?thesis using Pair assms(2) by (simp add: handleRequest_def)
  next
    case None
    obtain resp1 app ws r where h: "(case route req (hs_router hs) of Some (h, req') \<Rightarrow> hw_handle hw h req' resp (hs_app hs, hs_ws hs)
        | None \<Rightarrow> (notFound resp, (hs_app hs, hs_ws hs), Inr ())) = (resp1, (app, ws), r)" by (metis prod.collapse)
    have w: "\<not> isWebSocket c ws \<and> (case r of Inr _ \<Rightarrow> True | Inl e \<Rightarrow> \<exists>what. e = Uncaught what)"
    proof (cases "route req (hs_router hs)")
      case (Some x)
      then obtain h' req' where "hw_handle hw h' req' resp (hs_app hs, hs_ws hs) = (resp1, (app, ws), r)" using h by (cases x) auto
      then show ?thesis using assms unfolding well_behaved_def by (metis snd_conv)
    qed (use h assms(2) in auto)
    show ?thesis
    proof (cases r)
      case (Inl e)
      then obtain what where "e = Uncaught what" using w by auto
      then show ?thesis using Inl Pair None h w by (simp add: handleRequest_def Let_def)
    next
      case (Inr u)
      then show ?thesis using Pair None h w by (auto simp: handleRequest_def split_def Let_def)
    qed
  qed
qed

lemma sendData_plain: "\<not> hs_useSSL hs \<Longrightarrow> sendData lib c d hs = Some (hs\<lparr>hs_out := hs_out hs @ [(c, d)]\<rparr>)"
  by (simp add: sendData_def tcp_send_def)

lemma request_answered:
  assumes "well_behaved hw c" "plain_conn c ctx hs" "parseRequest t buf ctx = Some (Inr True, buf1, ctx1)" "gotAll ctx1"
  shows "\<exists>hs' resp. hs_onMessage hw t c buf hs = Inr (Some (buf1, hs')) \<and> plain_conn c (http_reset ctx1) hs' \<and>
    hs_out hs' = hs_out hs @ [(c, appendToBuffer resp)] \<and> (closeConnection resp \<longrightarrow> c \<in> hs_shut hs')"
proof -
  let ?req = "(request ctx1)\<lparr>clientIP := hw_ip hw c, connectionPtr := Some c\<rparr>" and ?hs = "hs\<lparr>hs_contexts := (hs_contexts hs)(c \<mapsto> ctx1)\<rparr>"
  have p: "\<not> hs_useSSL hs" "\<not> isWebSocket c (hs_ws hs)" "hs_contexts hs c = Some ctx" using assms(2) by (simp_all add: plain_conn_def)
  obtain resp hs1 where h: "handleRequest hw ?req (HttpResponse (checkClose ?req)) ?hs = Inr (resp, hs1)" "\<not> isWebSocket c (hs_ws hs1)"
      "hs_out hs1 = hs_out hs" "\<not> hs_useSSL hs1"
    using handleRequest_returns [OF assms(1), of ?hs ?req "HttpResponse (checkClose ?req)"] p by auto
  define hs2 where "hs2 = (let s = hs1\<lparr>hs_out := hs_out hs1 @ [(c, appendToBuffer resp)]\<rparr> in if closeConnection resp then shutdown c s else s)"
  have o: "onRequest hw c (request ctx1) ?hs = Inr (Some hs2)" using h(1,4) by (simp add: onRequest_def sendData_plain hs2_def Let_def)
  have s2: "\<not> isWebSocket c (hs_ws hs2)" "\<not> hs_useSSL hs2" "hs_out hs2 = hs_out hs @ [(c, appendToBuffer resp)]" "closeConnection resp \<longrightarrow> c \<in> hs_shut hs2"
    using h by (simp_all add: hs2_def shutdown_def Let_def)
  have "hs_onMessage hw t c buf hs = Inr (Some (buf1, hs2\<lparr>hs_contexts := (hs_contexts hs2)(c \<mapsto> http_reset ctx1)\<rparr>))"
    using p assms(3,4) o s2 by (simp add: hs_onMessage_def onPlain_def Let_def)
  with s2 show ?thesis by (auto simp: plain_conn_def)
qed



text \<open>Pipelining. When a second request arrives behind the first in the same data, one response is sent and the second request stays in the buffer,
  untouched, until the client sends more.\<close>

theorem pipelined_request_waits:
  assumes "well_behaved hw c" and "plain_conn c ctx hs" and "\<not> gotAll ctx" and "parseRequest t first ctx = Some (Inr True, [], ctx1)" and "gotAll ctx1"
  shows "\<exists>hs' resp. hs_onMessage hw t c (first @ second) hs = Inr (Some (second, hs')) \<and> hs_out hs' = hs_out hs @ [(c, appendToBuffer resp)]"
proof -
  have "parseRequest t (first @ second) ctx = Some (Inr True, second, ctx1)"
    using parse_loop_append [OF assms(3), of t first "[]" ctx1 second] assms(4,5) by (simp add: parseRequest_def)
  from request_answered [OF assms(1,2) this assms(5)] show ?thesis by blast
qed


section \<open>The status line\<close>

lemma resp_addHeader_line [simp]:
  "httpVersion (resp_addHeader k v r) = httpVersion r" "statusCode (resp_addHeader k v r) = statusCode r" "statusMessage (resp_addHeader k v r) = statusMessage r"
  by (simp_all add: resp_addHeader_def)

lemma addCorsHeaders_line [simp]:
  "httpVersion (addCorsHeaders o1 c r) = httpVersion r" "statusCode (addCorsHeaders o1 c r) = statusCode r" "statusMessage (addCorsHeaders o1 c r) = statusMessage r"
  by (simp_all add: addCorsHeaders_def Let_def)

lemma processAfter_line:
  "httpVersion (fst (processAfter ck r ms)) = httpVersion r \<and> statusCode (fst (processAfter ck r ms)) = statusCode r \<and> statusMessage (fst (processAfter ck r ms)) = statusMessage r"
  by (induction ms) (auto simp: split_def Let_def mw_after_def cors_after_def split: middleware.split)

lemma to_string_status: "to_string 404 = ''404''" "to_string 204 = ''204''"
  by code_simp+

text \<open>Answers without a version. Only handlers set the version of a response: the answer to a path that no route has, and the answer to an allowed
  preflight request, begin with a space where the status line must have \<open>HTTP/1.1\<close>.\<close>

theorem answers_without_version:
  assumes "plain_conn c ctx hs" and "parseRequest t buf ctx = Some (Inr True, buf1, ctx1)" and "gotAll ctx1"
    and "req = (request ctx1)\<lparr>clientIP := hw_ip hw c, connectionPtr := Some c\<rparr>"
    and "processBefore (hw_clock hw) req (hs_middleware hs) = (thrown, ms)"
    and "thrown = None \<and> route req (hs_router hs) = None \<or> (\<exists>cc. thrown = cors_before req cc \<and> req_method req = kOptions \<and> isOriginAllowed (getHeader ''Origin'' req) cc)"
  shows "\<exists>hs' d. hs_onMessage hw t c buf hs = Inr (Some (buf1, hs')) \<and> hs_out hs' = hs_out hs @ [(c, d)] \<and>
    (prefix ('' 404 Not Found'' @ crlf) d \<or> prefix ('' 204 '' @ crlf) d)"
proof -
  let ?hs = "hs\<lparr>hs_contexts := (hs_contexts hs)(c \<mapsto> ctx1)\<rparr>"
  have p: "\<not> hs_useSSL hs" "\<not> isWebSocket c (hs_ws hs)" "hs_contexts hs c = Some ctx" using assms(1) by (simp_all add: plain_conn_def)
  have "\<exists>resp ms'. handleRequest hw req (HttpResponse (checkClose req)) ?hs = Inr (resp, ?hs\<lparr>hs_middleware := ms'\<rparr>) \<and> httpVersion resp = [] \<and>
      (statusCode resp = 404 \<and> statusMessage resp = ''Not Found'' \<or> statusCode resp = 204 \<and> statusMessage resp = [])"
  proof (cases thrown)
    case None
    then have r: "route req (hs_router hs) = None" using assms(6) by (auto simp: cors_before_def split: if_splits)
    let ?n = "notFound (HttpResponse (checkClose req))"
    show ?thesis using None r assms(5) processAfter_line [of "hw_clock hw" ?n ms]
      by (auto simp: handleRequest_def split_def Let_def notFound_def HttpResponse_def)
  next
    case (Some r)
    then obtain cc where cc: "r = handlePreflightRequest req cc (HttpResponse True)" "isOriginAllowed (getHeader ''Origin'' req) cc"
      using assms(6) by (auto simp: cors_before_def split: if_splits)
    then show ?thesis using Some assms(5) by (auto simp: handleRequest_def handlePreflightRequest_def Let_def HttpResponse_def)
  qed
  then obtain resp ms' where h: "handleRequest hw req (HttpResponse (checkClose req)) ?hs = Inr (resp, ?hs\<lparr>hs_middleware := ms'\<rparr>)" "httpVersion resp = []"
      "statusCode resp = 404 \<and> statusMessage resp = ''Not Found'' \<or> statusCode resp = 204 \<and> statusMessage resp = []" by blast
  have "prefix ('' 404 Not Found'' @ crlf) (appendToBuffer resp) \<or> prefix ('' 204 '' @ crlf) (appendToBuffer resp)"
    using h(2,3) by (auto simp: appendToBuffer_def to_string_status)
  moreover have "\<exists>hs'. hs_onMessage hw t c buf hs = Inr (Some (buf1, hs')) \<and> hs_out hs' = hs_out hs @ [(c, appendToBuffer resp)]"
    using p assms(2-4) h(1) by (simp add: hs_onMessage_def onPlain_def onRequest_def sendData_plain shutdown_def Let_def)
  ultimately show ?thesis by blast
qed

section \<open>Witnesses\<close>

text \<open>A server with one route, whose handler throws, and the middleware of the game server.\<close>

definition null_world :: "(string, unit, unit, string \<times> string) httpWorld" where
  "null_world = \<lparr>hw_handle = (\<lambda>h req resp w. (resp, w, Inl (Uncaught ''stoi''))), hw_wire = (\<lambda>c d w. w), hw_get = id, hw_put = (\<lambda>w _. w),
     hw_clock = \<lparr>ck_lib = \<lparr>fixed2 = (\<lambda>_. ''0.00''), log_dump = (\<lambda>_. [])\<rparr>, ck_now = 10, ck_now' = 20\<rparr>, hw_ip = (\<lambda>_. ''1.2.3.4''), hw_lib = plain_lib, hw_new = ([], [])\<rparr>"

definition small_server :: "(string, unit, unit, string \<times> string) httpServer" where
  "small_server = \<lparr>hs_useSSL = False, hs_middleware = initializeMiddleware True, hs_router = registerHandler kGet ''/boom'' ''boom'' Router,
     hs_ws = WebSocketServer, hs_app = (), hs_contexts = [''c'' \<mapsto> HttpContext], hs_ssl = Map.empty, hs_out = [], hs_shut = {}\<rparr>"

lemma small_ok: "well_behaved null_world ''c''" "plain_conn ''c'' HttpContext small_server" "\<not> gotAll HttpContext"
  by (auto simp: well_behaved_def null_world_def plain_conn_def small_server_def isWebSocket_def WebSocketServer_def gotAll_def HttpContext_def)

definition boom :: "string list" where
  "boom = [''GET /bo'', ''om HTTP/1.1'' @ [CHR 0x0D], [CHR 0x0A, CHR 0x0D, CHR 0x0A]]"

lemma parsed:
  assumes "map_option (\<lambda>(ok, rest, ctx). ok = Inr True \<and> rest = [] \<and> gotAll ctx \<and> P ctx) (parseRequest 0 buf HttpContext) = Some True"
  shows "\<exists>ctx. parseRequest 0 buf HttpContext = Some (Inr True, [], ctx) \<and> gotAll ctx \<and> P ctx"
  using assms by auto

lemma boom_parsed: "\<exists>ctx. parseRequest 0 (concat boom) HttpContext = Some (Inr True, [], ctx) \<and> gotAll ctx \<and> True"
  by (rule parsed) code_simp


theorem pipelined_request_waits_witness:
  "\<exists>hs' resp. hs_onMessage null_world 0 ''c'' (concat boom @ concat boom) small_server = Inr (Some (concat boom, hs')) \<and> hs_out hs' = [(''c'', appendToBuffer resp)]"
proof -
  obtain c where c: "parseRequest 0 (concat boom) HttpContext = Some (Inr True, [], c)" "gotAll c" using boom_parsed by blast
  show ?thesis using pipelined_request_waits [OF small_ok c, of "concat boom"] by (auto simp: small_server_def)
qed

theorem answers_without_version_witness:
  "\<exists>hs' d. hs_onMessage null_world 0 ''c'' (''GET /none HTTP/1.1'' @ crlf @ crlf) small_server = Inr (Some ([], hs')) \<and> hs_out hs' = [(''c'', d)] \<and>
     (prefix ('' 404 Not Found'' @ crlf) d \<or> prefix ('' 204 '' @ crlf) d)"
proof -
  let ?buf = "''GET /none HTTP/1.1'' @ crlf @ crlf"
  let ?req = "\<lambda>c. (request c)\<lparr>clientIP := hw_ip null_world ''c'', connectionPtr := Some ''c''\<rparr>"
  let ?before = "\<lambda>c. processBefore (hw_clock null_world) (?req c) (hs_middleware small_server)"
  have "\<exists>c. parseRequest 0 ?buf HttpContext = Some (Inr True, [], c) \<and> gotAll c \<and> (Option.is_none (fst (?before c)) \<and> path (request c) = ''/none'')"
    by (rule parsed) code_simp
  then obtain c where c: "parseRequest 0 ?buf HttpContext = Some (Inr True, [], c)" "gotAll c" "fst (?before c) = None" "path (request c) = ''/none''"
    unfolding Option.is_none_def by blast
  define req where "req = ?req c"
  obtain thrown ms where b: "processBefore (hw_clock null_world) req (hs_middleware small_server) = (thrown, ms)" by fastforce
  have "thrown = None" "path req = ''/none''" using b c(3,4) by (simp_all add: req_def)
  then have "thrown = None \<and> route req (hs_router small_server) = None" 
    by (simp add: small_server_def registerHandler_def Router_def route_def)
  then show ?thesis using answers_without_version [OF small_ok(2) c(1,2) req_def b] by (auto simp: small_server_def)
qed

end
