(* ===== verification/Session.thy ===== *)
theory Session
  imports Http
begin

text \<open>
  Sessions of the HTTP server (\<open>session/Session.cpp\<close>, \<open>SessionStorage.cpp\<close>, \<open>SessionManager.cpp\<close>). The abstract class
  \<open>SessionStorage\<close> is the locale \<open>session_storage\<close>, the class that implements it is \<open>MemorySessionStorage\<close>. A session
  object is shared between the storage and its user; every operation of the manager writes the object back, so that the storage holds its
  value. Times are nanoseconds of the system clock; the digits that the random generator yields are arguments.
\<close>

section \<open>Sessions\<close>

record session =
  sessionId :: string
  data :: "string \<rightharpoonup> string"
  expiryTime :: int
  ses_maxAge :: int
  has_manager :: bool

definition ses_refresh :: "int \<Rightarrow> session \<Rightarrow> session" where
  "ses_refresh now s = s\<lparr>expiryTime := now + ses_maxAge s * 1000000000\<rparr>"

definition Session :: "int \<Rightarrow> string \<Rightarrow> bool \<Rightarrow> session" where
  "Session now i manager = ses_refresh now \<lparr>sessionId = i, data = Map.empty, expiryTime = 0, ses_maxAge = 3600, has_manager = manager\<rparr>"

definition isExpired :: "int \<Rightarrow> session \<Rightarrow> bool" where
  "isExpired now s \<longleftrightarrow> now > expiryTime s"

definition getValue :: "string \<Rightarrow> session \<Rightarrow> string" where
  "getValue key s = (case data s key of Some v \<Rightarrow> v | None \<Rightarrow> [])"

section \<open>Storage\<close>

type_synonym sessions = "string \<rightharpoonup> session"

definition MemorySessionStorage :: sessions where
  "MemorySessionStorage = Map.empty"

definition save :: "session \<Rightarrow> sessions \<Rightarrow> sessions" where
  "save s st = st(sessionId s \<mapsto> s)"

definition load :: "int \<Rightarrow> string \<Rightarrow> sessions \<Rightarrow> session option \<times> sessions" where
  "load now i st =
     (case st i of
        Some s \<Rightarrow> if \<not> isExpired now s then (Some s, st) else (None, st(i := None))
      | None \<Rightarrow> (None, st))"

definition storage_remove :: "string \<Rightarrow> sessions \<Rightarrow> sessions" where
  "storage_remove i st = st(i := None)"

text \<open>What the manager relies on: a session that was saved is loaded until it expires, under its own identifier only; nothing else is.\<close>

locale session_storage =
  fixes st_save :: "session \<Rightarrow> 's \<Rightarrow> 's"
    and st_load :: "int \<Rightarrow> string \<Rightarrow> 's \<Rightarrow> session option \<times> 's"
    and st_remove :: "string \<Rightarrow> 's \<Rightarrow> 's"
  assumes load_saved: "fst (st_load now (sessionId s) (st_save s st)) = (if isExpired now s then None else Some s)"
    and load_other: "i \<noteq> sessionId s \<Longrightarrow> fst (st_load now i (st_save s st)) = fst (st_load now i st)"
    and load_live: "fst (st_load now i st) = Some s \<Longrightarrow> \<not> isExpired now s"
    and load_again: "fst (st_load now' j (snd (st_load now i st))) = fst (st_load now' j st) \<or> i = j \<and> fst (st_load now i st) = None"
    and load_removed: "fst (st_load now i (st_remove i st)) = None"
    and load_remove_other: "i \<noteq> j \<Longrightarrow> fst (st_load now i (st_remove j st)) = fst (st_load now i st)"
begin

text \<open>After a session has been removed, no request is served with it until one is saved under that identifier again.\<close>

lemma removed_then_saved_other: "i \<noteq> sessionId s \<Longrightarrow> fst (st_load now i (st_save s (st_remove i st))) = None"
  by (simp add: load_other load_removed)

lemma saved_survives_load:
  assumes "\<not> isExpired now s" "\<not> isExpired now' s"
  shows "fst (st_load now' (sessionId s) (snd (st_load now (sessionId s) (st_save s st)))) = Some s"
  using load_again [of now' "sessionId s" now "sessionId s" "st_save s st"] load_saved assms by simp

end

interpretation memory: session_storage save load storage_remove
  by unfold_locales (auto simp: save_def load_def storage_remove_def split: option.splits if_splits)

section \<open>The manager\<close>

record sessionManager =
  storage :: sessions
  secureCookies :: bool

definition hex_digit :: "nat \<Rightarrow> char" where
  "hex_digit n = ''0123456789abcdef'' ! n"

text \<open>\<open>rs\<close> are the 32 numbers below 16 that are drawn.\<close>

definition generateSessionId :: "nat list \<Rightarrow> string" where
  "generateSessionId rs = map hex_digit rs"

definition getSessionIdFromCookie :: "httpRequest \<Rightarrow> string" where
  "getSessionIdFromCookie req =
     (let cookie = getHeader ''Cookie'' req in
      if cookie = [] then []
      else case str_find ''sessionId='' cookie of
          None \<Rightarrow> []
        | Some p \<Rightarrow>
            let pos = p + 10 in
            (case str_find_from '';'' pos cookie of
               Some e \<Rightarrow> substr pos (e - pos) cookie
             | None \<Rightarrow> drop pos cookie))"

definition setSessionCookie :: "string \<Rightarrow> sessionManager \<Rightarrow> httpResponse \<Rightarrow> httpResponse" where
  "setSessionCookie i sm resp =
     resp_addHeader ''Set-Cookie'' (''sessionId='' @ i @ ''; Path=/; HttpOnly; SameSite=Lax'' @ (if secureCookies sm then ''; Secure'' else [])) resp"

definition getSession :: "int \<Rightarrow> nat list \<Rightarrow> httpRequest \<Rightarrow> httpResponse \<Rightarrow> sessionManager \<Rightarrow> session \<times> httpResponse \<times> sessionManager" where
  "getSession now rs req resp sm =
     (let i = getSessionIdFromCookie req;
          (found, st) = (if i \<noteq> [] then load now i (storage sm) else (None, storage sm));
          (s, resp1) = (case found of
              Some s \<Rightarrow> if isExpired now s then (Session now (generateSessionId rs) True, setSessionCookie (generateSessionId rs) sm resp)
                        else ((if has_manager s then s else s\<lparr>has_manager := True\<rparr>), resp)
            | None \<Rightarrow> (Session now (generateSessionId rs) True, setSessionCookie (generateSessionId rs) sm resp));
          s1 = ses_refresh now s in
      (s1, resp1, sm\<lparr>storage := save s1 st\<rparr>))"

definition destroySession :: "string \<Rightarrow> sessionManager \<Rightarrow> sessionManager" where
  "destroySession i sm = sm\<lparr>storage := storage_remove i (storage sm)\<rparr>"

definition updateSession :: "session \<Rightarrow> sessionManager \<Rightarrow> sessionManager" where
  "updateSession s sm = sm\<lparr>storage := save s (storage sm)\<rparr>"

definition cleanExpiredSessions :: "sessionManager \<Rightarrow> sessionManager" where
  "cleanExpiredSessions sm = sm"

text \<open>\<open>setValue\<close> saves and then refreshes the object, which the storage shares.\<close>

definition setValue :: "int \<Rightarrow> string \<Rightarrow> string \<Rightarrow> session \<Rightarrow> sessionManager \<Rightarrow> session \<times> sessionManager" where
  "setValue now key v s sm =
     (let s1 = ses_refresh now (s\<lparr>data := (data s)(key \<mapsto> v)\<rparr>) in (s1, if has_manager s then updateSession s1 sm else sm))"

text \<open>\<open>remove\<close> and \<open>clear\<close> change the shared object only.\<close>

definition ses_share :: "session \<Rightarrow> sessionManager \<Rightarrow> sessionManager" where
  "ses_share s sm = (if storage sm (sessionId s) \<noteq> None then updateSession s sm else sm)"

definition ses_remove :: "string \<Rightarrow> session \<Rightarrow> sessionManager \<Rightarrow> session \<times> sessionManager" where
  "ses_remove key s sm = (let s1 = s\<lparr>data := (data s)(key := None)\<rparr> in (s1, ses_share s1 sm))"

definition ses_clear :: "session \<Rightarrow> sessionManager \<Rightarrow> session \<times> sessionManager" where
  "ses_clear s sm = (let s1 = s\<lparr>data := Map.empty\<rparr> in (s1, ses_share s1 sm))"

section \<open>Cookies\<close>

text \<open>The cookie header of a browser that has kept the session's cookie and sends it first.\<close>

definition cookie_of :: "string \<Rightarrow> string \<Rightarrow> string" where
  "cookie_of i others = ''sessionId='' @ i @ (if others = [] then [] else ''; '' @ others)"

lemma cookie_roundtrip:
  assumes "headers req ''Cookie'' = Some (cookie_of i others)" and "CHR '';'' \<notin> set i"
  shows "getSessionIdFromCookie req = i"
proof -
  let ?c = "cookie_of i others"
  have h: "getHeader ''Cookie'' req = ?c" using assms(1) by (simp add: getHeader_def)
  have f: "str_find ''sessionId='' ?c = Some 0" by (simp add: cookie_of_def str_find_def)
  have d: "drop 10 ?c = i @ (if others = [] then [] else ''; '' @ others)" by (simp add: cookie_of_def)
  have "str_find_from '';'' 10 ?c = (if others = [] then None else Some (length i + 10))"
  proof (cases "others = []")
    case True
    then show ?thesis using assms(2) d by (simp add: str_find_from_def str_find_char)
  next
    case False
    then have "str_find '';'' (drop 10 ?c) = Some (length i)" using d str_find_char_split [OF assms(2)] by simp
    moreover have "10 \<le> length ?c" by (simp add: cookie_of_def)
    ultimately show ?thesis using False by (simp add: str_find_from_def)
  qed
  then show ?thesis using d f h by (auto simp: getSessionIdFromCookie_def Let_def substr_def cookie_of_def)
qed

lemma hex_id: "set rs \<subseteq> {..<16} \<Longrightarrow> CHR '';'' \<notin> set (generateSessionId rs)"
proof -
  have "\<forall>n \<in> {..<16}. hex_digit n \<noteq> CHR '';''" by code_simp
  then show "set rs \<subseteq> {..<16} \<Longrightarrow> ?thesis" by (auto simp: generateSessionId_def)
qed

text \<open>The name is searched for anywhere in the header: another cookie whose name ends in \<open>sessionId\<close> is taken for the session.\<close>

lemma cookie_of_another_name:
  "getSessionIdFromCookie (HttpRequest\<lparr>headers := [''Cookie'' \<mapsto> ''xsessionId=evil; sessionId=good'']\<rparr>) = ''evil''"
  by code_simp

section \<open>Reachable managers\<close>

definition manager_ok :: "sessionManager \<Rightarrow> bool" where
  "manager_ok sm \<longleftrightarrow> (\<forall>i s. storage sm i = Some s \<longrightarrow> sessionId s = i \<and> has_manager s \<and> ses_maxAge s = 3600)"

inductive session_run :: "sessionManager \<Rightarrow> bool" where
  created: "session_run \<lparr>storage = MemorySessionStorage, secureCookies = b\<rparr>"
| got: "session_run sm'" if "session_run sm" "getSession now rs req resp sm = (s, resp', sm')"
| value_set: "session_run sm'" if "session_run sm" "storage sm (sessionId s) = Some s" "setValue now key v s sm = (s', sm')"
| value_removed: "session_run sm'" if "session_run sm" "storage sm (sessionId s) = Some s" "ses_remove key s sm = (s', sm')"
| cleared: "session_run sm'" if "session_run sm" "storage sm (sessionId s) = Some s" "ses_clear s sm = (s', sm')"
| destroyed: "session_run (destroySession i sm)" if "session_run sm"
| cleaned: "session_run (cleanExpiredSessions sm)" if "session_run sm"

text \<open>The two ways \<open>getSession\<close> goes.\<close>

definition found_session :: "int \<Rightarrow> httpRequest \<Rightarrow> sessionManager \<Rightarrow> session option" where
  "found_session now req sm = (if getSessionIdFromCookie req = [] then None else fst (load now (getSessionIdFromCookie req) (storage sm)))"

lemma found_live: "found_session now req sm = Some s \<Longrightarrow> \<not> isExpired now s"
  using memory.load_live by (simp add: found_session_def split: if_splits)

lemma getSession_eq:
  "getSession now rs req resp sm =
     (let (s, resp1) = (case found_session now req sm of
          Some s \<Rightarrow> (s\<lparr>has_manager := True\<rparr>, resp)
        | None \<Rightarrow> (Session now (generateSessionId rs) True, setSessionCookie (generateSessionId rs) sm resp)) in
      (ses_refresh now s, resp1,
       sm\<lparr>storage := save (ses_refresh now s) (if getSessionIdFromCookie req = [] then storage sm else snd (load now (getSessionIdFromCookie req) (storage sm)))\<rparr>))"
proof -
  have k: "(if has_manager s then s else s\<lparr>has_manager := True\<rparr>) = s\<lparr>has_manager := True\<rparr>" for s :: session by simp
  show ?thesis using found_live [of now req sm]
    by (auto simp: getSession_def found_session_def Let_def k split_def split: option.split)
qed

lemma manager_okD: "manager_ok sm \<Longrightarrow> storage sm i = Some s \<Longrightarrow> sessionId s = i \<and> has_manager s \<and> ses_maxAge s = 3600"
  by (simp add: manager_ok_def)

lemma found_stored: "found_session now req sm = Some s \<Longrightarrow> storage sm (getSessionIdFromCookie req) = Some s"
  by (auto simp: found_session_def load_def split: if_splits option.splits)

lemma manager_ok_save:
  "manager_ok sm \<Longrightarrow> has_manager s \<Longrightarrow> ses_maxAge s = 3600 \<Longrightarrow> st \<subseteq>\<^sub>m storage sm \<Longrightarrow> manager_ok (sm\<lparr>storage := save s st\<rparr>)"
  by (auto simp: manager_ok_def save_def map_le_def) (metis domI)+

lemma load_le: "snd (load now i st) \<subseteq>\<^sub>m st"
  by (auto simp: load_def map_le_def split: option.split)

lemma getSession_ok:
  assumes "manager_ok sm" "getSession now rs req resp sm = (s, resp', sm')"
  shows "manager_ok sm'"
proof -
  let ?st = "if getSessionIdFromCookie req = [] then storage sm else snd (load now (getSessionIdFromCookie req) (storage sm))"
  have "?st \<subseteq>\<^sub>m storage sm" using load_le by simp
  moreover have "has_manager s \<and> ses_maxAge s = 3600 \<and> sm' = sm\<lparr>storage := save s ?st\<rparr>"
    using assms found_stored [of now req sm] manager_okD [OF assms(1)]
    by (auto simp: getSession_eq Let_def Session_def ses_refresh_def split: option.splits)
  ultimately show ?thesis using manager_ok_save [OF assms(1)] by blast
qed

lemma session_run_ok: "session_run sm \<Longrightarrow> manager_ok sm"
proof (induction rule: session_run.induct)
  case (created b)
  show ?case by (simp add: manager_ok_def MemorySessionStorage_def)
next
  case (got sm now rs req resp s resp' sm')
  then show ?case using getSession_ok by blast
next
  case (value_set sm s now key v s' sm')
  then show ?case using manager_okD [of sm "sessionId s" s] manager_ok_save [of sm s' "storage sm"]
    by (auto simp: setValue_def Let_def updateSession_def ses_refresh_def)
next
  case (value_removed sm s key s' sm')
  then show ?case using manager_okD [of sm "sessionId s" s] manager_ok_save [of sm s' "storage sm"]
    by (auto simp: ses_remove_def Let_def ses_share_def updateSession_def)
next
  case (cleared sm s s' sm')
  then show ?case using manager_okD [of sm "sessionId s" s] manager_ok_save [of sm s' "storage sm"]
    by (auto simp: ses_clear_def Let_def ses_share_def updateSession_def)
next
  case (destroyed sm i)
  then show ?case by (auto simp: manager_ok_def destroySession_def storage_remove_def)
qed (simp add: cleanExpiredSessions_def)

text \<open>Sessions. A client that sends back the cookie of its session within an hour of its last request gets the same session with what was
  stored in it.\<close>

theorem session_kept:
  assumes "session_run sm" and "getSession now rs req resp sm = (s, resp', sm')" and "CHR '';'' \<notin> set (sessionId s)" and "sessionId s \<noteq> []"
    and "headers req2 ''Cookie'' = Some (cookie_of (sessionId s) others)" and "now2 \<le> now + 3600 * 1000000000"
  shows "\<exists>s2 sm2. getSession now2 rs2 req2 resp2 sm' = (s2, resp2, sm2) \<and> sessionId s2 = sessionId s \<and> data s2 = data s"
proof -
  have ok: "manager_ok sm'" using session_run_ok session_run.got [OF assms(1,2)] by blast
  have s: "\<exists>st. storage sm' = save s st" "expiryTime s = now + 3600 * 1000000000"
    using assms(2) found_stored [of now req sm] manager_okD [OF session_run_ok [OF assms(1)]]
    by (auto simp: getSession_eq Let_def ses_refresh_def Session_def split: option.splits)
  then have "fst (load now2 (sessionId s) (storage sm')) = Some s" using memory.load_saved assms(6) by (auto simp: isExpired_def)
  then have "found_session now2 req2 sm' = Some s" using cookie_roundtrip [OF assms(5,3)] assms(4) by (simp add: found_session_def)
  then show ?thesis by (simp add: getSession_eq Let_def ses_refresh_def)
qed

text \<open>New sessions. A request whose cookie names no live session is given a new, empty session under the identifier that the server has drawn, never the one
  it sent, with a cookie for it; the sessions of other identifiers are not touched.\<close>

theorem session_fresh:
  assumes "found_session now req sm = None" and "getSession now rs req resp sm = (s, resp', sm')"
  shows "sessionId s = generateSessionId rs \<and> data s = Map.empty \<and> resp' = setSessionCookie (generateSessionId rs) sm resp \<and>
    (\<forall>i. i \<noteq> sessionId s \<and> i \<noteq> getSessionIdFromCookie req \<longrightarrow> storage sm' i = storage sm i)"
  using assms by (auto simp: getSession_eq Let_def Session_def ses_refresh_def save_def load_def split: option.splits if_splits)

text \<open>Logging out. After \<open>destroySession\<close> a request with the cookie of the session gets a new, empty session, however late it comes.\<close>

theorem session_destroyed:
  assumes "headers req ''Cookie'' = Some (cookie_of i others)" and "CHR '';'' \<notin> set i"
    and "getSession now rs req resp (destroySession i sm) = (s, resp', sm')"
  shows "data s = Map.empty \<and> sessionId s = generateSessionId rs"
proof -
  have "found_session now req (destroySession i sm) = None"
    using memory.load_removed cookie_roundtrip [OF assms(1,2)] by (simp add: found_session_def destroySession_def)
  then show ?thesis using assms(3) by (auto simp: getSession_eq Let_def Session_def ses_refresh_def)
qed

section \<open>Witnesses\<close>

definition no_sessions :: sessionManager where
  "no_sessions = \<lparr>storage = MemorySessionStorage, secureCookies = False\<rparr>"

definition cookie_req :: "string \<Rightarrow> httpRequest" where
  "cookie_req c = HttpRequest\<lparr>req_method := kGet, path := ''/menu'', headers := [''Cookie'' \<mapsto> c]\<rparr>"

definition drawn :: "nat list" where
  "drawn = replicate 31 10 @ [7]"

theorem session_kept_witness:
  "\<exists>s2 sm2. getSession 2000 [1] (cookie_req (cookie_of (generateSessionId drawn) ''lang=en'')) (HttpResponse False)
     (snd (snd (getSession 1000 drawn HttpRequest (HttpResponse False) no_sessions))) = (s2, HttpResponse False, sm2) \<and> sessionId s2 = generateSessionId drawn"
proof -
  obtain s r sm' where g: "getSession 1000 drawn HttpRequest (HttpResponse False) no_sessions = (s, r, sm')" by (metis prod_cases3)
  have "sessionId (fst (getSession 1000 drawn HttpRequest (HttpResponse False) no_sessions)) = generateSessionId drawn"
    "CHR '';'' \<notin> set (generateSessionId drawn)" "generateSessionId drawn \<noteq> []" by code_simp+
  moreover have "session_run no_sessions" unfolding no_sessions_def by (rule session_run.created)
  ultimately show ?thesis
    using session_kept [OF _ g, of "cookie_req (cookie_of (generateSessionId drawn) ''lang=en'')" "''lang=en''" 2000 "[1]" "HttpResponse False"] g
    by (auto simp: cookie_req_def)
qed

theorem session_fresh_witness:
  "sessionId (fst (getSession 5 drawn (cookie_req ''sessionId=chosen'') (HttpResponse False) no_sessions)) = generateSessionId drawn"
proof -
  obtain s r sm' where g: "getSession 5 drawn (cookie_req ''sessionId=chosen'') (HttpResponse False) no_sessions = (s, r, sm')" by (metis prod_cases3)
  have "found_session 5 (cookie_req ''sessionId=chosen'') no_sessions = None"
    by (simp add: found_session_def load_def no_sessions_def MemorySessionStorage_def)
  from session_fresh [OF this g] g show ?thesis by simp
qed

theorem session_destroyed_witness:
  "data (fst (getSession 9 drawn (cookie_req (cookie_of ''a1'' [])) (HttpResponse False) (destroySession ''a1'' no_sessions))) = Map.empty"
proof -
  obtain s r sm' where g: "getSession 9 drawn (cookie_req (cookie_of ''a1'' [])) (HttpResponse False) (destroySession ''a1'' no_sessions) = (s, r, sm')"
    by (metis prod_cases3)
  have "headers (cookie_req (cookie_of ''a1'' [])) ''Cookie'' = Some (cookie_of ''a1'' [])" by (simp add: cookie_req_def)
  from session_destroyed [OF this _ g] g show ?thesis by simp
qed

end
