(* ===== verification/TlsContext.thy ===== *)
theory TlsContext
  imports Prelude
begin

text \<open>
  The TLS settings of the server: \<open>SslTypes.h\<close>, \<open>SslConfig.h\<close>, \<open>SslConfig.cpp\<close>, \<open>SslContext.cpp\<close>, and \<open>HttpServer::setSslConfig\<close>. An OpenSSL context is the record
  \<open>sslCtx\<close> of what the calls of the code store in it; \<open>SSL_CTX_set_options\<close> adds options and never removes one. \<open>openssl\<close> holds the answers of OpenSSL: whether a
  context can be made, whether files hold a certificate or a key, whether they match, and whether a cipher list is accepted.
\<close>

datatype sslVersion = TLS_1_0 | TLS_1_1 | TLS_1_2 | TLS_1_3

text \<open>The versions in the order of the enumeration.\<close>

primrec version_no :: "sslVersion \<Rightarrow> nat" where
  "version_no TLS_1_0 = 0"
| "version_no TLS_1_1 = 1"
| "version_no TLS_1_2 = 2"
| "version_no TLS_1_3 = 3"

lemma version_no_inject: "version_no v = version_no w \<Longrightarrow> v = w"
  by (cases v; cases w) simp_all

instantiation sslVersion :: linorder
begin

definition less_eq_sslVersion :: "sslVersion \<Rightarrow> sslVersion \<Rightarrow> bool" where
  "less_eq_sslVersion v w \<longleftrightarrow> version_no v \<le> version_no w"

definition less_sslVersion :: "sslVersion \<Rightarrow> sslVersion \<Rightarrow> bool" where
  "less_sslVersion v w \<longleftrightarrow> version_no v < version_no w"

instance
  by standard (auto simp: less_eq_sslVersion_def less_sslVersion_def intro: version_no_inject)

end

record sslConfig =
  certFile :: string
  keyFile :: string
  chainFile :: string
  ssl_version :: sslVersion
  cipherList :: string
  verifyClient :: bool
  verifyDepth :: int
  sessionTimeout :: int
  sessionCacheSize :: int

definition SslConfig :: sslConfig where
  "SslConfig = \<lparr>certFile = [], keyFile = [], chainFile = [], ssl_version = TLS_1_2, cipherList = ''HIGH:!aNULL:!MDS'', verifyClient = False, verifyDepth = 4,
     sessionTimeout = 300, sessionCacheSize = 20480\<rparr>"

datatype sslOption = NO_SSLv2 | NO_SSLv3 | NO_TLSv1 | NO_TLSv1_1 | NO_TLSv1_2 | NO_COMPRESSION | CIPHER_SERVER_PREFERENCE

record sslCtx =
  ctx_options :: "sslOption set"
  ctx_certificate :: "string option"
  ctx_key :: "string option"
  ctx_ca :: "string option"
  ctx_ciphers :: "string option"
  ctx_cacheServer :: bool
  ctx_cacheSize :: "int option"
  ctx_timeout :: "int option"

record openssl =
  ssl_new :: bool
  ssl_certificate_ok :: "string \<Rightarrow> bool"
  ssl_key_ok :: "string \<Rightarrow> bool"
  ssl_match :: "string \<Rightarrow> string \<Rightarrow> bool"
  ssl_ca_ok :: "string \<Rightarrow> bool"
  ssl_ciphers_ok :: "string \<Rightarrow> bool"

definition SSL_CTX_new :: sslCtx where
  "SSL_CTX_new = \<lparr>ctx_options = {}, ctx_certificate = None, ctx_key = None, ctx_ca = None, ctx_ciphers = None, ctx_cacheServer = False, ctx_cacheSize = None,
     ctx_timeout = None\<rparr>"

definition SSL_CTX_set_options :: "sslOption set \<Rightarrow> sslCtx \<Rightarrow> sslCtx" where
  "SSL_CTX_set_options opts ctx = ctx\<lparr>ctx_options := ctx_options ctx \<union> opts\<rparr>"

definition loadCertificates :: "openssl \<Rightarrow> sslConfig \<Rightarrow> sslCtx \<Rightarrow> sslCtx \<times> bool" where
  "loadCertificates lib config ctx =
     (if \<not> ssl_certificate_ok lib (certFile config) then (ctx, False)
      else let ctx1 = ctx\<lparr>ctx_certificate := Some (certFile config)\<rparr> in
        if \<not> ssl_key_ok lib (keyFile config) then (ctx1, False)
        else let ctx2 = ctx1\<lparr>ctx_key := Some (keyFile config)\<rparr> in
          if \<not> ssl_match lib (certFile config) (keyFile config) then (ctx2, False)
          else if chainFile config \<noteq> [] then
            if \<not> ssl_ca_ok lib (chainFile config) then (ctx2, False) else (ctx2\<lparr>ctx_ca := Some (chainFile config)\<rparr>, True)
          else (ctx2, True))"

definition protocolOptions :: "sslVersion \<Rightarrow> sslOption set" where
  "protocolOptions v =
     {NO_SSLv2, NO_SSLv3} \<union>
     (case v of TLS_1_0 \<Rightarrow> {} | TLS_1_1 \<Rightarrow> {NO_TLSv1} | TLS_1_2 \<Rightarrow> {NO_TLSv1, NO_TLSv1_1} | TLS_1_3 \<Rightarrow> {NO_TLSv1, NO_TLSv1_1, NO_TLSv1_2})"

definition setupProtocol :: "openssl \<Rightarrow> sslConfig \<Rightarrow> sslCtx \<Rightarrow> sslCtx \<times> bool" where
  "setupProtocol lib config ctx =
     (let ctx1 = SSL_CTX_set_options (protocolOptions (ssl_version config)) ctx in
      if cipherList config \<noteq> [] then
        if \<not> ssl_ciphers_ok lib (cipherList config) then (ctx1, False) else (ctx1\<lparr>ctx_ciphers := Some (cipherList config)\<rparr>, True)
      else (ctx1, True))"

definition setupSessionCache :: "sslConfig \<Rightarrow> sslCtx \<Rightarrow> sslCtx" where
  "setupSessionCache config ctx =
     ctx\<lparr>ctx_cacheServer := True, ctx_cacheSize := Some (sessionCacheSize config), ctx_timeout := Some (sessionTimeout config)\<rparr>"

text \<open>\<open>SslContext::initialize\<close>: the context, if one was made, and the result.\<close>

definition SslContext_initialize :: "openssl \<Rightarrow> sslConfig \<Rightarrow> sslCtx option \<times> bool" where
  "SslContext_initialize lib config =
     (if \<not> ssl_new lib then (None, False)
      else
        let ctx = SSL_CTX_set_options {NO_SSLv2, NO_SSLv3, NO_COMPRESSION, CIPHER_SERVER_PREFERENCE} SSL_CTX_new;
            (ctx1, loaded) = loadCertificates lib config ctx in
        if \<not> loaded then (Some ctx1, False)
        else let (ctx2, set) = setupProtocol lib config ctx1 in
          if \<not> set then (Some ctx2, False) else (Some (setupSessionCache config ctx2), True))"

text \<open>A context that cannot be set up ends the process. Without TLS there is none.\<close>

definition setSslConfig :: "openssl \<Rightarrow> bool \<Rightarrow> sslConfig \<Rightarrow> sslCtx option result" where
  "setSslConfig lib useSSL config =
     (if \<not> useSSL then Inr None
      else (case SslContext_initialize lib config of (ctx, ok) \<Rightarrow> if ok then Inr ctx else Inl (AssertFailed ''abort'')))"

text \<open>The settings of the game server.\<close>

definition gameSslConfig :: "string \<Rightarrow> string \<Rightarrow> sslConfig" where
  "gameSslConfig certificateFile privateKeyFile =
     SslConfig\<lparr>certFile := certificateFile, keyFile := privateKeyFile, ssl_version := TLS_1_2, cipherList := ''HIGH:!aNULL:!MD5'', verifyClient := False\<rparr>"

section \<open>The protocols that are left\<close>

text \<open>The option that switches a version off; TLS 1.3 is never switched off.\<close>

definition allows :: "sslCtx \<Rightarrow> sslVersion \<Rightarrow> bool" where
  "allows ctx v \<longleftrightarrow> (case v of TLS_1_0 \<Rightarrow> NO_TLSv1 \<notin> ctx_options ctx | TLS_1_1 \<Rightarrow> NO_TLSv1_1 \<notin> ctx_options ctx | TLS_1_2 \<Rightarrow> NO_TLSv1_2 \<notin> ctx_options ctx | TLS_1_3 \<Rightarrow> True)"

lemma loadCertificates_done:
  "loadCertificates lib config ctx = (ctx1, True) \<Longrightarrow>
    ctx_options ctx1 = ctx_options ctx \<and> ctx_certificate ctx1 = Some (certFile config) \<and> ctx_key ctx1 = Some (keyFile config) \<and> ssl_match lib (certFile config) (keyFile config)"
  by (auto simp: loadCertificates_def Let_def split: if_splits)

lemma setupProtocol_done:
  "setupProtocol lib config ctx = (ctx1, True) \<Longrightarrow>
    ctx_options ctx1 = ctx_options ctx \<union> protocolOptions (ssl_version config) \<and> ctx_certificate ctx1 = ctx_certificate ctx \<and> ctx_key ctx1 = ctx_key ctx \<and>
    (cipherList config \<noteq> [] \<longrightarrow> ctx_ciphers ctx1 = Some (cipherList config))"
  by (auto simp: setupProtocol_def SSL_CTX_set_options_def Let_def split: if_splits)

lemma setupSessionCache_frame [simp]:
  "ctx_options (setupSessionCache config ctx) = ctx_options ctx" "ctx_certificate (setupSessionCache config ctx) = ctx_certificate ctx"
  "ctx_key (setupSessionCache config ctx) = ctx_key ctx"
  by (simp_all add: setupSessionCache_def)

text \<open>A server that starts with TLS never speaks a version below the configured one and speaks every version from it on; SSL 2, SSL 3 and compression are off, and
  the certificate and the key in use are those of the configuration and belong together. Otherwise the server does not start.\<close>

theorem tls_versions_from_configured:
  assumes "setSslConfig lib True config = Inr ctx"
  shows "\<exists>c. ctx = Some c \<and> (\<forall>v. allows c v \<longleftrightarrow> ssl_version config \<le> v) \<and> {NO_SSLv2, NO_SSLv3, NO_COMPRESSION} \<subseteq> ctx_options c \<and>
    ctx_certificate c = Some (certFile config) \<and> ctx_key c = Some (keyFile config) \<and> ssl_match lib (certFile config) (keyFile config)"
proof -
  obtain ctx1 ctx2 where l: "loadCertificates lib config (SSL_CTX_set_options {NO_SSLv2, NO_SSLv3, NO_COMPRESSION, CIPHER_SERVER_PREFERENCE} SSL_CTX_new) = (ctx1, True)"
      and p: "setupProtocol lib config ctx1 = (ctx2, True)" and c: "ctx = Some (setupSessionCache config ctx2)"
    using assms by (auto simp: setSslConfig_def SslContext_initialize_def Let_def split: if_splits prod.splits)
  have o: "ctx_options ctx2 = {NO_SSLv2, NO_SSLv3, NO_COMPRESSION, CIPHER_SERVER_PREFERENCE} \<union> protocolOptions (ssl_version config)"
    using loadCertificates_done [OF l] setupProtocol_done [OF p] by (simp add: SSL_CTX_set_options_def SSL_CTX_new_def)
  have "allows (setupSessionCache config ctx2) v \<longleftrightarrow> ssl_version config \<le> v" for v
    by (cases v; cases "ssl_version config") (simp_all add: allows_def o protocolOptions_def less_eq_sslVersion_def)
  moreover have "ctx_certificate ctx2 = Some (certFile config) \<and> ctx_key ctx2 = Some (keyFile config) \<and> ssl_match lib (certFile config) (keyFile config)"
    using loadCertificates_done [OF l] setupProtocol_done [OF p] by simp
  ultimately show ?thesis by (simp add: c o)
qed

theorem tls_versions_from_configured_witness:
  "\<exists>c. setSslConfig \<lparr>ssl_new = True, ssl_certificate_ok = (\<lambda>f. f = ''a.crt''), ssl_key_ok = (\<lambda>f. f = ''a.key''), ssl_match = (\<lambda>_ _. True), ssl_ca_ok = (\<lambda>_. False),
      ssl_ciphers_ok = (\<lambda>_. True)\<rparr> True (gameSslConfig ''a.crt'' ''a.key'') = Inr (Some c) \<and> allows c TLS_1_2 \<and> \<not> allows c TLS_1_1"
proof -
  let ?lib = "\<lparr>ssl_new = True, ssl_certificate_ok = (\<lambda>f. f = ''a.crt''), ssl_key_ok = (\<lambda>f. f = ''a.key''), ssl_match = (\<lambda>_ _. True), ssl_ca_ok = (\<lambda>_. False),
      ssl_ciphers_ok = (\<lambda>_. True)\<rparr>"
  obtain ctx where r: "setSslConfig ?lib True (gameSslConfig ''a.crt'' ''a.key'') = Inr ctx"
    by (simp add: setSslConfig_def SslContext_initialize_def loadCertificates_def setupProtocol_def gameSslConfig_def SslConfig_def)
  show ?thesis
    using tls_versions_from_configured [OF r] r by (auto simp: gameSslConfig_def less_eq_sslVersion_def)
qed

end
