(* ===== verification/Pages.thy ===== *)
theory Pages
  imports HttpServer Session GameServer AiGame TlsContext
begin

text \<open>
  The pages of the game server: the handlers of its routes (\<open>handlers/*.cpp\<close>, \<open>GomokuServer.cpp\<close>), the users that are online, the games
  against the computer, and the start of the server (\<open>main.cpp\<close>, \<open>DatabaseConfig.cpp\<close>). \<open>site\<close> is the state behind the pages: the game server,
  the sessions, the members of \<open>GomokuServer\<close> and the database. \<open>siteWorld\<close> holds what a handler reads of the world: the JSON library with its
  indented form, the files, the random digits of a new session and of the computer's move, and the database: \<open>pw_query\<close> runs a \<open>SELECT\<close> with its
  parameters and gives the number in the first row, if there is one, \<open>pw_update\<close> runs an \<open>INSERT\<close>; both may throw. A handler returns the response,
  the state and whether it threw; the response and the state keep what was done before an exception.
\<close>

record ('s, 'd) site =
  site_game :: "'s gameServer"
  site_sessions :: sessionManager
  aiGames :: "int \<rightharpoonup> aiGame"
  onlineUsers :: "(int \<times> bool) list"
  maxOnline :: int
  site_db :: 'd

record ('s, 'd) siteWorld =
  pw_env :: env
  pw_load :: "'s loader"
  pw_replace :: "'s replacer"
  pw_digest :: "string \<Rightarrow> string"
  pw_now :: int
  pw_rs :: "nat list"
  pw_rand :: nat
  pw_files :: "string \<Rightarrow> string option"
  pw_dump4 :: "json \<Rightarrow> string"
  pw_query :: "string \<Rightarrow> string list \<Rightarrow> 'd \<Rightarrow> int option result"
  pw_update :: "string \<Rightarrow> string list \<Rightarrow> 'd \<Rightarrow> 'd \<times> unit result"

type_synonym ('s, 'd) page = "httpRequest \<Rightarrow> httpResponse \<Rightarrow> ('s, 'd) site \<Rightarrow> httpResponse \<times> ('s, 'd) site \<times> unit result"

section \<open>Responses\<close>

definition packageResp :: "string \<Rightarrow> int \<Rightarrow> string \<Rightarrow> bool \<Rightarrow> string \<Rightarrow> nat \<Rightarrow> string \<Rightarrow> httpResponse \<Rightarrow> httpResponse" where
  "packageResp v code msg close ct contentLen text resp =
     (resp_setContentLength contentLen (setContentType ct (resp\<lparr>httpVersion := v, statusCode := code, statusMessage := msg, closeConnection := close\<rparr>)))\<lparr>body := text\<rparr>"

text \<open>The same calls written out in a handler.\<close>

definition respond :: "string \<Rightarrow> int \<Rightarrow> string \<Rightarrow> bool \<Rightarrow> string \<Rightarrow> string \<Rightarrow> httpResponse \<Rightarrow> httpResponse" where
  "respond v code msg close ct text resp =
     (resp_setContentLength (length text) (setContentType ct ((setStatusLine v code msg resp)\<lparr>closeConnection := close\<rparr>)))\<lparr>body := text\<rparr>"

definition error_json :: "string \<Rightarrow> json" where
  "error_json message = JObject [(''status'', JString ''error''), (''message'', JString message)]"

definition unauthorized :: "('s, 'd) siteWorld \<Rightarrow> httpRequest \<Rightarrow> httpResponse \<Rightarrow> httpResponse" where
  "unauthorized w req resp =
     (let errorBody = pw_dump4 w (error_json ''Unauthorized'') in
      packageResp (version req) 401 ''Unauthorized'' True ''application/json'' (length errorBody) errorBody resp)"

text \<open>\<open>catch (const std::exception &e)\<close>\<close>

definition catch_std :: "(string \<Rightarrow> httpResponse \<Rightarrow> httpResponse) \<Rightarrow> httpResponse \<times> 'a \<times> unit result \<Rightarrow> httpResponse \<times> 'a \<times> unit result" where
  "catch_std h x = (case x of (resp, s, r) \<Rightarrow> (case r of Inl (Uncaught e) \<Rightarrow> (h e resp, s, Inr ()) | _ \<Rightarrow> x))"

definition bad_json :: "('s, 'd) siteWorld \<Rightarrow> httpRequest \<Rightarrow> string \<Rightarrow> httpResponse \<Rightarrow> httpResponse" where
  "bad_json w req e resp = respond (version req) 400 ''Bad Request'' True ''application/json'' (pw_dump4 w (error_json e)) resp"

text \<open>\<open>j[key]\<close> on a value that is not constant: a missing key and \<open>null\<close> give \<open>null\<close>.\<close>

definition json_index :: "string \<Rightarrow> json \<Rightarrow> json result" where
  "json_index k j =
     (case j of
        JObject kvs \<Rightarrow> Inr (case map_of kvs k of Some v \<Rightarrow> v | None \<Rightarrow> JNull)
      | JNull \<Rightarrow> Inr JNull
      | _ \<Rightarrow> Inl (Uncaught ''type_error''))"

definition index_string :: "string \<Rightarrow> json \<Rightarrow> string result" where
  "index_string k j = rbind (json_index k j) json_string"

definition index_int :: "string \<Rightarrow> json \<Rightarrow> int result" where
  "index_int k j = rbind (rbind (json_index k j) json_int) (\<lambda>i. Inr (wrap32 i))"

definition parse_body :: "('s, 'd) siteWorld \<Rightarrow> httpRequest \<Rightarrow> json result" where
  "parse_body w req = (case json_parse (env_lib (pw_env w)) (httpRequest.content req) of Some j \<Rightarrow> Inr j | None \<Rightarrow> Inl (Uncaught ''parse_error''))"

text \<open>A page file, or the default file. With neither, the size of the stream is \<open>-1\<close>, and the vector of that size throws.\<close>

definition notFoundFile :: string where
  "notFoundFile = ''/Gomoku/GomokuServer/resource/NotFound.html''"

definition readPage :: "('s, 'd) siteWorld \<Rightarrow> string \<Rightarrow> string result" where
  "readPage w reqFile =
     (case pw_files w (''../WebApps/GomokuServer/resource/'' @ reqFile) of
        Some d \<Rightarrow> Inr d
      | None \<Rightarrow> (case pw_files w notFoundFile of Some d \<Rightarrow> Inr d | None \<Rightarrow> Inl (Uncaught ''length_error'')))"

text \<open>The session of a request.\<close>

definition open_session :: "('s, 'd) siteWorld \<Rightarrow> httpRequest \<Rightarrow> httpResponse \<Rightarrow> ('s, 'd) site \<Rightarrow> session \<times> httpResponse \<times> ('s, 'd) site" where
  "open_session w req resp st =
     (let (s, resp1, sm) = getSession (pw_now w) (pw_rs w) req resp (site_sessions st) in (s, resp1, st\<lparr>site_sessions := sm\<rparr>))"

definition loggedIn :: "session \<Rightarrow> bool" where
  "loggedIn s \<longleftrightarrow> getValue ''isLoggedIn'' s = ''true''"

section \<open>Entry, login and registration\<close>

definition EntryHandler :: "('s, 'd) siteWorld \<Rightarrow> ('s, 'd) page" where
  "EntryHandler w req resp st =
     (case readPage w ''entry.html'' of
        Inr bufStr \<Rightarrow> (respond (version req) 200 ''OK'' False ''text/html'' bufStr resp, st, Inr ())
      | Inl _ \<Rightarrow> (respond (version req) 404 ''Not Found'' True ''text/html'' ''<html><body><h1>404 Not Found</h1></body></html>'' resp, st, Inr ()))"

definition queryUserId :: "('s, 'd) siteWorld \<Rightarrow> string \<Rightarrow> string \<Rightarrow> 'd \<Rightarrow> int result" where
  "queryUserId w username password db =
     rbind (pw_query w ''SELECT id FROM users WHERE username = ? AND password = ?'' [username, password] db) (\<lambda>res.
     Inr (case res of Some userId \<Rightarrow> userId | None \<Rightarrow> -1))"

definition updateMaxOnline :: "nat \<Rightarrow> ('s, 'd) site \<Rightarrow> ('s, 'd) site" where
  "updateMaxOnline online st = st\<lparr>maxOnline := max (maxOnline st) (int online)\<rparr>"

text \<open>A user who is let in: the session is marked, and the user is online.\<close>

definition admit :: "('s, 'd) siteWorld \<Rightarrow> int \<Rightarrow> string \<Rightarrow> httpRequest \<Rightarrow> httpResponse \<Rightarrow> ('s, 'd) site \<Rightarrow> httpResponse \<times> ('s, 'd) site" where
  "admit w userId username req resp st =
     (let (s, resp1, st1) = open_session w req resp st;
          (s1, sm1) = setValue (pw_now w) ''userId'' (to_string userId) s (site_sessions st1);
          (s2, sm2) = setValue (pw_now w) ''username'' username s1 sm1;
          (s3, sm3) = setValue (pw_now w) ''isLoggedIn'' ''true'' s2 sm2;
          st2 = st1\<lparr>site_sessions := sm3, onlineUsers := AList.update userId True (onlineUsers st1)\<rparr> in
      (resp1, updateMaxOnline (length (onlineUsers st2)) st2))"

definition json_request :: "httpRequest \<Rightarrow> bool" where
  "json_request req \<longleftrightarrow> getHeader ''Content-Type'' req = ''application/json'' \<and> httpRequest.content req \<noteq> []"

definition login_body :: "('s, 'd) siteWorld \<Rightarrow> ('s, 'd) page" where
  "login_body w req resp st =
     (case rbind (parse_body w req) (\<lambda>parsed. rbind (index_string ''username'' parsed) (\<lambda>username. rbind (index_string ''password'' parsed) (\<lambda>password.
             rbind (queryUserId w username password (site_db st)) (\<lambda>userId. Inr (username, userId))))) of
        Inl e \<Rightarrow> (resp, st, Inl e)
      | Inr (username, userId) \<Rightarrow>
          if userId \<noteq> -1 then
            if map_of (onlineUsers st) userId = None \<or> map_of (onlineUsers st) userId = Some False then
              let (resp1, st1) = admit w userId username req resp st in
              (respond (version req) 200 ''OK'' False ''application/json''
                 (pw_dump4 w (JObject [(''success'', JBool True), (''userId'', JInt userId), (''username'', JString username)])) resp1, st1, Inr ())
            else
              (respond (version req) 403 ''Forbidden'' True ''application/json''
                 (pw_dump4 w (JObject [(''success'', JBool False), (''error'', JString (utf8 [232, 180, 166, 229, 143, 183, 229, 183, 178, 229, 156, 168, 229, 133, 182,
                    228, 187, 150, 229, 156, 176, 230, 150, 185, 231, 153, 187, 229, 189, 149]))])) resp, st, Inr ())
          else
            (respond (version req) 401 ''Unauthorized'' False ''application/json'' (pw_dump4 w (error_json ''Invalid username or password'')) resp, st, Inr ()))"

definition LoginHandler :: "('s, 'd) siteWorld \<Rightarrow> ('s, 'd) page" where
  "LoginHandler w req resp st =
     (if \<not> json_request req then (respond (version req) 400 ''Bad Request'' True ''application/json'' [] resp, st, Inr ())
      else catch_std (bad_json w req) (login_body w req resp st))"

text \<open>\<open>executeQuery\<close> throws a \<open>DbException\<close>, which the handlers of \<open>sql::SQLException\<close> in these two functions do not catch.\<close>

definition isUserExist :: "('s, 'd) siteWorld \<Rightarrow> string \<Rightarrow> 'd \<Rightarrow> bool result" where
  "isUserExist w username db = rbind (pw_query w ''SELECT id FROM users WHERE username = ?'' [username] db) (\<lambda>res. Inr (res \<noteq> None))"

definition insertUser :: "('s, 'd) siteWorld \<Rightarrow> string \<Rightarrow> string \<Rightarrow> 'd \<Rightarrow> 'd \<times> int result" where
  "insertUser w username password db =
     (case isUserExist w username db of
        Inl e \<Rightarrow> (db, Inl e)
      | Inr True \<Rightarrow> (db, Inr (-1))
      | Inr False \<Rightarrow>
          let (db1, r) = pw_update w ''INSERT INTO users (username, password) VALUES (?, ?)'' [username, password] db in
          (case r of
             Inl e \<Rightarrow> (db1, Inl e)
           | Inr _ \<Rightarrow>
               (db1, rbind (pw_query w ''SELECT id FROM users WHERE username = ?'' [username] db1) (\<lambda>res.
                  Inr (case res of Some userId \<Rightarrow> userId | None \<Rightarrow> -1)))))"

definition RegisterHandler :: "('s, 'd) siteWorld \<Rightarrow> ('s, 'd) page" where
  "RegisterHandler w req resp st =
     (case rbind (parse_body w req) (\<lambda>parsed. rbind (index_string ''username'' parsed) (\<lambda>username. rbind (index_string ''password'' parsed) (\<lambda>password.
             Inr (username, password)))) of
        Inl e \<Rightarrow> (resp, st, Inl e)
      | Inr (username, password) \<Rightarrow>
          let (db, r) = insertUser w username password (site_db st); st1 = st\<lparr>site_db := db\<rparr> in
          (case r of
             Inl e \<Rightarrow> (resp, st1, Inl e)
           | Inr userId \<Rightarrow>
               (if userId \<noteq> -1 \<and> userId \<noteq> -2 then
                  respond (version req) 200 ''OK'' False ''application/json''
                    (pw_dump4 w (JObject [(''status'', JString ''success''), (''message'', JString ''Register successful''), (''userId'', JInt userId)])) resp
                else if userId = -1 then
                  respond (version req) 409 ''Conflict'' False ''application/json'' (pw_dump4 w (error_json ''username already exists'')) resp
                else
                  respond (version req) 500 ''Internal Server Error'' False ''application/json'' (pw_dump4 w (error_json ''insert failed'')) resp,
                st1, Inr ())))"

section \<open>Logout\<close>

text \<open>The game of a user who logs out: it is lost, and the opponent is told.\<close>

definition logoutGame :: "('s, 'd) siteWorld \<Rightarrow> int \<Rightarrow> 's gameServer \<Rightarrow> 's gameServer \<times> unit result" where
  "logoutGame w userId gs =
     (let rid = getRoomByUserId userId gs in
      if rid > 0 then
        let (gs1, found) = getGameRoom (pw_load w) rid gs in
        (case found of
           Inl e \<Rightarrow> (gs1, Inl e)
         | Inr None \<Rightarrow> (gs1, Inr ())
         | Inr (Some room) \<Rightarrow>
             let opponentId = getOpponent userId room; (gs2, res) = finishGameRoom (pw_load w) (pw_replace w) rid opponentId gs1 in
             (case res of
                Inl e \<Rightarrow> (gs2, Inl e)
              | Inr (status, _) \<Rightarrow>
                  if status \<noteq> PvpOk then (gs2, Inr ())
                  else
                    let oppConn = getConnectionByUserId opponentId gs2;
                        gs3 = (if reachable (pw_env w) oppConn then
                            addToLobby opponentId oppConn (send_if_up (pw_env w) oppConn (JObject [(''type'', JString ''game_over''), (''winner'', JInt opponentId),
                              (''reason'', JString ''opponent_left''), (''message'', JString (utf8 [229, 175, 185, 230, 137, 139, 229, 183, 178, 233, 128, 128, 229, 135, 186,
                                230, 184, 184, 230, 136, 143, 239, 188, 140, 228, 189, 160, 232, 142, 183, 232, 131, 156, 228, 186, 134, 239, 188, 129]))]) gs2)
                          else gs2) in
                    (removeGameRoom rid gs3, Inr ())))
      else (gs, Inr ()))"

definition logout_body :: "('s, 'd) siteWorld \<Rightarrow> ('s, 'd) page" where
  "logout_body w req resp st =
     (let (s, resp1, st1) = open_session w req resp st in
      case stoi (getValue ''userId'' s) of
        Inl e \<Rightarrow> (resp1, st1, Inl e)
      | Inr userId \<Rightarrow>
          let (s1, sm1) = ses_clear s (site_sessions st1);
              st2 = st1\<lparr>site_sessions := destroySession (sessionId s1) sm1\<rparr> in
          (case rbind (parse_body w req) (\<lambda>parsed. index_int ''gameType'' parsed) of
             Inl e \<Rightarrow> (resp1, st2, Inl e)
           | Inr gameType \<Rightarrow>
               let st3 = st2\<lparr>onlineUsers := AList.delete userId (onlineUsers st2)\<rparr>;
                   (st4, r) =
                     (if gameType = 1 then (st3\<lparr>aiGames := (aiGames st3)(userId := None)\<rparr>, Inr ())
                      else if gameType = 2 then
                        let (gs, r1) = logoutGame w userId (site_game st3) in
                        (case r1 of
                           Inl e \<Rightarrow> (st3\<lparr>site_game := gs\<rparr>, Inl e)
                         | Inr _ \<Rightarrow> (st3\<lparr>site_game := removeFromLobby userId (gs\<lparr>gs_queue := leaveQueue userId (gs_queue gs)\<rparr>)\<rparr>, Inr ()))
                      else (st3, Inr ())) in
               (case r of
                  Inl e \<Rightarrow> (resp1, st4, Inl e)
                | Inr _ \<Rightarrow>
                    (respond (version req) 200 ''OK'' True ''application/json'' (pw_dump4 w (JObject [(''message'', JString ''logout successful'')])) resp1, st4, Inr ()))))"

definition LogoutHandler :: "('s, 'd) siteWorld \<Rightarrow> ('s, 'd) page" where
  "LogoutHandler w req resp st =
     (if \<not> json_request req then (respond (version req) 400 ''Bad Request'' True ''application/json'' [] resp, st, Inr ())
      else catch_std (bad_json w req) (logout_body w req resp st))"

section \<open>Pages with the user's name\<close>

definition escapeForJsString :: "string \<Rightarrow> string" where
  "escapeForJsString s = concat (map (\<lambda>c.
     if c = CHR 0x5C then [CHR 0x5C, CHR 0x5C]
     else if c = CHR 0x27 then [CHR 0x5C, CHR 0x27]
     else if c = CHR 0x22 then [CHR 0x5C, CHR 0x22]
     else if c = CHR 0x0A then [CHR 0x5C, CHR ''n'']
     else if c = CHR 0x0D then [CHR 0x5C, CHR ''r'']
     else [c]) s)"

definition quoted :: "string \<Rightarrow> string" where
  "quoted s = [CHR 0x27] @ s @ [CHR 0x27]"

definition injected :: "string \<Rightarrow> string \<Rightarrow> string" where
  "injected userId username =
     ''<script>'' @ ''var INJECTED_USERID = '' @ quoted userId @ '';'' @ ''var INJECTED_USERNAME = '' @ quoted username @ '';'' @ ''</script>''"

definition inject :: "string \<Rightarrow> string \<Rightarrow> string" where
  "inject script html = (case str_find ''</head>'' html of Some headEnd \<Rightarrow> take headEnd html @ script @ drop headEnd html | None \<Rightarrow> html)"

definition menu_body :: "('s, 'd) siteWorld \<Rightarrow> ('s, 'd) page" where
  "menu_body w req resp st =
     (let (s, resp1, st1) = open_session w req resp st in
      if \<not> loggedIn s then (unauthorized w req resp1, st1, Inr ())
      else case rbind (stoi (getValue ''userId'' s)) (\<lambda>userId. rbind (readPage w ''menu.html'') (\<lambda>html. Inr (userId, html))) of
          Inl e \<Rightarrow> (resp1, st1, Inl e)
        | Inr (userId, html) \<Rightarrow>
            let htmlContent = inject (injected (to_string userId) (escapeForJsString (getValue ''username'' s))) html in
            (packageResp (version req) 200 ''OK'' False ''text/html'' (length htmlContent) htmlContent resp1, st1, Inr ()))"

definition MenuHandler :: "('s, 'd) siteWorld \<Rightarrow> ('s, 'd) page" where
  "MenuHandler w req resp st = catch_std (bad_json w req) (menu_body w req resp st)"

text \<open>The callback of \<open>/pvp\<close>; the name is not escaped there.\<close>

definition pvp_page :: "('s, 'd) siteWorld \<Rightarrow> ('s, 'd) page" where
  "pvp_page w req resp st =
     (let (s, resp1, st1) = open_session w req resp st in
      if \<not> loggedIn s then (unauthorized w req resp1, st1, Inr ())
      else case pw_files w ''../WebApps/GomokuServer/resource/ChessGameVsPlayer.html'' of
          None \<Rightarrow> (resp1\<lparr>statusCode := 404, statusMessage := ''Not Found'', closeConnection := True\<rparr>, st1, Inr ())
        | Some html \<Rightarrow>
            (respond (version req) 200 ''OK'' False ''text/html'' (inject (injected (getValue ''userId'' s) (getValue ''username'' s)) html) resp1, st1, Inr ()))"

section \<open>Games against the computer\<close>

definition AiGameStartHandler :: "('s, 'd) siteWorld \<Rightarrow> ('s, 'd) page" where
  "AiGameStartHandler w req resp st =
     (let (s, resp1, st1) = open_session w req resp st in
      if \<not> loggedIn s then (unauthorized w req resp1, st1, Inr ())
      else case stoi (getValue ''userId'' s) of
          Inl e \<Rightarrow> (resp1, st1, Inl e)
        | Inr userId \<Rightarrow>
            let st2 = st1\<lparr>aiGames := (aiGames st1)(userId \<mapsto> AiGame userId)\<rparr> in
            (case readPage w ''ChessGameVsAi.html'' of
               Inl e \<Rightarrow> (resp1, st2, Inl e)
             | Inr html \<Rightarrow> (respond (version req) 200 ''OK'' False ''text/html'' html resp1, st2, Inr ())))"

definition restartChessGameVsAi :: "('s, 'd) siteWorld \<Rightarrow> ('s, 'd) page" where
  "restartChessGameVsAi w req resp st =
     (let (s, resp1, st1) = open_session w req resp st in
      if \<not> loggedIn s then (unauthorized w req resp1, st1, Inr ())
      else case stoi (getValue ''userId'' s) of
          Inl e \<Rightarrow> (resp1, st1, Inl e)
        | Inr userId \<Rightarrow>
            let text = pw_dump4 w (JObject [(''status'', JString ''ok''), (''message'', JString ''restart successful''), (''userId'', JInt userId)]) in
            (packageResp (version req) 200 ''OK'' False ''application/json'' (length text) text resp1,
             st1\<lparr>aiGames := (aiGames st1)(userId \<mapsto> AiGame userId)\<rparr>, Inr ()))"

text \<open>The answer to a move: the board, who has won and whose turn it is; after the computer's move also its last move.\<close>

definition move_json :: "aiGame \<Rightarrow> string \<Rightarrow> string \<Rightarrow> bool \<Rightarrow> json" where
  "move_json g won next_turn moved_last =
     JObject ([(''status'', JString ''ok''), (''board'', board_json (ai_board g)), (''winner'', JString won), (''next_turn'', JString next_turn)] @
       (if moved_last then [(''last_move'', JObject [(''x'', JInt (fst (ai_lastMove g))), (''y'', JInt (snd (ai_lastMove g)))])] else []))"

definition move_answer :: "('s, 'd) siteWorld \<Rightarrow> httpRequest \<Rightarrow> json \<Rightarrow> httpResponse \<Rightarrow> httpResponse" where
  "move_answer w req j resp = respond (version req) 200 ''OK'' False ''application/json'' (json_dump (env_lib (pw_env w)) j) resp"

definition ai_put :: "int \<Rightarrow> aiGame option \<Rightarrow> ('s, 'd) site \<Rightarrow> ('s, 'd) site" where
  "ai_put userId g st = st\<lparr>aiGames := (aiGames st)(userId := g)\<rparr>"

text \<open>The player's move on the game, then the computer's, with the ends of the game between and after them.\<close>

definition play :: "('s, 'd) siteWorld \<Rightarrow> int \<Rightarrow> int \<Rightarrow> int \<Rightarrow> aiGame \<Rightarrow> ('s, 'd) page" where
  "play w userId x y g req resp st =
     (case humanMove x y g of
        Inl e \<Rightarrow> (resp, st, Inl e)
      | Inr (valid, g1) \<Rightarrow>
          if \<not> valid then
            (respond (version req) 400 ''Bad Request'' False ''application/json'' (json_dump (env_lib (pw_env w)) (error_json ''Invalid move'')) resp, st, Inr ())
          else if ai_gameOver g1 then (move_answer w req (move_json g1 ''human'' ''none'' False) resp, ai_put userId None st, Inr ())
          else if ai_isDraw g1 then (move_answer w req (move_json g1 ''draw'' ''none'' False) resp, ai_put userId None st, Inr ())
          else
            (case aiMove (pw_rand w) g1 of
               Inl e \<Rightarrow> (resp, ai_put userId (Some g1) st, Inl e)
             | Inr g2 \<Rightarrow>
                 if ai_gameOver g2 then (move_answer w req (move_json g2 ''ai'' ''none'' True) resp, ai_put userId None st, Inr ())
                 else if ai_isDraw g2 then (move_answer w req (move_json g2 ''draw'' ''none'' True) resp, ai_put userId None st, Inr ())
                 else (move_answer w req (move_json g2 ''none'' ''human'' True) resp, ai_put userId (Some g2) st, Inr ())))"

definition ai_body :: "('s, 'd) siteWorld \<Rightarrow> ('s, 'd) page" where
  "ai_body w req resp st =
     (let (s, resp1, st1) = open_session w req resp st in
      if \<not> loggedIn s then (unauthorized w req resp1, st1, Inr ())
      else case rbind (stoi (getValue ''userId'' s)) (\<lambda>userId. rbind (parse_body w req) (\<lambda>j. rbind (index_int ''x'' j) (\<lambda>x. rbind (index_int ''y'' j) (\<lambda>y. Inr (userId, x, y))))) of
          Inl e \<Rightarrow> (resp1, st1, Inl e)
        | Inr (userId, x, y) \<Rightarrow>
            let g = (case aiGames st1 userId of Some g \<Rightarrow> g | None \<Rightarrow> AiGame userId) in
            play w userId x y g req resp1 (ai_put userId (Some g) st1))"

definition AiGameMoveHandler :: "('s, 'd) siteWorld \<Rightarrow> ('s, 'd) page" where
  "AiGameMoveHandler w req resp st =
     catch_std (\<lambda>e resp. let text = json_dump (env_lib (pw_env w)) (error_json e) in
         packageResp (version req) 500 ''Internal Server Error'' False ''application/json'' (length text) text resp)
       (ai_body w req resp st)"

section \<open>Backend and the rest\<close>

definition GameBackendHandler :: "('s, 'd) siteWorld \<Rightarrow> ('s, 'd) page" where
  "GameBackendHandler w req resp st =
     (case readPage w ''Backend.html'' of
        Inl e \<Rightarrow> (resp, st, Inl e)
      | Inr html \<Rightarrow> (respond (version req) 200 ''OK'' False ''text/html'' html resp, st, Inr ()))"

definition getUserCount :: "('s, 'd) siteWorld \<Rightarrow> 'd \<Rightarrow> int result" where
  "getUserCount w db = rbind (pw_query w ''SELECT COUNT(*) as count FROM users'' [] db) (\<lambda>res. Inr (case res of Some n \<Rightarrow> n | None \<Rightarrow> 0))"

definition getBackendData :: "('s, 'd) siteWorld \<Rightarrow> ('s, 'd) page" where
  "getBackendData w req resp st =
     (case getUserCount w (site_db st) of
        Inr totalUser \<Rightarrow>
          (respond (version req) 200 ''OK'' False ''application/json'' (pw_dump4 w (JObject [(''curOnline'', JInt (int (length (onlineUsers st)))),
             (''maxOnline'', JInt (maxOnline st)), (''totalUser'', JInt totalUser)])) resp, st, Inr ())
      | Inl (Uncaught e) \<Rightarrow>
          let errorStr = json_dump (env_lib (pw_env w)) (JObject [(''error'', JString ''Internal Server Error''), (''message'', JString e)]) in
          (((resp_setContentLength (length errorStr) ((setContentType ''application/json''
              (resp\<lparr>statusCode := 500, statusMessage := ''Internal Server Error''\<rparr>))\<lparr>body := errorStr\<rparr>)))\<lparr>closeConnection := True\<rparr>, st, Inr ())
      | Inl e \<Rightarrow> (resp, st, Inl e))"

definition api_test :: "('s, 'd) page" where
  "api_test req resp st =
     ((setContentType ''application/json'' (resp\<lparr>statusCode := 200, statusMessage := ''OK''\<rparr>))
        \<lparr>body := [CHR 0x7B, CHR 0x22] @ ''status'' @ [CHR 0x22] @ '': '' @ [CHR 0x22] @ ''ok'' @ [CHR 0x22] @ '', '' @ [CHR 0x22] @ ''message'' @ [CHR 0x22] @ '': '' @
          [CHR 0x22] @ ''Test endpoint'' @ [CHR 0x22, CHR 0x7D]\<rparr>, st, Inr ())"

section \<open>Routes and the start of the server\<close>

datatype pageId = Entry | Login | Register | Logout | Menu | AiStart | AiMove | AiRestart | Backend | BackendData | ApiTest | Ws | Pvp

definition initializeRouter :: "pageId router" where
  "initializeRouter =
     registerCallback kGet ''/pvp'' Pvp (registerHandler kGet ''/ws'' Ws (registerCallback kGet ''/api/test'' ApiTest
       (registerCallback kGet ''/backend_data'' BackendData (registerHandler kGet ''/backend'' Backend (registerCallback kGet ''/aiBot/restart'' AiRestart
       (registerHandler kPost ''/aiBot/move'' AiMove (registerHandler kGet ''/aiBot/start'' AiStart (registerHandler kGet ''/menu'' Menu
       (registerHandler kPost ''/user/logout'' Logout (registerHandler kPost ''/register'' Register (registerHandler kPost ''/login'' Login
       (registerHandler kGet ''/entry'' Entry (registerHandler kGet ''/'' Entry Router)))))))))))))"

text \<open>The pages that are not WebSocket upgrades.\<close>

definition page_of :: "('s, 'd) siteWorld \<Rightarrow> pageId \<Rightarrow> ('s, 'd) page" where
  "page_of w p =
     (case p of Entry \<Rightarrow> EntryHandler w | Login \<Rightarrow> LoginHandler w | Register \<Rightarrow> RegisterHandler w | Logout \<Rightarrow> LogoutHandler w | Menu \<Rightarrow> MenuHandler w
      | AiStart \<Rightarrow> AiGameStartHandler w | AiMove \<Rightarrow> AiGameMoveHandler w | AiRestart \<Rightarrow> restartChessGameVsAi w | Backend \<Rightarrow> GameBackendHandler w
      | BackendData \<Rightarrow> getBackendData w | Pvp \<Rightarrow> pvp_page w | _ \<Rightarrow> api_test)"

text \<open>\<open>GameWsHandler::handle\<close> with the session of the request.\<close>

definition ws_page :: "('s, 'd) siteWorld \<Rightarrow> httpRequest \<Rightarrow> httpResponse \<Rightarrow> ('s, 'd) site \<times> 's gameServer webSocketServer \<Rightarrow>
    httpResponse \<times> (('s, 'd) site \<times> 's gameServer webSocketServer) \<times> unit result" where
  "ws_page w req resp x =
     (let (s, resp1, st1) = open_session w req resp (fst x);
          (resp2, ws, gs, r) = game_handle (pw_env w) (pw_load w) (pw_replace w) (pw_digest w) (\<lambda>k. getValue k s) req resp1 (snd x) (site_game st1) in
      (resp2, (st1\<lparr>site_game := gs\<rparr>, ws), r))"

definition handle_page :: "('s, 'd) siteWorld \<Rightarrow> pageId \<Rightarrow> httpRequest \<Rightarrow> httpResponse \<Rightarrow> ('s, 'd) site \<times> 's gameServer webSocketServer \<Rightarrow>
    httpResponse \<times> (('s, 'd) site \<times> 's gameServer webSocketServer) \<times> unit result" where
  "handle_page w p req resp x =
     (if p = Ws then ws_page w req resp x
      else let (resp1, st, r) = page_of w p req resp (fst x) in (resp1, (st, snd x), r))"

definition requiredEnvironment :: "(string \<rightharpoonup> string) \<Rightarrow> string \<Rightarrow> string result" where
  "requiredEnvironment getenv name =
     (case getenv name of
        Some v \<Rightarrow> if v = [] then Inl (Uncaught (''Missing required environment variable: '' @ name)) else Inr v
      | None \<Rightarrow> Inl (Uncaught (''Missing required environment variable: '' @ name)))"

definition databaseConfigFromEnvironment :: "(string \<rightharpoonup> string) \<Rightarrow> (string \<times> string \<times> string \<times> string) result" where
  "databaseConfigFromEnvironment getenv =
     rbind (requiredEnvironment getenv ''GOMOKU_DB_HOST'') (\<lambda>host. rbind (requiredEnvironment getenv ''GOMOKU_DB_USER'') (\<lambda>user.
     rbind (requiredEnvironment getenv ''GOMOKU_DB_PASSWORD'') (\<lambda>password. rbind (requiredEnvironment getenv ''GOMOKU_DB_NAME'') (\<lambda>name.
     Inr (host, user, password, name)))))"

definition initializeSession :: "bool \<Rightarrow> sessionManager" where
  "initializeSession useSSL = \<lparr>storage = MemorySessionStorage, secureCookies = useSSL\<rparr>"

text \<open>The constructor of the game server with \<open>initialize\<close>: the rooms are recovered, the pool is connected to the database, sessions, middleware and routes
  are set up. \<open>connect\<close> is the database that the pool reaches.\<close>

definition newServer :: "openssl \<Rightarrow> 's loader \<Rightarrow> 's \<Rightarrow> (string \<rightharpoonup> string) \<Rightarrow> (string \<times> string \<times> string \<times> string \<Rightarrow> 'd result) \<Rightarrow> bool \<Rightarrow> bool \<Rightarrow> string \<Rightarrow> string \<Rightarrow>
    (pageId, ('s, 'd) site, 's gameServer, 'e) httpServer result" where
  "newServer lib ld store getenv connect dir_ok useSSL certificateFile privateKeyFile =
     (let gs = GomokuServer ld store in
      rbind (rbind (databaseConfigFromEnvironment getenv) connect) (\<lambda>db.
      if useSSL \<and> (certificateFile = [] \<or> privateKeyFile = []) then Inl (Uncaught ''TLS certificate and private key are required'')
      else rbind (setSslConfig lib useSSL (gameSslConfig certificateFile privateKeyFile)) (\<lambda>_.
        Inr \<lparr>hs_useSSL = useSSL, hs_middleware = initializeMiddleware dir_ok, hs_router = initializeRouter, hs_ws = WebSocketServer,
        hs_app = \<lparr>site_game = gs, site_sessions = initializeSession useSSL, aiGames = Map.empty, onlineUsers = [], maxOnline = 0, site_db = db\<rparr>,
        hs_contexts = Map.empty, hs_ssl = Map.empty, hs_out = [], hs_shut = {}\<rparr>)))"

text \<open>The checks of \<open>main\<close> on its options, and the server that redirects to HTTPS.\<close>

definition options_ok :: "string \<Rightarrow> string \<Rightarrow> string \<Rightarrow> int \<Rightarrow> int \<Rightarrow> bool" where
  "options_ok raftConfig certificateFile privateKeyFile httpPort httpsPort \<longleftrightarrow>
     raftConfig \<noteq> [] \<and> certificateFile \<noteq> [] \<and> privateKeyFile \<noteq> [] \<and> httpPort > 0 \<and> httpsPort > 0 \<and> httpPort \<noteq> httpsPort"

definition redirect :: "int \<Rightarrow> httpRequest \<Rightarrow> httpResponse \<Rightarrow> httpResponse" where
  "redirect httpsPort req resp =
     (let location = ''https://127.0.0.1:'' @ to_string httpsPort @ path req @ (if queryString req \<noteq> [] then ''?'' @ queryString req else []) in
      resp_addHeader ''Cache-Control'' ''no-store'' (resp_addHeader ''Location'' location
        (resp_setContentLength 0 ((setStatusLine (version req) 308 ''Permanent Redirect'' resp)\<lparr>closeConnection := True\<rparr>))))"

section \<open>Well-formed answers\<close>

lemma map_of_insert [simp]: "map_of (map_insert k v kvs) = (map_of kvs)(k \<mapsto> v)"
  by (induction kvs) (auto simp: fun_eq_iff)

definition framed :: "httpRequest \<Rightarrow> httpResponse \<Rightarrow> bool" where
  "framed req resp \<longleftrightarrow> httpVersion resp = version req \<and> statusCode resp \<in> {200, 400, 401, 403, 404, 409, 500} \<and>
     map_of (resp_headers resp) ''Content-Length'' = Some (to_string (int (length (body resp)))) \<and>
     (\<exists>ct \<in> {''text/html'', ''application/json''}. map_of (resp_headers resp) ''Content-Type'' = Some ct)"

lemma framed_respond:
  "code \<in> {200, 400, 401, 403, 404, 409, 500} \<Longrightarrow> ct \<in> {''text/html'', ''application/json''} \<Longrightarrow> framed req (respond (version req) code msg close ct text resp)"
  "code \<in> {200, 400, 401, 403, 404, 409, 500} \<Longrightarrow> ct \<in> {''text/html'', ''application/json''} \<Longrightarrow>
     framed req (packageResp (version req) code msg close ct (length text) text resp)"
  by (auto simp: framed_def respond_def packageResp_def setStatusLine_def setContentType_def resp_setContentLength_def resp_addHeader_def)

lemma framed_unauthorized [simp]: "framed req (unauthorized w req resp)"
  by (simp add: unauthorized_def Let_def framed_respond)

lemma framed_move_answer [simp]: "framed req (move_answer w req j resp)"
  by (simp add: move_answer_def framed_respond)









section \<open>Only users who are signed in\<close>

definition signed_in :: "int \<Rightarrow> httpRequest \<Rightarrow> sessionManager \<Rightarrow> bool" where
  "signed_in now req sm \<longleftrightarrow> getSessionIdFromCookie req \<noteq> [] \<and> (\<exists>s. storage sm (getSessionIdFromCookie req) = Some s \<and> \<not> isExpired now s \<and> loggedIn s)"

lemma open_session_fields [simp]:
  "open_session w req resp st = (s, resp1, st1) \<Longrightarrow> st1 = st\<lparr>site_sessions := site_sessions st1\<rparr>"
  by (auto simp: open_session_def split: prod.splits)

lemma new_session: "\<not> loggedIn (ses_refresh now (Session now' i b))"
  by (simp add: loggedIn_def getValue_def ses_refresh_def Session_def)

lemma signed_in_session:
  assumes "open_session w req resp st = (s, resp1, st1)"
  shows "loggedIn s \<longleftrightarrow> signed_in (pw_now w) req (site_sessions st)"
proof -
  have r: "loggedIn (ses_refresh now x) = loggedIn x" "loggedIn (x\<lparr>has_manager := b\<rparr>) = loggedIn x" for now x b
    by (simp_all add: loggedIn_def getValue_def ses_refresh_def)
  show ?thesis
    using assms new_session
    by (auto simp: open_session_def getSession_def signed_in_def load_def r Let_def split: if_splits option.splits)
qed

text \<open>Pages of users. A request for the menu, a game against the computer, the PVP page or the WebSocket whose cookie names no live session of a signed-in
  user is answered with 401 and the connection is closed; nothing changes but the table of sessions.\<close>

theorem pages_need_login:
  assumes "p \<in> {Menu, AiStart, AiMove, AiRestart, Pvp, Ws}" and "\<not> signed_in (pw_now w) req (site_sessions (fst x))"
  shows "\<exists>resp' sm. handle_page w p req resp x = (resp', ((fst x)\<lparr>site_sessions := sm\<rparr>, snd x), Inr ()) \<and> statusCode resp' = 401 \<and> closeConnection resp'"
proof -
  obtain st ws where x: "x = (st, ws)" by fastforce
  obtain s resp1 st1 where o: "open_session w req resp st = (s, resp1, st1)" by (metis prod_cases3)
  then have st1: "st1 = st\<lparr>site_sessions := site_sessions st1\<rparr>" by simp
  have out: "\<not> loggedIn s" using signed_in_session [OF o] assms(2) x by simp
  have un: "statusCode (unauthorized w req resp1) = 401" "closeConnection (unauthorized w req resp1)"
    by (simp_all add: unauthorized_def packageResp_def Let_def resp_setContentLength_def setContentType_def resp_addHeader_def)
  have "\<exists>resp'. handle_page w p req resp x = (resp', (st1, ws), Inr ()) \<and> statusCode resp' = 401 \<and> closeConnection resp'"
  proof (cases "p = Ws")
    case True
    have "st1\<lparr>site_game := site_game st1\<rparr> = st1" by simp
    then show ?thesis using out o True unfolding x
      by (simp add: handle_page_def ws_page_def game_handle_def loggedIn_def)
  next
    case False
    then show ?thesis using assms(1) o out un unfolding x
      by (auto simp: handle_page_def page_of_def MenuHandler_def menu_body_def AiGameStartHandler_def AiGameMoveHandler_def ai_body_def
        restartChessGameVsAi_def pvp_page_def catch_std_def Let_def split: prod.split)
  qed
  then show ?thesis using st1 unfolding x fst_conv snd_conv by metis
qed

section \<open>The site stays consistent\<close>

definition int32 :: "int \<Rightarrow> bool" where
  "int32 i \<longleftrightarrow> - (2 ^ 31) \<le> i \<and> i < 2 ^ 31"

definition users_ok :: "sessionManager \<Rightarrow> bool" where
  "users_ok sm \<longleftrightarrow> manager_ok sm \<and> (\<forall>i s. storage sm i = Some s \<longrightarrow> loggedIn s \<longrightarrow> (\<exists>u. int32 u \<and> getValue ''userId'' s = to_string u))"

definition games_ok :: "(int \<rightharpoonup> aiGame) \<Rightarrow> bool" where
  "games_ok gs \<longleftrightarrow> (\<forall>u g. gs u = Some g \<longrightarrow> ai_ok g \<and> \<not> ai_gameOver g \<and> \<not> ai_isDraw g)"

definition online_ok :: "(int \<times> bool) list \<Rightarrow> int \<Rightarrow> bool" where
  "online_ok us n \<longleftrightarrow> distinct (map fst us) \<and> (\<forall>(u, b) \<in> set us. b) \<and> int (length us) \<le> n"

definition site_ok :: "('s, 'd) site \<Rightarrow> bool" where
  "site_ok st \<longleftrightarrow> users_ok (site_sessions st) \<and> games_ok (aiGames st) \<and> online_ok (onlineUsers st) (maxOnline st)"

lemma loggedIn_frame [simp]: "loggedIn (ses_refresh now s) = loggedIn s" "loggedIn (s\<lparr>has_manager := b\<rparr>) = loggedIn s"
  "getValue k (ses_refresh now s) = getValue k s" "getValue k (s\<lparr>has_manager := b\<rparr>) = getValue k s"
  by (simp_all add: loggedIn_def getValue_def ses_refresh_def)

lemma refresh_fields [simp]: "sessionId (ses_refresh now s) = sessionId s" "has_manager (ses_refresh now s) = has_manager s" "data (ses_refresh now s) = data s"
  "ses_maxAge (ses_refresh now s) = ses_maxAge s"
  by (simp_all add: ses_refresh_def)

lemma stoi_to_string: "int32 u \<Longrightarrow> stoi (to_string u) = Inr u"
proof -
  have d: "\<not> isspace ch" if "is_digit ch \<or> ch = CHR ''-''" for ch
  proof
    assume "isspace ch"
    then have "\<not> is_digit ch \<and> ch \<noteq> CHR ''-''" unfolding isspace_def by (auto simp: is_digit_def less_eq_char_def)
    with that show False by simp
  qed
  have "\<exists>ch r. to_string u = ch # r \<and> \<not> isspace ch"
  proof (cases "nat_string (nat u)")
    case (Cons a list)
    then have "is_digit a" using nat_string_digits [of "nat u"] by simp
    then show ?thesis using d Cons by (simp add: to_string_def)
  qed (use nat_string_nonempty in simp)
  then have "dropWhile isspace (to_string u) = to_string u" by auto
  then show "int32 u \<Longrightarrow> ?thesis" using parse_to_string [of "[]" u] by (simp add: stoi_def int32_def)
qed

text \<open>Sessions.\<close>

lemma users_ok_save:
  assumes "users_ok sm" "has_manager s" "ses_maxAge s = 3600" "loggedIn s \<Longrightarrow> \<exists>u. int32 u \<and> getValue ''userId'' s = to_string u" "st \<subseteq>\<^sub>m storage sm"
  shows "users_ok (sm\<lparr>storage := save s st\<rparr>)"
proof -
  have "manager_ok (sm\<lparr>storage := save s st\<rparr>)" using assms by (intro manager_ok_save) (simp_all add: users_ok_def)
  moreover have "storage sm i = Some x" if "st i = Some x" for i x using assms(5) that by (metis domI map_le_def)
  ultimately show ?thesis using assms(1,4) unfolding users_ok_def save_def by (auto split: if_splits) blast
qed

lemma open_session_ok:
  assumes "users_ok (site_sessions st)" and "open_session w req resp st = (s, resp1, st1)"
  shows "users_ok (site_sessions st1) \<and> storage (site_sessions st1) (sessionId s) = Some s \<and> has_manager s \<and> ses_maxAge s = 3600 \<and>
    (loggedIn s \<longrightarrow> (\<exists>u. int32 u \<and> getValue ''userId'' s = to_string u))"
proof -
  let ?sm = "site_sessions st"
  let ?i = "getSessionIdFromCookie req"
  let ?old = "if ?i = [] then storage ?sm else snd (load (pw_now w) ?i (storage ?sm))"
  have m: "manager_ok ?sm" using assms(1) by (simp add: users_ok_def)
  have sm1: "site_sessions st1 = ?sm\<lparr>storage := save s ?old\<rparr>" using assms(2) by (auto simp: open_session_def getSession_eq Let_def split: option.splits)
  have s: "has_manager s \<and> ses_maxAge s = 3600 \<and> (loggedIn s \<longrightarrow> (\<exists>u. int32 u \<and> getValue ''userId'' s = to_string u))"
  proof (cases "found_session (pw_now w) req ?sm")
    case None
    then have "s = ses_refresh (pw_now w) (Session (pw_now w) (generateSessionId (pw_rs w)) True)"
      using assms(2) by (auto simp: open_session_def getSession_eq Let_def)
    then show ?thesis using new_session by (simp add: Session_def)
  next
    case (Some x)
    then have "s = ses_refresh (pw_now w) (x\<lparr>has_manager := True\<rparr>)" using assms(2) by (auto simp: open_session_def getSession_eq Let_def)
    moreover have "storage ?sm ?i = Some x" by (rule found_stored [OF Some])
    ultimately show ?thesis using assms(1) manager_okD [OF m] by (auto simp: users_ok_def)
  qed
  have "?old \<subseteq>\<^sub>m storage ?sm" using load_le by simp
  then show ?thesis using users_ok_save [OF assms(1), of s ?old] s by (simp add: sm1 save_def)
qed

lemma setValue_eq:
  "setValue now k v s sm = (ses_refresh now (s\<lparr>data := (data s)(k \<mapsto> v)\<rparr>),
     if has_manager s then sm\<lparr>storage := save (ses_refresh now (s\<lparr>data := (data s)(k \<mapsto> v)\<rparr>)) (storage sm)\<rparr> else sm)"
  by (simp add: setValue_def updateSession_def Let_def)

text \<open>What \<open>admit\<close> leaves: the session of the request, marked, and the user online.\<close>

lemma admit_eq:
  assumes "open_session w req resp st = (s, resp1, st1)" "has_manager s" "admit w u name req resp st = (resp', st')"
  shows "\<exists>s'. sessionId s' = sessionId s \<and> has_manager s' \<and> ses_maxAge s' = ses_maxAge s \<and> loggedIn s' \<and> getValue ''userId'' s' = to_string u \<and>
    getValue ''username'' s' = name \<and> expiryTime s' = pw_now w + ses_maxAge s * 1000000000 \<and> resp' = resp1 \<and>
    st' = st1\<lparr>site_sessions := (site_sessions st1)\<lparr>storage := save s' (storage (site_sessions st1))\<rparr>,
      onlineUsers := AList.update u True (onlineUsers st), maxOnline := max (maxOnline st) (int (length (AList.update u True (onlineUsers st))))\<rparr>"
proof -
  let ?now = "pw_now w"
  let ?s1 = "ses_refresh ?now (s\<lparr>data := (data s)(''userId'' \<mapsto> to_string u)\<rparr>)"
  let ?s2 = "ses_refresh ?now (?s1\<lparr>data := (data ?s1)(''username'' \<mapsto> name)\<rparr>)"
  let ?s3 = "ses_refresh ?now (?s2\<lparr>data := (data ?s2)(''isLoggedIn'' \<mapsto> ''true'')\<rparr>)"
  have st1: "onlineUsers st1 = onlineUsers st" "maxOnline st1 = maxOnline st" using open_session_fields [OF assms(1)] by (metis site.simps(4,5) site.select_convs site.surjective site.update_convs(2))+
  have "site_sessions st' = (site_sessions st1)\<lparr>storage := save ?s3 (storage (site_sessions st1))\<rparr>"
    using assms by (auto simp: admit_def updateMaxOnline_def setValue_eq save_def Let_def)
  moreover have "resp' = resp1 \<and> st' = st1\<lparr>site_sessions := site_sessions st',
      onlineUsers := AList.update u True (onlineUsers st), maxOnline := max (maxOnline st) (int (length (AList.update u True (onlineUsers st))))\<rparr>"
    using assms by (auto simp: admit_def updateMaxOnline_def setValue_eq Let_def st1)
  moreover have "sessionId ?s3 = sessionId s \<and> has_manager ?s3 \<and> ses_maxAge ?s3 = ses_maxAge s \<and> loggedIn ?s3 \<and> getValue ''userId'' ?s3 = to_string u \<and>
      getValue ''username'' ?s3 = name \<and> expiryTime ?s3 = ?now + ses_maxAge s * 1000000000"
    using assms(2) by (simp add: loggedIn_def getValue_def ses_refresh_def)
  ultimately show ?thesis by (intro exI [of _ ?s3]) simp
qed


text \<open>Games.\<close>

lemma AiGame_running [simp]: "ai_ok (AiGame u)" "\<not> ai_gameOver (AiGame u)" "\<not> ai_isDraw (AiGame u)"
  by (simp_all add: AiGame_ok) (simp_all add: AiGame_def ai_isDraw_def BOARD_SIZE_def)

lemma games_ok_upd: "games_ok gs \<Longrightarrow> (\<And>g. x = Some g \<Longrightarrow> ai_ok g \<and> \<not> ai_gameOver g \<and> \<not> ai_isDraw g) \<Longrightarrow> games_ok (gs(u := x))"
  by (simp add: games_ok_def)

lemma play_keeps:
  assumes "site_ok st" and "ai_ok g" "\<not> ai_gameOver g" "\<not> ai_isDraw g" and "play w u x y g req resp st = (resp', st', r)"
  shows "site_ok st' \<and> r = Inr ()"
proof -
  obtain g1 where h: "humanMove x y g = Inr (isInBoard x y \<and> cell (ai_board g) x y = BOARD_EMPTY \<and> \<not> ai_gameOver g, g1)" "ai_ok g1"
    using humanMove_wf [OF assms(2)] by blast
  obtain g2 where a: "aiMove (pw_rand w) g1 = Inr g2" "ai_ok g2" using aiMove_wf [OF h(2)] by blast
  have put: "site_ok (ai_put u x st)" if "\<And>g. x = Some g \<Longrightarrow> ai_ok g \<and> \<not> ai_gameOver g \<and> \<not> ai_isDraw g" for x
    using assms(1) games_ok_upd [OF _ that] by (simp add: site_ok_def ai_put_def)
  show ?thesis using assms(1,5) a h(2) put by (auto simp: play_def h(1) split: if_splits)
qed

lemma open_session_keeps: "site_ok st \<Longrightarrow> open_session w req resp st = (s, resp1, st1) \<Longrightarrow> site_ok st1"
  using open_session_ok [of st w req resp s resp1 st1] open_session_fields [of w req resp st s resp1 st1] by (cases st1) (auto simp: site_ok_def)

lemma put_running:
  assumes "site_ok st" "ai_ok g" "\<not> ai_gameOver g" "\<not> ai_isDraw g"
  shows "site_ok (ai_put u (Some g) st)"
  using assms games_ok_upd [of "aiGames st" "Some g" u] by (simp add: site_ok_def ai_put_def)

lemma ai_body_keeps:
  assumes "site_ok st" and "ai_body w req resp st = (resp', st', r)"
  shows "site_ok st'"
proof -
  obtain s resp1 st1 where o: "open_session w req resp st = (s, resp1, st1)" by (metis prod_cases3)
  have st1: "site_ok st1" by (rule open_session_keeps [OF assms(1) o])
  have g: "ai_ok g \<and> \<not> ai_gameOver g \<and> \<not> ai_isDraw g" if "(case aiGames st1 u of Some g \<Rightarrow> g | None \<Rightarrow> AiGame u) = g" for u g
    using st1 that by (cases "aiGames st1 u") (auto simp: site_ok_def games_ok_def)
  consider "st' = st1" | u x y where "play w u x y (case aiGames st1 u of Some g \<Rightarrow> g | None \<Rightarrow> AiGame u) req resp1
      (ai_put u (Some (case aiGames st1 u of Some g \<Rightarrow> g | None \<Rightarrow> AiGame u)) st1) = (resp', st', r)"
    using assms(2) o by (auto simp: ai_body_def Let_def split: if_splits sum.splits prod.splits)
  then show ?thesis
  proof cases
    case (2 u x y)
    with g [OF refl, of u] show ?thesis using play_keeps put_running [OF st1] by blast
  qed (use st1 in simp)
qed


text \<open>Users who are online.\<close>

lemma update_length: "length (AList.update k v al) \<le> length al + 1"
  by (induction al) auto

lemma update_set: "set (AList.update k v al) \<subseteq> insert (k, v) (set al)"
  by (induction al) auto

lemma online_ok_update:
  assumes "online_ok us n"
  shows "online_ok (AList.update u True us) (max n (int (length (AList.update u True us))))"
proof -
  have "distinct (map fst (AList.update u True us))" using assms AList.distinct_update by (auto simp: online_ok_def)
  moreover have "\<forall>(v, b) \<in> set (AList.update u True us). b" using assms update_set [of u True us] by (auto simp: online_ok_def)
  ultimately show ?thesis by (simp add: online_ok_def)
qed

lemma online_ok_delete:
  assumes "online_ok us n"
  shows "online_ok (AList.delete u us) n"
proof -
  have "int (length (AList.delete u us)) \<le> n" using AList.length_delete_le [of u us] assms by (simp add: online_ok_def)
  moreover have "\<forall>(v, b) \<in> set (AList.delete u us). b" using assms by (auto simp: online_ok_def AList.delete_eq)
  ultimately show ?thesis using AList.distinct_delete [of us u] assms by (simp add: online_ok_def)
qed

text \<open>The numbers that the database gives out fit an \<open>int\<close>.\<close>

definition db_ints :: "('s, 'd) siteWorld \<Rightarrow> bool" where
  "db_ints w \<longleftrightarrow> (\<forall>sql ps db i. pw_query w sql ps db = Inr (Some i) \<longrightarrow> int32 i)"

lemma queryUserId_int: "db_ints w \<Longrightarrow> queryUserId w name pass db = Inr u \<Longrightarrow> int32 u"
  by (auto simp: queryUserId_def db_ints_def int32_def result_simps split: option.splits)

lemma admit_keeps:
  assumes "site_ok st" "int32 u" "admit w u name req resp st = (resp', st')"
  shows "site_ok st'"
proof -
  obtain s resp1 st1 where o: "open_session w req resp st = (s, resp1, st1)" by (metis prod_cases3)
  have s: "users_ok (site_sessions st1)" "has_manager s" "ses_maxAge s = 3600" using open_session_ok [OF _ o] assms(1) by (simp_all add: site_ok_def)
  obtain s' where s': "has_manager s'" "ses_maxAge s' = ses_maxAge s" "getValue ''userId'' s' = to_string u"
    "st' = st1\<lparr>site_sessions := (site_sessions st1)\<lparr>storage := save s' (storage (site_sessions st1))\<rparr>,
      onlineUsers := AList.update u True (onlineUsers st), maxOnline := max (maxOnline st) (int (length (AList.update u True (onlineUsers st))))\<rparr>"
    using admit_eq [OF o s(2) assms(3)] by blast
  have "users_ok ((site_sessions st1)\<lparr>storage := save s' (storage (site_sessions st1))\<rparr>)"
    by (rule users_ok_save [OF s(1) s'(1)]) (use s'(2,3) s(3) assms(2) in auto)
  then show ?thesis using open_session_keeps [OF assms(1) o] online_ok_update [of "onlineUsers st" "maxOnline st" u] assms(1) s'(4)
    by (simp add: site_ok_def)
qed

lemma login_body_keeps:
  assumes "site_ok st" "db_ints w" "login_body w req resp st = (resp', st', r)"
  shows "site_ok st'"
proof -
  consider "st' = st" | u name pass resp1 where "queryUserId w name pass (site_db st) = Inr u" "admit w u name req resp st = (resp1, st')"
    using assms(3) by (auto simp: login_body_def result_simps split: if_splits sum.splits prod.splits)
  then show ?thesis using assms(1) admit_keeps queryUserId_int [OF assms(2)] by cases blast+
qed

lemma logout_body_keeps:
  assumes "site_ok st" "logout_body w req resp st = (resp', st', r)"
  shows "site_ok st'"
proof -
  obtain s resp1 st1 where o: "open_session w req resp st = (s, resp1, st1)" by (metis prod_cases3)
  have st1: "site_ok st1" by (rule open_session_keeps [OF assms(1) o])
  have cl: "destroySession (sessionId (fst (ses_clear s sm))) (snd (ses_clear s sm)) = destroySession (sessionId s) sm" for sm
    by (simp add: ses_clear_def ses_share_def updateSession_def destroySession_def storage_remove_def save_def Let_def)
  have d: "users_ok (destroySession i sm)" if "users_ok sm" for i sm
    using that by (auto simp: users_ok_def manager_ok_def destroySession_def storage_remove_def)
  have st2: "site_ok (st1\<lparr>site_sessions := destroySession (sessionId s) (site_sessions st1)\<rparr>)" using st1 d by (simp add: site_ok_def)
  show ?thesis using assms(2) o st1 st2 online_ok_delete cl [of "site_sessions st1"] games_ok_upd [of _ None]
    by (auto simp: logout_body_def Let_def site_ok_def split: if_splits sum.splits prod.splits)
qed

lemma catch_std_state: "fst (snd (catch_std h x)) = fst (snd x)"
  by (cases x) (auto simp: catch_std_def split: sum.split failure.split)

lemma page_keeps:
  assumes "site_ok st" "db_ints w" "page_of w p req resp st = (resp', st', r)"
  shows "site_ok st'"
proof -
  have c: "fst (snd (page_of w p req resp st)) = st'" using assms(3) by simp
  note frame = site_ok_def
  obtain s resp1 st1 where o: "open_session w req resp st = (s, resp1, st1)" by (metis prod_cases3)
  have st1: "site_ok st1" by (rule open_session_keeps [OF assms(1) o])
  have run: "site_ok (st1\<lparr>aiGames := (aiGames st1)(u \<mapsto> AiGame u)\<rparr>)" for u using put_running [OF st1, of "AiGame u" u] by (simp add: ai_put_def)
  show ?thesis
  proof (cases p)
    case Login
    then show ?thesis using c assms(1) login_body_keeps [OF assms(1,2)] by (cases "login_body w req resp st") (auto simp: page_of_def LoginHandler_def catch_std_state)
  next
    case Logout
    then show ?thesis using c assms(1) logout_body_keeps [OF assms(1)] by (cases "logout_body w req resp st") (auto simp: page_of_def LogoutHandler_def catch_std_state)
  next
    case AiMove
    then show ?thesis using c ai_body_keeps [OF assms(1)] by (cases "ai_body w req resp st") (auto simp: page_of_def AiGameMoveHandler_def catch_std_state)
  next
    case Menu
    then show ?thesis using c o st1 by (auto simp: page_of_def MenuHandler_def catch_std_state menu_body_def Let_def split: sum.splits prod.splits if_splits)
  next
    case Register
    then show ?thesis using c assms(1) by (auto simp: page_of_def RegisterHandler_def Let_def frame split: sum.splits prod.splits)
  next
    case AiStart
    then show ?thesis using c o st1 run by (auto simp: page_of_def AiGameStartHandler_def Let_def split: sum.splits if_splits)
  next
    case AiRestart
    then show ?thesis using c o st1 run by (auto simp: page_of_def restartChessGameVsAi_def Let_def split: sum.splits if_splits)
  next
    case Pvp
    then show ?thesis using c o st1 by (auto simp: page_of_def pvp_page_def Let_def split: option.splits if_splits)
  qed (use c assms(1) in \<open>auto simp: page_of_def EntryHandler_def GameBackendHandler_def getBackendData_def api_test_def Let_def split: sum.splits failure.splits\<close>)
qed

text \<open>The states of a server: from its start, through requests for any pages, and WebSocket frames, which change the part of the games only.\<close>

inductive site_run :: "('s, 'd) site \<times> 's gameServer webSocketServer \<Rightarrow> bool" where
  started: "site_run (hs_app hs, hs_ws hs)"
    if "(newServer lib ld store getenv connect dir_ok useSSL cert key :: (pageId, ('s, 'd) site, 's gameServer, unit) httpServer result) = Inr hs"
| page: "site_run x'" if "site_run x" "db_ints w" "handle_page w p req resp x = (resp', x', r)"
| frames: "site_run (st\<lparr>site_game := gs\<rparr>, ws')" if "site_run (st, ws)"

lemma site_run_ok: "site_run x \<Longrightarrow> site_ok (fst x)"
proof (induction rule: site_run.induct)
  case (started lib ld store getenv connect dir_ok useSSL cert key hs)
  then show ?case
    by (auto simp: newServer_def Let_def result_simps site_ok_def users_ok_def manager_ok_def games_ok_def online_ok_def initializeSession_def
      MemorySessionStorage_def split: if_splits)
next
  case (page x w p req resp resp' x' r)
  show ?case
  proof (cases "p = Ws")
    case True
    then show ?thesis using page open_session_keeps [of "fst x" w req resp]
      by (auto simp: handle_page_def ws_page_def site_ok_def split: prod.splits)
  next
    case False
    then show ?thesis using page page_keeps by (auto simp: handle_page_def split: prod.splits)
  qed
qed (simp add: site_ok_def)

text \<open>The state behind the pages. Whatever pages are requested and whatever players send, the games against the computer that the server keeps are legal positions that
  are not over; no user is online twice and the highest number of users online is at least the present one; and a session that is marked as
  signed in always holds a user number, so no page fails on it.\<close>

theorem site_consistent:
  assumes "site_run (st, ws)"
  shows "(\<forall>u g. aiGames st u = Some g \<longrightarrow> ai_ok g \<and> \<not> ai_gameOver g \<and> \<not> ai_isDraw g) \<and>
    distinct (map fst (onlineUsers st)) \<and> int (length (onlineUsers st)) \<le> maxOnline st \<and>
    (\<forall>w req resp s resp1 st1. open_session w req resp st = (s, resp1, st1) \<longrightarrow> loggedIn s \<longrightarrow> (\<exists>u. stoi (getValue ''userId'' s) = Inr u))"
proof -
  have ok: "site_ok st" using site_run_ok [OF assms] by simp
  have "\<exists>u. stoi (getValue ''userId'' s) = Inr u" if "open_session w req resp st = (s, resp1, st1)" "loggedIn s" for w req resp s resp1 and st1 :: "('a, 'b) site"
    using open_session_ok [OF _ that(1)] that(2) stoi_to_string ok by (auto simp: site_ok_def)
  with ok show ?thesis by (auto simp: site_ok_def games_ok_def online_ok_def)
qed

section \<open>Moves against the computer\<close>

lemma status_answer [simp]: "statusCode (move_answer w req j resp) = 200" "statusCode (respond v code msg close ct text resp) = code"
  by (simp_all add: move_answer_def respond_def setStatusLine_def setContentType_def resp_setContentLength_def resp_addHeader_def)

lemma play_outcome:
  assumes "ai_ok g" "\<not> ai_gameOver g" "play w u x y g req resp st = (resp', st', r)"
  shows "r = Inr () \<and> (\<forall>v. v \<noteq> u \<longrightarrow> aiGames st' v = aiGames st v) \<and>
    (if isInBoard x y \<and> cell (ai_board g) x y = BOARD_EMPTY
     then statusCode resp' = 200 \<and> (\<forall>g'. aiGames st' u = Some g' \<longrightarrow>
       (\<exists>x' y'. isInBoard x' y' \<and> cell (place (ai_board g) x y BOARD_BLACK) x' y' = BOARD_EMPTY \<and>
         ai_board g' = place (place (ai_board g) x y BOARD_BLACK) x' y' BOARD_WHITE))
     else statusCode resp' = 400 \<and> st' = st)"
proof -
  obtain g1 where h: "humanMove x y g = Inr (isInBoard x y \<and> cell (ai_board g) x y = BOARD_EMPTY \<and> \<not> ai_gameOver g, g1)" "ai_ok g1"
    and b: "isInBoard x y \<and> cell (ai_board g) x y = BOARD_EMPTY \<Longrightarrow> ai_board g1 = place (ai_board g) x y BOARD_BLACK"
    using humanMove_wf [OF assms(1), of x y] assms(2) by auto
  obtain g2 where a: "aiMove (pw_rand w) g1 = Inr g2" "ai_ok g2"
    and c: "\<not> ai_gameOver g1 \<Longrightarrow> \<not> ai_isDraw g1 \<Longrightarrow> \<exists>x y. isInBoard x y \<and> cell (ai_board g1) x y = BOARD_EMPTY \<and> ai_board g2 = place (ai_board g1) x y BOARD_WHITE"
    using aiMove_wf [OF h(2), of "pw_rand w"] by (auto split: if_splits)
  show ?thesis
  proof (cases "isInBoard x y \<and> cell (ai_board g) x y = BOARD_EMPTY")
    case False
    then show ?thesis using assms(2,3) h(1) by (auto simp: play_def)
  next
    case True
    then show ?thesis using assms(2,3) h(1) a(1) b c by (auto simp: play_def ai_put_def split: if_splits) blast
  qed
qed

text \<open>A move against the computer. A signed-in player who posts a cell gets 400 when it is taken or outside the board, and the game stays as it was; otherwise
  the answer is 200, and the game that is kept, if it is not over, is the former one with the player's black stone on that cell and one white stone on
  another free cell. The games of other players are not touched.\<close>

theorem ai_move_page:
  assumes "site_run (st, ws)" and "open_session w req resp st = (s, resp1, st1)" and "loggedIn s" and "stoi (getValue ''userId'' s) = Inr u"
    and "parse_body w req = Inr j" and "index_int ''x'' j = Inr x" and "index_int ''y'' j = Inr y"
    and "g = (case aiGames st u of Some g \<Rightarrow> g | None \<Rightarrow> AiGame u)"
  shows "\<exists>resp' st'. AiGameMoveHandler w req resp st = (resp', st', Inr ()) \<and> (\<forall>v. v \<noteq> u \<longrightarrow> aiGames st' v = aiGames st v) \<and>
    (if isInBoard x y \<and> cell (ai_board g) x y = BOARD_EMPTY
     then statusCode resp' = 200 \<and> (\<forall>g'. aiGames st' u = Some g' \<longrightarrow>
       (\<exists>x' y'. isInBoard x' y' \<and> cell (place (ai_board g) x y BOARD_BLACK) x' y' = BOARD_EMPTY \<and>
         ai_board g' = place (place (ai_board g) x y BOARD_BLACK) x' y' BOARD_WHITE))
     else statusCode resp' = 400 \<and> aiGames st' u = Some g)"
proof -
  have "site_ok st" using site_run_ok [OF assms(1)] by simp
  then have g: "ai_ok g" "\<not> ai_gameOver g" using assms(8) by (auto simp: site_ok_def games_ok_def split: option.splits)
  have a: "aiGames st1 = aiGames st" using open_session_fields [OF assms(2)] by (metis site.select_convs(3) site.surjective site.update_convs(2))
  obtain resp' st' r where p: "play w u x y g req resp1 (ai_put u (Some g) st1) = (resp', st', r)" by (metis prod_cases3)
  have "ai_body w req resp st = (resp', st', r)" using assms p a by (simp add: ai_body_def)
  with play_outcome [OF g p] a show ?thesis by (auto simp: AiGameMoveHandler_def catch_std_def ai_put_def split: if_splits)
qed


section \<open>Signing in and out\<close>

lemma packageResp_fields [simp]: "statusCode (packageResp v code msg close ct n text resp) = code" "body (packageResp v code msg close ct n text resp) = text"
  by (simp_all add: packageResp_def setContentType_def resp_setContentLength_def resp_addHeader_def)

lemma cookie_kept [simp]: "map_of (resp_headers (respond v code msg close ct text resp)) ''Set-Cookie'' = map_of (resp_headers resp) ''Set-Cookie''"
  by (simp add: respond_def setStatusLine_def setContentType_def resp_setContentLength_def resp_addHeader_def)

text \<open>C33: Signing in. A browser without a session that posts the name and password of a user who is not online gets 200 and a session cookie; with that cookie it gets
  the menu within the hour, with the user's number and escaped name in the page.\<close>

theorem login_reaches_menu:
  assumes "site_run (st, ws)" and "json_request req" and "found_session (pw_now w) req (site_sessions st) = None"
    and "parse_body w req = Inr j" and "index_string ''username'' j = Inr username" and "index_string ''password'' j = Inr password"
    and "queryUserId w username password (site_db st) = Inr u" and "u \<noteq> -1" and "map_of (onlineUsers st) u = None"
    and "db_ints w" and "pw_rs w \<noteq> []" and "set (pw_rs w) \<subseteq> {..<16}"
    and "headers req2 ''Cookie'' = Some (cookie_of (generateSessionId (pw_rs w)) others)" and "pw_now w2 \<le> pw_now w + 3600 * 1000000000"
    and "readPage w2 ''menu.html'' = Inr html"
  shows "\<exists>resp' st' resp2' st2. LoginHandler w req resp st = (resp', st', Inr ()) \<and> statusCode resp' = 200 \<and>
    map_of (resp_headers resp') ''Set-Cookie'' = Some (''sessionId='' @ generateSessionId (pw_rs w) @ ''; Path=/; HttpOnly; SameSite=Lax'' @
      (if secureCookies (site_sessions st) then ''; Secure'' else [])) \<and>
    MenuHandler w2 req2 resp2 st' = (resp2', st2, Inr ()) \<and> statusCode resp2' = 200 \<and>
    body resp2' = inject (injected (to_string u) (escapeForJsString username)) html"
proof -
  let ?i = "generateSessionId (pw_rs w)"
  have ok: "site_ok st" using site_run_ok [OF assms(1)] by simp
  have id: "CHR '';'' \<notin> set ?i" "?i \<noteq> []" using hex_id [OF assms(12)] assms(11) by (simp_all add: generateSessionId_def)
  obtain s resp1 st1 where o: "open_session w req resp st = (s, resp1, st1)" by (metis prod_cases3)
  have s: "sessionId s = ?i" "resp1 = setSessionCookie ?i (site_sessions st) resp" "has_manager s" "ses_maxAge s = 3600"
    using o assms(3) by (auto simp: open_session_def getSession_eq Session_def Let_def)
  obtain resp' st' where a: "admit w u username req resp st = (resp', st')" by fastforce
  obtain s' where s': "sessionId s' = ?i" "ses_maxAge s' = 3600" "loggedIn s'" "getValue ''userId'' s' = to_string u" "getValue ''username'' s' = username"
    "expiryTime s' = pw_now w + 3600 * 1000000000" "resp' = resp1" "storage (site_sessions st') = save s' (storage (site_sessions st1))"
    using admit_eq [OF o s(3) a] s by auto
  let ?text = "pw_dump4 w (JObject [(''success'', JBool True), (''userId'', JInt u), (''username'', JString username)])"
  have login: "LoginHandler w req resp st = (respond (version req) 200 ''OK'' False ''application/json'' ?text resp1, st', Inr ())"
    using assms(2,4-9) a s'(7) by (simp add: LoginHandler_def login_body_def catch_std_def)
  have "found_session (pw_now w2) req2 (site_sessions st') = Some s'"
    using cookie_roundtrip [OF assms(13) id(1)] id(2) memory.load_saved [of "pw_now w2" s'] s'(1,6,8) assms(14) by (simp add: found_session_def isExpired_def)
  then obtain s2 st2 where m: "open_session w2 req2 resp2 st' = (s2, resp2, st2)" "s2 = ses_refresh (pw_now w2) (s'\<lparr>has_manager := True\<rparr>)"
    by (auto simp: open_session_def getSession_eq Let_def)
  have "int32 u" by (rule queryUserId_int [OF assms(10,7)])
  then have "MenuHandler w2 req2 resp2 st' = (let h = inject (injected (to_string u) (escapeForJsString username)) html in
      (packageResp (version req2) 200 ''OK'' False ''text/html'' (length h) h resp2, st2, Inr ()))"
    using m s'(3-5) assms(15) stoi_to_string by (simp add: MenuHandler_def menu_body_def catch_std_def Let_def)
  then show ?thesis using login s(2) by (simp add: Let_def setSessionCookie_def resp_addHeader_def)
qed

text \<open>Signing out with a bad request. When the body of a logout has no number under \<open>gameType\<close>, the answer is 400, the session is gone, but the user stays in the
  table of users online: every later login of that user is refused with 403, and nothing the user sends changes that.\<close>

theorem logout_locks_out:
  assumes "json_request req" and "open_session w req resp st = (s, resp1, st1)" and "stoi (getValue ''userId'' s) = Inr u"
    and "rbind (parse_body w req) (index_int ''gameType'') = Inl (Uncaught e)" and "map_of (onlineUsers st) u = Some True"
  shows "\<exists>resp' st'. LogoutHandler w req resp st = (resp', st', Inr ()) \<and> statusCode resp' = 400 \<and> storage (site_sessions st') (sessionId s) = None \<and>
    (\<forall>w2 req2 resp2 j name pass. json_request req2 \<longrightarrow> parse_body w2 req2 = Inr j \<longrightarrow> index_string ''username'' j = Inr name \<longrightarrow>
       index_string ''password'' j = Inr pass \<longrightarrow> queryUserId w2 name pass (site_db st') = Inr u \<longrightarrow> u \<noteq> -1 \<longrightarrow>
       (\<exists>resp3. LoginHandler w2 req2 resp2 st' = (resp3, st', Inr ()) \<and> statusCode resp3 = 403))"
proof -
  obtain s1 sm1 where c: "ses_clear s (site_sessions st1) = (s1, sm1)" by fastforce
  then have s1: "sessionId s1 = sessionId s" by (auto simp: ses_clear_def Let_def)
  let ?st = "st1\<lparr>site_sessions := destroySession (sessionId s1) sm1\<rparr>"
  have on: "onlineUsers ?st = onlineUsers st" using open_session_fields [OF assms(2)] by (metis site.select_convs(4) site.surjective site.update_convs(2))
  have "logout_body w req resp st = (resp1, ?st, Inl (Uncaught e))" using assms(2-4) c by (simp add: logout_body_def)
  then have "LogoutHandler w req resp st = (bad_json w req e resp1, ?st, Inr ())" using assms(1) by (simp add: LogoutHandler_def catch_std_def)
  moreover have "statusCode (bad_json w req e resp1) = 400" by (simp add: bad_json_def)
  moreover have "storage (site_sessions ?st) (sessionId s) = None" using s1 by (simp add: destroySession_def storage_remove_def)
  moreover have "\<exists>resp3. LoginHandler w2 req2 resp2 ?st = (resp3, ?st, Inr ()) \<and> statusCode resp3 = 403"
    if "json_request req2" "parse_body w2 req2 = Inr j" "index_string ''username'' j = Inr name" "index_string ''password'' j = Inr pass"
      "queryUserId w2 name pass (site_db ?st) = Inr u" "u \<noteq> -1" for w2 :: "('a, 'b) siteWorld" and req2 resp2 j name pass
    using that assms(5) on by (simp add: LoginHandler_def login_body_def catch_std_def)
  ultimately show ?thesis by blast
qed

section \<open>The user's name in a page\<close>

text \<open>How a browser reads the rest of a string literal in single quotes: its value and what comes after it.\<close>

definition js_escape :: "char \<Rightarrow> char" where
  "js_escape c = (if c = CHR ''n'' then CHR 0x0A else if c = CHR ''r'' then CHR 0x0D else c)"

fun js_literal :: "string \<Rightarrow> (string \<times> string) option" where
  "js_literal [] = None"
| "js_literal (c # cs) =
     (if c = CHR 0x27 then Some ([], cs)
      else if c = CHR 0x0A \<or> c = CHR 0x0D then None
      else if c = CHR 0x5C then (case cs of d # ds \<Rightarrow> map_option (\<lambda>(s, r). (js_escape d # s, r)) (js_literal ds) | [] \<Rightarrow> None)
      else map_option (\<lambda>(s, r). (c # s, r)) (js_literal cs))"

text \<open>Escaping. Whatever the name is, a browser that reads the literal in the menu page gets that name back and stops at the quote that \<open>MenuHandler\<close> put after it.\<close>

theorem js_name_roundtrip: "js_literal (escapeForJsString s @ CHR 0x27 # rest) = Some (s, rest)"
  by (induction s) (simp_all add: escapeForJsString_def js_escape_def)

text \<open>The PVP page puts the name into the same literal as it is: a quote in it ends the literal.\<close>

lemma pvp_name_breaks:
  "injected ''7'' ([CHR 0x27] @ '';steal();//'') = ''<script>var INJECTED_USERID = '' @ quoted ''7'' @ '';var INJECTED_USERNAME = '' @ [CHR 0x27] @ ([CHR 0x27] @ '';steal();//'') @ [CHR 0x27] @ '';</script>''"
  "js_literal (([CHR 0x27] @ '';steal();//'') @ CHR 0x27 # rest) = Some ([], '';steal();//'' @ CHR 0x27 # rest)"
  by (simp_all add: injected_def quoted_def)

text \<open>The escaped name may still end the script element.\<close>

lemma menu_name_ends_script: "escapeForJsString ''</script><b>'' = ''</script><b>''"
  by (simp add: escapeForJsString_def)


section \<open>Witnesses\<close>

text \<open>A server with one user, Ann with number 7, and a JSON library that knows the three bodies of the requests below.\<close>

definition demo_lib :: jsonLib where
  "demo_lib = \<lparr>json_dump = (\<lambda>_. ''json''), json_parse = (\<lambda>s.
     if s = ''login'' then Some (JObject [(''username'', JString ''ann''), (''password'', JString ''secret'')])
     else if s = ''move'' then Some (JObject [(''x'', JInt 7), (''y'', JInt 7)])
     else None)\<rparr>"

definition demo_world :: "(memoryStore, unit) siteWorld" where
  "demo_world = \<lparr>pw_env = \<lparr>env_up = (\<lambda>_. False), env_now = 0, env_lib = demo_lib\<rparr>, pw_load = mem_load, pw_replace = mem_replace, pw_digest = id, pw_now = 1000,
     pw_rs = drawn, pw_rand = 0, pw_files = (\<lambda>_. Some ''<head></head>''), pw_dump4 = (\<lambda>_. ''{}''),
     pw_query = (\<lambda>sql ps db. Inr (if ps = [''ann'', ''secret''] then Some 7 else None)), pw_update = (\<lambda>sql ps db. (db, Inr ()))\<rparr>"

definition demo_site :: "(memoryStore, unit) site" where
  "demo_site = \<lparr>site_game = GomokuServer mem_load MemoryGameStateStore, site_sessions = initializeSession False, aiGames = Map.empty, onlineUsers = [], maxOnline = 0, site_db = ()\<rparr>"

definition post :: "string \<Rightarrow> string \<Rightarrow> httpRequest" where
  "post cookie text = HttpRequest\<lparr>req_method := kPost, version := ''HTTP/1.1'', headers := [''Content-Type'' \<mapsto> ''application/json'', ''Cookie'' \<mapsto> cookie],
     httpRequest.content := text\<rparr>"

abbreviation ann :: string where
  "ann \<equiv> ''sessionId='' @ generateSessionId drawn"

definition signed_site :: "(memoryStore, unit) site" where
  "signed_site = fst (snd (LoginHandler demo_world (post [] ''login'') (HttpResponse False) demo_site))"

lemma demo_run: "site_run (demo_site, WebSocketServer)"
proof -
  let ?hs = "\<lparr>hs_useSSL = False, hs_middleware = initializeMiddleware True, hs_router = initializeRouter, hs_ws = WebSocketServer, hs_app = demo_site,
     hs_contexts = Map.empty, hs_ssl = Map.empty, hs_out = [], hs_shut = {}\<rparr> :: (pageId, (memoryStore, unit) site, memoryStore gameServer, unit) httpServer"
  have "newServer lib mem_load MemoryGameStateStore (\<lambda>_. Some ''x'') (\<lambda>_. Inr ()) True False [] [] = Inr ?hs" for lib
    by (simp add: newServer_def setSslConfig_def databaseConfigFromEnvironment_def requiredEnvironment_def demo_site_def)
  from site_run.started [OF this] show ?thesis by simp
qed

lemma demo_ints: "db_ints demo_world"
  by (simp add: db_ints_def demo_world_def int32_def)

lemma signed_run: "site_run (signed_site, WebSocketServer)"
proof -
  have "handle_page demo_world Login (post [] ''login'') (HttpResponse False) (demo_site, WebSocketServer) =
      (fst (LoginHandler demo_world (post [] ''login'') (HttpResponse False) demo_site), (signed_site, WebSocketServer),
       snd (snd (LoginHandler demo_world (post [] ''login'') (HttpResponse False) demo_site)))"
    by (simp add: handle_page_def page_of_def signed_site_def split_def Let_def)
  with demo_run demo_ints show ?thesis by (rule site_run.page)
qed


theorem pages_need_login_witness:
  "\<exists>resp' sm. handle_page demo_world Menu (post ''sessionId=00'' []) (HttpResponse False) (signed_site, WebSocketServer) =
     (resp', (signed_site\<lparr>site_sessions := sm\<rparr>, WebSocketServer), Inr ()) \<and> statusCode resp' = 401 \<and> closeConnection resp'"
proof -
  have "storage (site_sessions signed_site) (getSessionIdFromCookie (post ''sessionId=00'' [])) = None" by code_simp
  then have "\<not> signed_in (pw_now demo_world) (post ''sessionId=00'' []) (site_sessions (fst (signed_site, WebSocketServer :: memoryStore gameServer webSocketServer)))"
    by (simp add: signed_in_def)
  from pages_need_login [OF _ this, of Menu] show ?thesis by simp
qed

theorem site_consistent_witness:
  "site_run (signed_site, WebSocketServer) \<and> onlineUsers signed_site = [(7, True)] \<and> int (length (onlineUsers signed_site)) \<le> maxOnline signed_site"
proof -
  have "onlineUsers signed_site = [(7, True)]" by code_simp
  then show ?thesis using signed_run site_consistent [OF signed_run] by blast
qed

theorem ai_move_page_witness:
  "\<exists>resp' st'. AiGameMoveHandler demo_world (post ann ''move'') (HttpResponse False) signed_site = (resp', st', Inr ()) \<and> statusCode resp' = 200"
proof -
  obtain s resp1 st1 where o: "open_session demo_world (post ann ''move'') (HttpResponse False) signed_site = (s, resp1, st1)" by (metis prod_cases3)
  have "loggedIn (fst (open_session demo_world (post ann ''move'') (HttpResponse False) signed_site))"
    "stoi (getValue ''userId'' (fst (open_session demo_world (post ann ''move'') (HttpResponse False) signed_site))) = Inr 7" by code_simp+
  then have s: "loggedIn s" "stoi (getValue ''userId'' s) = Inr 7" using o by simp_all
  have j: "parse_body demo_world (post ann ''move'') = Inr (JObject [(''x'', JInt 7), (''y'', JInt 7)])"
    "index_int ''x'' (JObject [(''x'', JInt 7), (''y'', JInt 7)]) = Inr 7" "index_int ''y'' (JObject [(''x'', JInt 7), (''y'', JInt 7)]) = Inr 7" by code_simp+
  have g: "aiGames signed_site 7 = None" "isInBoard 7 7 \<and> cell (ai_board (AiGame 7)) 7 7 = BOARD_EMPTY" by code_simp+
  from ai_move_page [OF signed_run o s j, of "AiGame 7"] g show ?thesis by auto
qed

theorem login_reaches_menu_witness:
  "\<exists>resp' st' resp2' st2. LoginHandler demo_world (post [] ''login'') (HttpResponse False) demo_site = (resp', st', Inr ()) \<and> statusCode resp' = 200 \<and>
     MenuHandler demo_world (post (cookie_of (generateSessionId drawn) []) []) (HttpResponse False) st' = (resp2', st2, Inr ()) \<and> statusCode resp2' = 200"
proof -
  let ?j = "JObject [(''username'', JString ''ann''), (''password'', JString ''secret'')]"
  have "json_request (post [] ''login'')" "parse_body demo_world (post [] ''login'') = Inr ?j"
    "index_string ''username'' ?j = Inr ''ann''" "index_string ''password'' ?j = Inr ''secret''"
    "queryUserId demo_world ''ann'' ''secret'' (site_db demo_site) = Inr 7" "map_of (onlineUsers demo_site) 7 = None"
    "pw_rs demo_world \<noteq> []" "set (pw_rs demo_world) \<subseteq> {..<16}" "readPage demo_world ''menu.html'' = Inr ''<head></head>''"
    by code_simp+
  moreover have "found_session (pw_now demo_world) (post [] ''login'') (site_sessions demo_site) = None"
    by (simp add: found_session_def post_def getSessionIdFromCookie_def getHeader_def)
  moreover have "headers (post (cookie_of (generateSessionId drawn) []) []) ''Cookie'' = Some (cookie_of (generateSessionId (pw_rs demo_world)) [])"
    by (simp add: post_def demo_world_def)
  ultimately show ?thesis using login_reaches_menu [OF demo_run, of "post [] ''login''" demo_world ?j "''ann''" "''secret''" 7
      "post (cookie_of (generateSessionId drawn) []) []" "[]" demo_world "''<head></head>''" "HttpResponse False" "HttpResponse False"] demo_ints
    by auto
qed

theorem logout_locks_out_witness:
  "\<exists>resp' st' resp3. LogoutHandler demo_world (post ann ''bye'') (HttpResponse False) signed_site = (resp', st', Inr ()) \<and> statusCode resp' = 400 \<and>
     LoginHandler demo_world (post [] ''login'') (HttpResponse False) st' = (resp3, st', Inr ()) \<and> statusCode resp3 = 403"
proof -
  let ?j = "JObject [(''username'', JString ''ann''), (''password'', JString ''secret'')]"
  let ?o = "open_session demo_world (post ann ''bye'') (HttpResponse False) signed_site"
  obtain s resp1 st1 where o: "?o = (s, resp1, st1)" by (metis prod_cases3)
  have "stoi (getValue ''userId'' (fst ?o)) = Inr 7" by code_simp
  then have s: "stoi (getValue ''userId'' s) = Inr 7" using o by simp
  have "json_request (post ann ''bye'')" "rbind (parse_body demo_world (post ann ''bye'')) (index_int ''gameType'') = Inl (Uncaught ''parse_error'')"
    "map_of (onlineUsers signed_site) 7 = Some True" by code_simp+
  from logout_locks_out [OF this(1) o s this(2,3)] obtain resp' st' where l:
    "LogoutHandler demo_world (post ann ''bye'') (HttpResponse False) signed_site = (resp', st', Inr ())" "statusCode resp' = 400"
    "\<forall>w2 req2 resp2 j name pass. json_request req2 \<longrightarrow> parse_body w2 req2 = Inr j \<longrightarrow> index_string ''username'' j = Inr name \<longrightarrow>
       index_string ''password'' j = Inr pass \<longrightarrow> queryUserId w2 name pass (site_db st') = Inr 7 \<longrightarrow> 7 \<noteq> (-1 :: int) \<longrightarrow>
       (\<exists>resp3. LoginHandler w2 req2 resp2 st' = (resp3, st', Inr ()) \<and> statusCode resp3 = 403)" by blast
  have "json_request (post [] ''login'')" "parse_body demo_world (post [] ''login'') = Inr ?j"
    "index_string ''username'' ?j = Inr ''ann''" "index_string ''password'' ?j = Inr ''secret''" "queryUserId demo_world ''ann'' ''secret'' () = Inr 7"
    by code_simp+
  then obtain resp3 where "LoginHandler demo_world (post [] ''login'') (HttpResponse False) st' = (resp3, st', Inr ())" "statusCode resp3 = 403"
    using l(3) by (metis (full_types) one_neq_neg_numeral old.unit.exhaust zero_neq_neg_numeral neg_numeral_neq_numeral numeral_neq_neg_one)
  then show ?thesis using l(1,2) by blast
qed

end
