(* ===== verification/WebServer.thy ===== *)
theory WebServer
  imports Pages
begin

text \<open>
  The web server of the game: the callbacks of \<open>HttpServer\<close> with the pages of \<open>Pages\<close> behind the router. \<open>server_run\<close> are the states that the process reaches from its
  start, with connections that open and close and any bytes on them, over TLS or not.
\<close>

text \<open>The server's world: the handlers of the routes are the pages, and the messages of players work on the games.\<close>

definition site_http :: "('s, 'd) siteWorld \<Rightarrow> 's gameServer wire \<Rightarrow> clock \<Rightarrow> (conn \<Rightarrow> string) \<Rightarrow> 'e sslLib \<Rightarrow> 'e \<Rightarrow>
    (pageId, ('s, 'd) site, 's gameServer, 'e) httpWorld" where
  "site_http w wire clock ip lib e =
     \<lparr>hw_handle = handle_page w, hw_wire = wire, hw_get = site_game, hw_put = (\<lambda>g st. st\<lparr>site_game := g\<rparr>), hw_clock = clock, hw_ip = ip, hw_lib = lib, hw_new = e\<rparr>"

lemma site_http_sel [simp]:
  "hw_handle (site_http w wire clock ip lib e) = handle_page w" "hw_wire (site_http w wire clock ip lib e) = wire" "hw_get (site_http w wire clock ip lib e) = site_game"
  "hw_put (site_http w wire clock ip lib e) g st = st\<lparr>site_game := g\<rparr>" "hw_clock (site_http w wire clock ip lib e) = clock" "hw_ip (site_http w wire clock ip lib e) = ip"
  "hw_lib (site_http w wire clock ip lib e) = lib"
  by (simp_all add: site_http_def)

inductive server_run :: "(pageId, ('s, 'd) site, 's gameServer, 'e) httpServer \<Rightarrow> bool" where
  boots: "server_run hs" if "newServer ossl ld store getenv connect dir_ok useSSL cert key = Inr hs"
| connects: "server_run (onConnection hw up c hs)" if "server_run hs"
| receives: "server_run hs'" if "server_run hs" "db_ints w" "hs_onMessage (site_http w wire clock ip lib e) t c buf hs = Inr (Some (buf', hs'))"

section \<open>What a callback changes\<close>

text \<open>The part of the server that pages and messages work on, with the routes.\<close>

definition core :: "(pageId, ('s, 'd) site, 's gameServer, 'e) httpServer \<Rightarrow> (('s, 'd) site \<times> 's gameServer webSocketServer) \<times> pageId router" where
  "core hs = ((hs_app hs, hs_ws hs), hs_router hs)"

definition core_ok :: "(pageId, ('s, 'd) site, 's gameServer, 'e) httpServer \<Rightarrow> bool" where
  "core_ok hs \<longleftrightarrow> site_run (fst (core hs)) \<and> snd (core hs) = initializeRouter"

lemma core_frame [simp]:
  "core (tcp_send c ds hs) = core hs" "core (shutdown c hs) = core hs" "core (hs\<lparr>hs_contexts := x\<rparr>) = core hs" "core (hs\<lparr>hs_ssl := y\<rparr>) = core hs"
  "core (hs\<lparr>hs_middleware := ms\<rparr>) = core hs"
  by (simp_all add: core_def tcp_send_def shutdown_def)

lemma sendData_core: "sendData lib c d hs = Some hs' \<Longrightarrow> core hs' = core hs"
  by (auto simp: sendData_def split: if_splits option.splits)

lemma refuse_core: "refuse lib c hs = Some hs' \<Longrightarrow> core hs' = core hs"
  using sendData_core by (fastforce simp: refuse_def)

lemma core_ok_cong: "core hs' = core hs \<Longrightarrow> core_ok hs \<Longrightarrow> core_ok hs'"
  by (simp add: core_ok_def)

lemma handleRequest_core:
  assumes "core_ok hs" "db_ints w" "handleRequest (site_http w wire clock ip lib e) req resp hs = Inr (resp', hs')"
  shows "core_ok hs'"
proof -
  let ?hw = "site_http w wire clock ip lib e"
  obtain thrown ms where b: "processBefore clock req (hs_middleware hs) = (thrown, ms)" by force
  show ?thesis
  proof (cases thrown)
    case (Some r)
    then show ?thesis using assms b by (auto simp: handleRequest_def core_ok_def core_def)
  next
    case None
    obtain resp1 app ws r where h: "(case route req (hs_router hs) of Some (h, req') \<Rightarrow> hw_handle ?hw h req' resp (hs_app hs, hs_ws hs)
        | None \<Rightarrow> (notFound resp, (hs_app hs, hs_ws hs), Inr ())) = (resp1, (app, ws), r)" by (metis prod.collapse)
    have "site_run (app, ws)"
    proof (cases "route req (hs_router hs)")
      case (Some x)
      then have "handle_page w (fst x) (snd x) resp (hs_app hs, hs_ws hs) = (resp1, (app, ws), r)" using h by (simp add: split_def)
      then show ?thesis using assms(1,2) site_run.page by (fastforce simp: core_ok_def core_def)
    qed (use h assms(1) in \<open>auto simp: core_ok_def core_def\<close>)
    moreover have "hs_app hs' = app \<and> hs_ws hs' = ws \<and> hs_router hs' = hs_router hs"
      using assms(3) None b h by (auto simp: handleRequest_def Let_def split: sum.splits failure.splits prod.splits)
    ultimately show ?thesis using assms(1) by (simp add: core_ok_def core_def)
  qed
qed

lemma onRequest_core:
  assumes "core_ok hs" "db_ints w" "onRequest (site_http w wire clock ip lib e) c req hs = Inr (Some hs')"
  shows "core_ok hs'"
proof -
  obtain resp hs1 hs2 where "handleRequest (site_http w wire clock ip lib e) (req\<lparr>clientIP := ip c, connectionPtr := Some c\<rparr>)
      (HttpResponse (checkClose (req\<lparr>clientIP := ip c, connectionPtr := Some c\<rparr>))) hs = Inr (resp, hs1)"
      "sendData lib c (appendToBuffer resp) hs1 = Some hs2" "core hs' = core hs2"
    using assms(3) by (auto simp: onRequest_def Let_def result_simps)
  then show ?thesis using handleRequest_core [OF assms(1,2)] sendData_core core_ok_cong by metis
qed

lemma wsFrames_core:
  assumes "core_ok hs" "wsFrames (site_http w wire clock ip lib e) c buf hs = (buf', hs', r)"
  shows "core_ok hs'"
  using assms site_run.frames by (fastforce simp: wsFrames_def core_ok_def core_def split: prod.splits)

lemma catching_core:
  assumes "core_ok hs" "catching (site_http w wire clock ip lib e) c (buf, hs, r) = Inr (Some (buf', hs'))"
  shows "core_ok hs'"
  using assms refuse_core core_ok_cong by (fastforce simp: catching_def split: sum.splits failure.splits)

lemma onPlain_core:
  assumes "core_ok hs" "db_ints w" "onPlain (site_http w wire clock ip lib e) t c buf hs = Inr (Some (buf', hs'))"
  shows "core_ok hs'"
proof -
  let ?hw = "site_http w wire clock ip lib e"
  have frames: "core_ok hs2" if "core_ok hs1" "catching ?hw c (wsFrames ?hw c b hs1) = Inr (Some (buf', hs2))" for b hs1 hs2
  proof -
    obtain b' hs3 r where f: "wsFrames ?hw c b hs1 = (b', hs3, r)" by (metis prod_cases3)
    then show ?thesis using wsFrames_core [OF that(1) f] catching_core that(2) by metis
  qed
  show ?thesis
  proof (cases "isWebSocket c (hs_ws hs)")
    case True
    then show ?thesis using frames [OF assms(1)] assms(3) by (simp add: onPlain_def)
  next
    case False
    obtain ctx ok buf1 ctx1 where p: "hs_contexts hs c = Some ctx" "parseRequest t buf ctx = Some (ok, buf1, ctx1)"
      using assms(3) False by (auto simp: onPlain_def split: option.splits)
    let ?hs = "hs\<lparr>hs_contexts := (hs_contexts hs)(c \<mapsto> ctx1)\<rparr>"
    have hs: "core_ok ?hs" using assms(1) by (simp add: core_ok_def)
    show ?thesis
    proof (cases "ok = Inr True \<and> gotAll ctx1")
      case True
      then obtain hs2 where o: "onRequest ?hw c (request ctx1) ?hs = Inr (Some hs2)"
        using assms(3) False p by (auto simp: onPlain_def result_simps split: option.splits)
      then have "core_ok (hs2\<lparr>hs_contexts := (hs_contexts hs2)(c \<mapsto> http_reset ctx1)\<rparr>)" using onRequest_core [OF hs assms(2)] by (simp add: core_ok_def)
      then show ?thesis using frames assms(3) False p o True by (auto simp: onPlain_def Let_def split: if_splits)
    next
      case other: False
      have r: "refuse lib c ?hs = Some hs2 \<Longrightarrow> core_ok hs2" for hs2 using refuse_core core_ok_cong hs by metis
      show ?thesis
      proof (cases ok)
        case (Inl x)
        then show ?thesis using assms(3) False p catching_core [OF hs] by (simp add: onPlain_def Let_def)
      next
        case (Inr b)
        then show ?thesis using assms(3) False p other hs r by (cases b) (auto simp: onPlain_def Let_def split: if_splits)
      qed
    qed
  qed
qed

lemma hs_onMessage_core:
  assumes "core_ok hs" "db_ints w" "hs_onMessage (site_http w wire clock ip lib e) t c buf hs = Inr (Some (buf', hs'))"
  shows "core_ok hs'"
proof (cases "if hs_useSSL hs then hs_ssl hs c else None")
  case None
  then show ?thesis using onPlain_core [OF assms(1,2)] assms(3) by (simp add: hs_onMessage_def)
next
  case (Some s)
  obtain buf1 out shut s1 where r: "onRead lib buf s = Some (buf1, out, shut, s1)"
    using assms(3) Some by (auto simp: hs_onMessage_def split: option.splits)
  let ?hs1 = "tcp_send c out (hs\<lparr>hs_ssl := (hs_ssl hs)(c \<mapsto> s1)\<rparr>)"
  let ?hs2 = "if shut then shutdown c ?hs1 else ?hs1"
  have ok: "core_ok ?hs2" using assms(1) by (simp add: core_ok_def)
  show ?thesis
  proof (cases "\<not> isHandshakeCompleted s1 \<or> decryptedBuffer s1 = []")
    case True
    then show ?thesis using assms(3) Some r ok by (auto simp: hs_onMessage_def Let_def split: if_splits)
  next
    case False
    then obtain plain hs3 where "onPlain (site_http w wire clock ip lib e) t c (decryptedBuffer s1) ?hs2 = Inr (Some (plain, hs3))" "core hs' = core hs3"
      using assms(3) Some r by (auto simp: hs_onMessage_def Let_def result_simps split: if_splits)
    then show ?thesis using onPlain_core [OF ok assms(2)] core_ok_cong by metis
  qed
qed

lemma server_run_ok: "server_run hs \<Longrightarrow> core_ok hs"
proof (induction rule: server_run.induct)
  case (boots ossl ld store getenv connect dir_ok useSSL cert key hs)
  have "\<exists>hs0 :: (pageId, ('a, 'b) site, 'a gameServer, unit) httpServer. newServer ossl ld store getenv connect dir_ok useSSL cert key = Inr hs0 \<and> hs_app hs0 = hs_app hs \<and> hs_ws hs0 = hs_ws hs"
    using boots by (auto simp: newServer_def Let_def result_simps split: if_splits)
  then have "site_run (hs_app hs, hs_ws hs)" using site_run.started by metis
  moreover have "hs_router hs = initializeRouter" using boots by (auto simp: newServer_def Let_def result_simps split: if_splits)
  ultimately show ?case by (simp add: core_ok_def core_def)
next
  case (connects hs hw up c)
  then show ?case using site_run.frames [of "hs_app hs" "hs_ws hs" "site_game (hs_app hs)"]
    by (auto simp: onConnection_def core_ok_def core_def Let_def)
next
  case (receives hs w wire clock ip lib e t c buf buf' hs')
  then show ?case by (metis hs_onMessage_core)
qed

section \<open>Answers of the server\<close>

lemma status_headers [simp]:
  "statusCode (resp_addHeader k v resp) = statusCode resp" "closeConnection (resp_addHeader k v resp) = closeConnection resp"
  by (simp_all add: resp_addHeader_def)

lemma mw_after_status: "mw_after ck resp m = (resp', m') \<Longrightarrow> statusCode resp' = statusCode resp \<and> closeConnection resp' = closeConnection resp"
  by (auto simp: mw_after_def cors_after_def addCorsHeaders_def Let_def split: middleware.splits if_splits)

lemma processAfter_status:
  "processAfter ck resp ms = (resp', ms') \<Longrightarrow> statusCode resp' = statusCode resp \<and> closeConnection resp' = closeConnection resp"
proof (induction ms arbitrary: resp' ms')
  case (Cons m ms)
  obtain resp1 ms1 where a: "processAfter ck resp ms = (resp1, ms1)" by force
  obtain resp2 m1 where b: "mw_after ck resp1 m = (resp2, m1)" by force
  show ?case using Cons.IH [OF a] mw_after_status [OF b] Cons.prems a b by simp
qed simp

lemma processBefore_refuses:
  "processBefore ck req ms = (Some r, ms') \<Longrightarrow> req_method req \<noteq> kOptions \<Longrightarrow> statusCode r = 429 \<and> closeConnection r"
proof (induction ms arbitrary: ms')
  case (Cons m ms)
  show ?case
  proof (cases "fst (mw_before ck req m)")
    case None
    then show ?thesis using Cons by (auto split: prod.splits option.splits)
  next
    case (Some x)
    then have "x = tooManyRequests req"
      using Cons.prems(2) by (auto simp: mw_before_def cors_before_def limiter_before_def Let_def split: middleware.splits prod.splits if_splits)
    moreover have "r = x" using Some Cons.prems(1) by (auto split: prod.splits option.splits)
    ultimately show ?thesis by (simp add: tooManyRequests_def setContentType_def HttpResponse_def)
  qed
qed simp

text \<open>The paths of users, as the routes have them.\<close>

definition userPages :: "(http_method \<times> string) set" where
  "userPages = {(kGet, ''/menu''), (kGet, ''/aiBot/start''), (kPost, ''/aiBot/move''), (kGet, ''/aiBot/restart''), (kGet, ''/pvp''), (kGet, ''/ws'')}"

lemma userPages_routed:
  "(req_method req, path req) \<in> userPages \<Longrightarrow> \<exists>p. route req initializeRouter = Some (p, req) \<and> p \<in> {Menu, AiStart, AiMove, AiRestart, Pvp, Ws}"
  by (auto simp: userPages_def route_def initializeRouter_def registerHandler_def registerCallback_def Router_def)

lemma signed_in_address [simp]: "signed_in now (req\<lparr>clientIP := ip, connectionPtr := p\<rparr>) sm = signed_in now req sm"
  by (simp add: signed_in_def getSessionIdFromCookie_def getHeader_def)

lemma stranger_handled:
  assumes "hs_router hs = initializeRouter" "(req_method req, path req) \<in> userPages" "\<not> signed_in (pw_now w) req (site_sessions (hs_app hs))"
  shows "\<exists>resp' hs1 sm. handleRequest (site_http w wire clock ip lib e) req resp hs = Inr (resp', hs1) \<and> statusCode resp' \<in> {401, 429} \<and> closeConnection resp' \<and>
    hs_app hs1 = (hs_app hs)\<lparr>site_sessions := sm\<rparr> \<and> hs_ws hs1 = hs_ws hs"
proof -
  let ?hw = "site_http w wire clock ip lib e"
  obtain thrown ms where b: "processBefore clock req (hs_middleware hs) = (thrown, ms)" by force
  show ?thesis
  proof (cases thrown)
    case (Some r)
    moreover have "req_method req \<noteq> kOptions" using assms(2) by (auto simp: userPages_def)
    moreover have "\<exists>sm. hs_app hs = (hs_app hs)\<lparr>site_sessions := sm\<rparr>" by (rule exI [of _ "site_sessions (hs_app hs)"]) simp
    ultimately show ?thesis using b processBefore_refuses [of clock req _ r ms] by (auto simp: handleRequest_def)
  next
    case None
    obtain p where p: "route req (hs_router hs) = Some (p, req)" "p \<in> {Menu, AiStart, AiMove, AiRestart, Pvp, Ws}" using userPages_routed [OF assms(2)] assms(1) by auto
    obtain resp1 sm where h: "handle_page w p req resp (hs_app hs, hs_ws hs) = (resp1, ((hs_app hs)\<lparr>site_sessions := sm\<rparr>, hs_ws hs), Inr ())"
        "statusCode resp1 = 401" "closeConnection resp1"
      using pages_need_login [OF p(2), of w req "(hs_app hs, hs_ws hs)" resp] assms(3) by auto
    obtain resp2 ms2 where a: "processAfter clock resp1 ms = (resp2, ms2)" by force
    show ?thesis using None b p(1) h a processAfter_status [OF a] by (simp add: handleRequest_def) metis
  qed
qed

text \<open>C31: The server and strangers. In every state that the server reaches, a request for a page of users, or for the WebSocket, whose cookie names no live session of a
  signed-in user passes the middleware and the routes to exactly one answer, 401, or 429 from the rate limiter, after which the connection is shut down; no game,
  no WebSocket and nobody's entry among the users online is touched.\<close>

theorem stranger_refused:
  assumes "server_run hs" and "(req_method req, path req) \<in> userPages" and "\<not> signed_in (pw_now w) req (site_sessions (hs_app hs))"
  shows "\<exists>resp hs1 sm. onRequest (site_http w wire clock ip lib e) c req hs = Inr (map_option (shutdown c) (sendData lib c (appendToBuffer resp) hs1)) \<and>
    statusCode resp \<in> {401, 429} \<and> hs_app hs1 = (hs_app hs)\<lparr>site_sessions := sm\<rparr> \<and> hs_ws hs1 = hs_ws hs"
proof -
  let ?req = "req\<lparr>clientIP := ip c, connectionPtr := Some c\<rparr>"
  have "hs_router hs = initializeRouter" using server_run_ok [OF assms(1)] by (simp add: core_ok_def core_def)
  then obtain resp hs1 sm where "handleRequest (site_http w wire clock ip lib e) ?req (HttpResponse (checkClose ?req)) hs = Inr (resp, hs1)"
      "statusCode resp \<in> {401, 429}" "closeConnection resp" "hs_app hs1 = (hs_app hs)\<lparr>site_sessions := sm\<rparr>" "hs_ws hs1 = hs_ws hs"
    using stranger_handled [of hs ?req w wire clock ip lib e "HttpResponse (checkClose ?req)"] assms(2,3) by auto
  then show ?thesis by (auto simp: onRequest_def Let_def intro!: option.map_cong0)
qed

text \<open>C32: The whole server. From its start, through connections that open and close and any bytes on them, over TLS or not, the games against the computer that the server
  keeps are legal positions that are not over; no user is online twice and the recorded maximum is at least the present number; and every session
  that is marked as signed in holds a user number.\<close>

theorem server_consistent:
  assumes "server_run hs"
  shows "(\<forall>u g. aiGames (hs_app hs) u = Some g \<longrightarrow> ai_ok g \<and> \<not> ai_gameOver g \<and> \<not> ai_isDraw g) \<and>
    distinct (map fst (onlineUsers (hs_app hs))) \<and> int (length (onlineUsers (hs_app hs))) \<le> maxOnline (hs_app hs) \<and>
    (\<forall>i s. storage (site_sessions (hs_app hs)) i = Some s \<longrightarrow> loggedIn s \<longrightarrow> (\<exists>u. stoi (getValue ''userId'' s) = Inr u))"
proof -
  have "site_run (hs_app hs, hs_ws hs)" using server_run_ok [OF assms] by (simp add: core_ok_def core_def)
  from site_run_ok [OF this] have ok: "site_ok (hs_app hs)" by simp
  then have "\<exists>u. stoi (getValue ''userId'' s) = Inr u" if "storage (site_sessions (hs_app hs)) i = Some s" "loggedIn s" for i s
    using that stoi_to_string by (fastforce simp: site_ok_def users_ok_def)
  with ok show ?thesis by (auto simp: site_ok_def games_ok_def online_ok_def)
qed

section \<open>Requests over TLS\<close>



section \<open>Witnesses\<close>

text \<open>The server of \<open>demo_site\<close>, without TLS and with the middleware of the game server.\<close>

definition demo_server :: "(pageId, (memoryStore, unit) site, memoryStore gameServer, string \<times> string) httpServer" where
  "demo_server = \<lparr>hs_useSSL = False, hs_middleware = initializeMiddleware True, hs_router = initializeRouter, hs_ws = WebSocketServer, hs_app = demo_site,
     hs_contexts = Map.empty, hs_ssl = Map.empty, hs_out = [], hs_shut = {}\<rparr>"

definition demo_http :: "(pageId, (memoryStore, unit) site, memoryStore gameServer, string \<times> string) httpWorld" where
  "demo_http = site_http demo_world wire_log (hw_clock null_world) (\<lambda>_. ''1.2.3.4'') plain_lib ([], [])"

definition login_bytes :: string where
  "login_bytes = ''POST /login HTTP/1.1'' @ crlf @ ''Content-Type: application/json'' @ crlf @ ''Content-Length: 5'' @ crlf @ crlf @ ''login''"

lemma demo_server_run: "server_run demo_server"
proof -
  have "newServer ossl mem_load MemoryGameStateStore (\<lambda>_. Some ''x'') (\<lambda>_. Inr ()) True False [] [] = Inr demo_server" for ossl
    by (simp add: newServer_def setSslConfig_def databaseConfigFromEnvironment_def requiredEnvironment_def demo_site_def demo_server_def)
  from server_run.boots [OF this] show ?thesis .
qed

lemma login_served:
  "case hs_onMessage demo_http 0 ''c'' login_bytes (onConnection demo_http True ''c'' demo_server) of
     Inr (Some (b, hs)) \<Rightarrow> b = [] \<and> map fst (onlineUsers (hs_app hs)) = [7] | _ \<Rightarrow> False"
  by code_simp

theorem server_consistent_witness:
  "\<exists>hs :: (pageId, (memoryStore, unit) site, memoryStore gameServer, string \<times> string) httpServer.
     server_run hs \<and> map fst (onlineUsers (hs_app hs)) = [7] \<and> 1 \<le> maxOnline (hs_app hs)"
proof -
  obtain hs where m: "hs_onMessage demo_http 0 ''c'' login_bytes (onConnection demo_http True ''c'' demo_server) = Inr (Some ([], hs))"
      and u: "map fst (onlineUsers (hs_app hs)) = [7]"
    using login_served by (auto split: sum.splits option.splits)
  have r: "server_run hs"
    using server_run.receives [OF server_run.connects [OF demo_server_run, of demo_http True "''c''"] demo_ints] m unfolding demo_http_def by blast
  have "length (onlineUsers (hs_app hs)) = 1" using u by (metis One_nat_def length_map length_Cons list.size(3))
  with server_consistent [OF r] r u show ?thesis by (intro exI [of _ hs]) simp
qed

theorem stranger_refused_witness:
  "\<exists>resp hs1. onRequest demo_http ''c'' (HttpRequest\<lparr>req_method := kGet, path := ''/menu''\<rparr>) demo_server =
     Inr (map_option (shutdown ''c'') (sendData plain_lib ''c'' (appendToBuffer resp) hs1)) \<and> statusCode resp \<in> {401, 429}"
proof -
  let ?req = "HttpRequest\<lparr>req_method := kGet, path := ''/menu''\<rparr>"
  have "(req_method ?req, path ?req) \<in> userPages" by (simp add: userPages_def)
  moreover have "\<not> signed_in (pw_now demo_world) ?req (site_sessions (hs_app demo_server))"
    by (simp add: signed_in_def getSessionIdFromCookie_def getHeader_def HttpRequest_def)
  ultimately show ?thesis using stranger_refused [OF demo_server_run] unfolding demo_http_def by blast
qed


end
