(* ===== verification/Database.thy ===== *)
theory Database
  imports Strings "HOL-Library.Multiset"
begin

text \<open>
  The connections to the database (\<open>DbConnection.h\<close>, \<open>DbConnection.cpp\<close>), the pool that lends them to threads (\<open>DbConnectionPool.cpp\<close>) and the statements
  that the pages run through it (\<open>MysqlUtil.h\<close>). The MySQL connector is the argument \<open>connector\<close>: its calls act on the state \<open>'d\<close> of the database and
  return or throw. \<open>'c\<close> is a connection of the connector, \<open>'p\<close> a prepared statement, \<open>'q\<close> a set of rows. An exception is a value of \<open>dbExn\<close>; a call through a
  null pointer is \<open>NullPointer\<close>, which no handler catches.

  A connection is known by a number, the identity of its object. The pool's functions are cut where a thread gives up the lock: \<open>getConnection_take\<close> is
  the part under the lock, which a thread repeats after each wake-up, and \<open>getConnection_check\<close> the part after it. The threads are counted in the state:
  those that wait on \<open>cv_\<close>, those that were woken and have not yet got the lock, those that check the connection they took, and the connections that are lent.
\<close>

datatype dbExn = SQLException string | DbException string | StdException string | NullPointer

type_synonym ('d, 'a) sql = "'d \<Rightarrow> 'd \<times> (dbExn + 'a)"

definition sql_return :: "'a \<Rightarrow> ('d, 'a) sql" where
  "sql_return x d = (d, Inr x)"

definition sql_bind :: "('d, 'a) sql \<Rightarrow> ('a \<Rightarrow> ('d, 'b) sql) \<Rightarrow> ('d, 'b) sql" where
  "sql_bind m f d = (case m d of (d1, Inl e) \<Rightarrow> (d1, Inl e) | (d1, Inr x) \<Rightarrow> f x d1)"

record ('d, 'c, 'p, 'q) connector =
  driver_connect :: "string \<Rightarrow> string \<Rightarrow> string \<Rightarrow> ('d, 'c option) sql"
  sql_setSchema :: "string \<Rightarrow> 'c \<Rightarrow> ('d, unit) sql"
  sql_setClientOption :: "string \<Rightarrow> string \<Rightarrow> 'c \<Rightarrow> ('d, unit) sql"
  sql_execute :: "string \<Rightarrow> 'c \<Rightarrow> ('d, unit) sql"
  sql_reconnect :: "'c \<Rightarrow> ('d, unit) sql"
  sql_prepare :: "string \<Rightarrow> 'c \<Rightarrow> ('d, 'p) sql"
  sql_setString :: "int \<Rightarrow> string \<Rightarrow> 'p \<Rightarrow> ('d, 'p) sql"
  sql_query :: "'p \<Rightarrow> ('d, 'q) sql"
  sql_update :: "'p \<Rightarrow> ('d, int) sql"

section \<open>A connection\<close>

record 'c dbConnection =
  db_conn :: "'c option"
  db_host :: string
  db_user :: string
  db_password :: string
  db_database :: string

text \<open>\<open>catch (const sql::SQLException& e) throw DbException(e.what())\<close>\<close>

definition as_DbException :: "('d, 'a) sql \<Rightarrow> ('d, 'a) sql" where
  "as_DbException m d = (case m d of (d1, Inl (SQLException what)) \<Rightarrow> (d1, Inl (DbException what)) | r \<Rightarrow> r)"

definition deref :: "'c option \<Rightarrow> ('d, 'c) sql" where
  "deref p d = (d, case p of None \<Rightarrow> Inl NullPointer | Some c \<Rightarrow> Inr c)"

definition DbConnection :: "('d, 'c, 'p, 'q) connector \<Rightarrow> string \<Rightarrow> string \<Rightarrow> string \<Rightarrow> string \<Rightarrow> ('d, 'c dbConnection) sql" where
  "DbConnection k host user password database =
     as_DbException (sql_bind (driver_connect k host user password) (\<lambda>p.
       sql_bind
         (case p of
            None \<Rightarrow> sql_return ()
          | Some c \<Rightarrow>
              sql_bind (sql_setSchema k database c) (\<lambda>_.
              sql_bind (sql_setClientOption k ''OPT_RECONNECT'' ''true'' c) (\<lambda>_.
              sql_bind (sql_setClientOption k ''OPT_CONNECT_TIMEOUT'' ''10'' c) (\<lambda>_.
              sql_bind (sql_setClientOption k ''multi_statements'' ''false'' c) (\<lambda>_.
              sql_execute k ''SET NAMES utf8mb4'' c)))))
         (\<lambda>_. sql_return \<lparr>db_conn = p, db_host = host, db_user = user, db_password = password, db_database = database\<rparr>)))"

definition ping :: "('d, 'c, 'p, 'q) connector \<Rightarrow> 'c dbConnection \<Rightarrow> ('d, bool) sql" where
  "ping k c d =
     (case sql_bind (deref (db_conn c)) (sql_execute k ''SELECT 1'') d of
        (d1, Inr _) \<Rightarrow> (d1, Inr True)
      | (d1, Inl (SQLException _)) \<Rightarrow> (d1, Inr False)
      | (d1, Inl e) \<Rightarrow> (d1, Inl e))"

definition isValid :: "('d, 'c, 'p, 'q) connector \<Rightarrow> 'c dbConnection \<Rightarrow> ('d, bool) sql" where
  "isValid k c d = (if db_conn c = None then (d, Inr False) else ping k c d)"

text \<open>Without a connection a new one is made; it is stored before its schema is set.\<close>

definition reconnect :: "('d, 'c, 'p, 'q) connector \<Rightarrow> 'c dbConnection \<Rightarrow> 'd \<Rightarrow> 'd \<times> 'c dbConnection \<times> (dbExn + unit)" where
  "reconnect k c d =
     (case db_conn c of
        Some c0 \<Rightarrow> (case as_DbException (sql_reconnect k c0) d of (d1, r) \<Rightarrow> (d1, c, r))
      | None \<Rightarrow>
          (case as_DbException (driver_connect k (db_host c) (db_user c) (db_password c)) d of
             (d1, Inl e) \<Rightarrow> (d1, c, Inl e)
           | (d1, Inr p) \<Rightarrow> (case as_DbException (sql_bind (deref p) (sql_setSchema k (db_database c))) d1 of (d2, r) \<Rightarrow> (d2, c\<lparr>db_conn := p\<rparr>, r))))"

text \<open>The arguments of a statement: strings, and numbers that are written out.\<close>

datatype sqlArg = ArgString string | ArgInt int

definition arg_text :: "sqlArg \<Rightarrow> string" where
  "arg_text a = (case a of ArgString s \<Rightarrow> s | ArgInt i \<Rightarrow> to_string i)"

fun bindParams :: "('d, 'c, 'p, 'q) connector \<Rightarrow> 'p \<Rightarrow> int \<Rightarrow> sqlArg list \<Rightarrow> ('d, 'p) sql" where
  "bindParams k stmt index [] = sql_return stmt"
| "bindParams k stmt index (a # args) = sql_bind (sql_setString k index (arg_text a) stmt) (\<lambda>stmt1. bindParams k stmt1 (index + 1) args)"

definition executeQuery :: "('d, 'c, 'p, 'q) connector \<Rightarrow> string \<Rightarrow> sqlArg list \<Rightarrow> 'c dbConnection \<Rightarrow> ('d, 'q) sql" where
  "executeQuery k sql args c =
     as_DbException (sql_bind (deref (db_conn c)) (\<lambda>c0. sql_bind (sql_prepare k sql c0) (\<lambda>stmt. sql_bind (bindParams k stmt 1 args) (sql_query k))))"

definition executeUpdate :: "('d, 'c, 'p, 'q) connector \<Rightarrow> string \<Rightarrow> sqlArg list \<Rightarrow> 'c dbConnection \<Rightarrow> ('d, int) sql" where
  "executeUpdate k sql args c =
     as_DbException (sql_bind (deref (db_conn c)) (\<lambda>c0. sql_bind (sql_prepare k sql c0) (\<lambda>stmt. sql_bind (bindParams k stmt 1 args) (sql_update k))))"

section \<open>The pool\<close>

record ('d, 'c) dbPool =
  pool_host :: string
  pool_user :: string
  pool_password :: string
  pool_database :: string
  connections :: "nat list"
  initialized :: bool
  pool_objs :: "'c dbConnection list"
  pool_waiting :: nat
  pool_woken :: nat
  pool_checked :: "nat list"
  pool_lent :: "nat list"
  pool_db :: 'd

definition DbConnectionPool :: "'d \<Rightarrow> ('d, 'c) dbPool" where
  "DbConnectionPool d = \<lparr>pool_host = [], pool_user = [], pool_password = [], pool_database = [], connections = [], initialized = False, pool_objs = [],
     pool_waiting = 0, pool_woken = 0, pool_checked = [], pool_lent = [], pool_db = d\<rparr>"

definition createConnection :: "('d, 'c, 'p, 'q) connector \<Rightarrow> ('d, 'c) dbPool \<Rightarrow> ('d, 'c) dbPool \<times> (dbExn + nat)" where
  "createConnection k p =
     (case DbConnection k (pool_host p) (pool_user p) (pool_password p) (pool_database p) (pool_db p) of
        (d, Inl e) \<Rightarrow> (p\<lparr>pool_db := d\<rparr>, Inl e)
      | (d, Inr c) \<Rightarrow> (p\<lparr>pool_db := d, pool_objs := pool_objs p @ [c]\<rparr>, Inr (length (pool_objs p))))"

fun initLoop :: "('d, 'c, 'p, 'q) connector \<Rightarrow> nat \<Rightarrow> ('d, 'c) dbPool \<Rightarrow> ('d, 'c) dbPool \<times> (dbExn + unit)" where
  "initLoop k 0 p = (p, Inr ())"
| "initLoop k (Suc n) p =
     (case createConnection k p of
        (p1, Inl e) \<Rightarrow> (p1, Inl e)
      | (p1, Inr i) \<Rightarrow> initLoop k n (p1\<lparr>connections := connections p1 @ [i]\<rparr>))"

definition pool_init :: "('d, 'c, 'p, 'q) connector \<Rightarrow> string \<Rightarrow> string \<Rightarrow> string \<Rightarrow> string \<Rightarrow> nat \<Rightarrow> ('d, 'c) dbPool \<Rightarrow> ('d, 'c) dbPool \<times> (dbExn + unit)" where
  "pool_init k host user password database poolSize p =
     (if initialized p then (p, Inr ())
      else
        (case initLoop k poolSize (p\<lparr>pool_host := host, pool_user := user, pool_password := password, pool_database := database\<rparr>) of
           (p1, Inl e) \<Rightarrow> (p1, Inl e)
         | (p1, Inr _) \<Rightarrow> (p1\<lparr>initialized := True\<rparr>, Inr ())))"

definition notify_one :: "('d, 'c) dbPool \<Rightarrow> ('d, 'c) dbPool" where
  "notify_one p = (if pool_waiting p = 0 then p else p\<lparr>pool_waiting := pool_waiting p - 1, pool_woken := pool_woken p + 1\<rparr>)"

definition push_back :: "nat \<Rightarrow> ('d, 'c) dbPool \<Rightarrow> ('d, 'c) dbPool" where
  "push_back i p = notify_one (p\<lparr>connections := connections p @ [i]\<rparr>)"

datatype taken = TakeThrows dbExn | TakeWaits | Took nat

text \<open>A round of the loop: the thread throws, goes to sleep, or leaves with the connection at the front.\<close>

definition getConnection_take :: "('d, 'c) dbPool \<Rightarrow> ('d, 'c) dbPool \<times> taken" where
  "getConnection_take p =
     (case connections p of
        [] \<Rightarrow>
          if \<not> initialized p then (p, TakeThrows (DbException ''Connection pool not initialized''))
          else (p\<lparr>pool_waiting := pool_waiting p + 1\<rparr>, TakeWaits)
      | i # q \<Rightarrow> (p\<lparr>connections := q, pool_checked := i # pool_checked p\<rparr>, Took i))"

text \<open>The check outside the lock. A standard exception puts the connection back and leaves the function.\<close>

definition pool_ping :: "('d, 'c, 'p, 'q) connector \<Rightarrow> nat \<Rightarrow> ('d, 'c) dbPool \<Rightarrow> ('d, 'c) dbPool \<times> (dbExn + unit)" where
  "pool_ping k i p =
     (case ping k (pool_objs p ! i) (pool_db p) of
        (d, Inl e) \<Rightarrow> (p\<lparr>pool_db := d\<rparr>, Inl e)
      | (d, Inr True) \<Rightarrow> (p\<lparr>pool_db := d\<rparr>, Inr ())
      | (d, Inr False) \<Rightarrow>
          (case reconnect k (pool_objs p ! i) d of (d1, c, r) \<Rightarrow> (p\<lparr>pool_db := d1, pool_objs := (pool_objs p)[i := c]\<rparr>, r)))"

definition getConnection_check :: "('d, 'c, 'p, 'q) connector \<Rightarrow> nat \<Rightarrow> ('d, 'c) dbPool \<Rightarrow> ('d, 'c) dbPool \<times> (dbExn + nat)" where
  "getConnection_check k i p =
     (case pool_ping k i p of
        (p1, Inr _) \<Rightarrow> (p1\<lparr>pool_checked := remove1 i (pool_checked p1), pool_lent := i # pool_lent p1\<rparr>, Inr i)
      | (p1, Inl NullPointer) \<Rightarrow> (p1, Inl NullPointer)
      | (p1, Inl e) \<Rightarrow> (push_back i (p1\<lparr>pool_checked := remove1 i (pool_checked p1)\<rparr>), Inl e))"

text \<open>The deleter of the pointer that was handed out.\<close>

definition release :: "nat \<Rightarrow> ('d, 'c) dbPool \<Rightarrow> ('d, 'c) dbPool" where
  "release i p = push_back i (p\<lparr>pool_lent := remove1 i (pool_lent p)\<rparr>)"

text \<open>A round of the thread that checks the connections that were in the pool when it looked. An exception of \<open>reconnect\<close> is caught for each connection, one of
  \<open>ping\<close> ends the round.\<close>

fun checkConnections :: "('d, 'c, 'p, 'q) connector \<Rightarrow> nat list \<Rightarrow> ('d, 'c) dbPool \<Rightarrow> ('d, 'c) dbPool" where
  "checkConnections k [] p = p"
| "checkConnections k (i # connsToCheck) p =
     (case ping k (pool_objs p ! i) (pool_db p) of
        (d, Inl e) \<Rightarrow> p\<lparr>pool_db := d\<rparr>
      | _ \<Rightarrow> checkConnections k connsToCheck (fst (pool_ping k i p)))"

text \<open>A statement through the pool, by a thread that runs alone from the take to the release; \<open>None\<close> is a thread that sleeps. \<open>stmt\<close> is the statement on the connection.\<close>

definition with_connection :: "('d, 'c, 'p, 'q) connector \<Rightarrow> ('c dbConnection \<Rightarrow> ('d, 'a) sql) \<Rightarrow> ('d, 'c) dbPool \<Rightarrow> ('d, 'c) dbPool \<times> (dbExn + 'a) option" where
  "with_connection k stmt p =
     (case getConnection_take p of
        (p1, TakeThrows e) \<Rightarrow> (p1, Some (Inl e))
      | (p1, TakeWaits) \<Rightarrow> (p1, None)
      | (p1, Took i) \<Rightarrow>
          (case getConnection_check k i p1 of
             (p2, Inl e) \<Rightarrow> (p2, Some (Inl e))
           | (p2, Inr j) \<Rightarrow> (case stmt (pool_objs p2 ! j) (pool_db p2) of (d, r) \<Rightarrow> (release j (p2\<lparr>pool_db := d\<rparr>), Some r))))"

definition mysql_executeQuery :: "('d, 'c, 'p, 'q) connector \<Rightarrow> string \<Rightarrow> sqlArg list \<Rightarrow> ('d, 'c) dbPool \<Rightarrow> ('d, 'c) dbPool \<times> (dbExn + 'q) option" where
  "mysql_executeQuery k sql args = with_connection k (executeQuery k sql args)"

definition mysql_executeUpdate :: "('d, 'c, 'p, 'q) connector \<Rightarrow> string \<Rightarrow> sqlArg list \<Rightarrow> ('d, 'c) dbPool \<Rightarrow> ('d, 'c) dbPool \<times> (dbExn + int) option" where
  "mysql_executeUpdate k sql args = with_connection k (executeUpdate k sql args)"

text \<open>The states of the pool that threads reach, in any order of their steps. The database may change at any time.\<close>

inductive pool_run :: "('d, 'c, 'p, 'q) connector \<Rightarrow> ('d, 'c) dbPool \<Rightarrow> bool" for k where
  pool_start: "pool_run k (DbConnectionPool d)"
| pool_inits: "pool_run k p \<Longrightarrow> pool_run k (fst (pool_init k host user password database n p))"
| pool_takes: "pool_run k p \<Longrightarrow> pool_run k (fst (getConnection_take p))"
| pool_resumes: "pool_run k p \<Longrightarrow> pool_woken p > 0 \<Longrightarrow> pool_run k (fst (getConnection_take (p\<lparr>pool_woken := pool_woken p - 1\<rparr>)))"
| pool_spurious: "pool_run k p \<Longrightarrow> pool_waiting p > 0 \<Longrightarrow> pool_run k (notify_one p)"
| pool_checks: "pool_run k p \<Longrightarrow> i \<in> set (pool_checked p) \<Longrightarrow> pool_run k (fst (getConnection_check k i p))"
| pool_releases: "pool_run k p \<Longrightarrow> i \<in> set (pool_lent p) \<Longrightarrow> pool_run k (release i p)"
| pool_rounds: "pool_run k p \<Longrightarrow> set is \<subseteq> {..<length (pool_objs p)} \<Longrightarrow> pool_run k (checkConnections k is p)"
| pool_uses: "pool_run k p \<Longrightarrow> pool_run k (p\<lparr>pool_db := d\<rparr>)"

section \<open>Every connection is in one place\<close>

text \<open>\<open>pool_parts\<close> are the places a connection can be in; \<open>pool_awake\<close> says that sleeping threads miss no connection.\<close>

definition pool_parts :: "('d, 'c) dbPool \<Rightarrow> nat multiset" where
  "pool_parts p = mset (connections p) + mset (pool_checked p) + mset (pool_lent p)"

definition pool_awake :: "('d, 'c) dbPool \<Rightarrow> bool" where
  "pool_awake p \<longleftrightarrow> (pool_waiting p > 0 \<longrightarrow> initialized p \<and> length (connections p) \<le> pool_woken p)"

definition pool_ok :: "('d, 'c) dbPool \<Rightarrow> bool" where
  "pool_ok p \<longleftrightarrow> pool_parts p = mset [0..<length (pool_objs p)] \<and> pool_awake p"

lemma mset_take_out: "i \<in> set xs \<Longrightarrow> mset xs = add_mset i (mset (remove1 i xs))"
  by simp

lemma pool_ping_frame:
  assumes "pool_ping k i p = (p1, r)"
  shows "connections p1 = connections p" "pool_checked p1 = pool_checked p" "pool_lent p1 = pool_lent p" "length (pool_objs p1) = length (pool_objs p)"
    "pool_waiting p1 = pool_waiting p" "pool_woken p1 = pool_woken p" "initialized p1 = initialized p"
  using assms by (auto simp: pool_ping_def split: prod.splits sum.splits bool.splits)

lemma pool_ok_ping: "pool_ping k i p = (p1, r) \<Longrightarrow> pool_ok p1 = pool_ok p"
  by (simp add: pool_ok_def pool_parts_def pool_awake_def pool_ping_frame)

lemma pool_ok_db [simp]: "pool_ok (p\<lparr>pool_db := d\<rparr>) = pool_ok p"
  by (simp add: pool_ok_def pool_parts_def pool_awake_def)

lemma pool_ok_round: "pool_ok p \<Longrightarrow> pool_ok (checkConnections k is p)"
proof (induction k "is" p rule: checkConnections.induct)
  case (2 k i connsToCheck p)
  have "pool_ok (fst (pool_ping k i p))" using pool_ok_ping [of k i p] 2(2) by (cases "pool_ping k i p") simp
  then show ?case using 2 by (simp split: prod.split sum.split)
qed simp

lemma push_back_parts: "pool_parts (push_back i p) = add_mset i (pool_parts p)" "pool_objs (push_back i p) = pool_objs p"
  by (simp_all add: pool_parts_def push_back_def notify_one_def)

lemma push_back_awake: "pool_awake p \<Longrightarrow> pool_awake (push_back i p)"
  by (auto simp: pool_awake_def push_back_def notify_one_def)

lemma pool_parts_move:
  "i \<in> set (pool_checked p) \<Longrightarrow> add_mset i (pool_parts (p\<lparr>pool_checked := remove1 i (pool_checked p)\<rparr>)) = pool_parts p"
  "i \<in> set (pool_lent p) \<Longrightarrow> add_mset i (pool_parts (p\<lparr>pool_lent := remove1 i (pool_lent p)\<rparr>)) = pool_parts p"
  "pool_parts (p\<lparr>pool_checked := xs, pool_lent := i # ys\<rparr>) = add_mset i (pool_parts (p\<lparr>pool_checked := xs, pool_lent := ys\<rparr>))"
  by (simp_all add: pool_parts_def del: mset_remove1) (metis mset_take_out union_mset_add_mset_right union_mset_add_mset_left)+

lemma pool_ok_check:
  assumes "pool_ok p" "i \<in> set (pool_checked p)"
  shows "pool_ok (fst (getConnection_check k i p))"
proof -
  obtain p1 r where p1: "pool_ping k i p = (p1, r)" by force
  let ?q = "p1\<lparr>pool_checked := remove1 i (pool_checked p1)\<rparr>"
  have ok: "pool_ok p1" and c: "i \<in> set (pool_checked p1)"
    using assms pool_ok_ping [OF p1] pool_ping_frame(2) [OF p1] by simp_all
  have put: "pool_ok (push_back i ?q)"
    using ok c push_back_awake [of ?q i] by (simp add: pool_ok_def push_back_parts pool_parts_move) (simp add: pool_awake_def)
  have lend: "pool_ok (p1\<lparr>pool_checked := remove1 i (pool_checked p1), pool_lent := i # pool_lent p1\<rparr>)"
    using ok pool_parts_move(1) [OF c] by (simp add: pool_ok_def pool_parts_move(3)) (simp add: pool_awake_def)
  show ?thesis using ok put lend by (simp add: getConnection_check_def p1 split: sum.splits dbExn.splits)
qed

lemma pool_ok_release: "pool_ok p \<Longrightarrow> i \<in> set (pool_lent p) \<Longrightarrow> pool_ok (release i p)"
  using push_back_awake [of "p\<lparr>pool_lent := remove1 i (pool_lent p)\<rparr>" i]
  by (simp add: release_def pool_ok_def push_back_parts pool_parts_move) (simp add: pool_awake_def)

lemma createConnection_frame:
  assumes "createConnection k p = (p1, r)"
  shows "connections p1 = connections p" "pool_checked p1 = pool_checked p" "pool_lent p1 = pool_lent p" "pool_waiting p1 = pool_waiting p"
    "initialized p1 = initialized p" "length (pool_objs p1) = length (pool_objs p) + (case r of Inl _ \<Rightarrow> 0 | Inr _ \<Rightarrow> 1)"
    "\<And>i. r = Inr i \<Longrightarrow> i = length (pool_objs p)"
  using assms by (auto simp: createConnection_def split: prod.splits sum.splits)

lemma initLoop_frame:
  assumes "initLoop k n p = (p1, r)"
  shows "pool_checked p1 = pool_checked p \<and> pool_lent p1 = pool_lent p \<and> pool_waiting p1 = pool_waiting p \<and> initialized p1 = initialized p"
  using assms
proof (induction k n p arbitrary: p1 r rule: initLoop.induct)
  case (2 k n p)
  obtain p2 e where c: "createConnection k p = (p2, e)" by force
  show ?case
  proof (cases e)
    case (Inl x)
    then show ?thesis using 2(2) createConnection_frame [OF c] by (simp add: c)
  next
    case (Inr i)
    then show ?thesis using 2(1) [OF c [symmetric] Inr, of p1 r] 2(2) createConnection_frame [OF c] by (simp add: c)
  qed
qed simp

lemma initLoop_new:
  assumes "initLoop k n p = (p1, r)"
  shows "\<exists>j. connections p1 = connections p @ [length (pool_objs p)..<length (pool_objs p) + j] \<and> length (pool_objs p1) = length (pool_objs p) + j \<and>
    (r = Inr () \<longrightarrow> j = n)"
  using assms
proof (induction k n p arbitrary: p1 r rule: initLoop.induct)
  case (1 k p)
  then show ?case by (auto intro: exI [of _ 0])
next
  case (2 k n p)
  obtain p2 e where c: "createConnection k p = (p2, e)" by force
  show ?case
  proof (cases e)
    case (Inl x)
    then show ?thesis using 2(2) createConnection_frame [OF c] by (auto simp: c intro!: exI [of _ 0])
  next
    case (Inr i)
    note p2 = createConnection_frame [OF c, unfolded Inr, simplified]
    obtain j where j: "connections p1 = connections p2 @ [i] @ [length (pool_objs p2)..<length (pool_objs p2) + j]" "length (pool_objs p1) = length (pool_objs p2) + j"
        "r = Inr () \<longrightarrow> j = n"
      using 2(1) [OF c [symmetric] Inr, of p1 r] 2(2) by (auto simp: c Inr)
    show ?thesis using j p2 by (intro exI [of _ "Suc j"]) (simp add: upt_conv_Cons)
  qed
qed

lemma pool_ok_init:
  assumes ok: "pool_ok p"
  shows "pool_ok (fst (pool_init k host user password database n p))"
proof (cases "initialized p")
  case False
  let ?p = "p\<lparr>pool_host := host, pool_user := user, pool_password := password, pool_database := database\<rparr>"
  obtain p1 r where p1: "initLoop k n ?p = (p1, r)" by force
  obtain j where j: "connections p1 = connections p @ [length (pool_objs p)..<length (pool_objs p) + j]" "length (pool_objs p1) = length (pool_objs p) + j"
    using initLoop_new [OF p1] by auto
  have m: "mset [0..<length (pool_objs p1)] = mset [0..<length (pool_objs p)] + mset [length (pool_objs p)..<length (pool_objs p) + j]"
    unfolding j(2) upt_add_eq_append [OF le0] by (simp only: mset_append)
  have parts: "pool_parts p1 = mset [0..<length (pool_objs p1)]"
    using ok j initLoop_frame [OF p1] unfolding m by (simp add: pool_ok_def pool_parts_def ac_simps del: mset_upt)
  have w: "pool_waiting p1 = 0" using ok False initLoop_frame [OF p1] by (auto simp: pool_ok_def pool_awake_def)
  have "pool_ok p1" "pool_ok (p1\<lparr>initialized := True\<rparr>)"
    using parts w by (simp_all add: pool_ok_def pool_awake_def) (simp add: pool_parts_def)
  then show ?thesis using False by (simp add: pool_init_def p1 split: sum.split)
qed (simp add: pool_init_def assms)

lemma pool_ok_take: "pool_ok p \<Longrightarrow> pool_ok (fst (getConnection_take p))"
  by (auto simp: pool_ok_def pool_parts_def pool_awake_def getConnection_take_def simp del: mset_upt split: list.splits)

lemma pool_ok_resume:
  assumes "pool_ok p" "pool_woken p > 0"
  shows "pool_ok (fst (getConnection_take (p\<lparr>pool_woken := pool_woken p - 1\<rparr>)))"
  using assms by (auto simp: pool_ok_def pool_parts_def pool_awake_def getConnection_take_def simp del: mset_upt split: list.splits)

lemma pool_run_ok: "pool_run k p \<Longrightarrow> pool_ok p"
proof (induction rule: pool_run.induct)
  case (pool_start d)
  show ?case by (simp add: pool_ok_def pool_parts_def pool_awake_def DbConnectionPool_def)
next
  case (pool_spurious p)
  then show ?case by (auto simp: pool_ok_def pool_parts_def pool_awake_def notify_one_def)
next
  case (pool_resumes p)
  then show ?case using pool_ok_resume by blast
qed (auto intro: pool_ok_init pool_ok_take pool_ok_check pool_ok_release pool_ok_round)

section \<open>Statements through the pool\<close>

lemma as_DbException_not_SQL: "as_DbException m d \<noteq> (d1, Inl (SQLException what))"
  by (auto simp: as_DbException_def split: prod.splits sum.splits dbExn.splits)

lemma ping_not_SQL: "ping k c d \<noteq> (d1, Inl (SQLException what))"
  by (auto simp: ping_def split: prod.splits sum.splits dbExn.splits)

lemma reconnect_not_SQL: "reconnect k c d \<noteq> (d1, c1, Inl (SQLException what))"
  by (auto simp: reconnect_def dest: as_DbException_not_SQL [THEN notE] split: option.splits prod.splits sum.splits)

lemma pool_ping_not_SQL: "pool_ping k i p \<noteq> (p1, Inl (SQLException what))"
  using ping_not_SQL reconnect_not_SQL by (fastforce simp: pool_ping_def split: prod.splits sum.splits bool.splits)

lemma check_not_SQL: "getConnection_check k i p \<noteq> (p1, Inl (SQLException what))"
  using pool_ping_not_SQL [of k i p] by (auto simp: getConnection_check_def split: prod.splits sum.splits dbExn.splits)

lemma push_back_frame [simp]:
  "mset (connections (push_back i p)) = add_mset i (mset (connections p))" "pool_lent (push_back i p) = pool_lent p" "pool_checked (push_back i p) = pool_checked p"
  by (simp_all add: push_back_def notify_one_def)

text \<open>The places of the connections after a check: put back, lent, or, after a null pointer, still with the thread.\<close>

lemma check_places:
  assumes "getConnection_check k i p = (p2, r)" "i \<in> set (pool_checked p)"
  shows "case r of
      Inr j \<Rightarrow> j = i \<and> mset (connections p2) = mset (connections p) \<and> pool_lent p2 = i # pool_lent p
    | Inl e \<Rightarrow> e = NullPointer \<or> mset (connections p2) = add_mset i (mset (connections p)) \<and> pool_lent p2 = pool_lent p"
proof -
  obtain p1 r1 where p1: "pool_ping k i p = (p1, r1)" by force
  show ?thesis using assms pool_ping_frame [OF p1] by (auto simp: getConnection_check_def p1 split: sum.splits dbExn.splits)
qed

lemma with_connection_gives_back:
  assumes run: "with_connection k stmt p = (p2, Some r)" and r: "r \<noteq> Inl NullPointer"
  shows "mset (connections p2) = mset (connections p) \<and> pool_lent p2 = pool_lent p"
proof (cases "connections p")
  case Nil
  then show ?thesis using run by (auto simp: with_connection_def getConnection_take_def split: if_splits)
next
  case (Cons i q)
  let ?p1 = "p\<lparr>connections := q, pool_checked := i # pool_checked p\<rparr>"
  obtain p3 r3 where c: "getConnection_check k i ?p1 = (p3, r3)" by force
  show ?thesis
    using run r check_places [OF c] Cons by (auto simp: with_connection_def getConnection_take_def c release_def split: sum.splits prod.splits)
qed

lemma with_connection_not_SQL:
  assumes "\<And>c d d1 what. stmt c d \<noteq> (d1, Inl (SQLException what))"
  shows "snd (with_connection k stmt p) \<noteq> Some (Inl (SQLException what))"
  using assms check_not_SQL [of k]
  by (fastforce simp: with_connection_def getConnection_take_def split: list.splits prod.splits sum.splits if_splits)

section \<open>Properties\<close>


text \<open>The condition variable of the pool loses no wake-up: in every reachable state with a free connection and a sleeping thread, a thread has been woken,
  and the next round of that thread takes the connection at the front.\<close>

theorem pool_wakes_a_thread:
  assumes "pool_run k p" "pool_waiting p > 0" "connections p \<noteq> []"
  shows "pool_woken p > 0 \<and> snd (getConnection_take (p\<lparr>pool_woken := pool_woken p - 1\<rparr>)) = Took (hd (connections p))"
  using pool_run_ok [OF assms(1)] assms(2,3) by (cases "connections p") (auto simp: pool_ok_def pool_awake_def getConnection_take_def)

text \<open>A query through the pool gives its connection back whether it returns or throws, and what it throws is never an \<open>sql::SQLException\<close>: the handlers
  for that exception around the queries of \<open>RegisterHandler\<close> are dead code, and a failed query leaves its page instead.\<close>

theorem query_gives_back:
  assumes "mysql_executeQuery k sql args p = (p2, Some r)" "r \<noteq> Inl NullPointer"
  shows "mset (connections p2) = mset (connections p) \<and> pool_lent p2 = pool_lent p \<and> (\<forall>what. r \<noteq> Inl (SQLException what))"
proof -
  have run: "with_connection k (executeQuery k sql args) p = (p2, Some r)" using assms(1) by (simp add: mysql_executeQuery_def)
  have "executeQuery k sql args c d \<noteq> (d1, Inl (SQLException what))" for c d d1 what by (simp add: executeQuery_def as_DbException_not_SQL)
  then show ?thesis
    using with_connection_gives_back [OF run assms(2)] with_connection_not_SQL [of "executeQuery k sql args" k p] run by (metis snd_conv)
qed

section \<open>Witnesses\<close>

text \<open>A database that is up or down and answers every query with the texts that were bound.\<close>

definition demo_answer :: "'a \<Rightarrow> (bool, 'a) sql" where
  "demo_answer x up = (up, if up then Inr x else Inl (SQLException ''gone''))"

definition demo_connector :: "(bool, unit, string list, string list) connector" where
  "demo_connector =
     \<lparr>driver_connect = (\<lambda>_ _ _. demo_answer (Some ())), sql_setSchema = (\<lambda>_ _. demo_answer ()), sql_setClientOption = (\<lambda>_ _ _. demo_answer ()),
      sql_execute = (\<lambda>_ _. demo_answer ()), sql_reconnect = (\<lambda>_. demo_answer ()), sql_prepare = (\<lambda>_ _. demo_answer []),
      sql_setString = (\<lambda>_ s stmt. demo_answer (stmt @ [s])), sql_query = demo_answer, sql_update = (\<lambda>_. demo_answer 1)\<rparr>"

definition demo_pool :: "nat \<Rightarrow> (bool, unit) dbPool" where
  "demo_pool n = fst (pool_init demo_connector ''h'' ''u'' ''p'' ''d'' n (DbConnectionPool True))"

text \<open>One connection, which is lent while two threads sleep, and then given back.\<close>

definition demo_lent :: "(bool, unit) dbPool" where
  "demo_lent =
     fst (getConnection_take (fst (getConnection_take (fst (getConnection_check demo_connector 0 (fst (getConnection_take (demo_pool 1))))))))"

lemma demo_lent_value:
  "connections demo_lent = []" "pool_checked demo_lent = []" "pool_lent demo_lent = [0]" "pool_waiting demo_lent = 2" "pool_woken demo_lent = 0"
  "length (pool_objs demo_lent) = 1" "pool_checked (fst (getConnection_take (demo_pool 1))) = [0]"
  by code_simp+

lemma demo_pool_run: "pool_run demo_connector (demo_pool n)"
  unfolding demo_pool_def by (intro pool_inits pool_start)

lemma demo_lent_run: "pool_run demo_connector demo_lent"
  unfolding demo_lent_def by (rule pool_takes pool_checks)+ (simp_all add: demo_lent_value(7) [unfolded One_nat_def] demo_pool_run)


theorem pool_wakes_a_thread_witness:
  "pool_waiting (release 0 demo_lent) = 1 \<and> snd (getConnection_take ((release 0 demo_lent)\<lparr>pool_woken := pool_woken (release 0 demo_lent) - 1\<rparr>)) = Took 0"
proof -
  have "pool_run demo_connector (release 0 demo_lent)" by (rule pool_releases) (simp_all add: demo_lent_run demo_lent_value)
  moreover have "pool_waiting (release 0 demo_lent) = 1" "connections (release 0 demo_lent) = [0]"
    by (simp_all add: release_def push_back_def notify_one_def demo_lent_value)
  ultimately show ?thesis using pool_wakes_a_thread [of demo_connector "release 0 demo_lent"] by simp
qed

theorem query_gives_back_witness:
  "snd (mysql_executeQuery demo_connector ''SELECT id'' [ArgString ''ann'', ArgInt 7] (demo_pool 2)) = Some (Inr [''ann'', ''7'']) \<and>
   mset (connections (fst (mysql_executeQuery demo_connector ''SELECT id'' [ArgString ''ann'', ArgInt 7] (demo_pool 2)))) = mset [0, 1]"
proof -
  let ?x = "mysql_executeQuery demo_connector ''SELECT id'' [ArgString ''ann'', ArgInt 7] (demo_pool 2)"
  have r: "snd ?x = Some (Inr [''ann'', ''7''])" and c: "connections (demo_pool 2) = [0, 1]" by code_simp+
  show ?thesis
    using query_gives_back [of demo_connector "''SELECT id''" "[ArgString ''ann'', ArgInt 7]" "demo_pool 2" "fst ?x" "Inr [''ann'', ''7'']"] r c
    by (simp add: prod_eq_iff)
qed

end
