(* ===== verification/Spec2Isabelle.thy ===== *)
theory Spec2Isabelle
  imports Runs ReplicaProperties KvService Clerk PvpService AiGame GameSafety Rpc Hook WebServer Database
begin

text \<open>
  A replicated key-value store on Raft (\<open>raft_KV/src\<close>) and a game server for Gomoku that keeps its games in it
  (\<open>HTTPServer\<close>), modelled bottom up.

  \<^bold>\<open>The program.\<close> A group of processes runs the class \<open>Raft\<close>; each hands committed commands to a \<open>KvServer\<close>, which
  executes them on a skip list and answers clients. A \<open>Clerk\<close> finds the leader and repeats calls. Calls between processes go
  through an RPC layer; the tickers of a replica run as fibers on a scheduler with timers, epoll events and hooked system calls. The game server takes HTTP requests
  and WebSocket messages over TLS; a request passes the middleware and the router to a page, which uses sessions, the
  database and the games. Games between players are \<open>GameRoom\<close> objects, kept as JSON snapshots in a store, in memory or
  behind a clerk. A game against the computer is \<open>AiGame\<close>.

  \<^bold>\<open>Conventions.\<close> \<open>'a result\<close> is a sum: \<open>Inl\<close> is a failed assertion, an index out of bounds or an exception, so every such
  exit of the source is a branch of the model. A C++ \<open>int\<close> is an \<open>int\<close> where it only counts or compares; lengths and
  bytes of the WebSocket protocol, times, flags and event masks keep their widths. A function that holds a lock for its whole
  length is one step; a function that gives up its lock, waits or switches fibers is cut there. Code
  outside the repository is an argument: Protobuf and Boost (\<open>codec\<close>, \<open>protobuf\<close>), the JSON text form (\<open>jsonLib\<close>), the network, the kernel,
  OpenSSL (\<open>sslLib\<close>, \<open>openssl\<close>), the MySQL connector, files, the clock, random numbers, SHA1 with base64. What is assumed of them is a named hypothesis: \<open>codec_ok\<close>,
  \<open>protobuf_ok\<close> and \<open>json_ok\<close> say that reading back what was written gives the value, \<open>bio_ok\<close> that a memory BIO is a queue of bytes.
  JSON values are trees with integers; objects are association lists, and fractions do not occur in the messages of the program.

  \<^bold>\<open>Theories and sources: the store.\<close>
  \<^item> \<open>Prelude\<close>, \<open>Strings\<close>: the result type, vectors, and the part of the standard library's strings that is used.
  \<^item> \<open>Archive\<close>: messages and stored records (\<open>raftRPC.proto\<close>, \<open>raft.h\<close>, \<open>common/include/util.h\<close>). \<open>Persister\<close>: \<open>Persister.cpp\<close>.
  \<^item> \<open>RaftNode\<close>: \<open>raft.cpp\<close>, one definition per member function on the record \<open>raft\<close>. \<open>RaftLog\<close> is its invariant \<open>raft_wf\<close>, \<open>RaftOps\<close> the
    contract of every function (locale \<open>replica_op\<close>), \<open>ReplicaProperties\<close> the outcomes of the main ones.
  \<^item> \<open>Cluster\<close>: the group, its threads and the network as events; \<open>Quorum\<close> (locale \<open>quorums\<close>), \<open>Election\<close>, \<open>Replication\<close> are the
    invariants of its runs and \<open>Runs\<close> the properties, with concrete runs in which the code breaks a promise of Raft.
  \<^item> \<open>Util\<close>, \<open>Config\<close>: \<open>LockQueue\<close> and helpers, \<open>mprpcconfig.cpp\<close>. \<open>SkipList\<close>: \<open>skipList.h\<close> on a heap of nodes, with the locale
    \<open>kv_store\<close> that it implements.
  \<^item> \<open>KvServer\<close>: \<open>kvServer.cpp\<close>, its handlers cut where they wait; \<open>KvService\<close> shows that servers refine the abstract
    service \<open>spec_apply\<close>. \<open>Clerk\<close>: \<open>clerk.cpp\<close>.
  \<^item> \<open>Rpc\<close>: \<open>mprpcchannel.cpp\<close>, \<open>rpcprovider.cpp\<close>, \<open>mprpccontroller.cpp\<close>, with the file of addresses that the providers write and the clients read.
  \<^item> \<open>Timer\<close>: \<open>timer.cpp\<close>. \<open>Fibers\<close>: \<open>fiber.cpp\<close>, \<open>scheduler.cpp\<close>, threads as a record of the step relation \<open>sched_run\<close>. \<open>IoManager\<close>: \<open>iomanager.cpp\<close>, with the kernel's
    interest list. \<open>Hook\<close>: \<open>hook.cpp\<close>, \<open>fd_manager.cpp\<close>, over a kernel of open descriptors.

  \<^bold>\<open>Theories and sources: the game server.\<close>
  \<^item> \<open>Json\<close>, \<open>Board\<close>, \<open>GameRoom\<close>, \<open>AiGame\<close>: JSON values, the board and the rule of five, \<open>GameRoom.cpp\<close>, \<open>AiGame.cpp\<close>.
  \<^item> \<open>GameStore\<close>: \<open>GameStateStore.h\<close>, \<open>RaftGameStateStore.cpp\<close>, \<open>RaftClerkGameStateClient.cpp\<close>. The locale \<open>game_store\<close> is the contract of a
    store, \<open>state_client\<close> that of its remote client; both are interpreted on the code, the second on the clerk over the
    abstract service. \<open>PvpService\<close>: \<open>PvpGameService.cpp\<close> over any such store.
  \<^item> \<open>Http\<close>: \<open>HttpRequest.cpp\<close>, \<open>HttpContext.cpp\<close>, \<open>HttpResponse.cpp\<close>. \<open>WebSocket\<close>: \<open>WebSocketFrame.cpp\<close>, \<open>WebSocketContext.cpp\<close>. \<open>WsServer\<close>:
    \<open>WebSocketServer.cpp\<close>.
  \<^item> \<open>GameServer\<close>: \<open>MatchmakingPool.cpp\<close>, \<open>ChatManager.cpp\<close>, the rooms of \<open>GomokuServer.cpp\<close>, \<open>GameWsHandler.cpp\<close> with its messages;
    \<open>GameSafety\<close> the invariant of the whole server over the replicated store.
  \<^item> \<open>Middleware\<close>: \<open>middleware/*\<close>. \<open>Router\<close>: \<open>Router.cpp\<close>. \<open>Session\<close>: \<open>session/*\<close>. \<open>Tls\<close>: \<open>SslConnection.cpp\<close>. \<open>TlsContext\<close>: \<open>SslConfig.cpp\<close>, \<open>SslContext.cpp\<close>. \<open>Database\<close>:
    \<open>utils/db/*\<close> and \<open>MysqlUtil.h\<close>.
  \<^item> \<open>HttpServer\<close>: \<open>HttpServer.cpp\<close>, the callbacks of a connection from its bytes through middleware, router and handler to the bytes of the answer,
    generic in the handlers.
  \<^item> \<open>Pages\<close>: \<open>handlers/*.cpp\<close>, the rest of \<open>GomokuServer.cpp\<close>, \<open>DatabaseConfig.cpp\<close>, \<open>main.cpp\<close>; its step relation \<open>site_run\<close> starts from the
    constructor of the server. \<open>WebServer\<close> puts the pages behind the callbacks of \<open>HttpServer\<close>; its step relation \<open>server_run\<close> has connections and bytes.

  \<^bold>\<open>What is shown.\<close> Of the group: one leader per term, agreement of entries, no assertion fires but one, and where
  committed commands diverge or a restart breaks the election. Of a replica: full outcomes of its remote functions, of
  the applier and of snapshots. Of the service: the skip list refines a sorted map and frees its nodes, servers with the
  same commands agree, repeated writes are ignored, and where reads and snapshots break this. Of the clerk: it finds the
  leader within one round, and repeats writes under new numbers. Of remote calls: they run the named method once on the
  serialized arguments and return its reply, they leak no descriptor, and cut requests and long replies go wrong. Of the
  fibers: every task runs once on the right thread, timers and events wake exactly what waits for them, a hooked call never
  blocks its thread, and the races that end the process. Of the games: the rule of five, the rules of a room, the
  computer's moves, exact restoration from snapshots, refinement of an abstract service by the stored one, survival of
  every game whatever the network does, and that players are only shown stored positions. Of the protocols: frames
  and requests are read back exactly and independently of how the network cuts them, the bounds of the frame
  parser, and two states of a connection that the code does not clean up. Of the web server: each request is answered
  once, the rate limits hold over any interval, a session lasts for its hour and no client chooses its identifier, TLS sends every
  byte and never speaks a version below the configured one, each database connection is in one place and no wake-up of the pool is
  lost. Of the pages: users' pages need a signed-in session, a login leads to the menu, every answer is well-formed, the games
  against the computer stay legal, and where a logout locks a user out or a name leaves its string literal. The refusal of
  strangers and the legality of the games are shown for the whole server, from the bytes of its connections.

  \<^bold>\<open>Fuel and termination.\<close> The loops of the clerk and of \<open>timeOutPop\<close> have what happens before the deadline as an argument. Loops that may
  run forever are partial functions whose value \<open>None\<close> is non-termination: the walks of the skip list along its pointers, with
  theorems that they return on every well-formed list, the loop of the HTTP parser, with the theorem that it returns on
  every incomplete request, and the loops over OpenSSL's buffers, with the theorem that sending ends. All other loops are total functions.

  \<^bold>\<open>What the game theorems rest on.\<close> The store behind the clerk is the abstract service. A write that was not answered
  in time was executed during its call or not at all; a write that the group executes later, after the clerk's next
  call, is not a behaviour of this network. \<open>Runs\<close> shows that the group itself may diverge; the theorems about the games
  hold for a group that does not.

  \<^bold>\<open>Not modelled.\<close> Generated code and context switches of \<open>ucontext\<close>; the wrappers of pthread, backtraces and log output; muduo's event loop, which calls the
  callbacks that are modelled; the destructors of the database classes. A handler of the game server runs without interleaving with others; the
  pages see the database behind the pool as one value, and \<open>Database\<close> shows what the pool does between its threads. The order of iteration of a
  hash map is that of an association list.
\<close>

end
